(* ===== verification/Base_Prelude.thy ===== *)
theory Base_Prelude
imports "HOL-Library.Word" "HOL-Library.Monad_Syntax"
begin

text \<open>
  Shared vocabulary of the development.

  Machine integers of the simulator are words of the width the C++ code uses:
  addresses and ticks are \<^typ>\<open>64 word\<close>, flag fields and identifiers 32- or
  16-bit words, bytes \<^typ>\<open>8 word\<close>.  Counters that only ever index a container
  (the number of ways, a set index, a position in a list) are \<^typ>\<open>nat\<close>.

  A C++ \<open>assert\<close>, \<open>panic\<close>, null dereference or out-of-range access is the value
  \<^term>\<open>None\<close> of an option-typed operation; \<^term>\<open>Some\<close> is a normal return.  A
  constructor that can call \<open>fatal\<close> on a bad configuration returns a sum whose
  left component is the message.  Objects the code shares by pointer live in a
  store, a list indexed by \<^typ>\<open>nat\<close>.
\<close>

type_synonym addr = "64 word"
type_synonym tick = "64 word"
type_synonym byte = "8 word"
type_synonym master_id = "16 word"

named_theorems step_simps \<open>unfolding of the operations of a component\<close>
named_theorems wf_intros \<open>preservation of the invariants\<close>

definition MaxTick :: tick where "MaxTick = 0xFFFFFFFFFFFFFFFF"

subsection \<open>Assertions\<close>

definition check :: "bool \<Rightarrow> unit option" where
  "check b = (if b then Some () else None)"

lemma check_eq_Some [simp]: "check b = Some u \<longleftrightarrow> b"
  by (simp add: check_def)

lemma check_eq_None [simp]: "check b = None \<longleftrightarrow> \<not> b"
  by (simp add: check_def)

lemma check_bind [simp]: "(check b \<bind> f) = (if b then f () else None)"
  by (simp add: check_def)

text \<open>Reading a container at an index: out of range is a failure.\<close>

definition at :: "'a list \<Rightarrow> nat \<Rightarrow> 'a option" where
  "at xs i = (if i < length xs then Some (xs ! i) else None)"

lemma at_Some [simp]: "i < length xs \<Longrightarrow> at xs i = Some (xs ! i)"
  by (simp add: at_def)

lemma at_eq_Some: "at xs i = Some x \<longleftrightarrow> i < length xs \<and> xs ! i = x"
  by (auto simp: at_def)

lemma at_eq_None [simp]: "at xs i = None \<longleftrightarrow> length xs \<le> i"
  by (auto simp: at_def)

lemma bind_eq_Some: "(m \<bind> f) = Some y \<longleftrightarrow> (\<exists>x. m = Some x \<and> f x = Some y)"
  by (cases m) auto

text \<open>Writing a container at an index.\<close>

definition put :: "'a list \<Rightarrow> nat \<Rightarrow> 'a \<Rightarrow> 'a list option" where
  "put xs i v = (if i < length xs then Some (xs[i := v]) else None)"

lemma put_Some [simp]: "i < length xs \<Longrightarrow> put xs i v = Some (xs[i := v])"
  by (simp add: put_def)

lemma put_eq_Some: "put xs i v = Some ys \<longleftrightarrow> i < length xs \<and> ys = xs[i := v]"
  by (auto simp: put_def)

subsection \<open>Copying bytes\<close>

text \<open>
  \<open>memcpy (dst + off, src, n)\<close>: the first \<open>n\<close> bytes of \<open>src\<close> overwrite
  \<open>dst\<close> from \<open>off\<close> on; reading or writing outside an array fails.
\<close>

definition memcpy_at :: "byte list \<Rightarrow> nat \<Rightarrow> byte list \<Rightarrow> nat \<Rightarrow> byte list option" where
  "memcpy_at dst off src n =
     (if n \<le> length src \<and> off + n \<le> length dst
      then Some (take off dst @ take n src @ drop (off + n) dst) else None)"

lemma memcpy_at_length:
  "memcpy_at dst off src n = Some r \<Longrightarrow> length r = length dst"
  by (auto simp: memcpy_at_def split: if_splits)

lemma memcpy_at_nth:
  assumes "memcpy_at dst off src n = Some r" and "i < length dst"
  shows "r ! i = (if off \<le> i \<and> i < off + n then src ! (i - off) else dst ! i)"
  using assms by (auto simp: memcpy_at_def nth_append min_def split: if_splits)

lemma memcpy_at_ok [simp]:
  "n \<le> length src \<Longrightarrow> off + n \<le> length dst \<Longrightarrow> \<exists>r. memcpy_at dst off src n = Some r"
  by (simp add: memcpy_at_def)

subsection \<open>Lists\<close>

lemma remove1_split:
  assumes "x \<in> set xs"
  obtains ys zs where "xs = ys @ x # zs" "x \<notin> set ys" "remove1 x xs = ys @ zs"
  using assms by (auto dest!: split_list_first simp: remove1_append)

lemma find_None_iff_all: "List.find P xs = None \<longleftrightarrow> (\<forall>x \<in> set xs. \<not> P x)"
  by (auto simp: find_None_iff)

lemma find_SomeD:
  "List.find P xs = Some x \<Longrightarrow> x \<in> set xs \<and> P x"
  by (auto simp: find_Some_iff in_set_conv_nth)

lemma find_cong_on:
  "(\<And>x. x \<in> set xs \<Longrightarrow> P x = Q x) \<Longrightarrow> List.find P xs = List.find Q xs"
  by (induction xs) auto

lemma find_unique:
  assumes "x \<in> set xs" "P x" "\<And>y. y \<in> set xs \<Longrightarrow> P y \<Longrightarrow> y = x"
  shows "List.find P xs = Some x"
proof (cases "List.find P xs")
  case None
  then show ?thesis using assms(1,2) by (simp add: find_None_iff_all)
next
  case (Some y)
  then show ?thesis using assms(3) find_SomeD by fastforce
qed

subsection \<open>Words\<close>

unbundle bit_operations_syntax

lemma word_less_imp_unat: "(x :: 'a::len word) < y \<Longrightarrow> unat x < unat y"
  by (simp add: word_less_nat_alt)

lemma word_and_shifted_mask_iff:
  fixes x :: "'a::len word"
  assumes "unat x < 2 ^ (2 * b)"
  shows "x AND push_bit b (mask b) \<noteq> 0 \<longleftrightarrow> 2 ^ b \<le> unat x"
proof -
  have small: "unat x div 2 ^ b < 2 ^ b"
    using assms by (simp add: less_mult_imp_div_less mult_2 power_add)
  have drop: "unat (drop_bit b x) = unat x div 2 ^ b"
    unfolding unat_drop_bit_eq by (rule drop_bit_eq_div)
  have "x AND push_bit b (mask b) = push_bit b (take_bit b (drop_bit b x))"
    by (rule bit_word_eqI)
      (auto simp: bit_simps)
  moreover have "take_bit b (drop_bit b x) = drop_bit b x"
    using small
    by (simp only: word_unat_eq_iff unsigned_take_bit_eq drop take_bit_nat_eq_self)
  moreover have "push_bit b (drop_bit b x) = 0 \<longleftrightarrow> drop_bit b x = 0"
  proof
    assume "push_bit b (drop_bit b x) = 0"
    then have "drop_bit b (push_bit b (drop_bit b x)) = 0" by simp
    moreover have "drop_bit b (push_bit b (drop_bit b x)) = drop_bit b x"
      by (rule bit_word_eqI) (auto simp: bit_simps dest: bit_imp_le_length)
    ultimately show "drop_bit b x = 0" by simp
  qed simp
  moreover have "drop_bit b x = 0 \<longleftrightarrow> unat x div 2 ^ b = 0"
    by (simp only: word_unat_eq_iff drop unat_0)
  ultimately show ?thesis by (simp add: div_eq_0_iff not_less)
qed

lemma unat_2p: "k < LENGTH('a::len) \<Longrightarrow> unat (2 ^ k :: 'a word) = 2 ^ k"
  using unat_of_nat [of "2 ^ k", where ?'a = 'a] by simp

lemma unat_drop_bit: "unat (drop_bit k w) = unat (w :: 'a::len word) div 2 ^ k"
  unfolding unat_drop_bit_eq by (rule drop_bit_eq_div)

lemma unat_and_mask: "unat ((w :: 'a::len word) AND mask k) = unat w mod 2 ^ k"
  by (simp add: take_bit_eq_mask [symmetric] unsigned_take_bit_eq) (simp add: take_bit_eq_mod)

lemma and_not_mask_push_drop:
  "(w :: 'a::len word) AND NOT (mask k) = push_bit k (drop_bit k w)"
  by (rule bit_word_eqI) (auto simp: bit_simps)

lemma unat_and_not_mask:
  "unat ((w :: 'a::len word) AND NOT (mask k)) = unat w div 2 ^ k * 2 ^ k"
proof -
  have "unat w div 2 ^ k * 2 ^ k < 2 ^ LENGTH('a)"
    using unsigned_less [of w] by (metis div_times_less_eq_dividend le_less_trans)
  then show ?thesis
    unfolding and_not_mask_push_drop
    by (simp add: unsigned_push_bit_eq unat_drop_bit_eq)
       (simp add: push_bit_eq_mult drop_bit_eq_div take_bit_nat_eq_self)
qed

lemma unat_lt_32: "unat (w :: 32 word) < 2 ^ 32"
  by (rule order_less_le_trans [OF unsigned_less]) simp

lemma unat_lt_64: "unat (w :: 64 word) < 2 ^ 64"
  by (rule order_less_le_trans [OF unsigned_less]) simp

lemma unat_ucast_word:
  "unat (ucast (w :: 'a::len word) :: 'b::len word) = unat w mod 2 ^ LENGTH('b)"
  by (simp add: unsigned_ucast_eq take_bit_eq_mod)

lemma sle_0_bit: "0 \<le>s (s :: 'a::len word) \<longleftrightarrow> \<not> bit s (LENGTH('a) - 1)"
  by (simp add: word_sle_eq sint_uint signed_take_bit_nonnegative_iff bit_uint_iff)

lemma unat_scast_nonneg:
  fixes s :: "32 word"
  assumes "0 \<le>s s"
  shows "unat (scast s :: 64 word) = unat s"
proof -
  have "\<not> bit s 31" using assms by (simp add: sle_0_bit)
  then have "(scast s :: 64 word) = ucast s"
    by (intro bit_word_eqI) (auto simp: bit_word_scast_iff bit_word_ucast_iff dest: bit_imp_le_length)
  then show ?thesis using unat_lt_32 [of s] by (simp add: unat_ucast_word)
qed

end
