(* ===== verification/Int_Math.thy ===== *)
theory Int_Math
imports Base_Prelude
begin

text \<open>
  The integer helpers of \<open>src/src/base/intmath.hh\<close>: powers of two, base-2
  logarithms by binary search over bit masks, and alignment.  The cache tags
  use them to validate a configuration and to derive the shift amounts and
  masks that split an address.
\<close>

subsection \<open>Definitions\<close>

definition leastSigBit :: "'a::len word \<Rightarrow> 'a word" where
  "leastSigBit n = n AND NOT (n - 1)"

definition isPowerOf2 :: "'a::len word \<Rightarrow> bool" where
  "isPowerOf2 n = (n \<noteq> 0 \<and> leastSigBit n = n)"

text \<open>\<open>power\<close>: the loop multiplies \<open>e - 1\<close> times in 64 bits.\<close>

primrec power_loop :: "64 word \<Rightarrow> nat \<Rightarrow> 64 word \<Rightarrow> 64 word" where
  "power_loop n 0 result = result"
| "power_loop n (Suc k) result = power_loop n k (result * n)"

definition power_u :: "32 word \<Rightarrow> nat \<Rightarrow> 64 word" where
  "power_u n e = (if e = 0 then 1 else power_loop (ucast n) (e - 1) (ucast n))"

text \<open>
  One line \<open>if (x & m) { y += b; x >>= b; }\<close> of \<open>floorLog2\<close>, and the last
  line, which does not shift.
\<close>

definition log2_step :: "'a::len word \<Rightarrow> nat \<Rightarrow> 'a word \<times> nat \<Rightarrow> 'a word \<times> nat" where
  "log2_step m b s = (if fst s AND m \<noteq> 0 then (drop_bit b (fst s), snd s + b) else s)"

definition log2_last :: "'a::len word \<Rightarrow> 'a word \<times> nat \<Rightarrow> nat" where
  "log2_last m s = (if fst s AND m \<noteq> 0 then snd s + 1 else snd s)"

definition floorLog2_u32 :: "32 word \<Rightarrow> nat option" where
  "floorLog2_u32 x = do {
     check (0 < x);
     let s = log2_step 0xffff0000 16 (x, 0);
     let s = log2_step 0x0000ff00 8 s;
     let s = log2_step 0x000000f0 4 s;
     let s = log2_step 0x0000000c 2 s;
     Some (log2_last 0x00000002 s) }"

definition floorLog2_u64 :: "64 word \<Rightarrow> nat option" where
  "floorLog2_u64 x = do {
     check (0 < x);
     let s = log2_step 0xffffffff00000000 32 (x, 0);
     let s = log2_step 0x00000000ffff0000 16 s;
     let s = log2_step 0x000000000000ff00 8 s;
     let s = log2_step 0x00000000000000f0 4 s;
     let s = log2_step 0x000000000000000c 2 s;
     Some (log2_last 0x0000000000000002 s) }"

definition floorLog2_int :: "32 word \<Rightarrow> nat option" where
  "floorLog2_int x = do { check (0 <s x); floorLog2_u32 x }"

definition ceilLog2_u64 :: "64 word \<Rightarrow> nat option" where
  "ceilLog2_u64 n = (if n = 1 then Some 0
                     else do { y \<leftarrow> floorLog2_u64 (n - 1); Some (y + 1) })"

definition floorPow2_u64 :: "64 word \<Rightarrow> 64 word option" where
  "floorPow2_u64 n = do { y \<leftarrow> floorLog2_u64 n; Some (push_bit y 1) }"

definition ceilPow2_u64 :: "64 word \<Rightarrow> 64 word option" where
  "ceilPow2_u64 n = do { y \<leftarrow> ceilLog2_u64 n; Some (push_bit y 1) }"

definition divCeil :: "'a::len word \<Rightarrow> 'a word \<Rightarrow> 'a word" where
  "divCeil a b = (a + b - 1) div b"

definition roundUp :: "'a::len word \<Rightarrow> 'a word \<Rightarrow> 'a word" where
  "roundUp val align = (let m = align - 1 in (val + m) AND NOT m)"

definition roundDown :: "'a::len word \<Rightarrow> 'a word \<Rightarrow> 'a word" where
  "roundDown val align = (let m = align - 1 in val AND NOT m)"

subsection \<open>Powers of two\<close>

lemma leastSigBit_eq_self: "leastSigBit n = n \<longleftrightarrow> n AND (n - 1) = 0"
proof -
  have "a AND NOT b = a \<longleftrightarrow> a AND b = 0" for a b :: "'a word"
    by (auto simp: bit_eq_iff bit_simps)
  then show ?thesis by (simp add: leastSigBit_def)
qed

lemma nat_and_pred_power_of_2:
  "0 < (n :: nat) \<Longrightarrow> n AND (n - 1) = 0 \<Longrightarrow> \<exists>k. n = 2 ^ k"
proof (induction n rule: less_induct)
  case (less n)
  show ?case
  proof (cases "even n")
    case True
    then obtain m where m: "n = 2 * m" by (auto elim: evenE)
    with less.prems have "0 < m" by simp
    have "(2 * m) AND (2 * m - 1) = 2 * (m AND (m - 1))"
    proof -
      have "2 * m - 1 = 1 + 2 * (m - 1)" using \<open>0 < m\<close> by simp
      then show ?thesis by (simp add: and_nat_rec [of "2 * m"])
    qed
    with less.prems m have "m AND (m - 1) = 0" by simp
    from less.IH [OF _ \<open>0 < m\<close> this] m \<open>0 < m\<close> obtain k where "m = 2 ^ k" by auto
    with m have "n = 2 ^ Suc k" by simp
    then show ?thesis by blast
  next
    case False
    then obtain m where m: "n = 2 * m + 1" by (auto elim: oddE)
    then have "n AND (n - 1) = 2 * m"
      by (simp add: and_nat_rec [of "Suc (2 * m)"])
    with less.prems have "n = 2 ^ 0" using m by simp
    then show ?thesis by blast
  qed
qed

lemma unat_and: "unat (a AND b) = unat a AND unat (b :: 'a::len word)"
  by (simp add: unsigned_and_eq)

lemma and_pred_power_of_2_nat: "(2 :: nat) ^ k AND (2 ^ k - 1) = 0"
  unfolding mask_eq_exp_minus_1 [symmetric] take_bit_eq_mask [symmetric]
  by (simp add: take_bit_eq_mod)

lemma isPowerOf2_iff: "isPowerOf2 n \<longleftrightarrow> (\<exists>k. unat n = 2 ^ k)"
proof (cases "n = 0")
  case False
  then have pos: "0 < unat n" by (simp add: unat_gt_0)
  have pred: "unat (n - 1) = unat n - 1"
    using False by (simp add: unat_minus_one)
  have "leastSigBit n = n \<longleftrightarrow> unat n AND (unat n - 1) = 0"
    by (metis leastSigBit_eq_self pred unat_and unat_eq_zero)
  also have "\<dots> \<longleftrightarrow> (\<exists>k. unat n = 2 ^ k)"
    using nat_and_pred_power_of_2 [OF pos] and_pred_power_of_2_nat by metis
  finally show ?thesis using False by (simp add: isPowerOf2_def)
qed (simp add: isPowerOf2_def)

lemma isPowerOf2_D:
  assumes "isPowerOf2 (n :: 'a::len word)"
  obtains k where "n = 2 ^ k" "k < LENGTH('a)" "unat n = 2 ^ k"
proof -
  from assms obtain k where k: "unat n = 2 ^ k" by (auto simp: isPowerOf2_iff)
  have "unat n < 2 ^ LENGTH('a)" by (rule unsigned_less)
  with k have "k < LENGTH('a)" by (metis one_less_numeral_iff power_less_imp_less_exp semiring_norm(76))
  moreover have "n = 2 ^ k"
    using arg_cong [OF k, of "of_nat :: nat \<Rightarrow> 'a word"] by simp
  ultimately show thesis using k that by blast
qed

subsection \<open>Logarithms\<close>

text \<open>
  The state \<open>(x, y)\<close> of the search: \<open>x\<close> is the argument shifted right by \<open>y\<close>,
  is not zero, and has at most \<open>w\<close> bits.
\<close>

definition log2_inv :: "'a::len word \<Rightarrow> nat \<Rightarrow> 'a word \<times> nat \<Rightarrow> bool" where
  "log2_inv x0 w s \<longleftrightarrow> unat (fst s) = unat x0 div 2 ^ snd s \<and> 0 < unat (fst s) \<and> unat (fst s) < 2 ^ w"

lemma log2_step_inv:
  assumes "log2_inv x0 (2 * b) s" and "m = push_bit b (mask b)"
  shows "log2_inv x0 b (log2_step m b s)"
proof -
  obtain x y where s: "s = (x, y)" by fastforce
  have inv: "unat x = unat x0 div 2 ^ y" "0 < unat x" "unat x < 2 ^ (2 * b)"
    using assms(1) by (auto simp: log2_inv_def s)
  have m: "x AND m \<noteq> 0 \<longleftrightarrow> 2 ^ b \<le> unat x"
    using word_and_shifted_mask_iff [OF inv(3)] assms(2) by simp
  have d: "unat (drop_bit b x) = unat x div 2 ^ b"
    unfolding unat_drop_bit_eq by (rule drop_bit_eq_div)
  have lt: "unat x div 2 ^ b < 2 ^ b"
    using inv(3) by (simp add: less_mult_imp_div_less mult_2 power_add)
  have pos: "2 ^ b \<le> unat x \<Longrightarrow> 0 < unat x div 2 ^ b"
    by (simp add: div_greater_zero_iff)
  have sh: "unat x div 2 ^ b = unat x0 div 2 ^ (y + b)"
    by (simp only: inv(1) div_mult2_eq [symmetric] power_add)
  show ?thesis
  proof (cases "2 ^ b \<le> unat x")
    case True
    then show ?thesis using m d lt pos sh by (simp only: log2_inv_def log2_step_def s fst_conv snd_conv simp_thms if_True)
  next
    case False
    then show ?thesis using m inv by (simp add: log2_inv_def log2_step_def s)
  qed
qed

lemma div_eq_1_bounds: "a div p = 1 \<Longrightarrow> 0 < p \<Longrightarrow> p \<le> a \<and> a < 2 * (p :: nat)"
  by (metis div_eq_0_iff div_less_iff_less_mult dividend_less_times_div mult.commute mult_2
      not_less one_less_numeral_iff one_neq_zero semiring_norm(76) less_irrefl_nat)

lemma log2_last_bounds:
  assumes "log2_inv x0 2 s"
  shows "2 ^ log2_last 2 s \<le> unat x0 \<and> unat x0 < 2 ^ (log2_last 2 s + 1)"
proof -
  have "log2_last 2 s = snd (log2_step 2 1 s)" by (simp add: log2_last_def log2_step_def)
  moreover have "log2_inv x0 1 (log2_step 2 1 s)"
    by (rule log2_step_inv) (simp_all add: assms)
  ultimately have "unat x0 div 2 ^ log2_last 2 s = 1"
    by (simp add: log2_inv_def)
  then show ?thesis using div_eq_1_bounds [of "unat x0" "2 ^ log2_last 2 s"] by simp
qed

lemma mask_literals:
  "(0xffffffff00000000 :: 64 word) = push_bit 32 (mask 32)"
  "(0x00000000ffff0000 :: 64 word) = push_bit 16 (mask 16)"
  "(0x000000000000ff00 :: 64 word) = push_bit 8 (mask 8)"
  "(0x00000000000000f0 :: 64 word) = push_bit 4 (mask 4)"
  "(0x000000000000000c :: 64 word) = push_bit 2 (mask 2)"
  "(0xffff0000 :: 32 word) = push_bit 16 (mask 16)"
  "(0x0000ff00 :: 32 word) = push_bit 8 (mask 8)"
  "(0x000000f0 :: 32 word) = push_bit 4 (mask 4)"
  "(0x0000000c :: 32 word) = push_bit 2 (mask 2)"
  by (simp_all add: mask_eq_exp_minus_1 push_bit_eq_mult)

lemma floorLog2_u64_bounds:
  assumes "x \<noteq> 0"
  shows "\<exists>y. floorLog2_u64 x = Some y \<and> 2 ^ y \<le> unat x \<and> unat x < 2 ^ (y + 1)"
proof -
  have "log2_inv x (2 * 32) (x, 0)"
    using assms unsigned_less [of x] by (simp add: log2_inv_def unat_gt_0)
  note i1 = log2_step_inv [OF this mask_literals(1)]
  have i2: "log2_inv x (2 * 16) (log2_step 0xffffffff00000000 32 (x, 0))" using i1 by simp
  note i3 = log2_step_inv [OF i2 mask_literals(2)]
  have i4: "log2_inv x (2 * 8) (log2_step 0xffff0000 16 (log2_step 0xffffffff00000000 32 (x, 0)))" using i3 by simp
  note i5 = log2_step_inv [OF i4 mask_literals(3)]
  note i6 = log2_step_inv [of _ 4, OF _ mask_literals(4)]
  note i7 = log2_step_inv [of _ 2, OF _ mask_literals(5)]
  show ?thesis
    using assms log2_last_bounds [OF i7 [simplified, OF i6 [simplified, OF i5]]]
    by (simp add: floorLog2_u64_def word_gt_0)
qed

lemma floorLog2_u32_bounds:
  assumes "x \<noteq> 0"
  shows "\<exists>y. floorLog2_u32 x = Some y \<and> 2 ^ y \<le> unat x \<and> unat x < 2 ^ (y + 1)"
proof -
  have "log2_inv x (2 * 16) (x, 0)"
    using assms unsigned_less [of x] by (simp add: log2_inv_def unat_gt_0)
  note i1 = log2_step_inv [OF this mask_literals(6)]
  have i2: "log2_inv x (2 * 8) (log2_step 0xffff0000 16 (x, 0))" using i1 by simp
  note i3 = log2_step_inv [OF i2 mask_literals(7)]
  note i4 = log2_step_inv [of _ 4, OF _ mask_literals(8)]
  note i5 = log2_step_inv [of _ 2, OF _ mask_literals(9)]
  show ?thesis
    using assms log2_last_bounds [OF i5 [simplified, OF i4 [simplified, OF i3]]]
    by (simp add: floorLog2_u32_def word_gt_0)
qed

lemma floorLog2_u64_unique:
  assumes "2 ^ y \<le> unat x" and "unat x < 2 ^ (y + 1)"
  shows "floorLog2_u64 x = Some y"
proof -
  have "x \<noteq> 0" using assms(1) by auto
  from floorLog2_u64_bounds [OF this] obtain z where
    z: "floorLog2_u64 x = Some z" "2 ^ z \<le> unat x" "unat x < 2 ^ (z + 1)" by blast
  have "(2 :: nat) ^ y < 2 ^ (z + 1)" "(2 :: nat) ^ z < 2 ^ (y + 1)"
    using assms z by (auto simp: le_less_trans)
  then have "y < z + 1" "z < y + 1" by (simp_all only: power_strict_increasing_iff one_less_numeral_iff num.simps semiring_norm)
  then show ?thesis using z by simp
qed

lemma floorLog2_u64_power:
  "k < 64 \<Longrightarrow> floorLog2_u64 (2 ^ k) = Some k"
  by (rule floorLog2_u64_unique) (simp_all add: unat_2p)

lemma floorLog2_u32_power:
  assumes "k < 32" shows "floorLog2_u32 (2 ^ k) = Some k"
proof -
  have u: "unat (2 ^ k :: 32 word) = 2 ^ k" using assms by (simp add: unat_2p)
  have "(2 ^ k :: 32 word) \<noteq> 0" using u by (metis power_not_zero unat_0 zero_neq_numeral)
  from floorLog2_u32_bounds [OF this] obtain z where
    z: "floorLog2_u32 (2 ^ k) = Some z" "2 ^ z \<le> (2::nat) ^ k" "(2::nat) ^ k < 2 ^ (z + 1)"
    unfolding u by blast
  then have "z \<le> k" "k < z + 1"
    using power_less_imp_less_exp [of "2::nat" k "z + 1"] by simp_all
  then show ?thesis using z by simp
qed

subsection \<open>Alignment\<close>

lemma pred_power_of_2_mask: "(2 ^ k :: 'a::len word) - 1 = mask k"
  by (simp add: mask_eq_exp_minus_1)

lemma roundDown_unat:
  "roundDown v (2 ^ k) = r \<Longrightarrow> unat r = unat v div 2 ^ k * 2 ^ k"
  by (auto simp: roundDown_def Let_def pred_power_of_2_mask unat_and_not_mask)

lemma div_times_bounds:
  assumes "0 < p"
  shows "v div p * p \<le> v" "v - v div p * p < (p :: nat)" "p dvd v div p * p"
  using assms by (simp_all add: minus_div_mult_eq_mod)

lemma roundUp_unat:
  assumes "k < LENGTH('a)" and "unat v + (2 ^ k - 1) < 2 ^ LENGTH('a)"
  shows "unat (roundUp v (2 ^ k :: 'a::len word)) = (unat v + (2 ^ k - 1)) div 2 ^ k * 2 ^ k"
proof -
  have "unat (mask k :: 'a word) = 2 ^ k - 1"
    unfolding pred_power_of_2_mask [symmetric]
    by (subst unat_minus_one) (use assms(1) in \<open>auto simp: unat_2p word_unat_eq_iff\<close>)
  then have "unat (v + mask k) = unat v + (2 ^ k - 1)"
    using assms(2) unat_add_lem [of v "mask k"] by simp
  then show ?thesis
    by (simp add: roundUp_def Let_def pred_power_of_2_mask unat_and_not_mask)
qed

subsection \<open>Properties\<close>

text \<open>
  The 64-bit floorLog2, a binary search over bit masks, returns for every non-zero
  argument the exponent of the largest power of two not above it.
\<close>

theorem floorLog2_correct:
  assumes "x \<noteq> 0"
  shows "\<exists>y. floorLog2_u64 x = Some y \<and> 2 ^ y \<le> unat x \<and> unat x < 2 ^ (y + 1)"
  using assms by (rule floorLog2_u64_bounds)

theorem floorLog2_correct_witness:
  "(0x1234 :: 64 word) \<noteq> 0 \<and> floorLog2_u64 0x1234 = Some 12
   \<and> (\<exists>y. floorLog2_u64 0x1234 = Some y \<and> 2 ^ y \<le> unat (0x1234 :: 64 word)
         \<and> unat (0x1234 :: 64 word) < 2 ^ (y + 1))"
  using floorLog2_correct [of "0x1234"] by (simp add: floorLog2_u64_unique)

end
