(* ===== verification/Mem_Cmd.thy ===== *)
theory Mem_Cmd
imports Base_Prelude
begin

text \<open>
  Memory commands (\<open>MemCmd\<close> of \<open>src/src/mem/packet.hh\<close> and the table of
  \<open>src/src/mem/packet.cc\<close>): the enumeration, the attribute bits, the table
  that \<open>commandInfo[cmd]\<close> indexes by the numeric value of the command, and the
  accessors.  The lemmas say that the table is total and that a command that
  asks for a response names a response of the right kind.
\<close>

subsection \<open>Definitions\<close>

datatype Command =
    InvalidCmd | ReadReq | ReadResp | ReadRespWithInvalidate | WriteReq | WriteResp
  | Writeback | SoftPFReq | HardPFReq | SoftPFResp | HardPFResp | WriteInvalidateReq
  | WriteInvalidateResp | UpgradeReq | SCUpgradeReq | UpgradeResp | SCUpgradeFailReq
  | UpgradeFailResp | ReadExReq | ReadExResp | LoadLockedReq | StoreCondReq
  | StoreCondFailReq | StoreCondResp | SwapReq | SwapResp | MessageReq | MessageResp
  | InvalidDestError | BadAddressError | FunctionalReadError | FunctionalWriteError
  | PrintReq | FlushReq | InvalidationReq

datatype Attribute =
    IsRead | IsWrite | IsUpgrade | IsInvalidate | NeedsExclusive | IsRequest
  | IsResponse | NeedsResponse | IsSWPrefetch | IsHWPrefetch | IsLlsc | HasData
  | IsError | IsPrint | IsFlush

text \<open>The declaration order of the enumeration, which is its numeric value.\<close>

definition all_commands :: "Command list" where
  "all_commands =
    [InvalidCmd, ReadReq, ReadResp, ReadRespWithInvalidate, WriteReq, WriteResp,
     Writeback, SoftPFReq, HardPFReq, SoftPFResp, HardPFResp, WriteInvalidateReq,
     WriteInvalidateResp, UpgradeReq, SCUpgradeReq, UpgradeResp, SCUpgradeFailReq,
     UpgradeFailResp, ReadExReq, ReadExResp, LoadLockedReq, StoreCondReq,
     StoreCondFailReq, StoreCondResp, SwapReq, SwapResp, MessageReq, MessageResp,
     InvalidDestError, BadAddressError, FunctionalReadError, FunctionalWriteError,
     PrintReq, FlushReq, InvalidationReq]"

fun position :: "'a \<Rightarrow> 'a list \<Rightarrow> nat" where
  "position x [] = 0"
| "position x (y # ys) = (if x = y then 0 else Suc (position x ys))"

definition toInt :: "Command \<Rightarrow> nat" where
  "toInt c = position c all_commands"

record CommandInfo =
  attributes :: "Attribute list"
  response :: Command
  str :: string

definition info :: "Attribute list \<Rightarrow> Command \<Rightarrow> string \<Rightarrow> CommandInfo" where
  "info a r s = \<lparr>attributes = a, response = r, str = s\<rparr>"

definition commandInfo :: "CommandInfo list" where
  "commandInfo =
    [info [] InvalidCmd ''InvalidCmd'',
     info [IsRead, IsRequest, NeedsResponse] ReadResp ''ReadReq'',
     info [IsRead, IsResponse, HasData] InvalidCmd ''ReadResp'',
     info [IsRead, IsResponse, HasData, IsInvalidate] InvalidCmd ''ReadRespWithInvalidate'',
     info [IsWrite, NeedsExclusive, IsRequest, NeedsResponse, HasData] WriteResp ''WriteReq'',
     info [IsWrite, NeedsExclusive, IsResponse] InvalidCmd ''WriteResp'',
     info [IsWrite, NeedsExclusive, IsRequest, HasData] InvalidCmd ''Writeback'',
     info [IsRead, IsRequest, IsSWPrefetch, NeedsResponse] SoftPFResp ''SoftPFReq'',
     info [IsRead, IsRequest, IsHWPrefetch, NeedsResponse] HardPFResp ''HardPFReq'',
     info [IsRead, IsResponse, IsSWPrefetch, HasData] InvalidCmd ''SoftPFResp'',
     info [IsRead, IsResponse, IsHWPrefetch, HasData] InvalidCmd ''HardPFResp'',
     info [IsWrite, NeedsExclusive, IsInvalidate, IsRequest, HasData, NeedsResponse]
       WriteInvalidateResp ''WriteInvalidateReq'',
     info [IsWrite, NeedsExclusive, IsResponse] InvalidCmd ''WriteInvalidateResp'',
     info [IsInvalidate, NeedsExclusive, IsUpgrade, IsRequest, NeedsResponse]
       UpgradeResp ''UpgradeReq'',
     info [IsInvalidate, NeedsExclusive, IsUpgrade, IsLlsc, IsRequest, NeedsResponse]
       UpgradeResp ''SCUpgradeReq'',
     info [NeedsExclusive, IsUpgrade, IsResponse] InvalidCmd ''UpgradeResp'',
     info [IsInvalidate, NeedsExclusive, IsLlsc, IsRequest, NeedsResponse]
       UpgradeFailResp ''SCUpgradeFailReq'',
     info [NeedsExclusive, IsResponse] InvalidCmd ''UpgradeFailResp'',
     info [IsRead, NeedsExclusive, IsInvalidate, IsRequest, NeedsResponse]
       ReadExResp ''ReadExReq'',
     info [IsRead, NeedsExclusive, IsResponse, HasData] InvalidCmd ''ReadExResp'',
     info [IsRead, IsLlsc, IsRequest, NeedsResponse] ReadResp ''LoadLockedReq'',
     info [IsWrite, NeedsExclusive, IsLlsc, IsRequest, NeedsResponse, HasData]
       StoreCondResp ''StoreCondReq'',
     info [IsWrite, NeedsExclusive, IsLlsc, IsRequest, NeedsResponse, HasData]
       StoreCondResp ''StoreCondFailReq'',
     info [IsWrite, NeedsExclusive, IsLlsc, IsResponse] InvalidCmd ''StoreCondResp'',
     info [IsRead, IsWrite, NeedsExclusive, IsRequest, HasData, NeedsResponse]
       SwapResp ''SwapReq'',
     info [IsRead, IsWrite, NeedsExclusive, IsResponse, HasData] InvalidCmd ''SwapResp'',
     info [IsWrite, IsRequest, NeedsResponse, HasData] MessageResp ''MessageReq'',
     info [IsWrite, IsResponse] InvalidCmd ''MessageResp'',
     info [IsResponse, IsError] InvalidCmd ''InvalidDestError'',
     info [IsResponse, IsError] InvalidCmd ''BadAddressError'',
     info [IsRead, IsResponse, IsError] InvalidCmd ''FunctionalReadError'',
     info [IsWrite, IsResponse, IsError] InvalidCmd ''FunctionalWriteError'',
     info [IsRequest, IsPrint] InvalidCmd ''PrintReq'',
     info [IsRequest, IsFlush, NeedsExclusive] InvalidCmd ''FlushReq'',
     info [NeedsExclusive, IsInvalidate, IsRequest] InvalidCmd ''InvalidationReq'']"

definition testCmdAttrib :: "Command \<Rightarrow> Attribute \<Rightarrow> bool" where
  "testCmdAttrib c a = (a \<in> set (attributes (commandInfo ! toInt c)))"

definition isRead where "isRead c = testCmdAttrib c IsRead"
definition isWrite where "isWrite c = testCmdAttrib c IsWrite"
definition isUpgrade where "isUpgrade c = testCmdAttrib c IsUpgrade"
definition isRequest where "isRequest c = testCmdAttrib c IsRequest"
definition isResponse where "isResponse c = testCmdAttrib c IsResponse"
definition needsExclusive where "needsExclusive c = testCmdAttrib c NeedsExclusive"
definition needsResponse where "needsResponse c = testCmdAttrib c NeedsResponse"
definition isInvalidate where "isInvalidate c = testCmdAttrib c IsInvalidate"
definition hasData where "hasData c = testCmdAttrib c HasData"
definition isReadWrite where "isReadWrite c = (isRead c \<and> isWrite c)"
definition isLLSC where "isLLSC c = testCmdAttrib c IsLlsc"
definition isError where "isError c = testCmdAttrib c IsError"
definition isPrint where "isPrint c = testCmdAttrib c IsPrint"
definition isFlush where "isFlush c = testCmdAttrib c IsFlush"

definition responseCommand :: "Command \<Rightarrow> Command" where
  "responseCommand c = response (commandInfo ! toInt c)"

definition cmd_toString :: "Command \<Rightarrow> string" where
  "cmd_toString c = str (commandInfo ! toInt c)"

lemmas cmd_defs =
  isRead_def isWrite_def isUpgrade_def isRequest_def isResponse_def needsExclusive_def
  needsResponse_def isInvalidate_def hasData_def isReadWrite_def isLLSC_def isError_def
  isPrint_def isFlush_def responseCommand_def testCmdAttrib_def

subsection \<open>The table is indexed correctly\<close>

lemma all_commands_complete: "c \<in> set all_commands"
  by (cases c) (simp_all add: all_commands_def)

lemma toInt_less: "toInt c < length commandInfo"
  by (induct c; code_simp)

lemma position_nth: "distinct xs \<Longrightarrow> i < length xs \<Longrightarrow> position (xs ! i) xs = i"
  by (induction xs arbitrary: i) (auto simp: nth_Cons nth_eq_iff_index_eq split: nat.splits)

lemma nth_position: "x \<in> set xs \<Longrightarrow> xs ! position x xs = x"
  by (induction xs) auto

lemma toInt_inject: "toInt c = toInt d \<longleftrightarrow> c = d"
  unfolding toInt_def by (metis all_commands_complete nth_position)

lemma cmd_split: "(\<And>c. c \<in> set all_commands \<Longrightarrow> P c) \<Longrightarrow> P c"
  using all_commands_complete by blast

text \<open>The rows of the table that the rest of the development evaluates.\<close>

lemma toInt_simps [simp]:
  "toInt ReadReq = 1" "toInt ReadResp = 2" "toInt WriteReq = 4" "toInt WriteResp = 5"
  "toInt Writeback = 6" "toInt HardPFReq = 8"
  "toInt UpgradeReq = 13" "toInt SCUpgradeReq = 14" "toInt UpgradeResp = 15"
  "toInt SCUpgradeFailReq = 16" "toInt UpgradeFailResp = 17" "toInt ReadExReq = 18"
  "toInt ReadExResp = 19" "toInt StoreCondReq = 21" "toInt StoreCondFailReq = 22"
  by (simp_all add: toInt_def all_commands_def)

subsection \<open>Properties\<close>

text \<open>
  A command needs a response exactly when the table names one; that response is a
  response command, is not itself a request, agrees with the request on read, write and
  exclusivity, and carries data exactly when the request reads; no command is both
  request and response.
\<close>

theorem response_pairing:
  "needsResponse c = (responseCommand c \<noteq> InvalidCmd)
   \<and> (needsResponse c \<longrightarrow>
        isRequest c \<and> isResponse (responseCommand c)
        \<and> \<not> isRequest (responseCommand c) \<and> \<not> needsResponse (responseCommand c)
        \<and> \<not> isError (responseCommand c)
        \<and> isRead (responseCommand c) = isRead c
        \<and> isWrite (responseCommand c) = isWrite c
        \<and> needsExclusive (responseCommand c) = needsExclusive c
        \<and> hasData (responseCommand c) = isRead c)
   \<and> \<not> (isRequest c \<and> isResponse c)
   \<and> (isError c \<longrightarrow> isResponse c)"
  by (induct c; code_simp)

theorem response_pairing_witness:
  "needsResponse ReadExReq \<and> isResponse (responseCommand ReadExReq)
   \<and> hasData (responseCommand ReadExReq) \<and> responseCommand ReadExReq = ReadExResp"
proof -
  have "needsResponse ReadExReq" "isRead ReadExReq" "responseCommand ReadExReq = ReadExResp"
    by code_simp+
  with response_pairing [of ReadExReq] show ?thesis by simp
qed

end
