(* ===== verification/Mem_Request.thy ===== *)
theory Mem_Request
imports Base_Prelude
begin

text \<open>
  Bit sets (\<open>src/src/base/flags.hh\<close>) and memory requests
  (\<open>src/src/mem/request.hh\<close>).  A request is a record of the fields of the
  class; the accessors that assert a validity flag return an option.  A
  constructor or setter leaves the fields it does not name as they were, so
  the constructors take the previous contents of the storage as an argument.
\<close>

subsection \<open>Flags\<close>

definition isSet :: "'a::len word \<Rightarrow> 'a word \<Rightarrow> bool" where
  "isSet f m = (f AND m \<noteq> 0)"
definition allSet :: "'a::len word \<Rightarrow> 'a word \<Rightarrow> bool" where
  "allSet f m = (f AND m = m)"
definition noneSet :: "'a::len word \<Rightarrow> 'a word \<Rightarrow> bool" where
  "noneSet f m = (f AND m = 0)"
definition flags_clear :: "'a::len word \<Rightarrow> 'a word \<Rightarrow> 'a word" where
  "flags_clear f m = f AND NOT m"
definition flags_set :: "'a::len word \<Rightarrow> 'a word \<Rightarrow> 'a word" where
  "flags_set f m = f OR m"
definition flags_set_val :: "'a::len word \<Rightarrow> 'a word \<Rightarrow> bool \<Rightarrow> 'a word" where
  "flags_set_val f m v = (f AND NOT m) OR (if v then m else 0)"
definition flags_update :: "'a::len word \<Rightarrow> 'a word \<Rightarrow> 'a word \<Rightarrow> 'a word" where
  "flags_update f fl m = (f AND NOT m) OR (fl AND m)"

lemmas flags_defs = isSet_def allSet_def noneSet_def flags_clear_def flags_set_def
  flags_set_val_def flags_update_def

subsection \<open>Request flags\<close>

definition ASI_BITS :: "32 word" where "ASI_BITS = 0x000000FF"
definition INST_FETCH :: "32 word" where "INST_FETCH = 0x00000100"
definition PHYSICAL :: "32 word" where "PHYSICAL = 0x00000200"
definition VPTE :: "32 word" where "VPTE = 0x00000400"
definition ALTMODE :: "32 word" where "ALTMODE = 0x00000800"
definition UNCACHEABLE :: "32 word" where "UNCACHEABLE = 0x00001000"
definition MMAPPED_IPR :: "32 word" where "MMAPPED_IPR = 0x00002000"
definition CLEAR_LL :: "32 word" where "CLEAR_LL = 0x00004000"
definition NO_ACCESS :: "32 word" where "NO_ACCESS = 0x00080000"
definition LOCKED :: "32 word" where "LOCKED = 0x00100000"
definition LLSC :: "32 word" where "LLSC = 0x00200000"
definition MEM_SWAP :: "32 word" where "MEM_SWAP = 0x00400000"
definition MEM_SWAP_COND :: "32 word" where "MEM_SWAP_COND = 0x00800000"
definition PREFETCH :: "32 word" where "PREFETCH = 0x01000000"
definition PF_EXCLUSIVE :: "32 word" where "PF_EXCLUSIVE = 0x02000000"
definition EVICT_NEXT :: "32 word" where "EVICT_NEXT = 0x04000000"
definition STICKY_FLAGS :: "32 word" where "STICKY_FLAGS = INST_FETCH"

definition wbMasterId :: master_id where "wbMasterId = 0"
definition funcMasterId :: master_id where "funcMasterId = 1"
definition intMasterId :: master_id where "intMasterId = 2"
definition invldMasterId :: master_id where "invldMasterId = 0xFFFF"

definition REQ_VALID_SIZE :: "8 word" where "REQ_VALID_SIZE = 0x01"
definition VALID_PADDR :: "8 word" where "VALID_PADDR = 0x02"
definition VALID_VADDR :: "8 word" where "VALID_VADDR = 0x04"
definition VALID_PC :: "8 word" where "VALID_PC = 0x10"
definition VALID_CONTEXT_ID :: "8 word" where "VALID_CONTEXT_ID = 0x20"
definition VALID_THREAD_ID :: "8 word" where "VALID_THREAD_ID = 0x40"
definition VALID_EXTRA_DATA :: "8 word" where "VALID_EXTRA_DATA = 0x80"
definition STICKY_PRIVATE_FLAGS :: "8 word" where
  "STICKY_PRIVATE_FLAGS = VALID_CONTEXT_ID OR VALID_THREAD_ID"

lemmas req_flag_defs = ASI_BITS_def INST_FETCH_def PHYSICAL_def VPTE_def ALTMODE_def
  UNCACHEABLE_def MMAPPED_IPR_def CLEAR_LL_def NO_ACCESS_def LOCKED_def LLSC_def
  MEM_SWAP_def MEM_SWAP_COND_def PREFETCH_def PF_EXCLUSIVE_def EVICT_NEXT_def
  STICKY_FLAGS_def REQ_VALID_SIZE_def VALID_PADDR_def VALID_VADDR_def VALID_PC_def
  VALID_CONTEXT_ID_def VALID_THREAD_ID_def VALID_EXTRA_DATA_def STICKY_PRIVATE_FLAGS_def

subsection \<open>The class\<close>

record Request =
  paddr :: addr
  req_size :: "32 word"
  req_masterId :: master_id
  req_flags :: "32 word"
  privateFlags :: "8 word"
  req_time :: tick
  asid :: "32 word"
  vaddr :: addr
  extraData :: "64 word"
  req_contextId :: "32 word"
  req_threadId :: "32 word"
  pc :: addr

text \<open>The default constructor clears the two flag fields and nothing else.\<close>

definition Request_new :: "Request \<Rightarrow> Request" where
  "Request_new raw = raw \<lparr>req_flags := 0, privateFlags := 0\<rparr>"

definition setThreadContext :: "32 word \<Rightarrow> 16 word \<Rightarrow> Request \<Rightarrow> Request" where
  "setThreadContext cid tid r = r \<lparr>req_contextId := cid, req_threadId := scast tid,
     privateFlags := flags_set (privateFlags r) (VALID_CONTEXT_ID OR VALID_THREAD_ID)\<rparr>"

definition setPhys ::
    "addr \<Rightarrow> 32 word \<Rightarrow> 32 word \<Rightarrow> master_id \<Rightarrow> tick \<Rightarrow> Request \<Rightarrow> Request option" where
  "setPhys pa sz fl mid t r = do {
     check (0 \<le>s sz);
     Some (r \<lparr>paddr := pa, req_size := sz, req_time := t, req_masterId := mid,
       req_flags := flags_set (flags_clear (req_flags r) (NOT STICKY_FLAGS)) fl,
       privateFlags := flags_set (flags_clear (privateFlags r) (NOT STICKY_PRIVATE_FLAGS))
                         (VALID_PADDR OR REQ_VALID_SIZE)\<rparr>) }"

definition setVirt ::
    "32 word \<Rightarrow> addr \<Rightarrow> 32 word \<Rightarrow> 32 word \<Rightarrow> master_id \<Rightarrow> addr \<Rightarrow> tick \<Rightarrow> Request \<Rightarrow> Request option" where
  "setVirt as va sz fl mid pc' now r = do {
     check (0 \<le>s sz);
     Some (r \<lparr>asid := as, vaddr := va, req_size := sz, req_masterId := mid, pc := pc',
       req_time := now,
       req_flags := flags_set (flags_clear (req_flags r) (NOT STICKY_FLAGS)) fl,
       privateFlags := flags_set (flags_clear (privateFlags r) (NOT STICKY_PRIVATE_FLAGS))
                         (VALID_VADDR OR REQ_VALID_SIZE OR VALID_PC)\<rparr>) }"

definition Request_phys ::
    "Request \<Rightarrow> addr \<Rightarrow> 32 word \<Rightarrow> 32 word \<Rightarrow> master_id \<Rightarrow> tick \<Rightarrow> Request option" where
  "Request_phys raw pa sz fl mid t = setPhys pa sz fl mid t (Request_new raw)"

definition Request_phys_pc ::
    "Request \<Rightarrow> addr \<Rightarrow> 32 word \<Rightarrow> 32 word \<Rightarrow> master_id \<Rightarrow> tick \<Rightarrow> addr \<Rightarrow> Request option" where
  "Request_phys_pc raw pa sz fl mid t pc' = do {
     r \<leftarrow> setPhys pa sz fl mid t (Request_new raw);
     Some (r \<lparr>privateFlags := flags_set (privateFlags r) VALID_PC, pc := pc'\<rparr>) }"

definition Request_virt ::
    "Request \<Rightarrow> 32 word \<Rightarrow> addr \<Rightarrow> 32 word \<Rightarrow> 32 word \<Rightarrow> master_id \<Rightarrow> addr \<Rightarrow> 32 word \<Rightarrow> 16 word
      \<Rightarrow> tick \<Rightarrow> Request option" where
  "Request_virt raw as va sz fl mid pc' cid tid now = do {
     r \<leftarrow> setVirt as va sz fl mid pc' now (Request_new raw);
     Some (setThreadContext cid tid r) }"

definition setPaddr :: "addr \<Rightarrow> Request \<Rightarrow> Request option" where
  "setPaddr pa r = do {
     check (isSet (privateFlags r) VALID_VADDR);
     Some (r \<lparr>paddr := pa, privateFlags := flags_set (privateFlags r) VALID_PADDR\<rparr>) }"

text \<open>
  \<open>splitOnVaddr\<close>: the comparison is done in 64 bits, where the \<open>int\<close> size is
  sign-extended; the size of the first piece is truncated back to an \<open>int\<close>.
\<close>

definition splitOnVaddr :: "addr \<Rightarrow> Request \<Rightarrow> (Request \<times> Request) option" where
  "splitOnVaddr split_addr r = do {
     check (isSet (privateFlags r) VALID_VADDR);
     check (noneSet (privateFlags r) VALID_PADDR);
     check (split_addr > vaddr r \<and> split_addr < vaddr r + scast (req_size r));
     let req1 = r \<lparr>req_size := ucast (split_addr - vaddr r)\<rparr>;
     let req2 = r \<lparr>vaddr := split_addr, req_size := req_size r - req_size req1\<rparr>;
     Some (req1, req2) }"

subsection \<open>Accessors\<close>

definition hasPaddr where "hasPaddr r = isSet (privateFlags r) VALID_PADDR"
definition getPaddr :: "Request \<Rightarrow> addr option" where
  "getPaddr r = do { check (isSet (privateFlags r) VALID_PADDR); Some (paddr r) }"
definition hasSize where "hasSize r = isSet (privateFlags r) REQ_VALID_SIZE"
definition req_getSize :: "Request \<Rightarrow> 32 word option" where
  "req_getSize r = do { check (isSet (privateFlags r) REQ_VALID_SIZE); Some (req_size r) }"
definition get_time :: "Request \<Rightarrow> tick option" where
  "get_time r = do { check (isSet (privateFlags r) (VALID_PADDR OR VALID_VADDR)); Some (req_time r) }"
definition set_time :: "tick \<Rightarrow> Request \<Rightarrow> Request option" where
  "set_time t r = do { check (isSet (privateFlags r) (VALID_PADDR OR VALID_VADDR));
     Some (r \<lparr>req_time := t\<rparr>) }"
definition getFlags :: "Request \<Rightarrow> 32 word option" where
  "getFlags r = do { check (isSet (privateFlags r) (VALID_PADDR OR VALID_VADDR)); Some (req_flags r) }"
definition setFlags :: "32 word \<Rightarrow> Request \<Rightarrow> Request option" where
  "setFlags fl r = do { check (isSet (privateFlags r) (VALID_PADDR OR VALID_VADDR));
     Some (r \<lparr>req_flags := flags_set (req_flags r) fl\<rparr>) }"
definition getVaddr :: "Request \<Rightarrow> addr option" where
  "getVaddr r = do { check (isSet (privateFlags r) VALID_VADDR); Some (vaddr r) }"
definition masterId where "masterId r = req_masterId r"
definition getAsid :: "Request \<Rightarrow> 32 word option" where
  "getAsid r = do { check (isSet (privateFlags r) VALID_VADDR); Some (asid r) }"
definition setAsid :: "32 word \<Rightarrow> Request \<Rightarrow> Request" where
  "setAsid a r = r \<lparr>asid := a\<rparr>"
definition getAsi :: "Request \<Rightarrow> 8 word option" where
  "getAsi r = do { check (isSet (privateFlags r) VALID_VADDR); Some (ucast (req_flags r AND ASI_BITS)) }"
definition extraDataValid where "extraDataValid r = isSet (privateFlags r) VALID_EXTRA_DATA"
definition getExtraData :: "Request \<Rightarrow> 64 word option" where
  "getExtraData r = do { check (isSet (privateFlags r) VALID_EXTRA_DATA); Some (extraData r) }"
definition setExtraData :: "64 word \<Rightarrow> Request \<Rightarrow> Request" where
  "setExtraData x r = r \<lparr>extraData := x,
     privateFlags := flags_set (privateFlags r) VALID_EXTRA_DATA\<rparr>"
definition hasContextId where "hasContextId r = isSet (privateFlags r) VALID_CONTEXT_ID"
definition contextId :: "Request \<Rightarrow> 32 word option" where
  "contextId r = do { check (isSet (privateFlags r) VALID_CONTEXT_ID); Some (req_contextId r) }"
definition threadId :: "Request \<Rightarrow> 32 word option" where
  "threadId r = do { check (isSet (privateFlags r) VALID_THREAD_ID); Some (req_threadId r) }"
definition hasPC where "hasPC r = isSet (privateFlags r) VALID_PC"
definition getPC :: "Request \<Rightarrow> addr option" where
  "getPC r = do { check (isSet (privateFlags r) VALID_PC); Some (pc r) }"
definition isUncacheable where "isUncacheable r = isSet (req_flags r) UNCACHEABLE"
definition isInstFetch where "isInstFetch r = isSet (req_flags r) INST_FETCH"
definition isPrefetch where "isPrefetch r = isSet (req_flags r) PREFETCH"
definition req_isLLSC where "req_isLLSC r = isSet (req_flags r) LLSC"
definition isLocked where "isLocked r = isSet (req_flags r) LOCKED"
definition isSwap where "isSwap r = isSet (req_flags r) (MEM_SWAP OR MEM_SWAP_COND)"
definition isCondSwap where "isCondSwap r = isSet (req_flags r) MEM_SWAP_COND"
definition isMmappedIpr where "isMmappedIpr r = isSet (req_flags r) MMAPPED_IPR"
definition isClearLL where "isClearLL r = isSet (req_flags r) CLEAR_LL"

text \<open>The bytes of the virtual address space that a request covers.\<close>

definition vbytes :: "Request \<Rightarrow> nat set" where
  "vbytes r = {unat (vaddr r) ..< unat (vaddr r) + unat (req_size r)}"

subsection \<open>Lemmas\<close>

lemma splitOnVaddr_Some:
  assumes "splitOnVaddr sp r = Some (r1, r2)" and "0 \<le>s req_size r"
    and "unat (vaddr r) + unat (req_size r) < 2 ^ 64"
  shows "unat (vaddr r) < unat sp" "unat sp < unat (vaddr r) + unat (req_size r)"
    "r1 = r \<lparr>req_size := ucast (sp - vaddr r)\<rparr>"
    "r2 = r \<lparr>vaddr := sp, req_size := req_size r - req_size r1\<rparr>"
    "unat (req_size r1) = unat sp - unat (vaddr r)"
    "unat (req_size r2) = unat (vaddr r) + unat (req_size r) - unat sp"
proof -
  from assms(1) have lt: "vaddr r < sp" "sp < vaddr r + scast (req_size r)"
    and r1: "r1 = r \<lparr>req_size := ucast (sp - vaddr r)\<rparr>"
    and r2: "r2 = r \<lparr>vaddr := sp, req_size := req_size r - req_size r1\<rparr>"
    by (auto simp: splitOnVaddr_def Let_def split: if_splits)
  have sz: "unat (scast (req_size r) :: addr) = unat (req_size r)"
    using assms(2) by (rule unat_scast_nonneg)
  have sum: "unat (vaddr r + scast (req_size r)) = unat (vaddr r) + unat (req_size r)"
    using assms(3) sz unat_add_lem [of "vaddr r" "scast (req_size r)"] by simp
  show lo: "unat (vaddr r) < unat sp" using lt(1) by (simp add: word_less_nat_alt)
  show hi: "unat sp < unat (vaddr r) + unat (req_size r)"
    using lt(2) sum by (simp add: word_less_nat_alt)
  have d: "unat (sp - vaddr r) = unat sp - unat (vaddr r)"
    using lo by (intro unat_sub) (simp add: word_le_nat_alt)
  have "unat sp - unat (vaddr r) < unat (req_size r)" using lo hi by simp
  then have small: "unat sp - unat (vaddr r) < 2 ^ 32"
    using unat_lt_32 [of "req_size r"] by (rule less_trans)
  show sz1: "unat (req_size r1) = unat sp - unat (vaddr r)"
    using small d by (simp add: r1 unat_ucast_word)
  show "r1 = r \<lparr>req_size := ucast (sp - vaddr r)\<rparr>" by (rule r1)
  show "r2 = r \<lparr>vaddr := sp, req_size := req_size r - req_size r1\<rparr>" by (rule r2)
  have "req_size r1 \<le> req_size r"
    using sz1 lo hi by (simp add: word_le_nat_alt)
  then show "unat (req_size r2) = unat (vaddr r) + unat (req_size r) - unat sp"
    using sz1 lo hi by (simp add: r2 unat_sub)
qed

subsection \<open>Properties\<close>

text \<open>
  Splitting a request at a virtual address yields two non-empty requests whose byte
  ranges partition the original range and which keep its flags and requestor.
\<close>

theorem splitOnVaddr_partition:
  assumes "splitOnVaddr sp r = Some (r1, r2)" and "0 \<le>s req_size r"
    and "unat (vaddr r) + unat (req_size r) < 2 ^ 64"
  shows "vbytes r1 \<union> vbytes r2 = vbytes r \<and> vbytes r1 \<inter> vbytes r2 = {}
    \<and> vbytes r1 \<noteq> {} \<and> vbytes r2 \<noteq> {}
    \<and> req_flags r1 = req_flags r \<and> req_flags r2 = req_flags r
    \<and> privateFlags r1 = privateFlags r \<and> privateFlags r2 = privateFlags r
    \<and> req_masterId r1 = req_masterId r \<and> req_masterId r2 = req_masterId r"
proof -
  note s = splitOnVaddr_Some [OF assms]
  have "vaddr r1 = vaddr r" "vaddr r2 = sp" using s(3,4) by simp_all
  then have b1: "vbytes r1 = {unat (vaddr r) ..< unat sp}"
    and b2: "vbytes r2 = {unat sp ..< unat (vaddr r) + unat (req_size r)}"
    using s(1,2,5,6) by (simp_all add: vbytes_def)
  show ?thesis
    unfolding b1 b2 using s(1,2) by (auto simp: s(3,4) vbytes_def)
qed

definition sample_request :: Request where
  "sample_request = \<lparr>paddr = 0, req_size = 8, req_masterId = 5, req_flags = 0,
     privateFlags = 0x15, req_time = 0, asid = 0, vaddr = 0x103C, extraData = 0,
     req_contextId = 0, req_threadId = 0, pc = 0x400\<rparr>"

theorem splitOnVaddr_partition_witness:
  "\<exists>r1 r2. splitOnVaddr 0x1040 sample_request = Some (r1, r2)
     \<and> vbytes r1 \<union> vbytes r2 = vbytes sample_request"
proof -
  obtain r1 r2 where "splitOnVaddr 0x1040 sample_request = Some (r1, r2)"
    by (simp add: splitOnVaddr_def sample_request_def flags_defs req_flag_defs word_less_nat_alt)
  then show ?thesis
    using splitOnVaddr_partition [of "0x1040" sample_request r1 r2]
    by (simp add: sample_request_def word_sle_eq)
qed

end
