(* ===== verification/Mem_Packet.thy ===== *)
theory Mem_Packet
imports Mem_Cmd Mem_Request
begin

text \<open>
  Packets (\<open>src/src/mem/packet.hh\<close>, \<open>src/src/mem/packet.cc\<close>).  The request a
  packet points to is a field of the record; the data pointer is the byte
  array it points to, or \<^term>\<open>None\<close> for \<open>NULL\<close>.  Freshly allocated arrays
  have arbitrary contents, given by the parameter \<open>u\<close>.  The sender state is a
  reference: to an MSHR, to a print request's state, or to another object of
  the sender.  The lemmas give the functional-access semantics of
  \<open>checkFunctional\<close> and the data movement between a packet and a block.
\<close>

subsection \<open>Data\<close>

definition PRIVATE_FLAGS :: "32 word" where "PRIVATE_FLAGS = 0x00007F0F"
definition COPY_FLAGS :: "32 word" where "COPY_FLAGS = 0x0000000F"
definition SHARED :: "32 word" where "SHARED = 0x00000001"
definition EXPRESS_SNOOP :: "32 word" where "EXPRESS_SNOOP = 0x00000002"
definition SUPPLY_EXCLUSIVE :: "32 word" where "SUPPLY_EXCLUSIVE = 0x00000004"
definition MEM_INHIBIT :: "32 word" where "MEM_INHIBIT = 0x00000008"
definition VALID_ADDR :: "32 word" where "VALID_ADDR = 0x00000100"
definition VALID_SIZE :: "32 word" where "VALID_SIZE = 0x00000200"
definition STATIC_DATA :: "32 word" where "STATIC_DATA = 0x00001000"
definition DYNAMIC_DATA :: "32 word" where "DYNAMIC_DATA = 0x00002000"
definition ARRAY_DATA :: "32 word" where "ARRAY_DATA = 0x00004000"
definition SUPPRESS_FUNC_ERROR :: "32 word" where "SUPPRESS_FUNC_ERROR = 0x00008000"

lemmas pkt_flag_defs = PRIVATE_FLAGS_def COPY_FLAGS_def SHARED_def EXPRESS_SNOOP_def
  SUPPLY_EXCLUSIVE_def MEM_INHIBIT_def VALID_ADDR_def VALID_SIZE_def STATIC_DATA_def
  DYNAMIC_DATA_def ARRAY_DATA_def SUPPRESS_FUNC_ERROR_def

datatype SenderState = PrintReqState | MSHRState nat | OtherState nat

type_synonym port_id = "16 word"

definition InvalidPortID :: port_id where "InvalidPortID = -1"

record Packet =
  flags :: "32 word"
  cmd :: Command
  req :: Request
  data :: "byte list option"
  addr :: addr
  pkt_size :: "32 word"
  src :: port_id
  dest :: port_id
  origCmd :: Command
  bytesValidStart :: "16 word"
  bytesValidEnd :: "16 word"
  pkt_time :: tick
  finishTime :: tick
  firstWordTime :: tick
  senderState :: "SenderState option"
  threadID :: "64 word"
  readLabel :: "64 word"
  writeLabel :: "64 word"

definition getFirstWordTime :: "bool \<Rightarrow> Packet \<Rightarrow> tick" where
  "getFirstWordTime useFWT p = (if useFWT then firstWordTime p else finishTime p)"

subsection \<open>Flag operations and accessors\<close>

definition assertMemInhibit where "assertMemInhibit p = p \<lparr>flags := flags_set (flags p) MEM_INHIBIT\<rparr>"
definition memInhibitAsserted where "memInhibitAsserted p = isSet (flags p) MEM_INHIBIT"
definition assertShared where "assertShared p = p \<lparr>flags := flags_set (flags p) SHARED\<rparr>"
definition sharedAsserted where "sharedAsserted p = isSet (flags p) SHARED"
definition setExpressSnoop where "setExpressSnoop p = p \<lparr>flags := flags_set (flags p) EXPRESS_SNOOP\<rparr>"
definition isExpressSnoop where "isExpressSnoop p = isSet (flags p) EXPRESS_SNOOP"
definition setSupplyExclusive where "setSupplyExclusive p = p \<lparr>flags := flags_set (flags p) SUPPLY_EXCLUSIVE\<rparr>"
definition clearSupplyExclusive where "clearSupplyExclusive p = p \<lparr>flags := flags_clear (flags p) SUPPLY_EXCLUSIVE\<rparr>"
definition isSupplyExclusive where "isSupplyExclusive p = isSet (flags p) SUPPLY_EXCLUSIVE"
definition setSuppressFuncError where "setSuppressFuncError p = p \<lparr>flags := flags_set (flags p) SUPPRESS_FUNC_ERROR\<rparr>"
definition suppressFuncError where "suppressFuncError p = isSet (flags p) SUPPRESS_FUNC_ERROR"

definition setBadAddress :: "Packet \<Rightarrow> Packet option" where
  "setBadAddress p = do { check (isResponse (cmd p)); Some (p \<lparr>cmd := BadAddressError\<rparr>) }"
definition hadBadAddress where "hadBadAddress p = (cmd p = BadAddressError)"
definition copyError :: "Packet \<Rightarrow> Packet \<Rightarrow> Packet option" where
  "copyError other p = do { check (isError (cmd other)); Some (p \<lparr>cmd := cmd other\<rparr>) }"

definition isSrcValid where "isSrcValid p = (src p \<noteq> InvalidPortID)"
definition getSrc :: "Packet \<Rightarrow> port_id option" where
  "getSrc p = do { check (isSrcValid p); Some (src p) }"
definition setSrc where "setSrc s p = p \<lparr>src := s\<rparr>"
definition clearSrc where "clearSrc p = p \<lparr>src := InvalidPortID\<rparr>"
definition isDestValid where "isDestValid p = (dest p \<noteq> InvalidPortID)"
definition getDest :: "Packet \<Rightarrow> port_id option" where
  "getDest p = do { check (isDestValid p); Some (dest p) }"
definition setDest where "setDest d p = p \<lparr>dest := d\<rparr>"
definition clearDest where "clearDest p = p \<lparr>dest := InvalidPortID\<rparr>"

definition pkt_getPaddr :: "Packet \<Rightarrow> addr option" where
  "pkt_getPaddr p = getPaddr (req p)"
definition getAddr :: "Packet \<Rightarrow> addr option" where
  "getAddr p = do { check (isSet (flags p) VALID_ADDR); Some (addr p) }"
definition getSize :: "Packet \<Rightarrow> 32 word option" where
  "getSize p = do { check (isSet (flags p) VALID_SIZE); Some (pkt_size p) }"
definition getOffset :: "32 word \<Rightarrow> Packet \<Rightarrow> addr option" where
  "getOffset blkSize p = do { a \<leftarrow> getAddr p; Some (a AND scast (blkSize - 1)) }"

definition convertScToWrite :: "Packet \<Rightarrow> Packet option" where
  "convertScToWrite p = do { check (isLLSC (cmd p)); check (isWrite (cmd p));
     Some (p \<lparr>cmd := WriteReq\<rparr>) }"
definition convertLlToRead :: "Packet \<Rightarrow> Packet option" where
  "convertLlToRead p = do { check (isLLSC (cmd p)); check (isRead (cmd p));
     Some (p \<lparr>cmd := ReadReq\<rparr>) }"

subsection \<open>Constructors\<close>

text \<open>
  The initialiser list shared by the constructors; \<open>raw\<close> is the storage before
  construction, so that the fields the code leaves out keep its contents.
\<close>

definition Packet_init :: "Packet \<Rightarrow> Request \<Rightarrow> Command \<Rightarrow> 64 word \<Rightarrow> tick \<Rightarrow> Packet" where
  "Packet_init raw r c tid now = raw \<lparr>flags := 0, cmd := c, req := r, data := None,
     src := InvalidPortID, dest := InvalidPortID, origCmd := InvalidCmd,
     bytesValidStart := 0, bytesValidEnd := 0, pkt_time := now, senderState := None,
     threadID := tid, readLabel := tid, writeLabel := tid\<rparr>"

definition Packet_from_req :: "Request \<Rightarrow> Packet \<Rightarrow> Packet" where
  "Packet_from_req r p =
     (let p1 = (if hasPaddr r then p \<lparr>addr := paddr r, flags := flags_set (flags p) VALID_ADDR\<rparr> else p)
      in if hasSize r then p1 \<lparr>pkt_size := req_size r, flags := flags_set (flags p1) VALID_SIZE\<rparr> else p1)"

definition Packet_new :: "Packet \<Rightarrow> Request \<Rightarrow> Command \<Rightarrow> tick \<Rightarrow> Packet" where
  "Packet_new raw r c now = Packet_from_req r (Packet_init raw r c 0 now)"

definition Packet_new_tid ::
    "Packet \<Rightarrow> Request \<Rightarrow> Command \<Rightarrow> 64 word \<Rightarrow> 64 word \<Rightarrow> 64 word \<Rightarrow> tick \<Rightarrow> Packet" where
  "Packet_new_tid raw r c tid tid1 tid2 now = Packet_from_req r (Packet_init raw r c tid now)"

definition Packet_from_blk :: "Request \<Rightarrow> 32 word \<Rightarrow> Packet \<Rightarrow> Packet" where
  "Packet_from_blk r blkSize p =
     (let p1 = (if hasPaddr r
                then p \<lparr>addr := paddr r AND scast (NOT (blkSize - 1)),
                        flags := flags_set (flags p) VALID_ADDR\<rparr> else p)
      in p1 \<lparr>pkt_size := blkSize, flags := flags_set (flags p1) VALID_SIZE\<rparr>)"

definition Packet_new_blk :: "Packet \<Rightarrow> Request \<Rightarrow> Command \<Rightarrow> 32 word \<Rightarrow> tick \<Rightarrow> Packet" where
  "Packet_new_blk raw r c blkSize now = Packet_from_blk r blkSize (Packet_init raw r c 0 now)"

definition Packet_new_blk_tid ::
    "Packet \<Rightarrow> Request \<Rightarrow> Command \<Rightarrow> 32 word \<Rightarrow> 64 word \<Rightarrow> tick \<Rightarrow> Packet" where
  "Packet_new_blk_tid raw r c blkSize tid now =
     Packet_from_blk r blkSize (Packet_init raw r c tid now)"

definition Packet_copy :: "Packet \<Rightarrow> Packet \<Rightarrow> bool \<Rightarrow> tick \<Rightarrow> Packet" where
  "Packet_copy raw pkt clearFlags now =
     (let f0 = (0 :: 32 word);
          f1 = (if \<not> clearFlags then flags_set f0 (flags pkt AND COPY_FLAGS) else f0);
          f2 = flags_set f1 (flags pkt AND (VALID_ADDR OR VALID_SIZE));
          f3 = flags_set f2 (flags pkt AND STATIC_DATA)
      in raw \<lparr>flags := f3, cmd := cmd pkt, req := req pkt,
           data := (if isSet (flags pkt) STATIC_DATA then data pkt else None),
           addr := addr pkt, pkt_size := pkt_size pkt, src := src pkt, dest := dest pkt,
           origCmd := InvalidCmd,
           bytesValidStart := bytesValidStart pkt, bytesValidEnd := bytesValidEnd pkt,
           pkt_time := now, senderState := senderState pkt, threadID := threadID pkt,
           readLabel := threadID pkt, writeLabel := threadID pkt\<rparr>)"

subsection \<open>Data movement\<close>

definition deleteData :: "Packet \<Rightarrow> Packet" where
  "deleteData p = p \<lparr>flags := flags_clear (flags p) (STATIC_DATA OR DYNAMIC_DATA OR ARRAY_DATA),
     data := None\<rparr>"

definition reinitFromRequest :: "Packet \<Rightarrow> Packet option" where
  "reinitFromRequest p = do {
     check (hasPaddr (req p));
     a \<leftarrow> getPaddr (req p);
     s \<leftarrow> req_getSize (req p);
     t \<leftarrow> get_time (req p);
     Some (deleteData (p \<lparr>flags := flags_set 0 (VALID_ADDR OR VALID_SIZE), addr := a,
       pkt_size := s, pkt_time := t\<rparr>)) }"

definition makeResponse :: "Packet \<Rightarrow> Packet option" where
  "makeResponse p = do {
     check (needsResponse (cmd p));
     check (isRequest (cmd p));
     Some (clearSrc (p \<lparr>origCmd := cmd p, cmd := responseCommand (cmd p),
       flags := flags_clear (flags p) EXPRESS_SNOOP, dest := src p\<rparr>)) }"

definition setFunctionalResponseStatus :: "bool \<Rightarrow> Packet \<Rightarrow> Packet" where
  "setFunctionalResponseStatus success p =
     (if \<not> success then
        if isWrite (cmd p) then p \<lparr>cmd := FunctionalWriteError\<rparr>
        else p \<lparr>cmd := FunctionalReadError\<rparr>
      else p)"

definition setSize :: "32 word \<Rightarrow> Packet \<Rightarrow> Packet option" where
  "setSize s p = do { check (\<not> isSet (flags p) VALID_SIZE);
     Some (p \<lparr>pkt_size := s, flags := flags_set (flags p) VALID_SIZE\<rparr>) }"

definition data_flags :: "32 word" where
  "data_flags = STATIC_DATA OR DYNAMIC_DATA OR ARRAY_DATA"

definition dataStatic :: "byte list \<Rightarrow> Packet \<Rightarrow> Packet option" where
  "dataStatic d p = do { check (noneSet (flags p) data_flags);
     Some (p \<lparr>data := Some d, flags := flags_set (flags p) STATIC_DATA\<rparr>) }"
definition dataDynamicArray :: "byte list \<Rightarrow> Packet \<Rightarrow> Packet option" where
  "dataDynamicArray d p = do { check (noneSet (flags p) data_flags);
     Some (p \<lparr>data := Some d, flags := flags_set (flags p) (DYNAMIC_DATA OR ARRAY_DATA)\<rparr>) }"
definition dataDynamic :: "byte list \<Rightarrow> Packet \<Rightarrow> Packet option" where
  "dataDynamic d p = do { check (noneSet (flags p) data_flags);
     Some (p \<lparr>data := Some d, flags := flags_set (flags p) DYNAMIC_DATA\<rparr>) }"

text \<open>\<open>getPtr\<close> followed by a dereference: a null pointer fails.\<close>

definition getPtr :: "Packet \<Rightarrow> byte list option" where
  "getPtr p = do { check (isSet (flags p) (STATIC_DATA OR DYNAMIC_DATA)); data p }"

definition setData :: "byte list \<Rightarrow> Packet \<Rightarrow> Packet option" where
  "setData d p = do { b \<leftarrow> getPtr p; n \<leftarrow> getSize p; r \<leftarrow> memcpy_at b 0 d (unat n);
     Some (p \<lparr>data := Some r\<rparr>) }"
definition setDataFromBlock :: "byte list \<Rightarrow> 32 word \<Rightarrow> Packet \<Rightarrow> Packet option" where
  "setDataFromBlock blk_data blkSize p = do { off \<leftarrow> getOffset blkSize p;
     setData (drop (unat off) blk_data) p }"
definition writeDataToBlock :: "byte list \<Rightarrow> 32 word \<Rightarrow> Packet \<Rightarrow> byte list option" where
  "writeDataToBlock blk_data blkSize p = do { off \<leftarrow> getOffset blkSize p; b \<leftarrow> getPtr p;
     n \<leftarrow> getSize p; memcpy_at blk_data (unat off) b (unat n) }"
definition writeData :: "byte list \<Rightarrow> Packet \<Rightarrow> byte list option" where
  "writeData d p = do { b \<leftarrow> getPtr p; n \<leftarrow> getSize p; memcpy_at d 0 b (unat n) }"

definition allocate :: "(nat \<Rightarrow> byte) \<Rightarrow> Packet \<Rightarrow> Packet option" where
  "allocate u p = (case data p of
     Some d \<Rightarrow> do { check (isSet (flags p) (STATIC_DATA OR DYNAMIC_DATA)); Some p }
   | None \<Rightarrow> do {
       check (noneSet (flags p) (STATIC_DATA OR DYNAMIC_DATA));
       n \<leftarrow> getSize p;
       Some (p \<lparr>flags := flags_set (flags p) (DYNAMIC_DATA OR ARRAY_DATA),
                data := Some (map u [0..<unat n])\<rparr>) })"

subsection \<open>Functional accesses\<close>

text \<open>The conversion of a 64-bit difference to a C++ \<open>int\<close>.\<close>

definition to_int :: "64 word \<Rightarrow> int" where
  "to_int w = sint (ucast w :: 32 word)"

definition memcpy_int :: "byte list \<Rightarrow> int \<Rightarrow> byte list \<Rightarrow> int \<Rightarrow> int \<Rightarrow> byte list option" where
  "memcpy_int dst doff sr soff n =
     (if 0 \<le> doff \<and> 0 \<le> soff \<and> 0 \<le> n \<and> soff \<le> int (length sr)
      then memcpy_at dst (nat doff) (drop (nat soff) sr) (nat n) else None)"

text \<open>
  Offsets and sizes of a partial overlap: \<open>(val_offset, func_offset,
  overlap_size)\<close>, with the \<open>panic\<close> of the missed case.
\<close>

definition partial_overlap ::
    "addr \<Rightarrow> addr \<Rightarrow> addr \<Rightarrow> addr \<Rightarrow> 32 word \<Rightarrow> (int \<times> int \<times> int) option" where
  "partial_overlap func_start func_end val_start val_end sz =
     (if val_start < func_start \<and> val_end \<le> func_end then
        Some (to_int (func_start - val_start), 0, to_int (val_end - func_start))
      else if val_start \<ge> func_start \<and> val_end > func_end then
        Some (0, to_int (val_start - func_start), to_int (func_end - val_start))
      else if val_start \<ge> func_start \<and> val_end \<le> func_end then
        Some (0, to_int (val_start - func_start), sint sz)
      else None)"

text \<open>
  How much of the overlap is copied without overwriting bytes found earlier.
  The result is the packet with its range of valid bytes updated (and the
  first half copied when the copy is split in two) and the remaining
  \<open>(func_offset, val_offset, overlap_size)\<close>.
\<close>

definition merge_overlap ::
    "byte list \<Rightarrow> int \<Rightarrow> int \<Rightarrow> int \<Rightarrow> Packet \<Rightarrow> (Packet \<times> int \<times> int \<times> int) option" where
  "merge_overlap d func_offset val_offset overlap_size p =
     (let vs = uint (bytesValidStart p); ve = uint (bytesValidEnd p) in
      if vs = 0 \<and> ve = 0 then
        Some (p \<lparr>bytesValidStart := word_of_int func_offset,
                 bytesValidEnd := word_of_int (func_offset + overlap_size)\<rparr>,
              func_offset, val_offset, overlap_size)
      else
        let a = func_offset - vs;
            b = (func_offset + overlap_size) - ve;
            c = func_offset - ve;
            e = (func_offset + overlap_size) - vs in
        if a \<ge> 0 \<and> b \<le> 0 then Some (p, func_offset, val_offset, 0)
        else if a < 0 \<and> e \<ge> 0 \<and> b \<le> 0 then
          Some (p \<lparr>bytesValidStart := word_of_int func_offset\<rparr>,
                func_offset, val_offset, vs - func_offset)
        else if b > 0 \<and> c \<le> 0 \<and> a \<ge> 0 then
          Some (p \<lparr>bytesValidEnd := word_of_int (ve + b)\<rparr>,
                ve, val_offset + (ve - func_offset), b)
        else if a < 0 \<and> b > 0 then do {
          dst \<leftarrow> getPtr p;
          dst' \<leftarrow> memcpy_int dst func_offset d val_offset (vs - func_offset);
          Some (p \<lparr>data := Some dst', bytesValidStart := word_of_int func_offset,
                   bytesValidEnd := word_of_int (ve + b)\<rparr>,
                ve, val_offset + (ve - func_offset), b) }
        else if (c > 0 \<and> b > 0) \<or> (a < 0 \<and> e < 0) then None
        else Some (p, func_offset, val_offset, overlap_size))"

definition functional_read ::
    "(nat \<Rightarrow> byte) \<Rightarrow> addr \<Rightarrow> addr \<Rightarrow> addr \<Rightarrow> addr \<Rightarrow> 32 word \<Rightarrow> byte list \<Rightarrow> Packet
      \<Rightarrow> (bool \<times> Packet) option" where
  "functional_read u func_start func_end val_start val_end sz d p =
     (if func_start \<ge> val_start \<and> func_end \<le> val_end then do {
        p \<leftarrow> allocate u p;
        dst \<leftarrow> getPtr p;
        n \<leftarrow> getSize p;
        dst' \<leftarrow> memcpy_int dst 0 d (to_int (func_start - val_start)) (uint n);
        Some (True, p \<lparr>data := Some dst'\<rparr>) }
      else do {
        (vo, fo, ov) \<leftarrow> partial_overlap func_start func_end val_start val_end sz;
        (p, fo, vo, ov) \<leftarrow> merge_overlap d fo vo ov p;
        n \<leftarrow> getSize p;
        check (uint (bytesValidEnd p) \<le> uint n);
        dst \<leftarrow> getPtr p;
        dst' \<leftarrow> memcpy_int dst fo d vo ov;
        Some (bytesValidStart p = 0 \<and> uint (bytesValidEnd p) = uint n,
              p \<lparr>data := Some dst'\<rparr>) })"

definition functional_write ::
    "addr \<Rightarrow> addr \<Rightarrow> addr \<Rightarrow> addr \<Rightarrow> byte list \<Rightarrow> Packet \<Rightarrow> byte list option" where
  "functional_write func_start func_end val_start val_end d p =
     (let offset = to_int (func_start - val_start) in do {
        b \<leftarrow> getPtr p;
        if offset \<ge> 0
        then memcpy_int d offset b 0 (uint ((min func_end val_end - func_start) + 1))
        else memcpy_int d 0 b (- offset) (uint ((min func_end val_end - val_start) + 1)) })"

text \<open>
  \<open>checkFunctional\<close>: whether the access is complete, the packet, and the data
  array of the memory value it was checked against.  Printing has no effect on
  either.
\<close>

definition checkFunctional ::
    "(nat \<Rightarrow> byte) \<Rightarrow> addr \<Rightarrow> 32 word \<Rightarrow> byte list option \<Rightarrow> Packet
      \<Rightarrow> (bool \<times> Packet \<times> byte list option) option" where
  "checkFunctional u val_start sz dat p = do {
     func_start \<leftarrow> getAddr p;
     n \<leftarrow> getSize p;
     let func_end = func_start + ucast n - 1;
     let val_end = val_start + scast sz - 1;
     if func_start > val_end \<or> val_start > func_end then Some (False, p, dat)
     else if isPrint (cmd p) then
       do { check (senderState p = Some PrintReqState); Some (False, p, dat) }
     else case dat of
       None \<Rightarrow> Some (False, p, dat)
     | Some d \<Rightarrow>
         if isRead (cmd p) then do {
           (b, p') \<leftarrow> functional_read u func_start func_end val_start val_end sz d p;
           Some (b, p', dat) }
         else if isWrite (cmd p) then do {
           d' \<leftarrow> functional_write func_start func_end val_start val_end d p;
           Some (False, p, Some d') }
         else None }"

text \<open>The check against another packet in flight.\<close>

definition checkFunctional_pkt ::
    "(nat \<Rightarrow> byte) \<Rightarrow> Packet \<Rightarrow> Packet \<Rightarrow> (bool \<times> Packet \<times> Packet) option" where
  "checkFunctional_pkt u other p = do {
     d \<leftarrow> (if hasData (cmd other) then do { check (isSet (flags other) (STATIC_DATA OR DYNAMIC_DATA));
              Some (data other) } else Some None);
     a \<leftarrow> getAddr other;
     n \<leftarrow> getSize other;
     (b, p', d') \<leftarrow> checkFunctional u a n d p;
     Some (b, p', if hasData (cmd other) then other \<lparr>data := d'\<rparr> else other) }"

subsection \<open>Well-formed accesses\<close>

text \<open>A packet with a valid, non-empty address range that does not wrap.\<close>

definition pkt_ok :: "Packet \<Rightarrow> bool" where
  "pkt_ok p \<longleftrightarrow> isSet (flags p) VALID_ADDR \<and> isSet (flags p) VALID_SIZE
     \<and> 0 < unat (pkt_size p) \<and> unat (pkt_size p) < 2 ^ 31
     \<and> unat (addr p) + unat (pkt_size p) \<le> 2 ^ 64"

definition pkt_range :: "Packet \<Rightarrow> nat set" where
  "pkt_range p = {unat (addr p) ..< unat (addr p) + unat (pkt_size p)}"

text \<open>The packet's buffer: allocated with its size.\<close>

definition pkt_buf :: "Packet \<Rightarrow> byte list \<Rightarrow> bool" where
  "pkt_buf p b \<longleftrightarrow> data p = Some b \<and> length b = unat (pkt_size p)
     \<and> isSet (flags p) (STATIC_DATA OR DYNAMIC_DATA)"

definition pkt_unallocated :: "Packet \<Rightarrow> bool" where
  "pkt_unallocated p \<longleftrightarrow> data p = None \<and> noneSet (flags p) (STATIC_DATA OR DYNAMIC_DATA)"

definition val_ok :: "addr \<Rightarrow> 32 word \<Rightarrow> byte list \<Rightarrow> bool" where
  "val_ok vs sz d \<longleftrightarrow> 0 < unat sz \<and> unat sz < 2 ^ 31 \<and> length d = unat sz
     \<and> unat vs + unat sz \<le> 2 ^ 64"

definition val_range :: "addr \<Rightarrow> 32 word \<Rightarrow> nat set" where
  "val_range vs sz = {unat vs ..< unat vs + unat sz}"

subsection \<open>Lemmas\<close>

lemma to_int_diff:
  fixes a b :: "64 word"
  assumes "- (2 ^ 31) \<le> int (unat a) - int (unat b)" and "int (unat a) - int (unat b) < 2 ^ 31"
  shows "to_int (a - b) = int (unat a) - int (unat b)"
proof -
  have "uint (ucast (a - b) :: 32 word) = take_bit 32 (uint (a - b))"
    by (simp add: unsigned_ucast_eq)
  also have "uint (a - b) = take_bit 64 (uint a - uint b)"
    by (simp add: uint_word_ariths take_bit_eq_mod)
  also have "take_bit 32 (take_bit 64 (uint a - uint b)) = take_bit 32 (uint a - uint b)"
    by simp
  finally have "to_int (a - b) = signed_take_bit 31 (take_bit 32 (uint a - uint b))"
    by (simp add: to_int_def sint_uint)
  also have "\<dots> = signed_take_bit 31 (uint a - uint b)"
    by (simp add: signed_take_bit_take_bit)
  also have "\<dots> = uint a - uint b"
    using assms by (intro signed_take_bit_int_eq_self) simp_all
  finally show ?thesis by simp
qed

lemma int_diff_range:
  "y \<le> x \<Longrightarrow> x - y < 2 ^ 31 \<Longrightarrow>
     - (2 ^ 31) \<le> int x - int y \<and> int x - int y < 2 ^ 31 \<and>
     - (2 ^ 31) \<le> int y - int x \<and> int y - int x < 2 ^ 31"
  by (simp, linarith)

lemma to_int_ge:
  fixes a b :: "64 word"
  assumes "unat b \<le> unat a" and "unat a - unat b < 2 ^ 31"
  shows "to_int (a - b) = int (unat a - unat b)"
  using int_diff_range [OF assms] to_int_diff [of a b]
  by (simp only: of_nat_diff [OF assms(1)])

lemma to_int_lt:
  fixes a b :: "64 word"
  assumes "unat a < unat b" and "unat b - unat a < 2 ^ 31"
  shows "to_int (a - b) = - int (unat b - unat a)"
  using int_diff_range [OF less_imp_le [OF assms(1)] assms(2)] to_int_diff [of a b]
  by (simp only: of_nat_diff [OF less_imp_le [OF assms(1)]] minus_diff_eq)

lemma sint_small:
  assumes "unat (w :: 32 word) < 2 ^ 31"
  shows "sint w = int (unat w)"
proof -
  have "int (unat w) < int (2 ^ 31)" using assms by (simp only: of_nat_less_iff)
  then have "uint w < 2 ^ 31" by simp
  moreover have "- (2 ^ 31) \<le> uint w" by (rule order_trans [of _ 0]) simp_all
  ultimately show ?thesis by (simp add: sint_uint signed_take_bit_int_eq_self)
qed

lemma sle_small: "unat (w :: 32 word) < 2 ^ 31 \<Longrightarrow> 0 \<le>s w"
  by (simp add: word_sle_eq sint_small)

lemma range_end:
  fixes a e :: "64 word"
  assumes "0 < n" "unat a + n \<le> 2 ^ 64" "unat e = n"
  shows "unat (a + e - 1) = unat a + n - 1"
proof (cases "unat a + n = 2 ^ 64")
  case True
  then have "a + e = 0"
    using assms by (simp add: word_unat_eq_iff unat_word_ariths)
  moreover have "unat (- 1 :: 64 word) = 2 ^ 64 - 1"
    by (simp add: unsigned_minus_1_eq_mask mask_eq_exp_minus_1)
  ultimately show ?thesis using True assms by simp
next
  case False
  then have s: "unat (a + e) = unat a + n"
    using assms unat_add_lem [of a e] by simp
  then have "a + e \<noteq> 0" using assms(1) by auto
  then show ?thesis using s by (simp add: unat_minus_one)
qed

lemma pkt_end:
  "pkt_ok p \<Longrightarrow> unat (addr p + ucast (pkt_size p) - 1) = unat (addr p) + unat (pkt_size p) - 1"
  using unat_lt_32 [of "pkt_size p"]
  by (intro range_end) (simp_all add: pkt_ok_def unat_ucast_word)

lemma val_end:
  "val_ok vs sz d \<Longrightarrow> unat (vs + scast sz - 1) = unat vs + unat sz - 1"
  by (intro range_end) (simp_all add: val_ok_def unat_scast_nonneg sle_small)

lemma pkt_ok_get [simp]:
  assumes "pkt_ok p"
  shows "getAddr p = Some (addr p)" "getSize p = Some (pkt_size p)"
  using assms by (simp_all add: pkt_ok_def getAddr_def getSize_def)

lemma print_not_read: "isPrint c \<Longrightarrow> \<not> isRead c \<and> \<not> isWrite c"
  by (induct c; code_simp)

lemma no_intersection_iff:
  assumes "pkt_ok p" "val_ok vs sz d"
  shows "(addr p > vs + scast sz - 1 \<or> vs > addr p + ucast (pkt_size p) - 1)
         \<longleftrightarrow> pkt_range p \<inter> val_range vs sz = {}"
proof -
  have p: "0 < unat (pkt_size p)" and v: "0 < unat sz"
    using assms by (simp_all add: pkt_ok_def val_ok_def)
  show ?thesis
    unfolding word_less_nat_alt pkt_end [OF assms(1)] val_end [OF assms(2)] pkt_range_def val_range_def
    using p v by auto
qed

lemma memcpy_int_ok:
  assumes "doff + n \<le> length dst" and "soff + n \<le> length sr"
  shows "memcpy_int dst (int doff) sr (int soff) (int n)
         = Some (take doff dst @ take n (drop soff sr) @ drop (doff + n) dst)"
  using assms by (simp add: memcpy_int_def memcpy_at_def)

lemma allocate_buf:
  assumes "pkt_ok p" and "pkt_unallocated p \<or> pkt_buf p b"
  shows "\<exists>p' b'. allocate u p = Some p' \<and> getPtr p' = Some b' \<and> length b' = unat (pkt_size p)
           \<and> getSize p' = Some (pkt_size p) \<and> addr p' = addr p \<and> pkt_size p' = pkt_size p \<and> cmd p' = cmd p"
proof -
  have "isSet (flags_set f (DYNAMIC_DATA OR ARRAY_DATA)) (STATIC_DATA OR DYNAMIC_DATA)" for f
    by (auto simp: flags_defs pkt_flag_defs bit_eq_iff bit_simps exI [of _ 13])
  moreover have "isSet (flags_set f m) VALID_SIZE" if "isSet f VALID_SIZE" for f m
    using that by (auto simp: flags_defs bit_eq_iff bit_simps)
  ultimately show ?thesis
    using assms
    by (auto simp: allocate_def pkt_unallocated_def pkt_buf_def getPtr_def getSize_def pkt_ok_def)
qed

lemma functional_read_contained:
  assumes ok: "pkt_ok p" "val_ok vs sz d"
    and buf: "pkt_unallocated p \<or> pkt_buf p b"
    and sub: "pkt_range p \<subseteq> val_range vs sz"
  shows "\<exists>p'. functional_read u (addr p) (addr p + ucast (pkt_size p) - 1) vs (vs + scast sz - 1) sz d p
            = Some (True, p') \<and> addr p' = addr p \<and> pkt_size p' = pkt_size p \<and> cmd p' = cmd p
          \<and> data p' = Some (take (unat (pkt_size p)) (drop (unat (addr p) - unat vs) d))"
proof -
  let ?off = "unat (addr p) - unat vs" and ?n = "unat (pkt_size p)"
  have pos: "0 < ?n" "0 < unat sz" "unat sz < 2 ^ 31" "length d = unat sz"
    using ok by (simp_all add: pkt_ok_def val_ok_def)
  have incl: "unat vs \<le> unat (addr p)" "unat (addr p) + ?n \<le> unat vs + unat sz"
    using sub pos by (auto simp: pkt_range_def val_range_def ivl_subset)
  have guard: "vs \<le> addr p" "addr p + ucast (pkt_size p) - 1 \<le> vs + scast sz - 1"
    using incl pos by (simp_all add: word_le_nat_alt pkt_end [OF ok(1)] val_end [OF ok(2)])
  have off: "to_int (addr p - vs) = int ?off"
    using incl pos by (intro to_int_ge) simp_all
  from allocate_buf [OF ok(1) buf, of u] obtain p' b' where
    p': "allocate u p = Some p'" "getPtr p' = Some b'" "length b' = ?n" "getSize p' = Some (pkt_size p)"
      "addr p' = addr p" "pkt_size p' = pkt_size p" "cmd p' = cmd p" by blast
  have "memcpy_int b' (int 0) d (int ?off) (int ?n) = Some (take ?n (drop ?off d))"
    using incl pos p'(3) by (subst memcpy_int_ok) simp_all
  then show ?thesis
    using guard off p' by (simp add: functional_read_def)
qed

lemma uint_diff_plus_1:
  fixes e x :: "64 word"
  assumes "unat x \<le> unat e" and "unat e - unat x < 2 ^ 31"
  shows "uint (e - x + 1) = int (unat e - unat x + 1)"
proof -
  have d: "unat (e - x) = unat e - unat x"
    using assms(1) by (intro unat_sub) (simp only: word_le_nat_alt)
  have "unat (e - x) + unat (1 :: 64 word) < 2 ^ LENGTH(64)"
    using assms(2) by (simp add: d)
  then have "unat (e - x + 1) = unat e - unat x + 1"
    using d unat_add_lem [of "e - x" 1] by simp
  then show ?thesis by (metis of_nat_unat ucast_id)
qed

lemma functional_write_overlap:
  assumes ok: "pkt_ok p" "val_ok vs sz d" and buf: "pkt_buf p b"
    and meet: "pkt_range p \<inter> val_range vs sz \<noteq> {}"
  shows "\<exists>d'. functional_write (addr p) (addr p + ucast (pkt_size p) - 1) vs (vs + scast sz - 1) d p = Some d'
          \<and> length d' = length d
          \<and> (\<forall>i < length d. d' ! i = (if unat vs + i \<in> pkt_range p
                                  then b ! (unat vs + i - unat (addr p)) else d ! i))"
proof -
  let ?fs = "unat (addr p)" and ?n = "unat (pkt_size p)" and ?vs = "unat vs" and ?m = "unat sz"
  let ?e = "min (addr p + ucast (pkt_size p) - 1) (vs + scast sz - 1)"
  have pos: "0 < ?n" "?n < 2 ^ 31" "0 < ?m" "?m < 2 ^ 31" "length d = ?m" "length b = ?n"
    and ptr: "getPtr p = Some b"
    using ok buf by (simp_all add: pkt_ok_def val_ok_def pkt_buf_def getPtr_def)
  have meet': "?fs < ?vs + ?m" "?vs < ?fs + ?n"
    using meet by (auto simp: pkt_range_def val_range_def)
  have e: "unat ?e = min (?fs + ?n) (?vs + ?m) - 1"
    using pos pkt_end [OF ok(1)] val_end [OF ok(2)] by (auto simp: min_def word_le_nat_alt)
  have cnt: "uint (?e - x + 1) = int (min (?fs + ?n) (?vs + ?m) - unat x)"
    if "unat x < min (?fs + ?n) (?vs + ?m)" and "min (?fs + ?n) (?vs + ?m) - unat x < 2 ^ 31" for x
    using that e by (subst uint_diff_plus_1) (simp_all only:, linarith+)
  show ?thesis
  proof (cases "?vs \<le> ?fs")
    case True
    let ?k = "min (?fs + ?n) (?vs + ?m) - ?fs"
    let ?r = "take (?fs - ?vs) d @ take ?k (drop 0 b) @ drop (?fs - ?vs + ?k) d"
    have off: "to_int (addr p - vs) = int (?fs - ?vs)"
      using True meet' pos by (intro to_int_ge) simp_all
    have cnt': "uint (?e - addr p + 1) = int ?k"
      using True meet' pos by (intro cnt) linarith+
    have cp: "memcpy_int d (int (?fs - ?vs)) b (int 0) (int ?k) = Some ?r"
      using True pos meet' by (intro memcpy_int_ok) auto
    have "functional_write (addr p) (addr p + ucast (pkt_size p) - 1) vs (vs + scast sz - 1) d p = Some ?r"
      unfolding functional_write_def Let_def ptr off cnt' using cp
      by (simp only: Option.bind.simps of_nat_0_le_iff if_True int_ops(1))
    moreover have "length ?r = length d" using True pos meet' by auto
    moreover have "\<forall>i < length d. ?r ! i = (if ?vs + i \<in> pkt_range p then b ! (?vs + i - ?fs) else d ! i)"
      using True pos meet' by (auto simp: nth_append pkt_range_def min_def add.commute)
    ultimately show ?thesis by blast
  next
    case False
    let ?k = "min (?fs + ?n) (?vs + ?m) - ?vs"
    let ?r = "take 0 d @ take ?k (drop (?vs - ?fs) b) @ drop (0 + ?k) d"
    have off: "to_int (addr p - vs) = - int (?vs - ?fs)"
      using False meet' pos by (intro to_int_lt) simp_all
    have cnt': "uint (?e - vs + 1) = int ?k"
      using False meet' pos by (intro cnt) linarith+
    have cp: "memcpy_int d (int 0) b (int (?vs - ?fs)) (int ?k) = Some ?r"
      using False pos meet' by (intro memcpy_int_ok) auto
    have "0 < int (?vs - ?fs)" using False by (simp only: of_nat_0_less_iff)
    then have neg: "\<not> 0 \<le> - int (?vs - ?fs)" by linarith
    have "functional_write (addr p) (addr p + ucast (pkt_size p) - 1) vs (vs + scast sz - 1) d p = Some ?r"
      unfolding functional_write_def Let_def ptr off cnt' using cp
      by (simp only: Option.bind.simps neg if_False minus_minus int_ops(1))
    moreover have "length ?r = length d" using False pos meet' by auto
    moreover have "\<forall>i < length d. ?r ! i = (if ?vs + i \<in> pkt_range p then b ! (?vs + i - ?fs) else d ! i)"
      using False pos meet' by (auto simp: nth_append pkt_range_def min_def add.commute)
    ultimately show ?thesis by blast
  qed
qed

lemma partial_low_short:
  assumes ok: "pkt_ok p" "val_ok vs sz d" and buf: "pkt_buf p b"
    and small: "unat (pkt_size p) < 2 ^ 16"
    and fresh: "bytesValidStart p = 0" "bytesValidEnd p = 0"
    and low: "unat vs < unat (addr p)" "unat (addr p) < unat vs + unat sz"
      "unat vs + unat sz < unat (addr p) + unat (pkt_size p)"
  defines "k \<equiv> unat vs + unat sz - unat (addr p) - 1"
  shows "\<exists>p'. functional_read u (addr p) (addr p + ucast (pkt_size p) - 1) vs (vs + scast sz - 1) sz d p
            = Some (False, p') \<and> unat (bytesValidEnd p') = k
          \<and> data p' = Some (take k (drop (unat (addr p) - unat vs) d) @ drop k b)"
proof -
  let ?fs = "unat (addr p)" and ?n = "unat (pkt_size p)" and ?vs = "unat vs" and ?m = "unat sz"
  let ?fe = "addr p + ucast (pkt_size p) - 1" and ?ve = "vs + scast sz - 1"
  have pos: "0 < ?n" "0 < ?m" "?m < 2 ^ 31" "length d = ?m" "length b = ?n"
    and ptr: "data p = Some b" "isSet (flags p) (STATIC_DATA OR DYNAMIC_DATA)"
      "isSet (flags p) VALID_SIZE"
    using ok buf by (simp_all add: pkt_ok_def val_ok_def pkt_buf_def)
  have ends: "unat ?fe = ?fs + ?n - 1" "unat ?ve = ?vs + ?m - 1"
    using pkt_end [OF ok(1)] val_end [OF ok(2)] by simp_all
  have cmp: "\<not> vs \<ge> addr p" "vs \<le> addr p" "\<not> ?fe \<le> ?ve" "?ve \<le> ?fe" "vs < addr p"
    using low pos ends by (auto simp: word_le_nat_alt word_less_nat_alt)
  have o1: "to_int (addr p - vs) = int (?fs - ?vs)"
    using low pos by (intro to_int_ge) linarith+
  have o2: "to_int (?ve - addr p) = int k"
    using to_int_ge [of "addr p" ?ve] low pos ends by (simp add: k_def)
  have k: "k < ?n" "k < 2 ^ 16" using low small by (simp_all add: k_def)
  then have k16: "unat (word_of_int (int k) :: 16 word) = k"
    by (simp add: unat_of_nat)
  have cp: "memcpy_int b (int 0) d (int (?fs - ?vs)) (int k)
        = Some (take 0 b @ take k (drop (?fs - ?vs) d) @ drop (0 + k) b)"
    using low pos k by (intro memcpy_int_ok) (simp_all add: k_def)
  have part: "partial_overlap (addr p) ?fe vs ?ve sz = Some (int (?fs - ?vs), 0, int k)"
    unfolding partial_overlap_def using cmp by (simp only: o1 o2 simp_thms if_True)
  define vo where "vo = int (?fs - ?vs)"
  have mrg: "merge_overlap d 0 vo (int k) p = Some (p \<lparr>bytesValidStart := 0,
      bytesValidEnd := word_of_int (int k)\<rparr>, 0, vo, int k)"
    by (simp add: merge_overlap_def fresh)
  have "uint (word_of_int (int k) :: 16 word) = int k" using k16 by (metis of_nat_unat ucast_id)
  moreover have "int k < uint (pkt_size p)" using k(1) by (metis of_nat_less_iff of_nat_unat ucast_id)
  ultimately show ?thesis
    using cmp part [folded vo_def] mrg cp [folded vo_def] ptr k16
    by (simp add: functional_read_def getSize_def getPtr_def)
qed

subsection \<open>Properties\<close>

text \<open>
  A functional read contained in a memory value completes and delivers exactly the
  bytes of the value at its offset, allocating the packet buffer when there is none, and
  leaves the value unchanged.
\<close>

theorem checkFunctional_read:
  assumes "pkt_ok p" "val_ok vs sz d" "pkt_unallocated p \<or> pkt_buf p b"
    and "isRead (cmd p)" and sub: "pkt_range p \<subseteq> val_range vs sz"
  shows "\<exists>p'. checkFunctional u vs sz (Some d) p = Some (True, p', Some d)
          \<and> addr p' = addr p \<and> pkt_size p' = pkt_size p \<and> cmd p' = cmd p
          \<and> data p' = Some (take (unat (pkt_size p)) (drop (unat (addr p) - unat vs) d))"
proof -
  have "\<not> isPrint (cmd p)" using assms(4) print_not_read by blast
  moreover have "pkt_range p \<noteq> {}" using assms(1) by (simp add: pkt_ok_def pkt_range_def)
  then have "pkt_range p \<inter> val_range vs sz \<noteq> {}" using sub by blast
  ultimately show ?thesis
    using no_intersection_iff [OF assms(1,2)] functional_read_contained [OF assms(1,2,3) sub, of u] assms(1,4)
    by (auto simp: checkFunctional_def)
qed

text \<open>
  A functional write overwrites exactly the bytes of the memory value that lie in
  the range of the packet with the corresponding packet bytes, whatever the overlap, and
  never completes the access by itself.
\<close>

theorem checkFunctional_write:
  assumes "pkt_ok p" "val_ok vs sz d" "pkt_buf p b" "isWrite (cmd p)" "\<not> isRead (cmd p)"
  shows "\<exists>d'. checkFunctional u vs sz (Some d) p = Some (False, p, Some d') \<and> length d' = length d
          \<and> (\<forall>i < length d. d' ! i = (if unat vs + i \<in> pkt_range p
                                  then b ! (unat vs + i - unat (addr p)) else d ! i))"
proof (cases "pkt_range p \<inter> val_range vs sz = {}")
  case True
  then have "checkFunctional u vs sz (Some d) p = Some (False, p, Some d)"
    using no_intersection_iff [OF assms(1,2)] assms(1) by (auto simp: checkFunctional_def)
  moreover have "unat vs + i \<notin> pkt_range p" if "i < length d" for i
    using True that assms(2) by (auto simp: val_range_def val_ok_def)
  ultimately show ?thesis by auto
next
  case False
  have "\<not> isPrint (cmd p)" using assms(4) print_not_read by blast
  then show ?thesis
    using no_intersection_iff [OF assms(1,2)] functional_write_overlap [OF assms(1,2,3) False] False assms(1,4,5)
    by (auto simp: checkFunctional_def)
qed

text \<open>
  A functional read whose first bytes overlap the end of a memory value copies one
  byte less than the overlap and records one byte less as found: the last overlapping
  byte is lost.
\<close>

theorem checkFunctional_partial_short:
  assumes "pkt_ok p" "val_ok vs sz d" "pkt_buf p b" "isRead (cmd p)"
    and "unat (pkt_size p) < 2 ^ 16" "bytesValidStart p = 0" "bytesValidEnd p = 0"
    and "unat vs < unat (addr p)" "unat (addr p) < unat vs + unat sz"
      "unat vs + unat sz < unat (addr p) + unat (pkt_size p)"
  shows "\<exists>p'. checkFunctional u vs sz (Some d) p = Some (False, p', Some d)
          \<and> unat (bytesValidEnd p') + 1 = card (pkt_range p \<inter> val_range vs sz)
          \<and> data p' = Some (take (unat (bytesValidEnd p')) (drop (unat (addr p) - unat vs) d)
                           @ drop (unat (bytesValidEnd p')) b)"
proof -
  let ?I = "pkt_range p \<inter> val_range vs sz"
  have I: "?I = {unat (addr p) ..< unat vs + unat sz}"
    using assms(8-10) by (auto simp: pkt_range_def val_range_def)
  then have "?I \<noteq> {}" and card: "card ?I = unat vs + unat sz - unat (addr p)"
    using assms(9) by simp_all
  moreover have "\<not> isPrint (cmd p)" using assms(4) print_not_read by blast
  ultimately show ?thesis
    using no_intersection_iff [OF assms(1,2)] partial_low_short [OF assms(1,2,3,5-10), of u] assms(1,4,9)
    by (auto simp: checkFunctional_def card)
qed

subsection \<open>Witnesses\<close>

definition sample_pkt :: "Command \<Rightarrow> addr \<Rightarrow> 32 word \<Rightarrow> byte list option \<Rightarrow> Packet" where
  "sample_pkt c a n d = \<lparr>flags = (case d of None \<Rightarrow> 0x300 | Some _ \<Rightarrow> 0x1300), cmd = c,
     req = sample_request, data = d, addr = a, pkt_size = n, src = 0, dest = 0,
     origCmd = InvalidCmd, bytesValidStart = 0, bytesValidEnd = 0, pkt_time = 0,
     finishTime = 0, firstWordTime = 0, senderState = None, threadID = 0, readLabel = 0,
     writeLabel = 0\<rparr>"

lemmas sample_pkt_simps = sample_pkt_def pkt_ok_def pkt_buf_def pkt_unallocated_def val_ok_def
  pkt_range_def val_range_def flags_defs pkt_flag_defs

lemma sample_cmds: "isRead ReadReq" "isWrite WriteReq" "\<not> isRead WriteReq"
  by code_simp+

theorem checkFunctional_read_witness:
  "\<exists>p'. checkFunctional (\<lambda>_. 0) 0x40 4 (Some [1, 2, 3, 4]) (sample_pkt ReadReq 0x41 2 None)
     = Some (True, p', Some [1, 2, 3, 4]) \<and> data p' = Some [2, 3]"
  using checkFunctional_read [of "sample_pkt ReadReq 0x41 2 None" "0x40" 4 "[1, 2, 3, 4]" "[]" "\<lambda>_. 0"]
  by (auto simp: sample_pkt_simps sample_cmds)

theorem checkFunctional_write_witness:
  "\<exists>d'. checkFunctional (\<lambda>_. 0) 0x40 4 (Some [1, 2, 3, 4]) (sample_pkt WriteReq 0x42 4 (Some [9, 8, 7, 6]))
     = Some (False, sample_pkt WriteReq 0x42 4 (Some [9, 8, 7, 6]), Some d') \<and> d' ! 1 = 2 \<and> d' ! 2 = 9"
  using checkFunctional_write [of "sample_pkt WriteReq 0x42 4 (Some [9, 8, 7, 6])" "0x40" 4
      "[1, 2, 3, 4]" "[9, 8, 7, 6]" "\<lambda>_. 0"]
  by (auto simp: sample_pkt_simps sample_cmds)

theorem checkFunctional_partial_short_witness:
  "\<exists>p'. checkFunctional (\<lambda>_. 0) 0x40 4 (Some [1, 2, 3, 4]) (sample_pkt ReadReq 0x42 4 (Some [0, 0, 0, 0]))
     = Some (False, p', Some [1, 2, 3, 4]) \<and> unat (bytesValidEnd p') = 1 \<and> data p' = Some [3, 0, 0, 0]"
proof -
  have "card ({0x42..<0x46} \<inter> {0x40..<0x44 :: nat}) = 2" by simp
  then show ?thesis
    using checkFunctional_partial_short [of "sample_pkt ReadReq 0x42 4 (Some [0, 0, 0, 0])" "0x40" 4
        "[1, 2, 3, 4]" "[0, 0, 0, 0]" "\<lambda>_. 0"]
    by (auto simp: sample_pkt_simps sample_cmds)
qed

end
