(* ===== verification/Cache_Set.thy ===== *)
theory Cache_Set
imports Cache_Blk
begin

text \<open>
  An associative set (\<open>src/src/mem/cache/tags/cacheset.hh\<close> and
  \<open>cacheset.cc\<close>): an array of pointers to blocks, most recently used first.
  Blocks live in a store \<open>h\<close> and a pointer is an index into it.  The loops are
  translated as they are written, with the index and the assertion; the
  lemmas show that on a well-formed set the search is the first matching
  block of the recency order, and that the two rotations are removal followed
  by insertion at the front or the back.
\<close>

subsection \<open>Definitions\<close>

type_synonym blk_store = "CacheBlk list"

record CacheSet =
  set_assoc :: nat
  ways :: "nat list"

definition blk_match :: "addr \<Rightarrow> CacheBlk \<Rightarrow> bool" where
  "blk_match t b = (tag b = t \<and> isValid b)"

text \<open>
  The result is \<open>None\<close> for an access outside an array, \<open>Some None\<close> for the
  null pointer.
\<close>

function findBlk_from :: "blk_store \<Rightarrow> CacheSet \<Rightarrow> addr \<Rightarrow> nat \<Rightarrow> nat option option" where
  "findBlk_from h s t i =
     (if i < set_assoc s then do {
        p \<leftarrow> at (ways s) i;
        b \<leftarrow> at h p;
        if blk_match t b then Some (Some i) else findBlk_from h s t (Suc i) }
      else Some None)"
  by pat_completeness auto
termination by (relation "measure (\<lambda>(h, s, t, i). set_assoc s - i)") auto

declare findBlk_from.simps [simp del]

definition findBlk :: "blk_store \<Rightarrow> CacheSet \<Rightarrow> addr \<Rightarrow> nat option option" where
  "findBlk h s t = do {
     r \<leftarrow> findBlk_from h s t 0;
     case r of None \<Rightarrow> Some None | Some i \<Rightarrow> do { p \<leftarrow> at (ways s) i; Some (Some p) } }"

definition findBlkIndex :: "blk_store \<Rightarrow> CacheSet \<Rightarrow> addr \<Rightarrow> nat option" where
  "findBlkIndex h s t = do {
     r \<leftarrow> findBlk_from h s t 0;
     Some (case r of None \<Rightarrow> 999 | Some i \<Rightarrow> i) }"

definition hasBlk :: "blk_store \<Rightarrow> CacheSet \<Rightarrow> addr \<Rightarrow> bool option" where
  "hasBlk h s t = do { r \<leftarrow> findBlk_from h s t 0; Some (r \<noteq> None) }"

text \<open>The \<open>do\<close>-loop of \<open>moveToHead\<close>, at index \<open>i\<close> with \<open>next\<close> to be written.\<close>

function toHead_loop :: "nat \<Rightarrow> nat \<Rightarrow> nat list \<Rightarrow> nat \<Rightarrow> nat \<Rightarrow> nat list option" where
  "toHead_loop assoc blk ws i nxt =
     (if i < assoc then do {
        tmp \<leftarrow> at ws i;
        let ws' = ws[i := nxt];
        if tmp = blk then Some ws' else toHead_loop assoc blk ws' (Suc i) tmp }
      else None)"
  by pat_completeness auto
termination by (relation "measure (\<lambda>(a, b, ws, i, n). a - i)") auto

declare toHead_loop.simps [simp del]

definition moveToHead :: "nat \<Rightarrow> CacheSet \<Rightarrow> CacheSet option" where
  "moveToHead blk s = do {
     h \<leftarrow> at (ways s) 0;
     if h = blk then Some s
     else do { ws \<leftarrow> toHead_loop (set_assoc s) blk (ways s) 0 blk; Some (s \<lparr>ways := ws\<rparr>) } }"

text \<open>
  The loop of \<open>moveToTail\<close> runs down from \<open>assoc - 1\<close>; its argument is the
  index plus one, so that zero is the failing assertion \<open>i >= 0\<close>.
\<close>

fun toTail_loop :: "nat \<Rightarrow> nat list \<Rightarrow> nat \<Rightarrow> nat \<Rightarrow> nat list option" where
  "toTail_loop blk ws 0 nxt = None"
| "toTail_loop blk ws (Suc i) nxt = do {
     tmp \<leftarrow> at ws i;
     let ws' = ws[i := nxt];
     if tmp = blk then Some ws' else toTail_loop blk ws' i tmp }"

definition moveToTail :: "nat \<Rightarrow> CacheSet \<Rightarrow> CacheSet option" where
  "moveToTail blk s = do {
     check (0 < set_assoc s);
     t \<leftarrow> at (ways s) (set_assoc s - 1);
     if t = blk then Some s
     else do { ws \<leftarrow> toTail_loop blk (ways s) (set_assoc s) blk; Some (s \<lparr>ways := ws\<rparr>) } }"

text \<open>
  Well-formed: the array has \<open>assoc\<close> entries, at least one, which point to
  different blocks of the store.
\<close>

definition cset_ok :: "nat \<Rightarrow> CacheSet \<Rightarrow> bool" where
  "cset_ok n s \<longleftrightarrow> set_assoc s = length (ways s) \<and> ways s \<noteq> [] \<and> distinct (ways s)
     \<and> set (ways s) \<subseteq> {..<n}"

text \<open>The abstract operations on the recency order.\<close>

definition to_head :: "'a \<Rightarrow> 'a list \<Rightarrow> 'a list" where
  "to_head x xs = x # remove1 x xs"

definition to_tail :: "'a \<Rightarrow> 'a list \<Rightarrow> 'a list" where
  "to_tail x xs = remove1 x xs @ [x]"

subsection \<open>Search\<close>

lemma findBlk_from_eq:
  assumes "cset_ok (length h) s" and "i \<le> length (ways s)"
  shows "findBlk_from h s t i =
    Some (map_option (\<lambda>j. i + j) (List.find (\<lambda>j. blk_match t (h ! (ways s ! (i + j)))) [0..<length (ways s) - i]))"
  using assms(2)
proof (induction "length (ways s) - i" arbitrary: i)
  case 0
  then show ?case using assms(1) by (subst findBlk_from.simps) (simp add: cset_ok_def)
next
  case (Suc n)
  then have i: "i < length (ways s)" by simp
  then have "ways s ! i < length h"
    using assms(1) unfolding cset_ok_def by (metis lessThan_iff nth_mem subsetD)
  have split: "[0..<length (ways s) - i] = 0 # map Suc [0..<length (ways s) - Suc i]"
    using i by (simp add: map_Suc_upt upt_conv_Cons Suc_diff_Suc)
  have mapf: "List.find P (map Suc xs) = map_option Suc (List.find (P \<circ> Suc) xs)" for P xs
    by (induction xs) auto
  have eta: "(+) (Suc i) = (\<lambda>j. Suc (i + j))" by auto
  have IH: "findBlk_from h s t (Suc i) = Some (map_option (\<lambda>j. Suc i + j)
      (List.find (\<lambda>j. blk_match t (h ! (ways s ! (Suc i + j)))) [0..<length (ways s) - Suc i]))"
    using Suc.hyps(1) [of "Suc i"] Suc.hyps(2) i by (simp add: eta)
  show ?case
    using i \<open>ways s ! i < length h\<close> assms(1)
    by (subst findBlk_from.simps)
       (simp add: cset_ok_def split mapf IH comp_def option.map_comp)
qed

lemma find_index_nth:
  "map_option (\<lambda>j. xs ! j) (List.find (\<lambda>j. P (xs ! j)) [0..<length xs]) = List.find P xs"
proof -
  have "List.find P (map f js) = map_option f (List.find (\<lambda>j. P (f j)) js)" for f :: "nat \<Rightarrow> 'a" and js
    by (induction js) auto
  from this [of "\<lambda>j. xs ! j" "[0..<length xs]"] show ?thesis by (simp add: map_nth)
qed

lemma findBlk_eq:
  assumes "cset_ok (length h) s"
  shows "findBlk h s t = Some (List.find (\<lambda>p. blk_match t (h ! p)) (ways s))"
proof -
  let ?P = "\<lambda>j. blk_match t (h ! (ways s ! j))"
  have "findBlk_from h s t 0 = Some (List.find ?P [0..<length (ways s)])"
    using findBlk_from_eq [OF assms, of 0] by (simp add: option.map_id [unfolded id_def])
  moreover have "j < length (ways s)" if "List.find ?P [0..<length (ways s)] = Some j" for j
    using find_SomeD [OF that] by simp
  ultimately show ?thesis
    unfolding find_index_nth [of "ways s" "\<lambda>p. blk_match t (h ! p)", symmetric]
    by (auto simp: findBlk_def split: option.splits)
qed

lemma findBlk_SomeD:
  assumes "cset_ok (length h) s" and "findBlk h s t = Some (Some p)"
  shows "p \<in> set (ways s)" "p < length h" "tag (h ! p) = t" "isValid (h ! p)"
  using assms find_SomeD [of _ "ways s" p]
  by (auto simp: findBlk_eq blk_match_def cset_ok_def)

lemma findBlk_NoneD:
  assumes "cset_ok (length h) s" and "findBlk h s t = Some None" and "p \<in> set (ways s)"
  shows "\<not> (tag (h ! p) = t \<and> isValid (h ! p))"
  using assms by (auto simp: findBlk_eq find_None_iff_all blk_match_def)

subsection \<open>Rotation\<close>

fun shift_in :: "'a \<Rightarrow> 'a \<Rightarrow> 'a list \<Rightarrow> 'a list option" where
  "shift_in blk nxt [] = None"
| "shift_in blk nxt (y # ys) =
     (if y = blk then Some (nxt # ys) else map_option ((#) nxt) (shift_in blk y ys))"

lemma shift_in_eq:
  "shift_in blk nxt ys = (if blk \<in> set ys then Some (nxt # remove1 blk ys) else None)"
  by (induction ys arbitrary: nxt) auto

lemma toHead_loop_shift:
  assumes "i \<le> length ws"
  shows "toHead_loop (length ws) blk ws i nxt = map_option ((@) (take i ws)) (shift_in blk nxt (drop i ws))"
  using assms
proof (induction "length ws - i" arbitrary: i ws nxt)
  case 0
  then show ?case by (subst toHead_loop.simps) simp
next
  case (Suc n)
  then have i: "i < length ws" by simp
  then have d: "drop i ws = ws ! i # drop (Suc i) ws" by (simp add: Cons_nth_drop_Suc)
  let ?ws = "ws[i := nxt]"
  have "toHead_loop (length ?ws) blk ?ws (Suc i) (ws ! i)
        = map_option ((@) (take (Suc i) ?ws)) (shift_in blk (ws ! i) (drop (Suc i) ?ws))"
    using Suc by (intro Suc.hyps(1)) simp_all
  then have "toHead_loop (length ws) blk ?ws (Suc i) (ws ! i)
        = map_option ((@) (take (Suc i) ?ws)) (shift_in blk (ws ! i) (drop (Suc i) ws))"
    by (simp only: length_list_update drop_update_cancel lessI)
  moreover have "(@) (take (Suc i) ?ws) = (\<lambda>x. take i ws @ nxt # x)"
    using i by (auto simp: take_Suc_conv_app_nth fun_eq_iff)
  moreover have "ws[i := nxt] = take i ws @ nxt # drop (Suc i) ws" using i by (rule upd_conv_take_nth_drop)
  ultimately show ?case
    using i by (subst toHead_loop.simps) (auto simp: d option.map_comp comp_def Let_def)
qed

lemma moveToHead_eq:
  assumes "cset_ok n s"
  shows "moveToHead blk s =
     (if blk \<in> set (ways s) then Some (s \<lparr>ways := to_head blk (ways s)\<rparr>) else None)"
proof -
  obtain w ws where ws: "ways s = w # ws" "set_assoc s = length (ways s)"
    using assms by (cases "ways s") (auto simp: cset_ok_def)
  have rm: "w \<in> set ws \<Longrightarrow> False" using assms ws by (auto simp: cset_ok_def)
  have "toHead_loop (length (ways s)) blk (ways s) 0 blk = shift_in blk blk (ways s)"
    using toHead_loop_shift [of 0 "ways s" blk blk] by (simp add: option.map_id [unfolded id_def] append_Nil [abs_def])
  then show ?thesis
    using ws by (auto simp: moveToHead_def shift_in_eq to_head_def)
qed

lemma toTail_loop_shift:
  assumes "i \<le> length ws"
  shows "toTail_loop blk ws i nxt = map_option (\<lambda>r. rev r @ drop i ws) (shift_in blk nxt (rev (take i ws)))"
  using assms
proof (induction i arbitrary: ws nxt)
  case (Suc i)
  then have i: "i < length ws" by simp
  then have t: "rev (take (Suc i) ws) = ws ! i # rev (take i ws)" by (simp add: take_Suc_conv_app_nth)
  let ?ws = "ws[i := nxt]"
  have "toTail_loop blk ?ws i (ws ! i)
        = map_option (\<lambda>r. rev r @ drop i ?ws) (shift_in blk (ws ! i) (rev (take i ?ws)))"
    using Suc.prems by (intro Suc.IH) simp
  moreover have "drop i ?ws = nxt # drop (Suc i) ws" using i by (simp add: upd_conv_take_nth_drop)
  moreover have "?ws = take i ws @ nxt # drop (Suc i) ws" using i by (rule upd_conv_take_nth_drop)
  ultimately show ?case using i by (simp add: t option.map_comp comp_def)
qed simp

lemma rev_remove1_rev: "distinct xs \<Longrightarrow> rev (remove1 x (rev xs)) = remove1 x xs"
  by (simp add: distinct_remove1_removeAll removeAll_filter_not_eq rev_filter)

lemma moveToTail_eq:
  assumes "cset_ok n s"
  shows "moveToTail blk s =
     (if blk \<in> set (ways s) then Some (s \<lparr>ways := to_tail blk (ways s)\<rparr>) else None)"
proof -
  have ws: "set_assoc s = length (ways s)" "ways s \<noteq> []" "distinct (ways s)"
    using assms by (auto simp: cset_ok_def)
  obtain ws' w where sn: "ways s = ws' @ [w]" using ws(2) by (metis rev_exhaust)
  have "toTail_loop blk (ways s) (length (ways s)) blk
      = map_option rev (shift_in blk blk (rev (ways s)))"
    using toTail_loop_shift [of "length (ways s)" "ways s" blk blk] by simp
  moreover have "rev (remove1 blk (rev (ways s))) = remove1 blk (ways s)"
    using ws(3) by (rule rev_remove1_rev)
  moreover have "remove1 w (ways s) = ws'" using ws(3) sn by (simp add: remove1_append)
  ultimately show ?thesis
    using ws sn by (auto simp: moveToTail_def shift_in_eq to_tail_def nth_append)
qed

subsection \<open>Preservation\<close>

lemma to_head_set [simp]: "x \<in> set xs \<Longrightarrow> distinct xs \<Longrightarrow> set (to_head x xs) = set xs"
  by (auto simp: to_head_def)
lemma to_tail_set [simp]: "x \<in> set xs \<Longrightarrow> distinct xs \<Longrightarrow> set (to_tail x xs) = set xs"
  by (auto simp: to_tail_def)
lemma to_head_distinct [simp]: "distinct xs \<Longrightarrow> distinct (to_head x xs)"
  by (simp add: to_head_def)
lemma to_tail_distinct [simp]: "distinct xs \<Longrightarrow> distinct (to_tail x xs)"
  by (simp add: to_tail_def)
lemma to_head_length [simp]: "x \<in> set xs \<Longrightarrow> length (to_head x xs) = length xs"
  using length_pos_if_in_set [of x xs] by (simp add: to_head_def length_remove1)
lemma to_tail_length [simp]: "x \<in> set xs \<Longrightarrow> length (to_tail x xs) = length xs"
  using length_pos_if_in_set [of x xs] by (simp add: to_tail_def length_remove1)

lemma cset_ok_to_head [wf_intros]:
  "cset_ok n s \<Longrightarrow> p \<in> set (ways s) \<Longrightarrow> cset_ok n (s \<lparr>ways := to_head p (ways s)\<rparr>)"
  by (auto simp: cset_ok_def to_head_def length_remove1)
lemma cset_ok_to_tail [wf_intros]:
  "cset_ok n s \<Longrightarrow> p \<in> set (ways s) \<Longrightarrow> cset_ok n (s \<lparr>ways := to_tail p (ways s)\<rparr>)"
  by (auto simp: cset_ok_def to_tail_def length_remove1 Suc_pred length_pos_if_in_set)

subsection \<open>Properties\<close>

text \<open>
  On a well-formed set the swapping loops of moveToHead and moveToTail are removal
  followed by insertion at the front or the back, and their assertion fails exactly when
  the block is not in the set.
\<close>

theorem set_rotations:
  assumes "cset_ok n s"
  shows "moveToHead blk s = (if blk \<in> set (ways s)
           then Some (s \<lparr>ways := blk # remove1 blk (ways s)\<rparr>) else None)
       \<and> moveToTail blk s = (if blk \<in> set (ways s)
           then Some (s \<lparr>ways := remove1 blk (ways s) @ [blk]\<rparr>) else None)"
  using moveToHead_eq [OF assms] moveToTail_eq [OF assms] by (simp add: to_head_def to_tail_def)

theorem set_rotations_witness:
  "moveToHead 7 \<lparr>set_assoc = 3, ways = [5, 6, 7]\<rparr> = Some \<lparr>set_assoc = 3, ways = [7, 5, 6]\<rparr>
   \<and> moveToTail 5 \<lparr>set_assoc = 3, ways = [5, 6, 7]\<rparr> = Some \<lparr>set_assoc = 3, ways = [6, 7, 5]\<rparr>"
  using set_rotations [of 8 "\<lparr>set_assoc = 3, ways = [5, 6, 7]\<rparr>" 7]
    set_rotations [of 8 "\<lparr>set_assoc = 3, ways = [5, 6, 7]\<rparr>" 5]
  by (simp add: cset_ok_def)

end
