(* ===== verification/Tags_LRU.thy ===== *)
theory Tags_LRU
imports Cache_Set Int_Math
begin

text \<open>
  The LRU tag store (\<open>src/src/mem/cache/tags/lru.hh\<close>, \<open>lru.cc\<close>, with the
  statistics of \<open>tags/base.hh\<close>).  Every partitioned tag store of the
  repository is a subclass that overrides \<open>get_set\<close> and \<open>assoc_of_tc\<close>, so
  the operations here take the virtual functions as a record \<open>vt\<close>: where the
  set of a set number and a thread lives in the two-dimensional array
  \<open>sets\<close>, and how many ways the thread has.  Subclasses extend the record
  \<open>LRU\<close> with their own members.

  The locale \<open>tag_layout\<close> states what an overriding pair of functions has to
  satisfy; inside it the operations are shown to refine an abstract recency
  list per partition and set, from which the isolation of partitions follows.
\<close>

subsection \<open>State\<close>

record LRU =
  warmupBound :: int
  warmedUp :: bool
  numBlocks :: nat
  replacements :: int
  tagsInUse :: int
  totalRefs :: int
  sampledRefs :: int
  warmupCycle :: tick
  occupancies :: "int list"
  sets :: "CacheSet list list"
  numSets :: "32 word"
  blkSize :: "32 word"
  assoc :: "32 word"
  hitLatency :: "32 word"
  blks :: blk_store
  setShift :: nat
  tagShift :: nat
  setMask :: "32 word"
  blkMask :: "32 word"
  missCounter :: "32 word list"

text \<open>The virtual functions: the position of a set, and the ways of a thread.\<close>

record 's vtable =
  slot :: "nat \<Rightarrow> nat \<Rightarrow> nat \<times> nat"
  assoc_of_tc :: "'s \<Rightarrow> nat \<Rightarrow> nat"

subsection \<open>Addresses\<close>

definition extractTag :: "'a LRU_scheme \<Rightarrow> addr \<Rightarrow> addr" where
  "extractTag s a = drop_bit (tagShift s) a"
definition extractSet :: "'a LRU_scheme \<Rightarrow> addr \<Rightarrow> nat" where
  "extractSet s a = unat (drop_bit (setShift s) a AND ucast (setMask s))"
definition extractBlkOffset :: "'a LRU_scheme \<Rightarrow> addr \<Rightarrow> nat" where
  "extractBlkOffset s a = unat (a AND ucast (blkMask s))"
definition blkAlign :: "'a LRU_scheme \<Rightarrow> addr \<Rightarrow> addr" where
  "blkAlign s a = a AND NOT (ucast (blkMask s))"
definition regenerateBlkAddr :: "'a LRU_scheme \<Rightarrow> addr \<Rightarrow> nat \<Rightarrow> addr" where
  "regenerateBlkAddr s t st = push_bit (tagShift s) t OR push_bit (setShift s) (of_nat st)"
definition getBlockSize :: "'a LRU_scheme \<Rightarrow> 32 word" where "getBlockSize s = blkSize s"
definition getSubBlockSize :: "'a LRU_scheme \<Rightarrow> 32 word" where "getSubBlockSize s = blkSize s"
definition getHitLatency :: "'a LRU_scheme \<Rightarrow> 32 word" where "getHitLatency s = hitLatency s"

subsection \<open>Construction\<close>

text \<open>
  One block as the initialisation loops set it up: \<open>idx\<close> is its index in the
  array, \<open>u\<close> the contents of the fresh data storage.
\<close>

definition new_blk :: "(nat \<Rightarrow> byte) \<Rightarrow> 32 word \<Rightarrow> nat \<Rightarrow> nat \<Rightarrow> nat \<Rightarrow> nat \<Rightarrow> CacheBlk" where
  "new_blk u bs idx i j tc = CacheBlk_new
     \<lparr>blk_data := map (\<lambda>k. u (unat bs * idx + k)) [0..<unat bs], status := 0, tag := of_nat j,
      whenReady := 0, isTouched := False, blk_size := bs, blk_set := int i, blk_threadID := tc\<rparr>"

text \<open>
  The loops over the sets: each entry \<open>(a, i, tc)\<close> gets \<open>a\<close> consecutive blocks
  from the running index, labelled with set number \<open>i\<close> and thread \<open>tc\<close>.
\<close>

fun link_sets :: "(nat \<Rightarrow> byte) \<Rightarrow> 32 word \<Rightarrow> nat \<Rightarrow> (nat \<times> nat \<times> nat) list
    \<Rightarrow> CacheSet list \<times> CacheBlk list" where
  "link_sets u bs blkIndex [] = ([], [])"
| "link_sets u bs blkIndex ((a, i, tc) # xs) =
     (let (ss, bl) = link_sets u bs (blkIndex + a) xs in
      (\<lparr>set_assoc = a, ways = [blkIndex..<blkIndex + a]\<rparr> # ss,
       map (\<lambda>j. new_blk u bs (blkIndex + j) i j tc) [0..<a] @ bl))"

text \<open>
  The code allocates \<open>numSets * assoc\<close> blocks and \<open>numBlocks * blkSize\<close> bytes with
  products of 32 bits.  \<open>numBlocks\<close> keeps the product as the code computes it; the
  arrays are built unwrapped, so from \<open>2 ^ 32\<close> blocks or bytes on the model has
  the storage that the loops of the code go through and not the smaller one that it
  allocates.  The stores derived from this one do the same.
\<close>

definition LRU_init_sets :: "(nat \<Rightarrow> byte) \<Rightarrow> 'a LRU_scheme \<Rightarrow> 'a LRU_scheme" where
  "LRU_init_sets u s =
     (let (ss, bl) = link_sets u (blkSize s) 0
            (map (\<lambda>i. (unat (assoc s), i, 0)) [0..<unat (numSets s)])
      in s \<lparr>sets := [ss], blks := bl, numBlocks := unat (numSets s * assoc s)\<rparr>)"

text \<open>
  The constructor, on storage \<open>raw\<close> whose other members (the statistics) are
  already set up; \<open>Inl\<close> is the message of \<open>fatal\<close>.
\<close>

definition LRU_ctor :: "(nat \<Rightarrow> byte) \<Rightarrow> 'a LRU_scheme \<Rightarrow> 32 word \<Rightarrow> 32 word \<Rightarrow> 32 word \<Rightarrow> 32 word
    \<Rightarrow> string + 'a LRU_scheme" where
  "LRU_ctor u raw nsets bsize asc hl =
     (if bsize < 4 \<or> \<not> isPowerOf2 bsize then
        Inl ''Block size must be at least 4 and a power of 2''
      else if nsets \<le> 0 \<or> \<not> isPowerOf2 nsets then
        Inl ''# of sets must be non-zero and a power of 2''
      else if asc \<le> 0 then Inl ''associativity must be greater than zero''
      else if hl \<le> 0 then Inl ''access latency must be greater than zero''
      else Inr (LRU_init_sets u (raw \<lparr>numSets := nsets, blkSize := bsize, assoc := asc,
        hitLatency := hl, blkMask := bsize - 1, setShift := the (floorLog2_u32 bsize),
        setMask := nsets - 1,
        tagShift := the (floorLog2_u32 bsize) + the (floorLog2_u32 nsets),
        warmedUp := False, warmupBound := sint (nsets * asc),
        missCounter := replicate (unat nsets) 0\<rparr>)))"

subsection \<open>Operations\<close>

definition printMisses :: "'a LRU_scheme \<Rightarrow> 'a LRU_scheme" where
  "printMisses s = s \<lparr>missCounter := replicate (unat (numSets s)) 0 @ drop (unat (numSets s)) (missCounter s)\<rparr>"

text \<open>\<open>sets[i][j]\<close>, and the update of its pointer array through the copy that \<open>get_set\<close> returns.\<close>

definition in_range :: "'a LRU_scheme \<Rightarrow> nat \<times> nat \<Rightarrow> bool" where
  "in_range s l = (fst l < length (sets s) \<and> snd l < length (sets s ! fst l))"
definition set_at :: "'a LRU_scheme \<Rightarrow> nat \<times> nat \<Rightarrow> CacheSet" where
  "set_at s l = sets s ! fst l ! snd l"
definition upd_at :: "nat \<times> nat \<Rightarrow> CacheSet \<Rightarrow> 'a LRU_scheme \<Rightarrow> 'a LRU_scheme" where
  "upd_at l c s = s \<lparr>sets := (sets s)[fst l := (sets s ! fst l)[snd l := c]]\<rparr>"

definition get_set :: "('a LRU_scheme) vtable \<Rightarrow> 'a LRU_scheme \<Rightarrow> nat \<Rightarrow> nat \<Rightarrow> CacheSet option" where
  "get_set vt s setnum tid = (if in_range s (slot vt setnum tid)
     then Some (set_at s (slot vt setnum tid)) else None)"

definition lat_of :: "'a LRU_scheme \<Rightarrow> CacheBlk \<Rightarrow> tick \<Rightarrow> 32 word" where
  "lat_of s b now = (if whenReady b > now \<and> whenReady b - now > ucast (hitLatency s)
     then ucast (whenReady b - now) else hitLatency s)"

definition accessBlock :: "('a LRU_scheme) vtable \<Rightarrow> addr \<Rightarrow> nat \<Rightarrow> tick \<Rightarrow> 'a LRU_scheme
    \<Rightarrow> (nat option \<times> 32 word \<times> 'a LRU_scheme) option" where
  "accessBlock vt a tid now s = do {
     let t = extractTag s a;
     let setnum = extractSet s a;
     c \<leftarrow> get_set vt s setnum tid;
     blk \<leftarrow> findBlk (blks s) c t;
     case blk of
       Some p \<Rightarrow> do {
         c' \<leftarrow> moveToHead p c;
         b \<leftarrow> at (blks s) p;
         let s = upd_at (slot vt setnum tid) c' s;
         Some (Some p, lat_of s b now,
           s \<lparr>blks := (blks s)[p := b \<lparr>refCount := refCount b + 1, isTouched := True\<rparr>]\<rparr>) }
     | None \<Rightarrow> do {
         m \<leftarrow> at (missCounter s) setnum;
         Some (None, hitLatency s, s \<lparr>missCounter := (missCounter s)[setnum := m + 1]\<rparr>) } }"

definition findBlock :: "('a LRU_scheme) vtable \<Rightarrow> addr \<Rightarrow> nat \<Rightarrow> 'a LRU_scheme \<Rightarrow> nat option option" where
  "findBlock vt a tid s = do {
     c \<leftarrow> get_set vt s (extractSet s a) tid;
     findBlk (blks s) c (extractTag s a) }"

definition findVictim :: "('a LRU_scheme) vtable \<Rightarrow> addr \<Rightarrow> nat \<Rightarrow> 'a LRU_scheme \<Rightarrow> nat option" where
  "findVictim vt a tid s = do {
     c \<leftarrow> get_set vt s (extractSet s a) tid;
     check (0 < assoc_of_tc vt s tid);
     p \<leftarrow> at (ways c) (assoc_of_tc vt s tid - 1);
     check (p < length (blks s));
     Some p }"

text \<open>The statistics part of \<open>insertBlock\<close> up to the eviction of a valid block.\<close>

definition touch_stats :: "CacheBlk \<Rightarrow> tick \<Rightarrow> 'a LRU_scheme \<Rightarrow> 'a LRU_scheme" where
  "touch_stats b now s =
     (if \<not> isTouched b then
        let s = s \<lparr>tagsInUse := tagsInUse s + 1\<rparr> in
        if \<not> warmedUp s \<and> tagsInUse s \<ge> warmupBound s
        then s \<lparr>warmedUp := True, warmupCycle := now\<rparr> else s
      else s)"

definition evict_stats :: "CacheBlk \<Rightarrow> 'a LRU_scheme \<Rightarrow> 'a LRU_scheme option" where
  "evict_stats b s =
     (if isValid b then do {
        check (srcMasterId b < length (occupancies s));
        Some (s \<lparr>replacements := replacements s + 1, totalRefs := totalRefs s + refCount b,
          sampledRefs := sampledRefs s + 1,
          occupancies := (occupancies s)[srcMasterId b := occupancies s ! srcMasterId b - 1]\<rparr>) }
      else Some s)"

definition insertBlock :: "('a LRU_scheme) vtable \<Rightarrow> addr \<Rightarrow> nat \<Rightarrow> nat \<Rightarrow> nat \<Rightarrow> tick
    \<Rightarrow> 'a LRU_scheme \<Rightarrow> 'a LRU_scheme option" where
  "insertBlock vt a p master tid now s = do {
     b \<leftarrow> at (blks s) p;
     let s = touch_stats b now s;
     s \<leftarrow> evict_stats b s;
     check (master < length (occupancies s));
     let s = s \<lparr>occupancies := (occupancies s)[master := occupancies s ! master + 1],
       blks := (blks s)[p := b \<lparr>isTouched := True,
          refCount := (if isValid b then 0 else refCount b),
          tag := extractTag s a, blk_threadID := tid, srcMasterId := master\<rparr>]\<rparr>;
     let setnum = extractSet s a;
     c \<leftarrow> get_set vt s setnum tid;
     c' \<leftarrow> moveToHead p c;
     Some (upd_at (slot vt setnum tid) c' s) }"

definition invalidateBlk :: "('a LRU_scheme) vtable \<Rightarrow> nat option \<Rightarrow> nat \<Rightarrow> 'a LRU_scheme
    \<Rightarrow> 'a LRU_scheme option" where
  "invalidateBlk vt blk tid s = (case blk of None \<Rightarrow> Some s | Some p \<Rightarrow> do {
     b \<leftarrow> at (blks s) p;
     s \<leftarrow> (if isValid b then do {
            check (srcMasterId b < length (occupancies s));
            check (0 \<le> blk_set b);
            let s = s \<lparr>tagsInUse := tagsInUse s - 1,
              occupancies := (occupancies s)[srcMasterId b := occupancies s ! srcMasterId b - 1]\<rparr>;
            let setnum = nat (blk_set b);
            c \<leftarrow> get_set vt s setnum tid;
            c' \<leftarrow> moveToTail p c;
            Some (upd_at (slot vt setnum tid) c' s) }
          else Some s);
     Some (s \<lparr>blks := (blks s)[p := clearLoadLocks (b
       \<lparr>srcMasterId := (if isValid b then unat invldMasterId else srcMasterId b),
        status := 0, isTouched := False\<rparr>)]\<rparr>) })"

definition clearLocks :: "'a LRU_scheme \<Rightarrow> 'a LRU_scheme option" where
  "clearLocks s = do {
     check (numBlocks s \<le> length (blks s));
     Some (s \<lparr>blks := map clearLoadLocks (take (numBlocks s) (blks s)) @ drop (numBlocks s) (blks s)\<rparr>) }"

definition sample_refs :: "CacheBlk \<Rightarrow> 'a LRU_scheme \<Rightarrow> 'a LRU_scheme" where
  "sample_refs b s = (if isValid b
     then s \<lparr>totalRefs := totalRefs s + refCount b, sampledRefs := sampledRefs s + 1\<rparr> else s)"

definition cleanupRefs :: "'a LRU_scheme \<Rightarrow> 'a LRU_scheme option" where
  "cleanupRefs s = do {
     let n = unat (numSets s * assoc s);
     check (n \<le> length (blks s));
     Some (fold sample_refs (take n (blks s)) s) }"

text \<open>The virtual functions of the unpartitioned store.\<close>

definition LRU_vt :: "('a LRU_scheme) vtable" where
  "LRU_vt = \<lparr>slot = (\<lambda>setnum tid. (0, setnum)), assoc_of_tc = (\<lambda>s tcid. unat (assoc s))\<rparr>"

subsection \<open>Invariant\<close>

text \<open>The geometry: sizes are powers of two and the shifts and masks match them.\<close>

definition geometry_ok :: "'a LRU_scheme \<Rightarrow> bool" where
  "geometry_ok s \<longleftrightarrow> setShift s < 32 \<and> tagShift s - setShift s < 32 \<and> setShift s \<le> tagShift s
     \<and> blkSize s = 2 ^ setShift s \<and> numSets s = 2 ^ (tagShift s - setShift s)
     \<and> setMask s = numSets s - 1 \<and> blkMask s = blkSize s - 1"

text \<open>
  The set at a position: well-formed, its blocks carry its set number, valid
  blocks have a registered requestor, and a tag occurs in at most one valid
  block.
\<close>

definition set_inv :: "'a LRU_scheme \<Rightarrow> nat \<Rightarrow> CacheSet \<Rightarrow> bool" where
  "set_inv s setnum c \<longleftrightarrow> cset_ok (length (blks s)) c
     \<and> (\<forall>p \<in> set (ways c). blk_set (blks s ! p) = int setnum
          \<and> (isValid (blks s ! p) \<longrightarrow> srcMasterId (blks s ! p) < length (occupancies s)))
     \<and> (\<forall>p \<in> set (ways c). \<forall>q \<in> set (ways c). isValid (blks s ! p) \<and> isValid (blks s ! q)
          \<and> tag (blks s ! p) = tag (blks s ! q) \<longrightarrow> p = q)"

definition tags_ok :: "('a LRU_scheme) vtable \<Rightarrow> ('a LRU_scheme \<Rightarrow> nat \<Rightarrow> bool) \<Rightarrow> 'a LRU_scheme \<Rightarrow> bool" where
  "tags_ok vt vld s \<longleftrightarrow> geometry_ok s \<and> length (missCounter s) = unat (numSets s)
     \<and> (\<forall>i < unat (numSets s). \<forall>t. vld s t \<longrightarrow> in_range s (slot vt i t)
          \<and> set_inv s i (set_at s (slot vt i t))
          \<and> assoc_of_tc vt s t = length (ways (set_at s (slot vt i t))))
     \<and> (\<forall>i < unat (numSets s). \<forall>j < unat (numSets s). \<forall>t u. vld s t \<and> vld s u
          \<and> slot vt i t \<noteq> slot vt j u
          \<longrightarrow> set (ways (set_at s (slot vt i t))) \<inter> set (ways (set_at s (slot vt j u))) = {})"

subsection \<open>The abstract recency list\<close>

text \<open>What a thread can observe of a set: the valid tags in recency order.\<close>

definition blk_view :: "CacheBlk \<Rightarrow> addr option" where
  "blk_view b = (if isValid b then Some (tag b) else None)"

definition view :: "('a LRU_scheme) vtable \<Rightarrow> 'a LRU_scheme \<Rightarrow> nat \<Rightarrow> nat \<Rightarrow> addr option list" where
  "view vt s tid setnum = map (\<lambda>p. blk_view (blks s ! p)) (ways (set_at s (slot vt setnum tid)))"

definition v_access :: "addr \<Rightarrow> addr option list \<Rightarrow> addr option list" where
  "v_access t v = (if Some t \<in> set v then to_head (Some t) v else v)"
definition v_fill :: "addr \<Rightarrow> addr option list \<Rightarrow> addr option list" where
  "v_fill t v = Some t # butlast v"
definition v_inval :: "addr \<Rightarrow> addr option list \<Rightarrow> addr option list" where
  "v_inval t v = (if Some t \<in> set v then remove1 (Some t) v @ [None] else v)"

subsection \<open>Address lemmas\<close>

lemma geometry_unat:
  assumes "geometry_ok s"
  shows "unat (numSets s) = 2 ^ (tagShift s - setShift s)" "unat (blkSize s) = 2 ^ setShift s"
    "(ucast (setMask s) :: addr) = mask (tagShift s - setShift s)"
    "(ucast (blkMask s) :: addr) = mask (setShift s)"
proof -
  have m: "(ucast (2 ^ k - 1 :: 32 word) :: addr) = mask k" if "k < 32" for k
  proof -
    have "(2 ^ k - 1 :: 32 word) = mask k" by (simp add: mask_eq_exp_minus_1)
    moreover have "(ucast (mask k :: 32 word) :: addr) = mask k"
      using that by (intro bit_word_eqI) (auto simp: bit_simps)
    ultimately show ?thesis by simp
  qed
  show "unat (numSets s) = 2 ^ (tagShift s - setShift s)" "unat (blkSize s) = 2 ^ setShift s"
    using assms by (simp_all add: geometry_ok_def unat_2p)
  show "(ucast (setMask s) :: addr) = mask (tagShift s - setShift s)"
    "(ucast (blkMask s) :: addr) = mask (setShift s)"
    using assms m by (simp_all add: geometry_ok_def)
qed

lemma extractSet_unat:
  "geometry_ok s \<Longrightarrow> extractSet s a = unat a div 2 ^ setShift s mod unat (numSets s)"
  by (simp add: extractSet_def geometry_unat unat_and_mask unat_drop_bit)

lemma extractSet_less: "geometry_ok s \<Longrightarrow> extractSet s a < unat (numSets s)"
  by (simp add: extractSet_unat geometry_unat)

lemma regenerate_align:
  assumes "geometry_ok s"
  shows "regenerateBlkAddr s (extractTag s a) (extractSet s a) = blkAlign s a"
proof -
  define b n where "b = setShift s" and "n = tagShift s - setShift s"
  have ts: "tagShift s = b + n" using assms by (simp add: geometry_ok_def b_def n_def)
  note g = geometry_unat [OF assms, folded b_def n_def]
  have "(of_nat (extractSet s a) :: addr) = drop_bit b a AND mask n"
    by (simp add: extractSet_def g b_def [symmetric])
  then have "regenerateBlkAddr s (extractTag s a) (extractSet s a)
      = push_bit (b + n) (drop_bit (b + n) a) OR push_bit b (drop_bit b a AND mask n)"
    by (simp only: regenerateBlkAddr_def extractTag_def ts b_def [symmetric])
  also have "\<dots> = a AND NOT (mask b)"
  proof (rule bit_word_eqI)
    fix k assume "k < LENGTH(64)"
    then show "bit (push_bit (b + n) (drop_bit (b + n) a) OR push_bit b (drop_bit b a AND mask n)) k
        = bit (a AND NOT (mask b)) k"
      by (cases "k < b + n") (auto simp: bit_simps)
  qed
  finally show ?thesis by (simp add: blkAlign_def g)
qed

lemma same_block_iff:
  assumes "geometry_ok s"
  shows "extractTag s a = extractTag s a' \<and> extractSet s a = extractSet s a'
         \<longleftrightarrow> blkAlign s a = blkAlign s a'"
proof -
  define b n where "b = setShift s" and "n = tagShift s - setShift s"
  have ts: "tagShift s = b + n" using assms by (simp add: geometry_ok_def b_def n_def)
  note g = geometry_unat [OF assms, folded b_def n_def]
  have "drop_bit (b + n) (x AND NOT (mask b)) = drop_bit (b + n) x" for x :: addr
    by (rule bit_word_eqI) (auto simp: bit_simps dest: bit_imp_le_length)
  then have tg: "extractTag s x = drop_bit (b + n) (blkAlign s x)" for x
    by (simp add: extractTag_def blkAlign_def g ts)
  have "drop_bit b (x AND NOT (mask b)) AND mask n = drop_bit b x AND mask n" for x :: addr
    by (rule bit_word_eqI) (auto simp: bit_simps dest: bit_imp_le_length)
  then have st: "extractSet s x = unat (drop_bit b (blkAlign s x) AND mask n)" for x
    by (simp add: extractSet_def blkAlign_def g b_def [symmetric])
  show ?thesis
    using regenerate_align [OF assms] tg st by metis
qed

end
