(* ===== verification/Tag_Layout.thy ===== *)
theory Tag_Layout
imports Tags_LRU
begin

text \<open>
  The interface between the LRU operations and the subclasses that override
  \<open>get_set\<close> and \<open>assoc_of_tc\<close>.  The locale \<open>tag_layout\<close> fixes the virtual
  functions, the threads the store serves and the partition a thread belongs
  to; its laws say that positions of different partitions or set numbers are
  different and that the functions read only the configuration.  The client
  of the interface is the traffic of a cache on its tag store: accesses,
  fills after a miss, and invalidations.  The lemmas prove that each such step
  succeeds, keeps the invariant, acts on the recency list of its own set as an
  LRU list does, and leaves every other set alone; the noninterference lemma
  composes them over a whole trace.
\<close>

subsection \<open>The client of a tag store\<close>

text \<open>What \<open>Cache\<close> does after \<open>insertBlock\<close>: it sets the status bits itself.\<close>

definition set_status :: "nat \<Rightarrow> 32 word \<Rightarrow> 'a LRU_scheme \<Rightarrow> 'a LRU_scheme" where
  "set_status p st s = s \<lparr>blks := (blks s)[p := (blks s ! p) \<lparr>status := st\<rparr>]\<rparr>"

datatype tag_op =
    Access (op_tid: nat) (op_addr: addr) tick
  | Fill (op_tid: nat) (op_addr: addr) nat tick
  | Inval (op_tid: nat) (op_addr: addr)

datatype tag_obs = Hit | Miss | Evict "addr option" | Quiet

definition fill_blk :: "('a LRU_scheme) vtable \<Rightarrow> addr \<Rightarrow> nat \<Rightarrow> nat \<Rightarrow> tick \<Rightarrow> 'a LRU_scheme
    \<Rightarrow> (tag_obs \<times> 'a LRU_scheme) option" where
  "fill_blk vt a tid master now s = do {
     p \<leftarrow> findVictim vt a tid s;
     b \<leftarrow> at (blks s) p;
     s' \<leftarrow> insertBlock vt a p master tid now s;
     Some (Evict (blk_view b), set_status p (BlkValid OR BlkReadable) s') }"

fun step_op :: "('a LRU_scheme) vtable \<Rightarrow> tag_op \<Rightarrow> 'a LRU_scheme \<Rightarrow> (tag_obs \<times> 'a LRU_scheme) option" where
  "step_op vt (Access tid a now) s = do {
     (r, lat, s') \<leftarrow> accessBlock vt a tid now s;
     Some (if r = None then Miss else Hit, s') }"
| "step_op vt (Fill tid a master now) s = do {
     r \<leftarrow> findBlock vt a tid s;
     case r of Some p \<Rightarrow> Some (Quiet, s) | None \<Rightarrow> fill_blk vt a tid master now s }"
| "step_op vt (Inval tid a) s = do {
     r \<leftarrow> findBlock vt a tid s;
     s' \<leftarrow> invalidateBlk vt r tid s;
     Some (Quiet, s') }"

text \<open>The abstract step on the recency list of the addressed set.\<close>

fun v_step :: "tag_op \<Rightarrow> addr \<Rightarrow> addr option list \<Rightarrow> tag_obs \<times> addr option list" where
  "v_step (Access tid a now) t v = (if Some t \<in> set v then Hit else Miss, v_access t v)"
| "v_step (Fill tid a m now) t v = (if Some t \<in> set v then (Quiet, v) else (Evict (last v), v_fill t v))"
| "v_step (Inval tid a) t v = (Quiet, v_inval t v)"

text \<open>The observations of a trace, with the thread that made each.\<close>

fun run_ops :: "('a LRU_scheme) vtable \<Rightarrow> tag_op list \<Rightarrow> 'a LRU_scheme
    \<Rightarrow> ((nat \<times> tag_obs) list \<times> 'a LRU_scheme) option" where
  "run_ops vt [] s = Some ([], s)"
| "run_ops vt (x # xs) s = do {
     (ob, s') \<leftarrow> step_op vt x s;
     (obs, s'') \<leftarrow> run_ops vt xs s';
     Some ((op_tid x, ob) # obs, s'') }"

text \<open>An operation the store accepts: a served thread, a registered requestor.\<close>

fun op_ok :: "('a LRU_scheme \<Rightarrow> nat \<Rightarrow> bool) \<Rightarrow> 'a LRU_scheme \<Rightarrow> tag_op \<Rightarrow> bool" where
  "op_ok vld s (Fill tid a m now) = (vld s tid \<and> m < length (occupancies s))"
| "op_ok vld s (Access tid a now) = vld s tid"
| "op_ok vld s (Inval tid a) = vld s tid"

text \<open>The parts of the state no operation changes.\<close>

definition frame :: "'a LRU_scheme \<Rightarrow> 'a LRU_scheme \<Rightarrow> bool" where
  "frame s s' \<longleftrightarrow> numSets s' = numSets s \<and> blkSize s' = blkSize s \<and> setShift s' = setShift s
     \<and> tagShift s' = tagShift s \<and> setMask s' = setMask s \<and> blkMask s' = blkMask s
     \<and> assoc s' = assoc s \<and> LRU.more s' = LRU.more s
     \<and> length (occupancies s') = length (occupancies s)
     \<and> length (missCounter s') = length (missCounter s)
     \<and> length (blks s') = length (blks s)"

text \<open>
  A step of thread \<open>t\<close> on set \<open>i\<close> that turns the recency list into \<open>v'\<close>, keeps
  the invariant and changes nothing another set or partition can see.
\<close>

definition refines_step :: "('a LRU_scheme) vtable \<Rightarrow> ('a LRU_scheme \<Rightarrow> nat \<Rightarrow> bool) \<Rightarrow> (nat \<Rightarrow> nat)
    \<Rightarrow> nat \<Rightarrow> nat \<Rightarrow> addr option list \<Rightarrow> 'a LRU_scheme \<Rightarrow> 'a LRU_scheme \<Rightarrow> bool" where
  "refines_step vt vld part t i v' s s' \<longleftrightarrow> frame s s' \<and> tags_ok vt vld s' \<and> view vt s' t i = v'
     \<and> (\<forall>j u. j < unat (numSets s) \<and> vld s u \<and> (part u \<noteq> part t \<or> j \<noteq> i)
          \<longrightarrow> view vt s' u j = view vt s u j)"

text \<open>Equality of everything a partition can observe.\<close>

definition same_view :: "('a LRU_scheme) vtable \<Rightarrow> nat \<Rightarrow> 'a LRU_scheme \<Rightarrow> 'a LRU_scheme \<Rightarrow> bool" where
  "same_view vt t s s' \<longleftrightarrow> (\<forall>j < unat (numSets s). view vt s t j = view vt s' t j)"

lemma frame_refl [simp]: "frame s s"
  by (simp add: frame_def)

lemma frame_trans: "frame s s' \<Longrightarrow> frame s' s'' \<Longrightarrow> frame s s''"
  by (simp add: frame_def)

lemma frame_extract: "frame s s' \<Longrightarrow> extractSet s' a = extractSet s a \<and> extractTag s' a = extractTag s a"
  by (simp add: frame_def extractSet_def extractTag_def)

subsection \<open>Generic facts\<close>

lemma set_at_upd [simp]:
  "in_range s l \<Longrightarrow> set_at (upd_at l c s) l = c"
  "l \<noteq> l' \<Longrightarrow> in_range s l \<Longrightarrow> set_at (upd_at l c s) l' = set_at s l'"
  by (auto simp: set_at_def upd_at_def in_range_def nth_list_update prod_eq_iff)

lemma in_range_upd [simp]: "in_range (upd_at l c s) l' = in_range s l'"
proof (cases "fst l = fst l'")
  case True
  then show ?thesis
    by (cases "fst l' < length (sets s)") (simp_all add: upd_at_def in_range_def)
next
  case False
  then show ?thesis by (simp add: upd_at_def in_range_def)
qed

lemma upd_at_simps [simp]:
  "blks (upd_at l c s) = blks s" "frame (upd_at l c s) s' = frame s s'"
  "frame s' (upd_at l c s) = frame s' s" "sets (upd_at l c s) = (sets s)[fst l := (sets s ! fst l)[snd l := c]]"
  by (simp_all add: upd_at_def frame_def)

lemma set_at_cong: "sets s' = sets s \<Longrightarrow> set_at s' l = set_at s l"
  by (simp add: set_at_def)

lemma in_range_cong: "sets s' = sets s \<Longrightarrow> in_range s' l = in_range s l"
  by (simp add: in_range_def)

lemma map_remove1_at:
  assumes "p \<in> set xs" "\<And>q. q \<in> set xs \<Longrightarrow> f q = y \<longleftrightarrow> q = p"
  shows "map f (remove1 p xs) = remove1 y (map f xs)"
  using assms by (induction xs) auto

lemma map_to_head:
  assumes "p \<in> set xs" "\<And>q. q \<in> set xs \<Longrightarrow> f q = y \<longleftrightarrow> q = p"
  shows "map f (to_head p xs) = to_head y (map f xs)"
proof -
  have "f p = y" using assms by blast
  then show ?thesis using map_remove1_at [of p xs f y, OF assms] by (simp add: to_head_def)
qed

lemma remove1_last: "distinct xs \<Longrightarrow> xs \<noteq> [] \<Longrightarrow> remove1 (last xs) xs = butlast xs"
  by (induction xs) auto

subsection \<open>Fresh stores\<close>

definition offset :: "(nat \<times> nat \<times> nat) list \<Rightarrow> nat \<Rightarrow> nat" where
  "offset xs n = sum_list (map fst (take n xs))"

lemma offset_simps [simp]: "offset xs 0 = 0" "offset (x # xs) (Suc n) = fst x + offset xs n"
  by (simp_all add: offset_def)

lemma link_sets_Cons [simp]:
  "fst (link_sets u bs k (x # xs)) =
     \<lparr>set_assoc = fst x, ways = [k..<k + fst x]\<rparr> # fst (link_sets u bs (k + fst x) xs)"
  "snd (link_sets u bs k (x # xs)) =
     map (\<lambda>j. new_blk u bs (k + j) (fst (snd x)) j (snd (snd x))) [0..<fst x]
       @ snd (link_sets u bs (k + fst x) xs)"
  by (cases x; simp add: split_beta Let_def)+

declare link_sets.simps(2) [simp del]

lemma link_sets_length:
  "length (fst (link_sets u bs k xs)) = length xs"
  "length (snd (link_sets u bs k xs)) = sum_list (map fst xs)"
  by (induction xs arbitrary: k) auto

lemma link_sets_set:
  assumes "n < length xs" "xs ! n = (a, i, tc)"
  shows "fst (link_sets u bs k xs) ! n
    = \<lparr>set_assoc = a, ways = [k + offset xs n..<k + offset xs n + a]\<rparr>"
  using assms
proof (induction xs arbitrary: k n)
  case (Cons x xs)
  then show ?case by (cases n) (auto simp: add.assoc)
qed simp

lemma link_sets_blk:
  assumes "n < length xs" "xs ! n = (a, i, tc)" "j < a"
  shows "snd (link_sets u bs k xs) ! (offset xs n + j) = new_blk u bs (k + offset xs n + j) i j tc"
  using assms
proof (induction xs arbitrary: k n)
  case (Cons x xs)
  obtain a' i' tc' where x: "x = (a', i', tc')" by (cases x)
  show ?case
  proof (cases n)
    case 0
    then show ?thesis using Cons.prems by (auto simp: x nth_append)
  next
    case (Suc m)
    then show ?thesis
      using Cons.IH [of m "k + a'"] Cons.prems by (auto simp: x nth_append add.assoc)
  qed
qed simp

lemma offset_bound:
  "n < length xs \<Longrightarrow> xs ! n = (a, r) \<Longrightarrow> offset xs n + a \<le> sum_list (map fst xs)"
proof (induction xs arbitrary: n)
  case (Cons x xs)
  then show ?case by (cases n) auto
qed simp

lemma offset_mono:
  "m < n \<Longrightarrow> n < length xs \<Longrightarrow> xs ! m = (a, r) \<Longrightarrow> offset xs m + a \<le> offset xs n"
proof (induction xs arbitrary: m n)
  case (Cons x xs)
  then obtain n' where n: "n = Suc n'" by (cases n) auto
  show ?case
  proof (cases m)
    case 0
    then show ?thesis using Cons.prems by (simp add: n offset_def)
  next
    case (Suc m')
    then show ?thesis using Cons by (simp add: n)
  qed
qed simp

lemma new_blk_simps [simp]:
  "blk_set (new_blk u bs k i j tc) = int i" "\<not> isValid (new_blk u bs k i j tc)"
  "blk_threadID (new_blk u bs k i j tc) = tc"
  by (simp_all add: new_blk_def isValid_def)

lemma link_sets_inv:
  assumes l: "link_sets u bs 0 xs = (ss, blks s)" and n: "n < length xs" "xs ! n = (a, i, tc)" "0 < a"
  shows "set_inv s i (ss ! n)"
proof -
  have ss: "ss ! n = \<lparr>set_assoc = a, ways = [offset xs n..<offset xs n + a]\<rparr>"
    using link_sets_set [OF n(1,2), of u bs 0] l by simp
  have len: "length (blks s) = sum_list (map fst xs)"
    using link_sets_length(2) [of u bs 0 xs] l by simp
  have bl: "blk_set (blks s ! p) = int i \<and> \<not> isValid (blks s ! p)" if "p \<in> set (ways (ss ! n))" for p
    using link_sets_blk [OF n(1,2), of "p - offset xs n" u bs 0] l that by (auto simp: ss)
  have "cset_ok (length (blks s)) (ss ! n)"
    using offset_bound [OF n(1,2)] n(3) by (auto simp: ss cset_ok_def len)
  then show ?thesis using bl by (auto simp: set_inv_def)
qed

lemma link_sets_disjoint:
  assumes l: "link_sets u bs k xs = (ss, bl)" and "n < length xs" "m < length xs" "n \<noteq> m"
  shows "set (ways (ss ! n)) \<inter> set (ways (ss ! m)) = {}"
proof -
  obtain a i tc b j tc' where x: "xs ! n = (a, i, tc)" "xs ! m = (b, j, tc')"
    by (metis prod_cases3)
  have "ss ! n = \<lparr>set_assoc = a, ways = [k + offset xs n..<k + offset xs n + a]\<rparr>"
    "ss ! m = \<lparr>set_assoc = b, ways = [k + offset xs m..<k + offset xs m + b]\<rparr>"
    using link_sets_set [OF assms(2) x(1), of u bs k] link_sets_set [OF assms(3) x(2), of u bs k] l by simp_all
  moreover have "offset xs n + a \<le> offset xs m \<or> offset xs m + b \<le> offset xs n"
    using offset_mono assms(2-4) x by (metis linorder_neqE_nat)
  ultimately show ?thesis by auto
qed

lemma init_tags_ok:
  assumes "geometry_ok s" "length (missCounter s) = unat (numSets s)"
    and l: "link_sets u bs 0 xs = (ss, blks s)"
    and at: "\<And>i t. i < unat (numSets s) \<Longrightarrow> vld s t \<Longrightarrow> in_range s (slot vt i t) \<and> idx i t < length xs
       \<and> set_at s (slot vt i t) = ss ! idx i t
       \<and> (\<exists>tc. xs ! idx i t = (assoc_of_tc vt s t, i, tc)) \<and> 0 < assoc_of_tc vt s t"
    and inj: "\<And>i t j u. i < unat (numSets s) \<Longrightarrow> j < unat (numSets s) \<Longrightarrow> vld s t \<Longrightarrow> vld s u
       \<Longrightarrow> slot vt i t \<noteq> slot vt j u \<Longrightarrow> idx i t \<noteq> idx j u"
  shows "tags_ok vt vld s"
proof -
  have one: "in_range s (slot vt i t) \<and> set_inv s i (set_at s (slot vt i t))
      \<and> assoc_of_tc vt s t = length (ways (set_at s (slot vt i t)))"
    if "i < unat (numSets s)" "vld s t" for i t
  proof -
    from at [OF that] obtain tc where
      x: "xs ! idx i t = (assoc_of_tc vt s t, i, tc)" "idx i t < length xs" "0 < assoc_of_tc vt s t"
        "set_at s (slot vt i t) = ss ! idx i t" "in_range s (slot vt i t)" by blast
    have "ss ! idx i t = \<lparr>set_assoc = assoc_of_tc vt s t,
        ways = [offset xs (idx i t)..<offset xs (idx i t) + assoc_of_tc vt s t]\<rparr>"
      using link_sets_set [OF x(2,1), of u bs 0] l by simp
    then show ?thesis using x link_sets_inv [OF l x(2,1,3)] by simp
  qed
  have "set (ways (set_at s (slot vt i t))) \<inter> set (ways (set_at s (slot vt j u'))) = {}"
    if "i < unat (numSets s)" "j < unat (numSets s)" "vld s t" "vld s u'" "slot vt i t \<noteq> slot vt j u'" for i j t u'
    using link_sets_disjoint [OF l, of "idx i t" "idx j u'"] at inj that by metis
  with one assms(1,2) show ?thesis unfolding tags_ok_def by blast
qed

lemma init_view:
  assumes l: "link_sets u bs 0 xs = (ss, blks s)" and n: "n < length xs" "xs ! n = (a, i, tc)"
    and at: "set_at s (slot vt i t) = ss ! n"
  shows "view vt s t i = replicate a None"
proof -
  have ss: "ss ! n = \<lparr>set_assoc = a, ways = [offset xs n..<offset xs n + a]\<rparr>"
    using link_sets_set [OF n(1,2), of u bs 0] l by simp
  have "blk_view (blks s ! p) = None" if "p \<in> set (ways (ss ! n))" for p
    using link_sets_blk [OF n(1,2), of "p - offset xs n" u bs 0] l that by (auto simp: ss blk_view_def)
  then show ?thesis
    by (intro replicate_eqI) (auto simp: view_def at ss)
qed

text \<open>Cutting a flat list into the rows of a two-dimensional array.\<close>

fun chunk :: "nat \<Rightarrow> nat \<Rightarrow> 'a list \<Rightarrow> 'a list list" where
  "chunk w 0 xs = []"
| "chunk w (Suc r) xs = take w xs # chunk w r (drop w xs)"

lemma chunk_length [simp]: "length (chunk w r xs) = r"
  by (induction r arbitrary: xs) auto

lemma chunk_nth:
  assumes "length xs = r * w" "a < r" "b < w"
  shows "length (chunk w r xs ! a) = w" "chunk w r xs ! a ! b = xs ! (a * w + b)"
proof -
  have "length (chunk w r xs ! a) = w \<and> chunk w r xs ! a ! b = xs ! (a * w + b)"
    using assms
  proof (induction r arbitrary: xs a)
    case (Suc r)
    show ?case
    proof (cases a)
      case 0
      then show ?thesis using Suc.prems by simp
    next
      case (Suc a')
      then show ?thesis using Suc.IH [of "drop w xs" a'] Suc.prems by (simp add: add.assoc)
    qed
  qed simp
  then show "length (chunk w r xs ! a) = w" "chunk w r xs ! a ! b = xs ! (a * w + b)" by simp_all
qed

subsection \<open>The interface\<close>

locale tag_layout =
  fixes vt :: "('a LRU_scheme) vtable"
    and vld :: "'a LRU_scheme \<Rightarrow> nat \<Rightarrow> bool"
    and part :: "nat \<Rightarrow> nat"
  assumes slot_eq: "slot vt i t = slot vt j u \<longleftrightarrow> part t = part u \<and> i = j"
    and assoc_cong: "assoc s' = assoc s \<Longrightarrow> LRU.more s' = LRU.more s
           \<Longrightarrow> assoc_of_tc vt s' t = assoc_of_tc vt s t"
    and vld_cong: "LRU.more s' = LRU.more s \<Longrightarrow> vld s' t = vld s t"
begin

lemma frame_cong:
  assumes "frame s s'"
  shows "assoc_of_tc vt s' t = assoc_of_tc vt s t" "vld s' t = vld s t" "geometry_ok s' = geometry_ok s"
  using assms assoc_cong [of s' s] vld_cong [of s' s] by (auto simp: frame_def geometry_ok_def)

text \<open>A change confined to one set keeps the invariant and every other view.\<close>

lemma local_update:
  assumes ok: "tags_ok vt vld s" and i: "i < unat (numSets s)" and t: "vld s t"
    and fr: "frame s s'" and st: "sets s' = sets (upd_at (slot vt i t) c' s)"
    and bl: "\<And>q. q \<notin> set (ways (set_at s (slot vt i t))) \<Longrightarrow> blks s' ! q = blks s ! q"
    and wy: "set (ways c') = set (ways (set_at s (slot vt i t)))"
      "length (ways c') = length (ways (set_at s (slot vt i t)))"
    and inv: "set_inv s' i c'"
  shows "tags_ok vt vld s'" "set_at s' (slot vt i t) = c'"
    "\<And>j u. j < unat (numSets s) \<Longrightarrow> vld s u \<Longrightarrow> slot vt j u \<noteq> slot vt i t \<Longrightarrow> view vt s' u j = view vt s u j"
proof -
  let ?l = "slot vt i t"
  have rng: "in_range s ?l" using ok i t by (simp add: tags_ok_def)
  show at1: "set_at s' ?l = c'"
    using rng set_at_cong [OF st] by simp
  have at2: "set_at s' l = set_at s l" if "l \<noteq> ?l" for l
    using rng set_at_cong [OF st] that by simp
  have ir: "in_range s' l = in_range s l" for l
    using in_range_cong [OF st] by simp
  have dj: "set (ways (set_at s ?l)) \<inter> set (ways (set_at s (slot vt j u))) = {}"
    if "j < unat (numSets s)" "vld s u" "slot vt j u \<noteq> ?l" for j u
    using ok i t that unfolding tags_ok_def by metis
  have same: "blks s' ! p = blks s ! p"
    if "j < unat (numSets s)" "vld s u" "slot vt j u \<noteq> ?l" "p \<in> set (ways (set_at s (slot vt j u)))" for j u p
    using bl dj [OF that(1-3)] that(4) by blast
  show vw: "view vt s' u j = view vt s u j"
    if "j < unat (numSets s)" "vld s u" "slot vt j u \<noteq> ?l" for j u
    using that same [OF that] at2 [OF that(3)] by (simp add: view_def)
  have other: "set_inv s' j (set_at s' (slot vt j u))"
    if "j < unat (numSets s)" "vld s u" "slot vt j u \<noteq> ?l" for j u
  proof -
    have "set_inv s j (set_at s (slot vt j u))" using ok that by (simp add: tags_ok_def)
    then show ?thesis
      using same [OF that] fr unfolding at2 [OF that(3)] set_inv_def frame_def by simp
  qed
  have own: "set (ways (set_at s' (slot vt j u))) = set (ways (set_at s (slot vt j u)))
      \<and> length (ways (set_at s' (slot vt j u))) = length (ways (set_at s (slot vt j u)))" for j u
    using at1 at2 wy by metis
  have sinv: "set_inv s' j (set_at s' (slot vt j u))" if "j < unat (numSets s)" "vld s u" for j u
  proof (cases "slot vt j u = ?l")
    case True
    then have "j = i" using slot_eq by blast
    then show ?thesis using True inv at1 by simp
  qed (rule other [OF that])
  have "length (missCounter s') = unat (numSets s') \<and> numSets s' = numSets s"
    using ok fr by (simp add: tags_ok_def frame_def)
  moreover have "geometry_ok s'" using ok frame_cong(3) [OF fr] by (simp add: tags_ok_def)
  ultimately show "tags_ok vt vld s'"
    using ok sinv own frame_cong(1,2) [OF fr] unfolding tags_ok_def ir by auto
qed

lemma own_set:
  fixes a :: addr
  assumes "tags_ok vt vld s" and "vld s t"
  defines "i \<equiv> extractSet s a"
  shows "i < unat (numSets s)" "in_range s (slot vt i t)"
    "get_set vt s i t = Some (set_at s (slot vt i t))"
    "set_inv s i (set_at s (slot vt i t))"
    "assoc_of_tc vt s t = length (ways (set_at s (slot vt i t)))"
proof -
  show i: "i < unat (numSets s)"
    using assms extractSet_less by (auto simp: tags_ok_def i_def)
  show r: "in_range s (slot vt i t)" "set_inv s i (set_at s (slot vt i t))"
    "assoc_of_tc vt s t = length (ways (set_at s (slot vt i t)))"
    using assms(1,2) i by (auto simp: tags_ok_def)
  show "get_set vt s i t = Some (set_at s (slot vt i t))"
    using r(1) by (simp add: get_set_def)
qed

lemma refines_refl:
  "tags_ok vt vld s \<Longrightarrow> view vt s t i = v \<Longrightarrow> refines_step vt vld part t i v s s"
  by (simp add: refines_step_def)

lemma refines_same:
  assumes "tags_ok vt vld s" "frame s s'" "sets s' = sets s" "blks s' = blks s" "view vt s t i = v"
  shows "refines_step vt vld part t i v s s'"
proof -
  have v: "view vt s' u j = view vt s u j" for u j
    using assms(3,4) by (simp add: view_def set_at_def)
  have "tags_ok vt vld s'"
    using assms(1,2) frame_cong [OF assms(2)] in_range_cong [OF assms(3)] set_at_cong [OF assms(3)]
    by (simp add: tags_ok_def set_inv_def assms(4) frame_def)
  then show ?thesis using assms(2,5) v by (simp add: refines_step_def)
qed

lemma refines_local:
  assumes "tags_ok vt vld s" "i < unat (numSets s)" "vld s t"
    and p: "p \<in> set (ways (set_at s (slot vt i t)))"
    and "frame s s'" "sets s' = sets (upd_at (slot vt i t) c' s)" and bl: "blks s' = (blks s)[p := b']"
    and "set (ways c') = set (ways (set_at s (slot vt i t)))"
      "length (ways c') = length (ways (set_at s (slot vt i t)))"
    and "set_inv s' i c'" and "map (\<lambda>p. blk_view (blks s' ! p)) (ways c') = v'"
  shows "refines_step vt vld part t i v' s s'"
proof -
  have "blks s' ! q = blks s ! q" if "q \<notin> set (ways (set_at s (slot vt i t)))" for q
    using p that bl by (metis nth_list_update_neq)
  from local_update [OF assms(1-3,5,6) this assms(8-10)] assms(5,11) slot_eq show ?thesis
    by (auto simp: refines_step_def view_def)
qed

end

text \<open>Search in a set that satisfies the invariant, in terms of its recency list.\<close>

lemma findBlk_view:
  assumes "set_inv s i c"
  shows "findBlk (blks s) c t = Some (List.find (\<lambda>p. blk_view (blks s ! p) = Some t) (ways c))"
proof -
  have "cset_ok (length (blks s)) c" using assms by (simp add: set_inv_def)
  then have "findBlk (blks s) c t = Some (List.find (\<lambda>p. blk_match t (blks s ! p)) (ways c))"
    by (rule findBlk_eq)
  also have "(\<lambda>p. blk_match t (blks s ! p)) = (\<lambda>p. blk_view (blks s ! p) = Some t)"
    by (auto simp: blk_match_def blk_view_def fun_eq_iff)
  finally show ?thesis .
qed

lemma find_view_cases:
  assumes "set_inv s i c"
  obtains (hit) p where "List.find (\<lambda>p. blk_view (blks s ! p) = Some t) (ways c) = Some p"
      "p \<in> set (ways c)" "p < length (blks s)" "blk_view (blks s ! p) = Some t"
      "\<And>q. q \<in> set (ways c) \<Longrightarrow> blk_view (blks s ! q) = Some t \<longleftrightarrow> q = p"
      "Some t \<in> set (map (\<lambda>p. blk_view (blks s ! p)) (ways c))"
  | (miss) "List.find (\<lambda>p. blk_view (blks s ! p) = Some t) (ways c) = None"
      "Some t \<notin> set (map (\<lambda>p. blk_view (blks s ! p)) (ways c))"
proof (cases "List.find (\<lambda>p. blk_view (blks s ! p) = Some t) (ways c)")
  case None
  then have "Some t \<notin> set (map (\<lambda>p. blk_view (blks s ! p)) (ways c))"
    by (force simp: find_None_iff_all)
  with None show thesis by (rule miss)
next
  case (Some p)
  note p = find_SomeD [OF Some]
  have "blk_view (blks s ! q) = Some t \<longleftrightarrow> q = p" if "q \<in> set (ways c)" for q
    using that p assms by (auto simp: set_inv_def blk_view_def split: if_splits)
  moreover have "p < length (blks s)" using p assms by (auto simp: set_inv_def cset_ok_def)
  moreover have "Some t \<in> set (map (\<lambda>p. blk_view (blks s ! p)) (ways c))"
    using p by (metis (mono_tags, lifting) image_eqI set_map)
  ultimately show thesis using hit [OF Some] p by blast
qed

lemma set_inv_less: "set_inv s i c \<Longrightarrow> p \<in> set (ways c) \<Longrightarrow> p < length (blks s)"
  by (auto simp: set_inv_def cset_ok_def)

lemma set_inv_cset: "set_inv s i c \<Longrightarrow> cset_ok (length (blks s)) c"
  by (simp add: set_inv_def)

lemma cset_ok_distinct: "cset_ok n c \<Longrightarrow> distinct (ways c) \<and> ways c \<noteq> []"
  by (simp add: cset_ok_def)

lemma set_inv_transfer:
  assumes "set_inv s i c" and "cset_ok (length (blks s')) c'" and "set (ways c') = set (ways c)"
    and "\<And>q. q \<in> set (ways c) \<Longrightarrow> blk_set (blks s' ! q) = blk_set (blks s ! q)"
    and "\<And>q. q \<in> set (ways c) \<Longrightarrow> isValid (blks s' ! q) \<Longrightarrow> isValid (blks s ! q)
           \<and> tag (blks s' ! q) = tag (blks s ! q) \<and> srcMasterId (blks s' ! q) < length (occupancies s')"
  shows "set_inv s' i c'"
  using assms unfolding set_inv_def by metis

context tag_layout
begin

text \<open>A hit: the block moves to the front and only its bookkeeping fields change.\<close>

lemma hit_refines:
  assumes ok: "tags_ok vt vld s" and t: "vld s t" and i: "i < unat (numSets s)"
    and p: "p \<in> set (ways (set_at s (slot vt i t)))" "blk_view (blks s ! p) = Some tg"
    and b': "isValid b' = isValid (blks s ! p)" "tag b' = tag (blks s ! p)"
      "blk_set b' = blk_set (blks s ! p)" "srcMasterId b' = srcMasterId (blks s ! p)"
  shows "refines_step vt vld part t i (v_access tg (view vt s t i)) s
     (upd_at (slot vt i t) (set_at s (slot vt i t)
        \<lparr>ways := to_head p (ways (set_at s (slot vt i t)))\<rparr>) s \<lparr>blks := (blks s)[p := b']\<rparr>)"
    (is "refines_step _ _ _ _ _ _ _ ?s'")
proof -
  let ?c = "set_at s (slot vt i t)"
  let ?c' = "?c \<lparr>ways := to_head p (ways ?c)\<rparr>"
  have sinv: "set_inv s i ?c" using ok i t by (simp add: tags_ok_def)
  note dist = cset_ok_distinct [OF set_inv_cset [OF sinv]]
  have pl: "p < length (blks s)" using set_inv_less [OF sinv p(1)] .
  have uniq: "blk_view (blks s ! q) = Some tg \<longleftrightarrow> q = p" if "q \<in> set (ways ?c)" for q
    using sinv p that by (auto simp: set_inv_def blk_view_def split: if_splits)
  have same: "blk_view (blks ?s' ! q) = blk_view (blks s ! q)" for q
    using pl b' by (auto simp: nth_list_update blk_view_def)
  have vw: "map (\<lambda>q. blk_view (blks ?s' ! q)) (ways ?c') = v_access tg (view vt s t i)"
    unfolding same view_def v_access_def
    using p map_to_head [of p "ways ?c" "\<lambda>q. blk_view (blks s ! q)" "Some tg", OF p(1) uniq]
    by (simp add: image_iff) metis
  have inv: "set_inv ?s' i ?c'"
  proof (rule set_inv_transfer [OF sinv])
    show "cset_ok (length (blks ?s')) ?c'"
      using cset_ok_to_head [OF set_inv_cset [OF sinv] p(1)] by simp
  qed (use sinv p pl b' dist in
        \<open>auto simp: upd_at_def nth_list_update set_inv_def split: if_splits\<close>)
  show ?thesis
    by (rule refines_local [OF ok i t p(1), where c' = ?c' and b' = b'])
      (use p vw inv dist in \<open>simp_all add: frame_def upd_at_def\<close>)
qed

lemma access_refines:
  fixes a :: addr
  assumes ok: "tags_ok vt vld s" and t: "vld s t"
  defines "i \<equiv> extractSet s a" and "tg \<equiv> extractTag s a"
  shows "\<exists>r lat s'. accessBlock vt a t now s = Some (r, lat, s')
     \<and> (r = None \<longleftrightarrow> Some tg \<notin> set (view vt s t i))
     \<and> refines_step vt vld part t i (v_access tg (view vt s t i)) s s'"
proof -
  let ?c = "set_at s (slot vt i t)"
  note own = own_set [OF ok t, of a, folded i_def]
  have mc: "i < length (missCounter s)" using ok own(1) by (simp add: tags_ok_def)
  show ?thesis
  proof (rule find_view_cases [OF own(4), of tg], goal_cases hit miss)
    case (hit p)
    let ?b = "(blks s ! p) \<lparr>refCount := refCount (blks s ! p) + 1, isTouched := True\<rparr>"
    have mv: "moveToHead p ?c = Some (?c \<lparr>ways := to_head p (ways ?c)\<rparr>)"
      using moveToHead_eq [OF set_inv_cset [OF own(4)]] hit(2) by simp
    have "\<exists>lat. accessBlock vt a t now s = Some (Some p, lat,
        upd_at (slot vt i t) (?c \<lparr>ways := to_head p (ways ?c)\<rparr>) s \<lparr>blks := (blks s)[p := ?b]\<rparr>)"
      using own(3) hit(1,3) mv findBlk_view [OF own(4), of tg]
      by (simp add: accessBlock_def i_def [symmetric] tg_def [symmetric] Let_def)
    then show ?thesis
      using hit(6) hit_refines [OF ok t own(1) hit(2,4), of ?b] by (auto simp: view_def)
  next
    case miss
    let ?s' = "s \<lparr>missCounter := (missCounter s)[i := missCounter s ! i + 1]\<rparr>"
    have "accessBlock vt a t now s = Some (None, hitLatency s, ?s')"
      using own(3) miss(1) mc findBlk_view [OF own(4), of tg]
      by (simp add: accessBlock_def i_def [symmetric] tg_def [symmetric])
    moreover have "refines_step vt vld part t i (v_access tg (view vt s t i)) s ?s'"
      using miss(2) by (intro refines_same [OF ok]) (simp_all add: frame_def v_access_def view_def)
    ultimately show ?thesis using miss(2) by (auto simp: view_def)
  qed
qed

end

text \<open>The statistics updates touch neither the sets nor the blocks.\<close>

lemma touch_stats_frame:
  "frame s (touch_stats b now s) \<and> sets (touch_stats b now s) = sets s \<and> blks (touch_stats b now s) = blks s"
  by (simp add: touch_stats_def frame_def Let_def)

lemma evict_stats_frame:
  assumes "isValid b \<longrightarrow> srcMasterId b < length (occupancies s)"
  shows "\<exists>s'. evict_stats b s = Some s' \<and> frame s s' \<and> sets s' = sets s \<and> blks s' = blks s"
  using assms by (simp add: evict_stats_def frame_def)

lemma status_valid [simp]: "isValid (b \<lparr>status := BlkValid OR BlkReadable\<rparr>)"
  by (simp add: isValid_def blk_bits)

lemma set_inv_insert:
  assumes inv: "set_inv s i c" and p: "p \<in> set (ways c)"
    and c': "cset_ok (length (blks s')) c'" "set (ways c') = set (ways c)"
    and bl: "blks s' = (blks s)[p := b]" and occ: "length (occupancies s') = length (occupancies s)"
    and b: "blk_set b = int i" "srcMasterId b < length (occupancies s)"
    and fresh: "\<forall>q \<in> set (ways c). isValid (blks s ! q) \<longrightarrow> tag (blks s ! q) \<noteq> tag b"
  shows "set_inv s' i c'"
proof -
  have at: "blks s' ! q = (if q = p then b else blks s ! q)" for q
    using bl set_inv_less [OF inv p] by (simp add: nth_list_update)
  have old: "blk_set (blks s ! q) = int i"
    "isValid (blks s ! q) \<Longrightarrow> srcMasterId (blks s ! q) < length (occupancies s)" if "q \<in> set (ways c)" for q
    using inv that by (auto simp: set_inv_def)
  have uniq: "q = r" if "q \<in> set (ways c)" "r \<in> set (ways c)" "isValid (blks s' ! q)" "isValid (blks s' ! r)"
      "tag (blks s' ! q) = tag (blks s' ! r)" for q r
    using that fresh inv by (cases "q = p"; cases "r = p") (auto simp: at set_inv_def)
  show ?thesis
    unfolding set_inv_def c'(2) occ using c'(1) old b uniq by (auto simp: at)
qed

context tag_layout
begin

lemma insert_status:
  assumes ok: "tags_ok vt vld s" and t: "vld s t" and m: "master < length (occupancies s)"
    and p: "p \<in> set (ways (set_at s (slot vt (extractSet s a) t)))"
  shows "\<exists>s'. insertBlock vt a p master t now s = Some s'
     \<and> frame s s' \<and> sets s' = sets (upd_at (slot vt (extractSet s a) t)
           (set_at s (slot vt (extractSet s a) t)
             \<lparr>ways := to_head p (ways (set_at s (slot vt (extractSet s a) t)))\<rparr>) s)
     \<and> blks s' = (blks s)[p := (blks s ! p) \<lparr>isTouched := True,
          refCount := (if isValid (blks s ! p) then 0 else refCount (blks s ! p)),
          tag := extractTag s a, blk_threadID := t, srcMasterId := master\<rparr>]"
proof -
  let ?c = "set_at s (slot vt (extractSet s a) t)"
  note own = own_set [OF ok t, of a]
  have pl: "p < length (blks s)" and src: "isValid (blks s ! p) \<longrightarrow> srcMasterId (blks s ! p) < length (occupancies s)"
    using own(4) p by (auto simp: set_inv_def cset_ok_def)
  let ?s1 = "touch_stats (blks s ! p) now s"
  note f1 = touch_stats_frame [of s "blks s ! p" now]
  have "isValid (blks s ! p) \<longrightarrow> srcMasterId (blks s ! p) < length (occupancies ?s1)"
    using src f1 by (simp add: frame_def)
  from evict_stats_frame [OF this] obtain s2 where
    s2: "evict_stats (blks s ! p) ?s1 = Some s2" "frame ?s1 s2" "sets s2 = sets ?s1" "blks s2 = blks ?s1" by blast
  have f2: "frame s s2" using f1 s2(2) frame_trans by blast
  then have ex: "extractSet s2 a = extractSet s a" "extractTag s2 a = extractTag s a"
    using frame_extract by blast+
  let ?s3 = "s2 \<lparr>occupancies := (occupancies s2)[master := occupancies s2 ! master + 1],
       blks := (blks s)[p := (blks s ! p) \<lparr>isTouched := True,
          refCount := (if isValid (blks s ! p) then 0 else refCount (blks s ! p)),
          tag := extractTag s a, blk_threadID := t, srcMasterId := master\<rparr>]\<rparr>"
  have ex3: "extractSet ?s3 a = extractSet s a" using ex(1) by (simp add: extractSet_def)
  have "get_set vt ?s3 (extractSet s a) t = Some ?c"
    using own(2) f1 s2(3) by (simp add: get_set_def in_range_def set_at_def)
  moreover have "moveToHead p ?c = Some (?c \<lparr>ways := to_head p (ways ?c)\<rparr>)"
    using moveToHead_eq [OF set_inv_cset [OF own(4)]] p by simp
  ultimately have "insertBlock vt a p master t now s
      = Some (upd_at (slot vt (extractSet s a) t) (?c \<lparr>ways := to_head p (ways ?c)\<rparr>) ?s3)"
    using pl s2(1,4) f1 f2 m ex ex3 by (simp add: insertBlock_def Let_def frame_def)
  moreover have "frame s (upd_at (slot vt (extractSet s a) t) (?c \<lparr>ways := to_head p (ways ?c)\<rparr>) ?s3)"
    using f2 by (simp add: frame_def upd_at_def)
  ultimately show ?thesis using f1 s2(3) by simp
qed

lemma refines_trans:
  assumes "refines_step vt vld part t i v s s1" and "refines_step vt vld part t i v' s1 s2"
  shows "refines_step vt vld part t i v' s s2"
proof -
  have f: "frame s s1" "frame s1 s2" using assms by (simp_all add: refines_step_def)
  have "numSets s1 = numSets s" "vld s1 u = vld s u" for u
    using f(1) frame_cong(2) [OF f(1)] by (simp_all add: frame_def)
  then show ?thesis using assms frame_trans [OF f] by (simp add: refines_step_def)
qed

lemma insert_refines:
  fixes a :: addr
  assumes ok: "tags_ok vt vld s" and t: "vld s t" and m: "master < length (occupancies s)"
  defines "i \<equiv> extractSet s a" and "tg \<equiv> extractTag s a"
  defines "p \<equiv> last (ways (set_at s (slot vt i t)))"
  assumes miss: "Some tg \<notin> set (view vt s t i)"
  shows "findVictim vt a t s = Some p" "p \<in> set (ways (set_at s (slot vt i t)))" "p < length (blks s)"
    "last (view vt s t i) = blk_view (blks s ! p)"
    "\<exists>s1 b1. insertBlock vt a p master t now s = Some s1 \<and> blks s1 = (blks s)[p := b1] \<and> tag b1 = tg \<and> srcMasterId b1 = master
       \<and> blk_set b1 = blk_set (blks s ! p) \<and> blk_data b1 = blk_data (blks s ! p)
       \<and> (\<forall>b'. isValid b' \<and> tag b' = tg \<and> srcMasterId b' = master \<and> blk_set b' = blk_set (blks s ! p)
           \<longrightarrow> refines_step vt vld part t i (v_fill tg (view vt s t i)) s (s1 \<lparr>blks := (blks s)[p := b']\<rparr>))
       \<and> sets s1 = sets (upd_at (slot vt i t) (set_at s (slot vt i t) \<lparr>ways := to_head p (ways (set_at s (slot vt i t)))\<rparr>) s)"
proof -
  let ?c = "set_at s (slot vt i t)"
  note own = own_set [OF ok t, of a, folded i_def]
  note dist = cset_ok_distinct [OF set_inv_cset [OF own(4)]]
  show p1: "p \<in> set (ways ?c)" using dist by (simp add: p_def)
  show pl: "p < length (blks s)" using set_inv_less [OF own(4) p1] .
  show "findVictim vt a t s = Some p"
    using own(3,5) dist pl by (simp add: findVictim_def i_def [symmetric] p_def last_conv_nth)
  show "last (view vt s t i) = blk_view (blks s ! p)" using dist by (simp add: view_def p_def last_map)
  define b1 where "b1 = (blks s ! p) \<lparr>isTouched := True,
          refCount := (if isValid (blks s ! p) then 0 else refCount (blks s ! p)),
          tag := tg, blk_threadID := t, srcMasterId := master\<rparr>"
  from insert_status [OF ok t m p1 [unfolded i_def], of now] obtain s1 where
    s1: "insertBlock vt a p master t now s = Some s1" "frame s s1"
      "sets s1 = sets (upd_at (slot vt i t) (?c \<lparr>ways := to_head p (ways ?c)\<rparr>) s)"
      "blks s1 = (blks s)[p := b1]"
    unfolding i_def tg_def b1_def by blast
  let ?c' = "?c \<lparr>ways := to_head p (ways ?c)\<rparr>"
  have notin: "\<forall>q \<in> set (ways ?c). isValid (blks s ! q) \<longrightarrow> tag (blks s ! q) \<noteq> tg"
    using miss by (force simp: view_def blk_view_def)
  have rm: "remove1 p (ways ?c) = butlast (ways ?c)" "p \<notin> set (butlast (ways ?c))"
    using dist remove1_last [of "ways ?c"] unfolding p_def by (auto simp flip: remove1_last)
  have "refines_step vt vld part t i (v_fill tg (view vt s t i)) s (s1 \<lparr>blks := (blks s)[p := b']\<rparr>)"
    if b': "isValid b'" "tag b' = tg" "srcMasterId b' = master" "blk_set b' = blk_set (blks s ! p)" for b'
  proof -
    let ?s' = "s1 \<lparr>blks := (blks s)[p := b']\<rparr>"
    have fr: "frame s ?s'" using s1(2) by (simp add: frame_def)
    have inv: "set_inv ?s' i ?c'"
    proof -
      have "cset_ok (length (blks ?s')) ?c'"
        using cset_ok_to_head [OF set_inv_cset [OF own(4)] p1] by simp
      moreover have "set (ways ?c') = set (ways ?c)" using p1 dist by simp
      ultimately show ?thesis
        by (rule set_inv_insert [OF own(4) p1, where b = b'])
          (use b' m fr notin own(4) p1 in \<open>simp_all add: frame_def set_inv_def\<close>)
    qed
    have vw: "map (\<lambda>q. blk_view (blks ?s' ! q)) (ways ?c') = v_fill tg (view vt s t i)"
      using b' pl rm by (auto simp: to_head_def v_fill_def view_def blk_view_def map_butlast [symmetric] nth_list_update)
    show ?thesis
      by (rule refines_local [OF ok own(1) t p1 fr _ _ _ _ inv vw]) (use s1(3) p1 dist in simp_all)
  qed
  then show "\<exists>s1 b1. insertBlock vt a p master t now s = Some s1 \<and> blks s1 = (blks s)[p := b1] \<and> tag b1 = tg \<and> srcMasterId b1 = master
       \<and> blk_set b1 = blk_set (blks s ! p) \<and> blk_data b1 = blk_data (blks s ! p)
       \<and> (\<forall>b'. isValid b' \<and> tag b' = tg \<and> srcMasterId b' = master \<and> blk_set b' = blk_set (blks s ! p)
           \<longrightarrow> refines_step vt vld part t i (v_fill tg (view vt s t i)) s (s1 \<lparr>blks := (blks s)[p := b']\<rparr>))
       \<and> sets s1 = sets (upd_at (slot vt i t) ?c' s)"
    using s1(1,3,4) by (intro exI [of _ s1] exI [of _ b1]) (auto simp: b1_def)
qed

lemma fill_refines:
  fixes a :: addr
  assumes ok: "tags_ok vt vld s" and t: "vld s t" and m: "master < length (occupancies s)"
  defines "i \<equiv> extractSet s a" and "tg \<equiv> extractTag s a"
  assumes miss: "Some tg \<notin> set (view vt s t i)"
  shows "\<exists>s'. fill_blk vt a t master now s = Some (Evict (last (view vt s t i)), s')
     \<and> refines_step vt vld part t i (v_fill tg (view vt s t i)) s s'"
proof -
  define p where "p = last (ways (set_at s (slot vt i t)))"
  note I = insert_refines [OF ok t m miss [unfolded i_def tg_def], folded i_def tg_def, folded p_def]
  obtain s1 b1 where s1: "insertBlock vt a p master t now s = Some s1" "blks s1 = (blks s)[p := b1]"
    "refines_step vt vld part t i (v_fill tg (view vt s t i)) s
       (s1 \<lparr>blks := (blks s)[p := b1 \<lparr>status := BlkValid OR BlkReadable\<rparr>]\<rparr>)"
    using I(5) [of now] by auto
  then have "refines_step vt vld part t i (v_fill tg (view vt s t i)) s (set_status p (BlkValid OR BlkReadable) s1)"
    using I(3) by (simp add: set_status_def)
  then show ?thesis using I(1,3,4) s1(1) by (simp add: fill_blk_def)
qed

lemma inval_refines:
  fixes a :: addr
  assumes ok: "tags_ok vt vld s" and t: "vld s t"
  defines "i \<equiv> extractSet s a" and "tg \<equiv> extractTag s a"
  shows "\<exists>s'. step_op vt (Inval t a) s = Some (Quiet, s')
     \<and> refines_step vt vld part t i (v_inval tg (view vt s t i)) s s'"
proof -
  let ?c = "set_at s (slot vt i t)"
  note own = own_set [OF ok t, of a, folded i_def]
  note dist = cset_ok_distinct [OF set_inv_cset [OF own(4)]]
  have fb: "findBlock vt a t s = Some (List.find (\<lambda>p. blk_view (blks s ! p) = Some tg) (ways ?c))"
    using own(3) findBlk_view [OF own(4)] by (simp add: findBlock_def i_def [symmetric] tg_def [symmetric])
  show ?thesis
  proof (rule find_view_cases [OF own(4), of tg], goal_cases hit miss)
    case (hit p)
    define b where "b = blks s ! p"
    have b: "isValid b" "blk_set b = int i" "srcMasterId b < length (occupancies s)"
      using hit(2,4) own(4) by (auto simp: set_inv_def b_def blk_view_def split: if_splits)
    let ?b' = "clearLoadLocks (b \<lparr>srcMasterId := unat invldMasterId, status := 0, isTouched := False\<rparr>)"
    let ?c' = "?c \<lparr>ways := to_tail p (ways ?c)\<rparr>"
    let ?s1 = "s \<lparr>tagsInUse := tagsInUse s - 1,
        occupancies := (occupancies s)[srcMasterId b := occupancies s ! srcMasterId b - 1]\<rparr>"
    let ?s' = "upd_at (slot vt i t) ?c' ?s1 \<lparr>blks := (blks s)[p := ?b']\<rparr>"
    have mv: "moveToTail p ?c = Some ?c'"
      using moveToTail_eq [OF set_inv_cset [OF own(4)]] hit(2) by simp
    have nv: "\<not> isValid ?b'" by (simp add: clearLoadLocks_def)
    have inv: "set_inv ?s' i ?c'"
    proof (rule set_inv_transfer [OF own(4)])
      show "cset_ok (length (blks ?s')) ?c'"
        using cset_ok_to_tail [OF set_inv_cset [OF own(4)] hit(2)] by simp
    qed (use own(4) hit(2,3) dist b nv in
          \<open>auto simp: upd_at_def nth_list_update set_inv_def clearLoadLocks_def split: if_splits\<close>)
    have "p \<notin> set (remove1 p (ways ?c))" using dist by simp
    then have same: "blk_view (blks ?s' ! q) = blk_view (blks s ! q)" if "q \<in> set (remove1 p (ways ?c))" for q
      using that by (cases "q = p") auto
    then have rest: "map (\<lambda>q. blk_view (blks ?s' ! q)) (remove1 p (ways ?c))
        = map (\<lambda>q. blk_view (blks s ! q)) (remove1 p (ways ?c))"
      by (intro map_cong refl)
    have vw: "map (\<lambda>q. blk_view (blks ?s' ! q)) (ways ?c') = v_inval tg (view vt s t i)"
      using hit(6) map_remove1_at [of p "ways ?c" "\<lambda>q. blk_view (blks s ! q)" "Some tg", OF hit(2,5)] rest hit(3) nv
      by (simp add: to_tail_def v_inval_def view_def blk_view_def [of ?b'])
    have "refines_step vt vld part t i (v_inval tg (view vt s t i)) s ?s'"
      by (rule refines_local [OF ok own(1) t hit(2), where c' = ?c' and b' = ?b'])
        (use hit(2) vw inv dist in \<open>simp_all add: frame_def upd_at_def\<close>)
    moreover have "get_set vt ?s1 i t = Some ?c"
      using own(2) by (simp add: get_set_def in_range_def set_at_def)
    then have "invalidateBlk vt (Some p) t s = Some ?s'"
      using b mv hit(3) by (simp add: invalidateBlk_def b_def [symmetric] Let_def)
    ultimately show ?thesis using fb hit(1) by simp
  next
    case miss
    have "refines_step vt vld part t i (v_inval tg (view vt s t i)) s s"
      using miss(2) by (intro refines_refl [OF ok]) (simp add: v_inval_def view_def)
    then show ?thesis using fb miss(1) by (simp add: invalidateBlk_def)
  qed
qed

lemma step_refines:
  assumes ok: "tags_ok vt vld s" and x: "op_ok vld s x"
  defines "i \<equiv> extractSet s (op_addr x)" and "v \<equiv> view vt s (op_tid x) (extractSet s (op_addr x))"
    and "tg \<equiv> extractTag s (op_addr x)"
  shows "\<exists>s'. step_op vt x s = Some (fst (v_step x tg v), s')
     \<and> refines_step vt vld part (op_tid x) i (snd (v_step x tg v)) s s'"
proof (cases x)
  case (Access t a now)
  from access_refines [OF ok, of t a now] x show ?thesis
    by (auto simp: Access i_def v_def tg_def split: if_splits)
next
  case (Fill t a m now)
  have t: "vld s t" and m: "m < length (occupancies s)" using x by (simp_all add: Fill)
  note own = own_set [OF ok t, of a]
  have fb: "findBlock vt a t s = Some (List.find (\<lambda>p. blk_view (blks s ! p) = Some tg)
      (ways (set_at s (slot vt (extractSet s a) t))))"
    using own(3) findBlk_view [OF own(4)] by (simp add: findBlock_def tg_def Fill)
  show ?thesis
  proof (rule find_view_cases [OF own(4), of tg], goal_cases hit miss)
    case (hit p)
    then show ?thesis
      using fb refines_refl [OF ok] by (simp add: Fill v_def view_def i_def)
  next
    case miss
    then have "Some tg \<notin> set (view vt s t (extractSet s a))" by (simp add: view_def)
    then show ?thesis
      using fb miss(1) fill_refines [OF ok t m, of a now] by (simp add: Fill v_def i_def tg_def)
  qed
next
  case (Inval t a)
  from inval_refines [OF ok, of t a] x show ?thesis
    by (simp add: Inval i_def v_def tg_def)
qed

lemma step_frame:
  assumes "tags_ok vt vld s" "op_ok vld s x" "step_op vt x s = Some (ob, s')"
  shows "frame s s'" "tags_ok vt vld s'" "op_ok vld s' y = op_ok vld s y"
proof -
  show fr: "frame s s'" and "tags_ok vt vld s'"
    using step_refines [OF assms(1,2)] assms(3) by (auto simp: refines_step_def)
  show "op_ok vld s' y = op_ok vld s y"
    using fr frame_cong(2) [OF fr] by (cases y) (auto simp: frame_def)
qed

lemma view_part: "part u = part t \<Longrightarrow> view vt s u j = view vt s t j"
  using slot_eq [of j u j t] by (simp add: view_def)

lemma step_local:
  assumes "tags_ok vt vld s" "op_ok vld s x" "step_op vt x s = Some (ob, s')"
    and "part (op_tid x) \<noteq> part t" "vld s t"
  shows "same_view vt t s s'"
  using step_refines [OF assms(1,2)] assms(3-5) by (auto simp: same_view_def refines_step_def)

lemma step_consistent:
  assumes "tags_ok vt vld s" "tags_ok vt vld s2" "op_ok vld s x" "op_ok vld s2 x"
    and "frame s s2" "same_view vt t s s2" "part (op_tid x) = part t" "vld s t"
    and "step_op vt x s = Some (ob, s')" "step_op vt x s2 = Some (ob2, s2')"
  shows "ob = ob2 \<and> same_view vt t s' s2'"
proof -
  let ?i = "extractSet s (op_addr x)"
  have ex: "extractSet s2 (op_addr x) = ?i" "extractTag s2 (op_addr x) = extractTag s (op_addr x)"
    using frame_extract [OF assms(5)] by simp_all
  have n: "numSets s2 = numSets s" using assms(5) by (simp add: frame_def)
  have i: "?i < unat (numSets s)"
    using assms(1) extractSet_less by (auto simp: tags_ok_def)
  have v: "view vt s2 (op_tid x) ?i = view vt s (op_tid x) ?i"
    using assms(6) i view_part [OF assms(7)] by (simp add: same_view_def)
  note r1 = step_refines [OF assms(1,3)] and r2 = step_refines [OF assms(2,4)]
  have ob: "ob = ob2" using r1 r2 assms(9,10) by (simp add: ex v)
  have fr: "numSets s' = numSets s" using r1 assms(9) by (auto simp: refines_step_def frame_def)
  have "view vt s' t j = view vt s2' t j" if "j < unat (numSets s)" for j
  proof (cases "j = ?i")
    case True
    then show ?thesis
      using r1 r2 assms(9,10) view_part [OF assms(7), symmetric] by (auto simp: refines_step_def ex v)
  next
    case False
    then have "view vt s' t j = view vt s t j" "view vt s2' t j = view vt s2 t j"
      using r1 r2 assms(8,9,10) that n frame_cong(2) [OF assms(5)]
      by (auto simp: refines_step_def ex)
    then show ?thesis using assms(6) that by (simp add: same_view_def)
  qed
  then show ?thesis using ob fr by (simp add: same_view_def)
qed

lemma run_total:
  assumes "tags_ok vt vld s" "list_all (op_ok vld s) xs"
  shows "\<exists>obs s'. run_ops vt xs s = Some (obs, s') \<and> tags_ok vt vld s' \<and> frame s s'"
  using assms
proof (induction xs arbitrary: s)
  case (Cons x xs)
  then have x: "op_ok vld s x" by simp
  obtain ob s1 where s1: "step_op vt x s = Some (ob, s1)"
    using step_refines [OF Cons.prems(1) x] by blast
  note f = step_frame [OF Cons.prems(1) x s1]
  have "list_all (op_ok vld s1) xs" using Cons.prems(2) f(3) by (simp add: list_all_iff)
  from Cons.IH [OF f(2) this] s1 f(1) frame_trans show ?case by (fastforce)
qed simp

text \<open>
  Noninterference: the observations of the threads of one partition are those
  of the trace from which every other partition's operations are purged.
\<close>

lemma noninterference:
  assumes "tags_ok vt vld s" "tags_ok vt vld s2" "frame s s2" "same_view vt t s s2" "vld s t"
    and "list_all (op_ok vld s) xs"
    and "run_ops vt xs s = Some (obs, s')"
    and "run_ops vt (filter (\<lambda>x. part (op_tid x) = part t) xs) s2 = Some (obs2, s2')"
  shows "filter (\<lambda>o'. part (fst o') = part t) obs = obs2"
  using assms
proof (induction xs arbitrary: s s2 obs obs2)
  case (Cons x xs)
  have x: "op_ok vld s x" using Cons.prems(6) by simp
  from Cons.prems(7) obtain ob s1 obs1 where
    s1: "step_op vt x s = Some (ob, s1)" "run_ops vt xs s1 = Some (obs1, s')" "obs = (op_tid x, ob) # obs1"
    by (auto simp: bind_eq_Some)
  note f = step_frame [OF Cons.prems(1) x s1(1)]
  have rest: "list_all (op_ok vld s1) xs" "vld s1 t"
    using Cons.prems(5,6) f(3) frame_cong(2) [OF f(1)] by (simp_all add: list_all_iff)
  show ?case
  proof (cases "part (op_tid x) = part t")
    case True
    with Cons.prems(8) obtain ob2 s3 obs3 where
      s3: "step_op vt x s2 = Some (ob2, s3)" "obs2 = (op_tid x, ob2) # obs3"
        "run_ops vt (filter (\<lambda>x. part (op_tid x) = part t) xs) s3 = Some (obs3, s2')"
      by (auto simp: bind_eq_Some)
    have x2: "op_ok vld s2 x"
      using x Cons.prems(3) frame_cong(2) [OF Cons.prems(3)] by (cases x) (auto simp: frame_def)
    note f2 = step_frame [OF Cons.prems(2) x2 s3(1)]
    have c: "ob = ob2" "same_view vt t s1 s3"
      using step_consistent [OF Cons.prems(1,2) x x2 Cons.prems(3,4) True Cons.prems(5) s1(1) s3(1)] by simp_all
    have "frame s1 s3"
      using f(1) f2(1) Cons.prems(3) by (simp add: frame_def)
    from Cons.IH [OF f(2) f2(2) this c(2) rest(2,1) s1(2) s3(3)] show ?thesis
      using True s1(3) s3(2) c(1) by simp
  next
    case False
    have "same_view vt t s1 s2"
      using step_local [OF Cons.prems(1) x s1(1) False Cons.prems(5)] Cons.prems(4) f(1)
      by (simp add: same_view_def frame_def)
    moreover have "frame s1 s2" using f(1) Cons.prems(3) by (simp add: frame_def)
    moreover have "run_ops vt (filter (\<lambda>x. part (op_tid x) = part t) xs) s2 = Some (obs2, s2')"
      using Cons.prems(8) False by simp
    ultimately show ?thesis
      using Cons.IH [OF f(2) Cons.prems(2) _ _ rest(2,1) s1(2)] False s1(3) by simp
  qed
qed simp

lemma purge:
  assumes "tags_ok vt vld s" "vld s t" "list_all (op_ok vld s) xs"
  shows "\<exists>obs s' obs2 s2'. run_ops vt xs s = Some (obs, s')
     \<and> run_ops vt (filter (\<lambda>x. part (op_tid x) = part t) xs) s = Some (obs2, s2')
     \<and> filter (\<lambda>o'. part (fst o') = part t) obs = obs2"
proof -
  have "list_all (op_ok vld s) (filter (\<lambda>x. part (op_tid x) = part t) xs)"
    using assms(3) by (simp add: list_all_iff)
  then show ?thesis
    using run_total [OF assms(1)] assms noninterference [OF assms(1,1) frame_refl _ assms(2,3)]
    by (metis same_view_def)
qed

end

subsection \<open>The unpartitioned store\<close>

definition any_tid :: "'a LRU_scheme \<Rightarrow> nat \<Rightarrow> bool" where
  "any_tid s t = True"

definition one_part :: "nat \<Rightarrow> nat" where
  "one_part t = 0"

interpretation lru: tag_layout LRU_vt any_tid one_part
  by unfold_locales (auto simp: LRU_vt_def any_tid_def one_part_def)

text \<open>What the constructor leaves of the configuration when it does not stop with \<open>fatal\<close>.\<close>

lemma LRU_ctor_Inr:
  assumes "LRU_ctor u raw nsets bsize asc hl = Inr s"
  shows "geometry_ok s" "numSets s = nsets" "blkSize s = bsize" "assoc s = asc" "0 < unat asc"
    "length (missCounter s) = unat nsets" "LRU.more s = LRU.more raw" "occupancies s = occupancies raw"
    "hitLatency s = hl"
proof -
  have cond: "\<not> (bsize < 4 \<or> \<not> isPowerOf2 bsize)" "\<not> (nsets \<le> 0 \<or> \<not> isPowerOf2 nsets)"
    "\<not> asc \<le> 0" "\<not> hl \<le> 0"
    using assms by (auto simp: LRU_ctor_def split: if_splits)
  have "isPowerOf2 bsize" "isPowerOf2 nsets" using cond by blast+
  then obtain b n where b: "bsize = 2 ^ b" "b < 32" and n: "nsets = 2 ^ n" "n < 32"
    by (elim isPowerOf2_D) simp
  have lg: "floorLog2_u32 bsize = Some b" "floorLog2_u32 nsets = Some n"
    using floorLog2_u32_power b n by simp_all
  have s: "s = LRU_init_sets u (raw \<lparr>numSets := nsets, blkSize := bsize, assoc := asc,
        hitLatency := hl, blkMask := bsize - 1, setShift := b, setMask := nsets - 1, tagShift := b + n,
        warmedUp := False, warmupBound := sint (nsets * asc), missCounter := replicate (unat nsets) 0\<rparr>)"
    using assms cond by (simp add: LRU_ctor_def lg)
  show "geometry_ok s"
    using b n by (simp add: s LRU_init_sets_def geometry_ok_def split_beta Let_def)
  show "numSets s = nsets" "blkSize s = bsize" "assoc s = asc"
    "length (missCounter s) = unat nsets" "LRU.more s = LRU.more raw" "occupancies s = occupancies raw"
    "hitLatency s = hl"
    by (simp_all add: s LRU_init_sets_def split_beta Let_def)
  show "0 < unat asc" using cond(3) by (simp add: unat_gt_0)
qed

lemma LRU_ctor_init:
  assumes "LRU_ctor u raw nsets bsize asc hl = Inr s"
  obtains s0 where "s = LRU_init_sets u s0" "geometry_ok s0" "numSets s0 = nsets" "assoc s0 = asc"
    "length (missCounter s0) = unat nsets"
proof -
  from assms obtain s0 where s: "s = LRU_init_sets u s0" by (auto simp: LRU_ctor_def split: if_splits)
  then show thesis
    using that [OF s] LRU_ctor_Inr [OF assms]
    by (simp add: LRU_init_sets_def split_beta Let_def geometry_ok_def)
qed

lemma LRU_ctor_valid_iff:
  "(\<exists>s. LRU_ctor u raw nsets bsize asc hl = Inr s) \<longleftrightarrow>
     4 \<le> unat bsize \<and> (\<exists>b. unat bsize = 2 ^ b) \<and> (\<exists>n. unat nsets = 2 ^ n) \<and> 0 < unat asc \<and> 0 < unat hl"
proof -
  have "\<not> bsize < 4 \<longleftrightarrow> 4 \<le> unat bsize" by (auto simp: word_less_nat_alt)
  moreover have "\<not> x \<le> 0 \<longleftrightarrow> 0 < unat x" for x :: "32 word" by (simp add: word_le_nat_alt)
  moreover have "(\<exists>n. unat nsets = 2 ^ n) \<longrightarrow> 0 < unat nsets" by auto
  ultimately show ?thesis
    by (auto simp: LRU_ctor_def isPowerOf2_iff)
qed

lemma LRU_init_sets_ok:
  assumes "geometry_ok s" "length (missCounter s) = unat (numSets s)" "0 < unat (assoc s)"
  shows "tags_ok LRU_vt any_tid (LRU_init_sets u s)"
proof -
  let ?xs = "map (\<lambda>i. (unat (assoc s), i, 0)) [0..<unat (numSets s)]"
  obtain ss bl where l: "link_sets u (blkSize s) 0 ?xs = (ss, bl)" by fastforce
  have len: "length ss = unat (numSets s)" using link_sets_length(1) [of u "blkSize s" 0 ?xs] l by simp
  have s': "LRU_init_sets u s = s \<lparr>sets := [ss], blks := bl, numBlocks := unat (numSets s * assoc s)\<rparr>"
    by (simp add: LRU_init_sets_def l)
  show ?thesis
    unfolding s'
    by (rule init_tags_ok [where idx = "\<lambda>i t. i" and u = u and bs = "blkSize s" and ss = ss and xs = ?xs])
      (use assms l len in \<open>auto simp: geometry_ok_def LRU_vt_def in_range_def set_at_def\<close>)
qed

lemma LRU_init_sets_view:
  assumes "i < unat (numSets s)"
  shows "view LRU_vt (LRU_init_sets u s) t i = replicate (unat (assoc s)) None"
proof -
  let ?xs = "map (\<lambda>i. (unat (assoc s), i, 0)) [0..<unat (numSets s)]"
  obtain ss bl where l: "link_sets u (blkSize s) 0 ?xs = (ss, bl)" by fastforce
  have s': "LRU_init_sets u s = s \<lparr>sets := [ss], blks := bl, numBlocks := unat (numSets s * assoc s)\<rparr>"
    by (simp add: LRU_init_sets_def l)
  show ?thesis
    unfolding s'
    by (rule init_view [where n = i and u = u and bs = "blkSize s" and ss = ss and xs = ?xs and tc = 0])
      (use assms l in \<open>auto simp: LRU_vt_def set_at_def\<close>)
qed

lemma LRU_ctor_tags_ok:
  assumes "LRU_ctor u raw nsets bsize asc hl = Inr s"
  shows "tags_ok LRU_vt any_tid s"
    "i < unat nsets \<Longrightarrow> view LRU_vt s t i = replicate (unat asc) None"
proof -
  obtain s0 where s0: "s = LRU_init_sets u s0" "geometry_ok s0" "numSets s0 = nsets" "assoc s0 = asc"
    "length (missCounter s0) = unat nsets" using LRU_ctor_init [OF assms] by blast
  have "0 < unat (assoc s0)" using LRU_ctor_Inr(5) [OF assms] s0(4) by simp
  then show "tags_ok LRU_vt any_tid s" using LRU_init_sets_ok [OF s0(2)] s0 by simp
  show "i < unat nsets \<Longrightarrow> view LRU_vt s t i = replicate (unat asc) None"
    using LRU_init_sets_view [of i s0 u t] s0 by simp
qed

text \<open>A small configuration for the concrete instances: 4-byte blocks, 2 sets, 2 ways.\<close>

definition raw_tags :: LRU where
  "raw_tags = \<lparr>warmupBound = 0, warmedUp = False, numBlocks = 0, replacements = 0, tagsInUse = 0,
     totalRefs = 0, sampledRefs = 0, warmupCycle = 0, occupancies = [0, 0, 0], sets = [], numSets = 0,
     blkSize = 0, assoc = 0, hitLatency = 0, blks = [], setShift = 0, tagShift = 0, setMask = 0,
     blkMask = 0, missCounter = []\<rparr>"

lemma replicate_2: "replicate 2 x = [x, x]"
  by (simp add: numeral_2_eq_2)

lemma small_config:
  obtains s :: "'a LRU_scheme" where "LRU_ctor u raw 2 4 2 1 = Inr s"
proof -
  have "\<exists>b. unat (4 :: 32 word) = 2 ^ b" by (rule exI [of _ 2]) simp
  moreover have "\<exists>n. unat (2 :: 32 word) = 2 ^ n" by (rule exI [of _ 1]) simp
  ultimately have "\<exists>s :: 'a LRU_scheme. LRU_ctor u raw 2 4 2 1 = Inr s"
    unfolding LRU_ctor_valid_iff by simp
  then show thesis using that by blast
qed

subsection \<open>Properties\<close>

text \<open>
  The LRU constructor accepts exactly the configurations with a power-of-two block
  size of at least 4, a power-of-two number of sets, and non-zero associativity and
  latency; when it accepts, the resulting store is well-formed and every set starts with
  only invalid blocks.
\<close>

theorem LRU_ctor_correct:
  "((\<exists>s. LRU_ctor u raw nsets bsize asc hl = Inr s) \<longleftrightarrow>
      4 \<le> unat bsize \<and> (\<exists>b. unat bsize = 2 ^ b) \<and> (\<exists>n. unat nsets = 2 ^ n)
      \<and> 0 < unat asc \<and> 0 < unat hl)
   \<and> (LRU_ctor u raw nsets bsize asc hl = Inr s \<longrightarrow>
        tags_ok LRU_vt any_tid s
        \<and> (\<forall>t. \<forall>i < unat nsets. view LRU_vt s t i = replicate (unat asc) None))"
  using LRU_ctor_valid_iff [of u raw nsets bsize asc hl] LRU_ctor_tags_ok [of u raw nsets bsize asc hl s]
  by simp

theorem LRU_ctor_correct_witness:
  "\<exists>s. LRU_ctor (\<lambda>_. 0) raw_tags 2 4 2 1 = Inr s \<and> tags_ok LRU_vt any_tid s
     \<and> view LRU_vt s 7 1 = [None, None]"
proof -
  obtain s where s: "LRU_ctor (\<lambda>_. 0) raw_tags 2 4 2 1 = Inr s" by (rule small_config)
  then show ?thesis
    using LRU_ctor_correct [of "\<lambda>_. 0" raw_tags 2 4 2 1 s] by (simp add: replicate_2)
qed

text \<open>
  C37: For every tag store the constructor accepts, an address is recovered from its
  tag, set index and block offset, the set index is in range, and two addresses have the
  same tag and set exactly when they lie in the same block.
\<close>

theorem address_roundtrip:
  assumes "LRU_ctor u raw nsets bsize asc hl = Inr s"
  shows "regenerateBlkAddr s (extractTag s a) (extractSet s a) = blkAlign s a
    \<and> extractSet s a < unat nsets
    \<and> unat a = unat (blkAlign s a) + extractBlkOffset s a \<and> extractBlkOffset s a < unat bsize
    \<and> ((extractTag s a = extractTag s b \<and> extractSet s a = extractSet s b) \<longleftrightarrow> blkAlign s a = blkAlign s b)"
proof -
  note c = LRU_ctor_Inr [OF assms]
  have off: "extractBlkOffset s a = unat a mod 2 ^ setShift s" "unat (blkAlign s a) = unat a div 2 ^ setShift s * 2 ^ setShift s"
    using geometry_unat(4) [OF c(1)] by (simp_all add: extractBlkOffset_def blkAlign_def unat_and_mask unat_and_not_mask)
  moreover have "unat bsize = 2 ^ setShift s" using geometry_unat(2) [OF c(1)] c(3) by simp
  ultimately show ?thesis
    using regenerate_align [OF c(1)] extractSet_less [OF c(1)] same_block_iff [OF c(1)] c(2)
      div_mult_mod_eq [of "unat a" "2 ^ setShift s"] by simp
qed

theorem address_roundtrip_witness:
  "\<exists>s. LRU_ctor (\<lambda>_. 0) raw_tags 2 4 2 1 = Inr s
     \<and> regenerateBlkAddr s (extractTag s 0x1237) (extractSet s 0x1237) = blkAlign s 0x1237"
proof -
  obtain s where s: "LRU_ctor (\<lambda>_. 0) raw_tags 2 4 2 1 = Inr s" by (rule small_config)
  then show ?thesis using address_roundtrip [OF s, of "0x1237"] by blast
qed

text \<open>
  C5: On a well-formed LRU tag store every access, fill after a miss and invalidation
  succeeds (no assertion fails and no array is indexed out of range), keeps the store
  well-formed, changes the addressed set exactly as the abstract recency list does (hit
  moves to front, fill evicts the last entry, invalidation moves an empty entry to the
  back), returns the observation of the abstract step, and leaves every other set alone.
\<close>

theorem LRU_refines_recency_list:
  assumes "tags_ok LRU_vt any_tid s" and "op_ok any_tid s x"
  shows "\<exists>s'. step_op LRU_vt x s
       = Some (fst (v_step x (extractTag s (op_addr x)) (view LRU_vt s (op_tid x) (extractSet s (op_addr x)))), s')
     \<and> tags_ok LRU_vt any_tid s'
     \<and> view LRU_vt s' (op_tid x) (extractSet s (op_addr x))
       = snd (v_step x (extractTag s (op_addr x)) (view LRU_vt s (op_tid x) (extractSet s (op_addr x))))
     \<and> (\<forall>j u. j < unat (numSets s) \<and> j \<noteq> extractSet s (op_addr x)
          \<longrightarrow> view LRU_vt s' u j = view LRU_vt s u j)"
  using lru.step_refines [OF assms] by (auto simp: refines_step_def any_tid_def)

theorem LRU_refines_recency_list_witness:
  "\<exists>s s'. LRU_ctor (\<lambda>_. 0) raw_tags 2 4 2 1 = Inr s \<and> step_op LRU_vt (Access 3 0x40 5) s = Some (Miss, s')
     \<and> tags_ok LRU_vt any_tid s'"
proof -
  obtain s where s: "LRU_ctor (\<lambda>_. 0) raw_tags 2 4 2 1 = Inr s" by (rule small_config)
  have "extractSet s 0x40 < unat (2 :: 32 word)"
    using extractSet_less [OF LRU_ctor_Inr(1) [OF s]] LRU_ctor_Inr(2) [OF s] by simp
  then have "view LRU_vt s 3 (extractSet s 0x40) = replicate 2 None"
    using LRU_ctor_tags_ok(2) [OF s] by simp
  then show ?thesis
    using LRU_refines_recency_list [OF LRU_ctor_tags_ok(1) [OF s], of "Access 3 0x40 5"] s
    by (auto simp: any_tid_def)
qed

end
