(* ===== verification/Tags_Partition.thy ===== *)
theory Tags_Partition
imports Tag_Layout
begin

text \<open>
  The statically partitioned tag stores: \<open>SPLRU\<close> divides the sets among the
  threads (\<open>src/src/mem/cache/tags/splru.cc\<close>), \<open>WPLRU\<close> the ways
  (\<open>wplru.cc\<close>), and \<open>DCLRU\<close> the ways between a Low and a High label, with
  look-ups that cross the boundary in one direction (\<open>dclru.cc\<close>).  Each
  interprets the locale \<open>tag_layout\<close>, so the refinement and the
  noninterference lemmas hold of its own definitions.
\<close>

subsection \<open>Set partitioning\<close>

record SPLRU = LRU +
  sp_num_tcs :: "32 word"

text \<open>The entries of a doubly nested loop, outer index first.\<close>

definition grid :: "nat \<Rightarrow> nat \<Rightarrow> (nat \<Rightarrow> nat \<Rightarrow> 'b) \<Rightarrow> 'b list" where
  "grid r w f = concat (map (\<lambda>i. map (f i) [0..<w]) [0..<r])"

definition SPLRU_init_sets :: "(nat \<Rightarrow> byte) \<Rightarrow> SPLRU \<Rightarrow> SPLRU" where
  "SPLRU_init_sets u s =
     (let n = unat (numSets s); k = unat (sp_num_tcs s);
          (ss, bl) = link_sets u (blkSize s) 0 (grid n k (\<lambda>i tc. (unat (assoc s), i, 0)))
      in s \<lparr>sets := chunk k n ss, blks := bl,
            numBlocks := unat (numSets s * sp_num_tcs s * assoc s)\<rparr>)"

text \<open>
  The constructor; \<open>None\<close> is a division by zero or the failing assertion,
  which tests the number of sets after the base class has been given the
  quotient.
\<close>

definition SPLRU_ctor :: "(nat \<Rightarrow> byte) \<Rightarrow> SPLRU \<Rightarrow> 32 word \<Rightarrow> 32 word \<Rightarrow> 32 word \<Rightarrow> 32 word \<Rightarrow> 32 word
    \<Rightarrow> (string + SPLRU) option" where
  "SPLRU_ctor u raw nsets bsize asc hl num_tcs = do {
     check (num_tcs \<noteq> 0);
     case LRU_ctor u raw (nsets div num_tcs) bsize asc hl of
       Inl e \<Rightarrow> Some (Inl e)
     | Inr s \<Rightarrow> do {
         let s = SPLRU_init_sets u (s \<lparr>sp_num_tcs := num_tcs\<rparr>);
         check (numSets s mod num_tcs = 0);
         Some (Inr (s \<lparr>warmupBound := sint (numSets s * num_tcs * assoc s)\<rparr>)) } }"

definition SPLRU_vt :: "SPLRU vtable" where
  "SPLRU_vt = \<lparr>slot = (\<lambda>setnum tid. (setnum, tid)), assoc_of_tc = (\<lambda>s tcid. unat (assoc s))\<rparr>"

definition SPLRU_cleanupRefs :: "SPLRU \<Rightarrow> SPLRU option" where
  "SPLRU_cleanupRefs s = do {
     let n = unat (numSets s * sp_num_tcs s * assoc s);
     check (n \<le> length (blks s));
     Some (fold sample_refs (take n (blks s)) s) }"

definition sp_tid :: "SPLRU \<Rightarrow> nat \<Rightarrow> bool" where
  "sp_tid s t = (t < unat (sp_num_tcs s))"

subsection \<open>Way partitioning\<close>

record WPLRU = LRU +
  wp_num_tcs :: "32 word"

definition WPLRU_assoc_of_tc :: "WPLRU \<Rightarrow> nat \<Rightarrow> nat" where
  "WPLRU_assoc_of_tc s tcid =
     (let a = unat (assoc s) div unat (wp_num_tcs s) in
      if tcid < unat (assoc s) mod unat (wp_num_tcs s) then a + 1 else a)"

definition WPLRU_init_sets :: "(nat \<Rightarrow> byte) \<Rightarrow> WPLRU \<Rightarrow> WPLRU" where
  "WPLRU_init_sets u s =
     (let n = unat (numSets s); k = unat (wp_num_tcs s);
          (ss, bl) = link_sets u (blkSize s) 0 (grid k n (\<lambda>tc i. (WPLRU_assoc_of_tc s tc, i, 0)))
      in s \<lparr>sets := chunk n k ss, blks := bl, numBlocks := unat (numSets s * assoc s)\<rparr>)"

definition WPLRU_ctor :: "(nat \<Rightarrow> byte) \<Rightarrow> WPLRU \<Rightarrow> 32 word \<Rightarrow> 32 word \<Rightarrow> 32 word \<Rightarrow> 32 word \<Rightarrow> 32 word
    \<Rightarrow> string + WPLRU" where
  "WPLRU_ctor u raw nsets bsize asc hl num_tcs =
     (case LRU_ctor u raw nsets bsize asc hl of
        Inl e \<Rightarrow> Inl e
      | Inr s \<Rightarrow> Inr (WPLRU_init_sets u (s \<lparr>wp_num_tcs := num_tcs\<rparr>)))"

definition WPLRU_vt :: "WPLRU vtable" where
  "WPLRU_vt = \<lparr>slot = (\<lambda>setnum tid. (tid, setnum)), assoc_of_tc = WPLRU_assoc_of_tc\<rparr>"

definition wp_tid :: "WPLRU \<Rightarrow> nat \<Rightarrow> bool" where
  "wp_tid s t = (t < unat (wp_num_tcs s))"

subsection \<open>The Low/High store\<close>

definition DCLRU_assoc_of_tc :: "LRU \<Rightarrow> nat \<Rightarrow> nat" where
  "DCLRU_assoc_of_tc s tcid =
     (let a = unat (assoc s) div 2 in if tcid < unat (assoc s) mod 2 then a + 1 else a)"

definition DCLRU_init_sets :: "(nat \<Rightarrow> byte) \<Rightarrow> LRU \<Rightarrow> LRU" where
  "DCLRU_init_sets u s =
     (let n = unat (numSets s);
          (ss, bl) = link_sets u (blkSize s) 0 (grid 2 n (\<lambda>tc i. (DCLRU_assoc_of_tc s tc, i, 0)))
      in s \<lparr>sets := chunk n 2 ss, blks := bl, numBlocks := unat (numSets s * assoc s)\<rparr>)"

definition DCLRU_ctor :: "(nat \<Rightarrow> byte) \<Rightarrow> LRU \<Rightarrow> 32 word \<Rightarrow> 32 word \<Rightarrow> 32 word \<Rightarrow> 32 word
    \<Rightarrow> string + LRU" where
  "DCLRU_ctor u raw nsets bsize asc hl =
     (case LRU_ctor u raw nsets bsize asc hl of Inl e \<Rightarrow> Inl e | Inr s \<Rightarrow> Inr (DCLRU_init_sets u s))"

definition DCLRU_vt :: "LRU vtable" where
  "DCLRU_vt = \<lparr>slot = (\<lambda>setnum label. (label, setnum)), assoc_of_tc = DCLRU_assoc_of_tc\<rparr>"

definition dc_label :: "LRU \<Rightarrow> nat \<Rightarrow> bool" where
  "dc_label s l = (l < 2)"

text \<open>The labelled look-up, with its four cases as the code has them.\<close>

definition DCLRU_findBlock :: "addr \<Rightarrow> nat \<Rightarrow> nat \<Rightarrow> LRU \<Rightarrow> nat option option" where
  "DCLRU_findBlock a rl wl s = do {
     let t = extractTag s a;
     let setnum = extractSet s a;
     c_L \<leftarrow> get_set DCLRU_vt s setnum 0;
     blk_L \<leftarrow> findBlk (blks s) c_L t;
     c_H \<leftarrow> get_set DCLRU_vt s setnum 1;
     blk_H \<leftarrow> findBlk (blks s) c_H t;
     Some (if rl = 0 \<and> wl = 0 then
             (if blk_L \<noteq> None then blk_L else if blk_L = None \<and> blk_H \<noteq> None then None else None)
           else if rl = 1 \<and> wl = 1 then (if blk_L \<noteq> None then blk_L else blk_H)
           else if rl = 0 \<and> wl = 1 then
             (if blk_L \<noteq> None then blk_L else if blk_L = None \<and> blk_H \<noteq> None then None else None)
           else (if blk_L \<noteq> None then blk_L else blk_H)) }"

definition DCLRU_locateBlock :: "addr \<Rightarrow> nat \<Rightarrow> nat \<Rightarrow> LRU \<Rightarrow> nat option" where
  "DCLRU_locateBlock a rl wl s =
     (if rl = 1 then do {
        c \<leftarrow> get_set DCLRU_vt s (extractSet s a) 0;
        blk_L \<leftarrow> findBlk (blks s) c (extractTag s a);
        Some (if blk_L \<noteq> None then 0 else 1) }
      else Some 0)"

definition DCLRU_accessBlock :: "addr \<Rightarrow> nat \<Rightarrow> nat \<Rightarrow> tick \<Rightarrow> LRU
    \<Rightarrow> (nat option \<times> 32 word \<times> LRU) option" where
  "DCLRU_accessBlock a rl wl now s = do {
     let setnum = extractSet s a;
     blk \<leftarrow> DCLRU_findBlock a rl wl s;
     case blk of
       None \<Rightarrow> Some (None, hitLatency s, s)
     | Some p \<Rightarrow> do {
         locBlk \<leftarrow> DCLRU_locateBlock a rl wl s;
         c \<leftarrow> get_set DCLRU_vt s setnum locBlk;
         c' \<leftarrow> moveToHead p c;
         b \<leftarrow> at (blks s) p;
         let s = upd_at (slot DCLRU_vt setnum locBlk) c' s;
         Some (Some p, lat_of s b now, s \<lparr>blks := (blks s)[p := b \<lparr>refCount := refCount b + 1\<rparr>]\<rparr>) } }"

subsection \<open>Layouts\<close>

lemma sp_more: "LRU.more s' = LRU.more (s :: SPLRU) \<Longrightarrow> sp_num_tcs s' = sp_num_tcs s"
  by (cases s; cases s') simp

lemma wp_more: "LRU.more s' = LRU.more (s :: WPLRU) \<Longrightarrow> wp_num_tcs s' = wp_num_tcs s"
  by (cases s; cases s') simp

interpretation sp: tag_layout SPLRU_vt sp_tid id
  by unfold_locales (auto simp: SPLRU_vt_def sp_tid_def dest: sp_more)

interpretation wp: tag_layout WPLRU_vt wp_tid id
  by unfold_locales (auto simp: WPLRU_vt_def wp_tid_def WPLRU_assoc_of_tc_def dest!: wp_more)

interpretation dc: tag_layout DCLRU_vt dc_label id
  by unfold_locales (auto simp: DCLRU_vt_def dc_label_def DCLRU_assoc_of_tc_def)

lemma grid_length [simp]: "length (grid r w f) = r * w"
  by (simp add: grid_def length_concat comp_def sum_list_triv)

lemma grid_Suc: "grid (Suc r) w f = grid r w f @ map (f r) [0..<w]"
  by (simp add: grid_def)

lemma grid_nth: "i < r \<Longrightarrow> k < w \<Longrightarrow> grid r w f ! (i * w + k) = f i k"
proof (induction r)
  case (Suc r)
  have "i * w + k < r * w" if "i < r"
  proof -
    have "i * w + k < Suc i * w" using Suc.prems(2) by simp
    also have "\<dots> \<le> r * w" using that by (intro mult_le_mono1) simp
    finally show ?thesis .
  qed
  then show ?case using Suc by (cases "i < r") (auto simp: grid_Suc nth_append less_Suc_eq)
qed simp

lemma grid_index_inj:
  assumes "k < w" "k' < (w :: nat)" "i * w + k = i' * w + k'"
  shows "i = i' \<and> k = k'"
proof -
  have "(i * w + k) div w = i" "(i' * w + k') div w = i'" "(i * w + k) mod w = k" "(i' * w + k') mod w = k'"
    using assms(1,2) by simp_all
  then show ?thesis using assms(3) by metis
qed

subsection \<open>Fresh stores\<close>

lemma row_major:
  assumes "link_sets u bs 0 (grid r w f) = (ss, bl)" "i < r" "k < w"
  shows "i < length (chunk w r ss)" "k < length (chunk w r ss ! i)" "chunk w r ss ! i ! k = ss ! (i * w + k)"
    "i * w + k < r * w" "grid r w f ! (i * w + k) = f i k"
proof -
  have len: "length ss = r * w" using link_sets_length(1) [of u bs 0 "grid r w f"] assms(1) by simp
  show "i < length (chunk w r ss)" using assms(2) by simp
  show "k < length (chunk w r ss ! i)" "chunk w r ss ! i ! k = ss ! (i * w + k)"
    using chunk_nth [OF len assms(2,3)] assms(3) by simp_all
  have "i * w + k < Suc i * w" using assms(3) by simp
  also have "\<dots> \<le> r * w" using assms(2) by (intro mult_le_mono1) simp
  finally show "i * w + k < r * w" .
  show "grid r w f ! (i * w + k) = f i k" using grid_nth [OF assms(2,3)] .
qed

lemma SPLRU_init_sets_ok:
  assumes "geometry_ok s" "length (missCounter s) = unat (numSets s)" "0 < unat (assoc s)"
  shows "tags_ok SPLRU_vt sp_tid (SPLRU_init_sets u s)"
proof -
  let ?n = "unat (numSets s)" and ?k = "unat (sp_num_tcs s)"
  let ?f = "\<lambda>i tc :: nat. (unat (assoc s), i, 0 :: nat)"
  obtain ss bl where l: "link_sets u (blkSize s) 0 (grid ?n ?k ?f) = (ss, bl)" by fastforce
  note rm = row_major [OF l]
  have s': "SPLRU_init_sets u s = s \<lparr>sets := chunk ?k ?n ss, blks := bl,
      numBlocks := unat (numSets s * sp_num_tcs s * assoc s)\<rparr>"
    by (simp add: SPLRU_init_sets_def l)
  show ?thesis
    unfolding s'
    by (rule init_tags_ok [where idx = "\<lambda>i t. i * ?k + t" and u = u and bs = "blkSize s" and ss = ss
          and xs = "grid ?n ?k ?f"])
      (use assms l rm in \<open>auto simp: geometry_ok_def SPLRU_vt_def sp_tid_def in_range_def set_at_def
         dest: grid_index_inj\<close>)
qed

lemma WPLRU_assoc_pos:
  "0 < unat (wp_num_tcs s) \<Longrightarrow> unat (wp_num_tcs s) \<le> unat (assoc s) \<Longrightarrow> 0 < WPLRU_assoc_of_tc s t"
  by (simp add: WPLRU_assoc_of_tc_def Let_def div_greater_zero_iff)

lemma WPLRU_init_sets_ok:
  assumes "geometry_ok s" "length (missCounter s) = unat (numSets s)"
    and "unat (wp_num_tcs s) \<le> unat (assoc s)"
  shows "tags_ok WPLRU_vt wp_tid (WPLRU_init_sets u s)"
proof -
  let ?n = "unat (numSets s)" and ?k = "unat (wp_num_tcs s)"
  let ?f = "\<lambda>tc i. (WPLRU_assoc_of_tc s tc, i, 0 :: nat)"
  obtain ss bl where l: "link_sets u (blkSize s) 0 (grid ?k ?n ?f) = (ss, bl)" by fastforce
  note rm = row_major [OF l]
  have s': "WPLRU_init_sets u s = s \<lparr>sets := chunk ?n ?k ss, blks := bl, numBlocks := unat (numSets s * assoc s)\<rparr>"
    by (simp add: WPLRU_init_sets_def l)
  have as: "WPLRU_assoc_of_tc (s \<lparr>sets := x, blks := y, numBlocks := z\<rparr>) = WPLRU_assoc_of_tc s" for x y z
    by (simp add: WPLRU_assoc_of_tc_def fun_eq_iff)
  have pos: "0 < WPLRU_assoc_of_tc s t" if "t < ?k" for t
    using WPLRU_assoc_pos assms(3) that by auto
  show ?thesis
    unfolding s'
    by (rule init_tags_ok [where idx = "\<lambda>i t. t * ?n + i" and u = u and bs = "blkSize s" and ss = ss
          and xs = "grid ?k ?n ?f"])
      (use assms l rm pos in \<open>auto simp: geometry_ok_def WPLRU_vt_def wp_tid_def in_range_def set_at_def as
         dest: grid_index_inj\<close>)
qed

lemma DCLRU_init_sets_ok:
  assumes "geometry_ok s" "length (missCounter s) = unat (numSets s)" and "2 \<le> unat (assoc s)"
  shows "tags_ok DCLRU_vt dc_label (DCLRU_init_sets u s)"
proof -
  let ?n = "unat (numSets s)"
  let ?f = "\<lambda>tc i. (DCLRU_assoc_of_tc s tc, i, 0 :: nat)"
  obtain ss bl where l: "link_sets u (blkSize s) 0 (grid 2 ?n ?f) = (ss, bl)" by fastforce
  note rm = row_major [OF l]
  have s': "DCLRU_init_sets u s = s \<lparr>sets := chunk ?n 2 ss, blks := bl, numBlocks := unat (numSets s * assoc s)\<rparr>"
    by (simp add: DCLRU_init_sets_def l)
  have as: "DCLRU_assoc_of_tc (s \<lparr>sets := x, blks := y, numBlocks := z\<rparr>) = DCLRU_assoc_of_tc s" for x y z
    by (simp add: DCLRU_assoc_of_tc_def fun_eq_iff)
  have pos: "0 < DCLRU_assoc_of_tc s t" for t
    using assms(3) by (simp add: DCLRU_assoc_of_tc_def Let_def div_greater_zero_iff)
  show ?thesis
    unfolding s'
    by (rule init_tags_ok [where idx = "\<lambda>i t. t * ?n + i" and u = u and bs = "blkSize s" and ss = ss
          and xs = "grid 2 ?n ?f"])
      (use assms l rm pos in \<open>auto simp: geometry_ok_def DCLRU_vt_def dc_label_def in_range_def set_at_def as
         dest: grid_index_inj\<close>)
qed

lemma SPLRU_ctor_ok:
  assumes "SPLRU_ctor u raw nsets bsize asc hl k = Some (Inr s)"
  shows "tags_ok SPLRU_vt sp_tid s" "numSets s = nsets div k" "sp_num_tcs s = k"
    "occupancies s = occupancies raw" "numSets s mod k = 0"
proof -
  from assms obtain s0 where s0: "LRU_ctor u raw (nsets div k) bsize asc hl = Inr s0"
    and md: "numSets (SPLRU_init_sets u (s0 \<lparr>sp_num_tcs := k\<rparr>)) mod k = 0"
    and s: "s = (let s = SPLRU_init_sets u (s0 \<lparr>sp_num_tcs := k\<rparr>) in
                s \<lparr>warmupBound := sint (numSets s * k * assoc s)\<rparr>)"
    by (auto simp: SPLRU_ctor_def Let_def split: sum.splits if_splits)
  note c = LRU_ctor_Inr [OF s0]
  have "tags_ok SPLRU_vt sp_tid (SPLRU_init_sets u (s0 \<lparr>sp_num_tcs := k\<rparr>))"
    using c by (intro SPLRU_init_sets_ok) (simp_all add: geometry_ok_def)
  then show "tags_ok SPLRU_vt sp_tid s"
    unfolding s Let_def
    by (auto simp: tags_ok_def geometry_ok_def in_range_def set_at_def set_inv_def SPLRU_vt_def sp_tid_def)
  show "numSets s = nsets div k" "sp_num_tcs s = k" "occupancies s = occupancies raw" "numSets s mod k = 0"
    using c md by (simp_all add: s Let_def SPLRU_init_sets_def split_beta)
qed

lemma WPLRU_ctor_ok:
  assumes "WPLRU_ctor u raw nsets bsize asc hl k = Inr s" and "unat k \<le> unat asc"
  shows "tags_ok WPLRU_vt wp_tid s" "assoc s = asc" "wp_num_tcs s = k" "occupancies s = occupancies raw"
    "numSets s = nsets"
proof -
  from assms obtain s0 where s0: "LRU_ctor u raw nsets bsize asc hl = Inr s0"
    and s: "s = WPLRU_init_sets u (s0 \<lparr>wp_num_tcs := k\<rparr>)"
    by (auto simp: WPLRU_ctor_def split: sum.splits)
  note c = LRU_ctor_Inr [OF s0]
  show "tags_ok WPLRU_vt wp_tid s"
    unfolding s using c assms(2) by (intro WPLRU_init_sets_ok) (simp_all add: geometry_ok_def)
  show "assoc s = asc" "wp_num_tcs s = k" "occupancies s = occupancies raw" "numSets s = nsets"
    using c by (simp_all add: s Let_def WPLRU_init_sets_def split_beta)
qed

text \<open>The ways handed out add up to the associativity.\<close>

lemma sum_extra: "m \<le> k \<Longrightarrow> (\<Sum>t < k. if t < m then a + 1 else a) = k * a + (m :: nat)"
proof (induction k)
  case (Suc k)
  then show ?case by (cases "m \<le> k") (auto simp: not_le le_Suc_eq)
qed simp

lemma WPLRU_ways_sum:
  assumes "0 < unat (wp_num_tcs s)"
  shows "(\<Sum>t < unat (wp_num_tcs s). WPLRU_assoc_of_tc s t) = unat (assoc s)"
proof -
  let ?k = "unat (wp_num_tcs s)"
  have "unat (assoc s) mod ?k \<le> ?k" using assms by (simp add: order_less_imp_le)
  from sum_extra [OF this, of "unat (assoc s) div ?k"] show ?thesis
    unfolding WPLRU_assoc_of_tc_def Let_def by (simp add: mult.commute)
qed

lemma dc_access_refines:
  fixes a :: addr
  assumes ok: "tags_ok DCLRU_vt dc_label s" and lab: "rl < 2" "wl < 2"
  defines "i \<equiv> extractSet s a" and "tg \<equiv> extractTag s a"
  defines "l \<equiv> if rl = 0 \<or> Some tg \<in> set (view DCLRU_vt s 0 i) then 0 else 1"
  shows "\<exists>r lat s'. DCLRU_accessBlock a rl wl now s = Some (r, lat, s')
     \<and> (r = None \<longleftrightarrow> Some tg \<notin> set (view DCLRU_vt s l i))
     \<and> refines_step DCLRU_vt dc_label id l i (v_access tg (view DCLRU_vt s l i)) s s'"
proof -
  have v: "dc_label s 0" "dc_label s 1" "dc_label s l" by (simp_all add: dc_label_def l_def)
  let ?c = "\<lambda>l. set_at s (slot DCLRU_vt i l)"
  note o0 = dc.own_set [OF ok v(1), of a, folded i_def] and o1 = dc.own_set [OF ok v(2), of a, folded i_def]
    and ol = dc.own_set [OF ok v(3), of a, folded i_def]
  let ?find = "\<lambda>l. List.find (\<lambda>p. blk_view (blks s ! p) = Some tg) (ways (?c l))"
  have f: "findBlk (blks s) (?c 0) tg = Some (?find 0)" "findBlk (blks s) (?c 1) tg = Some (?find 1)"
    using findBlk_view [OF o0(4)] findBlk_view [OF o1(4)] by simp_all
  have low: "?find 0 \<noteq> None \<longleftrightarrow> Some tg \<in> set (view DCLRU_vt s 0 i)"
    by (rule find_view_cases [OF o0(4), of tg]) (auto simp: view_def)
  have fb: "DCLRU_findBlock a rl wl s = Some (?find l)"
    using f o0(3) o1(3) low lab
    by (cases "?find 0"; cases "rl = 0"; cases "wl = 0")
       (auto simp: DCLRU_findBlock_def i_def [symmetric] tg_def [symmetric] l_def Let_def)
  have lb: "DCLRU_locateBlock a rl wl s = Some l"
    using f o0(3) low lab by (auto simp: DCLRU_locateBlock_def i_def [symmetric] tg_def [symmetric] l_def)
  show ?thesis
  proof (rule find_view_cases [OF ol(4), of tg], goal_cases hit miss)
    case (hit p)
    let ?b = "(blks s ! p) \<lparr>refCount := refCount (blks s ! p) + 1\<rparr>"
    have mv: "moveToHead p (?c l) = Some (?c l \<lparr>ways := to_head p (ways (?c l))\<rparr>)"
      using moveToHead_eq [OF set_inv_cset [OF ol(4)]] hit(2) by simp
    have "\<exists>lat. DCLRU_accessBlock a rl wl now s = Some (Some p, lat,
        upd_at (slot DCLRU_vt i l) (?c l \<lparr>ways := to_head p (ways (?c l))\<rparr>) s \<lparr>blks := (blks s)[p := ?b]\<rparr>)"
      using fb lb ol(3) hit(1,3) mv
      by (simp add: DCLRU_accessBlock_def i_def [symmetric] Let_def)
    then show ?thesis
      using hit(6) dc.hit_refines [OF ok v(3) ol(1) hit(2,4), of ?b] by (auto simp: view_def)
  next
    case miss
    have "refines_step DCLRU_vt dc_label id l i (v_access tg (view DCLRU_vt s l i)) s s"
      using miss(2) by (intro dc.refines_refl [OF ok]) (simp add: v_access_def view_def)
    then show ?thesis
      using fb miss by (simp add: DCLRU_accessBlock_def view_def)
  qed
qed

subsection \<open>Small configurations\<close>

definition raw_wp :: WPLRU where
  "raw_wp = \<lparr>warmupBound = 0, warmedUp = False, numBlocks = 0, replacements = 0,
     tagsInUse = 0, totalRefs = 0, sampledRefs = 0, warmupCycle = 0, occupancies = [0, 0, 0], sets = [],
     numSets = 0, blkSize = 0, assoc = 0, hitLatency = 0, blks = [], setShift = 0, tagShift = 0,
     setMask = 0, blkMask = 0, missCounter = [], wp_num_tcs = 0\<rparr>"

definition raw_sp :: SPLRU where
  "raw_sp = \<lparr>warmupBound = 0, warmedUp = False, numBlocks = 0, replacements = 0,
     tagsInUse = 0, totalRefs = 0, sampledRefs = 0, warmupCycle = 0, occupancies = [0, 0, 0], sets = [],
     numSets = 0, blkSize = 0, assoc = 0, hitLatency = 0, blks = [], setShift = 0, tagShift = 0,
     setMask = 0, blkMask = 0, missCounter = [], sp_num_tcs = 0\<rparr>"

definition sample_trace :: "tag_op list" where
  "sample_trace = [Access 0 0x40 1, Fill 0 0x40 1 1, Access 1 0x40 2, Fill 1 0x48 2 3, Inval 0 0x40, Access 0 0x40 4]"

lemma small_wp:
  obtains s where "WPLRU_ctor (\<lambda>_. 0) raw_wp 2 4 2 1 2 = Inr s" "tags_ok WPLRU_vt wp_tid s"
    "list_all (op_ok wp_tid s) sample_trace" "wp_num_tcs s = 2"
proof -
  obtain s0 where "LRU_ctor (\<lambda>_. 0) raw_wp 2 4 2 1 = Inr s0" by (rule small_config)
  then obtain s where s: "WPLRU_ctor (\<lambda>_. 0) raw_wp 2 4 2 1 2 = Inr s" by (simp add: WPLRU_ctor_def)
  note ok = WPLRU_ctor_ok [OF s, simplified]
  have "list_all (op_ok wp_tid s) sample_trace"
    using ok by (simp add: sample_trace_def wp_tid_def raw_wp_def)
  then show thesis using that s ok by blast
qed

lemma small_sp:
  obtains s where "SPLRU_ctor (\<lambda>_. 0) raw_sp 4 4 2 1 2 = Some (Inr s)" "tags_ok SPLRU_vt sp_tid s"
    "list_all (op_ok sp_tid s) sample_trace" "sp_num_tcs s = 2"
proof -
  have d: "(4 :: 32 word) div 2 = 2" by simp
  obtain s0 where s0: "LRU_ctor (\<lambda>_. 0) raw_sp 2 4 2 1 = Inr s0" by (rule small_config)
  have "numSets (SPLRU_init_sets (\<lambda>_. 0) (s0 \<lparr>sp_num_tcs := 2\<rparr>)) = 2"
    using LRU_ctor_Inr(2) [OF s0] by (simp add: SPLRU_init_sets_def split_beta Let_def)
  then obtain s where s: "SPLRU_ctor (\<lambda>_. 0) raw_sp 4 4 2 1 2 = Some (Inr s)"
    using s0 d by (simp add: SPLRU_ctor_def Let_def)
  note ok = SPLRU_ctor_ok [OF s]
  have "list_all (op_ok sp_tid s) sample_trace"
    using ok by (simp add: sample_trace_def sp_tid_def raw_sp_def)
  then show thesis using that s ok by blast
qed

subsection \<open>Properties\<close>

text \<open>
  C1: Way partitioning isolates the threads of a cache: for every trace of accesses,
  fills and invalidations of any threads, the trace runs without a failed assertion, and
  what a thread observes (hits, misses and the addresses its fills evict) is exactly
  what it observes when the operations of all other threads are removed from the trace.
\<close>

theorem WPLRU_noninterference:
  assumes "tags_ok WPLRU_vt wp_tid s" and "t < unat (wp_num_tcs s)"
    and "list_all (op_ok wp_tid s) xs"
  shows "\<exists>obs s' obs2 s2'. run_ops WPLRU_vt xs s = Some (obs, s')
     \<and> run_ops WPLRU_vt (filter (\<lambda>x. op_tid x = t) xs) s = Some (obs2, s2')
     \<and> filter (\<lambda>ob. fst ob = t) obs = obs2"
  using wp.purge [OF assms(1) _ assms(3), of t] assms(2) by (simp add: wp_tid_def)

theorem WPLRU_noninterference_witness:
  "\<exists>s obs s' obs2 s2'. WPLRU_ctor (\<lambda>_. 0) raw_wp 2 4 2 1 2 = Inr s
     \<and> run_ops WPLRU_vt sample_trace s = Some (obs, s')
     \<and> run_ops WPLRU_vt (filter (\<lambda>x. op_tid x = 1) sample_trace) s = Some (obs2, s2')
     \<and> filter (\<lambda>ob. fst ob = 1) obs = obs2"
proof -
  obtain s where s: "WPLRU_ctor (\<lambda>_. 0) raw_wp 2 4 2 1 2 = Inr s" "tags_ok WPLRU_vt wp_tid s"
    "list_all (op_ok wp_tid s) sample_trace" "wp_num_tcs s = 2" by (rule small_wp)
  then show ?thesis
    using WPLRU_noninterference [OF s(2) _ s(3), of 1] by auto
qed

text \<open>
  C19: Set partitioning isolates the threads of a cache: what a thread observes of any
  trace of operations is what it observes when the operations of the other threads are
  removed.
\<close>

theorem SPLRU_noninterference:
  assumes "tags_ok SPLRU_vt sp_tid s" and "t < unat (sp_num_tcs s)"
    and "list_all (op_ok sp_tid s) xs"
  shows "\<exists>obs s' obs2 s2'. run_ops SPLRU_vt xs s = Some (obs, s')
     \<and> run_ops SPLRU_vt (filter (\<lambda>x. op_tid x = t) xs) s = Some (obs2, s2')
     \<and> filter (\<lambda>ob. fst ob = t) obs = obs2"
  using sp.purge [OF assms(1) _ assms(3), of t] assms(2) by (simp add: sp_tid_def)

theorem SPLRU_noninterference_witness:
  "\<exists>s obs s' obs2 s2'. SPLRU_ctor (\<lambda>_. 0) raw_sp 4 4 2 1 2 = Some (Inr s)
     \<and> run_ops SPLRU_vt sample_trace s = Some (obs, s')
     \<and> run_ops SPLRU_vt (filter (\<lambda>x. op_tid x = 1) sample_trace) s = Some (obs2, s2')
     \<and> filter (\<lambda>ob. fst ob = 1) obs = obs2"
proof -
  obtain s where s: "SPLRU_ctor (\<lambda>_. 0) raw_sp 4 4 2 1 2 = Some (Inr s)" "tags_ok SPLRU_vt sp_tid s"
    "list_all (op_ok sp_tid s) sample_trace" "sp_num_tcs s = 2" by (rule small_sp)
  then show ?thesis
    using SPLRU_noninterference [OF s(2) _ s(3), of 1] by auto
qed

text \<open>
  C27: A way-partitioned store built with at most as many threads as ways is
  well-formed, the ways of the threads add up to the associativity, every thread has at
  least one, and the shares differ by at most one.
\<close>

theorem WPLRU_ctor_correct:
  assumes "WPLRU_ctor u raw nsets bsize asc hl k = Inr s" and "0 < unat k" and "unat k \<le> unat asc"
  shows "tags_ok WPLRU_vt wp_tid s
    \<and> (\<Sum>t < unat k. assoc_of_tc WPLRU_vt s t) = unat asc
    \<and> (\<forall>t. 0 < assoc_of_tc WPLRU_vt s t)
    \<and> (\<forall>t u. assoc_of_tc WPLRU_vt s t \<le> assoc_of_tc WPLRU_vt s u + 1)"
proof -
  note ok = WPLRU_ctor_ok [OF assms(1,3)]
  have "assoc_of_tc WPLRU_vt s = WPLRU_assoc_of_tc s" by (simp add: WPLRU_vt_def)
  then show ?thesis
    using ok WPLRU_ways_sum [of s] WPLRU_assoc_pos [of s] assms(2,3)
    by (auto simp: WPLRU_assoc_of_tc_def Let_def)
qed

theorem WPLRU_ctor_correct_witness:
  "\<exists>s. WPLRU_ctor (\<lambda>_. 0) raw_wp 2 4 2 1 2 = Inr s
     \<and> (\<Sum>t < unat (2 :: 32 word). assoc_of_tc WPLRU_vt s t) = unat (2 :: 32 word)"
proof -
  obtain s where s: "WPLRU_ctor (\<lambda>_. 0) raw_wp 2 4 2 1 2 = Inr s" by (rule small_wp)
  then show ?thesis using WPLRU_ctor_correct [OF s] by simp
qed

text \<open>
  The set-partitioned constructor fails its assertion exactly when the number of
  sets per thread is not divisible by the number of threads (a configuration whose total
  is divisible can fail); when it succeeds the store is well-formed with the divided
  number of sets.
\<close>

theorem SPLRU_ctor_correct:
  assumes "LRU_ctor u raw (nsets div k) bsize asc hl = Inr s0" and "k \<noteq> 0"
  shows "(SPLRU_ctor u raw nsets bsize asc hl k = None \<longleftrightarrow> (nsets div k) mod k \<noteq> 0)
    \<and> (\<forall>s. SPLRU_ctor u raw nsets bsize asc hl k = Some (Inr s)
         \<longrightarrow> tags_ok SPLRU_vt sp_tid s \<and> numSets s = nsets div k)"
proof -
  have "numSets (SPLRU_init_sets u (s0 \<lparr>sp_num_tcs := k\<rparr>)) = nsets div k"
    using LRU_ctor_Inr(2) [OF assms(1)] by (simp add: SPLRU_init_sets_def split_beta Let_def)
  then have "SPLRU_ctor u raw nsets bsize asc hl k = None \<longleftrightarrow> (nsets div k) mod k \<noteq> 0"
    using assms by (simp add: SPLRU_ctor_def Let_def)
  then show ?thesis using SPLRU_ctor_ok [of u raw nsets bsize asc hl k] by blast
qed

theorem SPLRU_ctor_correct_witness:
  "SPLRU_ctor (\<lambda>_. 0) raw_sp 8 4 2 1 4 = None"
proof -
  have d: "(8 :: 32 word) div 4 = 2" "(2 :: 32 word) mod 4 = 2" by simp_all
  obtain s0 where "LRU_ctor (\<lambda>_. 0) raw_sp 2 4 2 1 = Inr s0" by (rule small_config)
  then show ?thesis
    using SPLRU_ctor_correct [of "\<lambda>_. 0" raw_sp 8 4 4 2 1 s0] d by simp
qed

text \<open>
  C24: A two-label access looks up the partition its read label permits (High readers
  find Low blocks), hits exactly when the tag is in the partition it resolves to, and
  changes only the recency list of that partition.
\<close>

theorem DCLRU_label_flow:
  fixes a :: addr
  assumes "tags_ok DCLRU_vt dc_label s" and "rl < 2" and "wl < 2"
  defines "i \<equiv> extractSet s a" and "tg \<equiv> extractTag s a"
  defines "l \<equiv> if rl = 0 \<or> Some tg \<in> set (view DCLRU_vt s 0 i) then 0 else 1"
  shows "\<exists>r lat s'. DCLRU_accessBlock a rl wl now s = Some (r, lat, s')
     \<and> (r = None \<longleftrightarrow> Some tg \<notin> set (view DCLRU_vt s l i))
     \<and> tags_ok DCLRU_vt dc_label s' \<and> view DCLRU_vt s' l i = v_access tg (view DCLRU_vt s l i)
     \<and> view DCLRU_vt s' (1 - l) i = view DCLRU_vt s (1 - l) i"
proof -
  have "i < unat (numSets s)"
    using assms(1) extractSet_less by (auto simp: tags_ok_def i_def)
  moreover have "dc_label s (1 - l)" "1 - l \<noteq> l" by (auto simp: dc_label_def l_def)
  ultimately show ?thesis
    using dc_access_refines [OF assms(1-3), of a now] unfolding i_def tg_def l_def
    by (auto simp: refines_step_def)
qed

theorem DCLRU_label_flow_witness:
  "\<exists>s r lat s'. DCLRU_ctor (\<lambda>_. 0) raw_tags 2 4 2 1 = Inr s
     \<and> DCLRU_accessBlock 0x40 0 1 3 s = Some (r, lat, s') \<and> tags_ok DCLRU_vt dc_label s'
     \<and> view DCLRU_vt s' 1 (extractSet s 0x40) = view DCLRU_vt s 1 (extractSet s 0x40)"
proof -
  obtain s0 where s0: "LRU_ctor (\<lambda>_. 0) raw_tags 2 4 2 1 = Inr s0" by (rule small_config)
  note c = LRU_ctor_Inr [OF s0]
  define s where "s = DCLRU_init_sets (\<lambda>_. 0) s0"
  have ctor: "DCLRU_ctor (\<lambda>_. 0) raw_tags 2 4 2 1 = Inr s" by (simp add: DCLRU_ctor_def s0 s_def)
  have ok: "tags_ok DCLRU_vt dc_label s"
    unfolding s_def using c by (intro DCLRU_init_sets_ok) simp_all
  from DCLRU_label_flow [OF ok, of 0 1 "0x40" 3] ctor show ?thesis by auto
qed

end
