(* ===== verification/Tags_Dynamic.thy ===== *)
theory Tags_Dynamic
imports Tags_Partition
begin

text \<open>
  The dynamically partitioned tag stores.  \<open>C_DYNALRU\<close>
  (\<open>src/src/mem/cache/tags/c_dynalru.cc\<close>) moves a whole way of every set
  between a Low and a High partition and keeps a shadow tag array with
  stack-position counters (the utility monitor) that is driven by Low accesses
  only.  \<open>F_DYNALRU\<close> (\<open>f_dynalru.cc\<close>) marks unused Low blocks for eviction one
  set at a time and lets High accesses hit in the Low partition without
  touching its recency order.
\<close>

subsection \<open>Coarse-grained store: state\<close>

record C_DYNALRU = LRU +
  L_assoc :: "32 word"
  H_assoc :: "32 word"
  c_assoc :: "32 word"
  H_min :: "32 word"
  umon_set :: "CacheSet list"
  umon_blks :: blk_store
  umon_counters :: "32 word list"

definition reset_umon :: "C_DYNALRU \<Rightarrow> C_DYNALRU" where
  "reset_umon s = s \<lparr>umon_counters := replicate (unat (c_assoc s)) 0\<rparr>"

definition curr_L_assoc :: "C_DYNALRU \<Rightarrow> 32 word" where
  "curr_L_assoc s = L_assoc s"

definition lookup_umon :: "nat \<Rightarrow> C_DYNALRU \<Rightarrow> 32 word option" where
  "lookup_umon index s = at (umon_counters s) index"

definition C_assoc_of_tc :: "C_DYNALRU \<Rightarrow> nat \<Rightarrow> nat" where
  "C_assoc_of_tc s tcid = (if tcid = 0 then unat (L_assoc s) else unat (H_assoc s))"

definition C_vt :: "C_DYNALRU vtable" where
  "C_vt = \<lparr>slot = (\<lambda>setnum label. (label, setnum)), assoc_of_tc = C_assoc_of_tc\<rparr>"

definition C_init_sets :: "(nat \<Rightarrow> byte) \<Rightarrow> C_DYNALRU \<Rightarrow> C_DYNALRU" where
  "C_init_sets u s =
     (let n = unat (numSets s);
          (ss, bl) = link_sets u (blkSize s) 0 (grid 2 n (\<lambda>tc i. (C_assoc_of_tc s tc, i, tc)));
          (us, ub) = link_sets u (blkSize s) 0 (map (\<lambda>i. (unat (c_assoc s), i, 0)) [0..<n])
      in s \<lparr>sets := chunk n 2 ss, blks := bl, numBlocks := unat (numSets s * c_assoc s),
            umon_set := us, umon_blks := map (\<lambda>b. b \<lparr>blk_data := []\<rparr>) ub\<rparr>)"

definition C_ctor :: "(nat \<Rightarrow> byte) \<Rightarrow> C_DYNALRU \<Rightarrow> 32 word \<Rightarrow> 32 word \<Rightarrow> 32 word \<Rightarrow> 32 word \<Rightarrow> 32 word
    \<Rightarrow> 32 word \<Rightarrow> string + C_DYNALRU" where
  "C_ctor u raw nsets bsize asc hl la hmin =
     (case LRU_ctor u raw nsets bsize asc hl of
        Inl e \<Rightarrow> Inl e
      | Inr s \<Rightarrow> Inr (C_init_sets u (reset_umon
          (s \<lparr>L_assoc := la, H_min := hmin, H_assoc := asc - la, c_assoc := asc\<rparr>))))"

subsection \<open>Coarse-grained store: operations\<close>

text \<open>
  The body of the resizing loops for set \<open>i\<close>: the set of the growing partition
  \<open>g\<close> gets its first \<open>ng - 1\<close> blocks and the block at position \<open>nf\<close> of the
  shrinking partition \<open>f\<close>, which keeps its first \<open>nf\<close> blocks.
\<close>

definition move_way :: "nat \<Rightarrow> nat \<Rightarrow> nat \<Rightarrow> nat \<Rightarrow> nat \<Rightarrow> 'a LRU_scheme \<Rightarrow> 'a LRU_scheme option" where
  "move_way g f ng nf i s = do {
     check (in_range s (g, i) \<and> in_range s (f, i) \<and> 0 < ng);
     let cg = set_at s (g, i);
     let cf = set_at s (f, i);
     check (ng - 1 \<le> length (ways cg) \<and> nf \<le> length (ways cf));
     x \<leftarrow> at (ways cf) nf;
     let s = upd_at (g, i) \<lparr>set_assoc = ng, ways = take (ng - 1) (ways cg) @ [x]\<rparr> s;
     Some (upd_at (f, i) \<lparr>set_assoc = nf, ways = take nf (ways cf)\<rparr> s) }"

primrec move_ways :: "nat \<Rightarrow> nat \<Rightarrow> nat \<Rightarrow> nat \<Rightarrow> nat \<Rightarrow> 'a LRU_scheme \<Rightarrow> 'a LRU_scheme option" where
  "move_ways g f ng nf 0 s = Some s"
| "move_ways g f ng nf (Suc i) s = do { s' \<leftarrow> move_ways g f ng nf i s; move_way g f ng nf i s' }"

definition C_inc_size :: "C_DYNALRU \<Rightarrow> (32 word \<times> C_DYNALRU) option" where
  "C_inc_size s =
     (if H_assoc s = H_min s then Some (0, s)
      else do {
        let s = s \<lparr>L_assoc := L_assoc s + 1, H_assoc := H_assoc s - 1\<rparr>;
        s \<leftarrow> move_ways 0 1 (unat (L_assoc s)) (unat (H_assoc s)) (unat (numSets s)) s;
        Some (numSets s, s) })"

definition C_dec_size :: "C_DYNALRU \<Rightarrow> (32 word \<times> C_DYNALRU) option" where
  "C_dec_size s =
     (if L_assoc s = 1 then Some (0, s)
      else do {
        let s = s \<lparr>L_assoc := L_assoc s - 1, H_assoc := H_assoc s + 1\<rparr>;
        s \<leftarrow> move_ways 1 0 (unat (H_assoc s)) (unat (L_assoc s)) (unat (numSets s)) s;
        Some (numSets s, s) })"

definition C_get_evictBlk :: "nat \<Rightarrow> nat \<Rightarrow> C_DYNALRU \<Rightarrow> nat option" where
  "C_get_evictBlk tcid index s =
     (let l = (if tcid = 0 then 0 else 1); n = (if tcid = 0 then unat (L_assoc s) else unat (H_assoc s))
      in do { check (in_range s (l, index) \<and> 0 < n); at (ways (set_at s (l, index))) (n - 1) })"

text \<open>The utility monitor's part of an access.\<close>

definition umon_access :: "nat \<Rightarrow> addr \<Rightarrow> C_DYNALRU \<Rightarrow> C_DYNALRU option" where
  "umon_access setnum t s = do {
     c \<leftarrow> at (umon_set s) setnum;
     umon_blk \<leftarrow> findBlk (umon_blks s) c t;
     index \<leftarrow> findBlkIndex (umon_blks s) c t;
     case umon_blk of
       Some p \<Rightarrow> do {
         n \<leftarrow> at (umon_counters s) index;
         c' \<leftarrow> moveToHead p c;
         Some (s \<lparr>umon_counters := (umon_counters s)[index := n + 1],
                  umon_set := (umon_set s)[setnum := c']\<rparr>) }
     | None \<Rightarrow> do {
         check (0 < unat (c_assoc s));
         p \<leftarrow> at (ways c) (unat (c_assoc s) - 1);
         b \<leftarrow> at (umon_blks s) p;
         c' \<leftarrow> moveToHead p c;
         Some (s \<lparr>umon_blks := (umon_blks s)[p := b \<lparr>tag := t, status := BlkValid OR BlkReadable\<rparr>],
                  umon_set := (umon_set s)[setnum := c']\<rparr>) } }"

definition C_accessBlock :: "addr \<Rightarrow> nat \<Rightarrow> tick \<Rightarrow> C_DYNALRU
    \<Rightarrow> (nat option \<times> 32 word \<times> C_DYNALRU) option" where
  "C_accessBlock a tid now s = do {
     (blk, lat, s') \<leftarrow> accessBlock C_vt a tid now s;
     s'' \<leftarrow> (if tid = 0 then umon_access (extractSet s a) (extractTag s a) s' else Some s');
     Some (blk, lat, s'') }"

definition C_invalidateBlk :: "nat option \<Rightarrow> nat \<Rightarrow> C_DYNALRU \<Rightarrow> C_DYNALRU option" where
  "C_invalidateBlk blk tid s = do {
     s \<leftarrow> invalidateBlk C_vt blk tid s;
     p \<leftarrow> blk;
     b \<leftarrow> at (blks s) p;
     check (0 \<le> blk_set b);
     c \<leftarrow> at (umon_set s) (nat (blk_set b));
     umon_blk \<leftarrow> findBlk (umon_blks s) c (tag b);
     case umon_blk of
       None \<Rightarrow> Some s
     | Some q \<Rightarrow> do {
         ub \<leftarrow> at (umon_blks s) q;
         c' \<leftarrow> (if isValid ub then moveToTail q c else Some c);
         Some (s \<lparr>umon_set := (umon_set s)[nat (blk_set b) := c'],
                  umon_blks := (umon_blks s)[q := ub \<lparr>status := 0\<rparr>],
                  blks := (blks s)[p := b \<lparr>isTouched := False\<rparr>]\<rparr>) } }"

subsection \<open>Fine-grained store\<close>

record F_DYNALRU = LRU +
  f_L_assoc :: "32 word"
  f_H_assoc :: "32 word"

definition F_assoc_of_tc :: "F_DYNALRU \<Rightarrow> nat \<Rightarrow> nat" where
  "F_assoc_of_tc s tcid = (if tcid = 0 then unat (f_L_assoc s) else unat (f_H_assoc s))"

definition F_vt :: "F_DYNALRU vtable" where
  "F_vt = \<lparr>slot = (\<lambda>setnum label. (label, setnum)), assoc_of_tc = F_assoc_of_tc\<rparr>"

definition F_init_sets :: "(nat \<Rightarrow> byte) \<Rightarrow> F_DYNALRU \<Rightarrow> F_DYNALRU" where
  "F_init_sets u s =
     (let n = unat (numSets s);
          (ss, bl) = link_sets u (blkSize s) 0 (grid 2 n (\<lambda>tc i. (F_assoc_of_tc s tc, i, tc)))
      in s \<lparr>sets := chunk n 2 ss, blks := bl, numBlocks := unat (numSets s * assoc s)\<rparr>)"

definition F_ctor :: "(nat \<Rightarrow> byte) \<Rightarrow> F_DYNALRU \<Rightarrow> 32 word \<Rightarrow> 32 word \<Rightarrow> 32 word \<Rightarrow> 32 word
    \<Rightarrow> string + F_DYNALRU" where
  "F_ctor u raw nsets bsize asc hl =
     (case LRU_ctor u raw nsets bsize asc hl of
        Inl e \<Rightarrow> Inl e
      | Inr s \<Rightarrow> Inr (F_init_sets u (s \<lparr>f_L_assoc := asc - 1, f_H_assoc := 1\<rparr>)))"

text \<open>
  \<open>dec_size\<close>: in each set the scan runs from the least recently used Low block
  and marks the first valid, unused block of thread 0 with thread number 1000.
\<close>

definition evict_cand :: "CacheBlk \<Rightarrow> bool" where
  "evict_cand b = (blk_threadID b = 0 \<and> \<not> isTouched b \<and> isValid b)"

fun mark_scan :: "nat list \<Rightarrow> nat \<Rightarrow> blk_store \<Rightarrow> blk_store option" where
  "mark_scan ws 0 h = Some h"
| "mark_scan ws (Suc j) h = do {
     p \<leftarrow> at ws j;
     b \<leftarrow> at h p;
     if evict_cand b then Some (h[p := b \<lparr>blk_threadID := 1000\<rparr>]) else mark_scan ws j h }"

primrec F_mark_sets :: "nat \<Rightarrow> F_DYNALRU \<Rightarrow> F_DYNALRU option" where
  "F_mark_sets 0 s = Some s"
| "F_mark_sets (Suc i) s = do {
     s \<leftarrow> F_mark_sets i s;
     c \<leftarrow> get_set F_vt s i 0;
     h \<leftarrow> mark_scan (ways c) (unat (f_L_assoc s)) (blks s);
     Some (s \<lparr>blks := h\<rparr>) }"

definition F_dec_size :: "F_DYNALRU \<Rightarrow> (32 word \<times> F_DYNALRU) option" where
  "F_dec_size s = do { s' \<leftarrow> F_mark_sets (unat (numSets s)) s; Some (numSets s, s') }"

function evict_scan :: "nat list \<Rightarrow> nat \<Rightarrow> blk_store \<Rightarrow> nat \<Rightarrow> (nat option \<times> blk_store) option" where
  "evict_scan ws n h i =
     (if i < n then do {
        p \<leftarrow> at ws i;
        b \<leftarrow> at h p;
        if blk_threadID b = 1000 then Some (Some p, h[p := b \<lparr>blk_threadID := 0\<rparr>])
        else evict_scan ws n h (Suc i) }
      else Some (None, h))"
  by pat_completeness auto
termination by (relation "measure (\<lambda>(ws, n, h, i). n - i)") auto

declare evict_scan.simps [simp del]

definition F_get_evictBlk :: "nat \<Rightarrow> nat \<Rightarrow> F_DYNALRU \<Rightarrow> (nat option \<times> F_DYNALRU) option" where
  "F_get_evictBlk tcid index s = do {
     c \<leftarrow> get_set F_vt s index 0;
     (r, h) \<leftarrow> evict_scan (ways c) (unat (f_L_assoc s)) (blks s) 0;
     Some (r, s \<lparr>blks := h\<rparr>) }"

definition F_findBlock :: "addr \<Rightarrow> nat \<Rightarrow> F_DYNALRU \<Rightarrow> nat option option" where
  "F_findBlock a tid s = do {
     let t = extractTag s a;
     let setnum = extractSet s a;
     if tid = 0 then do { c \<leftarrow> get_set F_vt s setnum 0; findBlk (blks s) c t }
     else do {
       c \<leftarrow> get_set F_vt s setnum 1;
       blk \<leftarrow> findBlk (blks s) c t;
       case blk of Some p \<Rightarrow> Some (Some p)
       | None \<Rightarrow> do { c \<leftarrow> get_set F_vt s setnum 0; findBlk (blks s) c t } } }"

definition F_accessBlock :: "addr \<Rightarrow> nat \<Rightarrow> tick \<Rightarrow> F_DYNALRU
    \<Rightarrow> (nat option \<times> 32 word \<times> F_DYNALRU) option" where
  "F_accessBlock a tid now s = do {
     let t = extractTag s a;
     let setnum = extractSet s a;
     (blk, inLow) \<leftarrow>
       (if tid = 0 then do {
          c \<leftarrow> get_set F_vt s setnum 0; r \<leftarrow> findBlk (blks s) c t; Some (r, False) }
        else do {
          c \<leftarrow> get_set F_vt s setnum 1;
          r \<leftarrow> findBlk (blks s) c t;
          case r of Some p \<Rightarrow> Some (Some p, False)
          | None \<Rightarrow> do { c \<leftarrow> get_set F_vt s setnum 0; r \<leftarrow> findBlk (blks s) c t; Some (r, True) } });
     case blk of
       None \<Rightarrow> Some (None, hitLatency s, s)
     | Some p \<Rightarrow> do {
         s \<leftarrow> (if \<not> inLow then do {
                 c \<leftarrow> get_set F_vt s setnum tid;
                 c' \<leftarrow> moveToHead p c;
                 Some (upd_at (slot F_vt setnum tid) c' s) }
               else Some s);
         b \<leftarrow> at (blks s) p;
         Some (Some p, lat_of s b now,
           s \<lparr>blks := (blks s)[p := b \<lparr>refCount := refCount b + 1, isTouched := True\<rparr>]\<rparr>) } }"

text \<open>
  \<open>findVictim\<close>: the downward scan has an unsigned index, so without an invalid
  block it leaves the array; a block it finds is overwritten afterwards.
\<close>

fun has_invalid :: "nat list \<Rightarrow> nat \<Rightarrow> blk_store \<Rightarrow> unit option" where
  "has_invalid ws 0 h = None"
| "has_invalid ws (Suc i) h = do {
     p \<leftarrow> at ws i;
     b \<leftarrow> at h p;
     if \<not> isValid b then Some () else has_invalid ws i h }"

definition F_findVictim :: "addr \<Rightarrow> nat \<Rightarrow> F_DYNALRU \<Rightarrow> nat option" where
  "F_findVictim a tid s = do {
     let setnum = extractSet s a;
     if tid = 0 then do {
       c \<leftarrow> get_set F_vt s setnum 0;
       check (0 < F_assoc_of_tc s tid);
       at (ways c) (F_assoc_of_tc s tid - 1) }
     else do {
       c \<leftarrow> get_set F_vt s setnum 1;
       has_invalid (ways c) (unat (f_H_assoc s)) (blks s);
       check (0 < F_assoc_of_tc s tid);
       at (ways c) (F_assoc_of_tc s tid - 1) } }"

definition F_insertBlock :: "addr \<Rightarrow> nat \<Rightarrow> nat \<Rightarrow> nat \<Rightarrow> tick \<Rightarrow> F_DYNALRU \<Rightarrow> F_DYNALRU option" where
  "F_insertBlock a p master tid now s = do {
     b \<leftarrow> at (blks s) p;
     let s = touch_stats b now s;
     s \<leftarrow> evict_stats b s;
     check (master < length (occupancies s));
     let s = s \<lparr>occupancies := (occupancies s)[master := occupancies s ! master + 1],
       blks := (blks s)[p := b \<lparr>isTouched := True,
          refCount := (if isValid b then 0 else refCount b),
          tag := extractTag s a, blk_threadID := tid, srcMasterId := master\<rparr>]\<rparr>;
     let setnum = extractSet s a;
     c \<leftarrow> get_set F_vt s setnum tid;
     tempBlock \<leftarrow> findBlk (blks s) c (extractTag s a);
     if tempBlock \<noteq> None then do { c' \<leftarrow> moveToHead p c; Some (upd_at (slot F_vt setnum tid) c' s) }
     else Some s }"

definition F_invalidateBlk :: "nat option \<Rightarrow> nat \<Rightarrow> F_DYNALRU \<Rightarrow> F_DYNALRU option" where
  "F_invalidateBlk blk tid s = (case blk of None \<Rightarrow> Some s | Some p \<Rightarrow> do {
     b \<leftarrow> at (blks s) p;
     s \<leftarrow> (if isValid b then do {
            check (srcMasterId b < length (occupancies s));
            check (0 \<le> blk_set b);
            let s = s \<lparr>tagsInUse := tagsInUse s - 1,
              occupancies := (occupancies s)[srcMasterId b := occupancies s ! srcMasterId b - 1]\<rparr>;
            let setnum = nat (blk_set b);
            c \<leftarrow> get_set F_vt s setnum tid;
            tempBlock \<leftarrow> findBlk (blks s) c (tag b);
            if tempBlock \<noteq> None
            then do { c' \<leftarrow> moveToTail p c; Some (upd_at (slot F_vt setnum tid) c' s) }
            else Some s }
          else Some s);
     Some (s \<lparr>blks := (blks s)[p := clearLoadLocks (b
       \<lparr>srcMasterId := (if isValid b then unat invldMasterId else srcMasterId b),
        status := 0, isTouched := False\<rparr>)]\<rparr>) })"

subsection \<open>Layouts\<close>

definition c_label :: "C_DYNALRU \<Rightarrow> nat \<Rightarrow> bool" where
  "c_label s l = (l < 2)"

definition f_label :: "F_DYNALRU \<Rightarrow> nat \<Rightarrow> bool" where
  "f_label s l = (l < 2)"

lemma c_more: "LRU.more s' = LRU.more (s :: C_DYNALRU) \<Longrightarrow> L_assoc s' = L_assoc s \<and> H_assoc s' = H_assoc s"
  by (cases s; cases s') simp

lemma f_more: "LRU.more s' = LRU.more (s :: F_DYNALRU) \<Longrightarrow> f_L_assoc s' = f_L_assoc s \<and> f_H_assoc s' = f_H_assoc s"
  by (cases s; cases s') simp

interpretation cdyn: tag_layout C_vt c_label id
  by unfold_locales (auto simp: C_vt_def c_label_def C_assoc_of_tc_def dest!: c_more)

interpretation fdyn: tag_layout F_vt f_label id
  by unfold_locales (auto simp: F_vt_def f_label_def F_assoc_of_tc_def dest!: f_more)

subsection \<open>Resizing\<close>

text \<open>
  The invariant of the coarse-grained store: the two partitions share the ways,
  neither is empty, and no block is in two places.
\<close>

definition way_of :: "'a LRU_scheme \<Rightarrow> nat \<Rightarrow> nat \<Rightarrow> nat list" where
  "way_of s r i = ways (set_at s (r, i))"

definition cdyn_inv :: "C_DYNALRU \<Rightarrow> bool" where
  "cdyn_inv s \<longleftrightarrow> 0 < unat (L_assoc s) \<and> 0 < unat (H_min s) \<and> unat (H_min s) \<le> unat (H_assoc s)
     \<and> unat (L_assoc s) + unat (H_assoc s) = unat (c_assoc s)
     \<and> length (sets s) = 2 \<and> (\<forall>r < 2. length (sets s ! r) = unat (numSets s))
     \<and> (\<forall>i < unat (numSets s).
          set_at s (0, i) = \<lparr>set_assoc = unat (L_assoc s), ways = way_of s 0 i\<rparr>
        \<and> set_at s (1, i) = \<lparr>set_assoc = unat (H_assoc s), ways = way_of s 1 i\<rparr>
        \<and> length (way_of s 0 i) = unat (L_assoc s) \<and> length (way_of s 1 i) = unat (H_assoc s)
        \<and> distinct (way_of s 0 i @ way_of s 1 i)
        \<and> set (way_of s 0 i @ way_of s 1 i) \<subseteq> {..<length (blks s)})
     \<and> (\<forall>i < unat (numSets s). \<forall>j < unat (numSets s). i \<noteq> j
          \<longrightarrow> set (way_of s 0 i @ way_of s 1 i) \<inter> set (way_of s 0 j @ way_of s 1 j) = {})"

lemma sets_eqI:
  assumes "length (sets s) = length (sets s')"
    and "\<And>r. r < length (sets s) \<Longrightarrow> length (sets s ! r) = length (sets s' ! r)"
    and "\<And>r i. r < length (sets s) \<Longrightarrow> i < length (sets s ! r) \<Longrightarrow> set_at s (r, i) = set_at s' (r, i)"
  shows "sets s = sets s'"
  using assms by (intro nth_equalityI) (auto simp: set_at_def intro!: nth_equalityI)

lemma upd_at_length: "length (sets (upd_at l c s)) = length (sets s)"
  by (simp add: upd_at_def)

lemma upd_at_row: "length (sets (upd_at l c s) ! r) = length (sets s ! r)"
proof (cases "r = fst l \<and> r < length (sets s)")
  case True
  then show ?thesis by (simp add: upd_at_def)
next
  case False
  then show ?thesis by (cases "r = fst l") (simp_all add: upd_at_def list_update_beyond not_less)
qed

lemmas upd_at_lengths = upd_at_length upd_at_row

lemma move_way_eq:
  assumes "in_range s (g, i)" "in_range s (f, i)" "g \<noteq> f"
    and "length (way_of s g i) = k" "length (way_of s f i) = Suc nf"
  shows "move_way g f (Suc k) nf i s = Some (s \<lparr>sets := sets (upd_at (f, i) \<lparr>set_assoc = nf, ways = butlast (way_of s f i)\<rparr>
      (upd_at (g, i) \<lparr>set_assoc = Suc k, ways = way_of s g i @ [last (way_of s f i)]\<rparr> s))\<rparr>)"
proof -
  have "way_of s f i \<noteq> []" using assms(5) by auto
  then have "last (way_of s f i) = way_of s f i ! nf" "butlast (way_of s f i) = take nf (way_of s f i)"
    using assms(5) by (simp_all add: last_conv_nth butlast_conv_take)
  then show ?thesis
    using assms by (simp add: move_way_def way_of_def upd_at_def Let_def)
qed

lemma move_ways_eq:
  assumes "g \<noteq> f" "\<And>i. i < m \<Longrightarrow> in_range s (g, i) \<and> in_range s (f, i)
      \<and> length (way_of s g i) = k \<and> length (way_of s f i) = Suc nf"
  shows "\<exists>ss. move_ways g f (Suc k) nf m s = Some (s \<lparr>sets := ss\<rparr>)
     \<and> length ss = length (sets s) \<and> (\<forall>r. length (ss ! r) = length (sets s ! r))
     \<and> (\<forall>i < m. set_at (s \<lparr>sets := ss\<rparr>) (g, i) = \<lparr>set_assoc = Suc k, ways = way_of s g i @ [last (way_of s f i)]\<rparr>
           \<and> set_at (s \<lparr>sets := ss\<rparr>) (f, i) = \<lparr>set_assoc = nf, ways = butlast (way_of s f i)\<rparr>)
     \<and> (\<forall>i r. m \<le> i \<longrightarrow> set_at (s \<lparr>sets := ss\<rparr>) (r, i) = set_at s (r, i))"
  using assms(2)
proof (induction m)
  case 0
  show ?case by (rule exI [of _ "sets s"]) (simp add: set_at_def)
next
  case (Suc m)
  then obtain ss where ss: "move_ways g f (Suc k) nf m s = Some (s \<lparr>sets := ss\<rparr>)"
      "length ss = length (sets s)" "\<And>r. length (ss ! r) = length (sets s ! r)"
      "\<And>i. i < m \<Longrightarrow> set_at (s \<lparr>sets := ss\<rparr>) (g, i) = \<lparr>set_assoc = Suc k, ways = way_of s g i @ [last (way_of s f i)]\<rparr>"
      "\<And>i. i < m \<Longrightarrow> set_at (s \<lparr>sets := ss\<rparr>) (f, i) = \<lparr>set_assoc = nf, ways = butlast (way_of s f i)\<rparr>"
      "\<And>i r. m \<le> i \<Longrightarrow> set_at (s \<lparr>sets := ss\<rparr>) (r, i) = set_at s (r, i)"
    by (metis (no_types, lifting) less_SucI)
  let ?s = "s \<lparr>sets := ss\<rparr>"
  have rng: "in_range ?s (r, i) = in_range s (r, i)" for r i
    using ss(2,3) by (simp add: in_range_def)
  have wm: "way_of ?s r m = way_of s r m" for r using ss(6) [of m] by (simp add: way_of_def)
  have pre: "in_range ?s (g, m)" "in_range ?s (f, m)"
    "length (way_of ?s g m) = k" "length (way_of ?s f m) = Suc nf"
    using Suc.prems [of m] by (simp_all add: wm rng)
  let ?t1 = "upd_at (g, m) \<lparr>set_assoc = Suc k, ways = way_of s g m @ [last (way_of s f m)]\<rparr> ?s"
  let ?t = "upd_at (f, m) \<lparr>set_assoc = nf, ways = butlast (way_of s f m)\<rparr> ?t1"
  have "move_way g f (Suc k) nf m ?s = Some (s \<lparr>sets := sets ?t\<rparr>)"
    using move_way_eq [OF pre(1,2) assms(1) pre(3,4)] by (simp add: wm)
  moreover have st: "set_at (s \<lparr>sets := sets ?t\<rparr>) l = set_at ?t l" for l
    by (simp add: set_at_def)
  moreover have "set_at ?t (g, m) = \<lparr>set_assoc = Suc k, ways = way_of s g m @ [last (way_of s f m)]\<rparr>"
    "set_at ?t (f, m) = \<lparr>set_assoc = nf, ways = butlast (way_of s f m)\<rparr>"
    "\<And>r i. i \<noteq> m \<Longrightarrow> set_at ?t (r, i) = set_at ?s (r, i)"
    using pre(1,2) assms(1) by simp_all
  moreover have "length (sets ?t) = length (sets s)" using ss(2) by (simp only: upd_at_lengths) simp
  moreover have "length (sets ?t ! r) = length (sets s ! r)" for r
    using ss(3) by (simp only: upd_at_lengths) simp
  ultimately show ?case
    using ss(1,4,5,6) by (intro exI [of _ "sets ?t"]) (auto simp: less_Suc_eq)
qed

lemma unat_plus1: "unat (x :: 32 word) < unat (y :: 32 word) \<Longrightarrow> unat (x + 1) = Suc (unat x)"
  using unat_lt_32 [of y] unat_add_lem [of x 1] by simp

lemma unat_minus1: "0 < unat (x :: 32 word) \<Longrightarrow> unat (x - 1) = unat x - 1"
  by (rule unat_minus_one) auto

text \<open>One resize step, stated for both directions.\<close>

lemma resize_eq:
  assumes inv: "cdyn_inv s" and gf: "(g = 0 \<and> f = 1) \<or> (g = 1 \<and> f = (0 :: nat))"
    and k: "\<And>i. i < unat (numSets s) \<Longrightarrow> length (way_of s g i) = k \<and> length (way_of s f i) = Suc nf"
  obtains ss where "\<And>x y. move_ways g f (Suc k) nf (unat (numSets s)) (s \<lparr>L_assoc := x, H_assoc := y\<rparr>)
        = Some (s \<lparr>L_assoc := x, H_assoc := y, sets := ss\<rparr>)"
    "length ss = 2" "\<And>r. r < 2 \<Longrightarrow> length (ss ! r) = unat (numSets s)"
    "\<And>i. i < unat (numSets s) \<Longrightarrow> ss ! g ! i = \<lparr>set_assoc = Suc k, ways = way_of s g i @ [last (way_of s f i)]\<rparr>"
    "\<And>i. i < unat (numSets s) \<Longrightarrow> ss ! f ! i = \<lparr>set_assoc = nf, ways = butlast (way_of s f i)\<rparr>"
proof -
  have rng: "in_range s (g, i) \<and> in_range s (f, i)" if "i < unat (numSets s)" for i
    using inv gf that by (auto simp: cdyn_inv_def in_range_def)
  have "g \<noteq> f" using gf by auto
  from move_ways_eq [OF this, of "unat (numSets s)" s k nf] rng k obtain ss where
    ss: "move_ways g f (Suc k) nf (unat (numSets s)) s = Some (s \<lparr>sets := ss\<rparr>)"
      "length ss = length (sets s)" "\<forall>r. length (ss ! r) = length (sets s ! r)"
      "\<forall>i < unat (numSets s). ss ! g ! i = \<lparr>set_assoc = Suc k, ways = way_of s g i @ [last (way_of s f i)]\<rparr>
         \<and> ss ! f ! i = \<lparr>set_assoc = nf, ways = butlast (way_of s f i)\<rparr>"
    by (auto simp: set_at_def)
  have cong1: "move_way g f (Suc k) nf i (t \<lparr>L_assoc := x, H_assoc := y\<rparr>)
      = map_option (\<lambda>t. t \<lparr>L_assoc := x, H_assoc := y\<rparr>) (move_way g f (Suc k) nf i t)" for i x y and t :: C_DYNALRU
    by (auto simp: move_way_def in_range_def set_at_def upd_at_def Let_def at_def)
  have cong: "move_ways g f (Suc k) nf n (s \<lparr>L_assoc := x, H_assoc := y\<rparr>)
      = map_option (\<lambda>t. t \<lparr>L_assoc := x, H_assoc := y\<rparr>) (move_ways g f (Suc k) nf n s)" for n x y
    by (induction n) (auto simp: cong1 bind_map_option map_option_bind comp_def)
  show thesis
    by (rule that [of ss]) (use ss inv cong in \<open>auto simp: cdyn_inv_def\<close>)
qed

lemma butlast_props:
  assumes "distinct (w0 @ w1)" "set (w0 @ w1) \<subseteq> {..<n}" "w1 \<noteq> []"
  shows "distinct ((w0 @ [last w1]) @ butlast w1)" "set ((w0 @ [last w1]) @ butlast w1) = set (w0 @ w1)"
proof -
  obtain ws w where w: "w1 = ws @ [w]" using assms(3) by (metis rev_exhaust)
  show "distinct ((w0 @ [last w1]) @ butlast w1)" "set ((w0 @ [last w1]) @ butlast w1) = set (w0 @ w1)"
    using assms(1) by (auto simp: w)
qed

lemma C_inc_size_eq:
  assumes inv: "cdyn_inv s" and grow: "H_assoc s \<noteq> H_min s"
  shows "\<exists>s'. C_inc_size s = Some (numSets s, s') \<and> cdyn_inv s'
    \<and> L_assoc s' = L_assoc s + 1 \<and> H_assoc s' = H_assoc s - 1
    \<and> s' = s \<lparr>L_assoc := L_assoc s', H_assoc := H_assoc s', sets := sets s'\<rparr>
    \<and> (\<forall>i < unat (numSets s). way_of s' 0 i = way_of s 0 i @ [last (way_of s 1 i)] \<and> way_of s' 1 i = butlast (way_of s 1 i))"
proof -
  let ?n = "unat (numSets s)"
  have H: "unat (H_min s) < unat (H_assoc s)"
    using inv grow by (auto simp: cdyn_inv_def word_unat_eq_iff order_le_less)
  have L1: "unat (L_assoc s + 1) = Suc (unat (L_assoc s))"
    using inv H by (intro unat_plus1 [of _ "c_assoc s"]) (auto simp: cdyn_inv_def)
  have H1: "unat (H_assoc s - 1) = unat (H_assoc s) - 1" using H by (intro unat_minus1) simp
  have len: "length (way_of s 0 i) = unat (L_assoc s) \<and> length (way_of s 1 i) = Suc (unat (H_assoc s) - 1)" if "i < ?n" for i
    using inv that H by (auto simp: cdyn_inv_def)
  obtain ss where ss: "\<And>x y. move_ways 0 1 (Suc (unat (L_assoc s))) (unat (H_assoc s) - 1) ?n (s \<lparr>L_assoc := x, H_assoc := y\<rparr>)
        = Some (s \<lparr>L_assoc := x, H_assoc := y, sets := ss\<rparr>)"
    "length ss = 2" "\<And>r. r < 2 \<Longrightarrow> length (ss ! r) = ?n"
    "\<And>i. i < ?n \<Longrightarrow> ss ! 0 ! i = \<lparr>set_assoc = Suc (unat (L_assoc s)), ways = way_of s 0 i @ [last (way_of s 1 i)]\<rparr>"
    "\<And>i. i < ?n \<Longrightarrow> ss ! 1 ! i = \<lparr>set_assoc = unat (H_assoc s) - 1, ways = butlast (way_of s 1 i)\<rparr>"
    using resize_eq [OF inv, of 0 1 "unat (L_assoc s)" "unat (H_assoc s) - 1"] len by blast
  let ?s' = "s \<lparr>L_assoc := L_assoc s + 1, H_assoc := H_assoc s - 1, sets := ss\<rparr>"
  have w: "way_of ?s' 0 i = way_of s 0 i @ [last (way_of s 1 i)] \<and> way_of ?s' 1 i = butlast (way_of s 1 i)" if "i < ?n" for i
    using ss(4,5) [OF that] by (simp add: way_of_def set_at_def)
  have old: "distinct (way_of s 0 i @ way_of s 1 i)" "set (way_of s 0 i @ way_of s 1 i) \<subseteq> {..<length (blks s)}"
    "way_of s 1 i \<noteq> []" if "i < ?n" for i
    using inv that len [OF that] by (auto simp: cdyn_inv_def)
  have new: "distinct (way_of ?s' 0 i @ way_of ?s' 1 i)"
    "set (way_of ?s' 0 i @ way_of ?s' 1 i) = set (way_of s 0 i @ way_of s 1 i)" if "i < ?n" for i
    using butlast_props [OF old [OF that]] w [OF that] by simp_all
  have "cdyn_inv ?s'"
    unfolding cdyn_inv_def
    using inv H L1 H1 ss(2-5) w len old new by (auto simp: cdyn_inv_def set_at_def)
  moreover have "C_inc_size s = Some (numSets s, ?s')"
    using grow ss(1) [where x = "L_assoc s + 1" and y = "H_assoc s - 1"] L1 H1 by (simp add: C_inc_size_def Let_def)
  ultimately show ?thesis using w by (intro exI [of _ ?s']) simp
qed

lemma C_dec_size_eq:
  assumes inv: "cdyn_inv s" and grow: "L_assoc s \<noteq> 1"
  shows "\<exists>s'. C_dec_size s = Some (numSets s, s') \<and> cdyn_inv s'
    \<and> L_assoc s' = L_assoc s - 1 \<and> H_assoc s' = H_assoc s + 1
    \<and> s' = s \<lparr>L_assoc := L_assoc s', H_assoc := H_assoc s', sets := sets s'\<rparr>
    \<and> (\<forall>i < unat (numSets s). way_of s' 1 i = way_of s 1 i @ [last (way_of s 0 i)] \<and> way_of s' 0 i = butlast (way_of s 0 i))"
proof -
  let ?n = "unat (numSets s)"
  have L: "1 < unat (L_assoc s)"
    using inv grow by (auto simp: cdyn_inv_def word_unat_eq_iff order_le_less Suc_lessI)
  have H1: "unat (H_assoc s + 1) = Suc (unat (H_assoc s))"
    using inv L by (intro unat_plus1 [of _ "c_assoc s"]) (auto simp: cdyn_inv_def)
  have L1: "unat (L_assoc s - 1) = unat (L_assoc s) - 1" using L by (intro unat_minus1) simp
  have len: "length (way_of s 1 i) = unat (H_assoc s) \<and> length (way_of s 0 i) = Suc (unat (L_assoc s) - 1)" if "i < ?n" for i
    using inv that L by (auto simp: cdyn_inv_def)
  obtain ss where ss: "\<And>x y. move_ways 1 0 (Suc (unat (H_assoc s))) (unat (L_assoc s) - 1) ?n (s \<lparr>L_assoc := x, H_assoc := y\<rparr>)
        = Some (s \<lparr>L_assoc := x, H_assoc := y, sets := ss\<rparr>)"
    "length ss = 2" "\<And>r. r < 2 \<Longrightarrow> length (ss ! r) = ?n"
    "\<And>i. i < ?n \<Longrightarrow> ss ! 1 ! i = \<lparr>set_assoc = Suc (unat (H_assoc s)), ways = way_of s 1 i @ [last (way_of s 0 i)]\<rparr>"
    "\<And>i. i < ?n \<Longrightarrow> ss ! 0 ! i = \<lparr>set_assoc = unat (L_assoc s) - 1, ways = butlast (way_of s 0 i)\<rparr>"
    using resize_eq [OF inv, of 1 0 "unat (H_assoc s)" "unat (L_assoc s) - 1"] len by blast
  let ?s' = "s \<lparr>L_assoc := L_assoc s - 1, H_assoc := H_assoc s + 1, sets := ss\<rparr>"
  have w: "way_of ?s' 1 i = way_of s 1 i @ [last (way_of s 0 i)] \<and> way_of ?s' 0 i = butlast (way_of s 0 i)" if "i < ?n" for i
    using ss(4,5) [OF that] by (simp add: way_of_def set_at_def)
  have old: "distinct (way_of s 1 i @ way_of s 0 i)" "set (way_of s 1 i @ way_of s 0 i) \<subseteq> {..<length (blks s)}"
    "way_of s 0 i \<noteq> []" if "i < ?n" for i
    using inv that len [OF that] by (auto simp: cdyn_inv_def)
  have new: "distinct (way_of ?s' 0 i @ way_of ?s' 1 i)"
    "set (way_of ?s' 0 i @ way_of ?s' 1 i) = set (way_of s 0 i @ way_of s 1 i)" if "i < ?n" for i
    using butlast_props [OF old [OF that]] w [OF that] by auto
  have "cdyn_inv ?s'"
    unfolding cdyn_inv_def
    using inv L L1 H1 ss(2-5) w len old new by (auto simp: cdyn_inv_def set_at_def)
  moreover have "C_dec_size s = Some (numSets s, ?s')"
    using grow ss(1) [where x = "L_assoc s - 1" and y = "H_assoc s + 1"] L1 H1 by (simp add: C_dec_size_def Let_def)
  ultimately show ?thesis using w by (intro exI [of _ ?s']) simp
qed

subsection \<open>Fresh stores\<close>

lemma C_init_fields:
  assumes "C_ctor u raw nsets bsize asc hl la hmin = Inr s"
  obtains s0 where "s = C_init_sets u s0" "geometry_ok s0" "length (missCounter s0) = unat (numSets s0)"
    "L_assoc s0 = la" "H_assoc s0 = asc - la" "H_min s0 = hmin" "c_assoc s0 = asc" "numSets s0 = nsets"
    "umon_counters s0 = replicate (unat asc) 0" "occupancies s0 = occupancies raw"
proof -
  from assms obtain s1 where s1: "LRU_ctor u raw nsets bsize asc hl = Inr s1"
    and s: "s = C_init_sets u (reset_umon (s1 \<lparr>L_assoc := la, H_min := hmin, H_assoc := asc - la, c_assoc := asc\<rparr>))"
    by (auto simp: C_ctor_def split: sum.splits)
  show thesis
    by (rule that [OF s]) (use LRU_ctor_Inr [OF s1] in \<open>simp_all add: reset_umon_def geometry_ok_def\<close>)
qed

lemma C_init_ok:
  assumes geo: "geometry_ok s" "length (missCounter s) = unat (numSets s)"
    and pos: "0 < unat (L_assoc s)" "0 < unat (H_assoc s)"
  shows "tags_ok C_vt c_label (C_init_sets u s)"
    and "0 < unat (H_min s) \<Longrightarrow> unat (H_min s) \<le> unat (H_assoc s) \<Longrightarrow>
      unat (L_assoc s) + unat (H_assoc s) = unat (c_assoc s) \<Longrightarrow> cdyn_inv (C_init_sets u s)"
proof -
  let ?n = "unat (numSets s)"
  let ?f = "\<lambda>tc i. (C_assoc_of_tc s tc, i, tc)"
  obtain ss bl where l: "link_sets u (blkSize s) 0 (grid 2 ?n ?f) = (ss, bl)" by fastforce
  note rm = row_major [OF l]
  let ?s' = "C_init_sets u s"
  have s': "sets ?s' = chunk ?n 2 ss" "blks ?s' = bl" "numSets ?s' = numSets s" "L_assoc ?s' = L_assoc s"
    "H_assoc ?s' = H_assoc s" "H_min ?s' = H_min s" "c_assoc ?s' = c_assoc s" "missCounter ?s' = missCounter s"
    "geometry_ok ?s' = geometry_ok s"
    by (simp_all add: C_init_sets_def l split_beta Let_def geometry_ok_def)
  have as: "C_assoc_of_tc ?s' = C_assoc_of_tc s"
    by (simp add: C_assoc_of_tc_def fun_eq_iff s')
  have p: "0 < C_assoc_of_tc s t" for t using pos by (simp add: C_assoc_of_tc_def)
  have at: "set_at ?s' (r, i) = ss ! (r * ?n + i)" "in_range ?s' (r, i)" if "r < 2" "i < ?n" for r i
    using rm [OF that] that by (simp_all add: set_at_def in_range_def s')
  show "tags_ok C_vt c_label ?s'"
    by (rule init_tags_ok [where idx = "\<lambda>i t. t * ?n + i" and u = u and bs = "blkSize s" and ss = ss
          and xs = "grid 2 ?n ?f"])
      (use geo l rm p at in \<open>auto simp: s' C_vt_def c_label_def as dest: grid_index_inj\<close>)
  assume h: "0 < unat (H_min s)" "unat (H_min s) \<le> unat (H_assoc s)"
    "unat (L_assoc s) + unat (H_assoc s) = unat (c_assoc s)"
  have idx: "r * ?n + i < length (grid 2 ?n ?f)" "grid 2 ?n ?f ! (r * ?n + i) = (C_assoc_of_tc s r, i, r)"
    if "r < 2" "i < ?n" for r i
    using rm(4,5) [OF that] by simp_all
  have w: "set_at ?s' (r, i) = \<lparr>set_assoc = C_assoc_of_tc s r, ways = way_of ?s' r i\<rparr>"
    "way_of ?s' r i = [offset (grid 2 ?n ?f) (r * ?n + i)..<offset (grid 2 ?n ?f) (r * ?n + i) + C_assoc_of_tc s r]"
    if "r < 2" "i < ?n" for r i
    using link_sets_set [OF idx [OF that], of u "blkSize s" 0] l at(1) [OF that] by (simp_all add: way_of_def)
  have bnd: "set (way_of ?s' r i) \<subseteq> {..<length bl}" if "r < 2" "i < ?n" for r i
    using offset_bound [OF idx [OF that]] link_sets_length(2) [of u "blkSize s" 0 "grid 2 ?n ?f"] l w(2) [OF that] by auto
  have dj: "set (way_of ?s' r i) \<inter> set (way_of ?s' r' j) = {}"
    if "r < 2" "i < ?n" "r' < 2" "j < ?n" "(r, i) \<noteq> (r', j)" for r i r' j
    using link_sets_disjoint [OF l idx(1) [OF that(1,2)] idx(1) [OF that(3,4)]] grid_index_inj [OF that(2,4), of r r'] that(5)
      at(1) [OF that(1,2)] at(1) [OF that(3,4)] by (auto simp: way_of_def)
  have len: "length (way_of ?s' 0 i) = unat (L_assoc s)" "length (way_of ?s' 1 i) = unat (H_assoc s)"
    "distinct (way_of ?s' 0 i)" "distinct (way_of ?s' 1 i)" if "i < ?n" for i
    using w(2) [of 0 i] w(2) [of 1 i] that by (simp_all add: C_assoc_of_tc_def)
  have rows: "length (sets ?s') = 2" "\<forall>r < 2. length (sets ?s' ! r) = ?n"
    using chunk_nth(1) [of ss 2 ?n _ 0] link_sets_length(1) [of u "blkSize s" 0 "grid 2 ?n ?f"] l geometry_unat(1) [OF geo(1)]
    by (simp_all add: s')
  have cross: "set (way_of ?s' 0 i @ way_of ?s' 1 i) \<inter> set (way_of ?s' 0 j @ way_of ?s' 1 j) = {}"
    if "i < ?n" "j < ?n" "i \<noteq> j" for i j
    using dj [of 0 i 0 j] dj [of 0 i 1 j] dj [of 1 i 0 j] dj [of 1 i 1 j] that by auto
  have own: "set_at ?s' (0, i) = \<lparr>set_assoc = unat (L_assoc s), ways = way_of ?s' 0 i\<rparr>
      \<and> set_at ?s' (1, i) = \<lparr>set_assoc = unat (H_assoc s), ways = way_of ?s' 1 i\<rparr>
      \<and> length (way_of ?s' 0 i) = unat (L_assoc s) \<and> length (way_of ?s' 1 i) = unat (H_assoc s)
      \<and> distinct (way_of ?s' 0 i @ way_of ?s' 1 i) \<and> set (way_of ?s' 0 i @ way_of ?s' 1 i) \<subseteq> {..<length bl}"
    if "i < ?n" for i
    using w(1) [of 0 i] w(1) [of 1 i] bnd [of 0 i] bnd [of 1 i] dj [of 0 i 1 i] len [OF that] that
    by (simp add: C_assoc_of_tc_def)
  show "cdyn_inv ?s'"
    unfolding cdyn_inv_def s' using h pos(1) rows [unfolded s'] own cross by blast
qed

lemma C_ctor_ok:
  assumes c: "C_ctor u raw nsets bsize asc hl la hmin = Inr s"
    and h: "0 < unat la" "0 < unat hmin" "unat la + unat hmin \<le> unat asc"
  shows "cdyn_inv s" "tags_ok C_vt c_label s" "L_assoc s = la" "H_assoc s = asc - la" "H_min s = hmin"
    "numSets s = nsets" "occupancies s = occupancies raw"
proof -
  obtain s0 where s0: "s = C_init_sets u s0" "geometry_ok s0" "length (missCounter s0) = unat (numSets s0)"
    "L_assoc s0 = la" "H_assoc s0 = asc - la" "H_min s0 = hmin" "c_assoc s0 = asc" "numSets s0 = nsets"
    "umon_counters s0 = replicate (unat asc) 0" "occupancies s0 = occupancies raw" by (rule C_init_fields [OF c])
  have d: "unat (asc - la) = unat asc - unat la"
    using h by (intro unat_sub) (simp add: word_le_nat_alt)
  show "tags_ok C_vt c_label s" "cdyn_inv s"
    using C_init_ok [OF s0(2,3), of u] s0 h d by simp_all
  show "L_assoc s = la" "H_assoc s = asc - la" "H_min s = hmin" "numSets s = nsets" "occupancies s = occupancies raw"
    using s0 by (simp_all add: C_init_sets_def split_beta Let_def)
qed

definition raw_cdyn :: C_DYNALRU where
  "raw_cdyn = \<lparr>warmupBound = 0, warmedUp = False, numBlocks = 0, replacements = 0,
     tagsInUse = 0, totalRefs = 0, sampledRefs = 0, warmupCycle = 0, occupancies = [0, 0, 0], sets = [],
     numSets = 0, blkSize = 0, assoc = 0, hitLatency = 0, blks = [], setShift = 0, tagShift = 0,
     setMask = 0, blkMask = 0, missCounter = [], L_assoc = 0, H_assoc = 0, c_assoc = 0, H_min = 0,
     umon_set = [], umon_blks = [], umon_counters = []\<rparr>"

lemma small_cdyn:
  obtains s where "C_ctor (\<lambda>_. 0) raw_cdyn 2 4 4 1 1 1 = Inr s" "cdyn_inv s" "tags_ok C_vt c_label s"
    "H_assoc s = 3" "H_min s = 1" "L_assoc s = 1" "numSets s = 2"
proof -
  have "\<exists>b. unat (4 :: 32 word) = 2 ^ b" by (rule exI [of _ 2]) simp
  moreover have "\<exists>n. unat (2 :: 32 word) = 2 ^ n" by (rule exI [of _ 1]) simp
  ultimately have "\<exists>s0 :: C_DYNALRU. LRU_ctor (\<lambda>_. 0) raw_cdyn 2 4 4 1 = Inr s0"
    unfolding LRU_ctor_valid_iff by simp
  then obtain s where s: "C_ctor (\<lambda>_. 0) raw_cdyn 2 4 4 1 1 1 = Inr s" by (auto simp: C_ctor_def)
  then show thesis using that [OF s] C_ctor_ok [OF s] by simp
qed

subsection \<open>Properties\<close>

text \<open>
  Growing the Low partition stops at the High minimum; otherwise it moves the least
  recently used block of every High set to the end of the Low set, keeps the invariant
  of the store and every block, and the block to be evicted is the one that moved.
\<close>

theorem C_inc_size_correct:
  assumes "cdyn_inv s"
  shows "\<exists>n s'. C_inc_size s = Some (n, s') \<and> cdyn_inv s' \<and> blks s' = blks s
    \<and> (if H_assoc s = H_min s then n = 0 \<and> s' = s
       else n = numSets s \<and> unat (L_assoc s') = unat (L_assoc s) + 1 \<and> unat (H_assoc s') + 1 = unat (H_assoc s)
         \<and> (\<forall>i < unat (numSets s). way_of s' 0 i = way_of s 0 i @ [last (way_of s 1 i)]
              \<and> way_of s' 1 i = butlast (way_of s 1 i)
              \<and> C_get_evictBlk 0 i s' = Some (last (way_of s 1 i))))"
proof (cases "H_assoc s = H_min s")
  case True
  then show ?thesis using assms by (simp add: C_inc_size_def)
next
  case False
  obtain s' where s': "C_inc_size s = Some (numSets s, s')" "cdyn_inv s'"
    "L_assoc s' = L_assoc s + 1" "H_assoc s' = H_assoc s - 1" "s' = s \<lparr>L_assoc := L_assoc s', H_assoc := H_assoc s', sets := sets s'\<rparr>"
    "\<And>i. i < unat (numSets s) \<Longrightarrow> way_of s' 0 i = way_of s 0 i @ [last (way_of s 1 i)] \<and> way_of s' 1 i = butlast (way_of s 1 i)"
    using C_inc_size_eq [OF assms False] by blast
  have fields: "blks s' = blks s" "numSets s' = numSets s" "c_assoc s' = c_assoc s"
    by (subst s'(5); simp)+
  have H: "0 < unat (H_assoc s)" using assms by (auto simp: cdyn_inv_def)
  have u: "unat (H_assoc s') + 1 = unat (H_assoc s)" using unat_minus1 [OF H] H s'(4) by simp
  have "unat (L_assoc s) + unat (H_assoc s) = unat (c_assoc s)" "unat (L_assoc s') + unat (H_assoc s') = unat (c_assoc s)"
    using assms s'(2) fields(3) by (simp_all add: cdyn_inv_def)
  then have L: "unat (L_assoc s') = unat (L_assoc s) + 1" using u by linarith
  have "C_get_evictBlk 0 i s' = Some (last (way_of s 1 i))" if "i < unat (numSets s)" for i
  proof -
    have "in_range s' (0, i)" "length (way_of s' 0 i) = unat (L_assoc s')" "length (way_of s 0 i) = unat (L_assoc s)"
      using s'(2) assms that fields(2) by (simp_all add: cdyn_inv_def in_range_def)
    then show ?thesis
      using s'(6) [OF that] L by (simp add: C_get_evictBlk_def way_of_def at_def nth_append)
  qed
  then show ?thesis using False s'(1,2,6) u L fields by simp
qed

theorem C_inc_size_correct_witness:
  "\<exists>s n s'. C_ctor (\<lambda>_. 0) raw_cdyn 2 4 4 1 1 1 = Inr s \<and> C_inc_size s = Some (n, s')
     \<and> unat (L_assoc s') = 2 \<and> cdyn_inv s'"
proof -
  obtain s where s: "C_ctor (\<lambda>_. 0) raw_cdyn 2 4 4 1 1 1 = Inr s" "cdyn_inv s" "tags_ok C_vt c_label s"
    "H_assoc s = 3" "H_min s = 1" "L_assoc s = 1" "numSets s = 2" by (rule small_cdyn)
  then show ?thesis using C_inc_size_correct [OF s(2)] by auto
qed

text \<open>
  Shrinking the Low partition right after growing it restores the store exactly.
\<close>

theorem C_resize_roundtrip:
  assumes "cdyn_inv s" and "H_assoc s \<noteq> H_min s"
  shows "\<exists>s'. C_inc_size s = Some (numSets s, s') \<and> C_dec_size s' = Some (numSets s, s)"
proof -
  obtain s' where s': "C_inc_size s = Some (numSets s, s')" "cdyn_inv s'"
    "L_assoc s' = L_assoc s + 1" "H_assoc s' = H_assoc s - 1" "s' = s \<lparr>L_assoc := L_assoc s', H_assoc := H_assoc s', sets := sets s'\<rparr>"
    "\<And>i. i < unat (numSets s) \<Longrightarrow> way_of s' 0 i = way_of s 0 i @ [last (way_of s 1 i)] \<and> way_of s' 1 i = butlast (way_of s 1 i)"
    using C_inc_size_eq [OF assms] by blast
  have "L_assoc s' \<noteq> 1" using assms(1) by (auto simp: s'(3) cdyn_inv_def)
  then obtain s2 where s2: "C_dec_size s' = Some (numSets s', s2)" "cdyn_inv s2"
    "L_assoc s2 = L_assoc s' - 1" "H_assoc s2 = H_assoc s' + 1" "s2 = s' \<lparr>L_assoc := L_assoc s2, H_assoc := H_assoc s2, sets := sets s2\<rparr>"
    "\<And>i. i < unat (numSets s') \<Longrightarrow> way_of s2 1 i = way_of s' 1 i @ [last (way_of s' 0 i)] \<and> way_of s2 0 i = butlast (way_of s' 0 i)"
    using C_dec_size_eq [OF s'(2)] by blast
  have n1: "numSets s' = numSets s" by (subst s'(5)) simp
  have n2: "numSets s2 = numSets s'" by (subst s2(5)) simp
  note n = n1 n2 [unfolded n1]
  have lh: "L_assoc s2 = L_assoc s" "H_assoc s2 = H_assoc s" by (simp_all add: s2(3,4) s'(3,4))
  have w: "way_of s2 0 i = way_of s 0 i" "way_of s2 1 i = way_of s 1 i" if "i < unat (numSets s)" for i
  proof -
    have "way_of s 1 i \<noteq> []" using assms(1) that by (auto simp: cdyn_inv_def)
    then show "way_of s2 0 i = way_of s 0 i" "way_of s2 1 i = way_of s 1 i"
      using s'(6) [OF that] s2(6) [of i] that n by simp_all
  qed
  have "sets s2 = sets s"
  proof (rule sets_eqI)
    fix r i assume "r < length (sets s2)" "i < length (sets s2 ! r)"
    then have "r = 0 \<or> r = 1" "i < unat (numSets s)" using s2(2) n by (auto simp: cdyn_inv_def less_2_cases_iff)
    then show "set_at s2 (r, i) = set_at s (r, i)"
      using assms(1) s2(2) n lh w by (auto simp: cdyn_inv_def)
  qed (use assms(1) s2(2) n in \<open>auto simp: cdyn_inv_def\<close>)
  then have "s2 = s" using s2(5) s'(5) lh by (cases s; cases s'; cases s2) simp
  then show ?thesis using s'(1) s2(1) n by simp
qed

theorem C_resize_roundtrip_witness:
  "\<exists>s s'. C_ctor (\<lambda>_. 0) raw_cdyn 2 4 4 1 1 1 = Inr s \<and> C_inc_size s = Some (2, s') \<and> C_dec_size s' = Some (2, s)"
proof -
  obtain s where s: "C_ctor (\<lambda>_. 0) raw_cdyn 2 4 4 1 1 1 = Inr s" "cdyn_inv s" "tags_ok C_vt c_label s"
    "H_assoc s = 3" "H_min s = 1" "L_assoc s = 1" "numSets s = 2" by (rule small_cdyn)
  then show ?thesis using C_resize_roundtrip [OF s(2)] by auto
qed

end
