(* ===== verification/Tags_Umon.thy ===== *)
theory Tags_Umon
imports Tags_Dynamic
begin

text \<open>
  The utility monitor of the coarse-grained store.  The monitor is a full-associativity shadow tag array
  whose counter \<open>k\<close> counts hits at recency position \<open>k\<close>; the inclusion lemma of
  LRU stacks makes the sum of the first \<open>w\<close> counters the number of hits an LRU
  cache with \<open>w\<close> ways would have had, which is what a resizing decision needs.
\<close>

subsection \<open>Abstract monitor\<close>

definition u_access :: "addr \<Rightarrow> addr option list \<Rightarrow> addr option list" where
  "u_access t v = (if Some t \<in> set v then to_head (Some t) v else Some t # butlast v)"

text \<open>Hits of a reference LRU cache, whose sets are the lists \<open>V i\<close>, over a trace of set numbers and tags.\<close>

fun ref_hits :: "(nat \<Rightarrow> addr option list) \<Rightarrow> (nat \<times> addr) list \<Rightarrow> nat" where
  "ref_hits V [] = 0"
| "ref_hits V ((i, t) # xs) = (if Some t \<in> set (V i) then 1 else 0) + ref_hits (V(i := u_access t (V i))) xs"

definition uview :: "C_DYNALRU \<Rightarrow> nat \<Rightarrow> addr option list" where
  "uview s i = map (\<lambda>p. blk_view (umon_blks s ! p)) (ways (umon_set s ! i))"

definition umon_ok :: "C_DYNALRU \<Rightarrow> bool" where
  "umon_ok s \<longleftrightarrow> length (umon_set s) = unat (numSets s) \<and> length (umon_counters s) = unat (c_assoc s)
     \<and> 0 < unat (c_assoc s)
     \<and> (\<forall>i < unat (numSets s). cset_ok (length (umon_blks s)) (umon_set s ! i)
          \<and> length (ways (umon_set s ! i)) = unat (c_assoc s))
     \<and> (\<forall>i < unat (numSets s). \<forall>p \<in> set (ways (umon_set s ! i)). \<forall>q \<in> set (ways (umon_set s ! i)).
          isValid (umon_blks s ! p) \<and> isValid (umon_blks s ! q)
          \<and> tag (umon_blks s ! p) = tag (umon_blks s ! q) \<longrightarrow> p = q)
     \<and> (\<forall>i < unat (numSets s). \<forall>j < unat (numSets s). i \<noteq> j \<longrightarrow>
          set (ways (umon_set s ! i)) \<inter> set (ways (umon_set s ! j)) = {})"

subsection \<open>LRU stack inclusion\<close>

lemma take_u_access:
  assumes "0 < w" "w \<le> length v"
  shows "take w (u_access t v) = u_access t (take w v)"
proof (cases "Some t \<in> set v")
  case False
  then have "Some t \<notin> set (take w v)" by (meson in_set_takeD)
  then show ?thesis using assms False
    by (cases w) (simp_all add: u_access_def butlast_take take_butlast)
next
  case True
  then obtain ys zs where v: "v = ys @ Some t # zs" "Some t \<notin> set ys" by (meson split_list_first)
  show ?thesis
  proof (cases "length ys < w")
    case True
    then have "take w v = ys @ Some t # take (w - length ys - 1) zs"
      by (simp add: v take_Cons' Suc_diff_Suc)
    then show ?thesis
      using True v assms by (cases w) (simp_all add: u_access_def to_head_def remove1_append Suc_diff_le)
  next
    case False
    then have t: "take w v = take w ys" by (simp add: v)
    then have "Some t \<notin> set (take w v)" using v(2) by (metis in_set_takeD)
    then show ?thesis
      using False v assms by (cases w) (simp_all add: u_access_def to_head_def remove1_append t butlast_take)
  qed
qed

lemma in_take_position:
  "x \<in> set v \<Longrightarrow> x \<in> set (take w v) \<longleftrightarrow> position x v < w"
proof (induction v arbitrary: w)
  case (Cons y v)
  then show ?case by (cases w) auto
qed simp

lemma position_less: "x \<in> set v \<Longrightarrow> position x v < length v"
  by (induction v) auto

lemma position_map_find:
  assumes "\<And>j. j < length xs \<Longrightarrow> P j \<longleftrightarrow> f (xs ! j) = y"
  shows "List.find P [0..<length xs] = (if y \<in> set (map f xs) then Some (position y (map f xs)) else None)"
  using assms
proof (induction xs arbitrary: P)
  case (Cons x xs)
  have split: "[0..<length (x # xs)] = 0 # map Suc [0..<length xs]"
    by (simp add: map_Suc_upt upt_conv_Cons del: upt_Suc)
  have mapf: "List.find P (map Suc js) = map_option Suc (List.find (\<lambda>j. P (Suc j)) js)" for js
    by (induction js) auto
  have IH: "List.find (\<lambda>j. P (Suc j)) [0..<length xs]
      = (if y \<in> set (map f xs) then Some (position y (map f xs)) else None)"
    by (rule Cons.IH) (use Cons.prems [of "Suc _"] in simp)
  show ?case
    unfolding split using Cons.prems [of 0] by (auto simp: mapf IH simp del: map_Suc_upt)
qed simp

lemma findBlkIndex_view:
  assumes "cset_ok (length h) c"
  shows "findBlkIndex h c t = Some (let v = map (\<lambda>p. blk_view (h ! p)) (ways c)
     in if Some t \<in> set v then position (Some t) v else 999)"
proof -
  have "findBlk_from h c t 0 = Some (List.find (\<lambda>j. blk_match t (h ! (ways c ! j))) [0..<length (ways c)])"
    using findBlk_from_eq [OF assms, of 0] by (simp add: option.map_id [unfolded id_def])
  also have "List.find (\<lambda>j. blk_match t (h ! (ways c ! j))) [0..<length (ways c)]
      = (if Some t \<in> set (map (\<lambda>p. blk_view (h ! p)) (ways c))
         then Some (position (Some t) (map (\<lambda>p. blk_view (h ! p)) (ways c))) else None)"
    by (rule position_map_find) (auto simp: blk_match_def blk_view_def)
  finally show ?thesis by (simp add: findBlkIndex_def Let_def)
qed

subsection \<open>The monitor refines the abstract one\<close>

text \<open>A change of one monitor set keeps the invariant and the other sets.\<close>

lemma umon_local:
  assumes ok: "umon_ok s" and i: "i < unat (numSets s)" and p: "p \<in> set (ways (umon_set s ! i))"
    and c': "cset_ok (length (umon_blks s)) c'" "set (ways c') = set (ways (umon_set s ! i))"
      "length (ways c') = length (ways (umon_set s ! i))"
    and uniq: "\<And>q r. q \<in> set (ways (umon_set s ! i)) \<Longrightarrow> r \<in> set (ways (umon_set s ! i))
       \<Longrightarrow> isValid ((umon_blks s)[p := b] ! q) \<Longrightarrow> isValid ((umon_blks s)[p := b] ! r)
       \<Longrightarrow> tag ((umon_blks s)[p := b] ! q) = tag ((umon_blks s)[p := b] ! r) \<Longrightarrow> q = r"
    and cn: "length n' = length (umon_counters s)"
  defines "s' \<equiv> s \<lparr>umon_set := (umon_set s)[i := c'], umon_blks := (umon_blks s)[p := b], umon_counters := n'\<rparr>"
  shows "umon_ok s'" "j < unat (numSets s) \<Longrightarrow> j \<noteq> i \<Longrightarrow> uview s' j = uview s j"
    "uview s' i = map (\<lambda>q. blk_view ((umon_blks s)[p := b] ! q)) (ways c')"
proof -
  have n: "length (umon_set s) = unat (numSets s)" using ok by (simp add: umon_ok_def)
  have dj: "set (ways (umon_set s ! i)) \<inter> set (ways (umon_set s ! j)) = {}" if "j < unat (numSets s)" "j \<noteq> i" for j
    using ok i that by (simp add: umon_ok_def)
  have same: "(umon_blks s)[p := b] ! q = umon_blks s ! q" if "j < unat (numSets s)" "j \<noteq> i" "q \<in> set (ways (umon_set s ! j))" for j q
    using dj [OF that(1,2)] that(3) p by (metis disjoint_iff nth_list_update_neq)
  show "uview s' i = map (\<lambda>q. blk_view ((umon_blks s)[p := b] ! q)) (ways c')"
    using i n by (simp add: uview_def s'_def)
  show "uview s' j = uview s j" if "j < unat (numSets s)" "j \<noteq> i"
    using that same [OF that] by (simp add: uview_def s'_def)
  have st: "umon_set s' ! j = (if j = i then c' else umon_set s ! j)" for j
    using i n by (simp add: s'_def nth_list_update)
  have bk: "umon_blks s' = (umon_blks s)[p := b]" by (simp add: s'_def)
  have u': "q = r" if "j < unat (numSets s)" "q \<in> set (ways (umon_set s' ! j))" "r \<in> set (ways (umon_set s' ! j))"
      "isValid (umon_blks s' ! q)" "isValid (umon_blks s' ! r)" "tag (umon_blks s' ! q) = tag (umon_blks s' ! r)" for j q r
  proof (cases "j = i")
    case True
    then have "q \<in> set (ways (umon_set s ! i))" "r \<in> set (ways (umon_set s ! i))"
      using that(2,3) c'(2) by (simp_all add: st)
    then show ?thesis using that(4-6) unfolding bk by (rule uniq)
  next
    case False
    then have "q \<in> set (ways (umon_set s ! j))" "r \<in> set (ways (umon_set s ! j))"
      using that(2,3) by (simp_all add: st)
    then show ?thesis
      using ok same [OF that(1) False] that(1,4-6) unfolding bk umon_ok_def by metis
  qed
  have w: "set (ways (umon_set s' ! j)) = set (ways (umon_set s ! j))"
    "length (ways (umon_set s' ! j)) = length (ways (umon_set s ! j))" for j
    using c' by (simp_all add: st)
  have f: "numSets s' = numSets s" "c_assoc s' = c_assoc s" "length (umon_blks s') = length (umon_blks s)"
    "length (umon_set s') = length (umon_set s)" "length (umon_counters s') = length (umon_counters s)"
    using cn by (simp_all add: s'_def)
  have cs: "cset_ok (length (umon_blks s)) (umon_set s' ! j)" if "j < unat (numSets s)" for j
    using ok that c'(1) by (simp add: st umon_ok_def)
  show "umon_ok s'"
    unfolding umon_ok_def f
    by (intro conjI allI impI ballI) (use ok u' cs w in \<open>auto simp: umon_ok_def\<close>)
qed

lemma umon_access_refines:
  assumes ok: "umon_ok s" and i: "i < unat (numSets s)"
  shows "\<exists>s'. umon_access i t s = Some s' \<and> umon_ok s' \<and> numSets s' = numSets s \<and> c_assoc s' = c_assoc s
     \<and> uview s' i = u_access t (uview s i)
     \<and> (\<forall>j < unat (numSets s). j \<noteq> i \<longrightarrow> uview s' j = uview s j)
     \<and> umon_counters s' = (if Some t \<in> set (uview s i)
          then (umon_counters s)[position (Some t) (uview s i) := umon_counters s ! position (Some t) (uview s i) + 1]
          else umon_counters s)
     \<and> s' = s \<lparr>umon_set := umon_set s', umon_blks := umon_blks s', umon_counters := umon_counters s'\<rparr>"
proof -
  let ?c = "umon_set s ! i" and ?h = "umon_blks s"
  let ?v = "uview s i"
  have n: "i < length (umon_set s)" using ok i by (simp add: umon_ok_def)
  have c: "cset_ok (length ?h) ?c" "length (ways ?c) = unat (c_assoc s)" "0 < unat (c_assoc s)"
    and cl: "length (umon_counters s) = unat (c_assoc s)"
    using ok i by (simp_all add: umon_ok_def)
  note dist = cset_ok_distinct [OF c(1)]
  have un: "q = r" if "q \<in> set (ways ?c)" "r \<in> set (ways ?c)" "isValid (?h ! q)" "isValid (?h ! r)" "tag (?h ! q) = tag (?h ! r)" for q r
    using ok i that by (simp add: umon_ok_def)
  have fb: "findBlk ?h ?c t = Some (List.find (\<lambda>p. blk_view (?h ! p) = Some t) (ways ?c))"
  proof -
    have "(\<lambda>p. blk_match t (?h ! p)) = (\<lambda>p. blk_view (?h ! p) = Some t)"
      by (auto simp: blk_match_def blk_view_def)
    then show ?thesis using findBlk_eq [OF c(1), of t] by simp
  qed
  have fi: "findBlkIndex ?h ?c t = Some (if Some t \<in> set ?v then position (Some t) ?v else 999)"
    using findBlkIndex_view [OF c(1), of t] by (simp add: uview_def Let_def)
  show ?thesis
  proof (cases "List.find (\<lambda>p. blk_view (?h ! p) = Some t) (ways ?c)")
    case (Some p)
    note p = find_SomeD [OF Some]
    have hit: "Some t \<in> set ?v" using p by (auto simp: uview_def image_iff) metis
    have uq: "blk_view (?h ! q) = Some t \<longleftrightarrow> q = p" if "q \<in> set (ways ?c)" for q
      using un that p by (auto simp: blk_view_def split: if_splits)
    let ?c' = "?c \<lparr>ways := to_head p (ways ?c)\<rparr>"
    let ?n' = "(umon_counters s)[position (Some t) ?v := umon_counters s ! position (Some t) ?v + 1]"
    have mv: "moveToHead p ?c = Some ?c'" using moveToHead_eq [OF c(1)] p by simp
    have hp: "?h[p := ?h ! p] = ?h" by simp
    have pl: "position (Some t) ?v < length (umon_counters s)"
      using position_less [OF hit] c(2) cl by (simp add: uview_def)
    have "cset_ok (length ?h) ?c'" using cset_ok_to_head [OF c(1)] p by blast
    note lo = umon_local [OF ok i, of p ?c' "?h ! p" ?n', unfolded hp]
    have "map (\<lambda>q. blk_view (?h ! q)) (to_head p (ways ?c)) = u_access t ?v"
      using map_to_head [of p "ways ?c" "\<lambda>q. blk_view (?h ! q)" "Some t"] uq p hit by (simp add: u_access_def uview_def)
    moreover have "umon_access i t s = Some (s \<lparr>umon_set := (umon_set s)[i := ?c'], umon_blks := ?h, umon_counters := ?n'\<rparr>)"
      using n fb Some fi hit mv pl by (simp add: umon_access_def)
    ultimately show ?thesis
      using lo p un dist hit \<open>cset_ok (length ?h) ?c'\<close> by simp
  next
    case None
    then have miss: "Some t \<notin> set ?v" by (auto simp: find_None_iff_all uview_def)
    define p where "p = last (ways ?c)"
    have p1: "p \<in> set (ways ?c)" using dist by (simp add: p_def)
    then have "p < length ?h" using c(1) by (auto simp: cset_ok_def)
    note p = p1 this
    have pi: "ways ?c ! (unat (c_assoc s) - 1) = p" using dist c(2) by (simp add: p_def last_conv_nth)
    let ?b = "(?h ! p) \<lparr>tag := t, status := BlkValid OR BlkReadable\<rparr>"
    let ?c' = "?c \<lparr>ways := to_head p (ways ?c)\<rparr>"
    have mv: "moveToHead p ?c = Some ?c'" using moveToHead_eq [OF c(1)] p by simp
    have b: "isValid ?b" "tag ?b = t" using status_valid [of "(?h ! p) \<lparr>tag := t\<rparr>"] by simp_all
    have no: "\<not> (isValid (?h ! q) \<and> tag (?h ! q) = t)" if "q \<in> set (ways ?c)" for q
      using miss that by (force simp: uview_def blk_view_def)
    have uq: "q = r" if "q \<in> set (ways ?c)" "r \<in> set (ways ?c)" "isValid (?h[p := ?b] ! q)" "isValid (?h[p := ?b] ! r)"
        "tag (?h[p := ?b] ! q) = tag (?h[p := ?b] ! r)" for q r
      using that no un b p(2) by (cases "q = p"; cases "r = p") auto
    have ck: "cset_ok (length ?h) ?c'" using cset_ok_to_head [OF c(1)] p by blast
    let ?s' = "s \<lparr>umon_set := (umon_set s)[i := ?c'], umon_blks := ?h[p := ?b]\<rparr>"
    have eq: "set (ways ?c') = set (ways ?c)" "length (ways ?c') = length (ways ?c)"
      using p(1) dist by simp_all
    have re: "s \<lparr>umon_set := (umon_set s)[i := ?c'], umon_blks := ?h[p := ?b], umon_counters := umon_counters s\<rparr> = ?s'"
      by simp
    have wy: "ways ?c' = to_head p (ways ?c)" by simp
    note lo = umon_local [where b = ?b and n' = "umon_counters s", OF ok i p(1) ck eq uq refl, unfolded re wy]
    have rm: "remove1 p (ways ?c) = butlast (ways ?c)"
      using dist remove1_last [of "ways ?c"] unfolding p_def by blast
    have np: "p \<notin> set (butlast (ways ?c))" using dist unfolding rm [symmetric] by simp
    have vw: "map (\<lambda>q. blk_view (?h[p := ?b] ! q)) (to_head p (ways ?c)) = u_access t ?v"
      using b p(2) np miss by (auto simp: to_head_def rm u_access_def uview_def blk_view_def map_butlast [symmetric] nth_list_update)
    have ex: "umon_access i t s = Some ?s'"
      using n fb None fi mv c(2,3) pi p(2) by (simp add: umon_access_def)
    have fr: "numSets ?s' = numSets s" "c_assoc ?s' = c_assoc s"
      "umon_counters ?s' = (if Some t \<in> set ?v then x else umon_counters s)"
      "?s' = s \<lparr>umon_set := umon_set ?s', umon_blks := umon_blks ?s', umon_counters := umon_counters ?s'\<rparr>" for x
      using miss by simp_all
    show ?thesis
      by (intro exI [of _ ?s'] conjI allI impI; (rule ex fr trans [OF lo(3) vw] lo(1) lo(2); assumption?))
  qed
qed

subsection \<open>Counters\<close>

lemma sum_bump:
  assumes "k < length ns" "unat (ns ! k) + 1 < 2 ^ 32"
  shows "(\<Sum>j < w. unat (ns[k := ns ! k + 1 :: 32 word] ! j)) = (\<Sum>j < w. unat (ns ! j)) + (if k < w then 1 else 0)"
proof -
  have b: "unat (ns ! k + 1) = unat (ns ! k) + 1"
    using assms(2) unat_add_lem [of "ns ! k" 1] by simp
  show ?thesis
    by (induction w) (use assms(1) b in \<open>auto simp: nth_list_update less_Suc_eq\<close>)
qed

lemma ref_hits_cong:
  assumes "\<forall>(i, t) \<in> set xs. i < N" "\<And>j. j < N \<Longrightarrow> V j = V' j"
  shows "ref_hits V xs = ref_hits V' xs"
  using assms
proof (induction xs arbitrary: V V')
  case (Cons x xs)
  obtain i t where x: "x = (i, t)" by (cases x)
  have "ref_hits (V(i := u_access t (V i))) xs = ref_hits (V'(i := u_access t (V' i))) xs"
    by (rule Cons.IH) (use Cons.prems x in auto)
  then show ?case using Cons.prems x by simp
qed simp

lemma umon_access_sum:
  assumes ok: "umon_ok s" "i < unat (numSets s)" "umon_access i t s = Some s1" and w: "0 < w" "w \<le> unat (c_assoc s)"
    and sm: "\<forall>n \<in> set (umon_counters s). unat n + Suc N < 2 ^ 32"
  shows "(\<Sum>k < w. unat (umon_counters s1 ! k))
      = (\<Sum>k < w. unat (umon_counters s ! k)) + (if Some t \<in> set (take w (uview s i)) then 1 else 0)"
    "\<forall>n \<in> set (umon_counters s1). unat n + N < 2 ^ 32"
    "\<And>j. j < unat (numSets s) \<Longrightarrow> take w (uview s1 j) = ((\<lambda>j. take w (uview s j))(i := u_access t (take w (uview s i)))) j"
proof -
  let ?v = "uview s i" and ?ns = "umon_counters s"
  from umon_access_refines [OF ok(1,2), of t] ok(3) have
    s1: "uview s1 i = u_access t ?v" "\<forall>j < unat (numSets s). j \<noteq> i \<longrightarrow> uview s1 j = uview s j"
      "umon_counters s1 = (if Some t \<in> set ?v then ?ns[position (Some t) ?v := ?ns ! position (Some t) ?v + 1] else ?ns)"
    by auto
  have len: "length ?v = unat (c_assoc s)" "length ?ns = unat (c_assoc s)"
    using ok(1,2) by (simp_all add: umon_ok_def uview_def)
  have pos: "position (Some t) ?v < length ?ns" if "Some t \<in> set ?v"
    using position_less [OF that] len by simp
  have bnd: "unat (?ns ! position (Some t) ?v) + Suc N < 2 ^ 32" if "Some t \<in> set ?v"
    using sm pos [OF that] by (meson nth_mem)
  show "(\<Sum>k < w. unat (umon_counters s1 ! k)) = (\<Sum>k < w. unat (?ns ! k)) + (if Some t \<in> set (take w ?v) then 1 else 0)"
  proof (cases "Some t \<in> set ?v")
    case True
    then show ?thesis
      using sum_bump [OF pos [OF True], of w] bnd [OF True] in_take_position [OF True, of w] s1(3) by simp
  next
    case False
    then have "Some t \<notin> set (take w ?v)" by (meson in_set_takeD)
    then show ?thesis using False s1(3) by simp
  qed
  show "\<forall>n \<in> set (umon_counters s1). unat n + N < 2 ^ 32"
  proof
    fix n assume n: "n \<in> set (umon_counters s1)"
    then consider "n \<in> set ?ns" | "Some t \<in> set ?v" "n = ?ns ! position (Some t) ?v + 1"
      using s1(3) set_update_subset_insert [of ?ns] by (auto split: if_splits)
    then show "unat n + N < 2 ^ 32"
    proof cases
      case 1
      then show ?thesis using sm by auto
    next
      case 2
      then have "unat n = unat (?ns ! position (Some t) ?v) + 1"
        using bnd [OF 2(1)] unat_add_lem [of "?ns ! position (Some t) ?v" 1] by simp
      then show ?thesis using bnd [OF 2(1)] by simp
    qed
  qed
  show "take w (uview s1 j) = ((\<lambda>j. take w (uview s j))(i := u_access t (take w ?v))) j" if "j < unat (numSets s)" for j
    using take_u_access [OF w(1), of ?v t] w(2) len(1) s1(1,2) that by simp
qed

subsection \<open>The store with its monitor\<close>

fun C_run :: "(addr \<times> nat \<times> tick) list \<Rightarrow> C_DYNALRU \<Rightarrow> C_DYNALRU option" where
  "C_run [] s = Some s"
| "C_run ((a, tid, now) # xs) s = do { (blk, lat, s') \<leftarrow> C_accessBlock a tid now s; C_run xs s' }"

text \<open>The Low accesses of a trace, as the monitor sees them.\<close>

definition low_trace :: "C_DYNALRU \<Rightarrow> (addr \<times> nat \<times> tick) list \<Rightarrow> (nat \<times> addr) list" where
  "low_trace s xs = [(extractSet s a, extractTag s a). (a, tid, now) \<leftarrow> xs, tid = 0]"

lemma umon_more:
  assumes "LRU.more s' = LRU.more (s :: C_DYNALRU)" "numSets s' = numSets s"
  shows "umon_set s' = umon_set s" "umon_blks s' = umon_blks s" "umon_counters s' = umon_counters s"
    "c_assoc s' = c_assoc s" "umon_ok s' = umon_ok s" "uview s' = uview s"
  using assms by (cases s; cases s'; simp add: umon_ok_def uview_def fun_eq_iff)+

lemma tags_ok_umon [simp]:
  "tags_ok C_vt c_label (s \<lparr>umon_set := a, umon_blks := b, umon_counters := c\<rparr>) = tags_ok C_vt c_label s"
  "view C_vt (s \<lparr>umon_set := a, umon_blks := b, umon_counters := c\<rparr>) = view C_vt s"
  by (simp_all add: tags_ok_def view_def set_inv_def set_at_def in_range_def geometry_ok_def C_vt_def c_label_def
      C_assoc_of_tc_def fun_eq_iff)

lemma C_access_step:
  fixes a :: addr
  assumes ok: "tags_ok C_vt c_label s" "umon_ok s" and t: "tid < 2"
  defines "i \<equiv> extractSet s a" and "tg \<equiv> extractTag s a"
  obtains r lat s1 s' where "C_accessBlock a tid now s = Some (r, lat, s')"
    "r = None \<longleftrightarrow> Some tg \<notin> set (view C_vt s tid i)"
    "refines_step C_vt c_label id tid i (v_access tg (view C_vt s tid i)) s s1"
    "i < unat (numSets s)" "umon_ok s1" "uview s1 = uview s" "umon_counters s1 = umon_counters s"
    "tags_ok C_vt c_label s'" "view C_vt s' = view C_vt s1"
    "if tid = 0 then umon_access i tg s1 = Some s' else s' = s1"
    "numSets s' = numSets s" "extractSet s' = extractSet s" "extractTag s' = extractTag s" "umon_ok s'"
    "c_assoc s' = c_assoc s"
proof -
  have vt: "c_label s tid" using t by (simp add: c_label_def)
  from cdyn.access_refines [OF ok(1) vt, of a now, folded i_def tg_def]
  obtain r lat s1 where a1: "accessBlock C_vt a tid now s = Some (r, lat, s1)"
    "r = None \<longleftrightarrow> Some tg \<notin> set (view C_vt s tid i)"
    "refines_step C_vt c_label id tid i (v_access tg (view C_vt s tid i)) s s1" by blast
  have fr: "frame s s1" and ok1: "tags_ok C_vt c_label s1" using a1(3) by (simp_all add: refines_step_def)
  have i: "i < unat (numSets s)" using cdyn.own_set(1) [OF ok(1) vt] by (simp add: i_def)
  have ns: "LRU.more s1 = LRU.more s" "numSets s1 = numSets s" using fr by (simp_all add: frame_def)
  note um = umon_more [OF ns]
  have ex: "extractSet s1 = extractSet s" "extractTag s1 = extractTag s"
    using frame_extract [OF fr] by (simp_all add: fun_eq_iff)
  show thesis
  proof (cases "tid = 0")
    case False
    then show thesis
      using that [of r lat s1 s1] a1 i ok1 um ok ns ex by (simp add: C_accessBlock_def)
  next
    case True
    from umon_access_refines [of s1 i tg] i um(5) ok(2) ns obtain s2 where
      s2: "umon_access i tg s1 = Some s2" "umon_ok s2" "numSets s2 = numSets s1" "c_assoc s2 = c_assoc s1"
        "s2 = s1 \<lparr>umon_set := umon_set s2, umon_blks := umon_blks s2, umon_counters := umon_counters s2\<rparr>" by auto
    have "tags_ok C_vt c_label s2" "view C_vt s2 = view C_vt s1"
      using ok1 by (subst s2(5), simp)+
    moreover have "extractSet s2 = extractSet s1" "extractTag s2 = extractTag s1"
      by (subst s2(5), simp add: extractSet_def extractTag_def fun_eq_iff)+
    moreover have "C_accessBlock a tid now s = Some (r, lat, s2)"
      using True a1(1) s2(1) by (simp add: C_accessBlock_def i_def tg_def)
    ultimately show thesis
      using that [of r lat s2 s1] True a1(2,3) i um ok(2) s2(1-4) ns ex by simp
  qed
qed

lemma low_trace_Cons:
  "low_trace s ((a, tid, now) # xs) = (if tid = 0 then [(extractSet s a, extractTag s a)] else []) @ low_trace s xs"
  by (simp add: low_trace_def)

lemma low_trace_cong:
  assumes "extractSet s' = extractSet s" "extractTag s' = extractTag s"
  shows "low_trace s' xs = low_trace s xs"
  unfolding low_trace_def assms ..

lemma low_trace_range: "tags_ok C_vt c_label s \<Longrightarrow> \<forall>(i, t) \<in> set (low_trace s xs). i < unat (numSets s)"
  by (auto simp: low_trace_def tags_ok_def extractSet_less split: if_splits)

lemma C_run_sum:
  assumes "tags_ok C_vt c_label s" "umon_ok s" "\<forall>(a, tid, now) \<in> set xs. tid < 2" "0 < w" "w \<le> unat (c_assoc s)"
    and "\<forall>n \<in> set (umon_counters s). unat n + length xs < 2 ^ 32"
  shows "\<exists>s'. C_run xs s = Some s' \<and> tags_ok C_vt c_label s' \<and> umon_ok s' \<and> c_assoc s' = c_assoc s
     \<and> (\<Sum>k < w. unat (umon_counters s' ! k))
        = (\<Sum>k < w. unat (umon_counters s ! k)) + ref_hits (\<lambda>i. take w (uview s i)) (low_trace s xs)"
  using assms
proof (induction xs arbitrary: s)
  case Nil
  then show ?case by (simp add: low_trace_def)
next
  case (Cons x xs)
  obtain a tid now where x: "x = (a, tid, now)" by (cases x)
  let ?i = "extractSet s a" and ?t = "extractTag s a"
  have "tid < 2" using Cons.prems(3) x by simp
  from C_access_step [OF Cons.prems(1,2) this, of a now] obtain r lat s1 s2 where
    st: "C_accessBlock a tid now s = Some (r, lat, s2)" "refines_step C_vt c_label id tid ?i (v_access ?t (view C_vt s tid ?i)) s s1"
      "?i < unat (numSets s)" "umon_ok s1" "uview s1 = uview s" "umon_counters s1 = umon_counters s"
      "tags_ok C_vt c_label s2" "if tid = 0 then umon_access ?i ?t s1 = Some s2 else s2 = s1"
      "numSets s2 = numSets s" "extractSet s2 = extractSet s" "extractTag s2 = extractTag s" "umon_ok s2"
      "c_assoc s2 = c_assoc s" by metis
  have n1: "numSets s1 = numSets s" "c_assoc s1 = c_assoc s"
    using st(2) umon_more(4) [of s1 s] by (simp_all add: refines_step_def frame_def)
  have count: "\<forall>n \<in> set (umon_counters s2). unat n + length xs < 2 ^ 32"
    "(\<Sum>k < w. unat (umon_counters s2 ! k)) + ref_hits (\<lambda>i. take w (uview s2 i)) (low_trace s xs)
       = (\<Sum>k < w. unat (umon_counters s ! k)) + ref_hits (\<lambda>i. take w (uview s i)) (low_trace s (x # xs))"
  proof (atomize (full), cases "tid = 0")
    case False
    then show "(\<forall>n \<in> set (umon_counters s2). unat n + length xs < 2 ^ 32) \<and>
      (\<Sum>k < w. unat (umon_counters s2 ! k)) + ref_hits (\<lambda>i. take w (uview s2 i)) (low_trace s xs)
       = (\<Sum>k < w. unat (umon_counters s ! k)) + ref_hits (\<lambda>i. take w (uview s i)) (low_trace s (x # xs))"
      using st Cons.prems(6) by (auto simp: x low_trace_Cons)
  next
    case True
    have "umon_access ?i ?t s1 = Some s2" "\<forall>n \<in> set (umon_counters s1). unat n + Suc (length xs) < 2 ^ 32"
      using True st(6,8) Cons.prems(6) by auto
    note sum = umon_access_sum [OF st(4) st(3) [folded n1(1)] this(1) Cons.prems(4) Cons.prems(5) [folded n1(2)] this(2)]
    have "ref_hits (\<lambda>i. take w (uview s2 i)) (low_trace s xs)
      = ref_hits ((\<lambda>j. take w (uview s j))(?i := u_access ?t (take w (uview s ?i)))) (low_trace s xs)"
      by (rule ref_hits_cong [OF low_trace_range [OF Cons.prems(1)]]) (use sum(3) st(5) n1 in auto)
    then show "(\<forall>n \<in> set (umon_counters s2). unat n + length xs < 2 ^ 32) \<and>
      (\<Sum>k < w. unat (umon_counters s2 ! k)) + ref_hits (\<lambda>i. take w (uview s2 i)) (low_trace s xs)
       = (\<Sum>k < w. unat (umon_counters s ! k)) + ref_hits (\<lambda>i. take w (uview s i)) (low_trace s (x # xs))"
      using sum(1,2) st(5,6) True by (simp add: x low_trace_Cons)
  qed
  have "\<exists>s'. C_run xs s2 = Some s' \<and> tags_ok C_vt c_label s' \<and> umon_ok s' \<and> c_assoc s' = c_assoc s2
     \<and> (\<Sum>k < w. unat (umon_counters s' ! k))
        = (\<Sum>k < w. unat (umon_counters s2 ! k)) + ref_hits (\<lambda>i. take w (uview s2 i)) (low_trace s2 xs)"
    by (rule Cons.IH) (use st Cons.prems count(1) in auto)
  then show ?case
    using st(1,13) count(2) low_trace_cong [OF st(10,11), of xs] by (auto simp: x)
qed

subsection \<open>The fresh store\<close>

lemma isValid_data [simp]: "isValid (b \<lparr>blk_data := d\<rparr>) = isValid b"
  by (simp add: isValid_def)

lemma C_ctor_umon:
  assumes c: "C_ctor u raw nsets bsize asc hl la hmin = Inr s" and pos: "0 < unat asc"
  shows "umon_ok s" "c_assoc s = asc" "umon_counters s = replicate (unat asc) 0"
    "i < unat (numSets s) \<Longrightarrow> uview s i = replicate (unat asc) None"
proof -
  obtain s0 where s0: "s = C_init_sets u s0" "geometry_ok s0" "length (missCounter s0) = unat (numSets s0)"
    "L_assoc s0 = la" "H_assoc s0 = asc - la" "H_min s0 = hmin" "c_assoc s0 = asc" "numSets s0 = nsets"
    "umon_counters s0 = replicate (unat asc) 0" "occupancies s0 = occupancies raw" by (rule C_init_fields [OF c])
  let ?n = "unat (numSets s0)" and ?bs = "blkSize s0"
  let ?xs = "map (\<lambda>i. (unat (c_assoc s0), i, 0 :: nat)) [0..<?n]"
  obtain us ub where l: "link_sets u ?bs 0 ?xs = (us, ub)" by fastforce
  have f: "umon_set s = us" "umon_blks s = map (\<lambda>b. b \<lparr>blk_data := []\<rparr>) ub" "numSets s = numSets s0"
    "c_assoc s = asc" "umon_counters s = replicate (unat asc) 0"
    using s0 l by (simp_all add: C_init_sets_def split_beta Let_def)
  show "c_assoc s = asc" "umon_counters s = replicate (unat asc) 0" by (fact f)+
  have x: "i < length ?xs" "?xs ! i = (unat asc, i, 0)" if "i < unat (numSets s)" for i
    using that f s0 by simp_all
  have len: "length us = ?n" "length ub = sum_list (map fst ?xs)"
    using link_sets_length [of u ?bs 0 ?xs] l by simp_all
  have st: "us ! i = \<lparr>set_assoc = unat asc, ways = [offset ?xs i..<offset ?xs i + unat asc]\<rparr>" if "i < unat (numSets s)" for i
    using link_sets_set [OF x [OF that], of u ?bs 0] l by simp
  have bnd: "offset ?xs i + unat asc \<le> length ub" if "i < unat (numSets s)" for i
    using offset_bound [OF x [OF that]] len by simp
  have inv: "\<not> isValid (umon_blks s ! p)" if "i < unat (numSets s)" "p \<in> set (ways (us ! i))" for i p
    using link_sets_blk [OF x [OF that(1)], of "p - offset ?xs i" u ?bs 0] l that bnd [OF that(1)]
    by (auto simp: f st [OF that(1)])
  have dj: "set (ways (us ! i)) \<inter> set (ways (us ! j)) = {}" if "i < unat (numSets s)" "j < unat (numSets s)" "i \<noteq> j" for i j
    using link_sets_disjoint [OF l x(1) [OF that(1)] x(1) [OF that(2)] that(3)] .
  have ck: "cset_ok (length (umon_blks s)) (us ! i)" "length (ways (us ! i)) = unat asc" if "i < unat (numSets s)" for i
    using bnd [OF that] pos by (auto simp: cset_ok_def st [OF that] f)
  show "umon_ok s"
    unfolding umon_ok_def f(1,3,4,5) by (intro conjI allI impI ballI)
      (use ck inv dj len f pos in auto)
  show "uview s i = replicate (unat asc) None" if "i < unat (numSets s)"
    using inv [OF that] ck(2) [OF that] by (intro replicate_eqI) (auto simp: uview_def f blk_view_def)
qed

subsection \<open>Properties of the coarse-grained store\<close>

text \<open>
  C6: For every trace of Low and High accesses on a fresh coarse-grained store, the sum
  of the first w utility-monitor counters equals the number of hits that the Low
  accesses alone would have in a reference LRU cache with w ways, for every w up to the
  associativity; High accesses do not contribute.
\<close>

theorem umon_counts_low_hits:
  assumes "C_ctor u raw nsets bsize asc hl la hmin = Inr s" "0 < unat la" "0 < unat hmin" "unat la + unat hmin \<le> unat asc"
    and "\<forall>(a, tid, now) \<in> set xs. tid < 2" "length xs < 2 ^ 32" "0 < w" "w \<le> unat asc"
  shows "\<exists>s'. C_run xs s = Some s'
     \<and> (\<Sum>k < w. unat (the (lookup_umon k s'))) = ref_hits (\<lambda>i. replicate w None) (low_trace s xs)"
proof -
  note ok = C_ctor_ok(2) [OF assms(1-4)]
  have pos: "0 < unat asc" using assms(7,8) by simp
  note um = C_ctor_umon [OF assms(1) pos]
  have "\<forall>n \<in> set (umon_counters s). unat n + length xs < 2 ^ 32" using assms(6) um(3) by simp
  from C_run_sum [OF ok um(1) assms(5,7) _ this] assms(8) um(2) obtain s' where
    s': "C_run xs s = Some s'" "umon_ok s'" and keep: "c_assoc s' = asc"
    and sum: "(\<Sum>k < w. unat (umon_counters s' ! k))
        = (\<Sum>k < w. unat (umon_counters s ! k)) + ref_hits (\<lambda>i. take w (uview s i)) (low_trace s xs)" by auto
  have "ref_hits (\<lambda>i. take w (uview s i)) (low_trace s xs) = ref_hits (\<lambda>i. replicate w None) (low_trace s xs)"
    by (rule ref_hits_cong [OF low_trace_range [OF ok]]) (use um(4) assms(8) in \<open>simp add: min_def\<close>)
  moreover have "(\<Sum>k < w. unat (umon_counters s ! k)) = 0" using um(3) assms(8) by simp
  moreover have "lookup_umon k s' = Some (umon_counters s' ! k)" if "k < w" for k
    using s'(2) that assms(8) keep by (simp add: lookup_umon_def at_def umon_ok_def)
  ultimately show ?thesis using s'(1) sum by simp
qed

theorem umon_counts_low_hits_witness:
  "\<exists>s s'. C_ctor (\<lambda>_. 0) raw_cdyn 2 4 4 1 1 1 = Inr s
     \<and> C_run [(8, 0, 0), (12, 1, 1), (8, 0, 2)] s = Some s' \<and> (\<Sum>k < 2. unat (the (lookup_umon k s'))) = 1"
proof -
  obtain s where s: "C_ctor (\<lambda>_. 0) raw_cdyn 2 4 4 1 1 1 = Inr s" by (rule small_cdyn)
  have "low_trace s [(8, 0, 0), (12, 1, 1), (8, 0, 2)] = [(extractSet s 8, extractTag s 8), (extractSet s 8, extractTag s 8)]"
    by (simp add: low_trace_def)
  then show ?thesis
    using s umon_counts_low_hits [OF s, of "[(8, 0, 0), (12, 1, 1), (8, 0, 2)]" 2] by (simp add: u_access_def)
qed

text \<open>
  C20: An access to the coarse-grained store succeeds, hits exactly when the tag is in
  the partition of its own label, updates that recency list as LRU does and no other,
  and a High access leaves the utility monitor unchanged.
\<close>

theorem C_accessBlock_isolated:
  fixes a :: addr
  assumes "tags_ok C_vt c_label s" "umon_ok s" "tid < 2"
  shows "\<exists>r lat s'. C_accessBlock a tid now s = Some (r, lat, s') \<and> tags_ok C_vt c_label s' \<and> umon_ok s'
     \<and> (r = None \<longleftrightarrow> Some (extractTag s a) \<notin> set (view C_vt s tid (extractSet s a)))
     \<and> view C_vt s' tid (extractSet s a) = v_access (extractTag s a) (view C_vt s tid (extractSet s a))
     \<and> (\<forall>u < 2. \<forall>j < unat (numSets s). u \<noteq> tid \<or> j \<noteq> extractSet s a \<longrightarrow> view C_vt s' u j = view C_vt s u j)
     \<and> (tid = 1 \<longrightarrow> umon_counters s' = umon_counters s \<and> uview s' = uview s)"
proof -
  from C_access_step [OF assms, of a now] obtain r lat s1 s' where
    st: "C_accessBlock a tid now s = Some (r, lat, s')"
      "r = None \<longleftrightarrow> Some (extractTag s a) \<notin> set (view C_vt s tid (extractSet s a))"
      "refines_step C_vt c_label id tid (extractSet s a) (v_access (extractTag s a) (view C_vt s tid (extractSet s a))) s s1"
      "uview s1 = uview s" "umon_counters s1 = umon_counters s" "tags_ok C_vt c_label s'" "view C_vt s' = view C_vt s1"
      "if tid = 0 then umon_access (extractSet s a) (extractTag s a) s1 = Some s' else s' = s1" "umon_ok s'" by metis
  have "view C_vt s1 tid (extractSet s a) = v_access (extractTag s a) (view C_vt s tid (extractSet s a))"
    "\<forall>u < 2. \<forall>j < unat (numSets s). u \<noteq> tid \<or> j \<noteq> extractSet s a \<longrightarrow> view C_vt s1 u j = view C_vt s u j"
    using st(3) by (auto simp: refines_step_def c_label_def)
  then show ?thesis using st by auto
qed

theorem C_accessBlock_isolated_witness:
  "\<exists>s r lat s'. C_ctor (\<lambda>_. 0) raw_cdyn 2 4 4 1 1 1 = Inr s \<and> C_accessBlock 8 1 0 s = Some (r, lat, s')
     \<and> umon_counters s' = umon_counters s"
proof -
  obtain s where s: "C_ctor (\<lambda>_. 0) raw_cdyn 2 4 4 1 1 1 = Inr s" "tags_ok C_vt c_label s" by (rule small_cdyn)
  have "umon_ok s" using C_ctor_umon(1) [OF s(1)] by simp
  from C_accessBlock_isolated [OF s(2) this, of 1 8 0] show ?thesis using s(1) by auto
qed

end
