(* ===== verification/Tags_Evict.thy ===== *)
theory Tags_Evict
imports Tags_Dynamic
begin

text \<open>
  The fine-grained store (\<open>src/src/mem/cache/tags/f_dynalru.cc\<close>): what
  \<open>dec_size\<close> marks, what \<open>get_evictBlk\<close> returns afterwards, which recency
  orders an access changes, and when \<open>findVictim\<close> of the High partition stays
  inside its array.
\<close>

subsection \<open>The two scans\<close>

definition marked :: "CacheBlk \<Rightarrow> CacheBlk" where
  "marked b = b \<lparr>blk_threadID := 1000\<rparr>"

text \<open>The block of a set that gives up its place: the least recently used valid, unused one of thread 0.\<close>

definition evictee :: "blk_store \<Rightarrow> nat list \<Rightarrow> nat option" where
  "evictee h ws = List.find (\<lambda>p. evict_cand (h ! p)) (rev ws)"

lemma mark_scan_eq:
  assumes "n \<le> length ws" "\<forall>p \<in> set ws. p < length h"
  shows "mark_scan ws n h = Some (case evictee h (take n ws) of None \<Rightarrow> h | Some p \<Rightarrow> h[p := marked (h ! p)])"
  using assms
proof (induction n)
  case (Suc j)
  then have "at ws j = Some (ws ! j)" "at h (ws ! j) = Some (h ! (ws ! j))" by (simp_all add: at_def)
  moreover have "rev (take (Suc j) ws) = ws ! j # rev (take j ws)"
    using Suc.prems by (simp add: take_Suc_conv_app_nth)
  ultimately show ?case using Suc by (simp add: evictee_def marked_def)
qed (simp add: evictee_def)

lemma evict_scan_eq:
  assumes "n \<le> length ws" "\<forall>p \<in> set ws. p < length h"
  shows "evict_scan ws n h i = Some (case List.find (\<lambda>p. blk_threadID (h ! p) = 1000) (drop i (take n ws)) of
     None \<Rightarrow> (None, h) | Some p \<Rightarrow> (Some p, h[p := (h ! p) \<lparr>blk_threadID := 0\<rparr>]))"
  using assms
proof (induction ws n h i rule: evict_scan.induct)
  case (1 ws n h i)
  show ?case
  proof (cases "i < n")
    case True
    then have "at ws i = Some (ws ! i)" "at h (ws ! i) = Some (h ! (ws ! i))" using "1.prems" by (simp_all add: at_def)
    moreover have "drop i (take n ws) = ws ! i # drop (Suc i) (take n ws)"
      using True "1.prems"(1) by (metis Cons_nth_drop_Suc length_take min.absorb2 nth_take)
    ultimately show ?thesis
      using True "1.IH" "1.prems" by (subst evict_scan.simps) simp
  qed (simp add: evict_scan.simps)
qed

lemma has_invalid_eq:
  assumes "n \<le> length ws" "\<forall>p \<in> set ws. p < length h"
  shows "has_invalid ws n h = (if None \<in> set (map (\<lambda>p. blk_view (h ! p)) (take n ws)) then Some () else None)"
  using assms
proof (induction n)
  case (Suc n)
  then have "at ws n = Some (ws ! n)" "at h (ws ! n) = Some (h ! (ws ! n))" by (simp_all add: at_def)
  then show ?case using Suc by (simp add: take_Suc_conv_app_nth blk_view_def)
qed simp

subsection \<open>Marking all sets\<close>

lemma get_set_blks [simp]: "get_set vt (s \<lparr>blks := h\<rparr>) i t = get_set vt s i t"
  by (simp add: get_set_def in_range_def set_at_def)

lemma find_eq_mem: "q \<in> set xs \<Longrightarrow> List.find (\<lambda>p. p = q) xs = Some q"
  by (induction xs) auto

lemma low_set:
  assumes "tags_ok F_vt f_label s" "i < unat (numSets s)"
  shows "get_set F_vt s i 0 = Some (set_at s (0, i))" "length (way_of s 0 i) = unat (f_L_assoc s)"
    "\<forall>p \<in> set (way_of s 0 i). p < length (blks s)" "distinct (way_of s 0 i)"
    "j < unat (numSets s) \<Longrightarrow> j \<noteq> i \<Longrightarrow> set (way_of s 0 i) \<inter> set (way_of s 0 j) = {}"
proof -
  have l: "f_label s 0" by (simp add: f_label_def)
  have "in_range s (slot F_vt i 0) \<and> set_inv s i (set_at s (slot F_vt i 0))
      \<and> assoc_of_tc F_vt s 0 = length (ways (set_at s (slot F_vt i 0)))"
    using assms l unfolding tags_ok_def by blast
  then have o: "in_range s (0, i)" "set_inv s i (set_at s (0, i))" "unat (f_L_assoc s) = length (way_of s 0 i)"
    by (simp_all add: F_vt_def F_assoc_of_tc_def way_of_def)
  show "get_set F_vt s i 0 = Some (set_at s (0, i))" using o(1) by (simp add: get_set_def F_vt_def)
  show "length (way_of s 0 i) = unat (f_L_assoc s)" using o(3) by simp
  show "\<forall>p \<in> set (way_of s 0 i). p < length (blks s)" "distinct (way_of s 0 i)"
    using set_inv_less [OF o(2)] cset_ok_distinct [OF set_inv_cset [OF o(2)]] by (auto simp: way_of_def)
  show "set (way_of s 0 i) \<inter> set (way_of s 0 j) = {}" if "j < unat (numSets s)" "j \<noteq> i"
    using assms that l by (auto simp: tags_ok_def F_vt_def way_of_def)
qed

lemma evictee_in: "evictee h ws = Some p \<Longrightarrow> p \<in> set ws \<and> evict_cand (h ! p)"
  unfolding evictee_def by (drule find_SomeD) simp

lemma evictee_cong: "(\<And>p. p \<in> set ws \<Longrightarrow> h' ! p = h ! p) \<Longrightarrow> evictee h' ws = evictee h ws"
  unfolding evictee_def by (rule find_cong) simp_all

lemma F_mark_sets_eq:
  assumes "tags_ok F_vt f_label s" "n \<le> unat (numSets s)"
  shows "\<exists>h. F_mark_sets n s = Some (s \<lparr>blks := h\<rparr>) \<and> length h = length (blks s)
     \<and> (\<forall>p. h ! p = (if \<exists>i < n. evictee (blks s) (way_of s 0 i) = Some p then marked (blks s ! p) else blks s ! p))"
  using assms(2)
proof (induction n)
  case 0
  then show ?case by (intro exI [of _ "blks s"]) simp
next
  case (Suc n)
  then obtain h where h: "F_mark_sets n s = Some (s \<lparr>blks := h\<rparr>)" "length h = length (blks s)"
    "\<And>p. h ! p = (if \<exists>i < n. evictee (blks s) (way_of s 0 i) = Some p then marked (blks s ! p) else blks s ! p)" by auto
  have n: "n < unat (numSets s)" using Suc.prems by simp
  note lo = low_set [OF assms(1) n]
  have get: "get_set F_vt (s \<lparr>blks := h\<rparr>) n 0 = Some (set_at s (0, n))" using lo(1) by simp
  have same: "h ! p = blks s ! p" if "p \<in> set (way_of s 0 n)" for p
  proof -
    have "evictee (blks s) (way_of s 0 i) \<noteq> Some p" if "i < n" for i
      using lo(5) [of i] evictee_in [of "blks s" "way_of s 0 i" p] \<open>p \<in> _\<close> that n by auto
    then show ?thesis using h(3) [of p] by auto
  qed
  have ev: "evictee h (way_of s 0 n) = evictee (blks s) (way_of s 0 n)" by (rule evictee_cong) (rule same)
  let ?h = "case evictee (blks s) (way_of s 0 n) of None \<Rightarrow> h | Some p \<Rightarrow> h[p := marked (h ! p)]"
  have scan: "mark_scan (ways (set_at s (0, n))) (unat (f_L_assoc s)) h = Some ?h"
    using mark_scan_eq [of "unat (f_L_assoc s)" "way_of s 0 n" h] lo(2,3) h(2) ev by (simp add: way_of_def)
  have "F_mark_sets (Suc n) s = Some (s \<lparr>blks := ?h\<rparr>)" using h(1) get scan by simp
  moreover have "length ?h = length (blks s)" using h(2) by (simp split: option.split)
  moreover have "?h ! p = (if \<exists>i < Suc n. evictee (blks s) (way_of s 0 i) = Some p then marked (blks s ! p) else blks s ! p)" for p
  proof (cases "evictee (blks s) (way_of s 0 n) = Some p")
    case True
    then have "p \<in> set (way_of s 0 n)" by (simp add: evictee_in)
    then show ?thesis using True same lo(3) h(2) by auto
  next
    case False
    then have "?h ! p = h ! p" by (auto split: option.split)
    then show ?thesis using False h(3) [of p] by (auto simp: less_Suc_eq)
  qed
  ultimately show ?case by blast
qed

subsection \<open>A touch without a move\<close>

context tag_layout
begin

lemma touch_refines:
  assumes ok: "tags_ok vt vld s" and t: "vld s t" and i: "i < unat (numSets s)"
    and p: "p \<in> set (ways (set_at s (slot vt i t)))"
    and b': "isValid b' = isValid (blks s ! p)" "tag b' = tag (blks s ! p)"
      "blk_set b' = blk_set (blks s ! p)" "srcMasterId b' = srcMasterId (blks s ! p)"
  shows "refines_step vt vld part t i (view vt s t i) s (s \<lparr>blks := (blks s)[p := b']\<rparr>)"
    (is "refines_step _ _ _ _ _ _ _ ?s'")
proof -
  let ?c = "set_at s (slot vt i t)"
  have sinv: "set_inv s i ?c" using ok i t by (simp add: tags_ok_def)
  have pl: "p < length (blks s)" using set_inv_less [OF sinv p] .
  have vw: "map (\<lambda>q. blk_view (blks ?s' ! q)) (ways ?c) = view vt s t i"
    using pl b' by (auto simp: nth_list_update blk_view_def view_def)
  have inv: "set_inv ?s' i ?c"
  proof (rule set_inv_transfer [OF sinv])
    show "cset_ok (length (blks ?s')) ?c" using set_inv_cset [OF sinv] by simp
  qed (use sinv p pl b' in \<open>auto simp: nth_list_update set_inv_def split: if_splits\<close>)
  have sets: "sets ?s' = sets (upd_at (slot vt i t) ?c s)" by (simp add: set_at_def)
  show ?thesis
    by (rule refines_local [OF ok i t p, where c' = ?c and b' = b'])
      (use vw inv sets in \<open>simp_all add: frame_def\<close>)
qed

end

subsection \<open>The fresh store\<close>

lemma F_ctor_ok:
  assumes c: "F_ctor u raw nsets bsize asc hl = Inr s" and h: "1 < unat asc"
  shows "tags_ok F_vt f_label s" "numSets s = nsets" "t < 2 \<Longrightarrow> i < unat nsets \<Longrightarrow>
     view F_vt s t i = replicate (F_assoc_of_tc s t) None \<and> (\<forall>p \<in> set (way_of s t i). blk_threadID (blks s ! p) = t)"
proof -
  from c obtain s1 where s1: "LRU_ctor u raw nsets bsize asc hl = Inr s1"
    and s: "s = F_init_sets u (s1 \<lparr>f_L_assoc := asc - 1, f_H_assoc := 1\<rparr>)"
    by (auto simp: F_ctor_def split: sum.splits)
  define s0 where "s0 = s1 \<lparr>f_L_assoc := asc - 1, f_H_assoc := 1\<rparr>"
  have geo: "geometry_ok s0" "length (missCounter s0) = unat (numSets s0)" "numSets s0 = nsets"
    using LRU_ctor_Inr [OF s1] by (simp_all add: s0_def geometry_ok_def)
  let ?n = "unat (numSets s0)"
  let ?f = "\<lambda>tc i. (F_assoc_of_tc s0 tc, i, tc)"
  obtain ss bl where l: "link_sets u (blkSize s0) 0 (grid 2 ?n ?f) = (ss, bl)" by fastforce
  note rm = row_major [OF l]
  have s': "sets s = chunk ?n 2 ss" "blks s = bl" "numSets s = numSets s0" "f_L_assoc s = asc - 1" "f_H_assoc s = 1"
    "missCounter s = missCounter s0" "geometry_ok s = geometry_ok s0" "assoc s = assoc s0"
    using s by (simp_all add: F_init_sets_def s0_def [symmetric] l split_beta Let_def geometry_ok_def) (simp_all add: s0_def)
  have as: "F_assoc_of_tc s = F_assoc_of_tc s0"
    by (simp add: F_assoc_of_tc_def fun_eq_iff s' s0_def)
  have p: "0 < F_assoc_of_tc s0 t" for t
    using h unat_minus1 [of asc] by (simp add: F_assoc_of_tc_def s0_def)
  have at: "set_at s (r, i) = ss ! (r * ?n + i)" "in_range s (r, i)" if "r < 2" "i < ?n" for r i
    using rm [OF that] that by (simp_all add: set_at_def in_range_def s')
  show "tags_ok F_vt f_label s"
    by (rule init_tags_ok [where idx = "\<lambda>i t. t * ?n + i" and u = u and bs = "blkSize s0" and ss = ss
          and xs = "grid 2 ?n ?f"])
      (use geo l rm p at in \<open>auto simp: s' F_vt_def f_label_def as dest: grid_index_inj\<close>)
  show "numSets s = nsets" using s'(3) geo(3) by simp
  show "view F_vt s t i = replicate (F_assoc_of_tc s t) None \<and> (\<forall>p \<in> set (way_of s t i). blk_threadID (blks s ! p) = t)"
    if t: "t < 2" and i: "i < unat nsets"
  proof -
    have i': "i < ?n" using i geo(3) by simp
    have x: "t * ?n + i < length (grid 2 ?n ?f)" "grid 2 ?n ?f ! (t * ?n + i) = (F_assoc_of_tc s0 t, i, t)"
      using rm(4,5) [OF t i'] by simp_all
    have w: "way_of s t i = [offset (grid 2 ?n ?f) (t * ?n + i)..<offset (grid 2 ?n ?f) (t * ?n + i) + F_assoc_of_tc s0 t]"
      using link_sets_set [OF x, of u "blkSize s0" 0] l at(1) [OF t i'] by (simp add: way_of_def)
    have "blk_threadID (blks s ! q) = t" if "q \<in> set (way_of s t i)" for q
      using link_sets_blk [OF x, of "q - offset (grid 2 ?n ?f) (t * ?n + i)" u "blkSize s0" 0] l that
      by (auto simp: w s')
    moreover have "view F_vt s t i = replicate (F_assoc_of_tc s0 t) None"
      by (rule init_view [OF l [folded s'(2)] x]) (use at(1) [OF t i'] in \<open>simp add: F_vt_def\<close>)
    ultimately show ?thesis by (simp add: as)
  qed
qed

definition raw_fdyn :: F_DYNALRU where
  "raw_fdyn = \<lparr>warmupBound = 0, warmedUp = False, numBlocks = 0, replacements = 0,
     tagsInUse = 0, totalRefs = 0, sampledRefs = 0, warmupCycle = 0, occupancies = [0, 0, 0], sets = [],
     numSets = 0, blkSize = 0, assoc = 0, hitLatency = 0, blks = [], setShift = 0, tagShift = 0,
     setMask = 0, blkMask = 0, missCounter = [], f_L_assoc = 0, f_H_assoc = 0\<rparr>"

lemma small_fdyn:
  obtains s where "F_ctor (\<lambda>_. 0) raw_fdyn 2 4 4 1 = Inr s" "tags_ok F_vt f_label s" "numSets s = 2"
    "\<forall>i < unat (numSets s). \<forall>p \<in> set (way_of s 0 i). blk_threadID (blks s ! p) \<noteq> 1000"
    "view F_vt s 1 0 = replicate (F_assoc_of_tc s 1) None"
proof -
  have "\<exists>b. unat (4 :: 32 word) = 2 ^ b" by (rule exI [of _ 2]) simp
  moreover have "\<exists>n. unat (2 :: 32 word) = 2 ^ n" by (rule exI [of _ 1]) simp
  ultimately have "\<exists>s0 :: F_DYNALRU. LRU_ctor (\<lambda>_. 0) raw_fdyn 2 4 4 1 = Inr s0"
    unfolding LRU_ctor_valid_iff by simp
  then obtain s where s: "F_ctor (\<lambda>_. 0) raw_fdyn 2 4 4 1 = Inr s" by (auto simp: F_ctor_def)
  note ok = F_ctor_ok [OF s]
  have "\<forall>i < unat (numSets s). \<forall>p \<in> set (way_of s 0 i). blk_threadID (blks s ! p) \<noteq> 1000"
    using ok(2) ok(3) [of 0] by simp
  then show thesis using that [OF s] ok(1,2) ok(3) [of 1 0] by simp
qed

subsection \<open>Properties\<close>

text \<open>
  C23: Shrinking the fine-grained Low partition marks in each set the least recently
  used valid block of thread 0 that was not used, get_evictBlk returns exactly that
  block (or none), and fetching it restores the thread number the mark replaced.
\<close>

theorem F_dec_size_marks:
  assumes ok: "tags_ok F_vt f_label s"
    and unmarked: "\<forall>i < unat (numSets s). \<forall>p \<in> set (way_of s 0 i). blk_threadID (blks s ! p) \<noteq> 1000"
  shows "\<exists>s1. F_dec_size s = Some (numSets s, s1) \<and> sets s1 = sets s
    \<and> (\<forall>i < unat (numSets s). \<exists>s2. F_get_evictBlk 0 i s1 = Some (evictee (blks s) (way_of s 0 i), s2)
         \<and> sets s2 = sets s \<and> (\<forall>p \<in> set (way_of s 0 i). blks s2 ! p = blks s ! p))"
proof -
  obtain h where h: "F_mark_sets (unat (numSets s)) s = Some (s \<lparr>blks := h\<rparr>)" "length h = length (blks s)"
    "\<And>p. h ! p = (if \<exists>i < unat (numSets s). evictee (blks s) (way_of s 0 i) = Some p then marked (blks s ! p) else blks s ! p)"
    using F_mark_sets_eq [OF ok order_refl] by blast
  let ?s1 = "s \<lparr>blks := h\<rparr>"
  have "\<exists>s2. F_get_evictBlk 0 i ?s1 = Some (evictee (blks s) (way_of s 0 i), s2)
         \<and> sets s2 = sets s \<and> (\<forall>p \<in> set (way_of s 0 i). blks s2 ! p = blks s ! p)" if i: "i < unat (numSets s)" for i
  proof -
    note lo = low_set [OF ok i]
    let ?e = "evictee (blks s) (way_of s 0 i)"
    have get: "get_set F_vt ?s1 i 0 = Some (set_at s (0, i))" using lo(1) by simp
    have hp: "h ! p = (if ?e = Some p then marked (blks s ! p) else blks s ! p)" if "p \<in> set (way_of s 0 i)" for p
    proof -
      have "evictee (blks s) (way_of s 0 j) \<noteq> Some p" if "j < unat (numSets s)" "j \<noteq> i" for j
        using lo(5) [OF that] evictee_in [of "blks s" "way_of s 0 j" p] \<open>p \<in> _\<close> by auto
      then show ?thesis using h(3) [of p] i by auto
    qed
    have id: "blk_threadID (h ! p) = 1000 \<longleftrightarrow> ?e = Some p" if "p \<in> set (way_of s 0 i)" for p
      using hp [OF that] unmarked i that by (simp add: marked_def)
    have find: "List.find (\<lambda>p. blk_threadID (h ! p) = 1000) (way_of s 0 i) = ?e"
    proof (cases ?e)
      case None
      then show ?thesis using id by (auto simp: find_None_iff)
    next
      case (Some q)
      have "List.find (\<lambda>p. blk_threadID (h ! p) = 1000) (way_of s 0 i) = List.find (\<lambda>p. p = q) (way_of s 0 i)"
        by (rule find_cong [OF refl]) (use id Some in auto)
      then show ?thesis using evictee_in [OF Some] find_eq_mem Some by metis
    qed
    let ?h2 = "case ?e of None \<Rightarrow> h | Some p \<Rightarrow> h[p := (h ! p) \<lparr>blk_threadID := 0\<rparr>]"
    have "F_get_evictBlk 0 i ?s1 = Some (?e, ?s1 \<lparr>blks := ?h2\<rparr>)"
      using evict_scan_eq [of "unat (f_L_assoc s)" "way_of s 0 i" h 0] lo(2,3) h(2) get find
      by (simp add: F_get_evictBlk_def way_of_def split: option.split)
    moreover have "?h2 ! p = blks s ! p" if "p \<in> set (way_of s 0 i)" for p
    proof (cases "?e = Some p")
      case True
      then have "blk_threadID (blks s ! p) = 0" using evictee_in [OF True] by (simp add: evict_cand_def)
      then show ?thesis using True hp [OF that] lo(3) that h(2) by (simp add: marked_def)
    next
      case False
      then show ?thesis using hp [OF that] by (auto split: option.split)
    qed
    ultimately show ?thesis by (intro exI [of _ "?s1 \<lparr>blks := ?h2\<rparr>"]) simp
  qed
  then show ?thesis using h(1) by (intro exI [of _ ?s1]) (simp add: F_dec_size_def)
qed

theorem F_dec_size_marks_witness:
  "\<exists>s s1. F_ctor (\<lambda>_. 0) raw_fdyn 2 4 4 1 = Inr s \<and> F_dec_size s = Some (2, s1) \<and> sets s1 = sets s"
proof -
  obtain s where s: "F_ctor (\<lambda>_. 0) raw_fdyn 2 4 4 1 = Inr s" "tags_ok F_vt f_label s" "numSets s = 2"
    "\<forall>i < unat (numSets s). \<forall>p \<in> set (way_of s 0 i). blk_threadID (blks s ! p) \<noteq> 1000" by (rule small_fdyn)
  from F_dec_size_marks [OF s(2,4)] show ?thesis using s(1,3) by auto
qed

text \<open>
  An access to the fine-grained store succeeds; a Low access sees only the Low
  partition, a High access sees both; each changes only the recency list of its own
  partition, so a High hit on a Low block leaves the Low order untouched.
\<close>

theorem F_accessBlock_isolated:
  fixes a :: addr
  assumes ok: "tags_ok F_vt f_label s" and t: "tid < 2"
  shows "\<exists>r lat s'. F_accessBlock a tid now s = Some (r, lat, s') \<and> tags_ok F_vt f_label s'
     \<and> (r = None \<longleftrightarrow> Some (extractTag s a) \<notin> set (view F_vt s tid (extractSet s a))
           \<and> (tid = 1 \<longrightarrow> Some (extractTag s a) \<notin> set (view F_vt s 0 (extractSet s a))))
     \<and> view F_vt s' tid (extractSet s a) = v_access (extractTag s a) (view F_vt s tid (extractSet s a))
     \<and> (\<forall>u < 2. \<forall>j < unat (numSets s). u \<noteq> tid \<or> j \<noteq> extractSet s a \<longrightarrow> view F_vt s' u j = view F_vt s u j)"
proof -
  let ?i = "extractSet s a" and ?t = "extractTag s a"
  have lab: "f_label s tid" "f_label s 0" "f_label s 1" using t by (simp_all add: f_label_def)
  note own = fdyn.own_set [OF ok lab(1), of a] and low = fdyn.own_set [OF ok lab(2), of a]
  have sl: "slot F_vt i u = (u, i)" for i u by (simp add: F_vt_def)
  have fin: ?thesis
    if "F_accessBlock a tid now s = Some (r, lat, s')" "refines_step F_vt f_label id tid ?i (v_access ?t (view F_vt s tid ?i)) s s'"
      "r = None \<longleftrightarrow> Some ?t \<notin> set (view F_vt s tid ?i) \<and> (tid = 1 \<longrightarrow> Some ?t \<notin> set (view F_vt s 0 ?i))" for r lat s'
    using that by (auto simp: refines_step_def f_label_def)
  show ?thesis
  proof (rule find_view_cases [OF own(4), of ?t], goal_cases hit miss)
    case (hit p)
    let ?c = "set_at s (slot F_vt ?i tid)"
    let ?b = "(blks s ! p) \<lparr>refCount := refCount (blks s ! p) + 1, isTouched := True\<rparr>"
    have "moveToHead p ?c = Some (?c \<lparr>ways := to_head p (ways ?c)\<rparr>)"
      using moveToHead_eq [OF set_inv_cset [OF own(4)]] hit(2) by simp
    moreover have "tid = 0 \<or> tid = 1" using t by auto
    ultimately have "\<exists>lat. F_accessBlock a tid now s = Some (Some p, lat,
        upd_at (slot F_vt ?i tid) (?c \<lparr>ways := to_head p (ways ?c)\<rparr>) s \<lparr>blks := (blks s)[p := ?b]\<rparr>)"
      using own(3) hit(1,3) findBlk_view [OF own(4), of ?t]
      by (auto simp: F_accessBlock_def Let_def)
    moreover have "Some ?t \<in> set (view F_vt s tid ?i)" using hit(6) by (auto simp: view_def)
    ultimately show ?thesis
      using fin fdyn.hit_refines [OF ok lab(1) own(1) hit(2,4), of ?b] by auto
  next
    case miss
    have own_miss: "Some ?t \<notin> set (view F_vt s tid ?i)" using miss(2) by (simp add: view_def)
    have fb: "findBlk (blks s) (set_at s (slot F_vt ?i tid)) ?t = Some None"
      using miss(1) findBlk_view [OF own(4), of ?t] by simp
    have stay: "refines_step F_vt f_label id tid ?i (v_access ?t (view F_vt s tid ?i)) s s"
      using own_miss by (intro fdyn.refines_refl [OF ok]) (simp add: v_access_def)
    show ?thesis
    proof (cases "tid = 0")
      case True
      then show ?thesis using fin [OF _ stay] own_miss fb own(3) by (simp add: F_accessBlock_def)
    next
      case False
      then have t1: "tid = 1" using t by simp
      show ?thesis
      proof (rule find_view_cases [OF low(4), of ?t], goal_cases lowhit lowmiss)
        case (lowhit p)
        let ?b = "(blks s ! p) \<lparr>refCount := refCount (blks s ! p) + 1, isTouched := True\<rparr>"
        let ?s' = "s \<lparr>blks := (blks s)[p := ?b]\<rparr>"
        have "\<exists>lat. F_accessBlock a tid now s = Some (Some p, lat, ?s')"
          using t1 own(3) low(3) fb lowhit(1,3) findBlk_view [OF low(4), of ?t] by (simp add: F_accessBlock_def Let_def)
        moreover have "refines_step F_vt f_label id 0 ?i (view F_vt s 0 ?i) s ?s'"
          by (rule fdyn.touch_refines [OF ok lab(2) low(1) lowhit(2)]) simp_all
        then have "refines_step F_vt f_label id tid ?i (v_access ?t (view F_vt s tid ?i)) s ?s'"
          using t1 own_miss low(1) by (auto simp: refines_step_def f_label_def v_access_def)
        moreover have "Some ?t \<in> set (view F_vt s 0 ?i)" using lowhit(6) by (simp add: view_def)
        ultimately show ?thesis using fin t1 by auto
      next
        case lowmiss
        then have "Some ?t \<notin> set (view F_vt s 0 ?i)" by (simp add: view_def)
        moreover have "F_accessBlock a tid now s = Some (None, hitLatency s, s)"
          using t1 own(3) low(3) fb lowmiss(1) findBlk_view [OF low(4), of ?t] by (simp add: F_accessBlock_def Let_def)
        ultimately show ?thesis using fin [OF _ stay] own_miss by auto
      qed
    qed
  qed
qed

theorem F_accessBlock_isolated_witness:
  "\<exists>s r lat s'. F_ctor (\<lambda>_. 0) raw_fdyn 2 4 4 1 = Inr s \<and> F_accessBlock 8 1 0 s = Some (r, lat, s')
     \<and> view F_vt s' 0 0 = view F_vt s 0 0"
proof -
  obtain s where s: "F_ctor (\<lambda>_. 0) raw_fdyn 2 4 4 1 = Inr s" "tags_ok F_vt f_label s" "numSets s = 2" by (rule small_fdyn)
  from F_accessBlock_isolated [OF s(2), of 1 8 0] show ?thesis using s(1,3) by auto
qed

text \<open>
  The fine-grained store picks the last Low block for a Low fill; for a High fill
  it picks the last High block if some High block is invalid, and otherwise the unsigned
  scan leaves the array.
\<close>

theorem F_findVictim_full_High:
  fixes a :: addr
  assumes "tags_ok F_vt f_label s"
  shows "F_findVictim a 0 s = Some (last (way_of s 0 (extractSet s a)))
    \<and> F_findVictim a 1 s = (if None \<in> set (view F_vt s 1 (extractSet s a))
       then Some (last (way_of s 1 (extractSet s a))) else None)"
proof -
  have lab: "f_label s 0" "f_label s 1" by (simp_all add: f_label_def)
  have last: "at (way_of s t (extractSet s a)) (F_assoc_of_tc s t - 1) = Some (last (way_of s t (extractSet s a)))"
    "0 < F_assoc_of_tc s t" "get_set F_vt s (extractSet s a) t = Some (set_at s (t, extractSet s a))" if "f_label s t" for t
    using fdyn.own_set(3-5) [OF assms that, of a] cset_ok_distinct [OF set_inv_cset [OF fdyn.own_set(4) [OF assms that, of a]]]
    by (simp_all add: F_vt_def way_of_def at_def last_conv_nth)
  note high = fdyn.own_set(4,5) [OF assms lab(2), of a]
  have "has_invalid (way_of s 1 (extractSet s a)) (unat (f_H_assoc s)) (blks s)
      = (if None \<in> set (view F_vt s 1 (extractSet s a)) then Some () else None)"
    using has_invalid_eq [of "unat (f_H_assoc s)" "way_of s 1 (extractSet s a)" "blks s"] set_inv_less [OF high(1)] high(2)
    by (simp add: F_vt_def F_assoc_of_tc_def way_of_def view_def)
  then show ?thesis
    using last [OF lab(1)] last [OF lab(2)] by (simp add: F_findVictim_def way_of_def Let_def)
qed

theorem F_findVictim_full_High_witness:
  "\<exists>s. F_ctor (\<lambda>_. 0) raw_fdyn 2 4 4 1 = Inr s
     \<and> F_findVictim 8 0 s = Some (last (way_of s 0 (extractSet s 8)))"
proof -
  obtain s where s: "F_ctor (\<lambda>_. 0) raw_fdyn 2 4 4 1 = Inr s" "tags_ok F_vt f_label s" by (rule small_fdyn)
  from F_findVictim_full_High [OF s(2), of 8] show ?thesis using s(1) by auto
qed

end
