(* ===== verification/Cache_MSHR.thy ===== *)
theory Cache_MSHR
imports Mem_Packet
begin

text \<open>
  Miss status holding registers (\<open>src/src/mem/cache/mshr.hh\<close>, \<open>mshr.cc\<close>).
  MSHRs and packets are shared objects: a target points to its packet, and
  the sender state of that packet may point to the MSHR of an upstream cache
  whose \<open>downstreamPending\<close> flag this MSHR sets and clears.  The store \<open>heap\<close>
  holds both kinds of object; a pointer is an index into it.  The two target
  lists an MSHR owns are fields of its record.  \<open>curTick()\<close> is the argument
  \<open>now\<close>, and \<open>raw\<close> is the uninitialised storage of a packet the code
  allocates.
\<close>

subsection \<open>Data\<close>

datatype Source = FromCPU | FromSnoop | FromPrefetcher

record Target =
  recvTime :: tick
  tgt_readyTime :: tick
  tgt_order :: int
  pkt :: nat
  source :: Source
  markedPending :: bool

record TargetList =
  tl_list :: "Target list"
  tl_needsExclusive :: bool
  tl_hasUpgrade :: bool

record MSHR =
  queue :: nat
  readyTime :: tick
  order :: int
  m_addr :: addr
  m_size :: "32 word"
  inService :: bool
  isForward :: bool
  m_isUncacheable :: bool
  downstreamPending :: bool
  pendingDirty :: bool
  postInvalidate :: bool
  postDowngrade :: bool
  threadNum :: int
  ntargets :: "16 word"
  m_data :: "byte list option"
  targets :: TargetList
  deferredTargets :: TargetList

record heap =
  pkts :: "Packet list"
  mshrs :: "MSHR list"

definition InvalidThreadID :: int where "InvalidThreadID = -1"

definition upd_mshr :: "nat \<Rightarrow> (MSHR \<Rightarrow> MSHR) \<Rightarrow> heap \<Rightarrow> heap" where
  "upd_mshr m f h = h \<lparr>mshrs := (mshrs h)[m := f (mshrs h ! m)]\<rparr>"

definition upd_pkt :: "nat \<Rightarrow> (Packet \<Rightarrow> Packet) \<Rightarrow> heap \<Rightarrow> heap" where
  "upd_pkt p f h = h \<lparr>pkts := (pkts h)[p := f (pkts h ! p)]\<rparr>"

subsection \<open>Target lists\<close>

definition TargetList_new :: TargetList where
  "TargetList_new = \<lparr>tl_list = [], tl_needsExclusive = False, tl_hasUpgrade = False\<rparr>"

definition resetFlags :: "TargetList \<Rightarrow> TargetList" where
  "resetFlags l = l \<lparr>tl_needsExclusive := False, tl_hasUpgrade := False\<rparr>"

definition isReset :: "TargetList \<Rightarrow> bool" where
  "isReset l = (\<not> tl_needsExclusive l \<and> \<not> tl_hasUpgrade l)"

text \<open>The flags and the \<open>push_back\<close> of \<open>TargetList::add\<close>.\<close>

definition tl_push :: "Packet \<Rightarrow> nat \<Rightarrow> tick \<Rightarrow> int \<Rightarrow> Source \<Rightarrow> bool \<Rightarrow> tick \<Rightarrow> TargetList \<Rightarrow> TargetList" where
  "tl_push b p ready ord sr markPending now l =
     (let l = (if sr \<noteq> FromSnoop \<and> needsExclusive (cmd b) then l \<lparr>tl_needsExclusive := True\<rparr> else l);
          l = (if sr \<noteq> FromSnoop \<and> (isUpgrade (cmd b) \<or> cmd b = StoreCondReq)
               then l \<lparr>tl_hasUpgrade := True\<rparr> else l)
      in l \<lparr>tl_list := tl_list l @ [\<lparr>recvTime = now, tgt_readyTime = ready, tgt_order = ord, pkt = p,
            source = sr, markedPending = markPending\<rparr>]\<rparr>)"

text \<open>Marking the upstream MSHR of a packet, with the assertion that it is not marked yet.\<close>

definition mark_upstream :: "Packet \<Rightarrow> heap \<Rightarrow> heap option" where
  "mark_upstream b h = (case senderState b of
     Some (MSHRState k) \<Rightarrow> do {
       m \<leftarrow> at (mshrs h) k;
       check (\<not> downstreamPending m);
       Some (upd_mshr k (\<lambda>m. m \<lparr>downstreamPending := True\<rparr>) h) }
   | _ \<Rightarrow> Some h)"

text \<open>
  \<open>add\<close> on the regular (\<open>dfr = False\<close>) or the deferred list of MSHR \<open>m\<close>.
\<close>

definition tl_add :: "bool \<Rightarrow> nat \<Rightarrow> nat \<Rightarrow> tick \<Rightarrow> int \<Rightarrow> Source \<Rightarrow> bool \<Rightarrow> tick \<Rightarrow> heap \<Rightarrow> heap option" where
  "tl_add dfr m p ready ord sr markPending now h = do {
     b \<leftarrow> at (pkts h) p;
     h \<leftarrow> (if markPending then mark_upstream b h else Some h);
     check (m < length (mshrs h));
     Some (upd_mshr m (\<lambda>r. if dfr
         then r \<lparr>deferredTargets := tl_push b p ready ord sr markPending now (deferredTargets r)\<rparr>
         else r \<lparr>targets := tl_push b p ready ord sr markPending now (targets r)\<rparr>) h) }"

definition replaceUpgrade :: "Packet \<Rightarrow> Packet" where
  "replaceUpgrade b =
     (if cmd b = UpgradeReq then b \<lparr>cmd := ReadExReq\<rparr>
      else if cmd b = SCUpgradeReq then b \<lparr>cmd := SCUpgradeFailReq\<rparr>
      else if cmd b = StoreCondReq then b \<lparr>cmd := StoreCondFailReq\<rparr>
      else b)"

fun replace_all :: "Target list \<Rightarrow> heap \<Rightarrow> heap option" where
  "replace_all [] h = Some h"
| "replace_all (t # ts) h = do {
     check (pkt t < length (pkts h));
     replace_all ts (upd_pkt (pkt t) replaceUpgrade h) }"

definition replaceUpgrades :: "bool \<Rightarrow> nat \<Rightarrow> heap \<Rightarrow> heap option" where
  "replaceUpgrades dfr m h = do {
     r \<leftarrow> at (mshrs h) m;
     let l = (if dfr then deferredTargets r else targets r);
     if \<not> tl_hasUpgrade l then Some h
     else do {
       h \<leftarrow> replace_all (tl_list l) h;
       Some (upd_mshr m (\<lambda>r. if dfr
         then r \<lparr>deferredTargets := (deferredTargets r) \<lparr>tl_hasUpgrade := False\<rparr>\<rparr>
         else r \<lparr>targets := (targets r) \<lparr>tl_hasUpgrade := False\<rparr>\<rparr>) h) } }"

text \<open>
  \<open>TargetList::clearDownstreamPending\<close> and \<open>MSHR::clearDownstreamPending\<close> call
  each other along the sender states.  The list of targets still to visit is
  the call stack: entering an upstream MSHR clears its flag and puts its
  targets in front.  Every entry turns a set flag off, so the traversal ends
  even on a cyclic chain.
\<close>

definition pending_count :: "heap \<Rightarrow> nat" where
  "pending_count h = length (filter downstreamPending (mshrs h))"

lemma length_filter_update:
  "k < length xs \<Longrightarrow> P (xs ! k) \<Longrightarrow> \<not> P y \<Longrightarrow> length (filter P (xs[k := y])) < length (filter P xs)"
  by (induction xs arbitrary: k) (auto split: nat.split)

lemma pending_count_upd:
  "k < length (mshrs h) \<Longrightarrow> downstreamPending (mshrs h ! k) \<Longrightarrow> \<not> downstreamPending (f (mshrs h ! k))
   \<Longrightarrow> pending_count (upd_mshr k f h) < pending_count h"
  by (simp add: pending_count_def upd_mshr_def length_filter_update)

function clear_pending :: "Target list \<Rightarrow> heap \<Rightarrow> heap option" where
  "clear_pending [] h = Some h"
| "clear_pending (t # ts) h =
     (if markedPending t then
        if pkt t < length (pkts h) then
          (case senderState (pkts h ! pkt t) of
             Some (MSHRState k) \<Rightarrow>
               if k < length (mshrs h) \<and> downstreamPending (mshrs h ! k)
               then clear_pending (tl_list (targets (mshrs h ! k)) @ ts)
                      (upd_mshr k (\<lambda>r. r \<lparr>downstreamPending := False\<rparr>) h)
               else None
           | _ \<Rightarrow> clear_pending ts h)
        else None
      else clear_pending ts h)"
  by pat_completeness auto
termination
  by (relation "inv_image (less_than <*lex*> less_than) (\<lambda>(ts, h). (pending_count h, length ts))")
    (auto intro!: pending_count_upd)

definition clearDownstreamPending :: "nat \<Rightarrow> heap \<Rightarrow> heap option" where
  "clearDownstreamPending m h = do {
     r \<leftarrow> at (mshrs h) m;
     check (downstreamPending r);
     clear_pending (tl_list (targets r)) (upd_mshr m (\<lambda>r. r \<lparr>downstreamPending := False\<rparr>) h) }"

text \<open>\<open>TargetList::checkFunctional\<close> for the functional packet \<open>f\<close>: the first target that completes it ends the walk.\<close>

fun tl_checkFunctional :: "(nat \<Rightarrow> byte) \<Rightarrow> Target list \<Rightarrow> Packet \<Rightarrow> heap \<Rightarrow> (bool \<times> Packet \<times> heap) option" where
  "tl_checkFunctional u [] f h = Some (False, f, h)"
| "tl_checkFunctional u (t # ts) f h = do {
     other \<leftarrow> at (pkts h) (pkt t);
     (d, f, other) \<leftarrow> checkFunctional_pkt u other f;
     let h = upd_pkt (pkt t) (\<lambda>_. other) h;
     if d then Some (True, f, h) else tl_checkFunctional u ts f h }"

subsection \<open>Operations of an MSHR\<close>

definition MSHR_new :: "MSHR \<Rightarrow> MSHR" where
  "MSHR_new raw = raw \<lparr>inService := False, ntargets := 0, threadNum := InvalidThreadID,
     targets := TargetList_new, deferredTargets := TargetList_new\<rparr>"

definition isPendingDirty :: "MSHR \<Rightarrow> bool option" where
  "isPendingDirty r = do { check (inService r); Some (pendingDirty r) }"
definition hasPostInvalidate :: "MSHR \<Rightarrow> bool option" where
  "hasPostInvalidate r = do { check (inService r); Some (postInvalidate r) }"
definition hasPostDowngrade :: "MSHR \<Rightarrow> bool option" where
  "hasPostDowngrade r = do { check (inService r); Some (postDowngrade r) }"

definition hasTargets :: "MSHR \<Rightarrow> bool" where
  "hasTargets r = (tl_list (targets r) \<noteq> [])"

definition getTarget :: "MSHR \<Rightarrow> Target option" where
  "getTarget r = at (tl_list (targets r)) 0"

definition popTarget :: "MSHR \<Rightarrow> MSHR option" where
  "popTarget r = do {
     check (hasTargets r);
     Some (r \<lparr>ntargets := ntargets r - 1, targets := (targets r) \<lparr>tl_list := tl (tl_list (targets r))\<rparr>\<rparr>) }"

definition isForwardNoResponse :: "MSHR \<Rightarrow> heap \<Rightarrow> bool option" where
  "isForwardNoResponse r h =
     (if ntargets r \<noteq> 1 then Some False
      else do {
        t \<leftarrow> getTarget r;
        if source t \<noteq> FromCPU then Some False
        else do { b \<leftarrow> at (pkts h) (pkt t); Some (\<not> needsResponse (cmd b)) } })"

definition mshr_allocate :: "nat \<Rightarrow> addr \<Rightarrow> 32 word \<Rightarrow> nat \<Rightarrow> tick \<Rightarrow> int \<Rightarrow> tick \<Rightarrow> heap \<Rightarrow> heap option" where
  "mshr_allocate m a sz target whenReady ord now h = do {
     b \<leftarrow> at (pkts h) target;
     r \<leftarrow> at (mshrs h) m;
     check (isReset (targets r));
     let h = upd_mshr m (\<lambda>r. r \<lparr>m_addr := a, m_size := sz, readyTime := whenReady, order := ord,
       isForward := False, m_isUncacheable := isUncacheable (req b), inService := False,
       downstreamPending := False, threadNum := 0, ntargets := 1\<rparr>) h;
     let sr = (if cmd b = HardPFReq then FromPrefetcher else FromCPU);
     h \<leftarrow> tl_add False m target whenReady ord sr True now h;
     check (isReset (deferredTargets (mshrs h ! m)));
     Some (upd_mshr m (\<lambda>r. r \<lparr>m_data := None\<rparr>) h) }"

definition mshr_markInService :: "nat \<Rightarrow> nat \<Rightarrow> heap \<Rightarrow> (bool \<times> heap) option" where
  "mshr_markInService m p h = do {
     r \<leftarrow> at (mshrs h) m;
     check (\<not> inService r);
     fwd \<leftarrow> isForwardNoResponse r h;
     if fwd then do {
       check (ntargets r = 1);
       r' \<leftarrow> popTarget r;
       Some (True, upd_mshr m (\<lambda>_. r') h) }
     else do {
       b \<leftarrow> at (pkts h) p;
       let h = upd_mshr m (\<lambda>r. r \<lparr>inService := True,
         pendingDirty := (tl_needsExclusive (targets r) \<or> (\<not> sharedAsserted b \<and> memInhibitAsserted b)),
         postInvalidate := False, postDowngrade := False\<rparr>) h;
       h \<leftarrow> (if \<not> downstreamPending r then clear_pending (tl_list (targets r)) h else Some h);
       Some (False, h) } }"

definition mshr_deallocate :: "nat \<Rightarrow> heap \<Rightarrow> heap option" where
  "mshr_deallocate m h = do {
     r \<leftarrow> at (mshrs h) m;
     check (tl_list (targets r) = []);
     check (isReset (deferredTargets r));
     check (ntargets r = 0);
     Some (upd_mshr m (\<lambda>r. r \<lparr>targets := resetFlags (targets r), inService := False\<rparr>) h) }"

text \<open>The condition under which a new target has to wait for the response.\<close>

definition must_defer :: "MSHR \<Rightarrow> Packet \<Rightarrow> bool" where
  "must_defer r b = (inService r \<and> (tl_list (deferredTargets r) \<noteq> [] \<or> postInvalidate r
     \<or> (needsExclusive (cmd b) \<and> (\<not> pendingDirty r \<or> postDowngrade r \<or> isForward r))))"

definition allocateTarget :: "nat \<Rightarrow> nat \<Rightarrow> tick \<Rightarrow> int \<Rightarrow> tick \<Rightarrow> heap \<Rightarrow> heap option" where
  "allocateTarget m p whenReady ord now h = do {
     r \<leftarrow> at (mshrs h) m;
     b \<leftarrow> at (pkts h) p;
     check (cmd b \<noteq> HardPFReq);
     h \<leftarrow> (if must_defer r b then do {
             pinv \<leftarrow> hasPostInvalidate r;
             let h = (if pinv then upd_pkt p replaceUpgrade h else h);
             tl_add True m p whenReady ord FromCPU True now h }
           else tl_add False m p whenReady ord FromCPU (\<not> inService r) now h);
     Some (upd_mshr m (\<lambda>r. r \<lparr>ntargets := ntargets r + 1\<rparr>) h) }"

definition handleSnoop :: "Packet \<Rightarrow> nat \<Rightarrow> nat \<Rightarrow> int \<Rightarrow> tick \<Rightarrow> heap \<Rightarrow> (bool \<times> heap) option" where
  "handleSnoop raw m p ord now h = do {
     r \<leftarrow> at (mshrs h) m;
     b \<leftarrow> at (pkts h) p;
     if \<not> inService r \<or> (isExpressSnoop b \<and> downstreamPending r) then do {
       h \<leftarrow> (if needsExclusive (cmd b)
             then do { h \<leftarrow> replaceUpgrades False m h; replaceUpgrades True m h }
             else Some h);
       Some (False, h) }
     else do {
       h \<leftarrow> (if needsExclusive (cmd b) then replaceUpgrades True m h else Some h);
       b \<leftarrow> at (pkts h) p;
       pinv \<leftarrow> hasPostInvalidate r;
       if pinv then Some (True, h)
       else do {
         dirty \<leftarrow> isPendingDirty r;
         h \<leftarrow> (if dirty \<or> isInvalidate (cmd b) then do {
                 let cp = length (pkts h);
                 let h = h \<lparr>pkts := pkts h @ [Packet_copy raw b True now]\<rparr>;
                 h \<leftarrow> tl_add False m cp now ord FromSnoop
                        (downstreamPending r \<and> tl_needsExclusive (targets r)) now h;
                 let h = upd_mshr m (\<lambda>r. r \<lparr>ntargets := ntargets r + 1\<rparr>) h;
                 let h = (if dirty then upd_pkt p (\<lambda>b. setSupplyExclusive (assertMemInhibit b)) h else h);
                 Some (if needsExclusive (cmd b) then upd_mshr m (\<lambda>r. r \<lparr>postInvalidate := True\<rparr>) h else h) }
               else Some h);
         Some (True, if \<not> needsExclusive (cmd b)
               then upd_pkt p assertShared (upd_mshr m (\<lambda>r. r \<lparr>postDowngrade := True\<rparr>) h) else h) } } }"

definition promoteDeferredTargets :: "nat \<Rightarrow> tick \<Rightarrow> heap \<Rightarrow> (bool \<times> heap) option" where
  "promoteDeferredTargets m now h = do {
     r \<leftarrow> at (mshrs h) m;
     check (tl_list (targets r) = []);
     case tl_list (deferredTargets r) of
       [] \<Rightarrow> Some (False, h)
     | t # ts \<Rightarrow> do {
         check (length (t # ts) = unat (ntargets r));
         Some (True, upd_mshr m (\<lambda>r. r \<lparr>targets := deferredTargets r,
           deferredTargets := resetFlags (targets r), order := tgt_order t,
           readyTime := max now (tgt_readyTime t)\<rparr>) h) } }"

definition mshr_handleFill :: "nat \<Rightarrow> Packet \<Rightarrow> heap \<Rightarrow> heap option" where
  "mshr_handleFill m b h = do {
     r \<leftarrow> at (mshrs h) m;
     c \<leftarrow> (if sharedAsserted b then Some False
           else do { i \<leftarrow> hasPostInvalidate r; d \<leftarrow> hasPostDowngrade r;
                     Some (\<not> (i \<or> d) \<and> tl_needsExclusive (deferredTargets r)) });
     if c then do {
       check (\<not> tl_needsExclusive (targets r));
       check (\<not> downstreamPending r);
       h \<leftarrow> clear_pending (tl_list (deferredTargets r)) h;
       Some (upd_mshr m (\<lambda>r. r \<lparr>
         targets := (targets r) \<lparr>tl_needsExclusive := True,
                      tl_list := tl_list (targets r) @ tl_list (deferredTargets r)\<rparr>,
         deferredTargets := resetFlags ((deferredTargets r) \<lparr>tl_list := []\<rparr>)\<rparr>) h) }
     else Some h }"

definition mshr_checkFunctional :: "(nat \<Rightarrow> byte) \<Rightarrow> nat \<Rightarrow> Packet \<Rightarrow> heap \<Rightarrow> (bool \<times> Packet \<times> heap) option" where
  "mshr_checkFunctional u m f h = do {
     r \<leftarrow> at (mshrs h) m;
     if isPrint (cmd f) then do {
       (d, f, x) \<leftarrow> checkFunctional u (m_addr r) (m_size r) None f;
       Some (False, f, h) }
     else do {
       (d, f, h) \<leftarrow> tl_checkFunctional u (tl_list (targets r)) f h;
       if d then Some (True, f, h)
       else tl_checkFunctional u (tl_list (deferredTargets r)) f h } }"

subsection \<open>Store lemmas\<close>

lemma upd_mshr_simps [simp]:
  "length (mshrs (upd_mshr m f h)) = length (mshrs h)" "pkts (upd_mshr m f h) = pkts h"
  "m < length (mshrs h) \<Longrightarrow> mshrs (upd_mshr m f h) ! m = f (mshrs h ! m)"
  "k \<noteq> m \<Longrightarrow> mshrs (upd_mshr m f h) ! k = mshrs h ! k"
  by (simp_all add: upd_mshr_def)

lemma upd_pkt_simps [simp]:
  "length (pkts (upd_pkt p f h)) = length (pkts h)" "mshrs (upd_pkt p f h) = mshrs h"
  "p < length (pkts h) \<Longrightarrow> pkts (upd_pkt p f h) ! p = f (pkts h ! p)"
  "q \<noteq> p \<Longrightarrow> pkts (upd_pkt p f h) ! q = pkts h ! q"
  by (simp_all add: upd_pkt_def)

lemma tl_push_list [simp]:
  "tl_list (tl_push b p ready ord sr mp now l) = tl_list l @ [\<lparr>recvTime = now, tgt_readyTime = ready,
     tgt_order = ord, pkt = p, source = sr, markedPending = mp\<rparr>]"
  by (simp add: tl_push_def Let_def)

lemma resetFlags_simps [simp]:
  "tl_list (resetFlags l) = tl_list l" "isReset (resetFlags l)" "isReset TargetList_new" "tl_list TargetList_new = []"
  by (simp_all add: resetFlags_def isReset_def TargetList_new_def)

text \<open>What a change of \<open>downstreamPending\<close> flags keeps.\<close>

definition same_but_pending :: "heap \<Rightarrow> heap \<Rightarrow> bool" where
  "same_but_pending h h' \<longleftrightarrow> pkts h' = pkts h \<and> length (mshrs h') = length (mshrs h)
     \<and> (\<forall>k < length (mshrs h). (mshrs h' ! k) \<lparr>downstreamPending := False\<rparr> = (mshrs h ! k) \<lparr>downstreamPending := False\<rparr>)"

lemma same_but_pending_refl [simp]: "same_but_pending h h"
  by (simp add: same_but_pending_def)

lemma same_but_pending_trans:
  "same_but_pending h h' \<Longrightarrow> same_but_pending h' h'' \<Longrightarrow> same_but_pending h h''"
  by (simp add: same_but_pending_def)

lemma same_but_pending_upd:
  "same_but_pending h (upd_mshr k (\<lambda>r. r \<lparr>downstreamPending := b\<rparr>) h)"
  by (cases "k < length (mshrs h)") (auto simp: same_but_pending_def upd_mshr_def nth_list_update)

lemma same_but_pending_fields:
  assumes "same_but_pending h h'" "k < length (mshrs h)"
  shows "targets (mshrs h' ! k) = targets (mshrs h ! k)" "deferredTargets (mshrs h' ! k) = deferredTargets (mshrs h ! k)"
    "inService (mshrs h' ! k) = inService (mshrs h ! k)" "ntargets (mshrs h' ! k) = ntargets (mshrs h ! k)"
    "readyTime (mshrs h' ! k) = readyTime (mshrs h ! k)" "m_addr (mshrs h' ! k) = m_addr (mshrs h ! k)"
    "postInvalidate (mshrs h' ! k) = postInvalidate (mshrs h ! k)" "pendingDirty (mshrs h' ! k) = pendingDirty (mshrs h ! k)"
    "postDowngrade (mshrs h' ! k) = postDowngrade (mshrs h ! k)" "isForward (mshrs h' ! k) = isForward (mshrs h ! k)"
    "threadNum (mshrs h' ! k) = threadNum (mshrs h ! k)" "queue (mshrs h' ! k) = queue (mshrs h ! k)"
    "m_size (mshrs h' ! k) = m_size (mshrs h ! k)"
proof -
  have "(mshrs h' ! k) \<lparr>downstreamPending := False\<rparr> = (mshrs h ! k) \<lparr>downstreamPending := False\<rparr>"
    using assms by (simp add: same_but_pending_def)
  then show "targets (mshrs h' ! k) = targets (mshrs h ! k)" "deferredTargets (mshrs h' ! k) = deferredTargets (mshrs h ! k)"
    "inService (mshrs h' ! k) = inService (mshrs h ! k)" "ntargets (mshrs h' ! k) = ntargets (mshrs h ! k)"
    "readyTime (mshrs h' ! k) = readyTime (mshrs h ! k)" "m_addr (mshrs h' ! k) = m_addr (mshrs h ! k)"
    "postInvalidate (mshrs h' ! k) = postInvalidate (mshrs h ! k)" "pendingDirty (mshrs h' ! k) = pendingDirty (mshrs h ! k)"
    "postDowngrade (mshrs h' ! k) = postDowngrade (mshrs h ! k)" "isForward (mshrs h' ! k) = isForward (mshrs h ! k)"
    "threadNum (mshrs h' ! k) = threadNum (mshrs h ! k)" "queue (mshrs h' ! k) = queue (mshrs h ! k)"
    "m_size (mshrs h' ! k) = m_size (mshrs h ! k)"
    by (cases "mshrs h' ! k"; cases "mshrs h ! k"; simp)+
qed

lemma mark_upstream_same: "mark_upstream b h = Some h' \<Longrightarrow> same_but_pending h h'"
  by (auto simp: mark_upstream_def same_but_pending_upd bind_eq_Some_conv split: option.splits SenderState.splits if_splits)

lemma clear_pending_same: "clear_pending ts h = Some h' \<Longrightarrow> same_but_pending h h'"
proof (induction ts h rule: clear_pending.induct)
  case (2 t ts h)
  then show ?case
    using same_but_pending_upd same_but_pending_trans
    by (fastforce split: if_splits option.splits SenderState.splits)
qed simp

text \<open>The upstream MSHR a packet belongs to, if any, is not marked yet.\<close>

definition upstream_free :: "Packet \<Rightarrow> heap \<Rightarrow> bool" where
  "upstream_free b h = (case senderState b of
     Some (MSHRState k) \<Rightarrow> k < length (mshrs h) \<and> \<not> downstreamPending (mshrs h ! k) | _ \<Rightarrow> True)"

lemma mark_upstream_total: "(\<exists>h1. mark_upstream b h = Some h1) \<longleftrightarrow> upstream_free b h"
  by (auto simp: mark_upstream_def upstream_free_def at_def split: option.split SenderState.split)

lemma upstream_free_upd:
  assumes "upstream_free b h" "\<And>r. \<not> downstreamPending r \<Longrightarrow> \<not> downstreamPending (f r)"
  shows "upstream_free b (upd_mshr m f h)"
proof -
  have "\<not> downstreamPending (mshrs (upd_mshr m f h) ! k)" if "k < length (mshrs h)" "\<not> downstreamPending (mshrs h ! k)" for k
    using that assms(2) by (cases "k = m") simp_all
  then show ?thesis using assms(1) by (auto simp: upstream_free_def split: option.splits SenderState.splits)
qed

lemma tl_add_eq:
  assumes "p < length (pkts h)" "m < length (mshrs h)"
    and "mp \<Longrightarrow> upstream_free (pkts h ! p) h"
  obtains h1 where "same_but_pending h h1" "tl_add dfr m p ready ord sr mp now h = Some (upd_mshr m (\<lambda>r. if dfr
         then r \<lparr>deferredTargets := tl_push (pkts h ! p) p ready ord sr mp now (deferredTargets r)\<rparr>
         else r \<lparr>targets := tl_push (pkts h ! p) p ready ord sr mp now (targets r)\<rparr>) h1)"
proof -
  obtain h1 where h1: "(if mp then mark_upstream (pkts h ! p) h else Some h) = Some h1" "same_but_pending h h1"
    using assms(3) mark_upstream_same mark_upstream_total [of "pkts h ! p" h] by (cases mp) auto
  then have "m < length (mshrs h1)" using assms(2) by (simp add: same_but_pending_def)
  then show thesis using that [OF h1(2)] h1(1) assms(1) by (auto simp: tl_add_def at_def)
qed

subsection \<open>Clearing the pending marks\<close>

text \<open>The upstream MSHRs that the marked targets of a list point to.\<close>

definition upstream_of :: "heap \<Rightarrow> Target \<Rightarrow> nat option" where
  "upstream_of h t = (if markedPending t then case senderState (pkts h ! pkt t) of Some (MSHRState k) \<Rightarrow> Some k | _ \<Rightarrow> None
     else None)"

definition ups :: "heap \<Rightarrow> Target list \<Rightarrow> nat list" where
  "ups h ts = List.map_filter (upstream_of h) ts"

lemma ups_simps [simp]: "ups h [] = []" "ups h (t # ts) = (case upstream_of h t of None \<Rightarrow> ups h ts | Some k \<Rightarrow> k # ups h ts)"
  by (simp_all add: ups_def List.map_filter_simps split: option.split)

text \<open>
  The traversal of the upstream MSHRs in the order of the calls, through any
  number of cache levels: \<open>visits h ts ks\<close> says that the calls made for the
  targets \<open>ts\<close> come to an end and enter the MSHRs \<open>ks\<close>, one after the other.
  On a chain that leads back to itself there is no such list.
\<close>

inductive visits :: "heap \<Rightarrow> Target list \<Rightarrow> nat list \<Rightarrow> bool" for h where
  visits_Nil: "visits h [] []"
| visits_idle: "(markedPending t \<longrightarrow> pkt t < length (pkts h)) \<Longrightarrow> upstream_of h t = None \<Longrightarrow> visits h ts ks \<Longrightarrow> visits h (t # ts) ks"
| visits_up: "pkt t < length (pkts h) \<Longrightarrow> upstream_of h t = Some k \<Longrightarrow> visits h (tl_list (targets (mshrs h ! k))) js
    \<Longrightarrow> visits h ts ks \<Longrightarrow> visits h (t # ts) (k # js @ ks)"

inductive_cases visits_NilE: "visits h [] ks"
inductive_cases visits_ConsE: "visits h (t # ts) ks"
inductive_simps visits_Nil_iff [simp]: "visits h [] ks"

text \<open>The MSHRs that a list of targets leads to: those its marked targets point to, those their targets point to, and so on.\<close>

inductive leads_to :: "heap \<Rightarrow> Target list \<Rightarrow> nat \<Rightarrow> bool" for h where
  leads_direct: "k \<in> set (ups h ts) \<Longrightarrow> leads_to h ts k"
| leads_further: "j \<in> set (ups h ts) \<Longrightarrow> leads_to h (tl_list (targets (mshrs h ! j))) k \<Longrightarrow> leads_to h ts k"

text \<open>The traversal ends, and every MSHR it enters exists, is marked, and is entered once.\<close>

definition upstream_ok :: "heap \<Rightarrow> Target list \<Rightarrow> bool" where
  "upstream_ok h ts \<longleftrightarrow> (\<exists>ks. visits h ts ks \<and> distinct ks \<and> (\<forall>k \<in> set ks. k < length (mshrs h) \<and> downstreamPending (mshrs h ! k)))"

lemma upstream_of_cong:
  assumes "pkts h' = pkts h"
  shows "upstream_of h' = upstream_of h" "ups h' ts = ups h ts"
proof -
  show "upstream_of h' = upstream_of h" by (rule ext) (simp add: upstream_of_def assms)
  then show "ups h' ts = ups h ts" by (simp add: ups_def)
qed

lemma visits_mono:
  assumes "visits h ts ks" "pkts h' = pkts h" "\<forall>k. targets (mshrs h' ! k) = targets (mshrs h ! k)"
  shows "visits h' ts ks"
  using assms(1)
proof (induction rule: visits.induct)
  case visits_Nil
  show ?case by (rule visits.visits_Nil)
next
  case (visits_idle t ts ks)
  then show ?case using assms(2) upstream_of_cong [OF assms(2)] by (auto intro: visits.visits_idle)
next
  case (visits_up t k js ts ks)
  then show ?case using assms(2,3) upstream_of_cong [OF assms(2)] by (auto intro: visits.visits_up)
qed

lemma visits_cong:
  assumes "pkts h' = pkts h" "\<forall>k. targets (mshrs h' ! k) = targets (mshrs h ! k)"
  shows "visits h' ts ks = visits h ts ks"
  using visits_mono [of h ts ks h'] visits_mono [of h' ts ks h] assms by auto

lemma upstream_ok_cong:
  assumes "pkts h' = pkts h" "\<forall>k. targets (mshrs h' ! k) = targets (mshrs h ! k)" "length (mshrs h') = length (mshrs h)"
    "\<forall>k. downstreamPending (mshrs h' ! k) = downstreamPending (mshrs h ! k)"
  shows "upstream_ok h' ts = upstream_ok h ts"
  unfolding upstream_ok_def visits_cong [OF assms(1,2)] using assms(3,4) by simp

lemma visits_append:
  "visits h xs js \<Longrightarrow> visits h ys ks \<Longrightarrow> visits h (xs @ ys) (js @ ks)"
proof (induction rule: visits.induct)
  case (visits_up t k js1 ts ks1)
  have "visits h (t # ts @ ys) (k # js1 @ ks1 @ ks)"
    by (rule visits.visits_up [OF visits_up.hyps(1,2,3)]) (use visits_up in simp)
  then show ?case by simp
qed (auto intro: visits.visits_idle)

lemma visits_split:
  "visits h (xs @ ys) ls \<Longrightarrow> \<exists>js ks. ls = js @ ks \<and> visits h xs js \<and> visits h ys ks"
proof (induction xs arbitrary: ls)
  case (Cons x xs)
  from Cons.prems have "visits h (x # xs @ ys) ls" by simp
  then show ?case
  proof (rule visits_ConsE)
    assume i: "markedPending x \<longrightarrow> pkt x < length (pkts h)" "upstream_of h x = None" "visits h (xs @ ys) ls"
    from Cons.IH [OF i(3)] i(1,2) show ?thesis by (blast intro: visits.visits_idle)
  next
    fix k js ks assume u: "ls = k # js @ ks" "pkt x < length (pkts h)" "upstream_of h x = Some k"
      "visits h (tl_list (targets (mshrs h ! k))) js" "visits h (xs @ ys) ks"
    from Cons.IH [OF u(5)] obtain js' ks' where "ks = js' @ ks'" "visits h xs js'" "visits h ys ks'" by blast
    then show ?thesis using visits.visits_up [OF u(2,3,4), of xs js'] u(1)
      by (intro exI [of _ "k # js @ js'"] exI [of _ ks']) simp
  qed
qed simp

lemma leads_to_Nil: "\<not> leads_to h [] k"
  by (auto elim: leads_to.cases)

lemma leads_to_Cons:
  "leads_to h (t # ts) k \<longleftrightarrow> (\<exists>j. upstream_of h t = Some j \<and> (k = j \<or> leads_to h (tl_list (targets (mshrs h ! j))) k)) \<or> leads_to h ts k"
proof
  assume "leads_to h (t # ts) k"
  then show "(\<exists>j. upstream_of h t = Some j \<and> (k = j \<or> leads_to h (tl_list (targets (mshrs h ! j))) k)) \<or> leads_to h ts k"
    by (cases rule: leads_to.cases) (auto split: option.splits intro: leads_to.intros)
next
  assume "(\<exists>j. upstream_of h t = Some j \<and> (k = j \<or> leads_to h (tl_list (targets (mshrs h ! j))) k)) \<or> leads_to h ts k"
  then show "leads_to h (t # ts) k"
  proof (elim disjE exE conjE)
    assume "leads_to h ts k"
    then show ?thesis
      by (cases rule: leads_to.cases) (auto split: option.splits intro: leads_to.intros)
  qed (auto intro: leads_to.intros)
qed

lemma visits_leads_to: "visits h ts ks \<Longrightarrow> k \<in> set ks \<longleftrightarrow> leads_to h ts k"
  by (induction rule: visits.induct) (auto simp: leads_to_Nil leads_to_Cons)

lemma clear_pending_Some:
  assumes "upstream_of h t = Some k" "pkt t < length (pkts h)"
  shows "clear_pending (t # ts) h = (if k < length (mshrs h) \<and> downstreamPending (mshrs h ! k)
     then clear_pending (tl_list (targets (mshrs h ! k)) @ ts) (upd_mshr k (\<lambda>r. r \<lparr>downstreamPending := False\<rparr>) h) else None)"
  using assms by (auto simp: upstream_of_def split: if_splits option.splits SenderState.splits)

lemma clear_pending_None:
  "upstream_of h t = None \<Longrightarrow> markedPending t \<longrightarrow> pkt t < length (pkts h) \<Longrightarrow> clear_pending (t # ts) h = clear_pending ts h"
  by (auto simp: upstream_of_def split: if_splits option.splits SenderState.splits)

lemma clear_mark:
  assumes "k < length (mshrs h)"
  defines "h' \<equiv> upd_mshr k (\<lambda>r. r \<lparr>downstreamPending := False\<rparr>) h"
  shows "visits h' ts ks = visits h ts ks" "length (mshrs h') = length (mshrs h)" "pkts h' = pkts h" "same_but_pending h h'"
    "downstreamPending (mshrs h' ! j) = (downstreamPending (mshrs h ! j) \<and> j \<noteq> k)"
    "targets (mshrs h' ! j) = targets (mshrs h ! j)"
proof -
  show t: "targets (mshrs h' ! j) = targets (mshrs h ! j)" for j using assms by (cases "j = k") simp_all
  show p: "pkts h' = pkts h" by (simp add: h'_def)
  show "visits h' ts ks = visits h ts ks" by (rule visits_cong [OF p]) (simp add: t)
  show "length (mshrs h') = length (mshrs h)" by (simp add: h'_def)
  show "same_but_pending h h'" unfolding h'_def by (rule same_but_pending_upd)
  show "downstreamPending (mshrs h' ! j) = (downstreamPending (mshrs h ! j) \<and> j \<noteq> k)"
    using assms by (cases "j = k") simp_all
qed

text \<open>The code's traversal against the list of visits: it clears the flags of the list, and it fails when one of them is not set.\<close>

lemma clear_pending_visits:
  assumes "visits h0 ts ks" "pkts h = pkts h0" "\<forall>k. targets (mshrs h ! k) = targets (mshrs h0 ! k)"
    "distinct ks" "\<forall>k \<in> set ks. k < length (mshrs h) \<and> downstreamPending (mshrs h ! k)"
  obtains h' where "\<forall>us. clear_pending (ts @ us) h = clear_pending us h'" "same_but_pending h h'"
    "\<forall>k < length (mshrs h). downstreamPending (mshrs h' ! k) = (downstreamPending (mshrs h ! k) \<and> k \<notin> set ks)"
proof -
  have "\<exists>h'. (\<forall>us. clear_pending (ts @ us) h = clear_pending us h') \<and> same_but_pending h h'
     \<and> (\<forall>k < length (mshrs h). downstreamPending (mshrs h' ! k) = (downstreamPending (mshrs h ! k) \<and> k \<notin> set ks))"
    using assms
  proof (induction arbitrary: h rule: visits.induct)
    case visits_Nil
    show ?case by (rule exI [of _ h]) simp
  next
    case (visits_idle t ts ks)
    have u: "upstream_of h t = None" "markedPending t \<longrightarrow> pkt t < length (pkts h)"
      using visits_idle.hyps(1,2) visits_idle.prems(1) upstream_of_cong(1) [OF visits_idle.prems(1)] by simp_all
    from visits_idle.IH [OF visits_idle.prems] show ?case
      by (simp add: clear_pending_None [OF u] del: clear_pending.simps)
  next
    case (visits_up t k js ts ks)
    have u: "upstream_of h t = Some k" "pkt t < length (pkts h)"
      using visits_up.hyps(1,2) visits_up.prems(1) upstream_of_cong(1) [OF visits_up.prems(1)] by simp_all
    have k: "k < length (mshrs h)" "downstreamPending (mshrs h ! k)" "k \<notin> set js" "k \<notin> set ks" "distinct js" "distinct ks"
      "set js \<inter> set ks = {}"
      using visits_up.prems by auto
    define h1 where "h1 = upd_mshr k (\<lambda>r. r \<lparr>downstreamPending := False\<rparr>) h"
    note m = clear_mark [OF k(1), folded h1_def]
    have "\<forall>i \<in> set js. i < length (mshrs h1) \<and> downstreamPending (mshrs h1 ! i)"
      using visits_up.prems(4) k(3) m(2,5) by auto
    from visits_up.IH(1) [OF _ _ k(5) this] obtain h2 where
      h2: "\<forall>us. clear_pending (tl_list (targets (mshrs h0 ! k)) @ us) h1 = clear_pending us h2" "same_but_pending h1 h2"
      "\<forall>i < length (mshrs h1). downstreamPending (mshrs h2 ! i) = (downstreamPending (mshrs h1 ! i) \<and> i \<notin> set js)"
      using m(3,6) visits_up.prems(1,2) by auto
    have l2: "length (mshrs h2) = length (mshrs h)" "pkts h2 = pkts h" using h2(2) m(2,3) by (simp_all add: same_but_pending_def)
    have t2: "targets (mshrs h2 ! i) = targets (mshrs h ! i)" for i
    proof (cases "i < length (mshrs h)")
      case True
      then show ?thesis using same_but_pending_fields(1) [OF h2(2), of i] m(2,6) by simp
    next
      case False
      then have "mshrs h2 ! i = [] ! (i - length (mshrs h))" "mshrs h ! i = [] ! (i - length (mshrs h))"
        using l2(1) nth_append [of "mshrs h2" "[]" i] nth_append [of "mshrs h" "[]" i] by simp_all
      then show ?thesis by simp
    qed
    have "\<forall>i \<in> set ks. i < length (mshrs h2) \<and> downstreamPending (mshrs h2 ! i)"
      using visits_up.prems(4) k(4,7) h2(3) m(2,5) l2(1) by auto
    from visits_up.IH(2) [OF _ _ k(6) this] obtain h3 where
      h3: "\<forall>us. clear_pending (ts @ us) h2 = clear_pending us h3" "same_but_pending h2 h3"
      "\<forall>i < length (mshrs h2). downstreamPending (mshrs h3 ! i) = (downstreamPending (mshrs h2 ! i) \<and> i \<notin> set ks)"
      using l2(2) t2 visits_up.prems(1,2) by auto
    have "clear_pending ((t # ts) @ us) h = clear_pending us h3" for us
    proof -
      have "clear_pending ((t # ts) @ us) h = clear_pending (tl_list (targets (mshrs h ! k)) @ ts @ us) h1"
        using clear_pending_Some [OF u, of "ts @ us"] k(1,2) by (simp add: h1_def)
      then show ?thesis using h2(1) h3(1) visits_up.prems(2) by simp
    qed
    moreover have "same_but_pending h h3" using m(4) h2(2) h3(2) same_but_pending_trans by blast
    ultimately show ?case using h3(3) h2(3) m(2,5) l2(1) by (intro exI [of _ h3]) auto
  qed
  then show thesis using that by blast
qed

lemma clear_pending_exact:
  assumes "upstream_ok h ts"
  shows "\<exists>h'. clear_pending ts h = Some h' \<and> same_but_pending h h'
     \<and> (\<forall>k < length (mshrs h). downstreamPending (mshrs h' ! k) = (downstreamPending (mshrs h ! k) \<and> \<not> leads_to h ts k))"
proof -
  obtain ks where ks: "visits h ts ks" "distinct ks" "\<forall>k \<in> set ks. k < length (mshrs h) \<and> downstreamPending (mshrs h ! k)"
    using assms unfolding upstream_ok_def by blast
  obtain h' where "\<forall>us. clear_pending (ts @ us) h = clear_pending us h'" "same_but_pending h h'"
    "\<forall>k < length (mshrs h). downstreamPending (mshrs h' ! k) = (downstreamPending (mshrs h ! k) \<and> k \<notin> set ks)"
    by (rule clear_pending_visits [OF ks(1) refl _ ks(2,3)]) (simp, rule that)
  moreover have "clear_pending ts h = Some h'" using spec [OF calculation(1), of "[]"] by simp
  ultimately show ?thesis using visits_leads_to [OF ks(1)] by (intro exI [of _ h']) simp
qed

lemma clear_pending_only:
  "clear_pending ts h = Some h' \<Longrightarrow> upstream_ok h ts"
proof (induction ts h rule: clear_pending.induct)
  case (1 h)
  show ?case unfolding upstream_ok_def by (intro exI [of _ "[]"]) simp
next
  case (2 t ts h)
  have p: "markedPending t \<longrightarrow> pkt t < length (pkts h)" using "2.prems" by (auto split: if_splits)
  show ?case
  proof (cases "upstream_of h t")
    case None
    have "clear_pending ts h = Some h'" using "2.prems" clear_pending_None [OF None p] by simp
    then have "upstream_ok h ts"
      using None p "2.IH" by (cases "markedPending t") (auto simp: upstream_of_def split: option.splits SenderState.splits)
    then show ?thesis using None p unfolding upstream_ok_def by (blast intro: visits.visits_idle)
  next
    case (Some k)
    have t: "markedPending t" "pkt t < length (pkts h)" "senderState (pkts h ! pkt t) = Some (MSHRState k)"
      using Some p by (auto simp: upstream_of_def split: if_splits option.splits SenderState.splits)
    have k: "k < length (mshrs h)" "downstreamPending (mshrs h ! k)" using "2.prems" t by (auto split: if_splits)
    note m = clear_mark [OF k(1)]
    have "upstream_ok (upd_mshr k (\<lambda>r. r \<lparr>downstreamPending := False\<rparr>) h) (tl_list (targets (mshrs h ! k)) @ ts)"
      using "2.prems" "2.IH" t k by simp
    then obtain ls where ls: "visits h (tl_list (targets (mshrs h ! k)) @ ts) ls" "distinct ls"
      "\<forall>i \<in> set ls. i < length (mshrs h) \<and> downstreamPending (mshrs h ! i) \<and> i \<noteq> k"
      unfolding upstream_ok_def m by blast
    from visits_split [OF ls(1)] obtain js ks where "ls = js @ ks" "visits h (tl_list (targets (mshrs h ! k))) js" "visits h ts ks"
      by blast
    then show ?thesis
      using visits.visits_up [OF t(2) Some, of js ts ks] ls(2,3) k unfolding upstream_ok_def
      by (intro exI [of _ "k # js @ ks"]) auto
  qed
qed

subsection \<open>Replacing upgrades\<close>

definition upgrade_req :: "Command \<Rightarrow> bool" where
  "upgrade_req c = (c = UpgradeReq \<or> c = SCUpgradeReq \<or> c = StoreCondReq)"

lemma replaceUpgrade_simps [simp]:
  "\<not> upgrade_req (cmd (replaceUpgrade b))" "replaceUpgrade (replaceUpgrade b) = replaceUpgrade b"
  "\<not> upgrade_req (cmd b) \<Longrightarrow> replaceUpgrade b = b" "needsExclusive (cmd (replaceUpgrade b)) = needsExclusive (cmd b)"
  by (auto simp: replaceUpgrade_def upgrade_req_def needsExclusive_def testCmdAttrib_def commandInfo_def info_def toInt_def all_commands_def)

lemma replace_all_eq:
  assumes "\<forall>t \<in> set ts. pkt t < length (pkts h)"
  shows "\<exists>h'. replace_all ts h = Some h' \<and> mshrs h' = mshrs h \<and> length (pkts h') = length (pkts h)
     \<and> (\<forall>q < length (pkts h). pkts h' ! q = (if q \<in> pkt ` set ts then replaceUpgrade (pkts h ! q) else pkts h ! q))"
  using assms
proof (induction ts arbitrary: h)
  case (Cons t ts)
  let ?h = "upd_pkt (pkt t) replaceUpgrade h"
  from Cons.IH [of ?h] Cons.prems obtain h' where
    h': "replace_all ts ?h = Some h'" "mshrs h' = mshrs h" "length (pkts h') = length (pkts h)"
      "\<forall>q < length (pkts h). pkts h' ! q = (if q \<in> pkt ` set ts then replaceUpgrade (pkts ?h ! q) else pkts ?h ! q)" by auto
  have "pkts h' ! q = (if q \<in> pkt ` set (t # ts) then replaceUpgrade (pkts h ! q) else pkts h ! q)" if "q < length (pkts h)" for q
    using that h'(4) by (cases "q = pkt t") simp_all
  then show ?case using h'(1-3) Cons.prems by simp
qed simp

text \<open>The flags of a list cover its targets that do not come from snoops.\<close>

definition tl_sound :: "heap \<Rightarrow> TargetList \<Rightarrow> bool" where
  "tl_sound h l \<longleftrightarrow> (\<forall>t \<in> set (tl_list l). pkt t < length (pkts h) \<and> (source t \<noteq> FromSnoop \<longrightarrow>
     (needsExclusive (cmd (pkts h ! pkt t)) \<longrightarrow> tl_needsExclusive l)
     \<and> (upgrade_req (cmd (pkts h ! pkt t)) \<longrightarrow> tl_hasUpgrade l)))"

definition list_of :: "bool \<Rightarrow> MSHR \<Rightarrow> TargetList" where
  "list_of dfr r = (if dfr then deferredTargets r else targets r)"

lemma clear_hasUpgrade:
  "\<not> tl_hasUpgrade (list_of dfr r) \<Longrightarrow>
     (if dfr then r \<lparr>deferredTargets := (deferredTargets r) \<lparr>tl_hasUpgrade := False\<rparr>\<rparr>
      else r \<lparr>targets := (targets r) \<lparr>tl_hasUpgrade := False\<rparr>\<rparr>) = r"
  by (cases r; cases "deferredTargets r"; cases "targets r"; cases dfr) (simp_all add: list_of_def)

lemma replaceUpgrades_eq:
  assumes "m < length (mshrs h)" "\<forall>t \<in> set (tl_list (list_of dfr (mshrs h ! m))). pkt t < length (pkts h)"
  obtains h' where "replaceUpgrades dfr m h = Some h'" "length (mshrs h') = length (mshrs h)" "length (pkts h') = length (pkts h)"
    "\<And>k. k \<noteq> m \<Longrightarrow> mshrs h' ! k = mshrs h ! k"
    "mshrs h' ! m = (if dfr then (mshrs h ! m) \<lparr>deferredTargets := (deferredTargets (mshrs h ! m)) \<lparr>tl_hasUpgrade := False\<rparr>\<rparr>
        else (mshrs h ! m) \<lparr>targets := (targets (mshrs h ! m)) \<lparr>tl_hasUpgrade := False\<rparr>\<rparr>)"
    "\<And>q. q < length (pkts h) \<Longrightarrow> pkts h' ! q = (if tl_hasUpgrade (list_of dfr (mshrs h ! m)) \<and> q \<in> pkt ` set (tl_list (list_of dfr (mshrs h ! m)))
        then replaceUpgrade (pkts h ! q) else pkts h ! q)"
proof (cases "tl_hasUpgrade (list_of dfr (mshrs h ! m))")
  case False
  note same = clear_hasUpgrade [OF False, symmetric]
  show thesis
  proof (rule that)
    show "replaceUpgrades dfr m h = Some h" using assms(1) False by (simp add: replaceUpgrades_def at_def list_of_def Let_def)
  qed (rule refl same | simp add: False)+
next
  case True
  let ?l = "list_of dfr (mshrs h ! m)"
  from replace_all_eq [OF assms(2)] obtain h1 where
    h1: "replace_all (tl_list ?l) h = Some h1" "mshrs h1 = mshrs h" "length (pkts h1) = length (pkts h)"
      "\<forall>q < length (pkts h). pkts h1 ! q = (if q \<in> pkt ` set (tl_list ?l) then replaceUpgrade (pkts h ! q) else pkts h ! q)" by blast
  let ?h = "upd_mshr m (\<lambda>r. if dfr
         then r \<lparr>deferredTargets := (deferredTargets r) \<lparr>tl_hasUpgrade := False\<rparr>\<rparr>
         else r \<lparr>targets := (targets r) \<lparr>tl_hasUpgrade := False\<rparr>\<rparr>) h1"
  have "replaceUpgrades dfr m h = Some ?h"
    using True assms(1) h1(1) by (simp add: replaceUpgrades_def at_def list_of_def Let_def split: if_splits)
  then show thesis using that [of ?h] True h1 assms(1) by simp
qed

end
