(* ===== verification/MSHR_Queue.thy ===== *)
theory MSHR_Queue
imports Cache_MSHR
begin

text \<open>
  Queues of MSHRs (\<open>src/src/mem/cache/mshr_queue.hh\<close>, \<open>mshr_queue.cc\<close>).  The
  array \<open>registers\<close> is a range of the MSHR store; the three lists hold
  addresses of its entries.  An iterator stored in an MSHR (\<open>allocIter\<close>,
  \<open>readyIter\<close>) denotes the entry's place in a list that holds it once, so
  erasing through it removes the entry and fails when the entry is not there.
\<close>

subsection \<open>Data\<close>

record MSHRQueue =
  label :: string
  registers :: "nat list"
  allocatedList :: "nat list"
  readyList :: "nat list"
  freeList :: "nat list"
  numEntries :: int
  numReserve :: int
  allocated :: int
  inServiceEntries :: int
  index :: int

definition MSHRQueue_new :: "nat \<Rightarrow> (nat \<Rightarrow> MSHR) \<Rightarrow> string \<Rightarrow> int \<Rightarrow> int \<Rightarrow> int \<Rightarrow> heap \<Rightarrow> (MSHRQueue \<times> heap) option" where
  "MSHRQueue_new this raw lbl num_entries reserve idx h = do {
     let n = num_entries + reserve - 1;
     check (0 \<le> n);
     let base = length (mshrs h);
     let regs = [base..<base + nat n];
     Some (\<lparr>label = lbl, registers = regs, allocatedList = [], readyList = [], freeList = regs,
             numEntries = n, numReserve = reserve, allocated = 0, inServiceEntries = 0, index = idx\<rparr>,
           h \<lparr>mshrs := mshrs h @ map (\<lambda>i. (MSHR_new (raw i)) \<lparr>queue := this\<rparr>) [0..<nat n]\<rparr>) }"

subsection \<open>Searching\<close>

definition findMatch :: "addr \<Rightarrow> heap \<Rightarrow> MSHRQueue \<Rightarrow> nat option" where
  "findMatch a h q = List.find (\<lambda>m. m_addr (mshrs h ! m) = a) (allocatedList q)"

definition findMatches :: "addr \<Rightarrow> heap \<Rightarrow> MSHRQueue \<Rightarrow> bool \<times> nat list" where
  "findMatches a h q = fold (\<lambda>m (retval, matches). if m_addr (mshrs h ! m) = a then (True, matches @ [m])
     else (retval, matches)) (allocatedList q) (False, [])"

definition pending_overlap :: "addr \<Rightarrow> 32 word \<Rightarrow> MSHR \<Rightarrow> bool" where
  "pending_overlap a sz r = (if m_addr r < a then m_addr r + scast (m_size r) > a else a + scast sz > m_addr r)"

definition findPending :: "addr \<Rightarrow> 32 word \<Rightarrow> heap \<Rightarrow> MSHRQueue \<Rightarrow> nat option" where
  "findPending a sz h q = List.find (\<lambda>m. pending_overlap a sz (mshrs h ! m)) (readyList q)"

fun q_check :: "(nat \<Rightarrow> byte) \<Rightarrow> addr \<Rightarrow> nat list \<Rightarrow> Packet \<Rightarrow> heap \<Rightarrow> (bool \<times> Packet \<times> heap) option" where
  "q_check u a [] f h = Some (False, f, h)"
| "q_check u a (m # ms) f h = do {
     r \<leftarrow> at (mshrs h) m;
     if m_addr r = a then do {
       (d, f, h) \<leftarrow> mshr_checkFunctional u m f h;
       if d then Some (True, f, h) else q_check u a ms f h }
     else q_check u a ms f h }"

text \<open>The label stack that \<open>checkFunctional\<close> pushes and pops only affects printing.\<close>

definition q_checkFunctional :: "(nat \<Rightarrow> byte) \<Rightarrow> Packet \<Rightarrow> addr \<Rightarrow> heap \<Rightarrow> MSHRQueue \<Rightarrow> (bool \<times> Packet \<times> heap) option" where
  "q_checkFunctional u f blk_addr h q = q_check u blk_addr (allocatedList q) f h"

definition havePending :: "MSHRQueue \<Rightarrow> bool" where
  "havePending q = (readyList q \<noteq> [])"

definition isFull :: "MSHRQueue \<Rightarrow> bool" where
  "isFull q = (allocated q > numEntries q - numReserve q)"

definition getNextMSHR :: "tick \<Rightarrow> heap \<Rightarrow> MSHRQueue \<Rightarrow> nat option" where
  "getNextMSHR now h q = (case readyList q of [] \<Rightarrow> None
     | m # ms \<Rightarrow> if readyTime (mshrs h ! m) > now then None else Some m)"

definition nextMSHRReadyTime :: "heap \<Rightarrow> MSHRQueue \<Rightarrow> tick" where
  "nextMSHRReadyTime h q = (case readyList q of [] \<Rightarrow> MaxTick | m # ms \<Rightarrow> readyTime (mshrs h ! m))"

subsection \<open>Updates\<close>

definition erase :: "nat \<Rightarrow> nat list \<Rightarrow> nat list option" where
  "erase m xs = (if m \<in> set xs then Some (remove1 m xs) else None)"

fun insert_before :: "(nat \<Rightarrow> bool) \<Rightarrow> nat \<Rightarrow> nat list \<Rightarrow> nat list option" where
  "insert_before P m [] = None"
| "insert_before P m (x # xs) = (if P x then Some (m # x # xs) else map_option ((#) x) (insert_before P m xs))"

definition addToReadyList :: "nat \<Rightarrow> heap \<Rightarrow> nat list \<Rightarrow> nat list option" where
  "addToReadyList m h rl =
     (if rl = [] \<or> readyTime (mshrs h ! last rl) \<le> readyTime (mshrs h ! m) then Some (rl @ [m])
      else insert_before (\<lambda>i. readyTime (mshrs h ! i) > readyTime (mshrs h ! m)) m rl)"

definition q_allocate :: "addr \<Rightarrow> 32 word \<Rightarrow> nat \<Rightarrow> tick \<Rightarrow> int \<Rightarrow> tick \<Rightarrow> MSHRQueue \<Rightarrow> heap
    \<Rightarrow> (nat \<times> MSHRQueue \<times> heap) option" where
  "q_allocate a sz p when ord now q h = do {
     m \<leftarrow> at (freeList q) 0;
     r \<leftarrow> at (mshrs h) m;
     check (ntargets r = 0);
     let q = q \<lparr>freeList := tl (freeList q)\<rparr>;
     h \<leftarrow> mshr_allocate m a sz p when ord now h;
     let q = q \<lparr>allocatedList := allocatedList q @ [m]\<rparr>;
     rl \<leftarrow> addToReadyList m h (readyList q);
     Some (m, q \<lparr>readyList := rl, allocated := allocated q + 1\<rparr>, h) }"

definition deallocateOne :: "nat \<Rightarrow> MSHRQueue \<Rightarrow> heap \<Rightarrow> (MSHRQueue \<times> heap) option" where
  "deallocateOne m q h = do {
     r \<leftarrow> at (mshrs h) m;
     al \<leftarrow> erase m (allocatedList q);
     let q = q \<lparr>allocatedList := al, freeList := m # freeList q, allocated := allocated q - 1\<rparr>;
     q \<leftarrow> (if inService r then Some (q \<lparr>inServiceEntries := inServiceEntries q - 1\<rparr>)
           else do { rl \<leftarrow> erase m (readyList q); Some (q \<lparr>readyList := rl\<rparr>) });
     h \<leftarrow> mshr_deallocate m h;
     Some (q, h) }"

definition q_deallocate :: "nat \<Rightarrow> MSHRQueue \<Rightarrow> heap \<Rightarrow> (MSHRQueue \<times> heap) option" where
  "q_deallocate m q h = deallocateOne m q h"

definition q_moveToFront :: "nat \<Rightarrow> MSHRQueue \<Rightarrow> heap \<Rightarrow> MSHRQueue option" where
  "q_moveToFront m q h = do {
     r \<leftarrow> at (mshrs h) m;
     if \<not> inService r then do {
       rl \<leftarrow> erase m (readyList q);
       Some (q \<lparr>readyList := m # rl\<rparr>) }
     else Some q }"

definition q_markInService :: "nat \<Rightarrow> nat \<Rightarrow> MSHRQueue \<Rightarrow> heap \<Rightarrow> (MSHRQueue \<times> heap) option" where
  "q_markInService m p q h = do {
     (done, h) \<leftarrow> mshr_markInService m p h;
     if done then q_deallocate m q h
     else do {
       rl \<leftarrow> erase m (readyList q);
       Some (q \<lparr>readyList := rl, inServiceEntries := inServiceEntries q + 1\<rparr>, h) } }"

definition q_markPending :: "nat \<Rightarrow> MSHRQueue \<Rightarrow> heap \<Rightarrow> (MSHRQueue \<times> heap) option" where
  "q_markPending m q h = do {
     r \<leftarrow> at (mshrs h) m;
     check (inService r);
     let h = upd_mshr m (\<lambda>r. r \<lparr>inService := False\<rparr>) h;
     rl \<leftarrow> addToReadyList m h (readyList q);
     Some (q \<lparr>readyList := rl, inServiceEntries := inServiceEntries q - 1\<rparr>, h) }"

text \<open>The inner loop of \<open>squash\<close>: pop every target, with the assertion on the thread number.\<close>

function pop_all :: "int \<Rightarrow> MSHR \<Rightarrow> MSHR option" where
  "pop_all tn r =
     (if hasTargets r then
        (case popTarget r of None \<Rightarrow> None | Some r' \<Rightarrow> if 0 = tn then pop_all tn r' else None)
      else Some r)"
  by pat_completeness auto
termination
  by (relation "measure (\<lambda>(tn, r). length (tl_list (targets r)))")
    (auto simp: popTarget_def hasTargets_def split: if_splits)

declare pop_all.simps [simp del]

text \<open>
  \<open>squash\<close> walks the allocated list; erasing an entry leaves the iterator on its
  successor, so the walk visits the entries of the initial list in order.
\<close>

fun squash_list :: "int \<Rightarrow> nat list \<Rightarrow> MSHRQueue \<Rightarrow> heap \<Rightarrow> (MSHRQueue \<times> heap) option" where
  "squash_list tn [] q h = Some (q, h)"
| "squash_list tn (m # ms) q h = do {
     r \<leftarrow> at (mshrs h) m;
     if threadNum r = tn then do {
       r' \<leftarrow> pop_all tn r;
       check (ntargets r' = 0);
       let h = upd_mshr m (\<lambda>_. r') h;
       (q, h) \<leftarrow> (if \<not> inService r' then deallocateOne m q h else Some (q, h));
       squash_list tn ms q h }
     else squash_list tn ms q h }"

definition q_squash :: "int \<Rightarrow> MSHRQueue \<Rightarrow> heap \<Rightarrow> (MSHRQueue \<times> heap) option" where
  "q_squash tn q h = squash_list tn (allocatedList q) q h"

subsection \<open>Well-formed queues\<close>

definition mshr_free :: "MSHR \<Rightarrow> bool" where
  "mshr_free r \<longleftrightarrow> ntargets r = 0 \<and> \<not> inService r \<and> targets r = TargetList_new \<and> deferredTargets r = TargetList_new"

definition mshr_ok :: "nat \<Rightarrow> MSHR \<Rightarrow> bool" where
  "mshr_ok n r \<longleftrightarrow> unat (ntargets r) = length (tl_list (targets r)) + length (tl_list (deferredTargets r))
     \<and> (tl_list (deferredTargets r) = [] \<longrightarrow> isReset (deferredTargets r))
     \<and> (\<not> inService r \<longrightarrow> tl_list (deferredTargets r) = [])
     \<and> (\<forall>t \<in> set (tl_list (targets r)) \<union> set (tl_list (deferredTargets r)). pkt t < n)"

definition queue_ok :: "MSHRQueue \<Rightarrow> heap \<Rightarrow> bool" where
  "queue_ok q h \<longleftrightarrow> distinct (registers q) \<and> set (registers q) \<subseteq> {..<length (mshrs h)}
     \<and> int (length (registers q)) = numEntries q
     \<and> distinct (freeList q @ allocatedList q) \<and> set (freeList q @ allocatedList q) = set (registers q)
     \<and> allocated q = int (length (allocatedList q))
     \<and> distinct (readyList q) \<and> set (readyList q) = {m \<in> set (allocatedList q). \<not> inService (mshrs h ! m)}
     \<and> inServiceEntries q = int (length (filter (\<lambda>m. inService (mshrs h ! m)) (allocatedList q)))
     \<and> (\<forall>m \<in> set (freeList q). mshr_free (mshrs h ! m))
     \<and> (\<forall>m \<in> set (allocatedList q). mshr_ok (length (pkts h)) (mshrs h ! m))"

subsection \<open>Changes of the store that keep a queue\<close>

text \<open>The part of an MSHR the queue invariant reads.\<close>

definition core :: "MSHR \<Rightarrow> bool \<times> 16 word \<times> TargetList \<times> TargetList" where
  "core r = (inService r, ntargets r, targets r, deferredTargets r)"

lemma core_upd [simp]:
  "core (r \<lparr>downstreamPending := b\<rparr>) = core r" "core (r \<lparr>postInvalidate := b\<rparr>) = core r"
  "core (r \<lparr>postDowngrade := b\<rparr>) = core r" "core (r \<lparr>pendingDirty := b\<rparr>) = core r"
  by (simp_all add: core_def)

lemma core_cong: "core r' = core r \<Longrightarrow> mshr_ok n r' = mshr_ok n r \<and> mshr_free r' = mshr_free r \<and> inService r' = inService r"
  by (simp add: core_def mshr_ok_def mshr_free_def)

lemma mshr_ok_mono: "mshr_ok n r \<Longrightarrow> n \<le> n' \<Longrightarrow> mshr_ok n' r"
  unfolding mshr_ok_def by (meson order_less_le_trans)

lemma same_but_pending_core: "same_but_pending h h' \<Longrightarrow> k < length (mshrs h) \<Longrightarrow> core (mshrs h' ! k) = core (mshrs h ! k)"
  by (simp add: core_def same_but_pending_fields)

text \<open>
  Rebuilding the invariant: entries other than \<open>m\<close> keep their core, and the
  lists of \<open>q'\<close> are right for the new state of \<open>m\<close>.
\<close>

lemma queue_ok_cong:
  assumes ok: "queue_ok q h" and len: "length (mshrs h) \<le> length (mshrs h')" "length (pkts h) \<le> length (pkts h')"
    and same: "\<And>k. k < length (mshrs h) \<Longrightarrow> core (mshrs h' ! k) = core (mshrs h ! k)"
  shows "queue_ok q h'"
proof -
  have k: "k < length (mshrs h)" if "k \<in> set (freeList q) \<or> k \<in> set (allocatedList q)" for k
    using ok that unfolding queue_ok_def by (metis (no_types, lifting) Un_iff lessThan_iff set_append subsetD)
  note c = core_cong [OF same [OF k]]
  have "filter (\<lambda>m. inService (mshrs h' ! m)) (allocatedList q) = filter (\<lambda>m. inService (mshrs h ! m)) (allocatedList q)"
    by (rule filter_cong) (use c in auto)
  moreover have "\<forall>k \<in> set (allocatedList q). mshr_ok (length (pkts h')) (mshrs h' ! k)"
    using ok c mshr_ok_mono [OF _ len(2)] unfolding queue_ok_def by blast
  ultimately show ?thesis
    using ok len(1) c unfolding queue_ok_def by (auto intro: subset_trans)
qed

lemma queue_entry:
  assumes "queue_ok q h" "m \<in> set (allocatedList q)"
  shows "m < length (mshrs h)" "mshr_ok (length (pkts h)) (mshrs h ! m)" "m \<notin> set (freeList q)"
    "m \<in> set (readyList q) \<longleftrightarrow> \<not> inService (mshrs h ! m)" "at (mshrs h) m = Some (mshrs h ! m)"
proof -
  show m: "m < length (mshrs h)"
    using assms unfolding queue_ok_def by (metis (no_types, lifting) Un_iff lessThan_iff set_append subsetD)
  show "mshr_ok (length (pkts h)) (mshrs h ! m)" "m \<notin> set (freeList q)" "m \<in> set (readyList q) \<longleftrightarrow> \<not> inService (mshrs h ! m)"
    using assms by (auto simp: queue_ok_def)
  show "at (mshrs h) m = Some (mshrs h ! m)" using m by (simp add: at_def)
qed

lemma queue_ok_local:
  assumes ok: "queue_ok q h" and m: "m \<in> set (allocatedList q)" and len: "length (mshrs h) \<le> length (mshrs h')" "length (pkts h) \<le> length (pkts h')"
    and same: "\<And>k. k < length (mshrs h) \<Longrightarrow> k \<noteq> m \<Longrightarrow> core (mshrs h' ! k) = core (mshrs h ! k)"
    and own: "mshr_ok (length (pkts h')) (mshrs h' ! m)" "inService (mshrs h' ! m) = inService (mshrs h ! m)"
  shows "queue_ok q h'"
proof -
  have k: "k < length (mshrs h)" if "k \<in> set (freeList q) \<or> k \<in> set (allocatedList q)" for k
    using ok that unfolding queue_ok_def by (metis (no_types, lifting) Un_iff lessThan_iff set_append subsetD)
  have sv: "inService (mshrs h' ! k) = inService (mshrs h ! k)" if "k \<in> set (allocatedList q)" for k
    using own(2) core_cong [OF same] k that by (cases "k = m") auto
  have "filter (\<lambda>m. inService (mshrs h' ! m)) (allocatedList q) = filter (\<lambda>m. inService (mshrs h ! m)) (allocatedList q)"
    by (rule filter_cong) (use sv in auto)
  moreover have "mshr_free (mshrs h' ! k)" if "k \<in> set (freeList q)" for k
    using core_cong [OF same [OF k]] queue_entry(3) [OF ok m] that ok unfolding queue_ok_def by metis
  moreover have "mshr_ok (length (pkts h')) (mshrs h' ! k)" if "k \<in> set (allocatedList q)" for k
    using own(1) core_cong [OF same] k that mshr_ok_mono [OF queue_entry(2) [OF ok that] len(2)] by (cases "k = m") auto
  ultimately show ?thesis
    using ok len(1) sv unfolding queue_ok_def by auto
qed

lemma insert_before_total:
  "\<exists>x \<in> set xs. P x \<Longrightarrow> \<exists>ys. insert_before P m xs = Some ys \<and> set ys = insert m (set xs)
     \<and> (distinct xs \<and> m \<notin> set xs \<longrightarrow> distinct ys)"
proof (induction xs)
  case (Cons x xs)
  then show ?case by (cases "P x") fastforce+
qed simp

lemma addToReadyList_total:
  assumes "distinct rl" "m \<notin> set rl"
  obtains rl' where "addToReadyList m h rl = Some rl'" "set rl' = insert m (set rl)" "distinct rl'"
proof (cases "rl = [] \<or> readyTime (mshrs h ! last rl) \<le> readyTime (mshrs h ! m)")
  case True
  then show thesis using that [of "rl @ [m]"] assms by (simp add: addToReadyList_def)
next
  case False
  then have "\<exists>i \<in> set rl. readyTime (mshrs h ! i) > readyTime (mshrs h ! m)"
    by (intro bexI [of _ "last rl"]) auto
  from insert_before_total [OF this, of m] show thesis
    using that False assms by (auto simp: addToReadyList_def)
qed

lemma length_filter_remove1:
  "x \<in> set xs \<Longrightarrow> length (filter P xs) = length (filter P (remove1 x xs)) + (if P x then 1 else 0)"
  by (induction xs) auto

subsection \<open>Every operation keeps the invariant\<close>

lemma new_queue_ok:
  assumes "0 \<le> num_entries + reserve - 1"
  obtains q h' where "MSHRQueue_new this raw lbl num_entries reserve idx h = Some (q, h')" "queue_ok q h'"
    "length (mshrs h') = length (mshrs h) + nat (num_entries + reserve - 1)" "pkts h' = pkts h"
    "freeList q = registers q" "registers q = [length (mshrs h)..<length (mshrs h')]"
    "\<And>k. k < length (mshrs h) \<Longrightarrow> mshrs h' ! k = mshrs h ! k" "numReserve q = reserve" "allocatedList q = []"
proof -
  let ?n = "nat (num_entries + reserve - 1)"
  let ?regs = "[length (mshrs h)..<length (mshrs h) + ?n]"
  let ?h = "h \<lparr>mshrs := mshrs h @ map (\<lambda>i. (MSHR_new (raw i)) \<lparr>queue := this\<rparr>) [0..<?n]\<rparr>"
  let ?q = "\<lparr>label = lbl, registers = ?regs, allocatedList = [], readyList = [], freeList = ?regs,
             numEntries = num_entries + reserve - 1, numReserve = reserve, allocated = 0, inServiceEntries = 0, index = idx\<rparr>"
  have "mshr_free (mshrs ?h ! m)" if "m \<in> set ?regs" for m
  proof -
    have "m - length (mshrs h) < ?n" using that by auto
    then show ?thesis using that by (simp add: nth_append mshr_free_def MSHR_new_def)
  qed
  then have "queue_ok ?q ?h" using assms by (auto simp: queue_ok_def)
  moreover have "MSHRQueue_new this raw lbl num_entries reserve idx h = Some (?q, ?h)"
    using assms by (simp add: MSHRQueue_new_def Let_def)
  ultimately show thesis using that by (simp add: nth_append)
qed

lemma deallocateOne_ok:
  assumes ok: "queue_ok q h" and m: "m \<in> set (allocatedList q)" and z: "ntargets (mshrs h ! m) = 0"
  obtains q' h' where "deallocateOne m q h = Some (q', h')" "queue_ok q' h'"
    "freeList q' = m # freeList q" "allocatedList q' = remove1 m (allocatedList q)"
    "h' = upd_mshr m (\<lambda>r. r \<lparr>targets := resetFlags (targets r), inService := False\<rparr>) h"
    "registers q' = registers q" "numReserve q' = numReserve q"
proof -
  note e = queue_entry [OF ok m]
  have em: "tl_list (targets (mshrs h ! m)) = []" "tl_list (deferredTargets (mshrs h ! m)) = []" "isReset (deferredTargets (mshrs h ! m))"
    using e(2) z by (simp_all add: mshr_ok_def)
  define h' where "h' = upd_mshr m (\<lambda>r. r \<lparr>targets := resetFlags (targets r), inService := False\<rparr>) h"
  let ?r = "mshrs h ! m"
  let ?q = "q \<lparr>allocatedList := remove1 m (allocatedList q), freeList := m # freeList q, allocated := allocated q - 1,
      inServiceEntries := (if inService ?r then inServiceEntries q - 1 else inServiceEntries q),
      readyList := (if inService ?r then readyList q else remove1 m (readyList q))\<rparr>"
  have dist: "distinct (allocatedList q)" "distinct (readyList q)" using ok by (auto simp: queue_ok_def)
  have free: "mshr_free (mshrs h' ! m)"
    using e(1) em z by (simp add: h'_def mshr_free_def resetFlags_def TargetList_new_def isReset_def)
  have other: "mshrs h' ! k = mshrs h ! k" if "k \<noteq> m" for k using that by (simp add: h'_def)
  have fl: "filter (\<lambda>k. inService (mshrs h' ! k)) (remove1 m (allocatedList q)) = filter (\<lambda>k. inService (mshrs h ! k)) (remove1 m (allocatedList q))"
    by (rule filter_cong) (use dist other in auto)
  have cnt: "int (length (filter (\<lambda>k. inService (mshrs h ! k)) (remove1 m (allocatedList q))))
      = inServiceEntries q - (if inService ?r then 1 else 0)"
    using length_filter_remove1 [OF m, of "\<lambda>k. inService (mshrs h ! k)"] ok by (simp add: queue_ok_def)
  have lh: "length (mshrs h') = length (mshrs h)" "pkts h' = pkts h" by (simp_all add: h'_def)
  have len: "int (length (remove1 m (allocatedList q))) = allocated q - 1"
    using m ok length_pos_if_in_set [OF m] by (simp add: queue_ok_def length_remove1 Suc_le_eq of_nat_diff)
  have sets: "set (remove1 m (allocatedList q)) = set (allocatedList q) - {m}" "set (remove1 m (readyList q)) = set (readyList q) - {m}"
    using dist by simp_all
  have ready: "set (readyList ?q) = {k \<in> set (allocatedList q) - {m}. \<not> inService (mshrs h' ! k)}"
  proof -
    have r: "set (readyList q) = {k \<in> set (allocatedList q). \<not> inService (mshrs h ! k)}" using ok by (simp add: queue_ok_def)
    then have "set (readyList ?q) = set (readyList q) - {m}" using sets(2) e(4) by auto
    also have "\<dots> = {k \<in> set (allocatedList q) - {m}. \<not> inService (mshrs h ! k)}" unfolding r by auto
    finally show ?thesis using other by auto
  qed
  have "queue_ok ?q h'"
  proof -
    note o = ok [unfolded queue_ok_def]
    have "set (m # freeList q @ remove1 m (allocatedList q)) = set (registers q)" "distinct (m # freeList q @ remove1 m (allocatedList q))"
      using o m e(3) dist sets(1) by auto
    moreover have "\<forall>k \<in> set (m # freeList q). mshr_free (mshrs h' ! k)" using o free other by (metis set_ConsD)
    moreover have "\<forall>k \<in> set (remove1 m (allocatedList q)). mshr_ok (length (pkts h')) (mshrs h' ! k)" using o other sets(1) lh(2) by simp
    moreover have "distinct (readyList ?q)" using dist by simp
    ultimately show ?thesis using o fl cnt len ready sets(1) lh by (simp add: queue_ok_def)
  qed
  moreover have "deallocateOne m q h = Some (?q, h')"
    using e(4,5) em z m by (auto simp: h'_def deallocateOne_def erase_def mshr_deallocate_def)
  ultimately show thesis using that h'_def by simp
qed

lemma allocate_fresh:
  assumes "mshr_free (mshrs h ! m)" "m < length (mshrs h)" "p < length (pkts h)"
    and up: "upstream_free (pkts h ! p) h"
  obtains h' where "mshr_allocate m a sz p whenReady ord now h = Some h'" "length (mshrs h') = length (mshrs h)"
    "pkts h' = pkts h" "mshr_ok (length (pkts h')) (mshrs h' ! m)" "\<not> inService (mshrs h' ! m)" "readyTime (mshrs h' ! m) = whenReady"
    "m_addr (mshrs h' ! m) = a" "\<forall>k < length (mshrs h). k \<noteq> m \<longrightarrow> core (mshrs h' ! k) = core (mshrs h ! k)"
    "\<forall>k < length (mshrs h). k \<noteq> m \<longrightarrow> readyTime (mshrs h' ! k) = readyTime (mshrs h ! k) \<and> m_addr (mshrs h' ! k) = m_addr (mshrs h ! k)"
    "map pkt (tl_list (targets (mshrs h' ! m))) = [p]"
proof -
  let ?b = "pkts h ! p"
  let ?f = "\<lambda>r. r \<lparr>m_addr := a, m_size := sz, readyTime := whenReady, order := ord,
       isForward := False, m_isUncacheable := isUncacheable (req ?b), inService := False,
       downstreamPending := False, threadNum := 0, ntargets := 1\<rparr>"
  let ?h0 = "upd_mshr m ?f h"
  let ?sr = "if cmd ?b = HardPFReq then FromPrefetcher else FromCPU"
  have up0: "upstream_free ?b ?h0" using up by (rule upstream_free_upd) simp
  have len0: "p < length (pkts ?h0)" "m < length (mshrs ?h0)" using assms by simp_all
  obtain h1 where h1: "same_but_pending ?h0 h1" "tl_add False m p whenReady ord ?sr True now ?h0
      = Some (upd_mshr m (\<lambda>r. r \<lparr>targets := tl_push ?b p whenReady ord ?sr True now (targets r)\<rparr>) h1)"
    using tl_add_eq [OF len0, of True False whenReady ord ?sr now] up0 by auto
  define h2 where "h2 = upd_mshr m (\<lambda>r. r \<lparr>targets := tl_push ?b p whenReady ord ?sr True now (targets r)\<rparr>) h1"
  have ml: "m < length (mshrs h1)" "length (mshrs h1) = length (mshrs h)" "pkts h1 = pkts h"
    using h1(1) assms(2) by (simp_all add: same_but_pending_def)
  note fl = same_but_pending_fields [OF h1(1) len0(2)]
  have d: "deferredTargets (mshrs h2 ! m) = TargetList_new" "targets (mshrs h1 ! m) = TargetList_new"
    using fl(1,2) assms(1,2) ml by (simp_all add: h2_def mshr_free_def)
  have "mshr_allocate m a sz p whenReady ord now h = Some (upd_mshr m (\<lambda>r. r \<lparr>m_data := None\<rparr>) h2)"
    using assms(1-3) h1(2) d(1) by (simp add: mshr_allocate_def at_def h2_def [symmetric] mshr_free_def)
  then show thesis
  proof (rule that)
    show "mshr_ok (length (pkts (upd_mshr m (\<lambda>r. r \<lparr>m_data := None\<rparr>) h2))) (mshrs (upd_mshr m (\<lambda>r. r \<lparr>m_data := None\<rparr>) h2) ! m)"
      using fl d ml assms(2,3) by (simp add: mshr_ok_def h2_def)
    show "\<forall>k < length (mshrs h). k \<noteq> m \<longrightarrow> core (mshrs (upd_mshr m (\<lambda>r. r \<lparr>m_data := None\<rparr>) h2) ! k) = core (mshrs h ! k)"
      using same_but_pending_core [OF h1(1)] by (simp add: h2_def)
    show "\<forall>k < length (mshrs h). k \<noteq> m \<longrightarrow> readyTime (mshrs (upd_mshr m (\<lambda>r. r \<lparr>m_data := None\<rparr>) h2) ! k) = readyTime (mshrs h ! k)
        \<and> m_addr (mshrs (upd_mshr m (\<lambda>r. r \<lparr>m_data := None\<rparr>) h2) ! k) = m_addr (mshrs h ! k)"
      using same_but_pending_fields(5,6) [OF h1(1)] by (simp add: h2_def)
  qed (use fl ml assms(2) d in \<open>simp_all add: h2_def\<close>)
qed

lemma queue_free:
  assumes "queue_ok q h" "m \<in> set (freeList q)"
  shows "m < length (mshrs h)" "mshr_free (mshrs h ! m)" "m \<notin> set (allocatedList q)" "m \<notin> set (readyList q)"
proof -
  show "m < length (mshrs h)"
    using assms unfolding queue_ok_def by (metis (no_types, lifting) Un_iff lessThan_iff set_append subsetD)
  show "mshr_free (mshrs h ! m)" "m \<notin> set (allocatedList q)" "m \<notin> set (readyList q)"
    using assms by (auto simp: queue_ok_def)
qed

lemma q_allocate_ok:
  assumes ok: "queue_ok q h" and fl: "freeList q = m # fs" and p: "p < length (pkts h)"
    and up: "upstream_free (pkts h ! p) h"
  obtains q' h' where "q_allocate a sz p when ord now q h = Some (m, q', h')" "queue_ok q' h'"
    "freeList q' = fs" "allocatedList q' = allocatedList q @ [m]" "addToReadyList m h' (readyList q) = Some (readyList q')"
    "readyTime (mshrs h' ! m) = when" "m_addr (mshrs h' ! m) = a" "length (mshrs h') = length (mshrs h)" "pkts h' = pkts h"
    "registers q' = registers q" "numReserve q' = numReserve q" "map pkt (tl_list (targets (mshrs h' ! m))) = [p]"
    "\<forall>k < length (mshrs h). k \<noteq> m \<longrightarrow> readyTime (mshrs h' ! k) = readyTime (mshrs h ! k) \<and> m_addr (mshrs h' ! k) = m_addr (mshrs h ! k)"
proof -
  have mf: "m \<in> set (freeList q)" using fl by simp
  note f = queue_free [OF ok mf]
  obtain h' where h': "mshr_allocate m a sz p when ord now h = Some h'" "length (mshrs h') = length (mshrs h)"
    "pkts h' = pkts h" "mshr_ok (length (pkts h')) (mshrs h' ! m)" "\<not> inService (mshrs h' ! m)" "readyTime (mshrs h' ! m) = when"
    "m_addr (mshrs h' ! m) = a" "\<forall>k < length (mshrs h). k \<noteq> m \<longrightarrow> core (mshrs h' ! k) = core (mshrs h ! k)"
    "\<forall>k < length (mshrs h). k \<noteq> m \<longrightarrow> readyTime (mshrs h' ! k) = readyTime (mshrs h ! k) \<and> m_addr (mshrs h' ! k) = m_addr (mshrs h ! k)"
    "map pkt (tl_list (targets (mshrs h' ! m))) = [p]"
    by (rule allocate_fresh [OF f(2,1) p up, of a sz "when" ord now])
  obtain rl where rl: "addToReadyList m h' (readyList q) = Some rl" "set rl = insert m (set (readyList q))" "distinct rl"
    by (rule addToReadyList_total [of "readyList q" m h']) (use ok f(4) in \<open>auto simp: queue_ok_def\<close>)
  let ?q = "q \<lparr>freeList := fs, allocatedList := allocatedList q @ [m], readyList := rl, allocated := allocated q + 1\<rparr>"
  have cg: "core (mshrs h' ! k) = core (mshrs h ! k)" if "k \<in> set fs \<or> k \<in> set (allocatedList q)" for k
  proof (rule h'(8) [rule_format])
    show "k < length (mshrs h)" using that queue_free(1) [OF ok, of k] queue_entry(1) [OF ok, of k] fl by auto
    show "k \<noteq> m" using that f(3) ok fl by (auto simp: queue_ok_def)
  qed
  note cc = core_cong [OF cg]
  have fil: "filter (\<lambda>k. inService (mshrs h' ! k)) (allocatedList q) = filter (\<lambda>k. inService (mshrs h ! k)) (allocatedList q)"
    by (rule filter_cong) (use cc in auto)
  have ready: "insert m (set (readyList q)) = {k \<in> insert m (set (allocatedList q)). \<not> inService (mshrs h' ! k)}"
    using ok h'(5) cc f(3) by (auto simp: queue_ok_def)
  have "queue_ok ?q h'"
    unfolding queue_ok_def using ok fl rl h'(2,4,5) fil ready cc f(3) h'(3)
    by (auto simp: queue_ok_def)
  moreover have "q_allocate a sz p when ord now q h = Some (m, ?q, h')"
    using fl f(1,2) h'(1) rl(1) by (simp add: q_allocate_def at_def mshr_free_def)
  ultimately show thesis using that [of ?q h'] h' rl by simp
qed

text \<open>An entry that enters or leaves service.\<close>

lemma queue_ok_flip:
  assumes ok: "queue_ok q h" and m: "m \<in> set (allocatedList q)" and len: "length (mshrs h) \<le> length (mshrs h')" "length (pkts h) \<le> length (pkts h')"
    and same: "\<forall>k < length (mshrs h). k \<noteq> m \<longrightarrow> core (mshrs h' ! k) = core (mshrs h ! k)"
    and own: "mshr_ok (length (pkts h')) (mshrs h' ! m)" "inService (mshrs h' ! m) \<noteq> inService (mshrs h ! m)"
    and rl: "distinct rl" "set rl = (if inService (mshrs h' ! m) then set (readyList q) - {m} else insert m (set (readyList q)))"
  shows "queue_ok (q \<lparr>readyList := rl, inServiceEntries := inServiceEntries q
     + (if inService (mshrs h' ! m) then 1 else -1)\<rparr>) h'"
proof -
  note o = ok [unfolded queue_ok_def]
  have k: "core (mshrs h' ! k) = core (mshrs h ! k)" if "k \<in> set (freeList q) \<union> set (allocatedList q) - {m}" for k
    using that same queue_entry(1) [OF ok, of k] queue_free(1) [OF ok, of k] by auto
  note cc = core_cong [OF k]
  have da: "distinct (allocatedList q)" using o by simp
  have fl: "filter (\<lambda>k. inService (mshrs h' ! k)) (remove1 m (allocatedList q)) = filter (\<lambda>k. inService (mshrs h ! k)) (remove1 m (allocatedList q))"
    by (rule filter_cong) (use da cc in auto)
  have cnt: "int (length (filter (\<lambda>k. inService (mshrs h' ! k)) (allocatedList q))) = inServiceEntries q
     + (if inService (mshrs h' ! m) then 1 else -1)"
    using length_filter_remove1 [OF m, of "\<lambda>k. inService (mshrs h ! k)"]
      length_filter_remove1 [OF m, of "\<lambda>k. inService (mshrs h' ! k)"] fl own(2) o by (auto split: if_splits)
  have r: "set (readyList q) = {k \<in> set (allocatedList q). \<not> inService (mshrs h ! k)}" using o by simp
  have ready: "set rl = {k \<in> set (allocatedList q). \<not> inService (mshrs h' ! k)}"
  proof (rule set_eqI)
    fix x show "x \<in> set rl \<longleftrightarrow> x \<in> {k \<in> set (allocatedList q). \<not> inService (mshrs h' ! k)}"
      using rl(2) r m own(2) cc [of x] by (cases "x = m") auto
  qed
  have "\<forall>k \<in> set (freeList q). mshr_free (mshrs h' ! k)" using o cc queue_entry(3) [OF ok m] by blast
  moreover have "\<forall>k \<in> set (allocatedList q). mshr_ok (length (pkts h')) (mshrs h' ! k)"
  proof
    fix k assume k: "k \<in> set (allocatedList q)"
    show "mshr_ok (length (pkts h')) (mshrs h' ! k)"
      using own(1) cc [of k] k mshr_ok_mono [OF queue_entry(2) [OF ok k] len(2)] by (cases "k = m") auto
  qed
  moreover have "set (registers q) \<subseteq> {..<length (mshrs h')}" using o len by auto
  ultimately show ?thesis using o cnt ready rl(1) by (simp add: queue_ok_def)
qed

lemma q_moveToFront_ok:
  assumes ok: "queue_ok q h" and m: "m \<in> set (allocatedList q)"
  obtains q' where "q_moveToFront m q h = Some q'" "queue_ok q' h"
    "readyList q' = (if inService (mshrs h ! m) then readyList q else m # remove1 m (readyList q))"
    "allocatedList q' = allocatedList q" "freeList q' = freeList q"
proof (cases "inService (mshrs h ! m)")
  case True
  then show thesis using that [of q] queue_entry [OF ok m] ok by (simp add: q_moveToFront_def)
next
  case False
  let ?q = "q \<lparr>readyList := m # remove1 m (readyList q)\<rparr>"
  have mr: "m \<in> set (readyList q)" "distinct (readyList q)" using False queue_entry(4) [OF ok m] ok by (auto simp: queue_ok_def)
  have "set (m # remove1 m (readyList q)) = set (readyList q)" "distinct (m # remove1 m (readyList q))" using mr by auto
  then have "queue_ok ?q h" using ok by (simp add: queue_ok_def)
  then show thesis using that [of ?q] False mr queue_entry(5) [OF ok m] by (simp add: q_moveToFront_def erase_def)
qed

lemma q_markPending_ok:
  assumes ok: "queue_ok q h" and m: "m \<in> set (allocatedList q)" "inService (mshrs h ! m)" "tl_list (deferredTargets (mshrs h ! m)) = []"
  obtains q' h' where "q_markPending m q h = Some (q', h')" "queue_ok q' h'" "allocatedList q' = allocatedList q"
    "set (readyList q') = insert m (set (readyList q))" "h' = upd_mshr m (\<lambda>r. r \<lparr>inService := False\<rparr>) h"
proof -
  note e = queue_entry [OF ok m(1)]
  define h' where "h' = upd_mshr m (\<lambda>r. r \<lparr>inService := False\<rparr>) h"
  have own: "mshr_ok (length (pkts h')) (mshrs h' ! m)" "\<not> inService (mshrs h' ! m)" using e(1,2) m(3) by (simp_all add: h'_def mshr_ok_def)
  have other: "\<forall>k < length (mshrs h). k \<noteq> m \<longrightarrow> core (mshrs h' ! k) = core (mshrs h ! k)" by (simp add: h'_def)
  have lh: "length (mshrs h) \<le> length (mshrs h')" "length (pkts h) \<le> length (pkts h')" by (simp_all add: h'_def)
  obtain rl where rl: "addToReadyList m h' (readyList q) = Some rl" "set rl = insert m (set (readyList q))" "distinct rl"
    by (rule addToReadyList_total [of "readyList q" m h']) (use ok e(4) m(2) in \<open>auto simp: queue_ok_def\<close>)
  have "queue_ok (q \<lparr>readyList := rl, inServiceEntries := inServiceEntries q + (if inService (mshrs h' ! m) then 1 else -1)\<rparr>) h'"
    by (rule queue_ok_flip [OF ok m(1) lh other own(1)]) (use own(2) m(2) rl in auto)
  then have "queue_ok (q \<lparr>readyList := rl, inServiceEntries := inServiceEntries q - 1\<rparr>) h'" using own(2) by simp
  moreover have "q_markPending m q h = Some (q \<lparr>readyList := rl, inServiceEntries := inServiceEntries q - 1\<rparr>, h')"
    using e(5) m(2) rl(1) by (simp add: q_markPending_def h'_def)
  ultimately show thesis using that rl(2) h'_def by simp
qed

lemma pop_ok:
  assumes ok: "queue_ok q h" and m: "m \<in> set (allocatedList q)" "hasTargets (mshrs h ! m)"
  obtains r where "popTarget (mshrs h ! m) = Some r" "queue_ok q (upd_mshr m (\<lambda>_. r) h)"
    "tl_list (targets r) = tl (tl_list (targets (mshrs h ! m)))"
proof -
  note e = queue_entry [OF ok m(1)]
  let ?r = "(mshrs h ! m) \<lparr>ntargets := ntargets (mshrs h ! m) - 1,
    targets := (targets (mshrs h ! m)) \<lparr>tl_list := tl (tl_list (targets (mshrs h ! m)))\<rparr>\<rparr>"
  have nz: "0 < unat (ntargets (mshrs h ! m))" using e(2) m(2) by (auto simp: mshr_ok_def hasTargets_def)
  have "unat (ntargets (mshrs h ! m) - 1) = unat (ntargets (mshrs h ! m)) - 1"
    using nz by (intro unat_minus_one) auto
  then have "mshr_ok (length (pkts h)) ?r" using e(2) m(2) nz by (cases "tl_list (targets (mshrs h ! m))") (simp_all add: mshr_ok_def hasTargets_def)
  then have "queue_ok q (upd_mshr m (\<lambda>_. ?r) h)"
    by (intro queue_ok_local [OF ok m(1)]) (use e(1) in simp_all)
  then show thesis using that [of ?r] m(2) by (simp add: popTarget_def)
qed

lemma promote_ok:
  assumes ok: "queue_ok q h" and m: "m \<in> set (allocatedList q)" "inService (mshrs h ! m)" "\<not> hasTargets (mshrs h ! m)"
  obtains d h' where "promoteDeferredTargets m now h = Some (d, h')" "queue_ok q h'"
    "d \<longleftrightarrow> tl_list (deferredTargets (mshrs h ! m)) \<noteq> []"
    "tl_list (targets (mshrs h' ! m)) = tl_list (deferredTargets (mshrs h ! m))" "tl_list (deferredTargets (mshrs h' ! m)) = []"
proof (cases "tl_list (deferredTargets (mshrs h ! m))")
  case Nil
  then show thesis using that [of False h] queue_entry(5) [OF ok m(1)] ok m(3) by (simp add: promoteDeferredTargets_def hasTargets_def)
next
  case (Cons t ts)
  note e = queue_entry [OF ok m(1)]
  let ?f = "\<lambda>r. r \<lparr>targets := deferredTargets r, deferredTargets := resetFlags (targets r), order := tgt_order t,
           readyTime := max now (tgt_readyTime t)\<rparr>"
  have em: "tl_list (targets (mshrs h ! m)) = []" "Suc (length ts) = unat (ntargets (mshrs h ! m))"
    using m(3) e(2) Cons by (simp_all add: hasTargets_def mshr_ok_def)
  have "mshr_ok (length (pkts h)) (?f (mshrs h ! m))" using em Cons m(2) e(2) by (simp add: mshr_ok_def)
  then have "queue_ok q (upd_mshr m ?f h)"
    by (intro queue_ok_local [OF ok m(1)]) (use e(1) in simp_all)
  then show thesis
    using that [of True "upd_mshr m ?f h"] Cons em e(1,5) by (simp add: promoteDeferredTargets_def)
qed

text \<open>New targets.\<close>

lemma must_defer_service: "must_defer r b \<Longrightarrow> inService r"
  by (simp add: must_defer_def)

lemma allocateTarget_ok:
  assumes ok: "queue_ok q h" and m: "m \<in> set (allocatedList q)" and p: "p < length (pkts h)"
    and nopf: "cmd (pkts h ! p) \<noteq> HardPFReq" and up: "upstream_free (pkts h ! p) h"
    and room: "unat (ntargets (mshrs h ! m)) < 2 ^ 16 - 1"
  obtains h' t where "allocateTarget m p whenReady ord now h = Some h'" "queue_ok q h'" "pkt t = p"
    "tl_list (targets (mshrs h' ! m)) @ tl_list (deferredTargets (mshrs h' ! m))
       = tl_list (targets (mshrs h ! m)) @ tl_list (deferredTargets (mshrs h ! m)) @ [t]"
    "tl_list (deferredTargets (mshrs h' ! m)) = tl_list (deferredTargets (mshrs h ! m)) @ (if must_defer (mshrs h ! m) (pkts h ! p) then [t] else [])"
    "pkts h' = (if must_defer (mshrs h ! m) (pkts h ! p) \<and> postInvalidate (mshrs h ! m)
        then (pkts h)[p := replaceUpgrade (pkts h ! p)] else pkts h)"
    "inService (mshrs h' ! m) = inService (mshrs h ! m)" "postInvalidate (mshrs h' ! m) = postInvalidate (mshrs h ! m)"
proof -
  note e = queue_entry [OF ok m]
  let ?r = "mshrs h ! m" and ?b = "pkts h ! p"
  have inc: "unat (ntargets ?r + 1) = unat (ntargets ?r) + 1"
    using room by (simp add: unat_word_ariths(1))
  define dfr where "dfr = must_defer ?r ?b"
  define h0 where "h0 = (if dfr \<and> postInvalidate ?r then upd_pkt p replaceUpgrade h else h)"
  have h0: "mshrs h0 = mshrs h" "length (pkts h0) = length (pkts h)" by (simp_all add: h0_def)
  have ss: "senderState (replaceUpgrade b) = senderState b" for b by (simp add: replaceUpgrade_def)
  have up0: "upstream_free (pkts h0 ! p) h0"
    using up p ss by (auto simp: upstream_free_def h0_def split: option.splits SenderState.splits)
  let ?mp = "dfr \<or> \<not> inService ?r"
  let ?t = "\<lparr>recvTime = now, tgt_readyTime = whenReady, tgt_order = ord, pkt = p, source = FromCPU, markedPending = ?mp\<rparr>"
  have l0: "p < length (pkts h0)" "m < length (mshrs h0)" using p e(1) h0 by simp_all
  define push where "push = (\<lambda>r :: MSHR. if dfr
         then r \<lparr>deferredTargets := tl_push (pkts h0 ! p) p whenReady ord FromCPU ?mp now (deferredTargets r)\<rparr>
         else r \<lparr>targets := tl_push (pkts h0 ! p) p whenReady ord FromCPU ?mp now (targets r)\<rparr>)"
  obtain h1 where h1: "same_but_pending h0 h1" "tl_add dfr m p whenReady ord FromCPU ?mp now h0 = Some (upd_mshr m push h1)"
    using tl_add_eq [OF l0 up0, where mp = ?mp and dfr = dfr and ready = whenReady and ord = ord and sr = FromCPU and now = now, folded push_def]
    by blast
  define h2 where "h2 = upd_mshr m (\<lambda>r. r \<lparr>ntargets := ntargets r + 1\<rparr>) (upd_mshr m push h1)"
  have sv: "dfr \<Longrightarrow> inService ?r" by (simp add: dfr_def must_defer_service)
  have ex: "allocateTarget m p whenReady ord now h = Some h2"
    using e(5) p nopf h1(2) sv
    by (cases dfr; cases "postInvalidate ?r")
      (simp_all add: allocateTarget_def at_def dfr_def [symmetric] hasPostInvalidate_def h2_def h0_def)
  note fl = same_but_pending_fields [OF h1(1) l0(2), unfolded h0(1)]
  have ml: "m < length (mshrs h1)" "length (mshrs h1) = length (mshrs h)" "pkts h1 = pkts h0"
    using h1(1) e(1) h0 by (simp_all add: same_but_pending_def)
  have tg: "tl_list (targets (mshrs h2 ! m)) = tl_list (targets ?r) @ (if dfr then [] else [?t])"
    "tl_list (deferredTargets (mshrs h2 ! m)) = tl_list (deferredTargets ?r) @ (if dfr then [?t] else [])"
    "inService (mshrs h2 ! m) = inService ?r" "ntargets (mshrs h2 ! m) = ntargets ?r + 1"
    "\<not> dfr \<Longrightarrow> deferredTargets (mshrs h2 ! m) = deferredTargets ?r" "postInvalidate (mshrs h2 ! m) = postInvalidate ?r"
    using ml fl by (simp_all add: h2_def push_def)
  have nd: "tl_list (deferredTargets ?r) = []" if "\<not> dfr"
    using that e(2) by (auto simp: dfr_def must_defer_def mshr_ok_def)
  have pl: "length (pkts h2) = length (pkts h)" using ml(3) h0(2) by (simp add: h2_def)
  have "\<forall>t \<in> set (tl_list (targets (mshrs h2 ! m))) \<union> set (tl_list (deferredTargets (mshrs h2 ! m))). pkt t < length (pkts h)"
    using e(2) p tg(1,2) by (auto simp: mshr_ok_def)
  then have "mshr_ok (length (pkts h2)) (mshrs h2 ! m)"
    using tg inc e(2) sv pl by (cases dfr) (simp_all add: mshr_ok_def)
  moreover have "core (mshrs h2 ! k) = core (mshrs h ! k)" if "k < length (mshrs h)" "k \<noteq> m" for k
    using same_but_pending_core [OF h1(1), of k] that h0(1) by (simp add: h2_def)
  ultimately have "queue_ok q h2"
    by (intro queue_ok_local [OF ok m]) (use tg(3) ml(2) pl in \<open>simp_all add: h2_def\<close>)
  moreover have "pkts h2 = (if dfr \<and> postInvalidate ?r then (pkts h)[p := replaceUpgrade ?b] else pkts h)"
    using ml(3) by (simp add: h2_def h0_def upd_pkt_def)
  ultimately show thesis
    using that [OF ex, of ?t] tg nd by (cases dfr) (simp_all add: dfr_def [symmetric])
qed

end
