(* ===== verification/MSHR_Machine.thy ===== *)
theory MSHR_Machine
imports MSHR_Queue
begin

text \<open>
  The MSHR queue as the cache drives it: service, snoops, fills and target
  handling on top of the queue operations, and the properties of the
  component.  Every operation succeeds under the conditions the cache
  establishes before it calls it, and keeps the queue invariant.
\<close>

lemma upstream_free_cong:
  assumes "mshrs h' = mshrs h" "senderState b' = senderState b"
  shows "upstream_free b' h' = upstream_free b h"
  unfolding upstream_free_def assms ..

subsection \<open>Issuing a request\<close>

lemma markInService_ok:
  assumes ok: "queue_ok q h" and m: "m \<in> set (readyList q)" and p: "p < length (pkts h)"
    and t: "hasTargets (mshrs h ! m)"
    and up: "\<not> downstreamPending (mshrs h ! m) \<Longrightarrow> upstream_ok h (tl_list (targets (mshrs h ! m)))"
  obtains q' h' where "q_markInService m p q h = Some (q', h')" "queue_ok q' h'" "pkts h' = pkts h"
    "readyList q' = remove1 m (readyList q)"
    "m \<in> set (allocatedList q') \<longrightarrow> inService (mshrs h' ! m) \<and> targets (mshrs h' ! m) = targets (mshrs h ! m)
       \<and> deferredTargets (mshrs h' ! m) = deferredTargets (mshrs h ! m)"
    "m \<in> set (allocatedList q') \<longleftrightarrow> isForwardNoResponse (mshrs h ! m) h = Some False"
    "registers q' = registers q" "numReserve q' = numReserve q"
proof -
  have al: "m \<in> set (allocatedList q)" and ns: "\<not> inService (mshrs h ! m)" using ok m by (auto simp: queue_ok_def)
  note e = queue_entry [OF ok al]
  let ?r = "mshrs h ! m"
  have dr: "distinct (readyList q)" and da: "distinct (allocatedList q)" using ok by (simp_all add: queue_ok_def)
  have fwd: "\<exists>b. isForwardNoResponse ?r h = Some b"
    using t e(2) by (auto simp: isForwardNoResponse_def getTarget_def at_def hasTargets_def mshr_ok_def)
  then obtain b where b: "isForwardNoResponse ?r h = Some b" by blast
  show thesis
  proof (cases b)
    case True
    have one: "ntargets ?r = 1" using b True by (simp add: isForwardNoResponse_def split: if_splits)
    obtain r where r: "popTarget ?r = Some r" "queue_ok q (upd_mshr m (\<lambda>_. r) h)"
      "tl_list (targets r) = tl (tl_list (targets ?r))" by (rule pop_ok [OF ok al t])
    have z: "ntargets (mshrs (upd_mshr m (\<lambda>_. r) h) ! m) = 0" and ns': "\<not> inService r"
      using r(1) one e(1) ns t by (auto simp: popTarget_def)
    obtain q' h' where d: "deallocateOne m q (upd_mshr m (\<lambda>_. r) h) = Some (q', h')" "queue_ok q' h'"
      "freeList q' = m # freeList q" "allocatedList q' = remove1 m (allocatedList q)"
      "h' = upd_mshr m (\<lambda>r. r \<lparr>targets := resetFlags (targets r), inService := False\<rparr>) (upd_mshr m (\<lambda>_. r) h)"
      "registers q' = registers q" "numReserve q' = numReserve q"
      by (rule deallocateOne_ok [OF r(2) al z])
    have "q_markInService m p q h = Some (q', h')"
      using e(5) ns b True one r(1) d(1) by (simp add: q_markInService_def mshr_markInService_def q_deallocate_def)
    moreover have "readyList q' = remove1 m (readyList q)"
      using d(1) e(1) ns' m al by (auto simp: deallocateOne_def at_def erase_def bind_eq_Some_conv Let_def split: if_splits)
    moreover have "m \<notin> set (allocatedList q')" using d(4) da by simp
    ultimately show thesis using that [of q' h'] d b True by simp
  next
    case False
    define f where "f = (\<lambda>r :: MSHR. r \<lparr>inService := True,
         pendingDirty := (tl_needsExclusive (targets r) \<or> (\<not> sharedAsserted (pkts h ! p) \<and> memInhibitAsserted (pkts h ! p))),
         postInvalidate := False, postDowngrade := False\<rparr>)"
    let ?h = "upd_mshr m f h"
    have ff: "targets (f r) = targets r" "downstreamPending (f r) = downstreamPending r" "inService (f r)"
      "deferredTargets (f r) = deferredTargets r" "ntargets (f r) = ntargets r" for r
      by (simp_all add: f_def)
    have "\<exists>h'. (if \<not> downstreamPending ?r then clear_pending (tl_list (targets ?r)) ?h else Some ?h) = Some h' \<and> same_but_pending ?h h'"
    proof (cases "downstreamPending ?r")
      case False
      have tk: "targets (mshrs ?h ! k) = targets (mshrs h ! k)" "downstreamPending (mshrs ?h ! k) = downstreamPending (mshrs h ! k)" for k
        using e(1) ff by (cases "k = m"; simp)+
      have "upstream_ok ?h (tl_list (targets ?r))"
        using up [OF False] upstream_ok_cong [of ?h h] tk by simp
      from clear_pending_exact [OF this] show ?thesis using False by auto
    qed simp
    then obtain h' where h': "(if \<not> downstreamPending ?r then clear_pending (tl_list (targets ?r)) ?h else Some ?h) = Some h'"
      "same_but_pending ?h h'" by blast
    have lh: "length (mshrs h') = length (mshrs h)" "pkts h' = pkts h" using h'(2) by (simp_all add: same_but_pending_def)
    have mh: "m < length (mshrs ?h)" using e(1) by simp
    note fl = same_but_pending_fields [OF h'(2) mh]
    have own: "inService (mshrs h' ! m)" "mshr_ok (length (pkts h')) (mshrs h' ! m)" "targets (mshrs h' ! m) = targets ?r"
      "deferredTargets (mshrs h' ! m) = deferredTargets ?r"
      using fl e(1,2) ff lh by (simp_all add: mshr_ok_def)
    have other: "\<forall>k < length (mshrs h). k \<noteq> m \<longrightarrow> core (mshrs h' ! k) = core (mshrs h ! k)"
      using same_but_pending_core [OF h'(2)] by simp
    have le: "length (mshrs h) \<le> length (mshrs h')" "length (pkts h) \<le> length (pkts h')" using lh by simp_all
    have "queue_ok (q \<lparr>readyList := remove1 m (readyList q), inServiceEntries := inServiceEntries q
        + (if inService (mshrs h' ! m) then 1 else -1)\<rparr>) h'"
      by (rule queue_ok_flip [OF ok al le other own(2)]) (use own(1) ns dr in auto)
    then have "queue_ok (q \<lparr>readyList := remove1 m (readyList q), inServiceEntries := inServiceEntries q + 1\<rparr>) h'"
      using own(1) by simp
    moreover have "q_markInService m p q h = Some (q \<lparr>readyList := remove1 m (readyList q), inServiceEntries := inServiceEntries q + 1\<rparr>, h')"
      using e(5) ns b False p h'(1) m
      by (simp add: q_markInService_def mshr_markInService_def at_def erase_def f_def [symmetric] split: if_splits)
    ultimately show thesis using that own lh al b False by simp
  qed
qed

subsection \<open>Snoops\<close>

lemma replaceUpgrades_ok:
  assumes ok: "queue_ok q h" and m: "m \<in> set (allocatedList q)"
  obtains h' where "replaceUpgrades dfr m h = Some h'" "queue_ok q h'" "length (pkts h') = length (pkts h)"
    "length (mshrs h') = length (mshrs h)" "\<forall>k. k \<noteq> m \<longrightarrow> mshrs h' ! k = mshrs h ! k"
    "mshrs h' ! m = (if dfr then (mshrs h ! m) \<lparr>deferredTargets := (deferredTargets (mshrs h ! m)) \<lparr>tl_hasUpgrade := False\<rparr>\<rparr>
        else (mshrs h ! m) \<lparr>targets := (targets (mshrs h ! m)) \<lparr>tl_hasUpgrade := False\<rparr>\<rparr>)"
    "\<forall>k < length (pkts h). pkts h' ! k = (if tl_hasUpgrade (list_of dfr (mshrs h ! m)) \<and> k \<in> pkt ` set (tl_list (list_of dfr (mshrs h ! m)))
        then replaceUpgrade (pkts h ! k) else pkts h ! k)"
proof -
  note e = queue_entry [OF ok m]
  have "\<forall>t \<in> set (tl_list (list_of dfr (mshrs h ! m))). pkt t < length (pkts h)"
    using e(2) by (auto simp: mshr_ok_def list_of_def)
  from replaceUpgrades_eq [OF e(1) this] obtain h' where h': "replaceUpgrades dfr m h = Some h'"
    "length (mshrs h') = length (mshrs h)" "length (pkts h') = length (pkts h)" "\<forall>k. k \<noteq> m \<longrightarrow> mshrs h' ! k = mshrs h ! k"
    "mshrs h' ! m = (if dfr then (mshrs h ! m) \<lparr>deferredTargets := (deferredTargets (mshrs h ! m)) \<lparr>tl_hasUpgrade := False\<rparr>\<rparr>
        else (mshrs h ! m) \<lparr>targets := (targets (mshrs h ! m)) \<lparr>tl_hasUpgrade := False\<rparr>\<rparr>)"
    "\<forall>k < length (pkts h). pkts h' ! k = (if tl_hasUpgrade (list_of dfr (mshrs h ! m)) \<and> k \<in> pkt ` set (tl_list (list_of dfr (mshrs h ! m)))
        then replaceUpgrade (pkts h ! k) else pkts h ! k)" by metis
  have "queue_ok q h'"
  proof (rule queue_ok_local [OF ok m])
    show "mshr_ok (length (pkts h')) (mshrs h' ! m)" "inService (mshrs h' ! m) = inService (mshrs h ! m)"
      using e(2) h'(3) unfolding h'(5) by (simp_all add: mshr_ok_def isReset_def)
  qed (use h' in simp_all)
  with h' show thesis using that by blast
qed

text \<open>After the replacement no target of a sound list asks for an upgrade.\<close>

lemma no_upgrade_left:
  assumes "tl_sound h l" "t \<in> set (tl_list l)" "source t \<noteq> FromSnoop"
    "\<forall>k < length (pkts h). pkts h' ! k = (if tl_hasUpgrade l \<and> k \<in> pkt ` set (tl_list l) then replaceUpgrade (pkts h ! k) else pkts h ! k)"
  shows "\<not> upgrade_req (cmd (pkts h' ! pkt t))"
proof (cases "tl_hasUpgrade l")
  case True
  then show ?thesis using assms by (simp add: tl_sound_def)
next
  case False
  then show ?thesis using assms by (auto simp: tl_sound_def)
qed

text \<open>The record of a snoop that the pending request precedes.\<close>

definition snoop_record :: "Packet \<Rightarrow> nat \<Rightarrow> nat \<Rightarrow> int \<Rightarrow> tick \<Rightarrow> heap \<Rightarrow> heap option" where
  "snoop_record raw m p ord now h = do {
     let b = pkts h ! p;
     let r = mshrs h ! m;
     let dirty = pendingDirty r;
     let cp = length (pkts h);
     h \<leftarrow> tl_add False m cp now ord FromSnoop (downstreamPending r \<and> tl_needsExclusive (targets r)) now
            (h \<lparr>pkts := pkts h @ [Packet_copy raw b True now]\<rparr>);
     let h = upd_mshr m (\<lambda>r. r \<lparr>ntargets := ntargets r + 1\<rparr>) h;
     let h = (if dirty then upd_pkt p (\<lambda>b. setSupplyExclusive (assertMemInhibit b)) h else h);
     Some (if needsExclusive (cmd b) then upd_mshr m (\<lambda>r. r \<lparr>postInvalidate := True\<rparr>) h else h) }"

lemma snoop_record_ok:
  assumes ok: "queue_ok q h" and m: "m \<in> set (allocatedList q)" and p: "p < length (pkts h)"
    and room: "unat (ntargets (mshrs h ! m)) < 2 ^ 16 - 1"
    and up: "downstreamPending (mshrs h ! m) \<Longrightarrow> tl_needsExclusive (targets (mshrs h ! m)) \<Longrightarrow> upstream_free (pkts h ! p) h"
  obtains h' t where "snoop_record raw m p ord now h = Some h'" "queue_ok q h'"
    "source t = FromSnoop" "pkt t = length (pkts h)" "tl_list (targets (mshrs h' ! m)) = tl_list (targets (mshrs h ! m)) @ [t]"
    "deferredTargets (mshrs h' ! m) = deferredTargets (mshrs h ! m)" "inService (mshrs h' ! m) = inService (mshrs h ! m)"
    "postInvalidate (mshrs h' ! m) = (postInvalidate (mshrs h ! m) \<or> needsExclusive (cmd (pkts h ! p)))"
    "postDowngrade (mshrs h' ! m) = postDowngrade (mshrs h ! m)"
    "length (pkts h') = Suc (length (pkts h))" "pkts h' ! length (pkts h) = Packet_copy raw (pkts h ! p) True now"
    "\<forall>k < length (pkts h). pkts h' ! k = (if k = p \<and> pendingDirty (mshrs h ! m) then setSupplyExclusive (assertMemInhibit (pkts h ! k)) else pkts h ! k)"
proof -
  note e = queue_entry [OF ok m]
  let ?r = "mshrs h ! m" and ?b = "pkts h ! p" and ?cp = "length (pkts h)"
  let ?c = "Packet_copy raw ?b True now"
  let ?mp = "downstreamPending ?r \<and> tl_needsExclusive (targets ?r)"
  let ?t = "\<lparr>recvTime = now, tgt_readyTime = now, tgt_order = ord, pkt = ?cp, source = FromSnoop, markedPending = ?mp\<rparr>"
  define h0 where "h0 = h \<lparr>pkts := pkts h @ [?c]\<rparr>"
  have h0: "mshrs h0 = mshrs h" "pkts h0 = pkts h @ [?c]" by (simp_all add: h0_def)
  have l0: "?cp < length (pkts h0)" "m < length (mshrs h0)" using e(1) h0 by simp_all
  have up0: "?mp \<Longrightarrow> upstream_free (pkts h0 ! ?cp) h0"
    using up by (simp add: h0 Packet_copy_def Let_def upstream_free_cong [OF h0(1), where b = ?b])
  define push where "push = (\<lambda>r :: MSHR. if False
         then r \<lparr>deferredTargets := tl_push (pkts h0 ! ?cp) ?cp now ord FromSnoop ?mp now (deferredTargets r)\<rparr>
         else r \<lparr>targets := tl_push (pkts h0 ! ?cp) ?cp now ord FromSnoop ?mp now (targets r)\<rparr>)"
  obtain h1 where h1: "same_but_pending h0 h1" "tl_add False m ?cp now ord FromSnoop ?mp now h0 = Some (upd_mshr m push h1)"
    by (rule tl_add_eq [OF l0, where mp = ?mp and dfr = False and ready = now and ord = ord and sr = FromSnoop and now = now,
          folded push_def]) (use up0 in blast)
  have ml: "m < length (mshrs h1)" "length (mshrs h1) = length (mshrs h)" "pkts h1 = pkts h @ [?c]"
    using h1(1) e(1) h0 by (simp_all add: same_but_pending_def)
  note fl = same_but_pending_fields [OF h1(1) l0(2), unfolded h0(1)]
  define h2 where "h2 = upd_mshr m (\<lambda>r. r \<lparr>ntargets := ntargets r + 1\<rparr>) (upd_mshr m push h1)"
  define h3 where "h3 = (if pendingDirty ?r then upd_pkt p (\<lambda>b. setSupplyExclusive (assertMemInhibit b)) h2 else h2)"
  define h4 where "h4 = (if needsExclusive (cmd ?b) then upd_mshr m (\<lambda>r. r \<lparr>postInvalidate := True\<rparr>) h3 else h3)"
  have ex: "snoop_record raw m p ord now h = Some h4"
    using h1(2) by (simp add: snoop_record_def h0_def [symmetric] h2_def h3_def h4_def Let_def)
  have m2: "m < length (mshrs h2)" "mshrs h3 = mshrs h2" using ml by (simp_all add: h2_def h3_def)
  have own: "mshrs h2 ! m = (push (mshrs h1 ! m)) \<lparr>ntargets := ntargets ?r + 1\<rparr>"
    using ml fl(4) by (simp add: h2_def push_def)
  have r4: "tl_list (targets (mshrs h4 ! m)) = tl_list (targets ?r) @ [?t]" "deferredTargets (mshrs h4 ! m) = deferredTargets ?r"
    "inService (mshrs h4 ! m) = inService ?r" "postInvalidate (mshrs h4 ! m) = (postInvalidate ?r \<or> needsExclusive (cmd ?b))"
    "postDowngrade (mshrs h4 ! m) = postDowngrade ?r" "ntargets (mshrs h4 ! m) = ntargets ?r + 1"
    using m2 fl by (simp_all add: h4_def own push_def)
  have inc: "unat (ntargets ?r + 1) = unat (ntargets ?r) + 1" using room by (simp add: unat_word_ariths(1))
  have pk: "length (pkts h4) = Suc (length (pkts h))" "pkts h4 ! ?cp = ?c"
    "\<forall>k < length (pkts h). pkts h4 ! k = (if k = p \<and> pendingDirty ?r then setSupplyExclusive (assertMemInhibit (pkts h ! k)) else pkts h ! k)"
    using ml(3) p by (auto simp: h4_def h3_def h2_def upd_pkt_def nth_append nth_list_update)
  have "\<forall>t \<in> set (tl_list (targets (mshrs h4 ! m))) \<union> set (tl_list (deferredTargets (mshrs h4 ! m))). pkt t < length (pkts h4)"
    using e(2) r4(1,2) pk(1) by (auto simp: mshr_ok_def less_SucI)
  then have "mshr_ok (length (pkts h4)) (mshrs h4 ! m)"
    using e(2) r4 inc by (simp add: mshr_ok_def)
  moreover have "core (mshrs h4 ! k) = core (mshrs h ! k)" if "k < length (mshrs h)" "k \<noteq> m" for k
    using same_but_pending_core [OF h1(1), of k] that h0(1) by (simp add: h4_def h3_def h2_def)
  moreover have "length (mshrs h4) = length (mshrs h)" using ml(2) by (simp add: h4_def h3_def h2_def)
  ultimately have "queue_ok q h4"
    by (intro queue_ok_local [OF ok m]) (use r4(3) pk(1) in simp_all)
  then show thesis using that [OF ex, of ?t] r4 pk by simp
qed

definition snoop_first :: "Packet \<Rightarrow> MSHR \<Rightarrow> bool" where
  "snoop_first b r = (\<not> inService r \<or> (isExpressSnoop b \<and> downstreamPending r))"

lemma replaceUpgrade_invalidate [simp]: "isInvalidate (cmd (replaceUpgrade b)) = isInvalidate (cmd b)"
  by (auto simp: replaceUpgrade_def isInvalidate_def testCmdAttrib_def commandInfo_def info_def toInt_def all_commands_def)

text \<open>No target of a list that did not come from a snoop asks for an upgrade.\<close>

definition upgrade_free :: "heap \<Rightarrow> TargetList \<Rightarrow> bool" where
  "upgrade_free h l \<longleftrightarrow> (\<forall>t \<in> set (tl_list l). source t \<noteq> FromSnoop \<longrightarrow> \<not> upgrade_req (cmd (pkts h ! pkt t)))"

lemma isSet_flags_set: "x \<noteq> 0 \<Longrightarrow> isSet (flags_set f x) x"
proof -
  assume "x \<noteq> 0"
  moreover have "(f OR x) AND x = x" by (rule bit_word_eqI) (auto simp: bit_simps)
  ultimately show ?thesis by (simp add: isSet_def flags_set_def)
qed

lemma isSet_flags_mono:
  assumes "isSet f y"
  shows "isSet (flags_set f x) y"
proof (rule ccontr)
  assume "\<not> isSet (flags_set f x) y"
  then have "(f OR x) AND y = 0" by (simp add: isSet_def flags_set_def)
  moreover have "(f AND y) = (f AND y) AND ((f OR x) AND y)" by (rule bit_word_eqI) (auto simp: bit_simps)
  ultimately show False using assms by (simp add: isSet_def flags_set_def)
qed

lemma pkt_flag_cmd [simp]:
  "cmd (setSupplyExclusive b) = cmd b" "cmd (assertMemInhibit b) = cmd b" "cmd (assertShared b) = cmd b"
  by (simp_all add: setSupplyExclusive_def assertMemInhibit_def assertShared_def)

lemma snoop_before_ok:
  assumes ok: "queue_ok q h" and m: "m \<in> set (allocatedList q)" and p: "p < length (pkts h)"
    and first: "snoop_first (pkts h ! p) (mshrs h ! m)"
  obtains h' where "handleSnoop raw m p ord now h = Some (False, h')" "queue_ok q h'"
    "tl_list (targets (mshrs h' ! m)) = tl_list (targets (mshrs h ! m))"
    "tl_list (deferredTargets (mshrs h' ! m)) = tl_list (deferredTargets (mshrs h ! m))"
    "inService (mshrs h' ! m) = inService (mshrs h ! m)"
    "needsExclusive (cmd (pkts h ! p)) \<longrightarrow> tl_sound h (targets (mshrs h ! m)) \<longrightarrow> upgrade_free h' (targets (mshrs h' ! m))"
    "needsExclusive (cmd (pkts h ! p)) \<longrightarrow> tl_sound h (deferredTargets (mshrs h ! m)) \<longrightarrow> upgrade_free h' (deferredTargets (mshrs h' ! m))"
    "\<not> needsExclusive (cmd (pkts h ! p)) \<longrightarrow> h' = h"
proof (cases "needsExclusive (cmd (pkts h ! p))")
  case False
  then show thesis
    using that [of h] ok p first queue_entry(5) [OF ok m] by (simp add: handleSnoop_def at_def snoop_first_def)
next
  case True
  let ?r = "mshrs h ! m"
  obtain h1 where h1: "replaceUpgrades False m h = Some h1" "queue_ok q h1" "length (pkts h1) = length (pkts h)"
    "mshrs h1 ! m = ?r \<lparr>targets := (targets ?r) \<lparr>tl_hasUpgrade := False\<rparr>\<rparr>"
    "\<forall>k < length (pkts h). pkts h1 ! k = (if tl_hasUpgrade (targets ?r) \<and> k \<in> pkt ` set (tl_list (targets ?r))
        then replaceUpgrade (pkts h ! k) else pkts h ! k)"
    by (rule replaceUpgrades_ok [OF ok m, of False]) (simp add: list_of_def)
  obtain h2 where h2: "replaceUpgrades True m h1 = Some h2" "queue_ok q h2" "length (pkts h2) = length (pkts h1)"
    "mshrs h2 ! m = (mshrs h1 ! m) \<lparr>deferredTargets := (deferredTargets (mshrs h1 ! m)) \<lparr>tl_hasUpgrade := False\<rparr>\<rparr>"
    "\<forall>k < length (pkts h1). pkts h2 ! k = (if tl_hasUpgrade (deferredTargets (mshrs h1 ! m)) \<and> k \<in> pkt ` set (tl_list (deferredTargets (mshrs h1 ! m)))
        then replaceUpgrade (pkts h1 ! k) else pkts h1 ! k)"
    by (rule replaceUpgrades_ok [OF h1(2) m, of True]) (simp add: list_of_def)
  have l: "tl_list (targets (mshrs h2 ! m)) = tl_list (targets ?r)" "tl_list (deferredTargets (mshrs h2 ! m)) = tl_list (deferredTargets ?r)"
    "inService (mshrs h2 ! m) = inService ?r" by (simp_all add: h2(4) h1(4))
  have "upgrade_free h2 (targets (mshrs h2 ! m))" if "tl_sound h (targets ?r)"
    using that no_upgrade_left [OF that _ _ h1(5)] h2(5) h1(3) unfolding upgrade_free_def l by (auto simp: tl_sound_def)
  moreover have "upgrade_free h2 (deferredTargets (mshrs h2 ! m))" if "tl_sound h (deferredTargets ?r)"
  proof -
    have "\<not> upgrade_req (cmd (pkts h1 ! k))" if "\<not> upgrade_req (cmd (pkts h ! k))" "k < length (pkts h)" for k
      using that h1(5) by simp
    then show ?thesis
      using that h1(3) h2(5) unfolding upgrade_free_def l by (auto simp: h1(4) tl_sound_def)
  qed
  moreover have "handleSnoop raw m p ord now h = Some (False, h2)"
    using True first h1(1) h2(1) p queue_entry(5) [OF ok m] by (simp add: handleSnoop_def at_def snoop_first_def)
  ultimately show thesis using that [of h2] True l h2(2) by simp
qed

lemma snoop_prepare:
  assumes ok: "queue_ok q h" and m: "m \<in> set (allocatedList q)"
  obtains h1 where "(if ne then replaceUpgrades True m h else Some h) = Some h1" "queue_ok q h1"
    "length (pkts h1) = length (pkts h)" "length (mshrs h1) = length (mshrs h)" "\<forall>k. k \<noteq> m \<longrightarrow> mshrs h1 ! k = mshrs h ! k"
    "targets (mshrs h1 ! m) = targets (mshrs h ! m)" "tl_list (deferredTargets (mshrs h1 ! m)) = tl_list (deferredTargets (mshrs h ! m))"
    "inService (mshrs h1 ! m) = inService (mshrs h ! m)" "pendingDirty (mshrs h1 ! m) = pendingDirty (mshrs h ! m)"
    "postInvalidate (mshrs h1 ! m) = postInvalidate (mshrs h ! m)" "downstreamPending (mshrs h1 ! m) = downstreamPending (mshrs h ! m)"
    "ntargets (mshrs h1 ! m) = ntargets (mshrs h ! m)"
    "ne \<longrightarrow> tl_sound h (deferredTargets (mshrs h ! m)) \<longrightarrow> upgrade_free h1 (deferredTargets (mshrs h1 ! m))"
    "\<forall>k < length (pkts h). pkts h1 ! k = pkts h ! k \<or> pkts h1 ! k = replaceUpgrade (pkts h ! k)"
    "ne \<longrightarrow> (\<forall>k < length (pkts h). pkts h1 ! k = (if tl_hasUpgrade (deferredTargets (mshrs h ! m)) \<and> k \<in> pkt ` set (tl_list (deferredTargets (mshrs h ! m)))
      then replaceUpgrade (pkts h ! k) else pkts h ! k))"
proof (cases ne)
  case True
  let ?r = "mshrs h ! m"
  obtain h1 where h1: "replaceUpgrades True m h = Some h1" "queue_ok q h1" "length (pkts h1) = length (pkts h)"
    "length (mshrs h1) = length (mshrs h)" "\<forall>k. k \<noteq> m \<longrightarrow> mshrs h1 ! k = mshrs h ! k"
    "mshrs h1 ! m = ?r \<lparr>deferredTargets := (deferredTargets ?r) \<lparr>tl_hasUpgrade := False\<rparr>\<rparr>"
    "\<forall>k < length (pkts h). pkts h1 ! k = (if tl_hasUpgrade (deferredTargets ?r) \<and> k \<in> pkt ` set (tl_list (deferredTargets ?r))
      then replaceUpgrade (pkts h ! k) else pkts h ! k)"
    by (rule replaceUpgrades_ok [OF ok m, of True]) (simp add: list_of_def)
  have "upgrade_free h1 (deferredTargets (mshrs h1 ! m))" if "tl_sound h (deferredTargets ?r)"
    using no_upgrade_left [OF that _ _ h1(7)] by (simp add: upgrade_free_def h1(6))
  then show thesis using that [of h1] True h1 by simp
next
  case False
  then show thesis using that [of h] ok by simp
qed

lemma senderState_replaceUpgrade [simp]: "senderState (replaceUpgrade b) = senderState b"
  by (simp add: replaceUpgrade_def)

text \<open>The last step of a snoop the request precedes: a read downgrades the copy that is on its way.\<close>

definition snoop_downgrade :: "bool \<Rightarrow> nat \<Rightarrow> nat \<Rightarrow> heap \<Rightarrow> heap" where
  "snoop_downgrade ne m p h = (if \<not> ne then upd_pkt p assertShared (upd_mshr m (\<lambda>r. r \<lparr>postDowngrade := True\<rparr>) h) else h)"

lemma snoop_downgrade_ok:
  assumes ok: "queue_ok q h" and m: "m \<in> set (allocatedList q)" and p: "p < length (pkts h)"
  shows "queue_ok q (snoop_downgrade ne m p h)"
    "targets (mshrs (snoop_downgrade ne m p h) ! m) = targets (mshrs h ! m)"
    "deferredTargets (mshrs (snoop_downgrade ne m p h) ! m) = deferredTargets (mshrs h ! m)"
    "inService (mshrs (snoop_downgrade ne m p h) ! m) = inService (mshrs h ! m)"
    "postInvalidate (mshrs (snoop_downgrade ne m p h) ! m) = postInvalidate (mshrs h ! m)"
    "\<not> ne \<Longrightarrow> postDowngrade (mshrs (snoop_downgrade ne m p h) ! m) \<and> sharedAsserted (pkts (snoop_downgrade ne m p h) ! p)"
    "pkts (snoop_downgrade ne m p h) ! k = pkts h ! k \<or> pkts (snoop_downgrade ne m p h) ! k = assertShared (pkts h ! k)"
proof -
  note e = queue_entry [OF ok m]
  let ?h = "snoop_downgrade ne m p h"
  show f: "targets (mshrs ?h ! m) = targets (mshrs h ! m)" "deferredTargets (mshrs ?h ! m) = deferredTargets (mshrs h ! m)"
    "inService (mshrs ?h ! m) = inService (mshrs h ! m)" "postInvalidate (mshrs ?h ! m) = postInvalidate (mshrs h ! m)"
    using e(1) by (simp_all add: snoop_downgrade_def)
  show "\<not> ne \<Longrightarrow> postDowngrade (mshrs ?h ! m) \<and> sharedAsserted (pkts ?h ! p)"
    using e(1) p by (simp add: snoop_downgrade_def sharedAsserted_def assertShared_def isSet_flags_set SHARED_def)
  show "pkts ?h ! k = pkts h ! k \<or> pkts ?h ! k = assertShared (pkts h ! k)"
    using p by (cases "k = p") (simp_all add: snoop_downgrade_def upd_pkt_def)
  have "core (mshrs ?h ! k) = core (mshrs h ! k)" for k
    using e(1) by (cases "k = m") (simp_all add: snoop_downgrade_def)
  then show "queue_ok q ?h"
    by (intro queue_ok_cong [OF ok]) (simp_all add: snoop_downgrade_def)
qed

lemma handleSnoop_unfold:
  assumes "m < length (mshrs h)" "p < length (pkts h)" "\<not> snoop_first (pkts h ! p) (mshrs h ! m)"
    and h1: "(if needsExclusive (cmd (pkts h ! p)) then replaceUpgrades True m h else Some h) = Some h1"
    and same: "p < length (pkts h1)" "pendingDirty (mshrs h1 ! m) = pendingDirty (mshrs h ! m)"
      "downstreamPending (mshrs h1 ! m) = downstreamPending (mshrs h ! m)" "targets (mshrs h1 ! m) = targets (mshrs h ! m)"
    and ne: "needsExclusive (cmd (pkts h1 ! p)) = ne"
  shows "handleSnoop raw m p ord now h =
     (if postInvalidate (mshrs h ! m) then Some (True, h1)
      else do {
        h2 \<leftarrow> (if pendingDirty (mshrs h ! m) \<or> isInvalidate (cmd (pkts h1 ! p)) then snoop_record raw m p ord now h1 else Some h1);
        Some (True, snoop_downgrade ne m p h2) })"
proof -
  have sv: "inService (mshrs h ! m)" and nf: "\<not> (isExpressSnoop (pkts h ! p) \<and> downstreamPending (mshrs h ! m))"
    using assms(3) by (auto simp: snoop_first_def)
  show ?thesis
    using assms(1,2) sv nf h1 same
    by (auto simp: handleSnoop_def at_def hasPostInvalidate_def isPendingDirty_def snoop_record_def snoop_downgrade_def Let_def ne
        simp flip: ne)
qed

lemma snoop_after_ok:
  assumes ok: "queue_ok q h" and m: "m \<in> set (allocatedList q)" and p: "p < length (pkts h)"
    and first: "\<not> snoop_first (pkts h ! p) (mshrs h ! m)"
    and room: "unat (ntargets (mshrs h ! m)) < 2 ^ 16 - 1"
    and up: "downstreamPending (mshrs h ! m) \<Longrightarrow> tl_needsExclusive (targets (mshrs h ! m)) \<Longrightarrow> upstream_free (pkts h ! p) h"
  obtains h' where "handleSnoop raw m p ord now h = Some (True, h')" "queue_ok q h'" "inService (mshrs h' ! m)"
    "needsExclusive (cmd (pkts h ! p)) \<longrightarrow> tl_sound h (deferredTargets (mshrs h ! m)) \<longrightarrow> upgrade_free h' (deferredTargets (mshrs h' ! m))"
    "tl_list (deferredTargets (mshrs h' ! m)) = tl_list (deferredTargets (mshrs h ! m))"
    "needsExclusive (cmd (pkts h ! p)) \<longrightarrow> pendingDirty (mshrs h ! m) \<or> isInvalidate (cmd (pkts h ! p)) \<longrightarrow> postInvalidate (mshrs h' ! m)"
    "\<not> needsExclusive (cmd (pkts h ! p)) \<longrightarrow> \<not> postInvalidate (mshrs h ! m) \<longrightarrow> postDowngrade (mshrs h' ! m) \<and> sharedAsserted (pkts h' ! p)"
    "pendingDirty (mshrs h ! m) \<longrightarrow> \<not> postInvalidate (mshrs h ! m) \<longrightarrow> memInhibitAsserted (pkts h' ! p) \<and> isSupplyExclusive (pkts h' ! p)
       \<and> (\<exists>t. tl_list (targets (mshrs h' ! m)) = tl_list (targets (mshrs h ! m)) @ [t] \<and> source t = FromSnoop)"
    "needsExclusive (cmd (pkts h ! p)) \<longrightarrow> (\<forall>k < length (pkts h). cmd (pkts h' ! k) = cmd (if tl_hasUpgrade (deferredTargets (mshrs h ! m))
       \<and> k \<in> pkt ` set (tl_list (deferredTargets (mshrs h ! m))) then replaceUpgrade (pkts h ! k) else pkts h ! k))"
proof -
  let ?r = "mshrs h ! m" and ?b = "pkts h ! p"
  let ?ne = "needsExclusive (cmd ?b)"
  have sv: "inService ?r" using first by (simp add: snoop_first_def)
  note e = queue_entry [OF ok m]
  obtain h1 where h1: "(if ?ne then replaceUpgrades True m h else Some h) = Some h1" "queue_ok q h1"
    "length (pkts h1) = length (pkts h)" "length (mshrs h1) = length (mshrs h)" "\<forall>k. k \<noteq> m \<longrightarrow> mshrs h1 ! k = mshrs h ! k"
    "targets (mshrs h1 ! m) = targets ?r" "tl_list (deferredTargets (mshrs h1 ! m)) = tl_list (deferredTargets ?r)"
    "inService (mshrs h1 ! m) = inService ?r" "pendingDirty (mshrs h1 ! m) = pendingDirty ?r"
    "postInvalidate (mshrs h1 ! m) = postInvalidate ?r" "downstreamPending (mshrs h1 ! m) = downstreamPending ?r"
    "ntargets (mshrs h1 ! m) = ntargets ?r"
    "?ne \<longrightarrow> tl_sound h (deferredTargets ?r) \<longrightarrow> upgrade_free h1 (deferredTargets (mshrs h1 ! m))"
    "\<forall>k < length (pkts h). pkts h1 ! k = pkts h ! k \<or> pkts h1 ! k = replaceUpgrade (pkts h ! k)"
    "?ne \<longrightarrow> (\<forall>k < length (pkts h). pkts h1 ! k = (if tl_hasUpgrade (deferredTargets ?r) \<and> k \<in> pkt ` set (tl_list (deferredTargets ?r))
      then replaceUpgrade (pkts h ! k) else pkts h ! k))"
    by (rule snoop_prepare [OF ok m, of ?ne])
  have p1: "p < length (pkts h1)" using p h1(3) by simp
  have b1: "needsExclusive (cmd (pkts h1 ! p)) = ?ne" "isInvalidate (cmd (pkts h1 ! p)) = isInvalidate (cmd ?b)"
    "senderState (pkts h1 ! p) = senderState ?b"
    using h1(14) p by (metis replaceUpgrade_simps(4) replaceUpgrade_invalidate senderState_replaceUpgrade)+
  note ex = handleSnoop_unfold [OF e(1) p first h1(1) p1 h1(9) h1(11) h1(6) b1(1), of raw ord now]
  have dp: "downstreamPending (mshrs h1 ! k) = downstreamPending (mshrs h ! k)" for k
    using h1(5,11) by (cases "k = m") simp_all
  show thesis
  proof (cases "postInvalidate ?r")
    case True
    then show thesis using that [of h1] ex h1 sv by simp
  next
    case False
    let ?rec = "pendingDirty ?r \<or> isInvalidate (cmd ?b)"
    obtain h2 where h2: "(if ?rec then snoop_record raw m p ord now h1 else Some h1) = Some h2" "queue_ok q h2"
      "inService (mshrs h2 ! m)" "deferredTargets (mshrs h2 ! m) = deferredTargets (mshrs h1 ! m)"
      "length (pkts h1) \<le> length (pkts h2)" "\<forall>k < length (pkts h1). cmd (pkts h2 ! k) = cmd (pkts h1 ! k)"
      "?rec \<longrightarrow> ?ne \<longrightarrow> postInvalidate (mshrs h2 ! m)"
      "pendingDirty ?r \<longrightarrow> memInhibitAsserted (pkts h2 ! p) \<and> isSupplyExclusive (pkts h2 ! p)"
      "?rec \<longrightarrow> (\<exists>t. tl_list (targets (mshrs h2 ! m)) = tl_list (targets ?r) @ [t] \<and> source t = FromSnoop)"
    proof (cases ?rec)
      case True
      have room1: "unat (ntargets (mshrs h1 ! m)) < 2 ^ 16 - 1" using room h1(12) by simp
      have up1: "upstream_free (pkts h1 ! p) h1" if "downstreamPending (mshrs h1 ! m)" "tl_needsExclusive (targets (mshrs h1 ! m))"
        using up that h1(4,6,11) b1(3) dp by (auto simp: upstream_free_def split: option.splits SenderState.splits)
      obtain h2 t where h2: "snoop_record raw m p ord now h1 = Some h2" "queue_ok q h2"
        "source t = FromSnoop" "tl_list (targets (mshrs h2 ! m)) = tl_list (targets (mshrs h1 ! m)) @ [t]"
        "deferredTargets (mshrs h2 ! m) = deferredTargets (mshrs h1 ! m)" "inService (mshrs h2 ! m) = inService (mshrs h1 ! m)"
        "postInvalidate (mshrs h2 ! m) = (postInvalidate (mshrs h1 ! m) \<or> needsExclusive (cmd (pkts h1 ! p)))"
        "length (pkts h2) = Suc (length (pkts h1))"
        "\<forall>k < length (pkts h1). pkts h2 ! k = (if k = p \<and> pendingDirty (mshrs h1 ! m) then setSupplyExclusive (assertMemInhibit (pkts h1 ! k)) else pkts h1 ! k)"
        by (rule snoop_record_ok [OF h1(2) m p1 room1, of raw ord now]) (use up1 in blast)+
      have "memInhibitAsserted (setSupplyExclusive (assertMemInhibit b)) \<and> isSupplyExclusive (setSupplyExclusive (assertMemInhibit b))" for b :: Packet
        by (simp add: memInhibitAsserted_def isSupplyExclusive_def setSupplyExclusive_def assertMemInhibit_def
            isSet_flags_set isSet_flags_mono MEM_INHIBIT_def SUPPLY_EXCLUSIVE_def)
      then show thesis using that [of h2] True h2 h1(6,8,9) sv b1(1) p1 by auto
    next
      case False
      then show thesis using that [of h1] h1 sv by auto
    qed
    note dg = snoop_downgrade_ok [OF h2(2) m, of p ?ne]
    have p2: "p < length (pkts h2)" using p1 h2(5) by simp
    let ?h = "snoop_downgrade ?ne m p h2"
    have "handleSnoop raw m p ord now h = Some (True, ?h)"
      using ex False h2(1) b1(2) by simp
    moreover have "upgrade_free ?h (deferredTargets (mshrs ?h ! m))" if "?ne" "tl_sound h (deferredTargets ?r)"
    proof -
      have "?h = h2" using that(1) by (simp add: snoop_downgrade_def)
      moreover have "pkt t < length (pkts h1)" if "t \<in> set (tl_list (deferredTargets (mshrs h1 ! m)))" for t
        using that queue_entry(2) [OF h1(2) m] by (auto simp: mshr_ok_def)
      ultimately show ?thesis using h1(13) that h2(4,6) by (auto simp: upgrade_free_def)
    qed
    moreover have "memInhibitAsserted (pkts ?h ! p) \<and> isSupplyExclusive (pkts ?h ! p)" if "pendingDirty ?r"
      using h2(8) that dg(7) [OF p2, of p]
      by (auto simp: memInhibitAsserted_def isSupplyExclusive_def assertShared_def isSet_flags_mono)
    ultimately have ex': "handleSnoop raw m p ord now h = Some (True, ?h)"
      and uf: "?ne \<longrightarrow> tl_sound h (deferredTargets ?r) \<longrightarrow> upgrade_free ?h (deferredTargets (mshrs ?h ! m))"
      and mi: "pendingDirty ?r \<longrightarrow> memInhibitAsserted (pkts ?h ! p) \<and> isSupplyExclusive (pkts ?h ! p)" by blast+
    note d = dg(1-6) [OF p2]
    show thesis
    proof (rule that [OF ex' d(1) _ uf])
      show "inService (mshrs ?h ! m)" using d(4) h2(3) by simp
      show "tl_list (deferredTargets (mshrs ?h ! m)) = tl_list (deferredTargets ?r)" using d(3) h2(4) h1(7) by simp
      show "?ne \<longrightarrow> ?rec \<longrightarrow> postInvalidate (mshrs ?h ! m)" using d(5) h2(7) by blast
      show "\<not> ?ne \<longrightarrow> \<not> postInvalidate ?r \<longrightarrow> postDowngrade (mshrs ?h ! m) \<and> sharedAsserted (pkts ?h ! p)" using d(6) by blast
      show "pendingDirty ?r \<longrightarrow> \<not> postInvalidate ?r \<longrightarrow> memInhibitAsserted (pkts ?h ! p) \<and> isSupplyExclusive (pkts ?h ! p)
         \<and> (\<exists>t. tl_list (targets (mshrs ?h ! m)) = tl_list (targets ?r) @ [t] \<and> source t = FromSnoop)"
        using mi h2(9) d(2) by simp
      show "?ne \<longrightarrow> (\<forall>k < length (pkts h). cmd (pkts ?h ! k) = cmd (if tl_hasUpgrade (deferredTargets ?r)
          \<and> k \<in> pkt ` set (tl_list (deferredTargets ?r)) then replaceUpgrade (pkts h ! k) else pkts h ! k))"
      proof (intro impI allI)
        fix k assume a: ?ne "k < length (pkts h)"
        have "?h = h2" using a(1) by (simp add: snoop_downgrade_def)
        then have "cmd (pkts ?h ! k) = cmd (pkts h1 ! k)" using h2(6) a(2) h1(3) by simp
        moreover have "pkts h1 ! k = (if tl_hasUpgrade (deferredTargets ?r)
          \<and> k \<in> pkt ` set (tl_list (deferredTargets ?r)) then replaceUpgrade (pkts h ! k) else pkts h ! k)" using h1(15) a by blast
        ultimately show "cmd (pkts ?h ! k) = cmd (if tl_hasUpgrade (deferredTargets ?r)
          \<and> k \<in> pkt ` set (tl_list (deferredTargets ?r)) then replaceUpgrade (pkts h ! k) else pkts h ! k)" by (simp only:)
      qed
    qed
  qed
qed

subsection \<open>Fills\<close>

lemma handleFill_ok:
  assumes ok: "queue_ok q h" and m: "m \<in> set (allocatedList q)" and sv: "inService (mshrs h ! m)"
    and ne: "tl_needsExclusive (deferredTargets (mshrs h ! m)) \<Longrightarrow> \<not> sharedAsserted b \<Longrightarrow> \<not> postInvalidate (mshrs h ! m)
      \<Longrightarrow> \<not> postDowngrade (mshrs h ! m) \<Longrightarrow> \<not> tl_needsExclusive (targets (mshrs h ! m)) \<and> \<not> downstreamPending (mshrs h ! m)
        \<and> upstream_ok h (tl_list (deferredTargets (mshrs h ! m)))"
  obtains h' where "mshr_handleFill m b h = Some h'" "queue_ok q h'"
    "tl_list (targets (mshrs h' ! m)) @ tl_list (deferredTargets (mshrs h' ! m))
       = tl_list (targets (mshrs h ! m)) @ tl_list (deferredTargets (mshrs h ! m))"
proof (cases "\<not> sharedAsserted b \<and> \<not> postInvalidate (mshrs h ! m) \<and> \<not> postDowngrade (mshrs h ! m)
    \<and> tl_needsExclusive (deferredTargets (mshrs h ! m))")
  case False
  then have "mshr_handleFill m b h = Some h"
    using queue_entry(5) [OF ok m] sv by (auto simp: mshr_handleFill_def hasPostInvalidate_def hasPostDowngrade_def)
  then show thesis using that ok by blast
next
  case True
  note e = queue_entry [OF ok m]
  let ?r = "mshrs h ! m"
  have pre: "\<not> tl_needsExclusive (targets ?r)" "\<not> downstreamPending ?r" "upstream_ok h (tl_list (deferredTargets ?r))"
    using ne True by blast+
  obtain h1 where h1: "clear_pending (tl_list (deferredTargets ?r)) h = Some h1" "same_but_pending h h1"
    using clear_pending_exact [OF pre(3)] by blast
  define f where "f = (\<lambda>r :: MSHR. r \<lparr>
         targets := (targets r) \<lparr>tl_needsExclusive := True,
                      tl_list := tl_list (targets r) @ tl_list (deferredTargets r)\<rparr>,
         deferredTargets := resetFlags ((deferredTargets r) \<lparr>tl_list := []\<rparr>)\<rparr>)"
  have ex: "mshr_handleFill m b h = Some (upd_mshr m f h1)"
    using e(5) sv True pre h1(1) by (simp add: mshr_handleFill_def hasPostInvalidate_def hasPostDowngrade_def f_def [symmetric])
  have l1: "length (mshrs h1) = length (mshrs h)" "pkts h1 = pkts h" using h1(2) by (simp_all add: same_but_pending_def)
  note fl = same_but_pending_fields [OF h1(2) e(1)]
  have own: "tl_list (targets (f (mshrs h1 ! m))) = tl_list (targets ?r) @ tl_list (deferredTargets ?r)"
    "tl_list (deferredTargets (f (mshrs h1 ! m))) = []" "isReset (deferredTargets (f (mshrs h1 ! m)))"
    "inService (f (mshrs h1 ! m)) = inService ?r" "ntargets (f (mshrs h1 ! m)) = ntargets ?r"
    using fl by (simp_all add: f_def)
  have mr: "mshrs (upd_mshr m f h1) ! m = f (mshrs h1 ! m)" using e(1) l1 by simp
  have "mshr_ok (length (pkts h)) (f (mshrs h1 ! m))" using own e(2) by (auto simp: mshr_ok_def)
  then have "queue_ok q (upd_mshr m f h1)"
    by (intro queue_ok_local [OF ok m]) (use own(4) l1 mr same_but_pending_core [OF h1(2)] in simp_all)
  then show thesis using that [OF ex] own mr by simp
qed

subsection \<open>Sequences of operations\<close>

text \<open>
  What the cache does with its queue.  The guard of an operation is what the
  caller has established: a free entry, an entry of the right kind, existing
  packets, room in the 16-bit target counter, and upstream MSHRs whose flags
  agree with the marks.
\<close>

datatype q_op =
    Allocate addr "32 word" nat tick int tick
  | AddTarget nat nat tick int tick
  | Service nat nat
  | Retry nat
  | ToFront nat
  | PopTarget nat
  | Promote nat tick
  | Snoop Packet nat nat int tick
  | FillResp nat Packet
  | Free nat

fun q_exec :: "q_op \<Rightarrow> MSHRQueue \<times> heap \<Rightarrow> (MSHRQueue \<times> heap) option" where
  "q_exec (Allocate a sz p w ord now) (q, h) = do { (m, q, h) \<leftarrow> q_allocate a sz p w ord now q h; Some (q, h) }"
| "q_exec (AddTarget m p w ord now) (q, h) = do { h \<leftarrow> allocateTarget m p w ord now h; Some (q, h) }"
| "q_exec (Service m p) (q, h) = q_markInService m p q h"
| "q_exec (Retry m) (q, h) = q_markPending m q h"
| "q_exec (ToFront m) (q, h) = do { q \<leftarrow> q_moveToFront m q h; Some (q, h) }"
| "q_exec (PopTarget m) (q, h) = do { r \<leftarrow> at (mshrs h) m; r \<leftarrow> popTarget r; Some (q, upd_mshr m (\<lambda>_. r) h) }"
| "q_exec (Promote m now) (q, h) = do { (d, h) \<leftarrow> promoteDeferredTargets m now h; Some (q, h) }"
| "q_exec (Snoop raw m p ord now) (q, h) = do { (d, h) \<leftarrow> handleSnoop raw m p ord now h; Some (q, h) }"
| "q_exec (FillResp m b) (q, h) = do { h \<leftarrow> mshr_handleFill m b h; Some (q, h) }"
| "q_exec (Free m) (q, h) = q_deallocate m q h"

fun q_guard :: "q_op \<Rightarrow> MSHRQueue \<times> heap \<Rightarrow> bool" where
  "q_guard (Allocate a sz p w ord now) (q, h) \<longleftrightarrow> freeList q \<noteq> [] \<and> p < length (pkts h) \<and> upstream_free (pkts h ! p) h"
| "q_guard (AddTarget m p w ord now) (q, h) \<longleftrightarrow> m \<in> set (allocatedList q) \<and> p < length (pkts h)
     \<and> cmd (pkts h ! p) \<noteq> HardPFReq \<and> upstream_free (pkts h ! p) h \<and> unat (ntargets (mshrs h ! m)) < 2 ^ 16 - 1"
| "q_guard (Service m p) (q, h) \<longleftrightarrow> m \<in> set (readyList q) \<and> p < length (pkts h) \<and> hasTargets (mshrs h ! m)
     \<and> (downstreamPending (mshrs h ! m) \<or> upstream_ok h (tl_list (targets (mshrs h ! m))))"
| "q_guard (Retry m) (q, h) \<longleftrightarrow> m \<in> set (allocatedList q) \<and> inService (mshrs h ! m) \<and> tl_list (deferredTargets (mshrs h ! m)) = []"
| "q_guard (ToFront m) (q, h) \<longleftrightarrow> m \<in> set (allocatedList q)"
| "q_guard (PopTarget m) (q, h) \<longleftrightarrow> m \<in> set (allocatedList q) \<and> hasTargets (mshrs h ! m)"
| "q_guard (Promote m now) (q, h) \<longleftrightarrow> m \<in> set (allocatedList q) \<and> inService (mshrs h ! m) \<and> \<not> hasTargets (mshrs h ! m)"
| "q_guard (Snoop raw m p ord now) (q, h) \<longleftrightarrow> m \<in> set (allocatedList q) \<and> p < length (pkts h)
     \<and> unat (ntargets (mshrs h ! m)) < 2 ^ 16 - 1
     \<and> (downstreamPending (mshrs h ! m) \<and> tl_needsExclusive (targets (mshrs h ! m)) \<longrightarrow> upstream_free (pkts h ! p) h)"
| "q_guard (FillResp m b) (q, h) \<longleftrightarrow> m \<in> set (allocatedList q) \<and> inService (mshrs h ! m)
     \<and> (tl_needsExclusive (deferredTargets (mshrs h ! m)) \<and> \<not> sharedAsserted b \<and> \<not> postInvalidate (mshrs h ! m)
         \<and> \<not> postDowngrade (mshrs h ! m)
       \<longrightarrow> \<not> tl_needsExclusive (targets (mshrs h ! m)) \<and> \<not> downstreamPending (mshrs h ! m)
         \<and> upstream_ok h (tl_list (deferredTargets (mshrs h ! m))))"
| "q_guard (Free m) (q, h) \<longleftrightarrow> m \<in> set (allocatedList q) \<and> ntargets (mshrs h ! m) = 0"

lemma q_exec_ok:
  assumes ok: "queue_ok q h" and g: "q_guard x (q, h)"
  shows "\<exists>q' h'. q_exec x (q, h) = Some (q', h') \<and> queue_ok q' h'"
proof (cases x)
  case (Allocate a sz p w ord now)
  then obtain m fs where fl: "freeList q = m # fs" using g by (auto simp: neq_Nil_conv)
  show ?thesis
    by (rule q_allocate_ok [OF ok fl, of p a sz w ord now]) (use g Allocate in auto)
next
  case (AddTarget m p w ord now)
  show ?thesis
    by (rule allocateTarget_ok [OF ok, of m p w ord now]) (use g AddTarget in auto)
next
  case (Service m p)
  show ?thesis
    by (rule markInService_ok [OF ok, of m p]) (use g Service in auto)
next
  case (Retry m)
  show ?thesis
    by (rule q_markPending_ok [OF ok, of m]) (use g Retry in auto)
next
  case (ToFront m)
  show ?thesis
    by (rule q_moveToFront_ok [OF ok, of m]) (use g ToFront in auto)
next
  case (PopTarget m)
  show ?thesis
    by (rule pop_ok [OF ok, of m]) (use g PopTarget queue_entry(5) [OF ok, of m] in auto)
next
  case (Promote m now)
  show ?thesis
    by (rule promote_ok [OF ok, of m now]) (use g Promote in auto)
next
  case (Snoop raw m p ord now)
  show ?thesis
  proof (cases "snoop_first (pkts h ! p) (mshrs h ! m)")
    case True
    show ?thesis by (rule snoop_before_ok [OF ok _ _ True, of raw ord now]) (use g Snoop in auto)
  next
    case False
    show ?thesis by (rule snoop_after_ok [OF ok _ _ False, of raw ord now]) (use g Snoop in auto)
  qed
next
  case (FillResp m b)
  show ?thesis
    by (rule handleFill_ok [OF ok, of m b]) (use g FillResp in auto)
next
  case (Free m)
  show ?thesis
    by (rule deallocateOne_ok [OF ok, of m]) (use g Free in \<open>auto simp: q_deallocate_def\<close>)
qed

text \<open>The states a queue can get into from its constructor.\<close>

inductive q_reach :: "MSHRQueue \<times> heap \<Rightarrow> MSHRQueue \<times> heap \<Rightarrow> bool" for s0 where
  refl: "q_reach s0 s0"
| step: "q_reach s0 s \<Longrightarrow> q_guard x s \<Longrightarrow> q_exec x s = Some s' \<Longrightarrow> q_reach s0 s'"

lemma q_reach_ok: "q_reach s0 s \<Longrightarrow> queue_ok (fst s0) (snd s0) \<Longrightarrow> queue_ok (fst s) (snd s)"
proof (induction rule: q_reach.induct)
  case (step s x s')
  then have "queue_ok (fst s) (snd s)" "q_guard x (fst s, snd s)" "q_exec x (fst s, snd s) = Some s'" by simp_all
  then show ?case using q_exec_ok [of "fst s" "snd s" x] by auto
qed simp

lemma fresh_queue_ok:
  assumes "MSHRQueue_new this raw lbl n reserve idx h0 = Some s0"
  shows "queue_ok (fst s0) (snd s0)"
proof -
  have "0 \<le> n + reserve - 1" using assms by (simp add: MSHRQueue_new_def Let_def check_def split: if_splits)
  then show ?thesis by (rule new_queue_ok [of n reserve this raw lbl idx h0]) (use assms in simp)
qed

subsection \<open>Properties\<close>

text \<open>
  C4: Every state of an MSHR queue reachable from its constructor by guarded operations
  satisfies the queue invariant (free and allocated lists partition the registers, the
  ready list holds exactly the allocated entries that are not in service, the counters
  agree with the lists, target counters agree with the two target lists, and deferred
  targets exist only in service), and every guarded operation succeeds there: no
  assertion fails and no list iterator is stale.
\<close>

theorem mshr_queue_safe:
  assumes "MSHRQueue_new this raw lbl n reserve idx h0 = Some s0" "q_reach s0 (q, h)" "q_guard x (q, h)"
  shows "queue_ok q h \<and> (\<exists>q' h'. q_exec x (q, h) = Some (q', h') \<and> queue_ok q' h')"
proof -
  have "queue_ok q h" using q_reach_ok [OF assms(2) fresh_queue_ok [OF assms(1)]] by simp
  then show ?thesis using q_exec_ok assms(3) by blast
qed

definition raw_mshr :: MSHR where
  "raw_mshr = \<lparr>queue = 0, readyTime = 0, order = 0, m_addr = 0, m_size = 0, inService = False, isForward = False,
     m_isUncacheable = False, downstreamPending = False, pendingDirty = False, postInvalidate = False, postDowngrade = False,
     threadNum = 0, ntargets = 0, m_data = None, targets = TargetList_new, deferredTargets = TargetList_new\<rparr>"

definition miss_pkt :: Packet where
  "miss_pkt = sample_pkt ReadReq 64 8 None"

definition inv_pkt :: Packet where
  "inv_pkt = sample_pkt UpgradeReq 64 8 None"

definition two_entry_queue :: "(MSHRQueue \<times> heap) option" where
  "two_entry_queue = MSHRQueue_new 0 (\<lambda>_. raw_mshr) ''mshrs'' 2 1 0 \<lparr>pkts = [miss_pkt, inv_pkt], mshrs = []\<rparr>"

lemma two_entry_queue_ok:
  obtains q h where "two_entry_queue = Some (q, h)" "queue_ok q h" "freeList q = [0, 1]" "pkts h = [miss_pkt, inv_pkt]"
    "length (mshrs h) = 2" "allocatedList q = []" "numReserve q = 1" "numEntries q = 2"
proof (rule new_queue_ok [of 2 1 0 "\<lambda>_. raw_mshr" "''mshrs''" 0 "\<lparr>pkts = [miss_pkt, inv_pkt], mshrs = []\<rparr>"])
  fix q h assume a: "MSHRQueue_new 0 (\<lambda>_. raw_mshr) ''mshrs'' 2 1 0 \<lparr>pkts = [miss_pkt, inv_pkt], mshrs = []\<rparr> = Some (q, h)"
    "queue_ok q h" "length (mshrs h) = length (mshrs \<lparr>pkts = [miss_pkt, inv_pkt], mshrs = []\<rparr>) + nat (2 + 1 - 1)"
    "pkts h = pkts \<lparr>pkts = [miss_pkt, inv_pkt], mshrs = []\<rparr>" "freeList q = registers q"
    "registers q = [length (mshrs \<lparr>pkts = [miss_pkt, inv_pkt], mshrs = []\<rparr>)..<length (mshrs h)]" "numReserve q = 1" "allocatedList q = []"
  have "[0..<2] = [0, 1 :: nat]" by (simp add: upt_rec)
  moreover have "numEntries q = 2" using a(2,3,6) by (simp add: queue_ok_def)
  ultimately show thesis using that [of q h] a by (simp add: two_entry_queue_def numeral_2_eq_2)
qed simp

theorem mshr_queue_safe_witness:
  "\<exists>q h q' h'. two_entry_queue = Some (q, h) \<and> q_exec (Allocate 64 64 0 5 1 3) (q, h) = Some (q', h') \<and> queue_ok q' h'"
proof -
  obtain q h where q: "two_entry_queue = Some (q, h)" "freeList q = [0, 1]" "pkts h = [miss_pkt, inv_pkt]" by (rule two_entry_queue_ok)
  have "q_guard (Allocate 64 64 0 5 1 3) (q, h)" using q by (simp add: upstream_free_def miss_pkt_def sample_pkt_def)
  from mshr_queue_safe [OF q(1) [unfolded two_entry_queue_def] q_reach.refl this] show ?thesis using q(1) by blast
qed

text \<open>
  Whenever a reachable queue does not report to be full, it has at least as many
  free entries as its reserve, so that many allocations succeed.
\<close>

theorem isFull_reserve:
  assumes "MSHRQueue_new this raw lbl n reserve idx h0 = Some s0" "q_reach s0 (q, h)" "\<not> isFull q"
  shows "numReserve q \<le> int (length (freeList q))"
proof -
  have ok: "queue_ok q h" using q_reach_ok [OF assms(2) fresh_queue_ok [OF assms(1)]] by simp
  have "length (freeList q @ allocatedList q) = length (registers q)"
    using ok unfolding queue_ok_def by (metis distinct_card)
  then have "int (length (freeList q)) + allocated q = numEntries q" using ok by (simp add: queue_ok_def)
  then show ?thesis using assms(3) by (simp add: isFull_def)
qed

theorem isFull_reserve_witness:
  "\<exists>q h. two_entry_queue = Some (q, h) \<and> numReserve q \<le> int (length (freeList q))"
proof -
  obtain q h where q: "two_entry_queue = Some (q, h)" "queue_ok q h" "allocatedList q = []" "numReserve q = 1" "numEntries q = 2"
    by (rule two_entry_queue_ok)
  have "\<not> isFull q" using q(2-5) by (simp add: isFull_def queue_ok_def)
  then show ?thesis using q(1) isFull_reserve [OF q(1) [unfolded two_entry_queue_def] q_reach.refl] by blast
qed

lemma insert_before_eq:
  "\<exists>x \<in> set xs. P x \<Longrightarrow> insert_before P m xs = Some (takeWhile (\<lambda>x. \<not> P x) xs @ m # dropWhile (\<lambda>x. \<not> P x) xs)"
  by (induction xs) auto

lemma sorted_insert_mid:
  fixes x :: "'a :: linorder"
  shows "sorted (xs @ ys) \<Longrightarrow> \<forall>a \<in> set xs. a \<le> x \<Longrightarrow> \<forall>b \<in> set ys. x \<le> b \<Longrightarrow> sorted (xs @ x # ys)"
  by (auto simp: sorted_append)

text \<open>
  On a ready list ordered by ready time, insertion keeps the order and puts the
  entry after all entries that are ready no later: the list is served first come first
  served among equal times.
\<close>

theorem addToReadyList_stable:
  fixes m :: nat
  assumes "sorted (map (\<lambda>i. readyTime (mshrs h ! i)) rl)"
  defines "le \<equiv> \<lambda>i. readyTime (mshrs h ! i) \<le> readyTime (mshrs h ! m)"
  shows "addToReadyList m h rl = Some (takeWhile le rl @ m # dropWhile le rl)
     \<and> sorted (map (\<lambda>i. readyTime (mshrs h ! i)) (takeWhile le rl @ m # dropWhile le rl))"
proof
  show "addToReadyList m h rl = Some (takeWhile le rl @ m # dropWhile le rl)"
  proof (cases "rl = [] \<or> readyTime (mshrs h ! last rl) \<le> readyTime (mshrs h ! m)")
    case True
    have "le x" if "x \<in> set rl" for x
    proof -
      from \<open>x \<in> set rl\<close> obtain i where i: "i < length rl" "rl ! i = x" by (auto simp: in_set_conv_nth)
      then have "readyTime (mshrs h ! (rl ! i)) \<le> readyTime (mshrs h ! (rl ! (length rl - 1)))"
        using sorted_nth_mono [OF assms(1), of i "length rl - 1"] by simp
      then show ?thesis using True i \<open>x \<in> set rl\<close> by (cases rl rule: rev_cases) (auto simp: le_def)
    qed
    then have "takeWhile le rl = rl" "dropWhile le rl = []" by (simp_all add: takeWhile_eq_all_conv dropWhile_eq_Nil_conv)
    then show ?thesis using True unfolding addToReadyList_def by (metis (no_types))
  next
    case False
    then have "\<exists>i \<in> set rl. readyTime (mshrs h ! i) > readyTime (mshrs h ! m)" by (intro bexI [of _ "last rl"]) auto
    from insert_before_eq [OF this, of m] show ?thesis
      using False by (simp add: addToReadyList_def le_def not_less)
  qed
  have "le x" if "x \<in> set (takeWhile le rl)" for x using that by (meson set_takeWhileD)
  moreover have "readyTime (mshrs h ! m) \<le> readyTime (mshrs h ! x)" if x: "x \<in> set (dropWhile le rl)" for x
  proof -
    let ?d = "dropWhile le rl"
    have s: "sorted (map (\<lambda>i. readyTime (mshrs h ! i)) ?d)" using assms(1) by (simp add: dropWhile_eq_drop drop_map [symmetric] sorted_wrt_drop)
    have "?d \<noteq> []" using x by (cases ?d) simp_all
    then have "\<not> le (hd ?d)" by (rule hd_dropWhile)
    moreover have "readyTime (mshrs h ! hd ?d) \<le> readyTime (mshrs h ! x)" using s x by (cases ?d) auto
    ultimately show ?thesis by (simp add: le_def not_le less_imp_le order_trans)
  qed
  moreover have "sorted (map (\<lambda>i. readyTime (mshrs h ! i)) (takeWhile le rl @ dropWhile le rl))" using assms(1) by simp
  ultimately show "sorted (map (\<lambda>i. readyTime (mshrs h ! i)) (takeWhile le rl @ m # dropWhile le rl))"
    unfolding map_append list.map by (intro sorted_insert_mid) (auto simp: le_def)
qed

theorem addToReadyList_stable_witness:
  "addToReadyList 2 \<lparr>pkts = [], mshrs = [raw_mshr \<lparr>readyTime := 4\<rparr>, raw_mshr \<lparr>readyTime := 9\<rparr>, raw_mshr \<lparr>readyTime := 4\<rparr>]\<rparr> [0, 1] = Some [0, 2, 1]"
  using addToReadyList_stable [of "\<lparr>pkts = [], mshrs = [raw_mshr \<lparr>readyTime := 4\<rparr>, raw_mshr \<lparr>readyTime := 9\<rparr>, raw_mshr \<lparr>readyTime := 4\<rparr>]\<rparr>" "[0, 1]" 2]
  by simp

text \<open>
  C25: A new target goes to the end of the regular targets followed by the deferred
  ones, so requests to one block are serviced in arrival order; it is deferred only
  under the conditions the code states.
\<close>

theorem allocateTarget_fifo:
  assumes "queue_ok q h" "q_guard (AddTarget m p w ord now) (q, h)"
  shows "\<exists>h' t. allocateTarget m p w ord now h = Some h' \<and> queue_ok q h' \<and> pkt t = p
     \<and> tl_list (targets (mshrs h' ! m)) @ tl_list (deferredTargets (mshrs h' ! m))
         = tl_list (targets (mshrs h ! m)) @ tl_list (deferredTargets (mshrs h ! m)) @ [t]
     \<and> (t \<in> set (tl_list (deferredTargets (mshrs h' ! m))) \<and> t \<notin> set (tl_list (targets (mshrs h ! m)) @ tl_list (deferredTargets (mshrs h ! m)))
         \<longrightarrow> must_defer (mshrs h ! m) (pkts h ! p))"
proof -
  obtain h' t where h': "allocateTarget m p w ord now h = Some h'" "queue_ok q h'" "pkt t = p"
    "tl_list (targets (mshrs h' ! m)) @ tl_list (deferredTargets (mshrs h' ! m))
       = tl_list (targets (mshrs h ! m)) @ tl_list (deferredTargets (mshrs h ! m)) @ [t]"
    "tl_list (deferredTargets (mshrs h' ! m)) = tl_list (deferredTargets (mshrs h ! m)) @ (if must_defer (mshrs h ! m) (pkts h ! p) then [t] else [])"
    by (rule allocateTarget_ok [OF assms(1), of m p w ord now]) (use assms(2) in auto)
  then show ?thesis by (intro exI [of _ h'] exI [of _ t]) (simp split: if_splits)
qed

text \<open>One outstanding miss, before and after it is sent.\<close>

lemma one_miss:
  obtains q h q1 h1 where "two_entry_queue = Some (q, h)" "q_exec (Allocate 64 64 0 5 1 3) (q, h) = Some (q1, h1)"
    "queue_ok q1 h1" "allocatedList q1 = [0]" "pkts h1 = [miss_pkt, inv_pkt]" "unat (ntargets (mshrs h1 ! 0)) = 1" "readyList q1 = [0]"
    "map pkt (tl_list (targets (mshrs h1 ! 0))) = [0]" "length (mshrs h1) = 2" "tl_list (deferredTargets (mshrs h1 ! 0)) = []"
proof -
  obtain q h where q: "two_entry_queue = Some (q, h)" "queue_ok q h" "freeList q = [0, 1]" "pkts h = [miss_pkt, inv_pkt]"
    "length (mshrs h) = 2" "allocatedList q = []" by (rule two_entry_queue_ok)
  have p: "0 < length (pkts h)" "upstream_free (pkts h ! 0) h" using q by (simp_all add: upstream_free_def miss_pkt_def sample_pkt_def)
  obtain q1 h1 where q1: "q_allocate 64 64 0 5 1 3 q h = Some (0, q1, h1)" "queue_ok q1 h1"
    "allocatedList q1 = allocatedList q @ [0]" "addToReadyList 0 h1 (readyList q) = Some (readyList q1)"
    "length (mshrs h1) = length (mshrs h)" "pkts h1 = pkts h" "map pkt (tl_list (targets (mshrs h1 ! 0))) = [0]"
    by (rule q_allocate_ok [OF q(2,3) p, of 64 64 5 1 3])
  have "readyList q = []" using q(2,6) by (simp add: queue_ok_def)
  then have rl: "readyList q1 = [0]" using q1(4) by (simp add: addToReadyList_def)
  then have ns: "\<not> inService (mshrs h1 ! 0)" using queue_entry(4) [OF q1(2), of 0] q1(3) by simp
  have "mshr_ok (length (pkts h1)) (mshrs h1 ! 0)" using queue_entry(2) [OF q1(2)] q1(3) by simp
  moreover have "length (tl_list (targets (mshrs h1 ! 0))) = 1" using q1(7) by (metis length_map length_Cons list.size(3) One_nat_def)
  ultimately have "unat (ntargets (mshrs h1 ! 0)) = 1" "tl_list (deferredTargets (mshrs h1 ! 0)) = []" using ns by (simp_all add: mshr_ok_def)
  then show thesis using that [OF q(1) _ q1(2)] q1 q rl by simp
qed

theorem allocateTarget_fifo_witness:
  "\<exists>q h q1 h1 h'. two_entry_queue = Some (q, h) \<and> q_exec (Allocate 64 64 0 5 1 3) (q, h) = Some (q1, h1)
     \<and> allocateTarget 0 0 7 2 4 h1 = Some h' \<and> queue_ok q1 h'"
proof -
  obtain q h q1 h1 where o: "two_entry_queue = Some (q, h)" "q_exec (Allocate 64 64 0 5 1 3) (q, h) = Some (q1, h1)"
    "queue_ok q1 h1" "allocatedList q1 = [0]" "pkts h1 = [miss_pkt, inv_pkt]" "unat (ntargets (mshrs h1 ! 0)) = 1" by (rule one_miss)
  have "q_guard (AddTarget 0 0 7 2 4) (q1, h1)"
    using o by (simp add: upstream_free_def miss_pkt_def sample_pkt_def)
  from allocateTarget_fifo [OF o(3) this] show ?thesis using o(1,2) by blast
qed

text \<open>
  What becomes of a request for write permission when the copy that it
  wanted to upgrade is gone: an upgrade fetches the block, and the upgrade of
  a store conditional and the store conditional itself are sent on to fail.
\<close>

definition lost_upgrade :: "Command \<Rightarrow> Command" where
  "lost_upgrade c = (case c of UpgradeReq \<Rightarrow> ReadExReq | SCUpgradeReq \<Rightarrow> SCUpgradeFailReq | StoreCondReq \<Rightarrow> StoreCondFailReq | _ \<Rightarrow> c)"


lemma lost_upgrade_simps [simp]: "lost_upgrade (lost_upgrade c) = lost_upgrade c" "\<not> upgrade_req c \<Longrightarrow> lost_upgrade c = c"
  by (cases c; simp add: lost_upgrade_def upgrade_req_def)+





lemma upstream_ok_mark:
  assumes "m < length (mshrs h)"
  shows "upstream_ok (upd_mshr m (\<lambda>r. r \<lparr>downstreamPending := False\<rparr>) h) ts \<longleftrightarrow> upstream_ok h ts \<and> \<not> leads_to h ts m"
    "upstream_ok h ts \<Longrightarrow> leads_to (upd_mshr m (\<lambda>r. r \<lparr>downstreamPending := False\<rparr>) h) ts k = leads_to h ts k"
proof -
  note c = clear_mark [OF assms]
  show "upstream_ok (upd_mshr m (\<lambda>r. r \<lparr>downstreamPending := False\<rparr>) h) ts \<longleftrightarrow> upstream_ok h ts \<and> \<not> leads_to h ts m"
    unfolding upstream_ok_def c using visits_leads_to [of h ts] by blast
  show "leads_to (upd_mshr m (\<lambda>r. r \<lparr>downstreamPending := False\<rparr>) h) ts k = leads_to h ts k" if "upstream_ok h ts"
  proof -
    obtain ks where "visits h ts ks" using \<open>upstream_ok h ts\<close> unfolding upstream_ok_def by blast
    then show ?thesis using visits_leads_to c(1) by blast
  qed
qed

text \<open>
  C26: Clearing the pending marks of an MSHR terminates on chains of upstream MSHRs of
  any depth. It succeeds exactly when the flag of the MSHR is set, every MSHR that its
  marked targets lead to, directly or through others, is in the store and visited once
  with its flag set, and none of them leads back to it; then it turns off exactly the
  flags of the MSHR and of all it leads to, and changes nothing else.
\<close>

theorem clearDownstreamPending_exact:
  assumes "m < length (mshrs h)"
  shows "(\<exists>h'. clearDownstreamPending m h = Some h')
      = (downstreamPending (mshrs h ! m) \<and> upstream_ok h (tl_list (targets (mshrs h ! m))) \<and> \<not> leads_to h (tl_list (targets (mshrs h ! m))) m)
    \<and> (\<forall>h'. clearDownstreamPending m h = Some h' \<longrightarrow> same_but_pending h h'
        \<and> (\<forall>k < length (mshrs h). downstreamPending (mshrs h' ! k)
          \<longleftrightarrow> downstreamPending (mshrs h ! k) \<and> k \<noteq> m \<and> \<not> leads_to h (tl_list (targets (mshrs h ! m))) k))"
proof -
  let ?h = "upd_mshr m (\<lambda>r. r \<lparr>downstreamPending := False\<rparr>) h" and ?ts = "tl_list (targets (mshrs h ! m))"
  have run: "clearDownstreamPending m h = (if downstreamPending (mshrs h ! m) then clear_pending ?ts ?h else None)"
    using assms by (simp add: clearDownstreamPending_def at_def)
  have ok: "(\<exists>h'. clear_pending ?ts ?h = Some h') \<longleftrightarrow> upstream_ok h ?ts \<and> \<not> leads_to h ?ts m"
    using clear_pending_exact [of ?h ?ts] clear_pending_only [of ?ts ?h] upstream_ok_mark(1) [OF assms, of ?ts] by blast
  have "same_but_pending h h' \<and> (\<forall>k < length (mshrs h). downstreamPending (mshrs h' ! k)
        \<longleftrightarrow> downstreamPending (mshrs h ! k) \<and> k \<noteq> m \<and> \<not> leads_to h ?ts k)" if "clear_pending ?ts ?h = Some h'" for h'
  proof -
    have u: "upstream_ok h ?ts" using ok that by blast
    have h': "same_but_pending ?h h'" "\<forall>k < length (mshrs ?h). downstreamPending (mshrs h' ! k) = (downstreamPending (mshrs ?h ! k) \<and> \<not> leads_to ?h ?ts k)"
      using clear_pending_exact [OF clear_pending_only [OF that]] that by simp_all
    then show ?thesis
      using same_but_pending_trans [OF same_but_pending_upd h'(1)] clear_mark(5) [OF assms] upstream_ok_mark(2) [OF assms u] by simp
  qed
  then show ?thesis using run ok by simp
qed

text \<open>An L3 MSHR (0) that holds the request of an L2 MSHR (1), which holds the request of an L1 MSHR (2).\<close>

definition three_level :: heap where
  "three_level = (let t = (\<lambda>p. TargetList_new \<lparr>tl_list :=
         [\<lparr>recvTime = 0, tgt_readyTime = 0, tgt_order = 0, pkt = p, source = FromCPU, markedPending = True\<rparr>]\<rparr>) in
     \<lparr>pkts = [miss_pkt \<lparr>senderState := Some (MSHRState 1)\<rparr>, miss_pkt \<lparr>senderState := Some (MSHRState 2)\<rparr>],
     mshrs = [raw_mshr \<lparr>downstreamPending := True, ntargets := 1, targets := t 0\<rparr>,
       raw_mshr \<lparr>downstreamPending := True, ntargets := 1, targets := t 1\<rparr>, raw_mshr \<lparr>downstreamPending := True\<rparr>]\<rparr>)"

theorem clearDownstreamPending_exact_witness:
  "\<exists>h'. clearDownstreamPending 0 three_level = Some h' \<and> \<not> downstreamPending (mshrs h' ! 0) \<and> \<not> downstreamPending (mshrs h' ! 1)
     \<and> \<not> downstreamPending (mshrs h' ! 2)"
proof -
  let ?ts = "\<lambda>k. tl_list (targets (mshrs three_level ! k))"
  have l: "length (mshrs three_level) = 3" by (simp add: three_level_def Let_def)
  have "\<not> Option.is_none (clearDownstreamPending 0 three_level)" by code_simp
  then obtain h' where h': "clearDownstreamPending 0 three_level = Some h'" by (auto simp: Option.is_none_def)
  have u: "ups three_level (?ts 0) = [1]" "ups three_level (?ts 1) = [2]"
    by (simp_all add: three_level_def Let_def upstream_of_def)
  have "leads_to three_level (?ts 1) 2" by (rule leads_direct, unfold u) simp
  then have "leads_to three_level (?ts 0) 1" "leads_to three_level (?ts 0) 2"
    using u by (auto intro: leads_to.intros)
  then show ?thesis using clearDownstreamPending_exact [of 0 three_level] h' l by auto
qed

end
