(* ===== verification/Clocked_Object.thy ===== *)
theory Clocked_Object
imports Int_Math
begin

text \<open>
  The clock of a simulation object (\<open>sim/clocked_object.hh\<close>).

  The object caches the tick and the number of the next clock edge and brings
  them up to date lazily: \<open>update\<close> returns at once when the cached edge is not
  in the past, tries one period, and divides only when that is not enough.
  \<open>curTick()\<close> is the argument \<open>cur\<close>.  The section on clock edges states what the
  cache stands for: the first multiple of the period that is not before
  \<open>cur\<close>.
\<close>

record ClockedObject =
  co_tick :: tick
  co_cycle :: "64 word"
  clock :: tick

definition ClockedObject_new :: "tick \<Rightarrow> ClockedObject" where
  "ClockedObject_new p = \<lparr>co_tick = 0, co_cycle = 0, clock = p\<rparr>"

definition update :: "tick \<Rightarrow> 'a ClockedObject_scheme \<Rightarrow> 'a ClockedObject_scheme" where
  "update cur s =
     (if cur \<le> co_tick s then s
      else let s = s \<lparr>co_tick := co_tick s + clock s, co_cycle := co_cycle s + 1\<rparr> in
        if cur \<le> co_tick s then s
        else let elapsedCycles = divCeil (cur - co_tick s) (clock s) in
          s \<lparr>co_cycle := co_cycle s + elapsedCycles,
             co_tick := co_tick s + elapsedCycles * clock s\<rparr>)"

definition clockEdge :: "tick \<Rightarrow> 64 word \<Rightarrow> 'a ClockedObject_scheme \<Rightarrow> tick \<times> 'a ClockedObject_scheme" where
  "clockEdge cur cycles s = (let s = update cur s in (co_tick s + clock s * cycles, s))"

definition curCycle :: "tick \<Rightarrow> 'a ClockedObject_scheme \<Rightarrow> 64 word \<times> 'a ClockedObject_scheme" where
  "curCycle cur s = (let s = update cur s in (co_cycle s, s))"

definition nextCycle :: "tick \<Rightarrow> 'a ClockedObject_scheme \<Rightarrow> tick \<times> 'a ClockedObject_scheme" where
  "nextCycle cur s = clockEdge cur 0 s"

definition ticksToCycles :: "tick \<Rightarrow> 'a ClockedObject_scheme \<Rightarrow> 64 word" where
  "ticksToCycles t s = t div clock s"

subsection \<open>Clock edges\<close>

text \<open>The number and the tick of the first clock edge that is not before \<open>cur\<close>.\<close>

definition edge_cycle :: "nat \<Rightarrow> nat \<Rightarrow> nat" where
  "edge_cycle p t = (t + p - 1) div p"

definition edge :: "tick \<Rightarrow> tick \<Rightarrow> tick" where
  "edge p cur = of_nat (edge_cycle (unat p) (unat cur) * unat p)"

lemma edge_cycle_bounds:
  assumes "0 < p"
  shows "t \<le> edge_cycle p t * p" and "edge_cycle p t * p < t + p"
proof -
  have "(t + p - 1) div p * p + (t + p - 1) mod p = t + p - 1" by simp
  moreover have "(t + p - 1) mod p < p" using assms by simp
  ultimately show "t \<le> edge_cycle p t * p" "edge_cycle p t * p < t + p"
    unfolding edge_cycle_def using assms by linarith+
qed

lemma edge_cycle_unique:
  assumes "t \<le> k * p" and "k * p < t + p"
  shows "edge_cycle p t = k"
proof -
  have p: "0 < p" using assms by (cases p) auto
  have "edge_cycle p t * p < k * p + p" "k * p < edge_cycle p t * p + p"
    using edge_cycle_bounds [OF p, of t] assms by linarith+
  then have "edge_cycle p t * p < Suc k * p" "k * p < Suc (edge_cycle p t) * p" by simp_all
  then have "edge_cycle p t < Suc k" "k < Suc (edge_cycle p t)" by (metis mult_less_cancel2)+
  then show ?thesis by simp
qed

lemma edge_cycle_multiple [simp]: "0 < p \<Longrightarrow> edge_cycle p (k * p) = k"
  by (rule edge_cycle_unique) simp_all

text \<open>
  The cache of a clock: the cached edge is a whole number of periods, and it is
  less than a period after the last time the object was asked.
\<close>

definition clock_ok :: "nat \<Rightarrow> 'a ClockedObject_scheme \<Rightarrow> bool" where
  "clock_ok past s = (0 < unat (clock s) \<and> unat (co_tick s) = unat (co_cycle s) * unat (clock s)
     \<and> unat (co_tick s) < past + unat (clock s))"

lemma clock_ok_new: "0 < unat p \<Longrightarrow> clock_ok 0 (ClockedObject_new p)"
  by (simp add: clock_ok_def ClockedObject_new_def)

lemma unat_divCeil:
  assumes "unat a + unat b < 2 ^ 64" and "0 < unat b"
  shows "unat (divCeil a (b :: 64 word)) = edge_cycle (unat b) (unat a)"
proof -
  have "unat (a + b) = unat a + unat b"
    using assms(1) by (subst unat_add_lem [THEN iffD1]) simp_all
  moreover have "unat (a + b - 1) = unat (a + b) - 1"
    using assms calculation by (intro unat_minus_one) (auto simp: word_unat_eq_iff)
  ultimately show ?thesis by (simp add: divCeil_def edge_cycle_def unat_div)
qed


lemma unat_add_small: "unat a + unat b < 2 ^ 64 \<Longrightarrow> unat (a + b :: 64 word) = unat a + unat b"
  by (subst unat_add_lem [THEN iffD1]) simp_all

lemma unat_mult_small: "unat a * unat b < 2 ^ 64 \<Longrightarrow> unat (a * b :: 64 word) = unat a * unat b"
  by (subst unat_mult_lem [THEN iffD1]) simp_all

text \<open>What the invariant and the three exits of \<open>update\<close> amount to.\<close>

lemma update_edge:
  assumes ok: "clock_ok past s" and past: "past \<le> unat cur"
    and room: "unat cur + 2 * unat (clock s) < 2 ^ 64"
  shows "unat (co_tick (update cur s)) = edge_cycle (unat (clock s)) (unat cur) * unat (clock s)"
    and "unat (co_cycle (update cur s)) = edge_cycle (unat (clock s)) (unat cur)"
    and "clock (update cur s) = clock s"
proof -
  let ?p = "unat (clock s)" and ?t = "unat (co_tick s)" and ?c = "unat (co_cycle s)"
  have p: "0 < ?p" and t: "?t = ?c * ?p" and lt: "?t < past + ?p"
    using ok by (simp_all add: clock_ok_def)
  have c: "?c \<le> ?t" using p t by simp
  have t1: "unat (co_tick s + clock s) = ?t + ?p" and c1: "unat (co_cycle s + 1) = ?c + 1"
    using lt past room c p by (auto simp: unat_add_small)
  have eq: "unat (co_tick (update cur s)) = edge_cycle ?p (unat cur) * ?p
      \<and> unat (co_cycle (update cur s)) = edge_cycle ?p (unat cur)"
  proof (cases "cur \<le> co_tick s")
    case True
    then have "edge_cycle ?p (unat cur) = ?c"
      using t lt past by (intro edge_cycle_unique) (simp_all add: word_le_nat_alt)
    then show ?thesis using True t by (simp add: update_def)
  next
    case late: False
    show ?thesis
    proof (cases "cur \<le> co_tick s + clock s")
      case True
      then have "edge_cycle ?p (unat cur) = ?c + 1"
        using late t t1 by (intro edge_cycle_unique) (simp_all add: word_le_nat_alt)
      then show ?thesis using True late t t1 c1 by (simp add: update_def)
    next
      case False
      let ?d = "cur - (co_tick s + clock s)"
      let ?e = "edge_cycle ?p (unat ?d)"
      have d: "unat ?d = unat cur - (?t + ?p)"
        using False t1 by (simp add: unat_sub word_le_nat_alt)
      have e: "unat ?d \<le> ?e * ?p" "?e * ?p < unat ?d + ?p"
        using edge_cycle_bounds [OF p] by blast+
      have dv: "unat (divCeil ?d (clock s)) = ?e" using d room p by (intro unat_divCeil) simp_all
      have less: "unat (co_tick s + clock s) < unat cur" using False by (simp add: word_le_nat_alt)
      have "unat (divCeil ?d (clock s) * clock s) = ?e * ?p"
        using e d dv room by (subst unat_mult_small) simp_all
      then have tk: "unat (co_tick s + clock s + divCeil ?d (clock s) * clock s) = ?t + ?p + ?e * ?p"
        using e d t1 less room by (subst unat_add_small) simp_all
      have "?e \<le> ?e * ?p" "?c + 1 \<le> ?t + ?p" using c p by simp_all
      then have "?c + 1 + ?e < 2 ^ 64" using e(2) d t1 less room by linarith
      then have cy: "unat (co_cycle s + 1 + divCeil ?d (clock s)) = ?c + 1 + ?e"
        using c1 dv by (subst unat_add_small) simp_all
      have "edge_cycle ?p (unat cur) = ?c + 1 + ?e"
        using e d t t1 less by (intro edge_cycle_unique) (simp_all add: algebra_simps)
      then show ?thesis using False late tk cy t by (simp add: update_def Let_def algebra_simps)
    qed
  qed
  then show "unat (co_tick (update cur s)) = edge_cycle ?p (unat cur) * ?p"
    and "unat (co_cycle (update cur s)) = edge_cycle ?p (unat cur)" by blast+
  show "clock (update cur s) = clock s" by (simp add: update_def Let_def)
qed

lemma update_clock_ok:
  assumes "clock_ok past s" and "past \<le> unat cur" and "unat cur + 2 * unat (clock s) < 2 ^ 64"
  shows "clock_ok (unat cur) (update cur s)"
  using update_edge [OF assms] assms(1) edge_cycle_bounds [of "unat (clock s)" "unat cur"]
  by (simp add: clock_ok_def)

lemma nextCycle_edge:
  assumes "clock_ok past s" and "past \<le> unat cur" and "unat cur + 2 * unat (clock s) < 2 ^ 64"
  shows "fst (nextCycle cur s) = edge (clock s) cur"
    and "unat (edge (clock s) cur) = edge_cycle (unat (clock s)) (unat cur) * unat (clock s)"
proof -
  note u = update_edge [OF assms]
  have tk: "co_tick (update cur s) = edge (clock s) cur"
    unfolding edge_def u(1) [symmetric] by simp
  then show "fst (nextCycle cur s) = edge (clock s) cur"
    by (simp add: nextCycle_def clockEdge_def Let_def)
  show "unat (edge (clock s) cur) = edge_cycle (unat (clock s)) (unat cur) * unat (clock s)"
    using tk u(1) by simp
qed

text \<open>
  While time moves forward, the cached clock of an object always answers with the
  first multiple of the period that is not before the current tick, and with the number
  of that edge.
\<close>

theorem nextCycle_is_edge:
  assumes "clock_ok past s" and "past \<le> unat cur" and "unat cur + 2 * unat (clock s) < 2 ^ 64"
  shows "fst (nextCycle cur s) = edge (clock s) cur
    \<and> fst (curCycle cur s) = of_nat (edge_cycle (unat (clock s)) (unat cur))
    \<and> clock_ok (unat cur) (snd (nextCycle cur s)) \<and> clock (snd (nextCycle cur s)) = clock s
    \<and> unat cur \<le> unat (edge (clock s) cur) \<and> unat (edge (clock s) cur) < unat cur + unat (clock s)
    \<and> unat (clock s) dvd unat (edge (clock s) cur)"
proof -
  note u = update_edge [OF assms] and e = nextCycle_edge [OF assms]
  have cy: "co_cycle (update cur s) = of_nat (edge_cycle (unat (clock s)) (unat cur))"
    unfolding u(2) [symmetric] by simp
  show ?thesis
    using cy u(3) update_clock_ok [OF assms] edge_cycle_bounds [of "unat (clock s)" "unat cur"] assms(1)
    by (simp add: e) (simp add: nextCycle_def clockEdge_def curCycle_def Let_def clock_ok_def)
qed

theorem nextCycle_is_edge_witness:
  "fst (nextCycle 2501 (ClockedObject_new 1000)) = edge 1000 2501"
  using nextCycle_is_edge [of 0 "ClockedObject_new 1000" 2501] clock_ok_new [of 1000]
  by (simp add: ClockedObject_new_def)

end
