(* ===== verification/RR_Slots.thy ===== *)
theory RR_Slots
imports Clocked_Object Mem_Packet "HOL-Library.Signed_Division"
begin

text \<open>
  The time slots of the round-robin bus (\<open>mem/rr_bus.cc\<close>).

  The bus gives each of its \<open>num_pids\<close> security domains \<open>tl\<close> (here \<open>tlen\<close>) consecutive clock
  cycles in turn.  \<open>active_id\<close> tells whose turn the next clock edge belongs to,
  \<open>turn_begin\<close> the start of a domain's turn in the current rotation, and
  \<open>calcFinishTime\<close> when a transfer of a number of cycles is done if it only
  uses the slots of its own domain.  Ticks are 64-bit words and wrap;
  \<open>int\<close> parameters and products of \<open>int\<close>s are integers that are converted
  where the code mixes them with ticks.  A division by zero is \<open>None\<close>.
\<close>

record RRBus = ClockedObject +
  num_pids :: int
  headerCycles :: int
  width :: int

definition RRBus_ctor :: "tick \<Rightarrow> int \<Rightarrow> int \<Rightarrow> int \<Rightarrow> string + RRBus" where
  "RRBus_ctor clk pids header w =
     (if w \<le> 0 then Inl ''Bus width must be positive''
      else if clk \<le> 0 then Inl ''Bus clock period must be positive''
      else if header \<le> 0 then Inl ''Number of header cycles must be positive''
      else Inr (ClockedObject.extend (ClockedObject_new clk)
        \<lparr>num_pids = pids, headerCycles = header, width = w\<rparr>))"

definition active_id :: "tick \<Rightarrow> int \<Rightarrow> int \<Rightarrow> 'a RRBus_scheme \<Rightarrow> int option" where
  "active_id cur tlen off b = do {
     let now = fst (nextCycle cur b) - of_int off * clock b;
     check (clock b \<noteq> 0 \<and> num_pids b * tlen \<noteq> 0);
     Some (to_int (now div clock b mod of_int (num_pids b * tlen) div of_int tlen)) }"

definition turn_begin :: "tick \<Rightarrow> int \<Rightarrow> int \<Rightarrow> int \<Rightarrow> 'a RRBus_scheme \<Rightarrow> tick option" where
  "turn_begin cur tid tlen off b = do {
     let now = fst (nextCycle cur b) - of_int off * clock b;
     check (clock b \<noteq> 0 \<and> num_pids b * tlen \<noteq> 0);
     Some (now - now div clock b mod of_int (num_pids b * tlen) * clock b
       + of_int (tid * tlen) * clock b + of_int off * clock b) }"

text \<open>
  \<open>calcFinishTime\<close>.  The products of \<open>int\<close> values are unbounded here; in the code
  \<open>num_pids * num_turns * tl\<close> overflows, which is undefined, for a transfer of about
  \<open>2^31\<close> cycles.  The sums of ticks wrap around as in the code.
\<close>

definition calcFinishTime :: "tick \<Rightarrow> int \<Rightarrow> int \<Rightarrow> int \<Rightarrow> int \<Rightarrow> 'a RRBus_scheme \<Rightarrow> tick option" where
  "calcFinishTime cur tid data_size tlen off b = do {
     let now = fst (nextCycle cur b) - of_int off * clock b;
     check (clock b \<noteq> 0 \<and> num_pids b * tlen \<noteq> 0);
     let remaining_cycles = to_int (of_int (tlen - 1)
       - now div clock b mod of_int (num_pids b * tlen) + of_int (tid * tlen));
     if data_size \<le> remaining_cycles then Some (now + of_int data_size * clock b + of_int off * clock b)
     else do {
       let num_turns = (data_size - remaining_cycles) sdiv tlen;
       let remaining_data = (data_size - remaining_cycles) smod tlen;
       if remaining_data = 0
       then Some (now + of_int remaining_cycles * clock b
              + of_int (num_pids b * num_turns * tlen) * clock b + of_int off * clock b)
       else Some (now + of_int remaining_cycles * clock b
              + of_int (num_pids b * num_turns * tlen) * clock b
              + of_int ((num_pids b - 1) * tlen) * clock b + of_int remaining_data * clock b
              + of_int off * clock b) } }"

text \<open>The number of bus cycles the data of a packet takes.\<close>

definition data_cycles :: "Packet \<Rightarrow> 'a RRBus_scheme \<Rightarrow> int option" where
  "data_cycles pkt b =
     (if hasData (cmd pkt) then do {
        dataSize \<leftarrow> map_option (\<lambda>n. sint n) (getSize pkt);
        check (width b \<noteq> 0);
        Some (dataSize sdiv width b + (if dataSize smod width b \<noteq> 0 then 1 else 0)) }
      else Some 0)"

definition calcPacketTiming :: "tick \<Rightarrow> Packet \<Rightarrow> int \<Rightarrow> int \<Rightarrow> int \<Rightarrow> 'a RRBus_scheme
    \<Rightarrow> (tick \<times> Packet) option" where
  "calcPacketTiming cur pkt tid tlen off b = do {
     headerTime \<leftarrow> calcFinishTime cur tid (headerCycles b) tlen off b;
     numCycles \<leftarrow> data_cycles pkt b;
     fw \<leftarrow> calcFinishTime cur tid (headerCycles b + 1) tlen off b;
     fin \<leftarrow> calcFinishTime cur tid (headerCycles b + numCycles) tlen off b;
     Some (headerTime, pkt \<lparr>firstWordTime := fw, finishTime := fin\<rparr>) }"

definition calcPacketTiming1 :: "tick \<Rightarrow> Packet \<Rightarrow> 'a RRBus_scheme \<Rightarrow> (tick \<times> Packet) option" where
  "calcPacketTiming1 cur pkt b = do {
     let now = fst (nextCycle cur b);
     let headerTime = now + of_int (headerCycles b) * clock b;
     numCycles \<leftarrow> data_cycles pkt b;
     Some (headerTime, pkt \<lparr>firstWordTime := headerTime + clock b,
       finishTime := headerTime + of_int numCycles * clock b\<rparr>) }"

subsection \<open>Words and integers\<close>

lemma to_int_of_int:
  assumes "- (2 ^ 31) \<le> k" and "k < 2 ^ 31"
  shows "to_int (of_int k) = k"
proof -
  have "(ucast (word_of_int k :: 64 word) :: 32 word) = word_of_int k"
    by (intro bit_word_eqI) (simp add: bit_word_ucast_iff bit_word_of_int_iff)
  then show ?thesis
    using assms unfolding to_int_def
    by (simp add: sint_sbintrunc' signed_take_bit_int_eq_self)
qed

lemma of_int_nat: "0 \<le> k \<Longrightarrow> (of_int k :: 'a::ring_1) = of_nat (nat k)"
  by simp

lemma unat_of_nat_small: "n < 2 ^ 64 \<Longrightarrow> unat (of_nat n :: 64 word) = n"
  by (simp add: unat_of_nat take_bit_nat_eq_self)

text \<open>The position of a clock edge in the rotation, computed on words.\<close>

lemma word_position:
  assumes "x * unat p < 2 ^ 64" and "0 < unat (p :: 64 word)" and "0 < L" and "L < 2 ^ 31"
  shows "of_nat (x * unat p) div p mod of_int L = of_nat (x mod nat L)"
proof -
  have x: "x < 2 ^ 64" using assms(1,2) by (metis le_less_trans mult.right_neutral mult_le_mono2 Suc_leI One_nat_def)
  have L: "unat (of_int L :: 64 word) = nat L" using assms(3,4)
    by (subst of_int_nat) (simp_all del: of_nat_nat add: unat_of_nat_small)
  have "unat (of_nat (x * unat p) div p mod of_int L) = x * unat p div unat p mod nat L"
    by (simp only: unat_mod unat_div L unat_of_nat_small [OF assms(1)])
  then have u: "unat (of_nat (x * unat p) div p mod of_int L) = x mod nat L" using assms(2) by simp
  show ?thesis by (rule word_unat_eq_iff [THEN iffD2], unfold u, rule unat_of_nat_small [symmetric])
    (rule le_less_trans [OF mod_less_eq_dividend x])
qed


subsection \<open>The slots of a domain\<close>

text \<open>
  Cycles are counted from the offset.  \<open>owner P T x\<close> is the domain whose turn
  cycle \<open>x\<close> belongs to, \<open>own_slot P T t i\<close> the cycle of the \<open>i\<close>-th slot of
  domain \<open>t\<close>, and \<open>slot_index\<close> the number of a cycle among the slots of its
  owner.
\<close>

definition owner :: "nat \<Rightarrow> nat \<Rightarrow> nat \<Rightarrow> nat" where
  "owner P T x = x mod (P * T) div T"

definition own_slot :: "nat \<Rightarrow> nat \<Rightarrow> nat \<Rightarrow> nat \<Rightarrow> nat" where
  "own_slot P T t i = i div T * (P * T) + t * T + i mod T"

definition slot_index :: "nat \<Rightarrow> nat \<Rightarrow> nat \<Rightarrow> nat" where
  "slot_index P T x = x div (P * T) * T + x mod T"

lemma in_turn: "t < P \<Longrightarrow> r < T \<Longrightarrow> t * T + r < P * (T :: nat)"
  by (metis add.commute add_less_cancel_left less_le_trans mult_Suc mult_le_mono1 Suc_leI)

lemma own_slot_mod: "t < P \<Longrightarrow> 0 < T \<Longrightarrow> own_slot P T t i mod (P * T) = t * T + i mod T"
  using in_turn [of t P "i mod T" T] by (simp add: own_slot_def add.assoc)

lemma owner_own_slot [simp]: "t < P \<Longrightarrow> 0 < T \<Longrightarrow> owner P T (own_slot P T t i) = t"
  by (simp add: owner_def own_slot_mod)

lemma own_slot_index:
  assumes "0 < T" and "0 < P"
  shows "own_slot P T (owner P T x) (slot_index P T x) = x"
proof -
  have m: "x mod T = x mod (P * T) mod T" by (simp add: mod_mod_cancel)
  have "x mod (P * T) div T * T + x mod (P * T) mod T = x mod (P * T)" by simp
  then have "x div (P * T) * (P * T) + x mod (P * T) div T * T + x mod T = x"
    using div_mult_mod_eq [of x "P * T"] m by linarith
  then show ?thesis using assms by (simp add: own_slot_def owner_def slot_index_def)
qed

lemma own_slot_step:
  assumes "0 < T" and "0 < P"
  shows "own_slot P T t (Suc i) = own_slot P T t i + (if Suc (i mod T) = T then (P - 1) * T + 1 else 1)"
proof (cases "Suc (i mod T) = T")
  case True
  have "Suc i div T = Suc (i div T)" "Suc i mod T = 0"
    using True by (simp_all add: div_Suc mod_Suc)
  moreover have "i mod T + ((P - 1) * T + 1) = P * T"
    using True assms by (cases P) (simp_all)
  ultimately show ?thesis using True by (simp add: own_slot_def)
next
  case False
  then show ?thesis using assms by (simp add: own_slot_def div_Suc mod_Suc)
qed

lemma own_slot_strict_mono:
  assumes "0 < T" and "0 < P"
  shows "strict_mono (own_slot P T t)"
  by (rule strict_mono_Suc_iff [THEN iffD2]) (simp add: own_slot_step [OF assms])

lemma own_slot_less_turn:
  assumes "i mod T + m < T"
  shows "own_slot P T t (i + m) = own_slot P T t i + m"
proof -
  have "(i + m) mod T = i mod T + m" using assms by (metis mod_add_left_eq mod_less)
  moreover have "(i + m) div T = i div T"
    using assms div_add1_eq [of i m T] by (simp add: div_eq_0_iff)
  ultimately show ?thesis by (simp add: own_slot_def)
qed

lemma own_slot_turns: "0 < T \<Longrightarrow> own_slot P T t (i + q * T) = own_slot P T t i + P * q * T"
  by (simp add: own_slot_def algebra_simps)

text \<open>The arithmetic of \<open>calcFinishTime\<close> in cycles.\<close>

lemma own_slot_advance:
  assumes T: "0 < T" and P: "0 < P" and ds: "T - 1 - i mod T < ds"
  defines "D \<equiv> ds - (T - 1 - i mod T)"
  shows "own_slot P T t (i + ds) = own_slot P T t i + (T - 1 - i mod T) + P * (D div T) * T
     + (if D mod T = 0 then 0 else (P - 1) * T + D mod T)"
proof -
  let ?r = "i mod T" let ?rem = "T - 1 - ?r" let ?q = "D div T" let ?d = "D mod T"
  have r: "?r < T" using T by simp
  then have j: "?r + ?rem = T - 1" "?r + ?rem < T" using T by linarith+
  have jm: "(i + ?rem) mod T = T - 1"
    using j by (metis mod_add_left_eq mod_less)
  have base: "own_slot P T t (i + ?rem) = own_slot P T t i + ?rem" using j by (intro own_slot_less_turn)
  have "i + ds = i + ?rem + (?q * T + ?d)" using ds D_def by simp
  then have e: "i + ds = (i + ?rem + ?d) + ?q * T" by simp
  have "own_slot P T t (i + ?rem + ?d) = own_slot P T t (i + ?rem) + (if ?d = 0 then 0 else (P - 1) * T + ?d)"
  proof (cases ?d)
    case (Suc d)
    have z: "Suc (i + ?rem) mod T = 0" using jm T by (simp add: mod_Suc)
    have "own_slot P T t (i + ?rem + ?d) = own_slot P T t (Suc (i + ?rem) + d)" using Suc by simp
    also have "\<dots> = own_slot P T t (Suc (i + ?rem)) + d"
      using z Suc T mod_less_divisor [OF T, of D] by (intro own_slot_less_turn) linarith
    also have "\<dots> = own_slot P T t (i + ?rem) + (P - 1) * T + 1 + d"
      using jm T by (subst own_slot_step [OF T P]) simp
    finally show ?thesis using Suc by simp
  qed simp
  then show ?thesis unfolding e own_slot_turns [OF T] base by simp
qed


subsection \<open>The slot arithmetic on ticks\<close>

definition slots_ok :: "int \<Rightarrow> int \<Rightarrow> 'a RRBus_scheme \<Rightarrow> bool" where
  "slots_ok tlen off b = (clock_ok 0 b \<and> 0 < num_pids b \<and> 0 < tlen \<and> num_pids b * tlen < 2 ^ 31 \<and> 0 \<le> off)"

text \<open>The cycle of the next clock edge, counted from the offset, and its owner.\<close>

definition cyc :: "tick \<Rightarrow> int \<Rightarrow> 'a RRBus_scheme \<Rightarrow> nat" where
  "cyc cur off b = edge_cycle (unat (clock b)) (unat cur) - nat off"

definition turn_of :: "tick \<Rightarrow> int \<Rightarrow> int \<Rightarrow> 'a RRBus_scheme \<Rightarrow> nat" where
  "turn_of cur tlen off b = owner (nat (num_pids b)) (nat tlen) (cyc cur off b)"

text \<open>The simulation has passed the offset and is two periods away from the last tick.\<close>

definition in_time :: "tick \<Rightarrow> int \<Rightarrow> 'a RRBus_scheme \<Rightarrow> bool" where
  "in_time cur off b = (unat cur + 2 * unat (clock b) < 2 ^ 64
     \<and> nat off \<le> edge_cycle (unat (clock b)) (unat cur))"

text \<open>The tick of a cycle that is counted from the offset.\<close>

definition cycle_tick :: "nat \<Rightarrow> int \<Rightarrow> 'a RRBus_scheme \<Rightarrow> tick" where
  "cycle_tick x off b = of_nat ((x + nat off) * unat (clock b))"

lemma slots_okD:
  assumes "slots_ok tlen off b"
  shows "0 < unat (clock b)" "clock b \<noteq> 0" "num_pids b * tlen \<noteq> 0"
    "0 < nat (num_pids b)" "0 < nat tlen" "nat (num_pids b * tlen) = nat (num_pids b) * nat tlen"
  using assms by (auto simp: slots_ok_def clock_ok_def nat_mult_distrib)

lemma now_shifted:
  assumes "slots_ok tlen off b" and "in_time cur off b"
  shows "fst (nextCycle cur b) - of_int off * clock b = of_nat (cyc cur off b * unat (clock b))"
    and "cyc cur off b * unat (clock b) < 2 ^ 64"
proof -
  let ?p = "unat (clock b)" and ?e = "edge_cycle (unat (clock b)) (unat cur)"
  have o: "of_int off = (of_nat (nat off) :: tick)" using assms(1) by (simp add: slots_ok_def)
  have le: "nat off \<le> ?e" using assms(2) by (simp add: in_time_def)
  have "fst (nextCycle cur b) = of_nat (?e * ?p)"
    using nextCycle_edge [of 0 b cur] assms by (simp add: slots_ok_def in_time_def edge_def)
  then have "fst (nextCycle cur b) - of_int off * clock b = (of_nat ?e - of_nat (nat off)) * clock b"
    unfolding o by (simp add: algebra_simps)
  also have "\<dots> = of_nat (cyc cur off b * ?p)" using le by (simp add: cyc_def of_nat_diff)
  finally show "fst (nextCycle cur b) - of_int off * clock b = of_nat (cyc cur off b * ?p)" .
  have "?e * ?p < 2 ^ 64"
    using edge_cycle_bounds(2) [OF slots_okD(1) [OF assms(1)], of "unat cur"] assms(2)
    by (simp add: in_time_def)
  then show "cyc cur off b * ?p < 2 ^ 64"
    by (rule le_less_trans [rotated]) (simp add: cyc_def)
qed

text \<open>The position of the next edge in the rotation, as the three functions compute it.\<close>

lemma rotation_position:
  assumes "slots_ok tlen off b" and "in_time cur off b"
  shows "(fst (nextCycle cur b) - of_int off * clock b) div clock b mod of_int (num_pids b * tlen)
    = of_nat (cyc cur off b mod (nat (num_pids b) * nat tlen))"
  unfolding now_shifted(1) [OF assms] slots_okD(6) [OF assms(1), symmetric]
  using assms(1) by (intro word_position now_shifted(2) [OF assms] slots_okD(1) [OF assms(1)])
    (auto simp: slots_ok_def)

lemma rotation_position_less:
  assumes "slots_ok tlen off b"
  shows "x mod (nat (num_pids b) * nat tlen) < 2 ^ 31"
proof -
  have "x mod (nat (num_pids b) * nat tlen) < nat (num_pids b) * nat tlen"
    using slots_okD(4,5) [OF assms] by simp
  moreover have "nat (num_pids b * tlen) < 2 ^ 31" using assms by (simp add: slots_ok_def nat_less_iff)
  ultimately show ?thesis using slots_okD(6) [OF assms] by simp
qed

lemma active_id_turn:
  assumes "slots_ok tlen off b" and "in_time cur off b"
  shows "active_id cur tlen off b = Some (int (turn_of cur tlen off b))"
proof -
  let ?x = "cyc cur off b mod (nat (num_pids b) * nat tlen)"
  have small: "?x < 2 ^ 31" by (rule rotation_position_less [OF assms(1)])
  have t: "tlen < 2 ^ 31"
  proof -
    have "1 * tlen \<le> num_pids b * tlen" using assms(1) by (intro mult_right_mono) (auto simp: slots_ok_def)
    moreover have "num_pids b * tlen < 2 ^ 31" using assms(1) by (simp add: slots_ok_def)
    ultimately show ?thesis by linarith
  qed
  have "unat (of_nat ?x div of_int tlen :: tick) = ?x div nat tlen"
    using small t assms(1) unfolding unat_div
    by (subst of_int_nat) (auto simp del: of_nat_nat simp: unat_of_nat_small slots_ok_def)
  then have "(of_nat ?x div of_int tlen :: tick) = of_nat (?x div nat tlen)"
    by (metis of_nat_unat ucast_id)
  then have "to_int (of_nat ?x div of_int tlen) = to_int (of_int (int (?x div nat tlen)))" by simp
  also have "\<dots> = int (?x div nat tlen)"
    using small by (intro to_int_of_int) (auto intro: le_less_trans [OF div_le_dividend])
  finally show ?thesis
    using slots_okD [OF assms(1)] rotation_position [OF assms]
    by (simp add: active_id_def Let_def turn_of_def owner_def)
qed


lemma turn_position:
  assumes "slots_ok tlen off b"
  defines "T \<equiv> nat tlen" and "P \<equiv> nat (num_pids b)"
  shows "x mod (P * T) = owner P T x * T + x mod T" and "slot_index P T x mod T = x mod T"
    and "owner P T x < P"
proof -
  have T: "0 < T" and P: "0 < P" using slots_okD [OF assms(1)] by (simp_all add: T_def P_def)
  have "x mod (P * T) mod T = x mod T" by (simp add: mod_mod_cancel)
  then show "x mod (P * T) = owner P T x * T + x mod T"
    using div_mult_mod_eq [of "x mod (P * T)" T] by (simp add: owner_def)
  show "slot_index P T x mod T = x mod T" by (simp add: slot_index_def)
  show "owner P T x < P"
    using T P unfolding owner_def by (intro less_mult_imp_div_less) simp
qed

lemma remaining_cycles_turn:
  assumes ok: "slots_ok tlen off b" and it: "in_time cur off b"
  shows "to_int (of_int (tlen - 1)
       - (fst (nextCycle cur b) - of_int off * clock b) div clock b mod of_int (num_pids b * tlen)
       + of_int (int (turn_of cur tlen off b) * tlen))
    = int (nat tlen - 1 - cyc cur off b mod nat tlen)"
proof -
  let ?x = "cyc cur off b" and ?T = "nat tlen" and ?P = "nat (num_pids b)"
  have T: "0 < ?T" using slots_okD [OF ok] by simp
  have "?x mod ?T \<le> ?T - 1" using mod_less_divisor [OF T, of ?x] by linarith
  moreover have "int (?x mod (?P * ?T)) = int (turn_of cur tlen off b) * tlen + int (?x mod ?T)"
    using turn_position(1) [OF ok, of ?x] T by (simp add: turn_of_def)
  ultimately have k: "tlen - 1 - int (?x mod (?P * ?T)) + int (turn_of cur tlen off b) * tlen
      = int (?T - 1 - ?x mod ?T)"
    using T by (simp add: of_nat_diff)
  have "?T - 1 - ?x mod ?T < 2 ^ 31"
  proof -
    have "?T * 1 \<le> ?T * ?P" using slots_okD [OF ok] by (intro mult_le_mono2) simp
    moreover have "nat (num_pids b * tlen) < 2 ^ 31" using ok by (simp add: slots_ok_def nat_less_iff)
    ultimately have "?T < 2 ^ 31" unfolding slots_okD(6) [OF ok] by (simp only: mult.commute mult_1_right)
    then show ?thesis by linarith
  qed
  then have "to_int (of_int (int (?T - 1 - ?x mod ?T))) = int (?T - 1 - ?x mod ?T)"
    by (intro to_int_of_int) (simp_all add: of_nat_less_numeral_iff)
  moreover have "of_int (tlen - 1) - (of_nat (?x mod (?P * ?T)) :: tick) + of_int (int (turn_of cur tlen off b) * tlen)
      = of_int (int (?T - 1 - ?x mod ?T))"
    unfolding k [symmetric] by simp
  ultimately show ?thesis unfolding rotation_position [OF ok it] by simp
qed

lemma tick_sum:
  assumes "slots_ok tlen off b" and "0 \<le> k"
  shows "of_nat (x * unat (clock b)) + of_int k * clock b + of_int off * clock b
    = cycle_tick (x + nat k) off b"
proof -
  have "of_int off = (of_nat (nat off) :: tick)" using assms by (simp add: slots_ok_def)
  moreover have "of_int k = (of_nat (nat k) :: tick)" using assms by simp
  ultimately show ?thesis by (simp add: cycle_tick_def algebra_simps)
qed

lemma sdiv_smod_nat:
  assumes "0 \<le> a" and "0 < c"
  shows "a sdiv c = int (nat a div nat c)" and "a smod c = int (nat a mod nat c)"
proof -
  show "a sdiv c = int (nat a div nat c)"
    using assms by (simp add: signed_divide_int_def sgn_if zdiv_int)
  show "a smod c = int (nat a mod nat c)"
    using assms by (cases "a = 0") (simp_all add: signed_modulo_int_def zmod_int)
qed

text \<open>
  A transfer of \<open>ds\<close> cycles by the domain whose turn it is ends at the
  \<open>ds\<close>-th slot of that domain after the present one.
\<close>

lemma calcFinishTime_slot:
  assumes ok: "slots_ok tlen off b" and it: "in_time cur off b"
    and t: "t = turn_of cur tlen off b" and ds: "0 \<le> ds"
  defines "P \<equiv> nat (num_pids b)" and "T \<equiv> nat tlen"
  shows "calcFinishTime cur (int t) ds tlen off b
    = Some (cycle_tick (own_slot P T t (slot_index P T (cyc cur off b) + nat ds)) off b)"
proof -
  let ?x = "cyc cur off b"
  define i where "i = slot_index P T ?x"
  have T: "0 < T" and P: "0 < P" using slots_okD [OF ok] by (simp_all add: T_def P_def)
  have im: "i mod T = ?x mod T" using turn_position(2) [OF ok] by (simp add: i_def P_def T_def)
  have xi: "?x = own_slot P T t i"
    using own_slot_index [OF T P, of ?x] by (simp add: i_def t turn_of_def P_def T_def)
  define rem where "rem = T - 1 - i mod T"
  have rc: "to_int (of_int (tlen - 1)
       - (fst (nextCycle cur b) - of_int off * clock b) div clock b mod of_int (num_pids b * tlen)
       + of_int (int t * tlen)) = int rem"
    unfolding t remaining_cycles_turn [OF ok it] rem_def im by (simp add: T_def)
  note d = slots_okD [OF ok]
  have pd: "num_pids b = int P" "tlen = int T" using d by (simp_all add: P_def T_def)
  show ?thesis
  proof (cases "ds \<le> int rem")
    case True
    have "i mod T + nat ds < T" using True mod_less_divisor [OF T, of i] by (simp add: rem_def)
    then have "own_slot P T t (i + nat ds) = ?x + nat ds" unfolding xi by (rule own_slot_less_turn)
    then show ?thesis
      using True d(2,3) tick_sum [OF ok ds, of ?x]
      unfolding calcFinishTime_def Let_def rc by (simp add: now_shifted(1) [OF ok it] i_def)
  next
    case False
    define D where "D = nat ds - rem"
    have D: "ds - int rem = int D" using False by (simp add: D_def)
    have dv: "int D sdiv tlen = int (D div T)" "int D smod tlen = int (D mod T)"
      using sdiv_smod_nat [of "int D" tlen] T by (simp_all add: T_def)
    have adv: "own_slot P T t (i + nat ds) = ?x + rem + P * (D div T) * T
       + (if D mod T = 0 then 0 else (P - 1) * T + D mod T)"
      unfolding xi rem_def D_def using False by (intro own_slot_advance [OF T P]) (simp add: rem_def)
    let ?k = "int (rem + P * (D div T) * T + (if D mod T = 0 then 0 else (P - 1) * T + D mod T))"
    have "calcFinishTime cur (int t) ds tlen off b
      = Some (of_nat (?x * unat (clock b)) + of_int ?k * clock b + of_int off * clock b)"
      using False d(2,3) P
      unfolding calcFinishTime_def Let_def unfolding rc
      unfolding D dv now_shifted(1) [OF ok it]
      by (cases P) (simp_all add: pd algebra_simps)
    then show ?thesis unfolding tick_sum [OF ok of_nat_0_le_iff] nat_int i_def [symmetric] adv
      by (simp only: add.assoc)
  qed
qed

lemma turn_begin_slot:
  assumes ok: "slots_ok tlen off b" and it: "in_time cur off b" and t: "0 \<le> t"
  defines "L \<equiv> nat (num_pids b) * nat tlen"
  shows "turn_begin cur t tlen off b
    = Some (cycle_tick (cyc cur off b div L * L + nat t * nat tlen) off b)"
proof -
  let ?x = "cyc cur off b"
  have "of_nat (?x * unat (clock b)) - of_nat (?x mod L) * clock b = (of_nat (?x div L * L * unat (clock b)) :: tick)"
  proof -
    have "(of_nat ?x :: tick) = of_nat (?x div L * L) + of_nat (?x mod L)"
      unfolding of_nat_add [symmetric] by simp
    then show ?thesis by (simp add: algebra_simps)
  qed
  moreover have "nat (t * tlen) = nat t * nat tlen" using t by (simp add: nat_mult_distrib)
  moreover have "0 \<le> t * tlen" using t ok by (simp add: slots_ok_def)
  ultimately show ?thesis
    using slots_okD(2,3) [OF ok] tick_sum [OF ok, of "t * tlen" "?x div L * L"]
    unfolding turn_begin_def Let_def rotation_position [OF ok it, folded L_def]
    by (simp add: now_shifted(1) [OF ok it])
qed


text \<open>The tick of a cycle is a clock edge, and belongs to the turn of its owner.\<close>

lemma cycle_tick_turn:
  assumes "slots_ok tlen off b" and "(f + nat off + 2) * unat (clock b) < 2 ^ 64"
  shows "unat (cycle_tick f off b) = (f + nat off) * unat (clock b)"
    and "in_time (cycle_tick f off b) off b" and "cyc (cycle_tick f off b) off b = f"
    and "active_id (cycle_tick f off b) tlen off b = Some (int (owner (nat (num_pids b)) (nat tlen) f))"
proof -
  have p: "0 < unat (clock b)" by (rule slots_okD(1) [OF assms(1)])
  have "(f + nat off) * unat (clock b) < 2 ^ 64" using assms(2) by (simp add: add_mult_distrib)
  then show u: "unat (cycle_tick f off b) = (f + nat off) * unat (clock b)"
    unfolding cycle_tick_def by (rule unat_of_nat_small)
  show it: "in_time (cycle_tick f off b) off b"
    using assms(2) p by (simp add: in_time_def u)
  show c: "cyc (cycle_tick f off b) off b = f" using p by (simp add: cyc_def u)
  show "active_id (cycle_tick f off b) tlen off b = Some (int (owner (nat (num_pids b)) (nat tlen) f))"
    using active_id_turn [OF assms(1) it] by (simp add: turn_of_def c)
qed

text \<open>Order of the tick of a cycle and the present tick.\<close>

lemma cur_le_cycle_tick_iff:
  assumes "slots_ok tlen off b" and "(f + nat off + 2) * unat (clock b) < 2 ^ 64"
    and "nat off \<le> edge_cycle (unat (clock b)) (unat cur)"
  shows "cur \<le> cycle_tick f off b \<longleftrightarrow> cyc cur off b \<le> f"
proof -
  let ?p = "unat (clock b)" and ?e = "edge_cycle (unat (clock b)) (unat cur)"
  have p: "0 < ?p" by (rule slots_okD(1) [OF assms(1)])
  note eb = edge_cycle_bounds [OF p, of "unat cur"]
  have "unat cur \<le> (f + nat off) * ?p \<longleftrightarrow> ?e \<le> f + nat off"
  proof
    assume "unat cur \<le> (f + nat off) * ?p"
    then have "?e * ?p < Suc (f + nat off) * ?p" using eb by simp
    then show "?e \<le> f + nat off" by (metis mult_less_cancel2 less_Suc_eq_le)
  next
    assume "?e \<le> f + nat off"
    then have "?e * ?p \<le> (f + nat off) * ?p" by simp
    then show "unat cur \<le> (f + nat off) * ?p" using eb by linarith
  qed
  then show ?thesis
    using assms(3) by (auto simp: word_le_nat_alt cycle_tick_turn(1) [OF assms(1,2)] cyc_def)
qed

text \<open>The slots of a domain advance by at most a rotation each.\<close>

lemma own_slot_bound:
  assumes "0 < T" and "0 < P"
  shows "own_slot P T t (i + n) \<le> own_slot P T t i + n * (P * T)"
proof (induction n)
  case (Suc n)
  have "(P - 1) * T + 1 \<le> P * T" using assms by (cases P) simp_all
  moreover have "1 \<le> P * T" using assms by (simp add: Suc_le_eq)
  ultimately have "own_slot P T t (Suc (i + n)) \<le> own_slot P T t (i + n) + P * T"
    by (simp add: own_slot_step [OF assms])
  then show ?case using Suc by simp
qed simp

text \<open>The first cycle of the next turn of a domain.\<close>

definition next_turn :: "nat \<Rightarrow> nat \<Rightarrow> nat \<Rightarrow> nat \<Rightarrow> nat" where
  "next_turn P T t x = (let s = x div (P * T) * (P * T) + t * T in if s < x then s + P * T else s)"

lemma next_turn_first:
  assumes T: "0 < T" and t: "t < P" and x: "owner P T x \<noteq> t"
  shows "x \<le> next_turn P T t x" and "next_turn P T t x < x + P * T" and "owner P T (next_turn P T t x) = t"
    and "x \<le> f \<Longrightarrow> owner P T f = t \<Longrightarrow> next_turn P T t x \<le> f"
proof -
  let ?L = "P * T" let ?q = "x div ?L" let ?s = "?q * ?L + t * T"
  have P: "0 < P" using t by simp
  have L: "0 < ?L" using T P by simp
  have tL: "t * T < ?L" using t T by simp
  have xq: "x = ?q * ?L + x mod ?L" by (rule div_mult_mod_eq [symmetric])
  have xm: "x mod ?L < ?L" using L by simp
  have nt: "next_turn P T t x = (if ?s < x then ?s + ?L else ?s)" by (simp add: next_turn_def Let_def)
  have "x \<le> ?s + ?L" "?s < x + ?L" using xq xm tL by linarith+
  then show "x \<le> next_turn P T t x" "next_turn P T t x < x + ?L" unfolding nt by (simp_all split: if_split)
  have "next_turn P T t x mod ?L = t * T"
    using tL by (simp add: next_turn_def Let_def)
  then show "owner P T (next_turn P T t x) = t" using T by (simp add: owner_def)
  assume f: "x \<le> f" "owner P T f = t"
  then have fm: "f mod ?L div T = t" by (simp add: owner_def)
  then have f1: "t * T \<le> f mod ?L" "f mod ?L < t * T + T"
    using div_times_less_eq_dividend [of "f mod ?L" T] dividend_less_div_times [OF T, of "f mod ?L"] by auto
  have fq: "f = f div ?L * ?L + f mod ?L" by (rule div_mult_mod_eq [symmetric])
  have qf: "?q \<le> f div ?L" using f(1) by (rule div_le_mono)
  show "next_turn P T t x \<le> f"
  proof (cases "?s < x")
    case False
    have "?q * ?L \<le> f div ?L * ?L" using qf by (rule mult_le_mono1)
    then have "?s \<le> f" using f1 fq by linarith
    then show ?thesis using False by (simp add: nt)
  next
    case True
    have "t * T + T \<le> x mod ?L"
    proof (rule ccontr)
      assume "\<not> t * T + T \<le> x mod ?L"
      moreover have "t * T \<le> x mod ?L" using True xq by linarith
      ultimately have "x mod ?L div T = t" using T by (intro div_nat_eqI) (simp_all add: mult.commute)
      then show False using x by (simp add: owner_def)
    qed
    then have "?q \<noteq> f div ?L" using f(1) f1 fq xq by auto
    then have "(?q + 1) * ?L \<le> f div ?L * ?L" using qf by (intro mult_le_mono1) simp
    then have "?s + ?L \<le> f" using f1 fq by (simp only: add_mult_distrib mult_1)
    then show ?thesis using True by (simp add: nt)
  qed
qed

text \<open>
  C18: A transfer of n cycles that starts in the turn of a domain is finished at the
  tick of the n-th clock cycle after the present one that belongs to that domain.
\<close>

theorem calcFinishTime_exact:
  assumes "slots_ok tlen off b" and "in_time cur off b"
    and "active_id cur tlen off b = Some t" and "0 \<le> ds"
  defines "P \<equiv> nat (num_pids b)" and "T \<equiv> nat tlen" and "x \<equiv> cyc cur off b"
  shows "\<exists>f. calcFinishTime cur t ds tlen off b = Some (cycle_tick f off b) \<and> x \<le> f
    \<and> int (owner P T f) = t \<and> card {y. x < y \<and> y \<le> f \<and> int (owner P T y) = t} = nat ds"
proof -
  have T: "0 < T" and P: "0 < P" using slots_okD [OF assms(1)] by (simp_all add: T_def P_def)
  define u where "u = turn_of cur tlen off b"
  define i where "i = slot_index P T x"
  have t: "t = int u" using assms(3) active_id_turn [OF assms(1,2)] by (simp add: u_def)
  have x: "own_slot P T u i = x"
    using own_slot_index [OF T P, of x] by (simp add: u_def i_def turn_of_def P_def T_def x_def)
  have u: "u < P" using turn_position(3) [OF assms(1)] by (simp add: u_def turn_of_def P_def)
  note mono = own_slot_strict_mono [OF T P, of u]
  let ?f = "own_slot P T u (i + nat ds)"
  have "{y. x < y \<and> y \<le> ?f \<and> int (owner P T y) = t} = own_slot P T u ` {i <.. i + nat ds}" (is "?A = ?B")
  proof
    show "?B \<subseteq> ?A"
      using u T t strict_mono_less [OF mono] strict_mono_less_eq [OF mono] by (auto simp: x [symmetric])
    show "?A \<subseteq> ?B"
    proof
      fix y assume y: "y \<in> ?A"
      then have e: "y = own_slot P T u (slot_index P T y)" using own_slot_index [OF T P, of y] t by simp
      have "own_slot P T u i < y" "y \<le> ?f" using y x by auto
      then have "i < slot_index P T y" "slot_index P T y \<le> i + nat ds"
        using e strict_mono_less [OF mono] strict_mono_less_eq [OF mono] by metis+
      then show "y \<in> ?B" using e by auto
    qed
  qed
  then have "card {y. x < y \<and> y \<le> ?f \<and> int (owner P T y) = t} = nat ds"
    using strict_mono_imp_inj_on [OF mono] by (simp add: card_image inj_on_subset)
  moreover have "calcFinishTime cur t ds tlen off b = Some (cycle_tick ?f off b)"
    using calcFinishTime_slot [OF assms(1,2) u_def assms(4)] by (simp add: t P_def T_def x_def i_def)
  moreover have "x \<le> ?f" using strict_mono_less_eq [OF mono, of i "i + nat ds"] x by simp
  ultimately show ?thesis using u T t by (intro exI [of _ ?f]) simp
qed

definition two_domain_bus :: RRBus where
  "two_domain_bus = ClockedObject.extend (ClockedObject_new 1000) \<lparr>num_pids = 2, headerCycles = 1, width = 8\<rparr>"

lemma two_domain_bus_ok: "slots_ok 3 0 two_domain_bus"
  by (simp add: slots_ok_def two_domain_bus_def clock_ok_def ClockedObject.defs ClockedObject_new_def)

theorem calcFinishTime_exact_witness:
  "\<exists>f. calcFinishTime 7000 0 4 3 0 two_domain_bus = Some (cycle_tick f 0 two_domain_bus)
    \<and> owner 2 3 f = 0 \<and> card {y. 7 < y \<and> y \<le> f \<and> owner 2 3 y = 0} = 4"
proof -
  have c: "cyc 7000 0 two_domain_bus = 7" "num_pids two_domain_bus = 2"
    by (simp_all add: cyc_def edge_cycle_def two_domain_bus_def ClockedObject.defs ClockedObject_new_def)
  have it: "in_time 7000 0 two_domain_bus"
    by (simp add: in_time_def edge_cycle_def two_domain_bus_def ClockedObject.defs ClockedObject_new_def)
  have a: "active_id 7000 3 0 two_domain_bus = Some 0"
    unfolding active_id_turn [OF two_domain_bus_ok it] by (simp add: turn_of_def c owner_def)
  obtain f where f: "calcFinishTime 7000 0 4 3 0 two_domain_bus = Some (cycle_tick f 0 two_domain_bus)"
    "int (owner 2 3 f) = 0" "card {y. 7 < y \<and> y \<le> f \<and> int (owner 2 3 y) = 0} = 4"
    using calcFinishTime_exact [OF two_domain_bus_ok it a, of 4] c by auto
  show ?thesis by (rule exI [of _ f]) (use f in simp)
qed

end
