(* ===== verification/RR_Layer.thy ===== *)
theory RR_Layer
imports RR_Slots
begin

text \<open>
  The arbitration layers of the round-robin bus (\<open>mem/rr_bus.cc\<close>).

  A \<open>Layer\<close> keeps for every security domain a state, a list of ports waiting
  for a retry, an event that ends the current transfer and an event that
  starts the domain's next turn.  A \<open>Layer1\<close> is the layer without time slots
  that the bus inherits from the simulator's ordinary bus.  Ports are numbers.
  An event is \<open>Some\<close> tick when it is scheduled; \<open>EventQueue::schedule\<close> asserts
  that it is not scheduled yet and that the tick is not in the past.

  \<open>sendRetry\<close> calls the peer of a port, which may send packets in zero time.
  The parameter \<open>peer\<close> stands for it: the packets that the peer of a port sends
  for a domain at a tick, each with the answer of its destination.
\<close>

datatype LState = IDLE | BUSY | RETRY

type_synonym peer = "nat \<Rightarrow> nat \<Rightarrow> tick \<Rightarrow> (Packet \<times> bool) list"

text \<open>\<open>EventManager::schedule\<close> on one event.\<close>

definition schedule :: "tick \<Rightarrow> tick option \<Rightarrow> tick \<Rightarrow> tick option option" where
  "schedule cur ev when = do { check (cur \<le> when); check (ev = None); Some (Some when) }"

subsection \<open>The layer without slots\<close>

record Arbiter =
  l1_state :: LState
  l1_retryList :: "nat list"
  releaseEvent1 :: "tick option"

record Layer1 = Arbiter +
  drainEvent1 :: bool

definition Layer1_new :: Layer1 where
  "Layer1_new = \<lparr>l1_state = IDLE, l1_retryList = [], releaseEvent1 = None, drainEvent1 = False\<rparr>"

definition occupyLayer1 :: "tick \<Rightarrow> tick \<Rightarrow> 'a Arbiter_scheme \<Rightarrow> 'a Arbiter_scheme option" where
  "occupyLayer1 cur until l = do {
     check (l1_state l \<noteq> IDLE);
     check (until \<noteq> 0);
     ev \<leftarrow> schedule cur (releaseEvent1 l) until;
     Some (l \<lparr>releaseEvent1 := ev\<rparr>) }"

text \<open>\<open>retryList.front()\<close> of an empty list is undefined.\<close>

definition tryTiming1 :: "nat \<Rightarrow> 'a Arbiter_scheme \<Rightarrow> (bool \<times> 'a Arbiter_scheme) option" where
  "tryTiming1 port l = do {
     check (l1_state l = RETRY \<longrightarrow> l1_retryList l \<noteq> []);
     if l1_state l = BUSY \<or> (l1_state l = RETRY \<and> port \<noteq> hd (l1_retryList l))
     then Some (False, l \<lparr>l1_retryList := l1_retryList l @ [port]\<rparr>)
     else Some (True, if l1_state l = IDLE then l \<lparr>l1_state := BUSY\<rparr> else l) }"

definition succeededTiming1 :: "tick \<Rightarrow> tick \<Rightarrow> 'a Arbiter_scheme \<Rightarrow> 'a Arbiter_scheme option" where
  "succeededTiming1 cur busy_time l = do {
     l \<leftarrow> (if l1_state l = RETRY then do {
             check (l1_retryList l \<noteq> []);
             Some (l \<lparr>l1_retryList := tl (l1_retryList l), l1_state := BUSY\<rparr>) }
           else Some l);
     check (l1_state l = BUSY);
     occupyLayer1 cur busy_time l }"

definition failedTiming1 :: "tick \<Rightarrow> nat \<Rightarrow> tick \<Rightarrow> 'a Arbiter_scheme \<Rightarrow> 'a Arbiter_scheme option" where
  "failedTiming1 cur port busy_time l = do {
     check (l1_state l = RETRY \<longrightarrow> l1_retryList l \<noteq> []);
     let l = (if l1_state l \<noteq> RETRY \<or> port \<noteq> hd (l1_retryList l)
              then l \<lparr>l1_retryList := l1_retryList l @ [port]\<rparr> else l);
     occupyLayer1 cur busy_time (l \<lparr>l1_state := BUSY\<rparr>) }"

definition sendTiming1 :: "tick \<Rightarrow> nat \<Rightarrow> Packet \<Rightarrow> bool \<Rightarrow> 'b RRBus_scheme \<Rightarrow> 'a Arbiter_scheme
    \<Rightarrow> (bool \<times> 'a Arbiter_scheme) option" where
  "sendTiming1 cur port pkt ok b l = do {
     (free, l) \<leftarrow> tryTiming1 port l;
     if \<not> free then Some (False, l)
     else do {
       (headerFinishTime, pkt) \<leftarrow> calcPacketTiming1 cur pkt b;
       l \<leftarrow> (if ok then succeededTiming1 cur (finishTime pkt) l
             else failedTiming1 cur port headerFinishTime l);
       Some (ok, l) } }"

fun sendAll1 :: "tick \<Rightarrow> nat \<Rightarrow> (Packet \<times> bool) list \<Rightarrow> 'b RRBus_scheme \<Rightarrow> 'a Arbiter_scheme
    \<Rightarrow> 'a Arbiter_scheme option" where
  "sendAll1 cur port [] b l = Some l"
| "sendAll1 cur port ((pkt, ok) # ps) b l = do {
     (r, l) \<leftarrow> sendTiming1 cur port pkt ok b l;
     sendAll1 cur port ps b l }"

definition retryWaiting1 :: "tick \<Rightarrow> (nat \<Rightarrow> tick \<Rightarrow> (Packet \<times> bool) list) \<Rightarrow> 'b RRBus_scheme
    \<Rightarrow> Layer1 \<Rightarrow> Layer1 option" where
  "retryWaiting1 cur peer b l = do {
     check (l1_retryList l \<noteq> []);
     check (l1_state l = IDLE);
     l \<leftarrow> sendAll1 cur (hd (l1_retryList l)) (peer (hd (l1_retryList l)) cur) b (l \<lparr>l1_state := RETRY\<rparr>);
     if l1_state l = RETRY then do {
       check (l1_retryList l \<noteq> []);
       occupyLayer1 cur (fst (nextCycle cur b) + clock b)
         (l \<lparr>l1_retryList := tl (l1_retryList l), l1_state := BUSY\<rparr>) }
     else Some l }"

definition releaseLayer1 :: "tick \<Rightarrow> (nat \<Rightarrow> tick \<Rightarrow> (Packet \<times> bool) list) \<Rightarrow> 'b RRBus_scheme
    \<Rightarrow> Layer1 \<Rightarrow> Layer1 option" where
  "releaseLayer1 cur peer b l = do {
     check (l1_state l = BUSY);
     check (releaseEvent1 l = None);
     let l = l \<lparr>l1_state := IDLE\<rparr>;
     if l1_retryList l \<noteq> [] then retryWaiting1 cur peer b l else Some (l \<lparr>drainEvent1 := False\<rparr>) }"

definition recvRetry1 :: "tick \<Rightarrow> (nat \<Rightarrow> tick \<Rightarrow> (Packet \<times> bool) list) \<Rightarrow> 'b RRBus_scheme
    \<Rightarrow> Layer1 \<Rightarrow> Layer1 option" where
  "recvRetry1 cur peer b l =
     (if l1_retryList l \<noteq> [] \<and> l1_state l = IDLE then retryWaiting1 cur peer b l else Some l)"

definition drain1 :: "Layer1 \<Rightarrow> nat \<times> Layer1" where
  "drain1 l = (if l1_retryList l \<noteq> [] \<or> l1_state l \<noteq> IDLE then (1, l \<lparr>drainEvent1 := True\<rparr>) else (0, l))"

subsection \<open>The layer with time slots\<close>

record Layer =
  l_state :: "LState list"
  retryList :: "nat list list"
  releaseEvent :: "tick option list"
  retryEvent :: "tick option list"
  drainEvent :: bool
  l_tl :: int
  l_offset :: int

definition Layer_new :: "int \<Rightarrow> int \<Rightarrow> 'a RRBus_scheme \<Rightarrow> Layer" where
  "Layer_new tlen off b = (let n = nat (num_pids b) in
     \<lparr>l_state = replicate n IDLE, retryList = replicate n [], releaseEvent = replicate n None,
      retryEvent = replicate n None, drainEvent = False, l_tl = tlen, l_offset = off\<rparr>)"

definition occupyLayer :: "tick \<Rightarrow> tick \<Rightarrow> nat \<Rightarrow> Layer \<Rightarrow> Layer option" where
  "occupyLayer cur until t l = do {
     st \<leftarrow> at (l_state l) t;
     check (st \<noteq> IDLE);
     check (until \<noteq> 0);
     ev \<leftarrow> at (releaseEvent l) t;
     ev \<leftarrow> schedule cur ev until;
     Some (l \<lparr>releaseEvent := (releaseEvent l)[t := ev]\<rparr>) }"

text \<open>When a domain that is not active is to be retried: the start of its next turn.\<close>

definition retryTime :: "tick \<Rightarrow> nat \<Rightarrow> int \<Rightarrow> int \<Rightarrow> 'a RRBus_scheme \<Rightarrow> tick option" where
  "retryTime cur t tlen off b = do {
     let now = fst (nextCycle cur b);
     rt \<leftarrow> turn_begin cur (int t) tlen off b;
     Some (if rt < now then rt + clock b * of_int (num_pids b) * of_int tlen else rt) }"

definition tryTiming :: "tick \<Rightarrow> nat \<Rightarrow> nat \<Rightarrow> 'a RRBus_scheme \<Rightarrow> Layer \<Rightarrow> (bool \<times> Layer) option" where
  "tryTiming cur port t b l = do {
     rl \<leftarrow> at (retryList l) t;
     act \<leftarrow> active_id cur (l_tl l) (l_offset l) b;
     if act \<noteq> int t then do {
       let l = l \<lparr>retryList := (retryList l)[t := rl @ [port]]\<rparr>;
       rt \<leftarrow> retryTime cur t (l_tl l) (l_offset l) b;
       ev \<leftarrow> at (retryEvent l) t;
       if ev = None then do {
         ev \<leftarrow> schedule cur ev rt;
         Some (False, l \<lparr>retryEvent := (retryEvent l)[t := ev]\<rparr>) }
       else Some (False, l) }
     else do {
       st \<leftarrow> at (l_state l) t;
       check (st = RETRY \<longrightarrow> rl \<noteq> []);
       if st = BUSY \<or> (st = RETRY \<and> port \<noteq> hd rl)
       then Some (False, l \<lparr>retryList := (retryList l)[t := rl @ [port]]\<rparr>)
       else Some (True, if st = IDLE then l \<lparr>l_state := (l_state l)[t := BUSY]\<rparr> else l) } }"

definition succeededTiming :: "tick \<Rightarrow> tick \<Rightarrow> nat \<Rightarrow> Layer \<Rightarrow> Layer option" where
  "succeededTiming cur busy_time t l = do {
     st \<leftarrow> at (l_state l) t;
     l \<leftarrow> (if st = RETRY then do {
             rl \<leftarrow> at (retryList l) t;
             check (rl \<noteq> []);
             Some (l \<lparr>retryList := (retryList l)[t := tl rl], l_state := (l_state l)[t := BUSY]\<rparr>) }
           else Some l);
     st \<leftarrow> at (l_state l) t;
     check (st = BUSY);
     occupyLayer cur busy_time t l }"

definition failedTiming :: "tick \<Rightarrow> nat \<Rightarrow> tick \<Rightarrow> nat \<Rightarrow> Layer \<Rightarrow> Layer option" where
  "failedTiming cur port busy_time t l = do {
     st \<leftarrow> at (l_state l) t;
     rl \<leftarrow> at (retryList l) t;
     check (st = RETRY \<longrightarrow> rl \<noteq> []);
     let l = (if st \<noteq> RETRY \<or> port \<noteq> hd rl
              then l \<lparr>retryList := (retryList l)[t := rl @ [port]]\<rparr> else l);
     occupyLayer cur busy_time t (l \<lparr>l_state := (l_state l)[t := BUSY]\<rparr>) }"

text \<open>
  What a bus does with its layer when a port sends a packet and the destination
  answers \<open>ok\<close>.
\<close>

definition sendTiming :: "tick \<Rightarrow> nat \<Rightarrow> nat \<Rightarrow> Packet \<Rightarrow> bool \<Rightarrow> 'a RRBus_scheme \<Rightarrow> Layer
    \<Rightarrow> (bool \<times> Layer) option" where
  "sendTiming cur port t pkt ok b l = do {
     (free, l) \<leftarrow> tryTiming cur port t b l;
     if \<not> free then Some (False, l)
     else do {
       (headerFinishTime, pkt) \<leftarrow> calcPacketTiming cur pkt (int t) (l_tl l) (l_offset l) b;
       l \<leftarrow> (if ok then succeededTiming cur (finishTime pkt) t l
             else failedTiming cur port headerFinishTime t l);
       Some (ok, l) } }"

fun sendAll :: "tick \<Rightarrow> nat \<Rightarrow> nat \<Rightarrow> (Packet \<times> bool) list \<Rightarrow> 'a RRBus_scheme \<Rightarrow> Layer \<Rightarrow> Layer option" where
  "sendAll cur port t [] b l = Some l"
| "sendAll cur port t ((pkt, ok) # ps) b l = do {
     (r, l) \<leftarrow> sendTiming cur port t pkt ok b l;
     sendAll cur port t ps b l }"

definition retryWaiting :: "tick \<Rightarrow> peer \<Rightarrow> 'a RRBus_scheme \<Rightarrow> Layer \<Rightarrow> Layer option" where
  "retryWaiting cur peer b l = do {
     act \<leftarrow> active_id cur (l_tl l) (l_offset l) b;
     check (0 \<le> act);
     let t = nat act;
     rl \<leftarrow> at (retryList l) t;
     check (rl \<noteq> []);
     st \<leftarrow> at (l_state l) t;
     if st \<noteq> IDLE then Some l
     else do {
       let l = l \<lparr>l_state := (l_state l)[t := RETRY]\<rparr>;
       l \<leftarrow> sendAll cur (hd rl) t (peer (hd rl) t cur) b l;
       st \<leftarrow> at (l_state l) t;
       if st = RETRY then do {
         rl \<leftarrow> at (retryList l) t;
         check (rl \<noteq> []);
         let l = l \<lparr>retryList := (retryList l)[t := tl rl], l_state := (l_state l)[t := BUSY]\<rparr>;
         fin \<leftarrow> calcFinishTime cur act 1 (l_tl l) (l_offset l) b;
         occupyLayer cur fin t l }
       else Some l } }"

definition releaseLayer :: "tick \<Rightarrow> peer \<Rightarrow> 'a RRBus_scheme \<Rightarrow> Layer \<Rightarrow> Layer option" where
  "releaseLayer cur peer b l = do {
     act \<leftarrow> active_id cur (l_tl l) (l_offset l) b;
     check (0 \<le> act);
     let t = nat act;
     st \<leftarrow> at (l_state l) t;
     check (st = BUSY);
     ev \<leftarrow> at (releaseEvent l) t;
     check (ev = None);
     let l = l \<lparr>l_state := (l_state l)[t := IDLE]\<rparr>;
     rl \<leftarrow> at (retryList l) t;
     if rl \<noteq> [] then retryWaiting cur peer b l
     else Some (l \<lparr>drainEvent := False\<rparr>) }"

definition recvRetry :: "tick \<Rightarrow> peer \<Rightarrow> nat \<Rightarrow> 'a RRBus_scheme \<Rightarrow> Layer \<Rightarrow> Layer option" where
  "recvRetry cur peer t b l = do {
     rl \<leftarrow> at (retryList l) t;
     st \<leftarrow> at (l_state l) t;
     if rl = [] then Some l
     else if st = IDLE then retryWaiting cur peer b l else Some l }"

text \<open>\<open>drain\<close> looks at domain 0 only.\<close>

definition drain :: "Layer \<Rightarrow> (nat \<times> Layer) option" where
  "drain l = do {
     rl \<leftarrow> at (retryList l) 0;
     st \<leftarrow> at (l_state l) 0;
     if rl \<noteq> [] \<or> st \<noteq> IDLE then Some (1, l \<lparr>drainEvent := True\<rparr>) else Some (0, l) }"

text \<open>The event loop: a due event is taken off the queue and its handler called.\<close>

definition fireRelease :: "tick \<Rightarrow> peer \<Rightarrow> nat \<Rightarrow> 'a RRBus_scheme \<Rightarrow> Layer \<Rightarrow> Layer option" where
  "fireRelease cur peer t b l = do {
     ev \<leftarrow> at (releaseEvent l) t;
     check (ev = Some cur);
     releaseLayer cur peer b (l \<lparr>releaseEvent := (releaseEvent l)[t := None]\<rparr>) }"

definition fireRetry :: "tick \<Rightarrow> peer \<Rightarrow> nat \<Rightarrow> 'a RRBus_scheme \<Rightarrow> Layer \<Rightarrow> Layer option" where
  "fireRetry cur peer t b l = do {
     ev \<leftarrow> at (retryEvent l) t;
     check (ev = Some cur);
     retryWaiting cur peer b (l \<lparr>retryEvent := (retryEvent l)[t := None]\<rparr>) }"


subsection \<open>One domain of the layer\<close>

text \<open>
  What the layer does for one domain, as a machine of its own: the
  arbiter of an ordinary bus with an event for the start of the next turn.
\<close>

record Domain = Arbiter +
  turnEvent :: "tick option"

definition dom_of :: "nat \<Rightarrow> Layer \<Rightarrow> Domain" where
  "dom_of t l = \<lparr>l1_state = l_state l ! t, l1_retryList = retryList l ! t,
     releaseEvent1 = releaseEvent l ! t, turnEvent = retryEvent l ! t\<rparr>"

definition set_dom :: "nat \<Rightarrow> Domain \<Rightarrow> Layer \<Rightarrow> Layer" where
  "set_dom t d l = l \<lparr>l_state := (l_state l)[t := l1_state d], retryList := (retryList l)[t := l1_retryList d],
     releaseEvent := (releaseEvent l)[t := releaseEvent1 d], retryEvent := (retryEvent l)[t := turnEvent d]\<rparr>"

definition layer_len :: "nat \<Rightarrow> Layer \<Rightarrow> bool" where
  "layer_len n l = (length (l_state l) = n \<and> length (retryList l) = n
     \<and> length (releaseEvent l) = n \<and> length (retryEvent l) = n)"

definition d_try :: "tick \<Rightarrow> nat \<Rightarrow> nat \<Rightarrow> int \<Rightarrow> int \<Rightarrow> 'a RRBus_scheme \<Rightarrow> Domain \<Rightarrow> (bool \<times> Domain) option" where
  "d_try cur port t tlen off b d = do {
     act \<leftarrow> active_id cur tlen off b;
     if act \<noteq> int t then do {
       rt \<leftarrow> retryTime cur t tlen off b;
       let d = d \<lparr>l1_retryList := l1_retryList d @ [port]\<rparr>;
       if turnEvent d = None then do { ev \<leftarrow> schedule cur (turnEvent d) rt; Some (False, d \<lparr>turnEvent := ev\<rparr>) }
       else Some (False, d) }
     else tryTiming1 port d }"

definition d_send :: "tick \<Rightarrow> nat \<Rightarrow> nat \<Rightarrow> Packet \<Rightarrow> bool \<Rightarrow> int \<Rightarrow> int \<Rightarrow> 'a RRBus_scheme \<Rightarrow> Domain
    \<Rightarrow> (bool \<times> Domain) option" where
  "d_send cur port t pkt ok tlen off b d = do {
     (free, d) \<leftarrow> d_try cur port t tlen off b d;
     if \<not> free then Some (False, d)
     else do {
       (headerFinishTime, pkt) \<leftarrow> calcPacketTiming cur pkt (int t) tlen off b;
       d \<leftarrow> (if ok then succeededTiming1 cur (finishTime pkt) d
             else failedTiming1 cur port headerFinishTime d);
       Some (ok, d) } }"

fun d_sendAll :: "tick \<Rightarrow> nat \<Rightarrow> nat \<Rightarrow> (Packet \<times> bool) list \<Rightarrow> int \<Rightarrow> int \<Rightarrow> 'a RRBus_scheme
    \<Rightarrow> Domain \<Rightarrow> Domain option" where
  "d_sendAll cur port t [] tlen off b d = Some d"
| "d_sendAll cur port t ((pkt, ok) # ps) tlen off b d = do {
     (r, d) \<leftarrow> d_send cur port t pkt ok tlen off b d;
     d_sendAll cur port t ps tlen off b d }"

definition d_retry :: "tick \<Rightarrow> peer \<Rightarrow> nat \<Rightarrow> int \<Rightarrow> int \<Rightarrow> 'a RRBus_scheme \<Rightarrow> Domain \<Rightarrow> Domain option" where
  "d_retry cur peer t tlen off b d = do {
     check (l1_retryList d \<noteq> []);
     if l1_state d \<noteq> IDLE then Some d
     else do {
       let p = hd (l1_retryList d);
       d \<leftarrow> d_sendAll cur p t (peer p t cur) tlen off b (d \<lparr>l1_state := RETRY\<rparr>);
       if l1_state d = RETRY then do {
         check (l1_retryList d \<noteq> []);
         fin \<leftarrow> calcFinishTime cur (int t) 1 tlen off b;
         occupyLayer1 cur fin (d \<lparr>l1_retryList := tl (l1_retryList d), l1_state := BUSY\<rparr>) }
       else Some d } }"

definition d_release :: "tick \<Rightarrow> peer \<Rightarrow> nat \<Rightarrow> int \<Rightarrow> int \<Rightarrow> 'a RRBus_scheme \<Rightarrow> Domain \<Rightarrow> Domain option" where
  "d_release cur peer t tlen off b d = do {
     check (l1_state d = BUSY);
     check (releaseEvent1 d = None);
     let d = d \<lparr>l1_state := IDLE\<rparr>;
     if l1_retryList d \<noteq> [] then d_retry cur peer t tlen off b d else Some d }"

subsubsection \<open>Reading and writing one domain\<close>

lemma dom_of_simps [simp]:
  "l1_state (dom_of t l) = l_state l ! t" "l1_retryList (dom_of t l) = retryList l ! t"
  "releaseEvent1 (dom_of t l) = releaseEvent l ! t" "turnEvent (dom_of t l) = retryEvent l ! t"
  by (simp_all add: dom_of_def)

lemma set_dom_simps [simp]:
  "l_state (set_dom t d l) = (l_state l)[t := l1_state d]"
  "retryList (set_dom t d l) = (retryList l)[t := l1_retryList d]"
  "releaseEvent (set_dom t d l) = (releaseEvent l)[t := releaseEvent1 d]"
  "retryEvent (set_dom t d l) = (retryEvent l)[t := turnEvent d]"
  "drainEvent (set_dom t d l) = drainEvent l" "l_tl (set_dom t d l) = l_tl l" "l_offset (set_dom t d l) = l_offset l"
  by (simp_all add: set_dom_def)

lemma layer_len_at [simp]:
  assumes "layer_len n l" and "t < n"
  shows "at (l_state l) t = Some (l_state l ! t)" "at (retryList l) t = Some (retryList l ! t)"
    "at (releaseEvent l) t = Some (releaseEvent l ! t)" "at (retryEvent l) t = Some (retryEvent l ! t)"
  using assms by (simp_all add: layer_len_def)

lemma layer_len_set [simp]: "layer_len n (set_dom t d l) = layer_len n l"
  by (simp add: layer_len_def)

lemma set_dom_of [simp]: "set_dom t (dom_of t l) l = l"
  by (simp add: set_dom_def)

lemma dom_of_set [simp]: "layer_len n l \<Longrightarrow> t < n \<Longrightarrow> dom_of t (set_dom t d l) = d"
  by (simp add: dom_of_def layer_len_def)

lemma dom_of_set_other [simp]: "u \<noteq> t \<Longrightarrow> dom_of u (set_dom t d l) = dom_of u l"
  by (simp add: dom_of_def)

lemma set_dom_set [simp]: "set_dom t d (set_dom t e l) = set_dom t d l"
  by (simp add: set_dom_def)

lemma Domain_eqI:
  "l1_state d = l1_state e \<Longrightarrow> l1_retryList d = l1_retryList e \<Longrightarrow> releaseEvent1 d = releaseEvent1 e
    \<Longrightarrow> turnEvent d = turnEvent e \<Longrightarrow> d = (e :: Domain)"
  by simp

lemma Layer_eq_set_dom:
  assumes "l_state l' = (l_state l)[t := l1_state d]" "retryList l' = (retryList l)[t := l1_retryList d]"
    "releaseEvent l' = (releaseEvent l)[t := releaseEvent1 d]" "retryEvent l' = (retryEvent l)[t := turnEvent d]"
    "drainEvent l' = drainEvent l" "l_tl l' = l_tl l" "l_offset l' = l_offset l"
  shows "l' = set_dom t d l"
  using assms by simp

lemma same_update: "xs ! t = v \<Longrightarrow> xs = xs[t := v]"
  by auto

subsubsection \<open>The layer is its domains\<close>

lemma occupyLayer_dom:
  assumes "layer_len n l" and "t < n"
  shows "occupyLayer cur until t l = map_option (\<lambda>d. set_dom t d l) (occupyLayer1 cur until (dom_of t l))"
  using assms by (auto simp: occupyLayer_def occupyLayer1_def schedule_def intro!: Layer_eq_set_dom)

lemma tryTiming_dom:
  assumes "layer_len n l" and "t < n"
  shows "tryTiming cur port t b l
    = map_option (\<lambda>(r, d). (r, set_dom t d l)) (d_try cur port t (l_tl l) (l_offset l) b (dom_of t l))"
proof (cases "active_id cur (l_tl l) (l_offset l) b")
  case None
  then show ?thesis using assms by (simp add: tryTiming_def d_try_def)
next
  case act: (Some a)
  show ?thesis
  proof (cases "a = int t")
    case True
    then show ?thesis using assms act
      by (simp add: tryTiming_def d_try_def tryTiming1_def)
  next
    case False
    show ?thesis
    proof (cases "retryTime cur t (l_tl l) (l_offset l) b")
      case None
      then show ?thesis using False assms act by (simp add: tryTiming_def d_try_def)
    next
      case (Some rt)
      then show ?thesis using False act assms
        by (auto simp: tryTiming_def d_try_def Let_def schedule_def intro!: Layer_eq_set_dom)
    qed
  qed
qed

lemma succeededTiming_dom:
  assumes "layer_len n l" and "t < n"
  shows "succeededTiming cur busy t l
    = map_option (\<lambda>d. set_dom t d l) (succeededTiming1 cur busy (dom_of t l))"
  using assms
  by (auto simp: succeededTiming_def succeededTiming1_def occupyLayer_def occupyLayer1_def schedule_def
      layer_len_def intro!: Layer_eq_set_dom same_update)

lemma failedTiming_dom:
  assumes "layer_len n l" and "t < n"
  shows "failedTiming cur port busy t l
    = map_option (\<lambda>d. set_dom t d l) (failedTiming1 cur port busy (dom_of t l))"
  using assms
  by (auto simp: failedTiming_def failedTiming1_def occupyLayer_def occupyLayer1_def schedule_def Let_def
      layer_len_def intro!: Layer_eq_set_dom same_update)


lemma sendTiming_dom:
  assumes "layer_len n l" and "t < n"
  shows "sendTiming cur port t pkt ok b l
    = map_option (\<lambda>(r, d). (r, set_dom t d l)) (d_send cur port t pkt ok (l_tl l) (l_offset l) b (dom_of t l))"
proof (cases "d_try cur port t (l_tl l) (l_offset l) b (dom_of t l)")
  case None
  then show ?thesis by (simp add: sendTiming_def d_send_def tryTiming_dom [OF assms])
next
  case (Some rd)
  obtain r d where rd: "rd = (r, d)" by fastforce
  have len: "layer_len n (set_dom t d l)" "dom_of t (set_dom t d l) = d" using assms by simp_all
  show ?thesis
  proof (cases "calcPacketTiming cur pkt (int t) (l_tl l) (l_offset l) b")
    case None
    then show ?thesis
      using Some rd by (simp add: sendTiming_def d_send_def tryTiming_dom [OF assms])
  next
    case timing: (Some hp)
    obtain h q where hp: "hp = (h, q)" by fastforce
    show ?thesis
      using Some rd timing hp
      by (cases "succeededTiming1 cur (finishTime q) d"; cases "failedTiming1 cur port h d")
        (simp_all add: sendTiming_def d_send_def tryTiming_dom [OF assms] succeededTiming_dom [OF len(1) assms(2)]
          failedTiming_dom [OF len(1) assms(2)] len(2))
  qed
qed

lemma sendAll_dom:
  assumes "layer_len n l" and "t < n"
  shows "sendAll cur port t ps b l
    = map_option (\<lambda>d. set_dom t d l) (d_sendAll cur port t ps (l_tl l) (l_offset l) b (dom_of t l))"
  using assms
proof (induction ps arbitrary: l)
  case (Cons q ps)
  obtain pkt ok where q: "q = (pkt, ok)" by fastforce
  have e: "sendTiming cur port t pkt ok b l
    = map_option (\<lambda>(r, d). (r, set_dom t d l)) (d_send cur port t pkt ok (l_tl l) (l_offset l) b (dom_of t l))"
    by (rule sendTiming_dom [OF Cons.prems])
  show ?case
  proof (cases "d_send cur port t pkt ok (l_tl l) (l_offset l) b (dom_of t l)")
    case (Some rd)
    obtain r d where rd: "rd = (r, d)" by fastforce
    have "layer_len n (set_dom t d l)" using Cons.prems by simp
    note ih = Cons.IH [OF this Cons.prems(2)]
    show ?thesis
      using ih Cons.prems by (simp add: q e Some rd option.map_comp comp_def)
  qed (simp add: q e)
qed simp

lemma retryWaiting_dom:
  assumes "layer_len n l" and "t < n" and "active_id cur (l_tl l) (l_offset l) b = Some (int t)"
  shows "retryWaiting cur peer b l
    = map_option (\<lambda>d. set_dom t d l) (d_retry cur peer t (l_tl l) (l_offset l) b (dom_of t l))"
proof (cases "retryList l ! t \<noteq> [] \<and> l_state l ! t = IDLE")
  case True
  define l1 where "l1 = l \<lparr>l_state := (l_state l)[t := RETRY]\<rparr>"
  define p where "p = hd (retryList l ! t)"
  have l1: "layer_len n l1" "dom_of t l1 = (dom_of t l) \<lparr>l1_state := RETRY\<rparr>"
    "l_tl l1 = l_tl l" "l_offset l1 = l_offset l" and set1: "set_dom t d l1 = set_dom t d l" for d
    using assms by (auto simp: l1_def layer_len_def set_dom_def intro: Domain_eqI)
  note sa = sendAll_dom [OF l1(1) assms(2), of cur p "peer p t cur" b, unfolded l1(2-4) set1]
  let ?sa = "d_sendAll cur p t (peer p t cur) (l_tl l) (l_offset l) b ((dom_of t l) \<lparr>l1_state := RETRY\<rparr>)"
  have unf: "retryWaiting cur peer b l = do {
       l \<leftarrow> sendAll cur p t (peer p t cur) b l1;
       st \<leftarrow> at (l_state l) t;
       if st = RETRY then do {
         rl \<leftarrow> at (retryList l) t;
         check (rl \<noteq> []);
         fin \<leftarrow> calcFinishTime cur (int t) 1 (l_tl l) (l_offset l) b;
         occupyLayer cur fin t (l \<lparr>retryList := (retryList l)[t := tl rl], l_state := (l_state l)[t := BUSY]\<rparr>) }
       else Some l }"
    using True assms unfolding retryWaiting_def Let_def by (simp add: l1_def p_def cong: if_cong)
  have unfd: "d_retry cur peer t (l_tl l) (l_offset l) b (dom_of t l) = do {
       d \<leftarrow> ?sa;
       if l1_state d = RETRY then do {
         check (l1_retryList d \<noteq> []);
         fin \<leftarrow> calcFinishTime cur (int t) 1 (l_tl l) (l_offset l) b;
         occupyLayer1 cur fin (d \<lparr>l1_retryList := tl (l1_retryList d), l1_state := BUSY\<rparr>) }
       else Some d }"
    using True by (simp add: d_retry_def Let_def p_def)
  show ?thesis
  proof (cases ?sa)
    case None
    then show ?thesis unfolding unf unfd sa by simp
  next
    case (Some d)
    let ?d = "d \<lparr>l1_retryList := tl (l1_retryList d), l1_state := BUSY\<rparr>"
    have s2: "set_dom t d l \<lparr>retryList := (retryList (set_dom t d l))[t := tl (l1_retryList d)],
        l_state := (l_state (set_dom t d l))[t := BUSY]\<rparr> = set_dom t ?d l"
      by (rule Layer_eq_set_dom) simp_all
    have len: "layer_len n (set_dom t ?d l)" "layer_len n (set_dom t d l)" using assms by simp_all
    have nth: "l_state (set_dom t d l) ! t = l1_state d" "retryList (set_dom t d l) ! t = l1_retryList d"
      using assms by (simp_all add: layer_len_def)
    have occ: "occupyLayer cur fin t (set_dom t ?d l) = map_option (\<lambda>d. set_dom t d l) (occupyLayer1 cur fin ?d)" for fin
      using occupyLayer_dom [OF len(1) assms(2), of cur fin] assms by (simp add: option.map_comp comp_def)
    show ?thesis unfolding unf unfd sa Some
      using layer_len_at [OF len(2) assms(2)] nth s2 occ
      by (cases "calcFinishTime cur (int t) 1 (l_tl l) (l_offset l) b") (simp_all del: set_dom_simps add: set_dom_simps(6,7))
  qed
next
  case False
  then show ?thesis using assms by (auto simp: retryWaiting_def d_retry_def)
qed


lemma drain_simps [simp]:
  "dom_of u (l \<lparr>drainEvent := x\<rparr>) = dom_of u l" "layer_len n (l \<lparr>drainEvent := x\<rparr>) = layer_len n l"
  by (simp_all add: dom_of_def layer_len_def)

lemma releaseLayer_dom:
  assumes "layer_len n l" and "t < n" and "active_id cur (l_tl l) (l_offset l) b = Some (int t)"
  shows "releaseLayer cur peer b l
    = map_option (\<lambda>d. set_dom t d (l \<lparr>drainEvent := drainEvent l \<and> retryList l ! t \<noteq> []\<rparr>))
        (d_release cur peer t (l_tl l) (l_offset l) b (dom_of t l))"
proof (cases "l_state l ! t = BUSY \<and> releaseEvent l ! t = None")
  case True
  define l1 where "l1 = l \<lparr>l_state := (l_state l)[t := IDLE]\<rparr>"
  have l1: "layer_len n l1" "dom_of t l1 = (dom_of t l) \<lparr>l1_state := IDLE\<rparr>"
    "l_tl l1 = l_tl l" "l_offset l1 = l_offset l" and set1: "set_dom t d l1 = set_dom t d l" for d
    using assms by (auto simp: l1_def layer_len_def set_dom_def intro: Domain_eqI)
  have act: "active_id cur (l_tl l1) (l_offset l1) b = Some (int t)" using assms(3) l1 by simp
  have "releaseLayer cur peer b l
    = (if retryList l ! t \<noteq> [] then retryWaiting cur peer b l1 else Some (l1 \<lparr>drainEvent := False\<rparr>))"
    using True assms by (simp add: releaseLayer_def Let_def l1_def)
  moreover have "l1 \<lparr>drainEvent := False\<rparr> = set_dom t (dom_of t l1) (l \<lparr>drainEvent := False\<rparr>)"
    using assms by (intro Layer_eq_set_dom) (simp_all add: l1_def layer_len_def)
  moreover have "l \<lparr>drainEvent := drainEvent l\<rparr> = l" by simp
  ultimately show ?thesis
    using True retryWaiting_dom [OF l1(1) assms(2) act, of peer] l1
    by (simp add: d_release_def Let_def set1)
qed (use assms in \<open>auto simp: releaseLayer_def d_release_def\<close>)

end
