(* ===== verification/Isolation.thy ===== *)
theory Isolation
imports Base_Prelude
begin

text \<open>
  Systems of independent domains.  The interface \<open>independent_domains\<close> is what
  a shared resource has to provide so that its users do not see each
  other: every operation belongs to one domain, works on the part of the
  state that belongs to it the way \<open>dstep\<close> says, and leaves the parts of the
  other domains alone.  From it follows that a legal sequence of operations
  runs without a failure, keeps the invariants, and shows every domain exactly
  what it would see if it were alone.
\<close>

fun exec :: "('o \<Rightarrow> 's \<Rightarrow> ('r \<times> 's) option) \<Rightarrow> ('o \<Rightarrow> 'd) \<Rightarrow> 'o list \<Rightarrow> 's \<Rightarrow> (('d \<times> 'r) list \<times> 's) option" where
  "exec step who [] s = Some ([], s)"
| "exec step who (x # xs) s = do {
     (r, s) \<leftarrow> step x s;
     (out, s) \<leftarrow> exec step who xs s;
     Some ((who x, r) # out, s) }"

text \<open>A sequence is legal when every operation meets its guard and no operation is in the past.\<close>

fun legal :: "('o \<Rightarrow> 's \<Rightarrow> ('r \<times> 's) option) \<Rightarrow> ('o \<Rightarrow> 's \<Rightarrow> bool) \<Rightarrow> ('o \<Rightarrow> nat) \<Rightarrow> nat \<Rightarrow> 'o list \<Rightarrow> 's \<Rightarrow> bool" where
  "legal step g time k [] s = True"
| "legal step g time k (x # xs) s =
     (k \<le> time x \<and> g x s \<and> (case step x s of None \<Rightarrow> True | Some (r, s') \<Rightarrow> legal step g time (time x) xs s'))"

locale independent_domains =
  fixes step :: "'o \<Rightarrow> 's \<Rightarrow> ('r \<times> 's) option"
    and who :: "'o \<Rightarrow> 'd" and get :: "'d \<Rightarrow> 's \<Rightarrow> 'v" and time :: "'o \<Rightarrow> nat"
    and guard :: "'o \<Rightarrow> 'v \<Rightarrow> bool" and inv :: "nat \<Rightarrow> 'd \<Rightarrow> 'v \<Rightarrow> bool"
    and dstep :: "'o \<Rightarrow> 'v \<Rightarrow> ('r \<times> 'v) option" and good :: "'s \<Rightarrow> bool" and doms :: "'d set"
  assumes inv_mono: "inv k d v \<Longrightarrow> k \<le> k' \<Longrightarrow> inv k' d v"
    and guard_dom: "guard x v \<Longrightarrow> who x \<in> doms"
    and step_local: "good s \<Longrightarrow> inv k (who x) (get (who x) s) \<Longrightarrow> k \<le> time x \<Longrightarrow> guard x (get (who x) s)
      \<Longrightarrow> \<exists>r s'. step x s = Some (r, s') \<and> good s' \<and> dstep x (get (who x) s) = Some (r, get (who x) s')
        \<and> inv (time x) (who x) (get (who x) s') \<and> (\<forall>u. u \<noteq> who x \<longrightarrow> get u s' = get u s)"
begin

abbreviation guarded :: "'o \<Rightarrow> 's \<Rightarrow> bool" where
  "guarded x s \<equiv> guard x (get (who x) s)"

lemma inv_step:
  assumes "\<forall>u \<in> doms. inv k u (get u s)" and "k \<le> time x" and "inv (time x) (who x) (get (who x) s1)"
    and "\<forall>u. u \<noteq> who x \<longrightarrow> get u s1 = get u s"
  shows "\<forall>u \<in> doms. inv (time x) u (get u s1)"
proof
  fix u assume "u \<in> doms"
  then have "inv (time x) u (get u s)" using assms(1,2) inv_mono by blast
  then show "inv (time x) u (get u s1)" using assms(3,4) by (cases "u = who x") simp_all
qed

lemma exec_safe:
  assumes "good s" and "\<forall>u \<in> doms. inv k u (get u s)" and "legal step guarded time k xs s"
  shows "\<exists>out s'. exec step who xs s = Some (out, s') \<and> good s'
    \<and> (\<forall>u \<in> doms. inv (foldl (\<lambda>_. time) k xs) u (get u s'))"
  using assms
proof (induction xs arbitrary: s k)
  case (Cons x xs)
  have k: "k \<le> time x" and g: "guarded x s" using Cons.prems(3) by simp_all
  have i: "inv k (who x) (get (who x) s)" using Cons.prems(2) guard_dom [OF g] by blast
  obtain r s1 where s1: "step x s = Some (r, s1)" "good s1" "inv (time x) (who x) (get (who x) s1)"
    "\<forall>u. u \<noteq> who x \<longrightarrow> get u s1 = get u s"
    using step_local [OF Cons.prems(1) i k g] by blast
  have "\<forall>u \<in> doms. inv (time x) u (get u s1)"
    by (rule inv_step [OF Cons.prems(2) k s1(3,4)])
  moreover have "legal step guarded time (time x) xs s1" using Cons.prems(3) s1(1) by simp
  ultimately obtain out s' where "exec step who xs s1 = Some (out, s')" "good s'"
    "\<forall>u \<in> doms. inv (foldl (\<lambda>_. time) (time x) xs) u (get u s')"
    using Cons.IH [OF s1(2)] by blast
  then show ?case using s1(1) by (intro exI [of _ "(who x, r) # out"] exI [of _ s']) simp
qed auto

lemma exec_isolated:
  assumes "good s" and "\<forall>u \<in> doms. inv k u (get u s)" and "legal step guarded time k xs s"
    and "exec step who xs s = Some (out, s')" and "good s0" and "u \<in> doms" and "get u s0 = get u s"
  shows "\<exists>s0'. exec step who (filter (\<lambda>x. who x = u) xs) s0 = Some (filter (\<lambda>y. fst y = u) out, s0')
    \<and> get u s0' = get u s'"
  using assms
proof (induction xs arbitrary: s s0 k out)
  case (Cons x xs)
  have k: "k \<le> time x" and g: "guarded x s" using Cons.prems(3) by simp_all
  have i: "inv k (who x) (get (who x) s)" using Cons.prems(2) guard_dom [OF g] by blast
  obtain r s1 where s1: "step x s = Some (r, s1)" "good s1" "dstep x (get (who x) s) = Some (r, get (who x) s1)"
    "inv (time x) (who x) (get (who x) s1)" "\<forall>u. u \<noteq> who x \<longrightarrow> get u s1 = get u s"
    using step_local [OF Cons.prems(1) i k g] by blast
  have inv1: "\<forall>u \<in> doms. inv (time x) u (get u s1)"
    by (rule inv_step [OF Cons.prems(2) k s1(4,5)])
  have leg: "legal step guarded time (time x) xs s1" using Cons.prems(3) s1(1) by simp
  obtain out1 where o1: "exec step who xs s1 = Some (out1, s')" "out = (who x, r) # out1"
    using Cons.prems(4) s1(1) by (auto simp: bind_eq_Some)
  show ?case
  proof (cases "who x = u")
    case False
    then have "get u s0 = get u s1" using s1(5) Cons.prems(7) by simp
    then show ?thesis
      using Cons.IH [OF s1(2) inv1 leg o1(1) Cons.prems(5,6)] False o1(2) by simp
  next
    case True
    have e: "get (who x) s0 = get (who x) s" using True Cons.prems(7) by simp
    obtain r0 s2 where s2: "step x s0 = Some (r0, s2)" "good s2" "dstep x (get (who x) s0) = Some (r0, get (who x) s2)"
      using step_local [OF Cons.prems(5), of k x] i k g unfolding e by blast
    have "r0 = r" "get u s2 = get u s1" using s2(3) s1(3) e True by simp_all
    then show ?thesis
      using Cons.IH [OF s1(2) inv1 leg o1(1) s2(2) Cons.prems(6)] s2(1) True o1(2) by auto
  qed
qed simp

end

end
