(* ===== verification/RR_Machine.thy ===== *)
theory RR_Machine
imports RR_Layer Isolation
begin

text \<open>
  The round-robin layer as a state machine: what keeps every domain of a
  layer going, that its assertions never fail, and that the domains do not
  see each other.

  Every operation is one packet sent by a port, or the event queue calling the
  handler of a due event.  The guard of an operation says what the event queue
  guarantees: time does not run backwards, no event is left behind, an event
  fires at its tick, and of two events at the same tick the one scheduled
  later fires first (\<open>EventQueue::insert\<close> puts it on top), so the start of a
  turn precedes the end of a transfer at the same tick.  \<open>N\<close> bounds the
  bus cycles of a packet, and \<open>room\<close> keeps the ticks below the wrap-around.
\<close>

definition room :: "nat \<Rightarrow> tick \<Rightarrow> int \<Rightarrow> int \<Rightarrow> 'a RRBus_scheme \<Rightarrow> bool" where
  "room N cur tlen off b = (nat off \<le> edge_cycle (unat (clock b)) (unat cur)
     \<and> (edge_cycle (unat (clock b)) (unat cur) + (N + 1) * (nat (num_pids b) * nat tlen) + 2) * unat (clock b) < 2 ^ 64)"

definition rr_pkt_ok :: "nat \<Rightarrow> 'a RRBus_scheme \<Rightarrow> Packet \<Rightarrow> bool" where
  "rr_pkt_ok N b pkt = (case data_cycles pkt b of None \<Rightarrow> False
     | Some n \<Rightarrow> 0 \<le> n \<and> headerCycles b + n \<le> int N)"

definition bus_ok :: "nat \<Rightarrow> int \<Rightarrow> int \<Rightarrow> 'a RRBus_scheme \<Rightarrow> bool" where
  "bus_ok N tlen off b = (slots_ok tlen off b \<and> 0 < headerCycles b \<and> headerCycles b \<le> int N)"

text \<open>A tick that is a slot of domain \<open>t\<close>, and one that lies after the present cycle.\<close>

definition own_tick :: "nat \<Rightarrow> nat \<Rightarrow> tick \<Rightarrow> int \<Rightarrow> int \<Rightarrow> 'a RRBus_scheme \<Rightarrow> bool" where
  "own_tick t f w tlen off b = (w = cycle_tick f off b \<and> (f + nat off + 2) * unat (clock b) < 2 ^ 64
     \<and> owner (nat (num_pids b)) (nat tlen) f = t)"

lemma room_in_time: "room N cur tlen off b \<Longrightarrow> slots_ok tlen off b \<Longrightarrow> in_time cur off b"
proof -
  assume r: "room N cur tlen off b" and ok: "slots_ok tlen off b"
  let ?p = "unat (clock b)" and ?e = "edge_cycle (unat (clock b)) (unat cur)"
  have "unat cur + 2 * ?p \<le> (?e + (N + 1) * (nat (num_pids b) * nat tlen) + 2) * ?p"
    using edge_cycle_bounds(1) [OF slots_okD(1) [OF ok], of "unat cur"] by (simp add: add_mult_distrib)
  then show "in_time cur off b" using r by (auto simp: room_def in_time_def)
qed

lemma room_small:
  assumes "room N cur tlen off b" and "f \<le> cyc cur off b + (N + 1) * (nat (num_pids b) * nat tlen)"
  shows "(f + nat off + 2) * unat (clock b) < 2 ^ 64"
proof -
  let ?e = "edge_cycle (unat (clock b)) (unat cur)" and ?L = "nat (num_pids b) * nat tlen"
  have "f + nat off + 2 \<le> ?e + (N + 1) * ?L + 2"
    using assms(2) conjunct1 [OF assms(1) [unfolded room_def]] unfolding cyc_def by linarith
  then have "(f + nat off + 2) * unat (clock b) \<le> (?e + (N + 1) * ?L + 2) * unat (clock b)"
    by (rule mult_le_mono1)
  then show ?thesis using assms(1) unfolding room_def by linarith
qed

lemma own_tick_active:
  "slots_ok tlen off b \<Longrightarrow> own_tick t f w tlen off b
    \<Longrightarrow> active_id w tlen off b = Some (int t) \<and> cyc w off b = f"
  by (auto simp: own_tick_def cycle_tick_turn)

lemma own_tick_later:
  assumes "slots_ok tlen off b" and "room N cur tlen off b" and "own_tick t f w tlen off b"
    and "cyc cur off b < f"
  shows "cur \<le> w" and "w \<noteq> 0"
proof -
  have s: "(f + nat off + 2) * unat (clock b) < 2 ^ 64" "w = cycle_tick f off b"
    using assms(3) by (simp_all add: own_tick_def)
  show "cur \<le> w" using cur_le_cycle_tick_iff [OF assms(1) s(1), of cur] assms(2,4)
    by (simp add: s(2) room_def)
  show "w \<noteq> 0"
    using cycle_tick_turn(1) [OF assms(1) s(1)] assms(4) slots_okD(1) [OF assms(1)]
    by (auto simp: s(2) dest: arg_cong [of _ _ unat])
qed

lemma calcFinishTime_own:
  assumes ok: "slots_ok tlen off b" and room: "room N cur tlen off b"
    and act: "active_id cur tlen off b = Some (int t)" and ds: "0 < ds" "ds \<le> int N + 1"
  shows "\<exists>w f. calcFinishTime cur (int t) ds tlen off b = Some w \<and> own_tick t f w tlen off b \<and> cyc cur off b < f"
proof -
  let ?P = "nat (num_pids b)" and ?T = "nat tlen"
  have T: "0 < ?T" and P: "0 < ?P" using slots_okD [OF ok] by simp_all
  have it: "in_time cur off b" by (rule room_in_time [OF room ok])
  have t: "t = turn_of cur tlen off b" using act active_id_turn [OF ok it] by simp
  have tP: "t < ?P" using turn_position(3) [OF ok] by (simp add: t turn_of_def)
  let ?i = "slot_index ?P ?T (cyc cur off b)"
  let ?f = "own_slot ?P ?T t (?i + nat ds)"
  have x: "own_slot ?P ?T t ?i = cyc cur off b"
    using own_slot_index [OF T P, of "cyc cur off b"] by (simp add: t turn_of_def)
  have "?f \<le> own_slot ?P ?T t ?i + nat ds * (?P * ?T)" by (rule own_slot_bound [OF T P])
  also have "\<dots> \<le> cyc cur off b + (N + 1) * (?P * ?T)"
    unfolding x using ds by (intro add_left_mono mult_le_mono1) simp
  finally have "own_tick t ?f (cycle_tick ?f off b) tlen off b"
    using room_small [OF room] tP T by (simp add: own_tick_def)
  moreover have "cyc cur off b < ?f"
    using strict_mono_less [OF own_slot_strict_mono [OF T P, of t], of ?i "?i + nat ds"] ds x by simp
  ultimately show ?thesis using calcFinishTime_slot [OF ok it t] ds by auto
qed

lemma calcPacketTiming_own:
  assumes "bus_ok N tlen off b" and "room N cur tlen off b"
    and "active_id cur tlen off b = Some (int t)" and "rr_pkt_ok N b pkt"
  shows "\<exists>h q f g. calcPacketTiming cur pkt (int t) tlen off b = Some (h, q)
    \<and> own_tick t f h tlen off b \<and> cyc cur off b < f
    \<and> own_tick t g (finishTime q) tlen off b \<and> cyc cur off b < g"
proof -
  obtain n where n: "data_cycles pkt b = Some n" "0 \<le> n" "headerCycles b + n \<le> int N"
    using assms(4) by (auto simp: rr_pkt_ok_def split: option.splits)
  have ok: "slots_ok tlen off b" and h: "0 < headerCycles b" "headerCycles b \<le> int N"
    using assms(1) by (simp_all add: bus_ok_def)
  note F = calcFinishTime_own [OF ok assms(2,3)]
  obtain w1 f1 where "calcFinishTime cur (int t) (headerCycles b) tlen off b = Some w1"
    "own_tick t f1 w1 tlen off b" "cyc cur off b < f1" using F [of "headerCycles b"] h by auto
  moreover obtain w2 where "calcFinishTime cur (int t) (headerCycles b + 1) tlen off b = Some w2"
    using F [of "headerCycles b + 1"] h by auto
  moreover obtain w3 f3 where "calcFinishTime cur (int t) (headerCycles b + n) tlen off b = Some w3"
    "own_tick t f3 w3 tlen off b" "cyc cur off b < f3" using F [of "headerCycles b + n"] h n by auto
  ultimately show ?thesis using n(1)
    by (intro exI [of _ w1] exI [of _ "pkt \<lparr>firstWordTime := w2, finishTime := w3\<rparr>"] exI [of _ f1] exI [of _ f3])
      (simp add: calcPacketTiming_def)
qed

lemma retryTime_own:
  assumes ok: "slots_ok tlen off b" and room: "room N cur tlen off b"
    and t: "t < nat (num_pids b)" and act: "active_id cur tlen off b \<noteq> Some (int t)"
  defines "f \<equiv> next_turn (nat (num_pids b)) (nat tlen) t (cyc cur off b)"
  shows "retryTime cur t tlen off b = Some (cycle_tick f off b)" and "own_tick t f (cycle_tick f off b) tlen off b"
    and "cur \<le> cycle_tick f off b"
proof -
  let ?P = "nat (num_pids b)" and ?T = "nat tlen" and ?x = "cyc cur off b" and ?p = "unat (clock b)"
  let ?L = "?P * ?T" let ?s = "?x div ?L * ?L + t * ?T"
  have T: "0 < ?T" using slots_okD [OF ok] by simp
  have it: "in_time cur off b" by (rule room_in_time [OF room ok])
  have "owner ?P ?T ?x \<noteq> t" using act active_id_turn [OF ok it] by (simp add: turn_of_def)
  note nt = next_turn_first [OF T t this, folded f_def]
  have fL: "f \<le> ?x + (N + 1) * ?L" using nt(2) by simp
  note small = room_small [OF room fL]
  have sf: "f = (if ?s < ?x then ?s + ?L else ?s)" by (simp add: f_def next_turn_def Let_def)
  have s_small: "(?s + nat off + 2) * ?p < 2 ^ 64"
    by (rule room_small [OF room]) (use sf fL in \<open>auto split: if_splits\<close>)
  have now: "fst (nextCycle cur b) = cycle_tick ?x off b"
    using now_shifted(1) [OF ok it] tick_sum [OF ok, of 0 ?x] by (simp add: algebra_simps)
  have x_small: "(?x + nat off + 2) * ?p < 2 ^ 64" by (rule room_small [OF room]) simp
  have "cycle_tick ?s off b < cycle_tick ?x off b \<longleftrightarrow> (?s + nat off) * ?p < (?x + nat off) * ?p"
    by (simp only: word_less_nat_alt cycle_tick_turn(1) [OF ok s_small] cycle_tick_turn(1) [OF ok x_small])
  then have lt: "cycle_tick ?s off b < cycle_tick ?x off b \<longleftrightarrow> ?s < ?x"
    using slots_okD(1) [OF ok] by simp
  have pd: "of_int (num_pids b) = (of_nat ?P :: tick)" "of_int tlen = (of_nat ?T :: tick)"
    using slots_okD [OF ok] by simp_all
  have "cycle_tick ?s off b + clock b * of_int (num_pids b) * of_int tlen = cycle_tick (?s + ?L) off b"
    unfolding pd cycle_tick_def by (simp add: algebra_simps)
  then show "retryTime cur t tlen off b = Some (cycle_tick f off b)"
    using turn_begin_slot [OF ok it, of "int t"]
    by (simp add: retryTime_def now lt sf)
  show "own_tick t f (cycle_tick f off b) tlen off b" using small nt(3) by (simp add: own_tick_def)
  show "cur \<le> cycle_tick f off b"
    using cur_le_cycle_tick_iff [OF ok small, of cur] nt(1) room by (simp add: room_def)
qed


subsection \<open>The invariant of a domain\<close>

text \<open>
  Between operations a domain is idle or busy, and it is busy exactly while the
  end of a transfer is scheduled, for one of its own slots.  A scheduled start
  of turn is the domain's first slot from cycle \<open>k\<close> on, and somebody waits for
  it.  Whenever a port waits, one of the two events is scheduled: no retry is
  lost.
\<close>

definition first_slot :: "nat \<Rightarrow> nat \<Rightarrow> nat \<Rightarrow> int \<Rightarrow> 'a RRBus_scheme \<Rightarrow> bool" where
  "first_slot k t f tlen b = (\<forall>g. k \<le> g \<and> owner (nat (num_pids b)) (nat tlen) g = t \<longrightarrow> f \<le> g)"

definition d_inv :: "nat \<Rightarrow> nat \<Rightarrow> int \<Rightarrow> int \<Rightarrow> 'a RRBus_scheme \<Rightarrow> Domain \<Rightarrow> bool" where
  "d_inv k t tlen off b d =
     (l1_state d \<noteq> RETRY \<and> (l1_state d = BUSY \<longleftrightarrow> releaseEvent1 d \<noteq> None)
      \<and> (\<forall>w. releaseEvent1 d = Some w \<longrightarrow> (\<exists>f. own_tick t f w tlen off b))
      \<and> (\<forall>w. turnEvent d = Some w \<longrightarrow> (\<exists>f. own_tick t f w tlen off b \<and> first_slot k t f tlen b))
      \<and> (turnEvent d \<noteq> None \<longrightarrow> l1_retryList d \<noteq> [])
      \<and> (l1_retryList d \<noteq> [] \<longrightarrow> l1_state d = BUSY \<or> turnEvent d \<noteq> None))"

definition on_time :: "tick \<Rightarrow> Domain \<Rightarrow> bool" where
  "on_time cur d = ((\<forall>w. releaseEvent1 d = Some w \<longrightarrow> cur \<le> w) \<and> (\<forall>w. turnEvent d = Some w \<longrightarrow> cur \<le> w))"

lemma d_inv_mono: "d_inv k t tlen off b d \<Longrightarrow> k \<le> k' \<Longrightarrow> d_inv k' t tlen off b d"
  unfolding d_inv_def first_slot_def by (meson order_trans)

lemma d_try_waiting:
  assumes ok: "slots_ok tlen off b" and room: "room N cur tlen off b" and t: "t < nat (num_pids b)"
    and act: "active_id cur tlen off b \<noteq> Some (int t)" and inv: "d_inv (cyc cur off b) t tlen off b d"
  shows "\<exists>d'. d_try cur port t tlen off b d = Some (False, d') \<and> d_inv (cyc cur off b) t tlen off b d'"
proof -
  let ?f = "next_turn (nat (num_pids b)) (nat tlen) t (cyc cur off b)"
  have it: "in_time cur off b" by (rule room_in_time [OF room ok])
  note rt = retryTime_own [OF ok room t act]
  have "owner (nat (num_pids b)) (nat tlen) (cyc cur off b) \<noteq> t"
    using act active_id_turn [OF ok it] by (simp add: turn_of_def)
  then have first: "first_slot (cyc cur off b) t ?f tlen b"
    using next_turn_first(4) [OF slots_okD(5) [OF ok] t] unfolding first_slot_def by blast
  obtain a where a: "active_id cur tlen off b = Some a" "a \<noteq> int t"
    using act active_id_turn [OF ok it] by auto
  show ?thesis
  proof (cases "turnEvent d")
    case None
    define d' where "d' = d \<lparr>l1_retryList := l1_retryList d @ [port], turnEvent := Some (cycle_tick ?f off b)\<rparr>"
    have "d_try cur port t tlen off b d = Some (False, d')"
      using a None rt by (simp add: d_try_def d'_def schedule_def)
    moreover have "d_inv (cyc cur off b) t tlen off b d'"
      using inv rt(2) first unfolding d_inv_def by (auto simp: d'_def)
    ultimately show ?thesis by blast
  next
    case (Some w)
    then show ?thesis
      using a rt inv by (intro exI [of _ "d \<lparr>l1_retryList := l1_retryList d @ [port]\<rparr>"])
        (auto simp: d_try_def schedule_def d_inv_def)
  qed
qed

text \<open>Occupying a domain that has no end of transfer scheduled yet.\<close>

lemma occupy_own:
  assumes "slots_ok tlen off b" and "room N cur tlen off b" and "own_tick t f w tlen off b"
    and "cyc cur off b < f" and "releaseEvent1 d = None" and "l1_state d = BUSY"
  shows "occupyLayer1 cur w d = Some (d \<lparr>releaseEvent1 := Some w\<rparr>)"
  using assms(5,6) own_tick_later [OF assms(1-4)] by (simp add: occupyLayer1_def schedule_def)

lemma d_send_active:
  assumes ok: "bus_ok N tlen off b" and room: "room N cur tlen off b"
    and act: "active_id cur tlen off b = Some (int t)" and pkt: "rr_pkt_ok N b pkt"
    and inv: "d_inv (cyc cur off b) t tlen off b d"
  shows "\<exists>r d'. d_send cur port t pkt ok' tlen off b d = Some (r, d')
    \<and> d_inv (cyc cur off b) t tlen off b d' \<and> l1_state d' = BUSY \<and> turnEvent d' = turnEvent d"
proof (cases "l1_state d = BUSY")
  case True
  then show ?thesis using act inv
    by (intro exI [of _ False] exI [of _ "d \<lparr>l1_retryList := l1_retryList d @ [port]\<rparr>"])
      (auto simp: d_send_def d_try_def tryTiming1_def d_inv_def)
next
  case False
  then have idle: "l1_state d = IDLE" "releaseEvent1 d = None"
    using inv by (cases "l1_state d"; auto simp: d_inv_def)+
  have sl: "slots_ok tlen off b" using ok by (simp add: bus_ok_def)
  obtain h q f g where ct: "calcPacketTiming cur pkt (int t) tlen off b = Some (h, q)"
    and h: "own_tick t f h tlen off b" "cyc cur off b < f"
    and q: "own_tick t g (finishTime q) tlen off b" "cyc cur off b < g"
    using calcPacketTiming_own [OF ok room act pkt] by blast
  let ?s = "d \<lparr>l1_state := BUSY, releaseEvent1 := Some (finishTime q)\<rparr>"
  let ?u = "d \<lparr>l1_retryList := l1_retryList d @ [port], l1_state := BUSY, releaseEvent1 := Some h\<rparr>"
  have "d_send cur port t pkt ok' tlen off b d = Some (ok', if ok' then ?s else ?u)"
    using act idle ct occupy_own [OF sl room q, of "d \<lparr>l1_state := BUSY\<rparr>"]
      occupy_own [OF sl room h, of "d \<lparr>l1_retryList := l1_retryList d @ [port], l1_state := BUSY\<rparr>"]
    by (simp add: d_send_def d_try_def tryTiming1_def succeededTiming1_def failedTiming1_def)
  moreover have "d_inv (cyc cur off b) t tlen off b ?s" "d_inv (cyc cur off b) t tlen off b ?u"
    using inv h q by (auto simp: d_inv_def)
  ultimately show ?thesis by auto
qed

text \<open>The first packet that the retried port sends takes the grant.\<close>

lemma d_send_retry:
  assumes ok: "bus_ok N tlen off b" and room: "room N cur tlen off b"
    and act: "active_id cur tlen off b = Some (int t)" and pkt: "rr_pkt_ok N b pkt"
    and mid: "l1_state d = RETRY" "releaseEvent1 d = None" "turnEvent d = None" "l1_retryList d = port # ps"
  shows "\<exists>r d'. d_send cur port t pkt ok' tlen off b d = Some (r, d')
    \<and> d_inv (cyc cur off b) t tlen off b d' \<and> l1_state d' = BUSY \<and> turnEvent d' = None"
proof -
  have sl: "slots_ok tlen off b" using ok by (simp add: bus_ok_def)
  obtain h q f g where ct: "calcPacketTiming cur pkt (int t) tlen off b = Some (h, q)"
    and h: "own_tick t f h tlen off b" "cyc cur off b < f"
    and q: "own_tick t g (finishTime q) tlen off b" "cyc cur off b < g"
    using calcPacketTiming_own [OF ok room act pkt] by blast
  let ?s = "d \<lparr>l1_state := BUSY, l1_retryList := ps, releaseEvent1 := Some (finishTime q)\<rparr>"
  let ?u = "d \<lparr>l1_state := BUSY, releaseEvent1 := Some h\<rparr>"
  have "d_send cur port t pkt ok' tlen off b d = Some (ok', if ok' then ?s else ?u)"
    using act mid ct occupy_own [OF sl room q, of "d \<lparr>l1_retryList := ps, l1_state := BUSY\<rparr>"]
      occupy_own [OF sl room h, of "d \<lparr>l1_state := BUSY\<rparr>"]
    by (simp add: d_send_def d_try_def tryTiming1_def succeededTiming1_def failedTiming1_def)
  moreover have "d_inv (cyc cur off b) t tlen off b ?s" "d_inv (cyc cur off b) t tlen off b ?u"
    using mid h q by (auto simp: d_inv_def)
  ultimately show ?thesis using mid by auto
qed

lemma d_sendAll_active:
  assumes "bus_ok N tlen off b" and "room N cur tlen off b"
    and "active_id cur tlen off b = Some (int t)" and "\<forall>(q, a) \<in> set ps. rr_pkt_ok N b q"
    and "d_inv (cyc cur off b) t tlen off b d" and "l1_state d = BUSY"
  shows "\<exists>d'. d_sendAll cur port t ps tlen off b d = Some d'
    \<and> d_inv (cyc cur off b) t tlen off b d' \<and> l1_state d' = BUSY \<and> turnEvent d' = turnEvent d"
  using assms(4-6)
proof (induction ps arbitrary: d)
  case (Cons x ps)
  obtain q a where x: "x = (q, a)" by fastforce
  obtain r d1 where d1: "d_send cur port t q a tlen off b d = Some (r, d1)"
    "d_inv (cyc cur off b) t tlen off b d1" "l1_state d1 = BUSY" "turnEvent d1 = turnEvent d"
    using d_send_active [OF assms(1-3) _ Cons.prems(2), of q port a] Cons.prems(1) x by auto
  have "\<forall>(q, a) \<in> set ps. rr_pkt_ok N b q" using Cons.prems(1) by simp
  then show ?case using Cons.IH [OF _ d1(2,3)] d1(1,4) x by simp
qed simp

lemma d_retry_ok:
  assumes ok: "bus_ok N tlen off b" and room: "room N cur tlen off b"
    and act: "active_id cur tlen off b = Some (int t)"
    and peer: "\<forall>p. \<forall>(q, a) \<in> set (peer p t cur). rr_pkt_ok N b q"
    and d: "turnEvent d = None" "l1_retryList d \<noteq> []" "l1_state d \<noteq> RETRY"
      "l1_state d = BUSY \<longleftrightarrow> releaseEvent1 d \<noteq> None"
      "\<forall>w. releaseEvent1 d = Some w \<longrightarrow> (\<exists>f. own_tick t f w tlen off b)"
  shows "\<exists>d'. d_retry cur peer t tlen off b d = Some d'
    \<and> d_inv (cyc cur off b) t tlen off b d' \<and> l1_state d' = BUSY"
proof (cases "l1_state d = IDLE")
  case False
  then have "l1_state d = BUSY" using d(3) by (cases "l1_state d") auto
  then show ?thesis using d by (simp add: d_retry_def d_inv_def)
next
  case True
  have sl: "slots_ok tlen off b" using ok by (simp add: bus_ok_def)
  obtain p ps where p: "l1_retryList d = p # ps" using d(2) by (cases "l1_retryList d") auto
  let ?d = "d \<lparr>l1_state := RETRY\<rparr>"
  have mid: "l1_state ?d = RETRY" "releaseEvent1 ?d = None" "turnEvent ?d = None" "l1_retryList ?d = p # ps"
    using True d p by auto
  show ?thesis
  proof (cases "peer p t cur")
    case Nil
    obtain w f where w: "calcFinishTime cur (int t) 1 tlen off b = Some w" "own_tick t f w tlen off b" "cyc cur off b < f"
      using calcFinishTime_own [OF sl room act, of 1] by auto
    let ?e = "d \<lparr>l1_retryList := ps, l1_state := BUSY\<rparr>"
    have "releaseEvent1 ?e = None" "l1_state ?e = BUSY" using True d(4) by auto
    then have "d_retry cur peer t tlen off b d = Some (?e \<lparr>releaseEvent1 := Some w\<rparr>)"
      using True Nil p w occupy_own [OF sl room w(2,3), of ?e] by (simp add: d_retry_def)
    moreover have "d_inv (cyc cur off b) t tlen off b (?e \<lparr>releaseEvent1 := Some w\<rparr>)"
      using w d(1) by (auto simp: d_inv_def)
    ultimately show ?thesis by simp
  next
    case (Cons x xs)
    obtain q a where x: "x = (q, a)" by fastforce
    have xs: "rr_pkt_ok N b q" "\<forall>(q, a) \<in> set xs. rr_pkt_ok N b q" using spec [OF peer, of p] Cons x by auto
    obtain r d1 where d1: "d_send cur p t q a tlen off b ?d = Some (r, d1)"
      "d_inv (cyc cur off b) t tlen off b d1" "l1_state d1 = BUSY"
      using d_send_retry [OF ok room act xs(1) mid] by blast
    obtain d2 where "d_sendAll cur p t xs tlen off b d1 = Some d2"
      "d_inv (cyc cur off b) t tlen off b d2" "l1_state d2 = BUSY"
      using d_sendAll_active [OF ok room act xs(2) d1(2,3)] by blast
    then show ?thesis using True p Cons x d1(1) by (simp add: d_retry_def)
  qed
qed


subsection \<open>Operations and guards\<close>

datatype rr_op = Send nat nat Packet bool | Release nat | Turn nat

fun op_dom :: "rr_op \<Rightarrow> nat" where
  "op_dom (Send p t q a) = t"
| "op_dom (Release t) = t"
| "op_dom (Turn t) = t"

text \<open>One operation at a tick; the answer to a sender is an observation of its domain.\<close>

fun rr_step :: "peer \<Rightarrow> 'a RRBus_scheme \<Rightarrow> tick \<times> rr_op \<Rightarrow> Layer \<Rightarrow> (bool option \<times> Layer) option" where
  "rr_step peer b (cur, Send p t q a) l = map_option (\<lambda>(r, l). (Some r, l)) (sendTiming cur p t q a b l)"
| "rr_step peer b (cur, Release t) l = map_option (Pair None) (fireRelease cur peer t b l)"
| "rr_step peer b (cur, Turn t) l = map_option (Pair None) (fireRetry cur peer t b l)"

fun d_step :: "peer \<Rightarrow> int \<Rightarrow> int \<Rightarrow> 'a RRBus_scheme \<Rightarrow> tick \<times> rr_op \<Rightarrow> Domain \<Rightarrow> (bool option \<times> Domain) option" where
  "d_step peer tlen off b (cur, Send p t q a) d =
     map_option (\<lambda>(r, d). (Some r, d)) (d_send cur p t q a tlen off b d)"
| "d_step peer tlen off b (cur, Release t) d =
     map_option (Pair None) (d_release cur peer t tlen off b (d \<lparr>releaseEvent1 := None\<rparr>))"
| "d_step peer tlen off b (cur, Turn t) d =
     map_option (Pair None) (d_retry cur peer t tlen off b (d \<lparr>turnEvent := None\<rparr>))"

fun rr_guard :: "nat \<Rightarrow> int \<Rightarrow> int \<Rightarrow> 'a RRBus_scheme \<Rightarrow> tick \<times> rr_op \<Rightarrow> Domain \<Rightarrow> bool" where
  "rr_guard N tlen off b (cur, opn) d =
     (op_dom opn < nat (num_pids b) \<and> room N cur tlen off b \<and> on_time cur d
      \<and> (case opn of Send p t q a \<Rightarrow> rr_pkt_ok N b q
         | Release t \<Rightarrow> releaseEvent1 d = Some cur \<and> turnEvent d \<noteq> Some cur
         | Turn t \<Rightarrow> turnEvent d = Some cur))"

lemma d_step_ok:
  assumes ok: "bus_ok N tlen off b"
    and peer: "\<forall>p t c. \<forall>(q, a) \<in> set (peer p t c). rr_pkt_ok N b q"
    and inv: "d_inv k (op_dom opn) tlen off b d" and k: "k \<le> cyc cur off b"
    and g: "rr_guard N tlen off b (cur, opn) d"
  shows "\<exists>r d'. d_step peer tlen off b (cur, opn) d = Some (r, d') \<and> d_inv (cyc cur off b) (op_dom opn) tlen off b d'"
    and "\<not> (\<exists>p t q a. opn = Send p t q a) \<Longrightarrow> active_id cur tlen off b = Some (int (op_dom opn))"
proof -
  let ?t = "op_dom opn"
  have sl: "slots_ok tlen off b" using ok by (simp add: bus_ok_def)
  have room: "room N cur tlen off b" and t: "?t < nat (num_pids b)" and on: "on_time cur d"
    using g by simp_all
  note inv' = d_inv_mono [OF inv k]
  have ev: "active_id cur tlen off b = Some (int ?t)"
    if "releaseEvent1 d = Some cur \<or> turnEvent d = Some cur"
    using that inv own_tick_active [OF sl] unfolding d_inv_def by blast
  then show "\<not> (\<exists>p t q a. opn = Send p t q a) \<Longrightarrow> active_id cur tlen off b = Some (int ?t)"
    using g by (cases opn) simp_all
  show "\<exists>r d'. d_step peer tlen off b (cur, opn) d = Some (r, d') \<and> d_inv (cyc cur off b) ?t tlen off b d'"
  proof (cases opn)
    case (Send p u q a)
    then have pk: "rr_pkt_ok N b q" using g by simp
    show ?thesis
    proof (cases "active_id cur tlen off b = Some (int u)")
      case True
      obtain r d' where "d_send cur p u q a tlen off b d = Some (r, d')" "d_inv (cyc cur off b) u tlen off b d'"
        using d_send_active [OF ok room True pk, of d p a] inv' Send by auto
      then show ?thesis using Send by simp
    next
      case False
      obtain d' where "d_try cur p u tlen off b d = Some (False, d')" "d_inv (cyc cur off b) u tlen off b d'"
        using d_try_waiting [OF sl room _ False, of d p] inv' t Send by auto
      then show ?thesis using Send by (simp add: d_send_def)
    qed
  next
    case (Release u)
    then have r: "releaseEvent1 d = Some cur" "turnEvent d \<noteq> Some cur" using g by simp_all
    have act: "active_id cur tlen off b = Some (int u)" using ev r Release by simp
    obtain f where f: "own_tick u f cur tlen off b" using inv r Release by (auto simp: d_inv_def)
    then have fc: "f = cyc cur off b" using own_tick_active [OF sl] by simp
    have te: "turnEvent d = None"
    proof (cases "turnEvent d")
      case (Some w)
      then obtain e where e: "own_tick u e w tlen off b" "first_slot (cyc cur off b) u e tlen b" "cur \<le> w"
        using inv' Release on by (auto simp: d_inv_def on_time_def)
      have "e \<le> f" using e(2) f fc by (simp add: first_slot_def own_tick_def)
      moreover have "f \<le> e"
        using cur_le_cycle_tick_iff [OF sl, of e cur] e(1,3) room fc by (simp add: own_tick_def room_def)
      ultimately have "w = cur" using e(1) f by (simp add: own_tick_def)
      then show ?thesis using r Some by simp
    qed
    have busy: "l1_state d = BUSY" using inv r by (simp add: d_inv_def)
    let ?d = "d \<lparr>releaseEvent1 := None, l1_state := IDLE\<rparr>"
    show ?thesis
    proof (cases "l1_retryList d = []")
      case True
      then have "d_inv (cyc cur off b) u tlen off b ?d" using te by (simp add: d_inv_def)
      then show ?thesis using True busy Release by (simp add: d_release_def)
    next
      case False
      obtain d' where "d_retry cur peer u tlen off b ?d = Some d'" "d_inv (cyc cur off b) u tlen off b d'"
        using d_retry_ok [OF ok room act, of peer ?d] peer te False by auto
      then show ?thesis using False busy Release by (simp add: d_release_def)
    qed
  next
    case (Turn u)
    then have r: "turnEvent d = Some cur" using g by simp
    have act: "active_id cur tlen off b = Some (int u)" using ev r Turn by simp
    let ?d = "d \<lparr>turnEvent := None\<rparr>"
    have "l1_retryList ?d \<noteq> []" "l1_state ?d \<noteq> RETRY" "l1_state ?d = BUSY \<longleftrightarrow> releaseEvent1 ?d \<noteq> None"
      "\<forall>w. releaseEvent1 ?d = Some w \<longrightarrow> (\<exists>f. own_tick u f w tlen off b)"
      using inv r Turn by (auto simp: d_inv_def)
    then obtain d' where "d_retry cur peer u tlen off b ?d = Some d'" "d_inv (cyc cur off b) u tlen off b d'"
      using d_retry_ok [OF ok room act, of peer ?d] peer by auto
    then show ?thesis using Turn by simp
  qed
qed

text \<open>The layer does for the domain of an operation what the domain does, and nothing else.\<close>

definition shape :: "int \<Rightarrow> int \<Rightarrow> 'a RRBus_scheme \<Rightarrow> Layer \<Rightarrow> bool" where
  "shape tlen off b l = (layer_len (nat (num_pids b)) l \<and> l_tl l = tlen \<and> l_offset l = off)"

lemma rr_step_refines:
  assumes "shape tlen off b l" and "op_dom opn < nat (num_pids b)"
    and ev: "\<not> (\<exists>p t q a. opn = Send p t q a) \<Longrightarrow> active_id cur tlen off b = Some (int (op_dom opn))"
    and g: "rr_guard N tlen off b (cur, opn) (dom_of (op_dom opn) l)"
    and d: "d_step peer tlen off b (cur, opn) (dom_of (op_dom opn) l) = Some (r, d')"
  shows "\<exists>l'. rr_step peer b (cur, opn) l = Some (r, l') \<and> shape tlen off b l' \<and> dom_of (op_dom opn) l' = d'
    \<and> (\<forall>u. u \<noteq> op_dom opn \<longrightarrow> dom_of u l' = dom_of u l)"
proof -
  let ?n = "nat (num_pids b)"
  have len: "layer_len ?n l" "l_tl l = tlen" "l_offset l = off" using assms(1) by (simp_all add: shape_def)
  show ?thesis
  proof (cases opn)
    case (Send p t q a)
    then show ?thesis
      using len assms(2) d sendTiming_dom [OF len(1), of t cur p q a b] by (auto simp: shape_def)
  next
    case (Release t)
    let ?l = "l \<lparr>releaseEvent := (releaseEvent l)[t := None]\<rparr>"
    have t: "t < ?n" and act: "active_id cur tlen off b = Some (int t)" using Release assms(2) ev by simp_all
    have l1: "layer_len ?n ?l" using len by (simp add: layer_len_def)
    have "dom_of t ?l = (dom_of t l) \<lparr>releaseEvent1 := None\<rparr>" "\<And>u. u \<noteq> t \<Longrightarrow> dom_of u ?l = dom_of u l"
      using len t by (simp_all add: dom_of_def layer_len_def)
    then show ?thesis
      using Release d len l1 t act g releaseLayer_dom [OF l1 t, of cur b peer]
      by (auto simp: shape_def fireRelease_def)
  next
    case (Turn t)
    let ?l = "l \<lparr>retryEvent := (retryEvent l)[t := None]\<rparr>"
    have t: "t < ?n" and act: "active_id cur tlen off b = Some (int t)" using Turn assms(2) ev by simp_all
    have l1: "layer_len ?n ?l" using len by (simp add: layer_len_def)
    have "dom_of t ?l = (dom_of t l) \<lparr>turnEvent := None\<rparr>" "\<And>u. u \<noteq> t \<Longrightarrow> dom_of u ?l = dom_of u l"
      using len t by (simp_all add: dom_of_def layer_len_def)
    then show ?thesis
      using Turn d len l1 t act g retryWaiting_dom [OF l1 t, of cur b peer]
      by (auto simp: shape_def fireRetry_def)
  qed
qed


subsection \<open>The domains of a layer are independent\<close>

definition op_time :: "int \<Rightarrow> 'a RRBus_scheme \<Rightarrow> tick \<times> rr_op \<Rightarrow> nat" where
  "op_time off b x = cyc (fst x) off b"

text \<open>The bus, the peers of its ports and the bound on packets that the theorems range over.\<close>

definition rr_good :: "nat \<Rightarrow> int \<Rightarrow> int \<Rightarrow> 'a RRBus_scheme \<Rightarrow> peer \<Rightarrow> bool" where
  "rr_good N tlen off b peer = (bus_ok N tlen off b \<and> (\<forall>p t c. \<forall>(q, a) \<in> set (peer p t c). rr_pkt_ok N b q))"

definition rr_enabled :: "nat \<Rightarrow> int \<Rightarrow> int \<Rightarrow> 'a RRBus_scheme \<Rightarrow> peer \<Rightarrow> tick \<times> rr_op \<Rightarrow> Domain \<Rightarrow> bool" where
  "rr_enabled N tlen off b peer x d = (rr_good N tlen off b peer \<and> rr_guard N tlen off b x d)"

interpretation rr: independent_domains "rr_step peer b" "\<lambda>x. op_dom (snd x)" dom_of "op_time off b"
  "rr_enabled N tlen off b peer" "\<lambda>k t. d_inv k t tlen off b" "d_step peer tlen off b" "shape tlen off b"
  "{t. t < nat (num_pids b)}"
  for N tlen off peer b
proof
  fix k k' t d assume "d_inv k t tlen off b d" "k \<le> k'"
  then show "d_inv k' t tlen off b d" by (rule d_inv_mono)
next
  fix x d assume "rr_enabled N tlen off b peer x d"
  then show "op_dom (snd x) \<in> {t. t < nat (num_pids b)}" by (cases x) (simp add: rr_enabled_def)
next
  fix l k x
  assume sh: "shape tlen off b l" and inv: "d_inv k (op_dom (snd x)) tlen off b (dom_of (op_dom (snd x)) l)"
    and k: "k \<le> op_time off b x" and g: "rr_enabled N tlen off b peer x (dom_of (op_dom (snd x)) l)"
  obtain cur opn where x: "x = (cur, opn)" by fastforce
  have ok: "bus_ok N tlen off b" "\<forall>p t c. \<forall>(q, a) \<in> set (peer p t c). rr_pkt_ok N b q"
    and g': "rr_guard N tlen off b (cur, opn) (dom_of (op_dom opn) l)"
    using g x by (simp_all add: rr_enabled_def rr_good_def)
  have k': "k \<le> cyc cur off b" using k x by (simp add: op_time_def)
  obtain r d' where d: "d_step peer tlen off b (cur, opn) (dom_of (op_dom opn) l) = Some (r, d')"
    "d_inv (cyc cur off b) (op_dom opn) tlen off b d'"
    using d_step_ok(1) [OF ok _ k' g'] inv x by auto
  have "op_dom opn < nat (num_pids b)" using g' by simp
  moreover have "\<not> (\<exists>p t q a. opn = Send p t q a) \<Longrightarrow> active_id cur tlen off b = Some (int (op_dom opn))"
    using d_step_ok(2) [OF ok _ k' g'] inv x by simp
  ultimately show "\<exists>r l'. rr_step peer b x l = Some (r, l') \<and> shape tlen off b l'
      \<and> d_step peer tlen off b x (dom_of (op_dom (snd x)) l) = Some (r, dom_of (op_dom (snd x)) l')
      \<and> d_inv (op_time off b x) (op_dom (snd x)) tlen off b (dom_of (op_dom (snd x)) l')
      \<and> (\<forall>u. u \<noteq> op_dom (snd x) \<longrightarrow> dom_of u l' = dom_of u l)"
    using rr_step_refines [OF sh _ _ g' d(1)] d x by (auto simp: op_time_def)
qed


text \<open>Executions of a layer and the legal sequences of operations.\<close>

definition rr_exec :: "peer \<Rightarrow> 'a RRBus_scheme \<Rightarrow> (tick \<times> rr_op) list \<Rightarrow> Layer \<Rightarrow> ((nat \<times> bool option) list \<times> Layer) option" where
  "rr_exec peer b = exec (rr_step peer b) (\<lambda>x. op_dom (snd x))"

definition rr_legal :: "nat \<Rightarrow> int \<Rightarrow> int \<Rightarrow> 'a RRBus_scheme \<Rightarrow> peer \<Rightarrow> (tick \<times> rr_op) list \<Rightarrow> Layer \<Rightarrow> bool" where
  "rr_legal N tlen off b peer =
     legal (rr_step peer b) (\<lambda>x l. rr_guard N tlen off b x (dom_of (op_dom (snd x)) l)) (op_time off b) 0"

text \<open>The cycle of the last operation.\<close>

definition last_cycle :: "int \<Rightarrow> 'a RRBus_scheme \<Rightarrow> (tick \<times> rr_op) list \<Rightarrow> nat" where
  "last_cycle off b xs = foldl (\<lambda>_. op_time off b) 0 xs"

lemma Layer_new_dom:
  "t < nat (num_pids b) \<Longrightarrow> dom_of t (Layer_new tlen off b)
    = \<lparr>l1_state = IDLE, l1_retryList = [], releaseEvent1 = None, turnEvent = None\<rparr>"
  by (simp add: dom_of_def Layer_new_def Let_def)

lemma Layer_new_ok:
  "shape tlen off b (Layer_new tlen off b)"
  "\<forall>t \<in> {t. t < nat (num_pids b)}. d_inv 0 t tlen off b (dom_of t (Layer_new tlen off b))"
  by (simp add: shape_def layer_len_def Layer_new_def Let_def) (auto simp: Layer_new_dom d_inv_def)

lemma rr_legal_enabled:
  assumes "rr_good N tlen off b peer"
  shows "rr_legal N tlen off b peer xs l
    = legal (rr_step peer b) (\<lambda>x l. rr_enabled N tlen off b peer x (dom_of (op_dom (snd x)) l)) (op_time off b) 0 xs l"
  using assms by (simp add: rr_legal_def rr_enabled_def)

lemma rr_run:
  assumes "rr_good N tlen off b peer" and "rr_legal N tlen off b peer xs (Layer_new tlen off b)"
  obtains out l where "rr_exec peer b xs (Layer_new tlen off b) = Some (out, l)" and "shape tlen off b l"
    and "\<forall>t \<in> {t. t < nat (num_pids b)}. d_inv (last_cycle off b xs) t tlen off b (dom_of t l)"
  using rr.exec_safe [OF Layer_new_ok assms(2) [unfolded rr_legal_enabled [OF assms(1)]]]
  unfolding rr_exec_def last_cycle_def by blast

subsection \<open>A sample run\<close>

text \<open>
  Two domains with turns of three cycles: domain 0 sends in its turn, domain 1
  asks out of turn, the transfer ends, and domain 1 is retried at its turn but
  its peer does not send at once.
\<close>

definition silent :: peer where "silent p t c = []"

definition sample_run :: "(tick \<times> rr_op) list" where
  "sample_run = [(7000, Send 0 0 (sample_pkt ReadReq 64 8 None) True),
     (7000, Send 1 1 (sample_pkt ReadReq 128 8 None) True), (8000, Release 0), (9000, Turn 1)]"

definition sample_layer :: "LState list \<Rightarrow> nat list list \<Rightarrow> tick option list \<Rightarrow> tick option list \<Rightarrow> Layer" where
  "sample_layer st rl rel ret = \<lparr>l_state = st, retryList = rl, releaseEvent = rel, retryEvent = ret,
     drainEvent = False, l_tl = 3, l_offset = 0\<rparr>"

lemma sample_new: "Layer_new 3 0 two_domain_bus = sample_layer [IDLE, IDLE] [[], []] [None, None] [None, None]"
  by code_simp

lemma sample_steps:
  "rr_step silent two_domain_bus (7000, Send 0 0 (sample_pkt ReadReq 64 8 None) True)
      (sample_layer [IDLE, IDLE] [[], []] [None, None] [None, None])
    = Some (Some True, sample_layer [BUSY, IDLE] [[], []] [Some 8000, None] [None, None])"
  "rr_step silent two_domain_bus (7000, Send 1 1 (sample_pkt ReadReq 128 8 None) True)
      (sample_layer [BUSY, IDLE] [[], []] [Some 8000, None] [None, None])
    = Some (Some False, sample_layer [BUSY, IDLE] [[], [1]] [Some 8000, None] [None, Some 9000])"
  "rr_step silent two_domain_bus (8000, Release 0)
      (sample_layer [BUSY, IDLE] [[], [1]] [Some 8000, None] [None, Some 9000])
    = Some (None, sample_layer [IDLE, IDLE] [[], [1]] [None, None] [None, Some 9000])"
  "rr_step silent two_domain_bus (9000, Turn 1)
      (sample_layer [IDLE, IDLE] [[], [1]] [None, None] [None, Some 9000])
    = Some (None, sample_layer [IDLE, BUSY] [[], []] [None, Some 10000] [None, None])"
  by code_simp+

lemma two_domain_bus_simps: "num_pids two_domain_bus = 2" "headerCycles two_domain_bus = 1" "unat (clock two_domain_bus) = 1000"
  by (simp_all add: two_domain_bus_def ClockedObject.defs ClockedObject_new_def)

lemma sample_good: "rr_good 1 3 0 two_domain_bus silent"
  using two_domain_bus_ok by (simp add: rr_good_def bus_ok_def two_domain_bus_simps silent_def)

lemma sample_legal: "rr_legal 1 3 0 two_domain_bus silent sample_run (Layer_new 3 0 two_domain_bus)"
proof -
  have p: "rr_pkt_ok 1 two_domain_bus (sample_pkt ReadReq a 8 None)" for a
    by (simp add: rr_pkt_ok_def data_cycles_def sample_pkt_def two_domain_bus_simps hasData_def
        testCmdAttrib_def commandInfo_def info_def)
  show ?thesis
    using p unfolding rr_legal_def sample_run_def
    by (simp del: rr_step.simps One_nat_def add: sample_new sample_steps op_time_def cyc_def room_def
        on_time_def edge_cycle_def two_domain_bus_simps) (simp add: sample_layer_def)
qed

text \<open>
  C2: Time slots isolate the security domains of a round-robin bus layer: every legal
  sequence of sends and events runs without a failed assertion, and every domain gets
  the answers and reaches the state that it would get and reach if it were alone on the
  bus.
\<close>

theorem RR_noninterference:
  assumes good: "rr_good N tlen off b peer" and legal: "rr_legal N tlen off b peer xs (Layer_new tlen off b)"
  shows "\<exists>out l. rr_exec peer b xs (Layer_new tlen off b) = Some (out, l)
    \<and> (\<forall>t < nat (num_pids b). \<exists>l'.
        rr_exec peer b (filter (\<lambda>x. op_dom (snd x) = t) xs) (Layer_new tlen off b)
          = Some (filter (\<lambda>y. fst y = t) out, l')
        \<and> dom_of t l' = dom_of t l)"
proof -
  obtain out l where run: "rr_exec peer b xs (Layer_new tlen off b) = Some (out, l)"
    by (rule rr_run [OF good legal])
  note iso = rr.exec_isolated [OF Layer_new_ok legal [unfolded rr_legal_enabled [OF good]] run [unfolded rr_exec_def]
      Layer_new_ok(1), folded rr_exec_def]
  show ?thesis
  proof (rule exI [of _ out], rule exI [of _ l], rule conjI [OF run], rule allI, rule impI)
    fix t assume "t < nat (num_pids b)"
    then show "\<exists>l'. rr_exec peer b (filter (\<lambda>x. op_dom (snd x) = t) xs) (Layer_new tlen off b)
          = Some (filter (\<lambda>y. fst y = t) out, l') \<and> dom_of t l' = dom_of t l"
      using iso by simp
  qed
qed

theorem RR_noninterference_witness:
  "\<exists>out l l'. rr_exec silent two_domain_bus sample_run (Layer_new 3 0 two_domain_bus) = Some (out, l)
    \<and> rr_exec silent two_domain_bus (filter (\<lambda>x. op_dom (snd x) = 1) sample_run) (Layer_new 3 0 two_domain_bus)
        = Some (filter (\<lambda>y. fst y = 1) out, l')
    \<and> dom_of 1 l' = dom_of 1 l"
  using RR_noninterference [OF sample_good sample_legal] two_domain_bus_simps(1) by fastforce

text \<open>
  C9: No retry is lost: after every legal sequence of operations, a domain with a
  waiting port has an event scheduled for one of its own slots, and a scheduled start of
  turn is less than one rotation after the last operation.
\<close>

theorem RR_no_lost_retry:
  assumes good: "rr_good N tlen off b peer" and legal: "rr_legal N tlen off b peer xs (Layer_new tlen off b)"
  shows "\<exists>out l. rr_exec peer b xs (Layer_new tlen off b) = Some (out, l)
    \<and> (\<forall>t < nat (num_pids b). retryList l ! t \<noteq> [] \<longrightarrow>
        (\<exists>w. (releaseEvent l ! t = Some w \<or> retryEvent l ! t = Some w) \<and> active_id w tlen off b = Some (int t))
        \<and> (\<forall>w. retryEvent l ! t = Some w
             \<longrightarrow> cyc w off b < last_cycle off b xs + nat (num_pids b) * nat tlen))"
proof -
  obtain out l where run: "rr_exec peer b xs (Layer_new tlen off b) = Some (out, l)"
    and inv: "\<forall>t \<in> {t. t < nat (num_pids b)}. d_inv (last_cycle off b xs) t tlen off b (dom_of t l)"
    by (rule rr_run [OF good legal])
  let ?k = "last_cycle off b xs" let ?P = "nat (num_pids b)" let ?T = "nat tlen"
  have sl: "slots_ok tlen off b" using good by (simp add: rr_good_def bus_ok_def)
  have T: "0 < ?T" by (rule slots_okD(5) [OF sl])
  have near: "\<exists>g. ?k \<le> g \<and> g < ?k + ?P * ?T \<and> owner ?P ?T g = t" if t: "t < ?P" for t
  proof (cases "owner ?P ?T ?k = t")
    case True
    then show ?thesis using T t by (intro exI [of _ ?k]) simp
  next
    case False
    then show ?thesis using next_turn_first [OF T t False] by blast
  qed
  show ?thesis
  proof (rule exI [of _ out], rule exI [of _ l], rule conjI [OF run], intro allI impI conjI)
    fix t assume t: "t < ?P" and wait: "retryList l ! t \<noteq> []"
    then have di: "d_inv ?k t tlen off b (dom_of t l)" using inv by blast
    show "\<exists>w. (releaseEvent l ! t = Some w \<or> retryEvent l ! t = Some w) \<and> active_id w tlen off b = Some (int t)"
      using wait di own_tick_active [OF sl] unfolding d_inv_def by fastforce
    fix w assume "retryEvent l ! t = Some w"
    then obtain f where f: "own_tick t f w tlen off b" "first_slot ?k t f tlen b"
      using di by (auto simp: d_inv_def)
    obtain g where "?k \<le> g" "g < ?k + ?P * ?T" "owner ?P ?T g = t" using near [OF t] by blast
    then have "f < ?k + ?P * ?T" using f(2) by (force simp: first_slot_def)
    then show "cyc w off b < ?k + ?P * ?T" using own_tick_active [OF sl f(1)] by simp
  qed
qed

theorem RR_no_lost_retry_witness:
  "\<exists>out l. rr_exec silent two_domain_bus sample_run (Layer_new 3 0 two_domain_bus) = Some (out, l)
    \<and> (\<forall>t < 2. retryList l ! t \<noteq> [] \<longrightarrow>
        (\<exists>w. (releaseEvent l ! t = Some w \<or> retryEvent l ! t = Some w)
          \<and> active_id w 3 0 two_domain_bus = Some (int t)))"
  using RR_no_lost_retry [OF sample_good sample_legal] two_domain_bus_simps(1) by fastforce

text \<open>
  C28: In every layer with well-formed slots, when a domain that is idle and has a port
  waiting receives the retry of a peer in the turn of another domain, the layer acts on
  the domain whose turn it is: with nobody waiting there the assertion of retryWaiting
  fails, and otherwise the retry is passed to the other domain, exactly as if it had
  been meant for it.
\<close>

theorem recvRetry_other_domain:
  assumes "slots_ok (l_tl l) (l_offset l) b" "in_time cur (l_offset l) b" "layer_len (nat (num_pids b)) l"
    and "u < nat (num_pids b)" "retryList l ! u \<noteq> []" "l_state l ! u = IDLE" "active_id cur (l_tl l) (l_offset l) b \<noteq> Some (int u)"
  shows "\<exists>t < nat (num_pids b). t \<noteq> u \<and> active_id cur (l_tl l) (l_offset l) b = Some (int t)
    \<and> recvRetry cur peer u b l = (if retryList l ! t = [] then None else recvRetry cur peer t b l)"
proof -
  obtain t where t: "active_id cur (l_tl l) (l_offset l) b = Some (int t)" "t < nat (num_pids b)" "t \<noteq> u"
    using active_id_turn [OF assms(1,2)] turn_position(3) [OF assms(1)] assms(7) by (auto simp: turn_of_def)
  have "recvRetry cur peer u b l = retryWaiting cur peer b l"
    using layer_len_at [OF assms(3,4)] assms(5,6) by (simp add: recvRetry_def)
  also have "\<dots> = (if retryList l ! t = [] then None else recvRetry cur peer t b l)"
    using layer_len_at [OF assms(3) t(2)] t(1) by (auto simp: recvRetry_def retryWaiting_def Let_def)
  finally show ?thesis using t by blast
qed

text \<open>
  A port of domain 1 has asked outside the turn of its domain, and nobody else waits:
  the retry fails.
\<close>

theorem recvRetry_other_domain_witness:
  "\<exists>l. sendTiming 7000 5 1 (sample_pkt ReadReq 128 8 None) True two_domain_bus (Layer_new 3 0 two_domain_bus)
      = Some (False, l) \<and> recvRetry 7000 silent 1 two_domain_bus l = None"
proof -
  let ?L = "Layer_new 3 0 two_domain_bus"
  let ?d = "\<lparr>l1_state = IDLE, l1_retryList = [], releaseEvent1 = None, turnEvent = None\<rparr> :: Domain"
  have r: "room 1 7000 3 0 two_domain_bus" by (simp add: room_def two_domain_bus_simps edge_cycle_def)
  have it: "in_time 7000 0 two_domain_bus" by (rule room_in_time [OF r two_domain_bus_ok])
  have "turn_of 7000 3 0 two_domain_bus = 0"
    by (simp add: turn_of_def owner_def cyc_def two_domain_bus_simps edge_cycle_def)
  then have act: "active_id 7000 3 0 two_domain_bus = Some 0"
    using active_id_turn [OF two_domain_bus_ok it] by simp
  have n: "nat (num_pids two_domain_bus) = 2" using two_domain_bus_simps(1) by simp
  have len: "layer_len 2 ?L" "l_tl ?L = 3" "l_offset ?L = 0"
    using Layer_new_ok(1) [of 3 0 two_domain_bus] n by (simp_all add: shape_def)
  have ne: "active_id 7000 3 0 two_domain_bus \<noteq> Some (int 1)" "(1 :: nat) < nat (num_pids two_domain_bus)" using act n by simp_all
  note rt = retryTime_own [OF two_domain_bus_ok r ne(2,1)]
  define d where "d = ?d \<lparr>l1_retryList := [5], turnEvent := retryTime 7000 1 3 0 two_domain_bus\<rparr>"
  have "d_try 7000 5 1 3 0 two_domain_bus ?d = Some (False, d)"
    using act rt by (simp add: d_try_def schedule_def d_def)
  then have s: "sendTiming 7000 5 1 (sample_pkt ReadReq 128 8 None) True two_domain_bus ?L = Some (False, set_dom 1 d ?L)"
    using sendTiming_dom [OF len(1), of 1 7000 5 "sample_pkt ReadReq 128 8 None" True two_domain_bus] len n by (simp add: d_send_def Layer_new_dom)
  define l where "l = set_dom 1 d ?L"
  have l: "layer_len 2 l" "dom_of 1 l = d" "dom_of 0 l = ?d" "l_tl l = 3" "l_offset l = 0"
    unfolding l_def using len n by (simp_all add: Layer_new_dom)
  have f: "retryList l ! 1 = [5]" "l_state l ! 1 = IDLE" "retryList l ! 0 = []"
    using dom_of_simps [of 1 l, symmetric] dom_of_simps [of 0 l, symmetric] unfolding l(2,3) by (simp_all add: d_def)
  have "recvRetry 7000 silent 1 two_domain_bus l = None"
    using recvRetry_other_domain [of l two_domain_bus 7000 1 silent] two_domain_bus_ok it l n f act by auto
  then show ?thesis using s unfolding l_def by blast
qed

end
