(* ===== verification/Range_Map.thy ===== *)
theory Range_Map
imports Base_Prelude
begin

text \<open>
  Address ranges (\<open>base/range.hh\<close>) and the map from ranges to values
  (\<open>base/range_map.hh\<close>).

  A range has inclusive ends and is ordered by its start, which is the key
  order of the underlying \<open>std::map\<close>: a map is the list of its entries in
  increasing order of their starts.  \<open>find\<close> looks at the last entry that
  does not start after the range it is given, or at the first entry when there
  is none.  On an empty map the code reads through \<open>begin()\<close>, but returns
  \<open>end()\<close> whatever it reads.
\<close>

record Range =
  r_start :: addr
  r_end :: addr

definition RangeEx :: "addr \<Rightarrow> addr \<Rightarrow> Range" where
  "RangeEx s e = \<lparr>r_start = s, r_end = e - 1\<rparr>"

definition RangeIn :: "addr \<Rightarrow> addr \<Rightarrow> Range" where
  "RangeIn s e = \<lparr>r_start = s, r_end = e\<rparr>"

definition RangeSize :: "addr \<Rightarrow> addr \<Rightarrow> Range" where
  "RangeSize s n = \<lparr>r_start = s, r_end = s + n - 1\<rparr>"

definition range_size :: "Range \<Rightarrow> addr" where
  "range_size r = r_end r - r_start r + 1"

definition range_valid :: "Range \<Rightarrow> bool" where
  "range_valid r = (r_start r < r_end r)"

definition range_less :: "Range \<Rightarrow> Range \<Rightarrow> bool" where
  "range_less r s = (r_start r < r_start s)"

definition pos_in_range :: "addr \<Rightarrow> Range \<Rightarrow> bool" where
  "pos_in_range a r = (r_start r \<le> a \<and> a \<le> r_end r)"

type_synonym 'v range_map = "(Range \<times> 'v) list"

definition meets :: "Range \<Rightarrow> Range \<times> 'v \<Rightarrow> bool" where
  "meets r e = (r_start (fst e) \<le> r_end r \<and> r_start r \<le> r_end (fst e))"

text \<open>\<open>tree.upper_bound\<close>: the entries that do not start after \<open>r\<close>, and the rest.\<close>

definition not_after :: "Range \<Rightarrow> 'v range_map \<Rightarrow> 'v range_map" where
  "not_after r m = takeWhile (\<lambda>e. \<not> range_less r (fst e)) m"

definition rm_find :: "Range \<Rightarrow> 'v range_map \<Rightarrow> (Range \<times> 'v) option" where
  "rm_find r m =
     (case m of [] \<Rightarrow> None
      | e # es \<Rightarrow> let i = (if not_after r m = [] then e else last (not_after r m)) in
          if meets r i then Some i else None)"

definition rm_intersect :: "Range \<Rightarrow> 'v range_map \<Rightarrow> bool" where
  "rm_intersect r m = (rm_find r m \<noteq> None)"

text \<open>\<open>std::map::insert\<close> keeps an entry that has the same key.\<close>

fun tree_insert :: "Range \<Rightarrow> 'v \<Rightarrow> 'v range_map \<Rightarrow> 'v range_map" where
  "tree_insert r v [] = [(r, v)]"
| "tree_insert r v (e # es) =
     (if range_less r (fst e) then (r, v) # e # es
      else if range_less (fst e) r then e # tree_insert r v es
      else e # es)"

text \<open>\<open>insert\<close>; the first component is false when \<open>end()\<close> is returned.\<close>

definition rm_insert :: "Range \<Rightarrow> 'v \<Rightarrow> 'v range_map \<Rightarrow> bool \<times> 'v range_map" where
  "rm_insert r v m = (if rm_intersect r m then (False, m) else (True, tree_insert r v m))"

subsection \<open>Maps of disjoint ranges\<close>

fun rm_ok :: "'v range_map \<Rightarrow> bool" where
  "rm_ok [] = True"
| "rm_ok (e # es) = (r_start (fst e) \<le> r_end (fst e) \<and> (\<forall>f \<in> set es. r_end (fst e) < r_start (fst f)) \<and> rm_ok es)"

lemma rm_ok_append:
  "rm_ok (xs @ ys) \<longleftrightarrow> rm_ok xs \<and> rm_ok ys \<and> (\<forall>e \<in> set xs. \<forall>f \<in> set ys. r_end (fst e) < r_start (fst f))"
  by (induction xs) auto

lemma rm_ok_entry: "rm_ok m \<Longrightarrow> e \<in> set m \<Longrightarrow> r_start (fst e) \<le> r_end (fst e)"
  by (induction m) auto

lemma rm_ok_filter: "rm_ok m \<Longrightarrow> rm_ok (filter P m)"
  by (induction m) auto

text \<open>At most one entry of such a map holds an address.\<close>

lemma rm_ok_unique:
  "rm_ok m \<Longrightarrow> e \<in> set m \<Longrightarrow> f \<in> set m \<Longrightarrow> pos_in_range a (fst e) \<Longrightarrow> pos_in_range a (fst f) \<Longrightarrow> e = f"
proof (induction m)
  case (Cons x m)
  have "\<not> (pos_in_range a (fst x) \<and> pos_in_range a (fst g))" if "g \<in> set m" for g
    using Cons.prems(1) that by (auto simp: pos_in_range_def)
  then show ?case using Cons by (metis rm_ok.simps(2) set_ConsD)
qed simp

lemma rm_find_address:
  assumes ok: "rm_ok m"
  shows "rm_find (RangeSize a 1) m = List.find (\<lambda>e. pos_in_range a (fst e)) m"
proof (cases m)
  case (Cons e0 es)
  let ?r = "RangeSize a 1" let ?lo = "not_after ?r m" let ?hi = "dropWhile (\<lambda>e. \<not> range_less ?r (fst e)) m"
  have m: "m = ?lo @ ?hi" by (simp add: not_after_def)
  have meets: "meets ?r e \<longleftrightarrow> pos_in_range a (fst e)" for e :: "Range \<times> 'a"
    by (simp add: meets_def RangeSize_def pos_in_range_def)
  have lo: "r_start (fst e) \<le> a" if "e \<in> set ?lo" for e
    using that by (auto simp: not_after_def range_less_def RangeSize_def not_less dest: set_takeWhileD)
  have hi: "a < r_start (fst e)" if "e \<in> set ?hi" for e
  proof -
    have ne: "?hi \<noteq> []" using that by (metis empty_iff list.set(1))
    then have h: "a < r_start (fst (hd ?hi))"
      using hd_dropWhile [OF ne] by (simp add: range_less_def RangeSize_def)
    define hs where "hs = ?hi"
    have "rm_ok hs" using ok unfolding hs_def by (subst (asm) m) (simp only: rm_ok_append)
    moreover have "hs \<noteq> []" "e \<in> set hs" using ne that by (simp_all only: hs_def not_False_eq_True)
    ultimately have "e = hd hs \<or> r_start (fst (hd hs)) < r_start (fst e)"
      by (cases hs) (auto intro: le_less_trans)
    then have "e = hd ?hi \<or> r_start (fst (hd ?hi)) < r_start (fst e)" by (simp only: hs_def)
    then show ?thesis using h by auto
  qed
  let ?P = "\<lambda>e. pos_in_range a (fst e)"
  have nohi: "\<not> ?P e" if "e \<in> set ?hi" for e using hi [OF that] by (auto simp: pos_in_range_def)
  show ?thesis
  proof (cases "?lo = []")
    case True
    then have "\<not> ?P e" if "e \<in> set m" for e using nohi m that by (metis append_Nil)
    then have "List.find ?P m = None" unfolding find_None_iff_all by blast
    moreover have "\<not> ?P e0" using \<open>List.find ?P m = None\<close> Cons by (auto split: if_splits)
    ultimately show ?thesis using True Cons meets by (simp add: rm_find_def)
  next
    case False
    obtain xs y where lo_split: "?lo = xs @ [y]" using False by (metis append_butlast_last_id)
    have before: "\<not> ?P e" if "e \<in> set xs" for e
    proof -
      have "rm_ok (xs @ [y])" using ok m lo_split rm_ok_append by metis
      then have "r_end (fst e) < r_start (fst y)" using that by (simp add: rm_ok_append)
      moreover have "r_start (fst y) \<le> a" using lo [of y] lo_split by simp
      ultimately show ?thesis by (auto simp: pos_in_range_def)
    qed
    have f: "rm_find ?r m = (if ?P y then Some y else None)"
      using False lo_split Cons meets by (simp add: rm_find_def)
    show ?thesis
    proof (cases "?P y")
      case True
      have "y \<in> set m" using m lo_split by (metis Un_iff in_set_conv_decomp set_append)
      then have "List.find ?P m = Some y"
        by (rule find_unique) (use True rm_ok_unique [OF ok] \<open>y \<in> set m\<close> in blast)+
      then show ?thesis using f True by simp
    next
      case no: False
      have "\<not> ?P e" if "e \<in> set m" for e
        using that before nohi no m lo_split by (metis Un_iff set_append set_ConsD empty_iff list.set(1))
      then have "List.find ?P m = None" unfolding find_None_iff_all by blast
      then show ?thesis using f no by simp
    qed
  qed
qed (simp add: rm_find_def)


subsection \<open>Insertion\<close>

definition separate :: "Range \<Rightarrow> Range \<Rightarrow> bool" where
  "separate r s = (r_end r < r_start s \<or> r_end s < r_start r)"

lemma tree_insert_set:
  "\<forall>e \<in> set m. r_start (fst e) \<noteq> r_start r \<Longrightarrow> set (tree_insert r v m) = insert (r, v) (set m)"
  by (induction m) (auto simp: range_less_def)

lemma tree_insert_ok:
  assumes "rm_ok m" and "r_start r \<le> r_end r" and "\<forall>e \<in> set m. separate r (fst e)"
  shows "rm_ok (tree_insert r v m) \<and> set (tree_insert r v m) = insert (r, v) (set m)"
  using assms
proof (induction m)
  case (Cons e m)
  have e: "r_start (fst e) \<le> r_end (fst e)" "\<forall>f \<in> set m. r_end (fst e) < r_start (fst f)" "rm_ok m"
    "separate r (fst e)" "\<forall>e \<in> set m. separate r (fst e)" using Cons.prems by auto
  show ?case
  proof (cases "range_less r (fst e)")
    case True
    then have "r_end r < r_start (fst e)" using e(1,4) by (auto simp: separate_def range_less_def)
    then have "\<forall>f \<in> set m. r_end r < r_start (fst f)" using e(1,2) by fastforce
    then show ?thesis using True e Cons.prems(2) \<open>r_end r < r_start (fst e)\<close> by auto
  next
    case False
    then have lt: "r_end (fst e) < r_start r" using e(4) Cons.prems(2) by (auto simp: separate_def range_less_def)
    then have "range_less (fst e) r" using e(1) by (auto simp: range_less_def)
    then show ?thesis using False Cons.IH [OF e(3) Cons.prems(2) e(5)] e lt by auto
  qed
qed simp

text \<open>A range that meets no entry is inserted; what is found is an entry that meets the range.\<close>

lemma rm_find_SomeD: "rm_find r m = Some e \<Longrightarrow> e \<in> set m \<and> meets r e"
  using set_takeWhileD [of "last (not_after r m)" "\<lambda>e. \<not> range_less r (fst e)" m]
  by (cases m) (auto simp: rm_find_def Let_def not_after_def split: if_splits dest: last_in_set)

lemma rm_insert_separate:
  assumes "rm_ok m" and "r_start r \<le> r_end r" and "\<forall>e \<in> set m. separate r (fst e)"
  shows "fst (rm_insert r v m)" and "rm_ok (snd (rm_insert r v m))"
    and "set (snd (rm_insert r v m)) = insert (r, v) (set m)"
proof -
  have "rm_find r m = None"
  proof (rule ccontr)
    assume "rm_find r m \<noteq> None"
    then obtain e where e: "e \<in> set m" "meets r e" using rm_find_SomeD by (metis not_None_eq)
    then show False using assms(3) by (auto simp: meets_def separate_def)
  qed
  then have i: "rm_insert r v m = (True, tree_insert r v m)" by (simp add: rm_insert_def rm_intersect_def)
  show "fst (rm_insert r v m)" and "rm_ok (snd (rm_insert r v m))"
    and "set (snd (rm_insert r v m)) = insert (r, v) (set m)"
    using tree_insert_ok [OF assms] by (simp_all add: i)
qed

text \<open>
  Inserting a range that is separate from all others into a map of disjoint ranges
  succeeds, and afterwards every address of the range is found there and every other
  address where it was found before.
\<close>

theorem range_map_insert_find:
  assumes "rm_ok m" and "r_start r \<le> r_end r" and "\<forall>e \<in> set m. separate r (fst e)"
  shows "\<exists>m'. rm_insert r v m = (True, m') \<and> rm_ok m'
    \<and> (\<forall>a. rm_find (RangeSize a 1) m' = (if pos_in_range a r then Some (r, v) else rm_find (RangeSize a 1) m))"
proof (intro exI conjI allI)
  let ?m = "snd (rm_insert r v m)"
  note i = rm_insert_separate [OF assms, of v]
  show "rm_insert r v m = (True, ?m)" using i(1) by (cases "rm_insert r v m") simp
  show ok: "rm_ok ?m" by (rule i(2))
  fix a
  let ?P = "\<lambda>e. pos_in_range a (fst e)"
  show "rm_find (RangeSize a 1) ?m = (if pos_in_range a r then Some (r, v) else rm_find (RangeSize a 1) m)"
  proof (cases "pos_in_range a r")
    case True
    have e: "(r, v) \<in> set ?m" "?P (r, v)" using i(3) True by simp_all
    have "y = (r, v)" if "y \<in> set ?m" "?P y" for y by (rule rm_ok_unique [OF ok that(1) e(1) that(2) e(2)])
    then have "List.find ?P ?m = Some (r, v)" by (rule find_unique [where P = ?P, OF e])
    then show ?thesis using True by (simp add: rm_find_address [OF ok])
  next
    case False
    have "List.find ?P ?m = List.find ?P m"
    proof (cases "List.find ?P m")
      case None
      then have "List.find ?P ?m = None" using False i(3) by (simp add: find_None_iff_all)
      then show ?thesis using None by simp
    next
      case (Some e)
      then have e: "e \<in> set ?m" "?P e" using find_SomeD [of ?P m e] i(3) by auto
      have "y = e" if "y \<in> set ?m" "?P y" for y by (rule rm_ok_unique [OF ok that(1) e(1) that(2) e(2)])
      then have "List.find ?P ?m = Some e" by (rule find_unique [where P = ?P, OF e])
      then show ?thesis using Some by simp
    qed
    then show ?thesis using False by (simp add: rm_find_address ok assms(1))
  qed
qed

theorem range_map_insert_find_witness:
  "\<exists>m'. rm_insert (RangeIn 0x100 0x1FF) (7 :: nat) [(RangeIn 0 0xFF, 3)] = (True, m')
    \<and> rm_find (RangeSize 0x180 1) m' = Some (RangeIn 0x100 0x1FF, 7)"
  using range_map_insert_find [of "[(RangeIn 0 0xFF, 3)]" "RangeIn 0x100 0x1FF" "7 :: nat"]
  by (auto simp: RangeIn_def separate_def pos_in_range_def)

text \<open>
  Insertion checks the range before the new one only: a new range that reaches
  into the next one is accepted, and the map then holds two overlapping ranges.
\<close>

theorem range_map_insert_overlap:
  assumes "rm_ok m" and "m = lo @ (p, x) # (s, y) # hi"
    and "r_end p < r_start r" and "r_start r < r_start s" and "r_start s \<le> r_end r"
  shows "\<exists>m'. rm_insert r v m = (True, m') \<and> \<not> rm_ok m' \<and> (r, v) \<in> set m' \<and> (s, y) \<in> set m'"
proof -
  have ord: "r_start p \<le> r_end p" "r_end p < r_start s" "\<forall>f \<in> set hi. r_end s < r_start (fst f)"
    "r_start s \<le> r_end s" "\<forall>e \<in> set lo. r_end (fst e) < r_start p" "rm_ok lo"
    using assms(1,2) by (auto simp: rm_ok_append)
  have lo: "\<forall>e \<in> set lo. \<not> range_less r (fst e)" "\<not> range_less r p" "range_less r s"
    using assms(3,4) ord rm_ok_entry [OF ord(6)] unfolding range_less_def by force+
  have up: "not_after r m = lo @ [(p, x)]"
    using lo by (simp add: not_after_def assms(2) takeWhile_append)
  have "rm_find r m = None"
    using assms(3) up by (cases m) (auto simp: assms(2) rm_find_def meets_def)
  moreover have "\<forall>e \<in> set m. r_start (fst e) \<noteq> r_start r"
    using assms(2-5) ord rm_ok_entry [OF ord(6)] by force
  ultimately have m': "rm_insert r v m = (True, tree_insert r v m)" "set (tree_insert r v m) = insert (r, v) (set m)"
    using tree_insert_set [of m r v] by (simp_all add: rm_insert_def rm_intersect_def)
  have mem: "(r, v) \<in> set (tree_insert r v m)" "(s, y) \<in> set (tree_insert r v m)" using m'(2) assms(2) by auto
  have "\<not> rm_ok (tree_insert r v m)"
  proof
    assume "rm_ok (tree_insert r v m)"
    moreover have "pos_in_range (r_start s) (fst (r, v))" "pos_in_range (r_start s) (fst (s, y))"
      using assms(4,5) ord by (auto simp: pos_in_range_def)
    ultimately have "(r, v) = (s, y)" using rm_ok_unique mem by blast
    then show False using assms(4) by simp
  qed
  then show ?thesis using m'(1) mem by blast
qed

theorem range_map_insert_overlap_witness:
  "\<exists>m'. rm_insert (RangeIn 0x20 0x100) (2 :: nat) [(RangeIn 0 0xF, 0), (RangeIn 0x50 0x60, 1)] = (True, m')
    \<and> \<not> rm_ok m'"
  using range_map_insert_overlap [of "[(RangeIn 0 0xF, 0), (RangeIn 0x50 0x60, 1)]" "[]" "RangeIn 0 0xF" "0 :: nat"
      "RangeIn 0x50 0x60" 1 "[]" "RangeIn 0x20 0x100" 2]
  by (auto simp: RangeIn_def)

end
