(* ===== verification/Bus_Routing.thy ===== *)
theory Bus_Routing
imports Range_Map Mem_Packet
begin

text \<open>
  Address decoding of the round-robin bus (\<open>mem/rr_bus.cc\<close>): the port map, the
  three-entry cache in front of it, the default port, and the messages by
  which peers announce their ranges.  \<open>fatal\<close> is the left component of a sum, a
  failed assertion is \<open>None\<close>.  The ranges and block sizes of the peers are
  parameters.
\<close>

record PortCache =
  pc_valid :: bool
  pc_id :: port_id
  pc_start :: addr
  pc_end :: addr

record Router =
  portMap :: "port_id range_map"
  defaultRange :: "Range list"
  portCache0 :: PortCache
  portCache1 :: PortCache
  portCache2 :: PortCache
  defaultPortID :: port_id
  useDefaultRange :: bool
  inRecvRangeChange :: "port_id list"
  n_masters :: nat
  defaultBlockSize :: "32 word"
  cachedBlockSize :: "32 word"
  cachedBlockSizeValid :: bool

definition pc_hit :: "addr \<Rightarrow> PortCache \<Rightarrow> bool" where
  "pc_hit a c = (pc_valid c \<and> pc_start c \<le> a \<and> a < pc_end c)"

definition checkPortCache :: "addr \<Rightarrow> 'a Router_scheme \<Rightarrow> port_id" where
  "checkPortCache a r =
     (if pc_hit a (portCache0 r) then pc_id (portCache0 r)
      else if pc_hit a (portCache1 r) then pc_id (portCache1 r)
      else if pc_hit a (portCache2 r) then pc_id (portCache2 r)
      else InvalidPortID)"

definition updatePortCache :: "port_id \<Rightarrow> addr \<Rightarrow> addr \<Rightarrow> 'a Router_scheme \<Rightarrow> 'a Router_scheme" where
  "updatePortCache i s e r =
     r \<lparr>portCache2 := portCache1 r, portCache1 := portCache0 r,
        portCache0 := \<lparr>pc_valid = True, pc_id = i, pc_start = s, pc_end = e\<rparr>\<rparr>"

definition clearPortCache :: "'a Router_scheme \<Rightarrow> 'a Router_scheme" where
  "clearPortCache r =
     r \<lparr>portCache2 := (portCache2 r) \<lparr>pc_valid := False\<rparr>, portCache1 := (portCache1 r) \<lparr>pc_valid := False\<rparr>,
        portCache0 := (portCache0 r) \<lparr>pc_valid := False\<rparr>\<rparr>"

definition findPort :: "addr \<Rightarrow> 'a Router_scheme \<Rightarrow> string + port_id \<times> 'a Router_scheme" where
  "findPort a r =
     (let dest_id = checkPortCache a r in
      if dest_id \<noteq> InvalidPortID then Inr (dest_id, r)
      else case rm_find (RangeSize a 1) (portMap r) of
        Some (rg, dest_id) \<Rightarrow> Inr (dest_id, updatePortCache dest_id (r_start rg) (r_end rg) r)
      | None \<Rightarrow>
          if useDefaultRange r then
            (if \<exists>i \<in> set (defaultRange r). pos_in_range a i then Inr (defaultPortID r, r)
             else Inl ''Unable to find destination'')
          else if defaultPortID r \<noteq> InvalidPortID then Inr (defaultPortID r, r)
          else Inl ''Unable to find destination'')"

text \<open>The insertion loop of \<open>recvRangeChange\<close>.\<close>

fun insert_ranges :: "port_id \<Rightarrow> Range list \<Rightarrow> port_id range_map \<Rightarrow> string + port_id range_map" where
  "insert_ranges i [] m = Inr m"
| "insert_ranges i (r # rs) m =
     (case rm_insert r i m of (False, _) \<Rightarrow> Inl ''two ports with same range''
      | (True, m') \<Rightarrow> insert_ranges i rs m')"

definition recvRangeChange :: "(port_id \<Rightarrow> Range list) \<Rightarrow> port_id \<Rightarrow> 'a Router_scheme
    \<Rightarrow> (string + 'a Router_scheme) option" where
  "recvRangeChange ranges_of i r =
     (if i \<in> set (inRecvRangeChange r) then Some (Inr r)
      else let r = clearPortCache r in
        if i = defaultPortID r
        then Some (Inr (r \<lparr>defaultRange := (if useDefaultRange r then ranges_of i else [])\<rparr>))
        else do {
          check (sint i < int (n_masters r) \<and> 0 \<le> sint i);
          case insert_ranges i (ranges_of i) (filter (\<lambda>e. snd e \<noteq> i) (portMap r)) of
            Inl e \<Rightarrow> Some (Inl e)
          | Inr m \<Rightarrow> Some (Inr (r \<lparr>portMap := m\<rparr>)) })"

text \<open>The ranges of a map entry that \<open>getAddrRanges\<close> passes on.\<close>

definition crosses :: "Range \<Rightarrow> Range \<Rightarrow> bool" where
  "crosses p d = ((r_start p < r_start d \<and> r_start d \<le> r_end p) \<or> (r_start p < r_end d \<and> r_end d \<le> r_end p))"

definition within :: "Range \<Rightarrow> Range \<Rightarrow> bool" where
  "within p d = (r_start d \<le> r_start p \<and> r_end p \<le> r_end d)"

fun addr_ranges :: "Range list \<Rightarrow> port_id range_map \<Rightarrow> string + Range list" where
  "addr_ranges ds [] = Inr []"
| "addr_ranges ds ((p, i) # m) =
     (if \<exists>d \<in> set ds. crosses p d then Inl ''Devices can not set ranges that itersect the default set''
      else case addr_ranges ds m of Inl e \<Rightarrow> Inl e
        | Inr rs \<Rightarrow> Inr (if \<exists>d \<in> set ds. within p d then rs else p # rs))"

definition getAddrRanges :: "'a Router_scheme \<Rightarrow> string + Range list" where
  "getAddrRanges r = (case addr_ranges (defaultRange r) (portMap r) of Inl e \<Rightarrow> Inl e
     | Inr rs \<Rightarrow> Inr (defaultRange r @ rs))"

definition findBlockSize :: "32 word list \<Rightarrow> 'a Router_scheme \<Rightarrow> 32 word \<times> 'a Router_scheme" where
  "findBlockSize peer_sizes r =
     (if cachedBlockSizeValid r then (cachedBlockSize r, r)
      else let max_bs = fold max peer_sizes 0;
               max_bs = (if max_bs = 0 then defaultBlockSize r else max_bs)
           in (max_bs, r \<lparr>cachedBlockSize := max_bs, cachedBlockSizeValid := True\<rparr>))"

subsection \<open>The cache is transparent\<close>

text \<open>Where an address goes when the cache is left out.\<close>

definition route :: "addr \<Rightarrow> 'a Router_scheme \<Rightarrow> port_id option" where
  "route a r = (case List.find (\<lambda>e. pos_in_range a (fst e)) (portMap r) of
     Some e \<Rightarrow> Some (snd e)
   | None \<Rightarrow>
       if useDefaultRange r
       then (if \<exists>i \<in> set (defaultRange r). pos_in_range a i then Some (defaultPortID r) else None)
       else if defaultPortID r \<noteq> InvalidPortID then Some (defaultPortID r) else None)"

definition entry_ok :: "port_id range_map \<Rightarrow> PortCache \<Rightarrow> bool" where
  "entry_ok m c = (pc_valid c \<longrightarrow> (RangeIn (pc_start c) (pc_end c), pc_id c) \<in> set m)"

definition router_ok :: "'a Router_scheme \<Rightarrow> bool" where
  "router_ok r = (rm_ok (portMap r) \<and> (\<forall>e \<in> set (portMap r). snd e \<noteq> InvalidPortID)
     \<and> entry_ok (portMap r) (portCache0 r) \<and> entry_ok (portMap r) (portCache1 r) \<and> entry_ok (portMap r) (portCache2 r))"

lemma pc_hit_route:
  assumes "rm_ok (portMap r)" and "entry_ok (portMap r) c" and "pc_hit a c"
  shows "route a r = Some (pc_id c)"
proof -
  let ?e = "(RangeIn (pc_start c) (pc_end c), pc_id c)" let ?P = "\<lambda>e. pos_in_range a (fst e)"
  have e: "?e \<in> set (portMap r)" "?P ?e"
    using assms(2,3) by (auto simp: entry_ok_def pc_hit_def pos_in_range_def RangeIn_def)
  have "y = ?e" if "y \<in> set (portMap r)" "?P y" for y by (rule rm_ok_unique [OF assms(1) that(1) e(1) that(2) e(2)])
  then have "List.find ?P (portMap r) = Some ?e" by (rule find_unique [where P = ?P, OF e])
  then show ?thesis by (simp add: route_def)
qed

lemma checkPortCache_route:
  assumes "router_ok r" and "checkPortCache a r \<noteq> InvalidPortID"
  shows "route a r = Some (checkPortCache a r)"
  using assms pc_hit_route [of r _ a] unfolding checkPortCache_def router_ok_def by (auto split: if_splits)

lemma RangeIn_ends [simp]: "RangeIn (r_start rg) (r_end rg) = rg"
  by (simp add: RangeIn_def)

lemma updatePortCache_simps [simp]:
  "portMap (updatePortCache i s e r) = portMap r" "defaultRange (updatePortCache i s e r) = defaultRange r"
  "defaultPortID (updatePortCache i s e r) = defaultPortID r"
  "useDefaultRange (updatePortCache i s e r) = useDefaultRange r"
  by (simp_all add: updatePortCache_def)

lemma clearPortCache_simps [simp]:
  "portMap (clearPortCache r) = portMap r" "defaultPortID (clearPortCache r) = defaultPortID r"
  "useDefaultRange (clearPortCache r) = useDefaultRange r" "n_masters (clearPortCache r) = n_masters r"
  by (simp_all add: clearPortCache_def)

lemma updatePortCache_ok:
  assumes "router_ok r" and "(rg, i) \<in> set (portMap r)"
  shows "router_ok (updatePortCache i (r_start rg) (r_end rg) r)"
  using assms by (simp add: router_ok_def updatePortCache_def entry_ok_def)

lemma findPort_transparent_lemma:
  assumes ok: "router_ok r"
  shows "case findPort a r of
      Inl e \<Rightarrow> route a r = None
    | Inr (p, r') \<Rightarrow> route a r = Some p \<and> router_ok r' \<and> (\<forall>b. route b r' = route b r)"
proof (cases "checkPortCache a r = InvalidPortID")
  case False
  then show ?thesis using ok checkPortCache_route [OF ok False] by (simp add: findPort_def)
next
  case True
  have m: "rm_ok (portMap r)" using ok by (simp add: router_ok_def)
  show ?thesis
  proof (cases "List.find (\<lambda>e. pos_in_range a (fst e)) (portMap r)")
    case None
    then show ?thesis using True ok by (auto simp: findPort_def rm_find_address [OF m] route_def Let_def)
  next
    case (Some e)
    obtain rg p where e: "e = (rg, p)" by fastforce
    have "(rg, p) \<in> set (portMap r)" using find_SomeD [OF Some] e by simp
    moreover have "route b (updatePortCache p (r_start rg) (r_end rg) r) = route b r" for b
      by (auto simp: route_def split: option.split)
    ultimately show ?thesis
      using True Some e updatePortCache_ok [OF ok] by (simp add: findPort_def rm_find_address [OF m] route_def)
  qed
qed

text \<open>
  The three-entry port cache of the bus is transparent: whatever it holds, an
  address is routed as the port map and the default port say, and a lookup keeps the
  tables consistent and every other route unchanged.
\<close>

theorem findPort_transparent:
  assumes ok: "router_ok r"
  shows "case findPort a r of
      Inl e \<Rightarrow> route a r = None
    | Inr (p, r') \<Rightarrow> route a r = Some p \<and> router_ok r' \<and> (\<forall>b. route b r' = route b r)"
  by (rule findPort_transparent_lemma [OF ok])

definition sample_router :: Router where
  "sample_router = (let c = \<lparr>pc_valid = False, pc_id = 0, pc_start = 0, pc_end = 0\<rparr> in
     \<lparr>portMap = [(RangeIn 0 0xFF, 0), (RangeIn 0x100 0x1FF, 1)], defaultRange = [], portCache0 = c, portCache1 = c,
      portCache2 = c, defaultPortID = InvalidPortID, useDefaultRange = False, inRecvRangeChange = [], n_masters = 2,
      defaultBlockSize = 64, cachedBlockSize = 0, cachedBlockSizeValid = False\<rparr>)"

theorem findPort_transparent_witness:
  "\<exists>r'. findPort 0x180 sample_router = Inr (1, r') \<and> router_ok r'"
proof -
  have "router_ok sample_router"
    by (simp add: router_ok_def sample_router_def entry_ok_def RangeIn_def InvalidPortID_def Let_def)
  moreover have "findPort 0x180 sample_router = Inr (1, updatePortCache 1 0x100 0x1FF sample_router)"
    by (simp add: findPort_def checkPortCache_def pc_hit_def sample_router_def rm_find_def not_after_def
        range_less_def meets_def RangeSize_def RangeIn_def Let_def)
  ultimately show ?thesis using findPort_transparent [where r = sample_router and a = "0x180"] by simp
qed

text \<open>Announcing ranges empties the cache, so a consistent table stays consistent.\<close>

lemma insert_ranges_ids:
  "insert_ranges i rs m = Inr m' \<Longrightarrow> set m \<subseteq> set m' \<and> snd ` set m' \<subseteq> insert i (snd ` set m)"
proof (induction rs arbitrary: m)
  case (Cons r rs)
  obtain m1 where m1: "rm_insert r i m = (True, m1)" "insert_ranges i rs m1 = Inr m'"
    using Cons.prems by (auto split: prod.splits bool.splits)
  have "set (tree_insert r i m) \<subseteq> insert (r, i) (set m)" "set m \<subseteq> set (tree_insert r i m)"
    by (induction m) auto
  then have "set m \<subseteq> set m1" "snd ` set m1 \<subseteq> insert i (snd ` set m)"
    using m1(1) by (auto simp: rm_insert_def split: if_splits)
  then show ?case using Cons.IH [OF m1(2)] by blast
qed auto

lemma recvRangeChange_router_ok:
  assumes "router_ok r" and "recvRangeChange ranges_of i r = Some (Inr r')" and "rm_ok (portMap r')"
  shows "router_ok r'"
proof -
  have v: "entry_ok m (c \<lparr>pc_valid := False\<rparr>)" for m and c :: PortCache by (simp add: entry_ok_def)
  have inv: "sint i < 0 \<or> i \<noteq> InvalidPortID" by (auto simp: InvalidPortID_def)
  show ?thesis
  proof (cases "i \<in> set (inRecvRangeChange r) \<or> i = defaultPortID r")
    case True
    have "router_ok (clearPortCache r)" using assms(1) v by (simp add: router_ok_def clearPortCache_def)
    moreover have "r' = r \<or> (\<exists>ds. r' = (clearPortCache r) \<lparr>defaultRange := ds\<rparr>)"
      using True assms(2) unfolding recvRangeChange_def Let_def clearPortCache_simps by (auto split: if_splits)
    ultimately show ?thesis using assms(1) by (auto simp: router_ok_def)
  next
    case False
    then obtain m where m: "insert_ranges i (ranges_of i) (filter (\<lambda>e. snd e \<noteq> i) (portMap r)) = Inr m"
      "r' = (clearPortCache r) \<lparr>portMap := m\<rparr>" "0 \<le> sint i"
      using assms(2) unfolding recvRangeChange_def Let_def clearPortCache_simps
      by (auto split: sum.splits if_splits)
    have "i \<noteq> InvalidPortID" using inv m(3) by simp
    moreover have "\<forall>e \<in> set (portMap r). snd e \<noteq> InvalidPortID"
      using assms(1) by (simp add: router_ok_def)
    ultimately have no: "InvalidPortID \<notin> insert i (snd ` set (filter (\<lambda>e. snd e \<noteq> i) (portMap r)))" by auto
    have "\<forall>e \<in> set m. snd e \<noteq> InvalidPortID"
    proof
      fix e assume "e \<in> set m"
      then have "snd e \<in> insert i (snd ` set (filter (\<lambda>e. snd e \<noteq> i) (portMap r)))"
        using insert_ranges_ids [OF m(1)] by blast
      then show "snd e \<noteq> InvalidPortID" using no by metis
    qed
    then show ?thesis using assms(3) m(2) v by (simp add: router_ok_def clearPortCache_def)
  qed
qed

end
