(* ===== verification/RR_Buses.thy ===== *)
theory RR_Buses
imports RR_Machine Bus_Routing
begin

text \<open>
  The two round-robin buses (\<open>mem/rr_noncoherent_bus.cc\<close> and
  \<open>mem/rr_coherent_bus.cc\<close>): request and response handlers on top of the
  layers and the address decoder.

  The peers are parameters: \<open>send\<close> is the peer of a master port or a slave
  port receiving a packet, which answers and may change the packet; \<open>snoop\<close> a
  snooping cache.  A request object has a number \<open>rq\<close>, which stands for the
  pointer that the coherent bus keeps in \<open>outstandingReq\<close>.  Results are
  \<open>None\<close> for a failed assertion and \<open>Inl\<close> for \<open>fatal\<close>.
\<close>

record RR_NoncoherentBus = RRBus +
  router :: Router
  reqLayer :: Layer
  respLayer :: Layer
  req_tl :: int
  req_offset :: int
  resp_tl :: int
  resp_offset :: int
  n_slaves :: nat

type_synonym send = "port_id \<Rightarrow> Packet \<Rightarrow> bool \<times> Packet"

definition pkt_tid :: "Packet \<Rightarrow> int" where
  "pkt_tid pkt = to_int (threadID pkt)"

text \<open>The constructor, from the base class and the decoder without ports.\<close>

definition RR_NoncoherentBus_ctor :: "RRBus \<Rightarrow> Router \<Rightarrow> nat \<Rightarrow> bool \<Rightarrow> nat \<Rightarrow> int \<Rightarrow> int \<Rightarrow> int \<Rightarrow> int
    \<Rightarrow> RR_NoncoherentBus" where
  "RR_NoncoherentBus_ctor b r masters has_default slaves rtl roff ptl poff =
     (let r = (if has_default then r \<lparr>defaultPortID := of_nat masters, n_masters := masters + 1\<rparr>
               else r \<lparr>n_masters := masters\<rparr>)
      in RRBus.extend b \<lparr>router = clearPortCache r, reqLayer = Layer_new rtl roff b, respLayer = Layer_new ptl poff b,
           req_tl = rtl, req_offset = roff, resp_tl = ptl, resp_offset = poff, n_slaves = slaves\<rparr>)"

definition nc_recvTimingReq :: "tick \<Rightarrow> send \<Rightarrow> Packet \<Rightarrow> port_id \<Rightarrow> 'a RR_NoncoherentBus_scheme
    \<Rightarrow> (string + bool \<times> Packet \<times> 'a RR_NoncoherentBus_scheme) option" where
  "nc_recvTimingReq cur send pkt sp b = do {
     check (unat sp < n_slaves b);
     check (\<not> isExpressSnoop pkt);
     check (0 \<le> pkt_tid pkt);
     let t = nat (pkt_tid pkt);
     (free, l) \<leftarrow> tryTiming cur (unat sp) t b (reqLayer b);
     let b = b \<lparr>reqLayer := l\<rparr>;
     if \<not> free then Some (Inr (False, pkt, b))
     else do {
       (headerFinishTime, pkt) \<leftarrow> calcPacketTiming cur (setSrc sp pkt) (pkt_tid pkt) (req_tl b) (req_offset b) b;
       a \<leftarrow> getAddr pkt;
       case findPort a (router b) of
         Inl e \<Rightarrow> Some (Inl e)
       | Inr (dst, r) \<Rightarrow> do {
           let b = b \<lparr>router := r\<rparr>;
           check (unat dst < n_masters r);
           let (success, pkt') = send dst pkt;
           if \<not> success then do {
             check (\<not> memInhibitAsserted pkt');
             l \<leftarrow> failedTiming cur (unat sp) headerFinishTime t (reqLayer b);
             Some (Inr (False, pkt', b \<lparr>reqLayer := l\<rparr>)) }
           else do {
             l \<leftarrow> succeededTiming cur (finishTime pkt) t (reqLayer b);
             Some (Inr (True, pkt', b \<lparr>reqLayer := l\<rparr>)) } } } }"

definition nc_recvTimingResp :: "tick \<Rightarrow> send \<Rightarrow> Packet \<Rightarrow> port_id \<Rightarrow> 'a RR_NoncoherentBus_scheme
    \<Rightarrow> (bool \<times> Packet \<times> 'a RR_NoncoherentBus_scheme) option" where
  "nc_recvTimingResp cur send pkt mp b = do {
     check (unat mp < n_masters (router b));
     check (0 \<le> pkt_tid pkt);
     let t = nat (pkt_tid pkt);
     (free, l) \<leftarrow> tryTiming cur (unat mp) t b (respLayer b);
     let b = b \<lparr>respLayer := l\<rparr>;
     if \<not> free then Some (False, pkt, b)
     else do {
       (headerFinishTime, pkt) \<leftarrow> calcPacketTiming cur pkt (pkt_tid pkt) (resp_tl b) (resp_offset b) b;
       dst \<leftarrow> getDest pkt;
       check (unat dst < n_slaves b);
       let (success, pkt') = send dst pkt;
       check success;
       l \<leftarrow> succeededTiming cur (finishTime pkt) t (respLayer b);
       Some (True, pkt', b \<lparr>respLayer := l\<rparr>) } }"

text \<open>A retry from a peer: every domain in turn.\<close>

primrec recvRetry_upto :: "tick \<Rightarrow> peer \<Rightarrow> nat \<Rightarrow> 'a RRBus_scheme \<Rightarrow> Layer \<Rightarrow> Layer option" where
  "recvRetry_upto cur peer 0 b l = Some l"
| "recvRetry_upto cur peer (Suc i) b l = do { l \<leftarrow> recvRetry_upto cur peer i b l; recvRetry cur peer i b l }"

definition nc_recvRetry :: "tick \<Rightarrow> peer \<Rightarrow> 'a RR_NoncoherentBus_scheme \<Rightarrow> 'a RR_NoncoherentBus_scheme option" where
  "nc_recvRetry cur peer b = do {
     l \<leftarrow> recvRetry_upto cur peer (nat (num_pids b)) b (reqLayer b);
     Some (b \<lparr>reqLayer := l\<rparr>) }"

definition nc_recvAtomic :: "tick \<Rightarrow> (port_id \<Rightarrow> Packet \<Rightarrow> tick \<times> Packet) \<Rightarrow> Packet \<Rightarrow> 'a RR_NoncoherentBus_scheme
    \<Rightarrow> (string + tick \<times> Packet \<times> 'a RR_NoncoherentBus_scheme) option" where
  "nc_recvAtomic cur sendAtomic pkt b = do {
     a \<leftarrow> getAddr pkt;
     case findPort a (router b) of
       Inl e \<Rightarrow> Some (Inl e)
     | Inr (dst, r) \<Rightarrow> do {
         check (unat dst < n_masters r);
         let (latency, pkt) = sendAtomic dst pkt;
         Some (Inr (latency, pkt \<lparr>finishTime := cur + latency\<rparr>, b \<lparr>router := r\<rparr>)) } }"

definition nc_recvFunctional :: "(port_id \<Rightarrow> Packet \<Rightarrow> Packet) \<Rightarrow> Packet \<Rightarrow> 'a RR_NoncoherentBus_scheme
    \<Rightarrow> (string + Packet \<times> 'a RR_NoncoherentBus_scheme) option" where
  "nc_recvFunctional sendFunctional pkt b = do {
     a \<leftarrow> getAddr pkt;
     case findPort a (router b) of
       Inl e \<Rightarrow> Some (Inl e)
     | Inr (dst, r) \<Rightarrow> do {
         check (unat dst < n_masters r);
         Some (Inr (sendFunctional dst pkt, b \<lparr>router := r\<rparr>)) } }"

definition nc_drain :: "'a RR_NoncoherentBus_scheme \<Rightarrow> (nat \<times> 'a RR_NoncoherentBus_scheme) option" where
  "nc_drain b = do {
     (n, req) \<leftarrow> drain (reqLayer b);
     (k, resp) \<leftarrow> drain (respLayer b);
     Some (n + k, b \<lparr>reqLayer := req, respLayer := resp\<rparr>) }"


subsection \<open>The coherent bus\<close>

record RR_CoherentBus = RR_NoncoherentBus +
  snoopRespLayer :: Layer
  snoopPorts :: "port_id list"
  outstandingReq :: "nat list"

text \<open>
  The constructor builds the snoop response layer with the slots of the response
  layer; \<open>init\<close> collects the slave ports whose peer snoops.
\<close>

definition RR_CoherentBus_ctor :: "RRBus \<Rightarrow> Router \<Rightarrow> nat \<Rightarrow> bool \<Rightarrow> nat \<Rightarrow> int \<Rightarrow> int \<Rightarrow> int \<Rightarrow> int
    \<Rightarrow> RR_CoherentBus" where
  "RR_CoherentBus_ctor b r masters has_default slaves rtl roff ptl poff =
     RR_NoncoherentBus.extend (RR_NoncoherentBus_ctor b r masters has_default slaves rtl roff ptl poff)
       \<lparr>snoopRespLayer = Layer_new ptl poff b, snoopPorts = [], outstandingReq = []\<rparr>"

definition coh_init :: "(port_id \<Rightarrow> bool) \<Rightarrow> RR_CoherentBus \<Rightarrow> RR_CoherentBus" where
  "coh_init isSnooping b = b \<lparr>snoopPorts := filter isSnooping (map of_nat [0..<n_slaves b])\<rparr>"

text \<open>The ports a snoop goes to: all snooping ports but the excluded one.\<close>

definition snoop_targets :: "port_id \<Rightarrow> RR_CoherentBus \<Rightarrow> port_id list" where
  "snoop_targets ex b = filter (\<lambda>p. ex = InvalidPortID \<or> p \<noteq> ex) (snoopPorts b)"

definition forwardTiming :: "(port_id \<Rightarrow> Packet \<Rightarrow> Packet) \<Rightarrow> port_id \<Rightarrow> RR_CoherentBus \<Rightarrow> Packet \<Rightarrow> Packet" where
  "forwardTiming snoop ex b pkt = fold snoop (snoop_targets ex b) pkt"

definition coh_recvTimingReq :: "tick \<Rightarrow> send \<Rightarrow> (port_id \<Rightarrow> Packet \<Rightarrow> Packet) \<Rightarrow> nat \<Rightarrow> Packet \<Rightarrow> port_id
    \<Rightarrow> RR_CoherentBus \<Rightarrow> (string + bool \<times> Packet \<times> RR_CoherentBus) option" where
  "coh_recvTimingReq cur send snoop rq pkt sp b = do {
     check (unat sp < n_slaves b);
     let express = isExpressSnoop pkt;
     check (0 \<le> pkt_tid pkt);
     let t = nat (pkt_tid pkt);
     (free, l) \<leftarrow> (if express then Some (True, reqLayer b) else tryTiming cur (unat sp) t b (reqLayer b));
     let b = b \<lparr>reqLayer := l\<rparr>;
     if \<not> free then Some (Inr (False, pkt, b))
     else do {
       let pkt = setSrc sp pkt;
       (headerFinishTime, pkt) \<leftarrow> (if express then Some (0, pkt)
          else calcPacketTiming cur pkt (pkt_tid pkt) (req_tl b) (req_offset b) b);
       let packetFinishTime = (if express then 0 else finishTime pkt);
       let pkt = (if isUncacheable (req pkt) then pkt else forwardTiming snoop sp b pkt);
       let add = (\<not> express \<and> needsResponse (cmd pkt));
       check (add \<longrightarrow> rq \<notin> set (outstandingReq b));
       let b = (if add then b \<lparr>outstandingReq := rq # outstandingReq b\<rparr> else b);
       a \<leftarrow> getAddr pkt;
       case findPort a (router b) of
         Inl e \<Rightarrow> Some (Inl e)
       | Inr (dst, r) \<Rightarrow> do {
           let b = b \<lparr>router := r\<rparr>;
           check (unat dst < n_masters r);
           let (success, pkt') = send dst pkt;
           if express then do { check success; Some (Inr (success, pkt', b)) }
           else if \<not> success then do {
             check (\<not> memInhibitAsserted pkt');
             let b = (if add then b \<lparr>outstandingReq := removeAll rq (outstandingReq b)\<rparr> else b);
             l \<leftarrow> failedTiming cur (unat sp) headerFinishTime t (reqLayer b);
             Some (Inr (False, pkt', b \<lparr>reqLayer := l\<rparr>)) }
           else do {
             l \<leftarrow> succeededTiming cur packetFinishTime t (reqLayer b);
             Some (Inr (True, pkt', b \<lparr>reqLayer := l\<rparr>)) } } } }"

definition coh_recvTimingResp :: "tick \<Rightarrow> send \<Rightarrow> nat \<Rightarrow> Packet \<Rightarrow> port_id \<Rightarrow> RR_CoherentBus
    \<Rightarrow> (bool \<times> Packet \<times> RR_CoherentBus) option" where
  "coh_recvTimingResp cur send rq pkt mp b = do {
     check (unat mp < n_masters (router b));
     check (0 \<le> pkt_tid pkt);
     let t = nat (pkt_tid pkt);
     (free, l) \<leftarrow> tryTiming cur (unat mp) t b (respLayer b);
     let b = b \<lparr>respLayer := l\<rparr>;
     if \<not> free then Some (False, pkt, b)
     else do {
       (headerFinishTime, pkt) \<leftarrow> calcPacketTiming cur pkt (pkt_tid pkt) (resp_tl b) (resp_offset b) b;
       check (rq \<in> set (outstandingReq b));
       let b = b \<lparr>outstandingReq := removeAll rq (outstandingReq b)\<rparr>;
       dst \<leftarrow> getDest pkt;
       check (unat dst < n_slaves b);
       let (success, pkt') = send dst pkt;
       check success;
       l \<leftarrow> succeededTiming cur (finishTime pkt) t (respLayer b);
       Some (True, pkt', b \<lparr>respLayer := l\<rparr>) } }"

definition recvTimingSnoopReq :: "(port_id \<Rightarrow> Packet \<Rightarrow> Packet) \<Rightarrow> Packet \<Rightarrow> port_id \<Rightarrow> RR_CoherentBus
    \<Rightarrow> (string + Packet \<times> RR_CoherentBus) option" where
  "recvTimingSnoopReq snoop pkt mp b = do {
     check (isExpressSnoop pkt);
     let pkt = forwardTiming snoop InvalidPortID b (setSrc mp pkt);
     a \<leftarrow> getAddr pkt;
     case findPort a (router b) of
       Inl e \<Rightarrow> Some (Inl e)
     | Inr (dst, r) \<Rightarrow> do { check (mp = dst); Some (Inr (pkt, b \<lparr>router := r\<rparr>)) } }"

text \<open>The response layer for snoops is tried in its own slots but timed in those of the requests.\<close>

definition recvTimingSnoopResp :: "tick \<Rightarrow> send \<Rightarrow> send \<Rightarrow> nat \<Rightarrow> Packet \<Rightarrow> port_id \<Rightarrow> RR_CoherentBus
    \<Rightarrow> (bool \<times> Packet \<times> RR_CoherentBus) option" where
  "recvTimingSnoopResp cur to_master to_slave rq pkt sp b = do {
     check (unat sp < n_slaves b);
     check (0 \<le> pkt_tid pkt);
     let t = nat (pkt_tid pkt);
     (free, l) \<leftarrow> tryTiming cur (unat sp) t b (snoopRespLayer b);
     let b = b \<lparr>snoopRespLayer := l\<rparr>;
     if \<not> free then Some (False, pkt, b)
     else do {
       dst \<leftarrow> getDest pkt;
       check (\<not> isExpressSnoop pkt);
       (headerFinishTime, pkt) \<leftarrow> calcPacketTiming cur pkt (pkt_tid pkt) (req_tl b) (req_offset b) b;
       (success, pkt', b) \<leftarrow>
         (if rq \<notin> set (outstandingReq b) then do {
            check (unat dst < n_masters (router b));
            let (ok, q) = to_master dst pkt; Some (ok, q, b) }
          else do {
            check (sp \<noteq> dst);
            check (unat dst < n_slaves b);
            let (ok, q) = to_slave dst pkt;
            Some (ok, q, b \<lparr>outstandingReq := removeAll rq (outstandingReq b)\<rparr>) });
       check success;
       l \<leftarrow> succeededTiming cur (finishTime pkt) t (snoopRespLayer b);
       Some (True, pkt', b \<lparr>snoopRespLayer := l\<rparr>) } }"

text \<open>Snooping in atomic mode: the loop over the snooping ports.\<close>

fun atomic_snoops :: "(port_id \<Rightarrow> Packet \<Rightarrow> tick \<times> Packet) \<Rightarrow> Command \<Rightarrow> port_id list \<Rightarrow> Packet \<Rightarrow> Command \<Rightarrow> tick
    \<Rightarrow> (Command \<times> tick \<times> Packet) option" where
  "atomic_snoops snoop orig [] pkt resp lat = Some (resp, lat, pkt)"
| "atomic_snoops snoop orig (p # ps) pkt resp lat =
     (let (latency, pkt) = snoop p pkt in
      if isResponse (cmd pkt) then do {
        check (cmd pkt \<noteq> orig);
        check (memInhibitAsserted pkt);
        check (resp = InvalidCmd);
        atomic_snoops snoop orig ps (pkt \<lparr>cmd := orig\<rparr>) (cmd pkt) latency }
      else atomic_snoops snoop orig ps pkt resp lat)"

definition forwardAtomic :: "(port_id \<Rightarrow> Packet \<Rightarrow> tick \<times> Packet) \<Rightarrow> port_id \<Rightarrow> RR_CoherentBus \<Rightarrow> Packet
    \<Rightarrow> (Command \<times> tick \<times> Packet) option" where
  "forwardAtomic snoop ex b pkt = atomic_snoops snoop (cmd pkt) (snoop_targets ex b) pkt InvalidCmd 0"

definition coh_recvAtomic :: "tick \<Rightarrow> (port_id \<Rightarrow> Packet \<Rightarrow> tick \<times> Packet) \<Rightarrow> (port_id \<Rightarrow> Packet \<Rightarrow> tick \<times> Packet)
    \<Rightarrow> Packet \<Rightarrow> port_id \<Rightarrow> RR_CoherentBus \<Rightarrow> (string + tick \<times> Packet \<times> RR_CoherentBus) option" where
  "coh_recvAtomic cur sendAtomic snoop pkt sp b = do {
     (snoop_response_cmd, snoop_response_latency, pkt) \<leftarrow>
       (if isUncacheable (req pkt) then Some (InvalidCmd, 0, pkt) else forwardAtomic snoop sp b pkt);
     a \<leftarrow> getAddr pkt;
     case findPort a (router b) of
       Inl e \<Rightarrow> Some (Inl e)
     | Inr (dst, r) \<Rightarrow> do {
         check (unat dst < n_masters r);
         let (response_latency, pkt) = sendAtomic dst pkt;
         check (snoop_response_cmd \<noteq> InvalidCmd \<longrightarrow> \<not> isResponse (cmd pkt));
         let (response_latency, pkt) = (if snoop_response_cmd \<noteq> InvalidCmd
           then (snoop_response_latency, pkt \<lparr>cmd := snoop_response_cmd\<rparr>) else (response_latency, pkt));
         Some (Inr (response_latency, pkt \<lparr>finishTime := cur + response_latency\<rparr>, b \<lparr>router := r\<rparr>)) } }"

definition recvAtomicSnoop :: "tick \<Rightarrow> (port_id \<Rightarrow> Packet \<Rightarrow> tick \<times> Packet) \<Rightarrow> Packet \<Rightarrow> RR_CoherentBus
    \<Rightarrow> (tick \<times> Packet) option" where
  "recvAtomicSnoop cur snoop pkt b = do {
     (c, latency, pkt) \<leftarrow> forwardAtomic snoop InvalidPortID b pkt;
     let pkt = (if c \<noteq> InvalidCmd then pkt \<lparr>cmd := c\<rparr> else pkt);
     Some (latency, pkt \<lparr>finishTime := cur + latency\<rparr>) }"

text \<open>
  The functional snoop loop tests for a response after every port, also after
  the excluded one.
\<close>

fun functional_snoops :: "(port_id \<Rightarrow> Packet \<Rightarrow> Packet) \<Rightarrow> port_id \<Rightarrow> port_id list \<Rightarrow> Packet \<Rightarrow> Packet" where
  "functional_snoops snoop ex [] pkt = pkt"
| "functional_snoops snoop ex (p # ps) pkt =
     (let pkt = (if ex = InvalidPortID \<or> p \<noteq> ex then snoop p pkt else pkt) in
      if isResponse (cmd pkt) then pkt else functional_snoops snoop ex ps pkt)"

definition forwardFunctional :: "(port_id \<Rightarrow> Packet \<Rightarrow> Packet) \<Rightarrow> port_id \<Rightarrow> RR_CoherentBus \<Rightarrow> Packet \<Rightarrow> Packet" where
  "forwardFunctional snoop ex b pkt = functional_snoops snoop ex (snoopPorts b) pkt"

definition coh_recvFunctional :: "(port_id \<Rightarrow> Packet \<Rightarrow> Packet) \<Rightarrow> (port_id \<Rightarrow> Packet \<Rightarrow> Packet) \<Rightarrow> Packet \<Rightarrow> port_id
    \<Rightarrow> RR_CoherentBus \<Rightarrow> (string + Packet \<times> RR_CoherentBus) option" where
  "coh_recvFunctional sendFunctional snoop pkt sp b = do {
     let pkt = (if isUncacheable (req pkt) then pkt else forwardFunctional snoop sp b pkt);
     if isResponse (cmd pkt) then Some (Inr (pkt, b))
     else do {
       a \<leftarrow> getAddr pkt;
       case findPort a (router b) of
         Inl e \<Rightarrow> Some (Inl e)
       | Inr (dst, r) \<Rightarrow> do {
           check (unat dst < n_masters r);
           Some (Inr (sendFunctional dst pkt, b \<lparr>router := r\<rparr>)) } } }"

definition recvFunctionalSnoop :: "(port_id \<Rightarrow> Packet \<Rightarrow> Packet) \<Rightarrow> Packet \<Rightarrow> RR_CoherentBus \<Rightarrow> Packet" where
  "recvFunctionalSnoop snoop pkt b = forwardFunctional snoop InvalidPortID b pkt"

definition coh_drain :: "RR_CoherentBus \<Rightarrow> (nat \<times> RR_CoherentBus) option" where
  "coh_drain b = do {
     (n, req) \<leftarrow> drain (reqLayer b);
     (k, resp) \<leftarrow> drain (respLayer b);
     (j, sresp) \<leftarrow> drain (snoopRespLayer b);
     Some (n + k + j, b \<lparr>reqLayer := req, respLayer := resp, snoopRespLayer := sresp\<rparr>) }"


subsection \<open>The handlers drive their layers as single sends\<close>

lemma calcPacketTiming_cong:
  assumes "cmd p = cmd q" and "flags p = flags q" and "pkt_size p = pkt_size q"
  shows "map_option (\<lambda>(h, p). (h, finishTime p)) (calcPacketTiming cur p t tlen off b)
    = map_option (\<lambda>(h, p). (h, finishTime p)) (calcPacketTiming cur q t tlen off b)"
proof -
  have "data_cycles p b = data_cycles q b" using assms by (simp add: data_cycles_def getSize_def)
  then show ?thesis
    by (cases "calcFinishTime cur t (headerCycles b) tlen off b"; cases "data_cycles q b";
        cases "calcFinishTime cur t (headerCycles b + 1) tlen off b";
        cases "calcFinishTime cur t (headerCycles b + the (data_cycles q b)) tlen off b")
      (simp_all add: calcPacketTiming_def)
qed

lemma calcPacketTiming_setSrc:
  assumes "calcPacketTiming cur (setSrc sp p) t tlen off b = Some (h, q)"
  shows "\<exists>q'. calcPacketTiming cur p t tlen off b = Some (h, q') \<and> finishTime q' = finishTime q"
  using calcPacketTiming_cong [of "setSrc sp p" p cur t tlen off b] assms
  by (cases "calcPacketTiming cur p t tlen off b") (auto simp: setSrc_def)

lemma calcPacketTiming_addr:
  "calcPacketTiming cur p t tlen off b = Some (h, q) \<Longrightarrow> getAddr q = getAddr p"
  by (auto simp: calcPacketTiming_def bind_eq_Some getAddr_def)

lemma RRBus_more_irrelevant:
  "active_id cur tlen off (b \<lparr>reqLayer := l\<rparr>) = active_id cur tlen off b"
  "calcPacketTiming cur p t tlen off (b \<lparr>reqLayer := l\<rparr>) = calcPacketTiming cur p t tlen off b"
  "calcPacketTiming cur p t tlen off (b \<lparr>respLayer := l\<rparr>) = calcPacketTiming cur p t tlen off b"
proof -
  have n: "fst (nextCycle cur (b \<lparr>reqLayer := l\<rparr>)) = fst (nextCycle cur b)"
    "fst (nextCycle cur (b \<lparr>respLayer := l\<rparr>)) = fst (nextCycle cur b)"
    by (simp_all add: nextCycle_def clockEdge_def update_def Let_def)
  show "active_id cur tlen off (b \<lparr>reqLayer := l\<rparr>) = active_id cur tlen off b"
    by (simp add: active_id_def n Let_def)
  have f: "calcFinishTime cur t ds tlen off (b \<lparr>reqLayer := l\<rparr>) = calcFinishTime cur t ds tlen off b"
    "calcFinishTime cur t ds tlen off (b \<lparr>respLayer := l\<rparr>) = calcFinishTime cur t ds tlen off b" for ds
    by (simp_all add: calcFinishTime_def n Let_def)
  show "calcPacketTiming cur p t tlen off (b \<lparr>reqLayer := l\<rparr>) = calcPacketTiming cur p t tlen off b"
    "calcPacketTiming cur p t tlen off (b \<lparr>respLayer := l\<rparr>) = calcPacketTiming cur p t tlen off b"
    by (simp_all add: calcPacketTiming_def f data_cycles_def)
qed

definition slots_agree :: "'a RR_NoncoherentBus_scheme \<Rightarrow> bool" where
  "slots_agree b = (l_tl (reqLayer b) = req_tl b \<and> l_offset (reqLayer b) = req_offset b
     \<and> l_tl (respLayer b) = resp_tl b \<and> l_offset (respLayer b) = resp_offset b)"

lemma tryTiming_slots: "tryTiming cur p t b l = Some (r, l') \<Longrightarrow> l_tl l' = l_tl l \<and> l_offset l' = l_offset l"
  by (auto simp: tryTiming_def bind_eq_Some Let_def split: if_splits)

text \<open>
  C39: Whenever the request handler of the non-coherent round-robin bus returns without
  a failed assertion or an address that no port claims, it has driven its request layer
  exactly as one send of the packet by its domain and left the response layer alone. A
  packet that the layer refuses is returned as it was; any other is delivered to the
  port its address is routed to, unchanged but for its source and the times of its first
  and last word, which are the finish times of one cycle after the header and of all its
  cycles in the slots of requests.
\<close>

theorem recvTimingReq_drives_layer:
  assumes run: "nc_recvTimingReq cur send pkt sp b = Some (Inr (r, pkt', b'))"
    and slots: "slots_agree b" and rt: "router_ok (router b)"
  shows "sendTiming cur (unat sp) (nat (pkt_tid pkt)) pkt r b (reqLayer b) = Some (r, reqLayer b')
    \<and> respLayer b' = respLayer b \<and> router_ok (router b')
    \<and> (\<exists>free l. tryTiming cur (unat sp) (nat (pkt_tid pkt)) b (reqLayer b) = Some (free, l)
        \<and> (if free
           then \<exists>a dst n fw fin. getAddr pkt = Some a \<and> route a (router b) = Some dst \<and> data_cycles pkt b = Some n
             \<and> calcFinishTime cur (pkt_tid pkt) (headerCycles b + 1) (req_tl b) (req_offset b) b = Some fw
             \<and> calcFinishTime cur (pkt_tid pkt) (headerCycles b + n) (req_tl b) (req_offset b) b = Some fin
             \<and> send dst (pkt \<lparr>src := sp, firstWordTime := fw, finishTime := fin\<rparr>) = (r, pkt')
           else \<not> r \<and> pkt' = pkt))"
proof -
  let ?t = "nat (pkt_tid pkt)"
  have tid: "int ?t = pkt_tid pkt" using run by (auto simp: nc_recvTimingReq_def split: if_splits)
  obtain free l where tr: "tryTiming cur (unat sp) ?t b (reqLayer b) = Some (free, l)"
    using run by (auto simp: nc_recvTimingReq_def bind_eq_Some Let_def split: if_splits)
  have tl: "l_tl l = req_tl b" "l_offset l = req_offset b"
    using tryTiming_slots [OF tr] slots by (simp_all add: slots_agree_def)
  show ?thesis
  proof (cases free)
    case False
    then have "r = False" "b' = b \<lparr>reqLayer := l\<rparr>" "pkt' = pkt" using run tr by (auto simp: nc_recvTimingReq_def Let_def split: if_splits)
    then show ?thesis using False tr rt by (auto simp: sendTiming_def)
  next
    case True
    obtain h q where ct: "calcPacketTiming cur (setSrc sp pkt) (pkt_tid pkt) (req_tl b) (req_offset b) b = Some (h, q)"
      using run tr True by (auto simp: nc_recvTimingReq_def bind_eq_Some Let_def RRBus_more_irrelevant split: if_splits)
    obtain q' where q': "calcPacketTiming cur pkt (int ?t) (l_tl l) (l_offset l) b = Some (h, q')" "finishTime q' = finishTime q"
      using calcPacketTiming_setSrc [OF ct] tid tl by auto
    obtain a where a: "getAddr q = Some a" "getAddr pkt = Some a"
      using run tr True ct calcPacketTiming_addr [OF ct]
      by (auto simp: nc_recvTimingReq_def bind_eq_Some Let_def RRBus_more_irrelevant getAddr_def setSrc_def split: if_splits)
    obtain dst r' where fp: "findPort a (router b) = Inr (dst, r')"
      using run tr True ct a
      by (cases "findPort a (router b)") (auto simp: nc_recvTimingReq_def Let_def RRBus_more_irrelevant split: if_splits)
    have rok: "route a (router b) = Some dst" "router_ok r'"
      using findPort_transparent_lemma [OF rt, of a] fp by auto
    obtain s p where sd: "send dst q = (s, p)" by fastforce
    have dc: "data_cycles (setSrc sp pkt) b = data_cycles pkt b" by (simp add: data_cycles_def getSize_def setSrc_def)
    obtain n fw fin where sq: "data_cycles pkt b = Some n"
      "calcFinishTime cur (pkt_tid pkt) (headerCycles b + 1) (req_tl b) (req_offset b) b = Some fw"
      "calcFinishTime cur (pkt_tid pkt) (headerCycles b + n) (req_tl b) (req_offset b) b = Some fin"
      "q = pkt \<lparr>src := sp, firstWordTime := fw, finishTime := fin\<rparr>"
      using ct dc by (auto simp: calcPacketTiming_def bind_eq_Some setSrc_def)
    have rest: "(if s then succeededTiming cur (finishTime q) ?t l else failedTiming cur (unat sp) h ?t l) = Some (reqLayer b')
       \<and> r = s \<and> p = pkt' \<and> respLayer b' = respLayer b \<and> router b' = r'"
      using run tr True ct a fp sd
      by (auto simp: nc_recvTimingReq_def bind_eq_Some Let_def RRBus_more_irrelevant split: if_splits)
    have "sendTiming cur (unat sp) ?t pkt r b (reqLayer b) = Some (r, reqLayer b')"
      using tr True q' rest by (auto simp: sendTiming_def)
    moreover have "send dst (pkt \<lparr>src := sp, firstWordTime := fw, finishTime := fin\<rparr>) = (r, pkt')" using sd sq(4) rest by simp
    ultimately show ?thesis using rest rok a(2) sq(1-3) tr True by auto
  qed
qed


definition sample_bus :: "int \<Rightarrow> int \<Rightarrow> int \<Rightarrow> int \<Rightarrow> RR_NoncoherentBus" where
  "sample_bus rtl roff ptl poff = RR_NoncoherentBus_ctor two_domain_bus sample_router 2 False 2 rtl roff ptl poff"

lemma sample_bus_ok: "slots_agree (sample_bus 3 0 3 0) \<and> router_ok (router (sample_bus 3 0 3 0))"
  by (simp add: slots_agree_def sample_bus_def RR_NoncoherentBus_ctor_def RRBus.defs Layer_new_def Let_def
      router_ok_def sample_router_def clearPortCache_def entry_ok_def RangeIn_def InvalidPortID_def)

theorem recvTimingReq_drives_layer_witness:
  "\<exists>pkt' b'. nc_recvTimingReq 7000 (\<lambda>_ p. (True, p)) (sample_pkt ReadReq 0x180 8 None) 1 (sample_bus 3 0 3 0)
      = Some (Inr (True, pkt', b'))
    \<and> sendTiming 7000 1 0 (sample_pkt ReadReq 0x180 8 None) True (sample_bus 3 0 3 0) (reqLayer (sample_bus 3 0 3 0))
      = Some (True, reqLayer b')"
proof -
  let ?s = "\<lambda>_ p. (True, p)" and ?p = "sample_pkt ReadReq 0x180 8 None"
  have "case nc_recvTimingReq 7000 ?s ?p 1 (sample_bus 3 0 3 0) of Some (Inr (r, _)) \<Rightarrow> r | _ \<Rightarrow> False"
    by code_simp
  then obtain pkt' b' where r: "nc_recvTimingReq 7000 ?s ?p 1 (sample_bus 3 0 3 0) = Some (Inr (True, pkt', b'))"
    by (auto split: option.splits sum.splits)
  moreover have "nat (pkt_tid ?p) = 0" "unat (1 :: port_id) = 1" by (simp_all add: pkt_tid_def sample_pkt_def to_int_def)
  ultimately show ?thesis using recvTimingReq_drives_layer [OF r] sample_bus_ok by auto
qed

subsection \<open>Snoops\<close>

text \<open>
  In atomic mode a snooped request fails exactly when more than one cache owns the
  block; otherwise the request keeps its command, and a response comes back exactly
  when one cache owns it.
\<close>

theorem forwardAtomic_single_owner:
  assumes "\<forall>p \<in> set (snoop_targets ex b). \<forall>q. cmd q = cmd pkt \<longrightarrow>
      (if p \<in> owners then isResponse (cmd (snd (snoop p q))) \<and> cmd (snd (snoop p q)) \<noteq> cmd pkt \<and> memInhibitAsserted (snd (snoop p q))
       else cmd (snd (snoop p q)) = cmd pkt)"
    and "\<not> isResponse (cmd pkt)"
  shows "(forwardAtomic snoop ex b pkt = None \<longleftrightarrow> 1 < length (filter (\<lambda>p. p \<in> owners) (snoop_targets ex b)))
    \<and> (\<forall>c lat q. forwardAtomic snoop ex b pkt = Some (c, lat, q) \<longrightarrow> cmd q = cmd pkt
        \<and> (c \<noteq> InvalidCmd \<longleftrightarrow> (\<exists>p \<in> set (snoop_targets ex b). p \<in> owners)))"
proof -
  have inv: "\<not> isResponse InvalidCmd" by code_simp
  have "(atomic_snoops snoop (cmd pkt) ps q resp lat = None
        \<longleftrightarrow> (if resp = InvalidCmd then 1 else 0) < length (filter (\<lambda>p. p \<in> owners) ps))
      \<and> (\<forall>c l r. atomic_snoops snoop (cmd pkt) ps q resp lat = Some (c, l, r) \<longrightarrow> cmd r = cmd pkt
          \<and> (c \<noteq> InvalidCmd \<longleftrightarrow> resp \<noteq> InvalidCmd \<or> (\<exists>p \<in> set ps. p \<in> owners)))"
    if "set ps \<subseteq> set (snoop_targets ex b)" "cmd q = cmd pkt" for ps q resp lat
    using that
  proof (induction ps arbitrary: q resp lat)
    case (Cons p ps)
    obtain l r where lr: "snoop p q = (l, r)" by fastforce
    have a: "if p \<in> owners then isResponse (cmd r) \<and> cmd r \<noteq> cmd pkt \<and> memInhibitAsserted r else cmd r = cmd pkt"
      using assms(1) Cons.prems lr by (metis list.set_intros(1) snd_conv subsetD)
    have sub: "set ps \<subseteq> set (snoop_targets ex b)" using Cons.prems by simp
    show ?case
    proof (cases "p \<in> owners")
      case True
      then have rr: "isResponse (cmd r)" "cmd r \<noteq> cmd pkt" "memInhibitAsserted r" "cmd r \<noteq> InvalidCmd"
        using a inv by auto
      have step: "atomic_snoops snoop (cmd pkt) (p # ps) q resp lat = (if resp = InvalidCmd
          then atomic_snoops snoop (cmd pkt) ps (r \<lparr>cmd := cmd pkt\<rparr>) (cmd r) l else None)"
        using rr lr by simp
      have len: "length (filter (\<lambda>p. p \<in> owners) (p # ps)) = Suc (length (filter (\<lambda>p. p \<in> owners) ps))"
        using True by simp
      note ih = Cons.IH [OF sub, of "r \<lparr>cmd := cmd pkt\<rparr>" "cmd r" l]
      have c: "cmd (r \<lparr>cmd := cmd pkt\<rparr>) = cmd pkt" by simp
      have ex: "\<exists>x \<in> set (p # ps). x \<in> owners" using True by simp
      show ?thesis
      proof (cases "resp = InvalidCmd")
        case True
        note i = ih [OF c, unfolded if_not_P [OF rr(4)]]
        show ?thesis unfolding step len if_P [OF True]
        proof
          show "(atomic_snoops snoop (cmd pkt) ps (r \<lparr>cmd := cmd pkt\<rparr>) (cmd r) l = None)
              = (1 < Suc (length (filter (\<lambda>p. p \<in> owners) ps)))"
            unfolding conjunct1 [OF i] by simp
        qed (use conjunct2 [OF i] rr(4) ex in blast)
      next
        case False
        show ?thesis unfolding step len if_not_P [OF False] by simp
      qed
    next
      case False
      then have q: "cmd r = cmd pkt" using a by simp
      have step: "atomic_snoops snoop (cmd pkt) (p # ps) q resp lat = atomic_snoops snoop (cmd pkt) ps r resp lat"
        using q assms(2) lr by simp
      have len: "filter (\<lambda>p. p \<in> owners) (p # ps) = filter (\<lambda>p. p \<in> owners) ps"
        "(\<exists>x \<in> set (p # ps). x \<in> owners) \<longleftrightarrow> (\<exists>x \<in> set ps. x \<in> owners)"
        using False by simp_all
      show ?thesis unfolding step len by (rule Cons.IH [OF sub q])
    qed
  qed simp
  from this [of "snoop_targets ex b" pkt InvalidCmd 0] show ?thesis by (simp add: forwardAtomic_def)
qed


definition sample_coherent :: "int \<Rightarrow> int \<Rightarrow> int \<Rightarrow> int \<Rightarrow> RR_CoherentBus" where
  "sample_coherent rtl roff ptl poff = coh_init (\<lambda>_. True)
     (RR_CoherentBus_ctor two_domain_bus sample_router 2 False 3 rtl roff ptl poff)"

text \<open>Port 1 owns the block and answers; the others keep quiet.\<close>

definition sample_snoop :: "port_id \<Rightarrow> Packet \<Rightarrow> tick \<times> Packet" where
  "sample_snoop p q = (if p = 1 then (500, assertMemInhibit (q \<lparr>cmd := ReadResp\<rparr>)) else (0, q))"

theorem forwardAtomic_single_owner_witness:
  "\<exists>c lat q. forwardAtomic sample_snoop 0 (sample_coherent 3 0 3 0) (sample_pkt ReadReq 0x180 8 None) = Some (c, lat, q)
    \<and> c \<noteq> InvalidCmd \<and> cmd q = ReadReq"
proof -
  let ?b = "sample_coherent 3 0 3 0" and ?p = "sample_pkt ReadReq 0x180 8 None"
  have t: "snoop_targets 0 ?b = [1, 2]"
    by (simp add: snoop_targets_def sample_coherent_def coh_init_def RR_CoherentBus_ctor_def RR_NoncoherentBus_ctor_def
        RR_NoncoherentBus.defs RRBus.defs InvalidPortID_def numeral_3_eq_3)
  have r: "isResponse ReadResp" "\<not> isResponse ReadReq" by code_simp+
  have m: "memInhibitAsserted (assertMemInhibit q)" for q by (simp add: memInhibitAsserted_def assertMemInhibit_def flags_defs pkt_flag_defs bit_simps)
  have p: "cmd ?p = ReadReq" by (simp add: sample_pkt_def)
  have c: "cmd (assertMemInhibit q) = cmd q" for q by (simp add: assertMemInhibit_def)
  show ?thesis
    using forwardAtomic_single_owner [of 0 ?b ?p "{1}" sample_snoop] r m t
    by (cases "forwardAtomic sample_snoop 0 ?b ?p") (auto simp: sample_snoop_def p c)
qed

lemma coherent_irrelevant:
  "active_id cur tlen off (b \<lparr>snoopRespLayer := l\<rparr>) = active_id cur tlen off b"
  "active_id cur tlen off (b \<lparr>outstandingReq := rqs\<rparr>) = active_id cur tlen off b"
  "calcPacketTiming cur p t tlen off (b \<lparr>snoopRespLayer := l\<rparr>) = calcPacketTiming cur p t tlen off b"
proof -
  have n: "fst (nextCycle cur (b \<lparr>snoopRespLayer := l\<rparr>)) = fst (nextCycle cur b)"
    "fst (nextCycle cur (b \<lparr>outstandingReq := rqs\<rparr>)) = fst (nextCycle cur b)"
    by (simp_all add: nextCycle_def clockEdge_def update_def Let_def)
  show "active_id cur tlen off (b \<lparr>snoopRespLayer := l\<rparr>) = active_id cur tlen off b"
    "active_id cur tlen off (b \<lparr>outstandingReq := rqs\<rparr>) = active_id cur tlen off b"
    by (simp_all add: active_id_def n Let_def)
  have "calcFinishTime cur t ds tlen off (b \<lparr>snoopRespLayer := l\<rparr>) = calcFinishTime cur t ds tlen off b" for ds
    by (simp add: calcFinishTime_def n Let_def)
  then show "calcPacketTiming cur p t tlen off (b \<lparr>snoopRespLayer := l\<rparr>) = calcPacketTiming cur p t tlen off b"
    by (simp add: calcPacketTiming_def data_cycles_def)
qed

text \<open>A busy domain of a layer has its release event scheduled.\<close>

definition busy_released :: "Layer \<Rightarrow> bool" where
  "busy_released l \<longleftrightarrow> (\<forall>t < length (l_state l). l_state l ! t = BUSY \<longrightarrow> t < length (releaseEvent l) \<and> releaseEvent l ! t \<noteq> None)"

text \<open>An accepted transfer: its domain gets the release event, and no other domain changes.\<close>

lemma accepted_release:
  assumes "tryTiming cur p t b l = Some (True, l1)" "succeededTiming cur w t l1 = Some l2"
  shows "t < length (releaseEvent l2)" "releaseEvent l2 ! t = Some w" "length (l_state l2) = length (l_state l)"
    "length (releaseEvent l2) = length (releaseEvent l)" "l_tl l2 = l_tl l" "l_offset l2 = l_offset l"
    "\<forall>k. k \<noteq> t \<longrightarrow> l_state l2 ! k = l_state l ! k \<and> releaseEvent l2 ! k = releaseEvent l ! k"
proof -
  have l1: "length (l_state l1) = length (l_state l)" "releaseEvent l1 = releaseEvent l" "l_tl l1 = l_tl l" "l_offset l1 = l_offset l"
    "\<forall>k. k \<noteq> t \<longrightarrow> l_state l1 ! k = l_state l ! k"
    using assms(1) by (auto simp: tryTiming_def bind_eq_Some_conv Let_def split: if_splits)
  have l2: "t < length (releaseEvent l2) \<and> releaseEvent l2 ! t = Some w \<and> length (l_state l2) = length (l_state l1)
      \<and> length (releaseEvent l2) = length (releaseEvent l1) \<and> l_tl l2 = l_tl l1 \<and> l_offset l2 = l_offset l1
      \<and> (\<forall>k. k \<noteq> t \<longrightarrow> l_state l2 ! k = l_state l1 ! k \<and> releaseEvent l2 ! k = releaseEvent l1 ! k)"
    using assms(2) by (auto simp: succeededTiming_def occupyLayer_def schedule_def at_def bind_eq_Some_conv split: if_splits)
  show "t < length (releaseEvent l2)" "releaseEvent l2 ! t = Some w" "length (l_state l2) = length (l_state l)"
    "length (releaseEvent l2) = length (releaseEvent l)" "l_tl l2 = l_tl l" "l_offset l2 = l_offset l"
    "\<forall>k. k \<noteq> t \<longrightarrow> l_state l2 ! k = l_state l ! k \<and> releaseEvent l2 ! k = releaseEvent l ! k"
    using l1 l2 by simp_all
qed

text \<open>
  C40: A snoop response that the coherent bus accepts, on a layer whose busy domains
  have their release scheduled, is timed in the slots of the requests: its release is
  scheduled at the tick that its cycles take there. When that tick is not in the turn of
  its domain in the slots of responses, which the layer itself uses, the release fails
  its assertion.
\<close>

theorem snoop_response_wrong_slot:
  assumes run: "recvTimingSnoopResp cur to_master to_slave rq pkt sp b = Some (True, pkt', b')"
    and busy: "busy_released (snoopRespLayer b)"
    and slots: "l_tl (snoopRespLayer b) = resp_tl b" "l_offset (snoopRespLayer b) = resp_offset b"
  shows "\<exists>n w. data_cycles pkt b = Some n
    \<and> calcFinishTime cur (pkt_tid pkt) (headerCycles b + n) (req_tl b) (req_offset b) b = Some w
    \<and> releaseEvent (snoopRespLayer b') ! nat (pkt_tid pkt) = Some w
    \<and> (active_id w (resp_tl b) (resp_offset b) b \<noteq> Some (pkt_tid pkt)
        \<longrightarrow> fireRelease w peer (nat (pkt_tid pkt)) b' (snoopRespLayer b') = None)"
proof -
  let ?t = "nat (pkt_tid pkt)" and ?L = "snoopRespLayer b"
  have tid: "int ?t = pkt_tid pkt" using run by (auto simp: recvTimingSnoopResp_def split: if_splits)
  obtain free l1 where tr: "tryTiming cur (unat sp) ?t b ?L = Some (free, l1)"
    using run by (auto simp: recvTimingSnoopResp_def bind_eq_Some_conv Let_def split: if_splits)
  have free: free using run tr by (auto simp: recvTimingSnoopResp_def bind_eq_Some_conv Let_def split: if_splits)
  obtain h q where ct: "calcPacketTiming cur pkt (pkt_tid pkt) (req_tl b) (req_offset b) b = Some (h, q)"
    using run tr free by (auto simp: recvTimingSnoopResp_def bind_eq_Some_conv Let_def coherent_irrelevant split: if_splits)
  obtain l2 where l2: "succeededTiming cur (finishTime q) ?t l1 = Some l2"
    "b' = b \<lparr>snoopRespLayer := l2\<rparr> \<or> b' = b \<lparr>outstandingReq := removeAll rq (outstandingReq b), snoopRespLayer := l2\<rparr>"
    using run tr free ct
    by (auto simp: recvTimingSnoopResp_def bind_eq_Some_conv Let_def coherent_irrelevant split: if_splits prod.splits)
  obtain n where n: "data_cycles pkt b = Some n"
    "calcFinishTime cur (pkt_tid pkt) (headerCycles b + n) (req_tl b) (req_offset b) b = Some (finishTime q)"
    using ct by (auto simp: calcPacketTiming_def bind_eq_Some_conv)
  note a = accepted_release [OF tr [unfolded free [THEN eqTrueI]] l2(1)]
  have act: "active_id w (l_tl l2) (l_offset l2) b' = active_id w (resp_tl b) (resp_offset b) b" for w
    using l2(2)
  proof
    assume "b' = b \<lparr>outstandingReq := removeAll rq (outstandingReq b), snoopRespLayer := l2\<rparr>"
    then show ?thesis unfolding a(5,6) slots by (simp only: coherent_irrelevant)
  qed (simp only: a(5,6) slots coherent_irrelevant)
  have "fireRelease w peer ?t b' l2 = None" if ne: "active_id w (resp_tl b) (resp_offset b) b \<noteq> Some (pkt_tid pkt)" for w
  proof (cases "active_id w (l_tl l2) (l_offset l2) b'")
    case None
    then show ?thesis by (auto simp: fireRelease_def releaseLayer_def Option.bind_eq_None_conv)
  next
    case (Some k)
    then have "k \<noteq> int ?t" using ne act tid by auto
    then have k: "0 \<le> k \<Longrightarrow> nat k \<noteq> ?t" by (metis int_nat_eq)
    have "l_state l2 ! nat k = BUSY \<Longrightarrow> nat k < length (l_state l2) \<Longrightarrow> releaseEvent l2 ! nat k \<noteq> None" if "0 \<le> k"
      using busy a(3,7) k [OF that] by (simp add: busy_released_def)
    then show ?thesis
      using Some k by (auto simp: fireRelease_def releaseLayer_def at_def Let_def Option.bind_eq_None_conv)
  qed
  moreover have "snoopRespLayer b' = l2" using l2(2) by auto
  ultimately show ?thesis using n a(2) by (intro exI [of _ n] exI [of _ "finishTime q"]) simp
qed

text \<open>
  Request slots of one cycle, response slots of three: a response of two data cycles
  that domain 0 starts at the beginning of its turn ends in the turn of domain 1.
\<close>

theorem snoop_response_wrong_slot_witness:
  "\<exists>pkt' b' w. recvTimingSnoopResp 7000 (\<lambda>_ p. (True, p)) (\<lambda>_ p. (True, p)) 9
        (sample_pkt WriteResp 0x180 8 None) 1 (sample_coherent 1 0 3 0) = Some (True, pkt', b')
    \<and> releaseEvent (snoopRespLayer b') ! 0 = Some w \<and> active_id w 3 0 (sample_coherent 1 0 3 0) = Some 1
    \<and> fireRelease w silent 0 b' (snoopRespLayer b') = None"
proof -
  let ?b = "sample_coherent 1 0 3 0" and ?p = "sample_pkt WriteResp 0x180 8 None"
  let ?r = "recvTimingSnoopResp 7000 (\<lambda>_ p. (True, p)) (\<lambda>_ p. (True, p)) 9 ?p 1 ?b"
  have "case ?r of Some (True, _, b') \<Rightarrow> (case releaseEvent (snoopRespLayer b') ! 0 of Some w \<Rightarrow>
      active_id w 3 0 ?b = Some 1 | None \<Rightarrow> False) | _ \<Rightarrow> False" by code_simp
  then obtain pkt' b' w where r: "?r = Some (True, pkt', b')" "releaseEvent (snoopRespLayer b') ! 0 = Some w" "active_id w 3 0 ?b = Some 1"
    by (auto split: option.splits bool.splits)
  have f: "resp_tl ?b = 3" "resp_offset ?b = 0" "nat (pkt_tid ?p) = 0" "pkt_tid ?p = 0"
    "l_tl (snoopRespLayer ?b) = resp_tl ?b" "l_offset (snoopRespLayer ?b) = resp_offset ?b" "busy_released (snoopRespLayer ?b)"
    by (simp_all add: sample_coherent_def coh_init_def RR_CoherentBus_ctor_def RR_NoncoherentBus_ctor_def RR_NoncoherentBus.defs
        RRBus.defs Layer_new_def Let_def busy_released_def pkt_tid_def sample_pkt_def to_int_def)
  from snoop_response_wrong_slot [OF r(1) f(7,5,6), of silent] show ?thesis using r f(1-4) by auto
qed

end
