(* ===== verification/Abstract_Mem.thy ===== *)
theory Abstract_Mem
imports Mem_Packet Range_Map
begin

text \<open>
  The memory at the end of the hierarchy (\<open>mem/abstract_mem.cc\<close>,
  \<open>mem/simple_mem.cc\<close>).

  The backing store is a list of bytes that starts at the first address of the
  range, or absent when the memory was configured without one.  The list of
  locked addresses implements load-locked and store-conditional.  \<open>var\<close> is the
  number the random generator adds to the latency.  Statistics are left out.
\<close>

record LockedAddr =
  la_addr :: addr
  la_contextId :: "32 word"

record AbstractMemory =
  mem_range :: Range
  pmemAddr :: "byte list option"
  lockedAddrList :: "LockedAddr list"
  mem_lat :: tick
  mem_lat_var :: tick

definition la_mask :: "addr \<Rightarrow> addr" where
  "la_mask a = a AND NOT 0xf"

definition mem_trackLoadLocked :: "Packet \<Rightarrow> AbstractMemory \<Rightarrow> AbstractMemory option" where
  "mem_trackLoadLocked pkt m = do {
     a \<leftarrow> getPaddr (req pkt);
     let pa = la_mask a;
     c \<leftarrow> contextId (req pkt);
     Some (if \<exists>l \<in> set (lockedAddrList m). la_contextId l = c
       then let (xs, ys) = (takeWhile (\<lambda>l. la_contextId l \<noteq> c) (lockedAddrList m),
                            dropWhile (\<lambda>l. la_contextId l \<noteq> c) (lockedAddrList m))
            in m \<lparr>lockedAddrList := xs @ (hd ys) \<lparr>la_addr := pa\<rparr> # tl ys\<rparr>
       else m \<lparr>lockedAddrList := \<lparr>la_addr = pa, la_contextId = c\<rparr> # lockedAddrList m\<rparr>) }"

definition checkLockedAddrList :: "Packet \<Rightarrow> AbstractMemory \<Rightarrow> (bool \<times> Packet \<times> AbstractMemory) option" where
  "checkLockedAddrList pkt m = do {
     a \<leftarrow> getPaddr (req pkt);
     let pa = la_mask a;
     (allow, pkt) \<leftarrow>
       (if isLLSC (cmd pkt) then do {
          ok \<leftarrow> (if \<exists>l \<in> set (lockedAddrList m). la_addr l = pa
                then do { c \<leftarrow> contextId (req pkt);
                  Some (\<exists>l \<in> set (lockedAddrList m). la_addr l = pa \<and> la_contextId l = c) }
                else Some False);
          Some (ok, pkt \<lparr>req := setExtraData (if ok then 1 else 0) (req pkt)\<rparr>) }
        else Some (True, pkt));
     Some (allow, pkt, if allow then m \<lparr>lockedAddrList := filter (\<lambda>l. la_addr l \<noteq> pa) (lockedAddrList m)\<rparr> else m) }"

definition writeOK :: "Packet \<Rightarrow> AbstractMemory \<Rightarrow> (bool \<times> Packet \<times> AbstractMemory) option" where
  "writeOK pkt m =
     (if lockedAddrList m = []
      then Some (\<not> isLLSC (cmd pkt),
             if isLLSC (cmd pkt) then pkt \<lparr>req := setExtraData 0 (req pkt)\<rparr> else pkt, m)
      else checkLockedAddrList pkt m)"

text \<open>The bytes of a 64-bit register in the order of a little-endian host.\<close>

definition le_bytes :: "nat \<Rightarrow> 64 word \<Rightarrow> byte list" where
  "le_bytes n w = map (\<lambda>i. ucast (drop_bit (8 * i) w)) [0..<n]"

text \<open>The comparison of a conditional swap; other sizes than 4 and 8 are a \<open>panic\<close>.\<close>

definition swap_condition :: "Packet \<Rightarrow> byte list \<Rightarrow> bool option" where
  "swap_condition pkt mem =
     (if isCondSwap (req pkt) then do {
        n \<leftarrow> getSize pkt;
        x \<leftarrow> getExtraData (req pkt);
        check (n = 8 \<or> n = 4);
        check (unat n \<le> length mem);
        Some (le_bytes (unat n) x = take (unat n) mem) }
      else Some True)"

definition host_bytes :: "addr \<Rightarrow> AbstractMemory \<Rightarrow> byte list option" where
  "host_bytes a m = map_option (drop (unat (a - r_start (mem_range m)))) (pmemAddr m)"

definition mem_store :: "addr \<Rightarrow> byte list \<Rightarrow> nat \<Rightarrow> AbstractMemory \<Rightarrow> AbstractMemory option" where
  "mem_store a bs n m = do {
     d \<leftarrow> pmemAddr m;
     d' \<leftarrow> memcpy_at d (unat (a - r_start (mem_range m))) bs n;
     Some (m \<lparr>pmemAddr := Some d'\<rparr>) }"

definition in_mem :: "Packet \<Rightarrow> AbstractMemory \<Rightarrow> bool option" where
  "in_mem pkt m = do {
     a \<leftarrow> getAddr pkt;
     n \<leftarrow> getSize pkt;
     Some (r_start (mem_range m) \<le> a \<and> a + ucast n - 1 \<le> r_end (mem_range m)) }"

definition mem_access :: "Packet \<Rightarrow> AbstractMemory \<Rightarrow> (Packet \<times> AbstractMemory) option" where
  "mem_access pkt m = do {
     inside \<leftarrow> in_mem pkt m;
     check inside;
     if memInhibitAsserted pkt then Some (pkt, m)
     else do {
       a \<leftarrow> getAddr pkt;
       n \<leftarrow> getSize pkt;
       (pkt, m) \<leftarrow>
         (if cmd pkt = SwapReq then do {
            h \<leftarrow> host_bytes a m;
            check (n \<le> 8);
            overwrite_val \<leftarrow> getPtr pkt;
            check (unat n \<le> length overwrite_val);
            pkt \<leftarrow> setData h pkt;
            overwrite_mem \<leftarrow> swap_condition pkt h;
            m \<leftarrow> (if overwrite_mem then mem_store a overwrite_val (unat n) m else Some m);
            check (\<not> isInstFetch (req pkt));
            Some (pkt, m) }
          else if isRead (cmd pkt) then do {
            check (\<not> isWrite (cmd pkt));
            m \<leftarrow> (if isLLSC (cmd pkt) then mem_trackLoadLocked pkt m else Some m);
            pkt \<leftarrow> (case host_bytes a m of None \<Rightarrow> Some pkt | Some h \<Rightarrow> setData h pkt);
            Some (pkt, m) }
          else if isWrite (cmd pkt) then do {
            (ok, pkt, m) \<leftarrow> writeOK pkt m;
            if ok then do {
              m \<leftarrow> (if pmemAddr m = None then Some m
                    else do { d \<leftarrow> getPtr pkt; mem_store a d (unat n) m });
              check (\<not> isInstFetch (req pkt));
              Some (pkt, m) }
            else Some (pkt, m) }
          else do { check (isInvalidate (cmd pkt)); Some (pkt, m) });
       pkt \<leftarrow> (if needsResponse (cmd pkt) then makeResponse pkt else Some pkt);
       Some (pkt, m) } }"

definition mem_functionalAccess :: "Packet \<Rightarrow> AbstractMemory \<Rightarrow> (Packet \<times> AbstractMemory) option" where
  "mem_functionalAccess pkt m = do {
     inside \<leftarrow> in_mem pkt m;
     check inside;
     a \<leftarrow> getAddr pkt;
     n \<leftarrow> getSize pkt;
     if isRead (cmd pkt) then do {
       pkt \<leftarrow> (case host_bytes a m of None \<Rightarrow> Some pkt | Some h \<Rightarrow> setData h pkt);
       pkt \<leftarrow> makeResponse pkt;
       Some (pkt, m) }
     else if isWrite (cmd pkt) then do {
       m \<leftarrow> (if pmemAddr m = None then Some m else do { d \<leftarrow> getPtr pkt; mem_store a d (unat n) m });
       pkt \<leftarrow> makeResponse pkt;
       Some (pkt, m) }
     else do { check (isPrint (cmd pkt)); Some (pkt, m) } }"

definition calculateLatency :: "tick \<Rightarrow> Packet \<Rightarrow> AbstractMemory \<Rightarrow> tick" where
  "calculateLatency var pkt m =
     (if memInhibitAsserted pkt then 0 else mem_lat m + (if mem_lat_var m \<noteq> 0 then var else 0))"

definition doAtomicAccess :: "tick \<Rightarrow> Packet \<Rightarrow> AbstractMemory \<Rightarrow> (tick \<times> Packet \<times> AbstractMemory) option" where
  "doAtomicAccess var pkt m = do {
     (pkt, m) \<leftarrow> mem_access pkt m;
     Some (calculateLatency var pkt m, pkt, m) }"

end
