(* ===== verification/Cache_Access.thy ===== *)
theory Cache_Access
imports Tag_Layout MSHR_Queue Abstract_Mem
begin

text \<open>
  The access path of the cache controller (\<open>mem/cache/cache_impl.hh\<close>): hits,
  fills, replacement, writebacks and the atomic mode.

  A block is addressed through a pointer into the tag store or to the
  temporary block.  The tag store's virtual functions are the parameter
  \<open>vt\<close>.  Packets and requests that the code allocates start from the
  uninitialised storage of an environment, which also holds the current tick.
  \<open>send\<close> is \<open>memSidePort->sendAtomic\<close>, the next level of the hierarchy, with a
  state of its own.  Statistics are left out.
\<close>

record env =
  raw_pkt :: Packet
  raw_req :: Request
  fresh :: "nat \<Rightarrow> byte"
  e_now :: tick

text \<open>
  The virtual functions that choose a queue by thread: a base cache has one
  queue for all threads, a split cache an array with one queue per thread.
\<close>

datatype 'q per_thread = Shared 'q | PerThread "'q list"

fun of_thread :: "nat \<Rightarrow> 'q per_thread \<Rightarrow> 'q option" where
  "of_thread tid (Shared q) = Some q"
| "of_thread tid (PerThread qs) = at qs tid"

fun set_thread :: "nat \<Rightarrow> 'q \<Rightarrow> 'q per_thread \<Rightarrow> 'q per_thread" where
  "set_thread tid q (Shared _) = Shared q"
| "set_thread tid q (PerThread qs) = PerThread (qs[tid := q])"

record 'a Cache =
  tags :: "'a LRU_scheme"
  tempBlock :: CacheBlk
  c_blkSize :: "32 word"
  c_hitLatency :: "32 word"
  isTopLevel :: bool
  mshrQueue :: "MSHRQueue per_thread"
  c_heap :: heap

datatype BlkPtr = InTags nat | Temp

definition getMSHRQueue :: "nat \<Rightarrow> 'a Cache \<Rightarrow> MSHRQueue option" where
  "getMSHRQueue tid c = of_thread tid (mshrQueue c)"

definition get_blk :: "BlkPtr \<Rightarrow> 'a Cache \<Rightarrow> CacheBlk option" where
  "get_blk p c = (case p of InTags i \<Rightarrow> at (blks (tags c)) i | Temp \<Rightarrow> Some (tempBlock c))"

definition put_blk :: "BlkPtr \<Rightarrow> CacheBlk \<Rightarrow> 'a Cache \<Rightarrow> 'a Cache" where
  "put_blk p b c = (case p of
     InTags i \<Rightarrow> c \<lparr>tags := (tags c) \<lparr>blks := (blks (tags c))[i := b]\<rparr>\<rparr>
   | Temp \<Rightarrow> c \<lparr>tempBlock := b\<rparr>)"

text \<open>\<open>tags->invalidateBlk\<close> on a pointer; the temporary block is in no set.\<close>

definition invalidate_ptr :: "('a LRU_scheme) vtable \<Rightarrow> BlkPtr \<Rightarrow> nat \<Rightarrow> 'a Cache \<Rightarrow> 'a Cache option" where
  "invalidate_ptr vt p tid c = (case p of
     InTags i \<Rightarrow> do { t \<leftarrow> invalidateBlk vt (Some i) tid (tags c); Some (c \<lparr>tags := t\<rparr>) }
   | Temp \<Rightarrow> do {
       check (\<not> isValid (tempBlock c));
       Some (c \<lparr>tempBlock := clearLoadLocks ((tempBlock c) \<lparr>status := 0, isTouched := False\<rparr>)\<rparr>) })"

definition tid_of :: "Packet \<Rightarrow> nat" where
  "tid_of pk = unat (threadID pk)"

definition cmpAndSwap :: "BlkPtr \<Rightarrow> Packet \<Rightarrow> 'a Cache \<Rightarrow> (Packet \<times> 'a Cache) option" where
  "cmpAndSwap p pk c = do {
     blk \<leftarrow> get_blk p c;
     a \<leftarrow> getAddr pk;
     let offs = extractBlkOffset (tags c) a;
     let mem = drop offs (blk_data blk);
     n \<leftarrow> getSize pk;
     check (n \<le> 8);
     overwrite_val \<leftarrow> getPtr pk;
     check (unat n \<le> length overwrite_val);
     pk \<leftarrow> setData mem pk;
     overwrite_mem \<leftarrow> swap_condition pk mem;
     if overwrite_mem then do {
       d \<leftarrow> memcpy_at (blk_data blk) offs overwrite_val (unat n);
       Some (pk, put_blk p (blk \<lparr>blk_data := d, status := status blk OR BlkDirty\<rparr>) c) }
     else Some (pk, c) }"

text \<open>The last part of a read: what a whole-block request from above does to the block.\<close>

definition read_whole_block :: "('a LRU_scheme) vtable \<Rightarrow> bool \<Rightarrow> bool \<Rightarrow> BlkPtr \<Rightarrow> Packet \<Rightarrow> 'a Cache
    \<Rightarrow> (Packet \<times> 'a Cache) option" where
  "read_whole_block vt deferred_response pending_downgrade p pk c = do {
     blk \<leftarrow> get_blk p c;
     if needsExclusive (cmd pk) then do {
       let pk = (if isDirty blk then assertMemInhibit pk else pk);
       c \<leftarrow> invalidate_ptr vt p (tid_of pk) c;
       Some (pk, c) }
     else if isWritable blk \<and> \<not> pending_downgrade \<and> \<not> sharedAsserted pk \<and> \<not> isInstFetch (req pk) then
       (if isDirty blk then
          if \<not> deferred_response \<and> \<not> isTopLevel c
          then Some (assertMemInhibit pk, put_blk p (blk \<lparr>status := status blk AND NOT BlkDirty\<rparr>) c)
          else Some (assertShared pk, c)
        else Some (pk, c))
     else Some (assertShared pk, c) }"

definition satisfyCpuSideRequest :: "('a LRU_scheme) vtable \<Rightarrow> bool \<Rightarrow> bool \<Rightarrow> BlkPtr \<Rightarrow> Packet \<Rightarrow> 'a Cache
    \<Rightarrow> (Packet \<times> 'a Cache) option" where
  "satisfyCpuSideRequest vt deferred_response pending_downgrade p pk c = do {
     off \<leftarrow> getOffset (c_blkSize c) pk;
     n \<leftarrow> getSize pk;
     check (off + ucast n \<le> ucast (c_blkSize c));
     blk \<leftarrow> get_blk p c;
     if cmd pk = SwapReq then cmpAndSwap p pk c
     else if isWrite (cmd pk) then do {
       (ok, pk, blk) \<leftarrow> checkWrite pk blk;
       if ok then do {
         d \<leftarrow> writeDataToBlock (blk_data blk) (c_blkSize c) pk;
         Some (pk, put_blk p (blk \<lparr>blk_data := d, status := status blk OR BlkDirty\<rparr>) c) }
       else Some (pk, put_blk p blk c) }
     else if isRead (cmd pk) then do {
       blk \<leftarrow> (if isLLSC (cmd pk) then trackLoadLocked pk blk else Some blk);
       let c = put_blk p blk c;
       pk \<leftarrow> setDataFromBlock (blk_data blk) (c_blkSize c) pk;
       if n = c_blkSize c then read_whole_block vt deferred_response pending_downgrade p pk c
       else Some (pk, c) }
     else do {
       check (isUpgrade (cmd pk));
       c \<leftarrow> invalidate_ptr vt p (tid_of pk) c;
       Some (pk, c) } }"

subsection \<open>Replacement\<close>

definition writebackBlk :: "env \<Rightarrow> BlkPtr \<Rightarrow> nat \<Rightarrow> 'a Cache \<Rightarrow> (Packet \<times> 'a Cache) option" where
  "writebackBlk e p tid c = do {
     blk \<leftarrow> get_blk p c;
     check (isValid blk \<and> isDirty blk);
     check (0 \<le> blk_set blk);
     r \<leftarrow> Request_phys (raw_req e) (regenerateBlkAddr (tags c) (tag blk) (nat (blk_set blk))) (c_blkSize c) 0
            wbMasterId (e_now e);
     let wb = Packet_new_tid (raw_pkt e) r Writeback (of_nat tid) (of_nat tid) (of_nat tid) (e_now e);
     let wb = (if isWritable blk then setSupplyExclusive wb else wb);
     wb \<leftarrow> allocate (fresh e) wb;
     d \<leftarrow> getPtr wb;
     d' \<leftarrow> memcpy_at d 0 (blk_data blk) (unat (c_blkSize c));
     Some (wb \<lparr>data := Some d'\<rparr>, put_blk p (blk \<lparr>status := status blk AND NOT BlkDirty\<rparr>) c) }"

text \<open>
  \<open>allocateBlock\<close>: the first component is the block, \<open>None\<close> when an outstanding
  upgrade of the victim forbids to replace it; the second the writeback, if any.
\<close>

definition allocateBlock :: "env \<Rightarrow> ('a LRU_scheme) vtable \<Rightarrow> addr \<Rightarrow> nat \<Rightarrow> 'a Cache
    \<Rightarrow> (nat option \<times> Packet list \<times> 'a Cache) option" where
  "allocateBlock e vt a tid c = do {
     i \<leftarrow> findVictim vt a tid (tags c);
     blk \<leftarrow> get_blk (InTags i) c;
     if isValid blk then do {
       check (0 \<le> blk_set blk);
       let repl_addr = regenerateBlkAddr (tags c) (tag blk) (nat (blk_set blk));
       mq \<leftarrow> getMSHRQueue (blk_threadID blk) c;
       case findMatch repl_addr (c_heap c) mq of
         Some m \<Rightarrow> do {
           check (\<not> isWritable blk);
           r \<leftarrow> at (mshrs (c_heap c)) m;
           check (tl_needsExclusive (targets r));
           Some (None, [], c) }
       | None \<Rightarrow>
           if isDirty blk then do {
             (wb, c) \<leftarrow> writebackBlk e (InTags i) (blk_threadID blk) c;
             Some (Some i, [wb], c) }
           else Some (Some i, [], c) }
     else Some (Some i, [], c) }"

definition cache_handleFill :: "env \<Rightarrow> ('a LRU_scheme) vtable \<Rightarrow> Packet \<Rightarrow> BlkPtr option \<Rightarrow> 'a Cache
    \<Rightarrow> (BlkPtr \<times> Packet list \<times> 'a Cache) option" where
  "cache_handleFill e vt pk blk c = do {
     a \<leftarrow> getAddr pk;
     (p, wbs, c) \<leftarrow> (case blk of
         None \<Rightarrow> do {
           check (hasData (cmd pk));
           (r, wbs, c) \<leftarrow> allocateBlock e vt a (tid_of pk) c;
           (p, c) \<leftarrow> (case r of
               None \<Rightarrow> do {
                 check (\<not> isValid (tempBlock c));
                 Some (Temp, c \<lparr>tempBlock := (tempBlock c)
                   \<lparr>blk_set := int (extractSet (tags c) a), tag := extractTag (tags c) a\<rparr>\<rparr>) }
             | Some i \<Rightarrow> do {
                 t \<leftarrow> insertBlock vt a i (unat (masterId (req pk))) (tid_of pk) (e_now e) (tags c);
                 Some (InTags i, c \<lparr>tags := t\<rparr>) });
           b \<leftarrow> get_blk p c;
           Some (p, wbs, put_blk p (b \<lparr>status := 0\<rparr>) c) }
       | Some p \<Rightarrow> do {
           b \<leftarrow> get_blk p c;
           check (tag b = extractTag (tags c) a);
           check (hasData (cmd pk) \<or> isValid b);
           Some (p, [], c) });
     b \<leftarrow> get_blk p c;
     let st = status b OR (BlkValid OR BlkReadable);
     let st = (if sharedAsserted pk then st
               else if memInhibitAsserted pk then st OR BlkWritable OR BlkDirty else st OR BlkWritable);
     d \<leftarrow> (if isRead (cmd pk) then do {
             s \<leftarrow> getPtr pk; memcpy_at (blk_data b) 0 s (unat (c_blkSize c)) } else Some (blk_data b));
     Some (p, wbs, put_blk p (b \<lparr>status := st, blk_data := d, whenReady := finishTime pk\<rparr>) c) }"

subsection \<open>Accesses\<close>

definition access_uncacheable :: "('a LRU_scheme) vtable \<Rightarrow> Packet \<Rightarrow> 'a Cache \<Rightarrow> 'a Cache option" where
  "access_uncacheable vt pk c =
     (if isClearLL (req pk) then do { t \<leftarrow> clearLocks (tags c); Some (c \<lparr>tags := t\<rparr>) }
      else if isWrite (cmd pk) then do {
        a \<leftarrow> getAddr pk;
        blk \<leftarrow> findBlock vt a (tid_of pk) (tags c);
        t \<leftarrow> invalidateBlk vt blk (tid_of pk) (tags c);
        Some (c \<lparr>tags := t\<rparr>) }
      else Some c)"

text \<open>
  A writeback from above goes into the cache whether or not the block is there, into
  the partition of \<open>tid\<close>.
\<close>

definition access_writeback :: "env \<Rightarrow> ('a LRU_scheme) vtable \<Rightarrow> nat \<Rightarrow> nat option \<Rightarrow> Packet \<Rightarrow> 'a Cache
    \<Rightarrow> (bool \<times> nat option \<times> Packet list \<times> 'a Cache) option" where
  "access_writeback e vt tid blk pk c = do {
     n \<leftarrow> getSize pk;
     check (c_blkSize c = n);
     a \<leftarrow> getAddr pk;
     (r, wbs, c) \<leftarrow> (case blk of
         Some i \<Rightarrow> Some (Some i, [], c)
       | None \<Rightarrow> do {
           (r, wbs, c) \<leftarrow> allocateBlock e vt a tid c;
           case r of None \<Rightarrow> Some (None, wbs, c)
           | Some i \<Rightarrow> do {
               t \<leftarrow> insertBlock vt a i (unat (masterId (req pk))) tid (e_now e) (tags c);
               let c = c \<lparr>tags := t\<rparr>;
               b \<leftarrow> get_blk (InTags i) c;
               Some (Some i, wbs, put_blk (InTags i) (b \<lparr>status := BlkValid OR BlkReadable\<rparr>) c) } });
     case r of None \<Rightarrow> Some (False, None, wbs, c)
     | Some i \<Rightarrow> do {
         b \<leftarrow> get_blk (InTags i) c;
         s \<leftarrow> getPtr pk;
         d \<leftarrow> memcpy_at (blk_data b) 0 s (unat (c_blkSize c));
         let st = status b OR BlkDirty;
         let st = (if isSupplyExclusive pk then st OR BlkWritable else st);
         check (\<not> needsResponse (cmd pk));
         Some (True, Some i, wbs, put_blk (InTags i) (b \<lparr>blk_data := d, status := st\<rparr>) c) } }"

text \<open>
  \<open>access\<close>: whether the request is satisfied, the block, the latency, the
  writebacks, the packet and the cache.
\<close>

definition access :: "env \<Rightarrow> ('a LRU_scheme) vtable \<Rightarrow> Packet \<Rightarrow> 'a Cache
    \<Rightarrow> (bool \<times> nat option \<times> 32 word \<times> Packet list \<times> Packet \<times> 'a Cache) option" where
  "access e vt pk c =
     (if isUncacheable (req pk) then do {
        c \<leftarrow> access_uncacheable vt pk c;
        Some (False, None, c_hitLatency c, [], pk, c) }
      else do {
        a \<leftarrow> getAddr pk;
        (blk, lat, t) \<leftarrow> accessBlock vt a (tid_of pk) (e_now e) (tags c);
        let c = c \<lparr>tags := t\<rparr>;
        hit \<leftarrow> (case blk of None \<Rightarrow> Some False
               | Some i \<Rightarrow> do { b \<leftarrow> get_blk (InTags i) c;
                   Some (if needsExclusive (cmd pk) then isWritable b else isReadable b) });
        if hit then do {
          i \<leftarrow> blk;
          (pk, c) \<leftarrow> satisfyCpuSideRequest vt False False (InTags i) pk c;
          Some (True, blk, lat, [], pk, c) }
        else if cmd pk = Writeback then do {
          (ok, blk, wbs, c) \<leftarrow> access_writeback e vt (tid_of pk) blk pk c;
          Some (ok, blk, lat, wbs, pk, c) }
        else if blk = None \<and> isLLSC (cmd pk) \<and> isWrite (cmd pk)
        then Some (True, blk, lat, [], pk \<lparr>req := setExtraData 0 (req pk)\<rparr>, c)
        else Some (False, blk, lat, [], pk, c) })"

definition getBusPacket :: "env \<Rightarrow> Packet \<Rightarrow> nat option \<Rightarrow> bool \<Rightarrow> 'a Cache \<Rightarrow> Packet option option" where
  "getBusPacket e cpu_pkt blk excl c = do {
     b \<leftarrow> (case blk of None \<Rightarrow> Some None | Some i \<Rightarrow> map_option Some (get_blk (InTags i) c));
     let blkValid = (case b of None \<Rightarrow> False | Some b \<Rightarrow> isValid b);
     if isUncacheable (req cpu_pkt) then Some None
     else if \<not> blkValid \<and> (cmd cpu_pkt = Writeback \<or> isUpgrade (cmd cpu_pkt)) then Some None
     else do {
       check (needsResponse (cmd cpu_pkt));
       check (blkValid \<longrightarrow> excl \<and> \<not> isWritable (the b));
       let c' = (if blkValid then (if isLLSC (cmd cpu_pkt) then SCUpgradeReq else UpgradeReq)
                 else if excl then ReadExReq else ReadReq);
       pk \<leftarrow> allocate (fresh e) (Packet_new_blk_tid (raw_pkt e) (req cpu_pkt) c' (c_blkSize c) (threadID cpu_pkt) (e_now e));
       Some (Some pk) } }"

type_synonym 'm lower = "Packet \<Rightarrow> 'm \<Rightarrow> (tick \<times> Packet \<times> 'm) option"

fun send_writebacks :: "'m lower \<Rightarrow> Packet list \<Rightarrow> 'm \<Rightarrow> 'm option" where
  "send_writebacks send [] m = Some m"
| "send_writebacks send (wb # wbs) m = do { (l, q, m) \<leftarrow> send wb m; send_writebacks send wbs m }"

text \<open>The part of \<open>atomicAccess\<close> that a miss goes through.\<close>

definition atomic_miss :: "env \<Rightarrow> ('a LRU_scheme) vtable \<Rightarrow> 'm lower \<Rightarrow> nat option \<Rightarrow> Packet \<Rightarrow> 'a Cache \<Rightarrow> 'm
    \<Rightarrow> (tick \<times> Packet list \<times> Packet \<times> 'a Cache \<times> 'm) option" where
  "atomic_miss e vt send blk pk c m = do {
     bus \<leftarrow> getBusPacket e pk blk (needsExclusive (cmd pk)) c;
     case bus of
       None \<Rightarrow> do { (l, pk, m) \<leftarrow> send pk m; Some (l, [], pk, c, m) }
     | Some bp \<Rightarrow> do {
         (l, bp, m) \<leftarrow> send bp m;
         if needsResponse (cmd pk) then do {
           check (isResponse (cmd bp));
           if isError (cmd bp) then do {
             pk \<leftarrow> makeResponse pk;
             pk \<leftarrow> copyError bp pk;
             Some (l, [], pk, c, m) }
           else if isRead (cmd bp) \<or> cmd bp = UpgradeResp then do {
             (p, wbs, c) \<leftarrow> cache_handleFill e vt bp (map_option InTags blk) c;
             (pk, c) \<leftarrow> satisfyCpuSideRequest vt False False p pk c;
             Some (l, wbs, pk, c, m) }
           else do { pk \<leftarrow> makeResponse pk; Some (l, [], pk, c, m) } }
         else Some (l, [], pk, c, m) } }"

definition atomicAccess :: "env \<Rightarrow> ('a LRU_scheme) vtable \<Rightarrow> 'm lower \<Rightarrow> Packet \<Rightarrow> 'a Cache \<Rightarrow> 'm
    \<Rightarrow> (tick \<times> Packet \<times> 'a Cache \<times> 'm) option" where
  "atomicAccess e vt send pk c m =
     (if memInhibitAsserted pk then do {
        check (\<not> isUncacheable (req pk));
        if isInvalidate (cmd pk) then do {
          a \<leftarrow> getAddr pk;
          blk \<leftarrow> findBlock vt a (tid_of pk) (tags c);
          t \<leftarrow> (case blk of None \<Rightarrow> Some (tags c)
              | Some i \<Rightarrow> do { b \<leftarrow> at (blks (tags c)) i;
                  if isValid b then invalidateBlk vt blk (tid_of pk) (tags c) else Some (tags c) });
          (l, pk, m) \<leftarrow> send pk m;
          Some (scast (c_hitLatency c + ucast l), pk, c \<lparr>tags := t\<rparr>, m) }
        else Some (scast (c_hitLatency c), pk, c, m) }
      else do {
        (ok, blk, lat, wbs, pk, c) \<leftarrow> access e vt pk c;
        (l, wbs, pk, c, m) \<leftarrow> (if ok then Some (0, wbs, pk, c, m)
          else do { (l, wbs', pk, c, m) \<leftarrow> atomic_miss e vt send blk pk c m; Some (l, wbs @ wbs', pk, c, m) });
        m \<leftarrow> send_writebacks send wbs m;
        pk \<leftarrow> (if needsResponse (cmd pk) then makeResponse pk else Some pk);
        Some (scast (lat + ucast l), pk, c, m) })"

end
