(* ===== verification/Cache_Store.thy ===== *)
theory Cache_Store
imports Cache_Access
begin

text \<open>
  The cache's blocks as a map from addresses to data: which way holds an
  address, what replacing one block changes, and the contents that a cache and
  the memory below it stand for.  The invariant says when a cached copy agrees
  with the memory; \<open>install\<close> and \<open>install_head\<close> are the steps every access
  is built from: one block replaced, its old contents written back if they
  were the only copy.
\<close>

subsection \<open>Where a block is held\<close>

definition way_set :: "'a LRU_scheme \<Rightarrow> addr \<Rightarrow> nat set" where
  "way_set s a = set (ways (set_at s (0, extractSet s a)))"

definition holds :: "'a LRU_scheme \<Rightarrow> addr \<Rightarrow> nat \<Rightarrow> bool" where
  "holds s a i \<longleftrightarrow> i \<in> way_set s a \<and> isValid (blks s ! i) \<and> tag (blks s ! i) = extractTag s a"

lemma LRU_slot [simp]: "slot LRU_vt i t = (0, i)" "assoc_of_tc LRU_vt s t = unat (assoc s)"
  by (simp_all add: LRU_vt_def)

lemma any_tid_True [simp]: "any_tid s t"
  by (simp add: any_tid_def)

lemma own:
  assumes "tags_ok LRU_vt any_tid s"
  shows "extractSet s a < unat (numSets s)" "in_range s (0, extractSet s a)"
    "get_set LRU_vt s (extractSet s a) t = Some (set_at s (0, extractSet s a))"
    "set_inv s (extractSet s a) (set_at s (0, extractSet s a))"
    "unat (assoc s) = length (ways (set_at s (0, extractSet s a)))"
proof -
  note o = lru.own_set [OF assms any_tid_True, where a = a, unfolded LRU_slot]
  show "extractSet s a < unat (numSets s)" by (rule o(1))
  show "in_range s (0, extractSet s a)" by (rule o(2))
  show "get_set LRU_vt s (extractSet s a) t = Some (set_at s (0, extractSet s a))" by (rule o(3))
  show "set_inv s (extractSet s a) (set_at s (0, extractSet s a))" by (rule o(4))
  show "unat (assoc s) = length (ways (set_at s (0, extractSet s a)))" by (rule o(5))
qed

lemma own_geometry: "tags_ok LRU_vt any_tid s \<Longrightarrow> geometry_ok s"
  by (simp only: tags_ok_def)

lemma holds_unique:
  assumes "tags_ok LRU_vt any_tid s" "holds s a i" "holds s a j"
  shows "i = j"
  using own(4) [OF assms(1), of a] assms(2,3) by (auto simp: holds_def way_set_def set_inv_def)

lemma way_set_block:
  assumes "tags_ok LRU_vt any_tid s" "i \<in> way_set s a" "i \<in> way_set s b"
  shows "extractSet s a = extractSet s b"
proof (rule ccontr)
  assume "extractSet s a \<noteq> extractSet s b"
  then have "set (ways (set_at s (slot LRU_vt (extractSet s a) 0)))
      \<inter> set (ways (set_at s (slot LRU_vt (extractSet s b) 0))) = {}"
    using assms(1) own(1) [OF assms(1)] unfolding tags_ok_def by (metis LRU_slot(1) any_tid_True prod.inject)
  then show False using assms(2,3) by (auto simp: way_set_def)
qed

lemma holds_block:
  assumes "tags_ok LRU_vt any_tid s" "holds s a i" "holds s b i"
  shows "blkAlign s a = blkAlign s b"
  using way_set_block [OF assms(1), of i a b] same_block_iff [OF own_geometry [OF assms(1)], of a b] assms(2,3)
  by (auto simp: holds_def)

lemma holds_align:
  assumes "tags_ok LRU_vt any_tid s" "blkAlign s a = blkAlign s b"
  shows "holds s a i = holds s b i"
  using same_block_iff [OF own_geometry [OF assms(1)], of a b] assms(2) by (simp add: holds_def way_set_def)

lemma holds_less: "tags_ok LRU_vt any_tid s \<Longrightarrow> i \<in> way_set s a \<Longrightarrow> i < length (blks s)"
  using own(4) set_inv_less unfolding way_set_def by metis

lemma findBlk_holds:
  assumes "tags_ok LRU_vt any_tid s"
  shows "findBlk (blks s) (set_at s (0, extractSet s a)) (extractTag s a) = Some r
    \<longleftrightarrow> (case r of Some i \<Rightarrow> holds s a i | None \<Rightarrow> \<forall>i. \<not> holds s a i)"
proof -
  let ?f = "List.find (\<lambda>p. blk_view (blks s ! p) = Some (extractTag s a)) (ways (set_at s (0, extractSet s a)))"
  have v: "holds s a i \<longleftrightarrow> i \<in> way_set s a \<and> blk_view (blks s ! i) = Some (extractTag s a)" for i
    by (auto simp: holds_def blk_view_def)
  have some: "?f = Some i \<longleftrightarrow> holds s a i" for i
  proof
    assume f: "?f = Some i"
    show "holds s a i" using find_SomeD [OF f] unfolding v way_set_def by simp
  next
    assume h: "holds s a i"
    have "q = i" if "q \<in> way_set s a" "blk_view (blks s ! q) = Some (extractTag s a)" for q
      using holds_unique [OF assms _ h, of q] that unfolding v by simp
    then show "?f = Some i"
      using h unfolding v way_set_def by (intro find_unique) simp_all
  qed
  have none: "?f = None \<longleftrightarrow> (\<forall>i. \<not> holds s a i)"
    unfolding find_None_iff_all v way_set_def by blast
  show ?thesis
    unfolding findBlk_view [OF own(4) [OF assms, of a], of "extractTag s a"]
    using some none by (cases r) simp_all
qed

lemma way_set_upd:
  assumes ok: "tags_ok LRU_vt any_tid s" and fr: "frame s s'"
    and st: "sets s' = sets (upd_at (0, extractSet s a) cs s)" and cs: "set (ways cs) = way_set s a"
  shows "way_set s' b = way_set s b"
proof -
  have "set_at s' l = (if l = (0, extractSet s a) then cs else set_at s l)" for l
    using own(2) [OF ok, of a] set_at_cong [OF st, of l] by auto
  then show ?thesis using frame_extract [OF fr, of b] cs by (simp add: way_set_def)
qed

text \<open>One block of a set replaced: what is held afterwards.\<close>

lemma place_block:
  assumes ok: "tags_ok LRU_vt any_tid s" and p: "p \<in> way_set s a"
    and fr: "frame s s'" and st: "sets s' = sets (upd_at (0, extractSet s a) c' s)"
    and c': "cset_ok (length (blks s)) c'" "set (ways c') = way_set s a"
    and bl: "blks s' = (blks s)[p := b']"
    and b': "isValid b'" "tag b' = extractTag s a" "blk_set b' = int (extractSet s a)"
      "srcMasterId b' < length (occupancies s)"
    and only: "\<And>q. holds s a q \<Longrightarrow> q = p"
  shows "tags_ok LRU_vt any_tid s'"
    and "holds s' b q \<longleftrightarrow> (if q = p then blkAlign s b = blkAlign s a else holds s b q)"
proof -
  note o = own [OF ok, of a]
  have pl: "p < length (blks s)" using holds_less [OF ok p] .
  have len: "length (ways c') = length (ways (set_at s (0, extractSet s a)))"
    using c' o(4) distinct_card [of "ways c'"] distinct_card [of "ways (set_at s (0, extractSet s a))"]
    by (simp add: cset_ok_def set_inv_def way_set_def)
  have at: "blks s' ! q = (if q = p then b' else blks s ! q)" for q
    using bl pl by (simp add: nth_list_update)
  have oc: "length (occupancies s') = length (occupancies s)" "length (blks s') = length (blks s)"
    using fr by (simp_all add: frame_def)
  have old: "blk_set (blks s ! q) = int (extractSet s a)"
      "isValid (blks s ! q) \<Longrightarrow> srcMasterId (blks s ! q) < length (occupancies s)" if "q \<in> way_set s a" for q
    using o(4) that by (auto simp: set_inv_def way_set_def)
  have ne: "tag (blks s ! q) \<noteq> extractTag s a" if "q \<in> way_set s a" "isValid (blks s ! q)" "q \<noteq> p" for q
    using only [of q] that by (auto simp: holds_def)
  have uniq: "q = r" if "q \<in> way_set s a" "r \<in> way_set s a" "isValid (blks s' ! q)" "isValid (blks s' ! r)"
      "tag (blks s' ! q) = tag (blks s' ! r)" for q r
  proof (cases "q = p"; cases "r = p")
    assume "q = p" "r \<noteq> p"
    then show ?thesis using ne [OF that(2)] that(4,5) b'(2) by (simp add: at)
  next
    assume "q \<noteq> p" "r = p"
    then show ?thesis using ne [OF that(1)] that(3,5) b'(2) by (simp add: at)
  next
    assume "q \<noteq> p" "r \<noteq> p"
    then have "isValid (blks s ! q)" "isValid (blks s ! r)" "tag (blks s ! q) = tag (blks s ! r)"
      using that(3-5) by (simp_all add: at)
    then show ?thesis using that(1,2) o(4) unfolding set_inv_def way_set_def by blast
  qed simp
  have inv: "set_inv s' (extractSet s a) c'"
    unfolding set_inv_def oc c'(2) using c'(1) old b' uniq by (auto simp: at)
  have out: "blks s' ! q = blks s ! q" if "q \<notin> set (ways (set_at s (slot LRU_vt (extractSet s a) 0)))" for q
    using at that p by (auto simp: way_set_def)
  note lu = lru.local_update [OF ok o(1) any_tid_True fr _ out _ _ inv, where t = 0]
  show ok': "tags_ok LRU_vt any_tid s'"
    using lu(1) st c'(2) len by (simp add: way_set_def)
  have ways': "way_set s' b = way_set s b" for b
    by (rule way_set_upd [OF ok fr st c'(2)])
  have "p \<in> way_set s b \<and> extractTag s a = extractTag s b \<longleftrightarrow> blkAlign s b = blkAlign s a"
    using way_set_block [OF ok p, of b] same_block_iff [OF own_geometry [OF ok], of b a] p by (auto simp: way_set_def)
  then show "holds s' b q \<longleftrightarrow> (if q = p then blkAlign s b = blkAlign s a else holds s b q)"
    using b'(1,2) frame_extract [OF fr, of b] by (auto simp: holds_def ways' at)
qed

lemma access_hit:
  fixes s :: "'a LRU_scheme"
  assumes "tags_ok LRU_vt any_tid s" "holds s a p"
  defines "c \<equiv> set_at s (0, extractSet s a)"
  shows "\<exists>lat s'. accessBlock LRU_vt a t now s = Some (Some p, lat, s') \<and> frame s s'
     \<and> sets s' = sets (upd_at (0, extractSet s a) (c \<lparr>ways := to_head p (ways c)\<rparr>) s)
     \<and> blks s' = (blks s)[p := (blks s ! p) \<lparr>refCount := refCount (blks s ! p) + 1, isTouched := True\<rparr>]"
proof -
  note o = own [OF assms(1), of a, folded c_def]
  have p: "p \<in> set (ways c)" using assms(2) by (simp add: holds_def way_set_def c_def)
  have "findBlk (blks s) c (extractTag s a) = Some (Some p)"
    using findBlk_holds [OF assms(1), of a "Some p"] assms(2) by (simp add: c_def)
  moreover have "moveToHead p c = Some (c \<lparr>ways := to_head p (ways c)\<rparr>)"
    using moveToHead_eq [OF set_inv_cset [OF o(4)]] p by simp
  ultimately show ?thesis
    using o(3) set_inv_less [OF o(4) p]
    by (auto simp: accessBlock_def Let_def frame_def upd_at_def)
qed

lemma access_miss:
  fixes s :: "'a LRU_scheme"
  assumes "tags_ok LRU_vt any_tid s" "\<And>i. \<not> holds s a i"
  shows "\<exists>lat s'. accessBlock LRU_vt a t now s = Some (None, lat, s') \<and> frame s s'
     \<and> sets s' = sets s \<and> blks s' = blks s"
proof -
  have "findBlk (blks s) (set_at s (0, extractSet s a)) (extractTag s a) = Some None"
    using findBlk_holds [OF assms(1), of a None] assms(2) by simp
  moreover have "extractSet s a < length (missCounter s)"
    using own(1) [OF assms(1), of a] assms(1) by (simp add: tags_ok_def)
  ultimately show ?thesis
    using own(3) [OF assms(1), of a] by (auto simp: accessBlock_def Let_def frame_def)
qed

lemma victim_way:
  fixes s :: "'a LRU_scheme"
  assumes "tags_ok LRU_vt any_tid s"
  shows "\<exists>p. findVictim LRU_vt a t s = Some p \<and> p \<in> way_set s a"
proof -
  note o = own [OF assms, of a]
  let ?w = "ways (set_at s (0, extractSet s a))"
  have w: "?w \<noteq> []" using o(4) by (simp add: set_inv_def cset_ok_def)
  then have "?w ! (length ?w - 1) \<in> set ?w" by simp
  then show ?thesis
    using o(3,5) w set_inv_less [OF o(4)] by (auto simp: findVictim_def way_set_def)
qed

text \<open>The same store up to statistics and counters.\<close>

lemma tags_ok_same:
  assumes "tags_ok LRU_vt any_tid s" "frame s s'" "sets s' = sets s" "blks s' = blks s"
  shows "tags_ok LRU_vt any_tid s'" "holds s' a i = holds s a i" "way_set s' a = way_set s a"
  using lru.refines_same [OF assms refl, of 0 0] frame_extract [OF assms(2), of a] assms(3,4)
  by (simp_all add: refines_step_def holds_def way_set_def set_at_def)

subsection \<open>The cache over a memory\<close>

text \<open>
  The contents the pair stands for: a byte comes from the cached copy of its
  block if there is one, from the memory otherwise.
\<close>

definition cached :: "'a Cache \<Rightarrow> addr \<Rightarrow> CacheBlk option" where
  "cached c a = (case findBlock LRU_vt a 0 (tags c) of
     Some (Some i) \<Rightarrow> at (blks (tags c)) i | _ \<Rightarrow> None)"

definition content :: "('m \<Rightarrow> addr \<Rightarrow> byte list) \<Rightarrow> 'a Cache \<Rightarrow> 'm \<Rightarrow> addr \<Rightarrow> byte list" where
  "content block c m a = (case cached c a of Some b \<Rightarrow> blk_data b | None \<Rightarrow> block m (blkAlign (tags c) a))"

definition flat :: "('m \<Rightarrow> addr \<Rightarrow> byte list) \<Rightarrow> 'a Cache \<Rightarrow> 'm \<Rightarrow> addr \<Rightarrow> byte" where
  "flat block c m a = content block c m a ! extractBlkOffset (tags c) a"

text \<open>
  The invariant: a valid block has the permissions of the only copy, lies in
  the memory, and agrees with it unless it is dirty; no miss is outstanding.
\<close>

definition blk_agrees :: "('m \<Rightarrow> addr \<Rightarrow> byte list) \<Rightarrow> ('m \<Rightarrow> addr \<Rightarrow> bool) \<Rightarrow> 'm \<Rightarrow> addr \<Rightarrow> CacheBlk \<Rightarrow> bool" where
  "blk_agrees block covers m a b \<longleftrightarrow> isReadable b \<and> isWritable b \<and> covers m a
     \<and> (\<not> isDirty b \<longrightarrow> blk_data b = block m a)"

definition mshr_idle :: "MSHRQueue per_thread \<Rightarrow> bool" where
  "mshr_idle mq = (case mq of Shared q \<Rightarrow> allocatedList q = [] | PerThread qs \<Rightarrow> False)"

definition cache_ok :: "('m \<Rightarrow> addr \<Rightarrow> byte list) \<Rightarrow> ('m \<Rightarrow> addr \<Rightarrow> bool) \<Rightarrow> ('m \<Rightarrow> bool)
    \<Rightarrow> 'a Cache \<Rightarrow> 'm \<Rightarrow> bool" where
  "cache_ok block covers ready c m \<longleftrightarrow> tags_ok LRU_vt any_tid (tags c) \<and> blkSize (tags c) = c_blkSize c
     \<and> 0 \<le>s c_blkSize c \<and> ready m \<and> isTopLevel c \<and> mshr_idle (mshrQueue c)
     \<and> (\<forall>b \<in> set (blks (tags c)). length (blk_data b) = unat (c_blkSize c))
     \<and> (\<forall>a. \<forall>i \<in> way_set (tags c) a. isValid (blks (tags c) ! i) \<longrightarrow> (\<exists>b. holds (tags c) b i))
     \<and> (\<forall>a i. holds (tags c) a i \<longrightarrow> blk_agrees block covers m (blkAlign (tags c) a) (blks (tags c) ! i))"

lemma cached_holds:
  assumes "tags_ok LRU_vt any_tid (tags c)"
  shows "cached c a = Some b \<longleftrightarrow> (\<exists>i. holds (tags c) a i \<and> b = blks (tags c) ! i)"
    and "cached c a = None \<longleftrightarrow> (\<forall>i. \<not> holds (tags c) a i)"
proof -
  let ?s = "tags c"
  have f: "findBlock LRU_vt a 0 ?s = findBlk (blks ?s) (set_at ?s (0, extractSet ?s a)) (extractTag ?s a)"
    using own(3) [OF assms, of a 0] by (simp add: findBlock_def)
  have less: "holds ?s a i \<Longrightarrow> i < length (blks ?s)" for i
    using holds_less [OF assms, of i a] by (simp add: holds_def)
  have some: "findBlock LRU_vt a 0 ?s = Some (Some i)" if "holds ?s a i" for i
    unfolding f using findBlk_holds [OF assms, of a "Some i"] that by simp
  have none: "findBlock LRU_vt a 0 ?s = Some None" if "\<forall>i. \<not> holds ?s a i"
    unfolding f using findBlk_holds [OF assms, of a None] that by simp
  show "cached c a = Some b \<longleftrightarrow> (\<exists>i. holds ?s a i \<and> b = blks ?s ! i)"
    "cached c a = None \<longleftrightarrow> (\<forall>i. \<not> holds ?s a i)"
  proof (atomize (full), cases "\<exists>i. holds ?s a i")
    case True
    then obtain i where i: "holds ?s a i" by blast
    have u: "holds ?s a q \<longleftrightarrow> q = i" for q using holds_unique [OF assms _ i, of q] i by blast
    from i have "cached c a = Some (blks ?s ! i)" using some [OF i] less [OF i] by (simp add: cached_def)
    then show "(cached c a = Some b \<longleftrightarrow> (\<exists>i. holds ?s a i \<and> b = blks ?s ! i))
        \<and> (cached c a = None \<longleftrightarrow> (\<forall>i. \<not> holds ?s a i))"
      by (auto simp: u)
  next
    case False
    then show "(cached c a = Some b \<longleftrightarrow> (\<exists>i. holds ?s a i \<and> b = blks ?s ! i))
        \<and> (cached c a = None \<longleftrightarrow> (\<forall>i. \<not> holds ?s a i))"
      using none by (simp add: cached_def)
  qed
qed

lemma content_simps:
  assumes "tags_ok LRU_vt any_tid (tags c)"
  shows "holds (tags c) a i \<Longrightarrow> content block c m a = blk_data (blks (tags c) ! i)"
    and "(\<And>i. \<not> holds (tags c) a i) \<Longrightarrow> content block c m a = block m (blkAlign (tags c) a)"
proof -
  assume "holds (tags c) a i"
  then have "cached c a = Some (blks (tags c) ! i)" using cached_holds(1) [OF assms] by blast
  then show "content block c m a = blk_data (blks (tags c) ! i)" by (simp add: content_def)
next
  assume "\<And>i. \<not> holds (tags c) a i"
  then have "cached c a = None" using cached_holds(2) [OF assms] by blast
  then show "content block c m a = block m (blkAlign (tags c) a)" by (simp add: content_def)
qed

lemma frame_align: "frame s s' \<Longrightarrow> blkAlign s' a = blkAlign s a \<and> extractBlkOffset s' a = extractBlkOffset s a"
  by (simp add: frame_def blkAlign_def extractBlkOffset_def)

text \<open>A block replaced in the cache, and its old contents written back if they were the only copy.\<close>

lemma install:
  fixes c c' :: "'a Cache"
  defines "s \<equiv> tags c" and "s' \<equiv> tags c'"
  assumes inv: "cache_ok block covers ready c m" and p: "p \<in> way_set s a"
    and fr: "frame s s'" and st: "sets s' = sets (upd_at (0, extractSet s a) cs s)"
    and cs: "cset_ok (length (blks s)) cs" "set (ways cs) = way_set s a"
    and bl: "blks s' = (blks s)[p := b']"
    and b': "tag b' = extractTag s a" "blk_set b' = int (extractSet s a)"
      "srcMasterId b' < length (occupancies s)" "length (blk_data b') = unat (c_blkSize c)"
    and only: "\<And>q. holds s a q \<Longrightarrow> q = p"
    and same: "c_blkSize c' = c_blkSize c" "isTopLevel c' = isTopLevel c" "mshrQueue c' = mshrQueue c"
    and agr: "blk_agrees block covers m' (blkAlign s a) b'"
    and m': "ready m'" "covers m' = covers m"
      "\<And>b. covers m (blkAlign s b) \<Longrightarrow> block m' (blkAlign s b)
          = (if wb \<and> holds s b p then blk_data (blks s ! p) else block m (blkAlign s b))"
    and wb: "\<not> wb \<Longrightarrow> holds s a p \<or> \<not> isValid (blks s ! p) \<or> \<not> isDirty (blks s ! p)"
  shows "cache_ok block covers ready c' m'"
    and "covers m (blkAlign s b) \<Longrightarrow>
      content block c' m' b = (if blkAlign s b = blkAlign s a then blk_data b' else content block c m b)"
proof -
  have ok: "tags_ok LRU_vt any_tid s" using inv by (simp add: cache_ok_def s_def)
  have v: "isValid b'" using agr perm_imp_valid by (auto simp: blk_agrees_def)
  note pb = place_block [OF ok p fr st cs bl v b'(1-3) only]
  have pl: "p < length (blks s)" using holds_less [OF ok p] .
  have at: "blks s' ! q = (if q = p then b' else blks s ! q)" for q
    using bl pl by (simp add: nth_list_update)
  have old: "holds s b q \<Longrightarrow> blk_agrees block covers m (blkAlign s b) (blks s ! q)" for b q
    using inv by (simp add: cache_ok_def s_def)
  have kept: "blk_agrees block covers m' (blkAlign s b) (blks s ! q)" if h: "holds s b q" "q \<noteq> p" for b q
  proof -
    have "\<not> holds s b p" using holds_unique [OF ok, of b q p] h by blast
    then show ?thesis using old [OF h(1)] m'(2) m'(3) [of b] by (simp add: blk_agrees_def)
  qed
  have ways': "way_set s' b = way_set s b" for b
    by (rule way_set_upd [OF ok fr st cs(2)])
  have addr: "\<exists>b. holds s' b q" if "q \<in> way_set s' d" "isValid (blks s' ! q)" for d q
  proof (cases "q = p")
    case False
    then have "q \<in> way_set s d" "isValid (blks s ! q)" using that ways' by (simp_all add: at)
    then obtain b where "holds s b q" using inv unfolding cache_ok_def s_def by blast
    then show ?thesis using pb(2) False by auto
  qed (use pb(2) [of a p] in auto)
  have agrees: "blk_agrees block covers m' (blkAlign s' b) (blks s' ! q)" if "holds s' b q" for b q
    using that kept [of b q] agr frame_align [OF fr, of b] by (auto simp: pb(2) at split: if_splits)
  have "\<forall>b \<in> set (blks s'). length (blk_data b) = unat (c_blkSize c)"
    using inv b'(4) set_update_subset_insert [of "blks s" p b'] by (auto simp: bl cache_ok_def s_def)
  then show "cache_ok block covers ready c' m'"
    using inv pb(1) same m'(1) addr agrees fr by (simp add: cache_ok_def s_def s'_def frame_def)
  show "content block c' m' b = (if blkAlign s b = blkAlign s a then blk_data b' else content block c m b)"
    if cov: "covers m (blkAlign s b)"
  proof -
    note cc = content_simps [of c, folded s_def, OF ok] and cc' = content_simps [of c', folded s'_def, OF pb(1)]
    consider (A) "blkAlign s b = blkAlign s a" | (Q) q where "holds s b q" "q \<noteq> p" "blkAlign s b \<noteq> blkAlign s a"
      | (V) "holds s b p" "blkAlign s b \<noteq> blkAlign s a" | (N) "\<And>q. \<not> holds s b q" "blkAlign s b \<noteq> blkAlign s a"
      by metis
    then show ?thesis
    proof cases
      case A
      then show ?thesis using cc'(1) [of b p block m'] pb(2) [of b p] by (simp add: at)
    next
      case Q
      then show ?thesis using cc'(1) [of b q block m'] cc(1) [of b q block m] pb(2) [of b q] by (simp add: at)
    next
      case V
      have "\<not> holds s' b q" for q
        using pb(2) [of b q] V holds_unique [OF ok, of b q p] by auto
      then have "content block c' m' b = block m' (blkAlign s b)"
        using cc'(2) [of b block m'] frame_align [OF fr, of b] by simp
      moreover have "\<not> holds s a p" using holds_block [OF ok V(1)] V(2) by auto
      ultimately show ?thesis
        using m'(3) [OF cov] wb old [OF V(1)] cc(1) [OF V(1), of block m] V
        by (auto simp: blk_agrees_def holds_def)
    next
      case N
      then have "\<not> holds s' b q" for q using pb(2) [of b q] by auto
      then show ?thesis using cc'(2) [of b block m'] cc(2) [of b block m] N m'(3) [OF cov] frame_align [OF fr] by simp
    qed
  qed
qed

lemma install_head:
  fixes c c' :: "'a Cache"
  defines "s \<equiv> tags c" and "s' \<equiv> tags c'"
  assumes inv: "cache_ok block covers ready c m" and p: "p \<in> way_set s a"
    and fr: "frame s s'" and st: "sets s' = sets (upd_at (0, extractSet s a) (set_at s (0, extractSet s a)
        \<lparr>ways := to_head p (ways (set_at s (0, extractSet s a)))\<rparr>) s)"
    and bl: "blks s' = (blks s)[p := b']"
    and b': "tag b' = extractTag s a" "blk_set b' = blk_set (blks s ! p)"
      "srcMasterId b' < length (occupancies s)" "length (blk_data b') = unat (c_blkSize c)"
    and only: "\<And>q. holds s a q \<Longrightarrow> q = p"
    and same: "c_blkSize c' = c_blkSize c" "isTopLevel c' = isTopLevel c" "mshrQueue c' = mshrQueue c"
    and agr: "blk_agrees block covers m' (blkAlign s a) b'"
    and m': "ready m'" "covers m' = covers m"
      "\<And>b. covers m (blkAlign s b) \<Longrightarrow> block m' (blkAlign s b)
          = (if wb \<and> holds s b p then blk_data (blks s ! p) else block m (blkAlign s b))"
    and wb: "\<not> wb \<Longrightarrow> holds s a p \<or> \<not> isValid (blks s ! p) \<or> \<not> isDirty (blks s ! p)"
  shows "cache_ok block covers ready c' m' \<and> (\<forall>b. covers m (blkAlign s b) \<longrightarrow>
      content block c' m' b = (if blkAlign s b = blkAlign s a then blk_data b' else content block c m b))"
proof -
  let ?cs = "set_at s (0, extractSet s a)"
  have si: "set_inv s (extractSet s a) ?cs" using inv by (intro own(4)) (simp add: cache_ok_def s_def)
  have cs: "cset_ok (length (blks s)) (?cs \<lparr>ways := to_head p (ways ?cs)\<rparr>)"
    using cset_ok_to_head [OF set_inv_cset [OF si], of p] p by (simp add: way_set_def)
  have cw: "set (ways (?cs \<lparr>ways := to_head p (ways ?cs)\<rparr>)) = way_set s a"
    using cset_ok_distinct [OF set_inv_cset [OF si]] p by (auto simp: way_set_def)
  have bs: "blk_set b' = int (extractSet s a)" using b'(2) si p by (simp add: set_inv_def way_set_def)
  note I = install [of block covers ready c m p a c', folded s_def s'_def,
      OF inv p fr st cs cw bl b'(1) bs b'(3,4) only same agr m'(1,2,3) wb]
  from I(1) I(2) show ?thesis by blast
qed

end
