(* ===== verification/Cache_Atomic.thy ===== *)
theory Cache_Atomic
imports Cache_Store
begin

text \<open>
  Atomic accesses through the cache against the memory below it.  The locale
  \<open>memory_below\<close> states what the cache relies on of the next level: a block
  read returns the block's bytes without a sharer, a writeback stores them.
  Inside it the pair of cache and memory is shown to behave as one flat
  memory: a read returns the bytes written last, a write changes exactly its
  own bytes, whatever is hit, filled, evicted or written back meanwhile.  The
  interpretation is on \<open>AbstractMemory\<close> as \<open>SimpleMemory\<close> serves it.
\<close>

subsection \<open>Requests of the processor\<close>

text \<open>
  A cacheable read or write of the processor inside one block, with its
  buffer, from a registered requestor.
\<close>

definition cpu_request :: "'a LRU_scheme \<Rightarrow> Packet \<Rightarrow> bool" where
  "cpu_request s pk \<longleftrightarrow> cmd pk \<in> {ReadReq, WriteReq}
     \<and> isSet (flags pk) VALID_ADDR \<and> isSet (flags pk) VALID_SIZE
     \<and> extractBlkOffset s (addr pk) + unat (pkt_size pk) \<le> unat (blkSize s)
     \<and> (case data pk of None \<Rightarrow> False | Some d \<Rightarrow> length d = unat (pkt_size pk))
     \<and> isSet (flags pk) (STATIC_DATA OR DYNAMIC_DATA) \<and> \<not> memInhibitAsserted pk
     \<and> \<not> isUncacheable (req pk) \<and> hasPaddr (req pk) \<and> paddr (req pk) = addr pk
     \<and> unat (masterId (req pk)) < length (occupancies s)"

lemma rw_cmds [simp]:
  "isRead ReadReq" "\<not> isWrite ReadReq" "\<not> needsExclusive ReadReq" "needsResponse ReadReq" "isRequest ReadReq"
  "\<not> isLLSC ReadReq" "\<not> isUpgrade ReadReq" "isWrite WriteReq" "\<not> isRead WriteReq" "needsExclusive WriteReq"
  "needsResponse WriteReq" "isRequest WriteReq" "\<not> isLLSC WriteReq" "\<not> isUpgrade WriteReq"
  "isRead ReadResp" "isResponse ReadResp" "\<not> isError ReadResp" "hasData ReadResp"
  "isRead ReadExResp" "isResponse ReadExResp" "\<not> isError ReadExResp" "hasData ReadExResp"
  "responseCommand ReadReq = ReadResp" "responseCommand ReadExReq = ReadExResp"
  "isRead ReadExReq" "\<not> isWrite ReadExReq" "needsResponse ReadExReq" "isRequest ReadExReq" "\<not> isLLSC ReadExReq"
  "isWrite Writeback" "\<not> isRead Writeback" "\<not> needsResponse Writeback" "\<not> isLLSC Writeback"
  "responseCommand WriteReq = WriteResp"
  by code_simp+

lemma scast_masks:
  assumes "k < 32"
  shows "(scast (2 ^ k - 1 :: 32 word) :: addr) = mask k"
    "(scast (NOT (2 ^ k - 1) :: 32 word) :: addr) = NOT (mask k)"
proof -
  have m: "(2 ^ k - 1 :: 32 word) = mask k" by (simp add: mask_eq_exp_minus_1)
  show "(scast (2 ^ k - 1 :: 32 word) :: addr) = mask k"
    "(scast (NOT (2 ^ k - 1) :: 32 word) :: addr) = NOT (mask k)"
    unfolding m using assms
    by (intro bit_word_eqI; auto simp: bit_word_scast_iff bit_simps min_def)+
qed

lemma getOffset_blk:
  assumes "geometry_ok s" "isSet (flags pk) VALID_ADDR"
  shows "\<exists>w. getOffset (blkSize s) pk = Some w \<and> unat w = extractBlkOffset s (addr pk)"
proof -
  have "blkSize s = 2 ^ setShift s" "setShift s < 32" using assms(1) by (simp_all add: geometry_ok_def)
  then show ?thesis
    using assms(2) scast_masks(1) geometry_unat(4) [OF assms(1)]
    by (simp add: getOffset_def getAddr_def extractBlkOffset_def)
qed

text \<open>\<open>satisfyCpuSideRequest\<close> on a resident block.\<close>

lemma offset_check:
  assumes "unat (off :: addr) + unat (n :: 32 word) \<le> unat (bs :: 32 word)"
  shows "off + ucast n \<le> ucast bs"
proof -
  have u: "unat (ucast w :: addr) = unat w" for w :: "32 word"
    using unat_lt_32 [of w] by (simp add: unat_ucast_word)
  have "unat (off + ucast n) = unat off + unat n"
    using assms unat_lt_32 [of bs] by (simp add: unat_word_ariths u)
  then show ?thesis using assms by (simp add: word_le_nat_alt u)
qed

lemma satisfy_read:
  fixes c :: "'a Cache"
  assumes rq: "cpu_request (tags c) pk" "cmd pk = ReadReq" and g: "geometry_ok (tags c)"
    and bs: "blkSize (tags c) = c_blkSize c" and top: "isTopLevel c"
    and p: "p < length (blks (tags c))" "length (blk_data (blks (tags c) ! p)) = unat (c_blkSize c)"
  shows "\<exists>pk'. satisfyCpuSideRequest vt False False (InTags p) pk c = Some (pk', c) \<and> cmd pk' = ReadReq
    \<and> data pk' = Some (take (unat (pkt_size pk)) (drop (extractBlkOffset (tags c) (addr pk)) (blk_data (blks (tags c) ! p))))"
proof -
  let ?b = "blks (tags c) ! p"
  have fl: "isSet (flags pk) VALID_ADDR" "isSet (flags pk) VALID_SIZE" "isSet (flags pk) (STATIC_DATA OR DYNAMIC_DATA)"
    using rq(1) by (simp_all add: cpu_request_def)
  obtain w where w: "getOffset (c_blkSize c) pk = Some w" "unat w = extractBlkOffset (tags c) (addr pk)"
    using getOffset_blk [OF g fl(1)] bs by auto
  obtain d where d: "data pk = Some d" "length d = unat (pkt_size pk)"
    using rq(1) by (auto simp: cpu_request_def split: option.splits)
  have le: "unat w + unat (pkt_size pk) \<le> unat (c_blkSize c)"
    using rq(1) w(2) bs by (simp add: cpu_request_def)
  define v where "v = take (unat (pkt_size pk)) (drop (unat w) (blk_data ?b))"
  have sd: "setDataFromBlock (blk_data ?b) (c_blkSize c) pk = Some (pk \<lparr>data := Some v\<rparr>)"
    using le d p(2) fl by (simp add: setDataFromBlock_def w(1) setData_def getPtr_def getSize_def memcpy_at_def v_def)
  have put: "put_blk (InTags p) ?b c = c" by (simp add: put_blk_def)
  have "\<exists>pk'. read_whole_block vt False False (InTags p) (pk \<lparr>data := Some v\<rparr>) c = Some (pk', c)
      \<and> cmd pk' = ReadReq \<and> data pk' = Some v"
    using rq(2) p(1) top by (simp add: read_whole_block_def get_blk_def assertShared_def)
  then show ?thesis
    using rq(2) fl offset_check [OF le] p(1) sd
    by (auto simp: satisfyCpuSideRequest_def w(1) getSize_def get_blk_def put v_def w(2))
qed

lemma satisfy_write:
  fixes c :: "'a Cache"
  assumes rq: "cpu_request (tags c) pk" "cmd pk = WriteReq" "data pk = Some d" and g: "geometry_ok (tags c)"
    and bs: "blkSize (tags c) = c_blkSize c"
    and p: "p < length (blks (tags c))" "length (blk_data (blks (tags c) ! p)) = unat (c_blkSize c)"
  defines "off \<equiv> extractBlkOffset (tags c) (addr pk)" and "n \<equiv> unat (pkt_size pk)"
    and "b \<equiv> blks (tags c) ! p"
  shows "satisfyCpuSideRequest vt False False (InTags p) pk c = Some (pk, put_blk (InTags p)
     (clearLoadLocks b \<lparr>blk_data := take off (blk_data b) @ d @ drop (off + n) (blk_data b),
        status := status b OR BlkDirty\<rparr>) c)"
proof -
  have fl: "isSet (flags pk) VALID_ADDR" "isSet (flags pk) VALID_SIZE" "isSet (flags pk) (STATIC_DATA OR DYNAMIC_DATA)"
    using rq(1) by (simp_all add: cpu_request_def)
  obtain w where w: "getOffset (c_blkSize c) pk = Some w" "unat w = off"
    using getOffset_blk [OF g fl(1)] bs by (auto simp: off_def)
  have d: "length d = n" using rq(1,3) by (simp add: cpu_request_def n_def)
  have le: "unat w + unat (pkt_size pk) \<le> unat (c_blkSize c)"
    using rq(1) w(2) bs by (simp add: cpu_request_def off_def)
  have wd: "writeDataToBlock (blk_data b) (c_blkSize c) pk
      = Some (take off (blk_data b) @ d @ drop (off + n) (blk_data b))"
    using le d p(2) fl rq(3) w(2)
    by (simp add: writeDataToBlock_def w(1) getPtr_def getSize_def memcpy_at_def n_def b_def)
  show ?thesis
    using rq(2) fl offset_check [OF le] p(1) wd
    by (simp add: satisfyCpuSideRequest_def w(1) getSize_def get_blk_def checkWrite_def clearLoadLocks_def b_def)
qed

text \<open>The bytes of the block after the request, and the block as an only copy.\<close>

definition upd_block :: "Packet \<Rightarrow> nat \<Rightarrow> byte list \<Rightarrow> byte list" where
  "upd_block pk off d = (if cmd pk = WriteReq
     then take off d @ the (data pk) @ drop (off + unat (pkt_size pk)) d else d)"

lemma status_dirty:
  assumes "isReadable b" "isWritable b"
  shows "isReadable (b \<lparr>status := status b OR BlkDirty\<rparr>)" "isWritable (b \<lparr>status := status b OR BlkDirty\<rparr>)"
    "isDirty (b \<lparr>status := status b OR BlkDirty\<rparr>)"
proof -
  have r: "(x OR y) AND n = n" if "x AND n = n" for x y n :: "32 word"
    using that by (auto simp: bit_eq_iff bit_simps)
  show "isReadable (b \<lparr>status := status b OR BlkDirty\<rparr>)" "isWritable (b \<lparr>status := status b OR BlkDirty\<rparr>)"
    using assms r by (simp_all add: isReadable_def isWritable_def Let_def)
  have "bit ((status b OR BlkDirty) AND BlkDirty) 3" by (simp add: bit_simps BlkDirty_def)
  then show "isDirty (b \<lparr>status := status b OR BlkDirty\<rparr>)" by (auto simp: isDirty_def)
qed

lemma status_fields:
  "isReadable b = isReadable b'" "isWritable b = isWritable b'" "isDirty b = isDirty b'" "isValid b = isValid b'"
  if "status b = status b'"
  using that by (simp_all add: isReadable_def isWritable_def isDirty_def isValid_def)

lemma satisfy_cpu:
  fixes c :: "'a Cache"
  assumes rq: "cpu_request (tags c) pk" and g: "geometry_ok (tags c)"
    and bs: "blkSize (tags c) = c_blkSize c" and top: "isTopLevel c"
    and p: "p < length (blks (tags c))" "length (blk_data b) = unat (c_blkSize c)"
    and b: "b = blks (tags c) ! p" "isReadable b" "isWritable b"
  defines "off \<equiv> extractBlkOffset (tags c) (addr pk)"
  shows "\<exists>pk' b'. satisfyCpuSideRequest vt False False (InTags p) pk c = Some (pk', put_blk (InTags p) b' c)
     \<and> cmd pk' = cmd pk \<and> tag b' = tag b \<and> blk_set b' = blk_set b \<and> srcMasterId b' = srcMasterId b
     \<and> isReadable b' \<and> isWritable b' \<and> (\<not> isDirty b' \<longrightarrow> \<not> isDirty b \<and> blk_data b' = blk_data b)
     \<and> blk_data b' = upd_block pk off (blk_data b) \<and> length (blk_data b') = unat (c_blkSize c)
     \<and> (cmd pk = ReadReq \<longrightarrow> data pk' = Some (take (unat (pkt_size pk)) (drop off (blk_data b))))"
proof (cases "cmd pk = ReadReq")
  case True
  have put: "put_blk (InTags p) b c = c" using b(1) by (simp add: put_blk_def)
  obtain pk' where "satisfyCpuSideRequest vt False False (InTags p) pk c = Some (pk', c)" "cmd pk' = ReadReq"
    "data pk' = Some (take (unat (pkt_size pk)) (drop off (blk_data b)))"
    using satisfy_read [OF rq True g bs top p(1), of vt] p(2) b(1) by (auto simp: off_def)
  then show ?thesis
    using True b(2,3) p(2) by (intro exI [of _ pk'] exI [of _ b]) (simp add: put upd_block_def)
next
  case False
  then have w: "cmd pk = WriteReq" using rq by (simp add: cpu_request_def)
  obtain d where d: "data pk = Some d" "length d = unat (pkt_size pk)"
    using rq by (auto simp: cpu_request_def split: option.splits)
  have le: "off + unat (pkt_size pk) \<le> length (blk_data b)"
    using rq bs p(2) by (simp add: cpu_request_def off_def)
  let ?b' = "clearLoadLocks b \<lparr>blk_data := take off (blk_data b) @ d @ drop (off + unat (pkt_size pk)) (blk_data b),
        status := status b OR BlkDirty\<rparr>"
  have st: "status ?b' = status (b \<lparr>status := status b OR BlkDirty\<rparr>)" by (simp add: clearLoadLocks_def)
  have "satisfyCpuSideRequest vt False False (InTags p) pk c = Some (pk, put_blk (InTags p) ?b' c)"
    using satisfy_write [OF rq w d(1) g bs p(1), of vt] p(2) b(1) by (simp add: off_def)
  then show ?thesis
    using w d le p(2) status_dirty [OF b(2,3)] status_fields [OF st]
    by (intro exI [of _ pk] exI [of _ ?b']) (simp add: upd_block_def clearLoadLocks_def)
qed

subsection \<open>Atomic accesses\<close>

text \<open>What an atomic access of the processor achieves.\<close>

definition atomic_done :: "('m \<Rightarrow> addr \<Rightarrow> byte list) \<Rightarrow> ('m \<Rightarrow> addr \<Rightarrow> bool) \<Rightarrow> ('m \<Rightarrow> bool) \<Rightarrow> Packet
    \<Rightarrow> 'a Cache \<Rightarrow> 'm \<Rightarrow> (tick \<times> Packet \<times> 'a Cache \<times> 'm) option \<Rightarrow> bool" where
  "atomic_done block covers ready pk c m r \<longleftrightarrow> (\<exists>l pk' c' m'. r = Some (l, pk', c', m')
     \<and> cache_ok block covers ready c' m' \<and> covers m' = covers m
     \<and> frame (tags c) (tags c') \<and> cmd pk' = responseCommand (cmd pk)
     \<and> (cmd pk = ReadReq \<longrightarrow> data pk' = Some (take (unat (pkt_size pk))
          (drop (extractBlkOffset (tags c) (addr pk)) (content block c m (addr pk)))))
     \<and> (\<forall>b. covers m (blkAlign (tags c) b) \<longrightarrow> content block c' m' b =
          (if blkAlign (tags c) b = blkAlign (tags c) (addr pk)
           then upd_block pk (extractBlkOffset (tags c) (addr pk)) (content block c m (addr pk))
           else content block c m b)))"

lemma makeResponse_cpu:
  assumes "cmd pk = ReadReq \<or> cmd pk = WriteReq"
  shows "\<exists>pk'. makeResponse pk = Some pk' \<and> cmd pk' = responseCommand (cmd pk) \<and> data pk' = data pk"
  using assms by (auto simp: makeResponse_def clearSrc_def)

lemma cpu_request_frame:
  "frame s s' \<Longrightarrow> cpu_request s' pk = cpu_request s pk"
  by (simp add: cpu_request_def frame_def extractBlkOffset_def)

lemma atomic_hit:
  fixes c :: "'a Cache"
  assumes inv: "cache_ok block covers ready c m" and rq: "cpu_request (tags c) pk"
    and h: "holds (tags c) (addr pk) p"
  shows "atomic_done block covers ready pk c m (atomicAccess e LRU_vt send pk c m)"
proof -
  define s where "s = tags c"
  let ?a = "addr pk" and ?b = "blks s ! p" and ?cs = "set_at s (0, extractSet s (addr pk))"
  let ?off = "extractBlkOffset s ?a"
  have ok: "tags_ok LRU_vt any_tid s" and bs: "blkSize s = c_blkSize c" and top: "isTopLevel c"
    and len: "\<And>b. b \<in> set (blks s) \<Longrightarrow> length (blk_data b) = unat (c_blkSize c)"
    using inv by (simp_all add: cache_ok_def s_def)
  have h': "holds s ?a p" using h by (simp add: s_def)
  have pw: "p \<in> way_set s ?a" using h' by (simp add: holds_def)
  have pl: "p < length (blks s)" using holds_less [OF ok pw] .
  have agr: "blk_agrees block covers m (blkAlign s ?a) ?b"
    using inv h' by (simp add: cache_ok_def s_def)
  obtain lat s1 where s1: "accessBlock LRU_vt ?a (tid_of pk) (e_now e) s = Some (Some p, lat, s1)" "frame s s1"
      "sets s1 = sets (upd_at (0, extractSet s ?a) (?cs \<lparr>ways := to_head p (ways ?cs)\<rparr>) s)"
      "blks s1 = (blks s)[p := ?b \<lparr>refCount := refCount ?b + 1, isTouched := True\<rparr>]"
    using access_hit [OF ok h', of "tid_of pk" "e_now e"] by blast
  define b1 where "b1 = ?b \<lparr>refCount := refCount ?b + 1, isTouched := True\<rparr>"
  define c1 where "c1 = c \<lparr>tags := s1\<rparr>"
  have b1: "blks (tags c1) ! p = b1" "p < length (blks (tags c1))" "length (blk_data b1) = unat (c_blkSize c1)"
    "isReadable b1" "isWritable b1" "isDirty b1 = isDirty ?b"
    using s1(4) pl len [of ?b] agr
    by (simp_all add: c1_def b1_def blk_agrees_def isReadable_def isWritable_def isDirty_def)
  have c1: "cpu_request (tags c1) pk" "geometry_ok (tags c1)" "blkSize (tags c1) = c_blkSize c1" "isTopLevel c1"
    using rq cpu_request_frame [OF s1(2)] own_geometry [OF ok] lru.frame_cong(3) [OF s1(2)] bs top s1(2)
    by (simp_all add: c1_def s_def frame_def)
  have b1f: "blk_data b1 = blk_data ?b" "tag b1 = tag ?b" "blk_set b1 = blk_set ?b"
      "srcMasterId b1 = srcMasterId ?b" "c_blkSize c1 = c_blkSize c" "extractBlkOffset (tags c1) ?a = ?off"
    using frame_align [OF s1(2), of ?a] by (simp_all add: b1_def c1_def)
  from satisfy_cpu [OF c1 b1(2,3) b1(1) [symmetric] b1(4,5), of LRU_vt, unfolded b1f b1(6)]
  obtain pk' b' where sat: "satisfyCpuSideRequest LRU_vt False False (InTags p) pk c1 = Some (pk', put_blk (InTags p) b' c1)"
      "cmd pk' = cmd pk" "tag b' = tag ?b" "blk_set b' = blk_set ?b" "srcMasterId b' = srcMasterId ?b"
      "isReadable b'" "isWritable b'" "\<not> isDirty b' \<longrightarrow> \<not> isDirty ?b \<and> blk_data b' = blk_data ?b"
      "blk_data b' = upd_block pk ?off (blk_data ?b)" "length (blk_data b') = unat (c_blkSize c)"
      "cmd pk = ReadReq \<longrightarrow> data pk' = Some (take (unat (pkt_size pk)) (drop ?off (blk_data ?b)))"
    by blast
  have cm: "cmd pk = ReadReq \<or> cmd pk = WriteReq" using rq by (auto simp: cpu_request_def)
  obtain pk'' where mk: "makeResponse pk' = Some pk''" "cmd pk'' = responseCommand (cmd pk)" "data pk'' = data pk'"
    using makeResponse_cpu [of pk'] cm sat(2) by auto
  have acc: "access e LRU_vt pk c = Some (True, Some p, lat, [], pk', put_blk (InTags p) b' c1)"
  proof -
    have "get_blk (InTags p) c1 = Some b1" using b1(1,2) by (simp add: get_blk_def)
    then show ?thesis
      using rq s1(1) sat(1) b1(4,5) cm
      by (auto simp: access_def cpu_request_def getAddr_def s_def [symmetric] c1_def [symmetric])
  qed
  have res: "atomicAccess e LRU_vt send pk c m = Some (scast (lat + ucast (0 :: tick)), pk'', put_blk (InTags p) b' c1, m)"
    using rq acc mk(1) sat(2) cm by (auto simp: atomicAccess_def cpu_request_def)
  let ?c' = "put_blk (InTags p) b' c1"
  have t': "tags ?c' = s1 \<lparr>blks := (blks s)[p := b']\<rparr>"
    using s1(4) by (simp add: put_blk_def c1_def)
  have fr: "frame s (tags ?c')" using s1(2) by (simp add: t' frame_def)
  have inst: "cache_ok block covers ready ?c' m \<and> (\<forall>b. covers m (blkAlign s b) \<longrightarrow>
      content block ?c' m b = (if blkAlign s b = blkAlign s ?a then blk_data b' else content block c m b))"
  proof (rule install_head [of block covers ready c m p ?a ?c' b' m False, folded s_def, OF inv pw fr])
    show "srcMasterId b' < length (occupancies s)"
      using sat(5) own(4) [OF ok, of ?a] h' by (simp add: set_inv_def holds_def way_set_def)
    show "\<And>q. holds s ?a q \<Longrightarrow> q = p" using holds_unique [OF ok _ h'] .
    show "blk_agrees block covers m (blkAlign s ?a) b'" using sat(6-8) agr by (simp add: blk_agrees_def)
  qed (use inv h' sat(3,4,10) s1(3,4) in \<open>simp_all add: t' holds_def cache_ok_def put_blk_def c1_def\<close>)
  have "content block c m ?a = blk_data ?b"
    using content_simps(1) [of c ?a p block m] ok h' by (simp add: s_def)
  then show ?thesis
    unfolding atomic_done_def res s_def [symmetric]
    using inst fr mk(2,3) sat(9,11)
    by (intro exI [of _ "scast (lat + ucast (0 :: tick))"] exI [of _ pk''] exI [of _ ?c'] exI [of _ m]) simp
qed

subsection \<open>Packets to the next level\<close>

definition block_request :: "32 word \<Rightarrow> addr \<Rightarrow> Packet \<Rightarrow> bool" where
  "block_request bs a q \<longleftrightarrow> isSet (flags q) VALID_ADDR \<and> isSet (flags q) VALID_SIZE \<and> addr q = a
     \<and> pkt_size q = bs \<and> (case data q of None \<Rightarrow> False | Some d \<Rightarrow> length d = unat bs)
     \<and> isSet (flags q) (STATIC_DATA OR DYNAMIC_DATA) \<and> \<not> memInhibitAsserted q \<and> \<not> sharedAsserted q"

definition block_response :: "Packet \<Rightarrow> byte list \<Rightarrow> Packet \<Rightarrow> bool" where
  "block_response q d r \<longleftrightarrow> cmd r = responseCommand (cmd q) \<and> getAddr r = getAddr q \<and> getPtr r = Some d
     \<and> req r = req q \<and> threadID r = threadID q \<and> \<not> memInhibitAsserted r \<and> \<not> sharedAsserted r"

lemma getBusPacket_cpu:
  fixes c :: "'a Cache"
  assumes rq: "cpu_request (tags c) pk" and g: "geometry_ok (tags c)" and bs: "blkSize (tags c) = c_blkSize c"
  defines "excl \<equiv> needsExclusive (cmd pk)"
  shows "\<exists>q. getBusPacket e pk None excl c = Some (Some q) \<and> cmd q = (if excl then ReadExReq else ReadReq)
     \<and> block_request (c_blkSize c) (blkAlign (tags c) (addr pk)) q \<and> req q = req pk \<and> threadID q = threadID pk"
proof -
  have k: "c_blkSize c = 2 ^ setShift (tags c)" "setShift (tags c) < 32"
    using g bs by (simp_all add: geometry_ok_def)
  have al: "addr pk AND scast (NOT (c_blkSize c - 1)) = blkAlign (tags c) (addr pk)"
    unfolding k(1) scast_masks(2) [OF k(2)] by (simp add: blkAlign_def geometry_unat(4) [OF g])
  have cm: "cmd pk = ReadReq \<or> cmd pk = WriteReq" using rq by (auto simp: cpu_request_def)
  have "\<not> isUncacheable (req pk)" "hasPaddr (req pk)" "paddr (req pk) = addr pk"
    using rq by (simp_all add: cpu_request_def)
  then show ?thesis
    using cm al
    by (auto simp: getBusPacket_def excl_def Packet_new_blk_tid_def Packet_from_blk_def Packet_init_def Let_def
        allocate_def getSize_def block_request_def memInhibitAsserted_def sharedAsserted_def flags_defs pkt_flag_defs)
qed

lemma writebackBlk_only_copy:
  fixes c :: "'a Cache"
  assumes b: "get_blk (InTags p) c = Some b" "isValid b" "isDirty b" "isWritable b" "0 \<le> blk_set b"
    and sz: "0 \<le>s c_blkSize c" "length (blk_data b) = unat (c_blkSize c)"
  shows "\<exists>wb. writebackBlk e (InTags p) tid c
       = Some (wb, put_blk (InTags p) (b \<lparr>status := status b AND NOT BlkDirty\<rparr>) c)
     \<and> cmd wb = Writeback \<and> block_request (c_blkSize c) (regenerateBlkAddr (tags c) (tag b) (nat (blk_set b))) wb
     \<and> getPtr wb = Some (blk_data b) \<and> \<not> isInstFetch (req wb) \<and> hasPaddr (req wb)"
proof -
  define r where "r = raw_req e \<lparr>paddr := regenerateBlkAddr (tags c) (tag b) (nat (blk_set b)),
     req_size := c_blkSize c, req_time := e_now e, req_masterId := wbMasterId, req_flags := 0,
     privateFlags := VALID_PADDR OR REQ_VALID_SIZE\<rparr>"
  have r: "Request_phys (raw_req e) (regenerateBlkAddr (tags c) (tag b) (nat (blk_set b))) (c_blkSize c) 0
      wbMasterId (e_now e) = Some r"
    using sz(1) by (simp add: Request_phys_def setPhys_def Request_new_def r_def flags_defs req_flag_defs)
  have rf: "hasPaddr r" "hasSize r" "\<not> isInstFetch r"
    by (simp_all add: r_def hasPaddr_def hasSize_def isInstFetch_def flags_defs req_flag_defs)
  show ?thesis
    unfolding writebackBlk_def b(1)
    using b(2-5) r rf sz(2)
    by (simp add: Packet_new_tid_def Packet_from_req_def Packet_init_def Let_def setSupplyExclusive_def
        allocate_def getSize_def getPtr_def memcpy_at_def block_request_def memInhibitAsserted_def sharedAsserted_def
        flags_defs pkt_flag_defs) (simp add: r_def)
qed

subsection \<open>A fill\<close>

lemma cache_ok_same:
  fixes c :: "'a Cache"
  assumes inv: "cache_ok block covers ready c m"
    and s': "frame (tags c) s'" "sets s' = sets (tags c)" "blks s' = blks (tags c)"
  shows "cache_ok block covers ready (c \<lparr>tags := s'\<rparr>) m"
    "content block (c \<lparr>tags := s'\<rparr>) m' a = content block c m' a"
proof -
  have ok: "tags_ok LRU_vt any_tid (tags c)" using inv by (simp add: cache_ok_def)
  note t = tags_ok_same [OF ok s']
  have al: "blkAlign s' b = blkAlign (tags c) b" for b using frame_align [OF s'(1)] by simp
  show "cache_ok block covers ready (c \<lparr>tags := s'\<rparr>) m"
    using inv s'(1) by (simp add: cache_ok_def t al s'(3)) (simp add: frame_def)
  have "findBlock LRU_vt a 0 s' = findBlock LRU_vt a 0 (tags c)"
    using frame_extract [OF s'(1), of a] by (simp add: findBlock_def get_set_def in_range_def set_at_def s'(2,3))
  then show "content block (c \<lparr>tags := s'\<rparr>) m' a = content block c m' a"
    by (simp add: content_def cached_def al s'(3) at_def split: option.split)
qed

text \<open>The victim of a replacement: clean afterwards, its contents in the writeback if they were dirty.\<close>

definition evicted :: "32 word \<Rightarrow> 'a LRU_scheme \<Rightarrow> nat \<Rightarrow> Packet list \<Rightarrow> bool" where
  "evicted bs s p wbs \<longleftrightarrow> (if isValid (blks s ! p) \<and> isDirty (blks s ! p)
     then \<exists>wb b. wbs = [wb] \<and> holds s b p \<and> cmd wb = Writeback \<and> block_request bs (blkAlign s b) wb
        \<and> getPtr wb = Some (blk_data (blks s ! p)) \<and> \<not> isInstFetch (req wb) \<and> hasPaddr (req wb)
     else wbs = [])"

lemma isValid_clean [simp]: "isValid (b \<lparr>status := status b AND NOT BlkDirty\<rparr>) = isValid b"
  by (simp add: isValid_def blk_bits and.assoc)

lemma allocate_victim:
  fixes c :: "'a Cache"
  assumes inv: "cache_ok block covers ready c m"
  defines "s \<equiv> tags c"
  shows "\<exists>p wbs b1. allocateBlock e LRU_vt a tid c = Some (Some p, wbs, put_blk (InTags p) b1 c)
     \<and> p \<in> way_set s a \<and> evicted (c_blkSize c) s p wbs \<and> (\<exists>st. b1 = (blks s ! p) \<lparr>status := st\<rparr>)
     \<and> isValid b1 = isValid (blks s ! p)"
proof -
  have ok: "tags_ok LRU_vt any_tid s" and nm: "mshr_idle (mshrQueue c)"
    using inv by (simp_all add: cache_ok_def s_def)
  obtain p where p: "findVictim LRU_vt a tid s = Some p" "p \<in> way_set s a"
    using victim_way [OF ok, of a tid] by blast
  let ?b = "blks s ! p"
  have pl: "p < length (blks s)" using holds_less [OF ok p(2)] .
  have g: "get_blk (InTags p) c = Some ?b" using pl by (simp add: get_blk_def s_def)
  obtain mq where mq: "getMSHRQueue t c = Some mq" "allocatedList mq = []" for t
    using nm by (auto simp: mshr_idle_def getMSHRQueue_def split: per_thread.splits)
  then have fm: "findMatch x (c_heap c) mq = None" for x by (simp add: findMatch_def)
  have set: "blk_set ?b = int (extractSet s a)" using own(4) [OF ok, of a] p(2) by (simp add: set_inv_def way_set_def)
  have put: "put_blk (InTags p) ?b c = c" by (simp add: put_blk_def s_def)
  show ?thesis
  proof (cases "isValid ?b \<and> isDirty ?b")
    case True
    then obtain b where b: "holds s b p" using inv p(2) unfolding cache_ok_def s_def by blast
    have ex: "extractSet s b = extractSet s a" "tag ?b = extractTag s b"
      using way_set_block [OF ok _ p(2), of b] b by (simp_all add: holds_def)
    have A: "regenerateBlkAddr s (tag ?b) (extractSet s a) = blkAlign s b"
      using regenerate_align [OF own_geometry [OF ok], of b] by (simp add: ex)
    have "isWritable ?b" "0 \<le>s c_blkSize c" "length (blk_data ?b) = unat (c_blkSize c)"
      using inv b pl by (simp_all add: cache_ok_def s_def blk_agrees_def)
    from writebackBlk_only_copy [OF g _ _ this(1) _ this(2,3), of e "blk_threadID ?b"] True set
    obtain wb where wb: "writebackBlk e (InTags p) (blk_threadID ?b) c
        = Some (wb, put_blk (InTags p) (?b \<lparr>status := status ?b AND NOT BlkDirty\<rparr>) c)"
      "cmd wb = Writeback" "block_request (c_blkSize c) (blkAlign s b) wb"
      "getPtr wb = Some (blk_data ?b)" "\<not> isInstFetch (req wb)" "hasPaddr (req wb)"
      by (auto simp: s_def [symmetric] A)
    have "allocateBlock e LRU_vt a tid c
        = Some (Some p, [wb], put_blk (InTags p) (?b \<lparr>status := status ?b AND NOT BlkDirty\<rparr>) c)"
      using p(1) g True set wb(1) fm mq(1) by (simp add: allocateBlock_def s_def Let_def)
    then show ?thesis using p(2) True wb(2-6) b by (auto simp: evicted_def)
  next
    case False
    then have "allocateBlock e LRU_vt a tid c = Some (Some p, [], c)"
      using p(1) g set fm mq(1) by (auto simp: allocateBlock_def s_def Let_def)
    then show ?thesis
      using p(2) False put by (intro exI [of _ p] exI [of _ "[]"] exI [of _ ?b]) (auto simp: evicted_def intro: exI [of _ "status ?b"])
  qed
qed

lemma fresh_status:
  assumes "status b = BlkValid OR BlkReadable OR BlkWritable"
  shows "isReadable b" "isWritable b" "\<not> isDirty b"
  using assms by (simp_all add: isReadable_def isWritable_def isDirty_def blk_bits)

text \<open>A change of status bits that keeps the valid bit keeps the store well-formed.\<close>

lemma restatus_ok:
  fixes s :: "'a LRU_scheme"
  assumes ok: "tags_ok LRU_vt any_tid s" and p: "p \<in> way_set s a"
    and v: "isValid ((blks s ! p) \<lparr>status := st\<rparr>) = isValid (blks s ! p)"
  defines "s' \<equiv> s \<lparr>blks := (blks s)[p := (blks s ! p) \<lparr>status := st\<rparr>]\<rparr>"
  shows "tags_ok LRU_vt any_tid s'" "way_set s' a = way_set s a"
proof -
  note o = own [OF ok, of a]
  let ?l = "slot (LRU_vt :: ('a LRU_scheme) vtable) (extractSet s a) 0" and ?cs = "set_at s (0, extractSet s a)"
  have pl: "p < length (blks s)" using holds_less [OF ok p] .
  have fr: "frame s s'" by (simp add: s'_def frame_def)
  have st: "sets s' = sets (upd_at ?l ?cs s)" by (simp add: s'_def set_at_def)
  have at: "blks s' ! q = (if q = p then (blks s ! p) \<lparr>status := st\<rparr> else blks s ! q)" for q
    using pl by (simp add: s'_def nth_list_update)
  have out: "\<And>q. q \<notin> set (ways (set_at s ?l)) \<Longrightarrow> blks s' ! q = blks s ! q"
    using at p by (auto simp: way_set_def)
  have inv: "set_inv s' (extractSet s a) ?cs"
  proof (rule set_inv_transfer [OF o(4)])
    show "cset_ok (length (blks s')) ?cs" using set_inv_cset [OF o(4)] by (simp add: s'_def)
    show "isValid (blks s ! q) \<and> tag (blks s' ! q) = tag (blks s ! q)
        \<and> srcMasterId (blks s' ! q) < length (occupancies s')" if "q \<in> set (ways ?cs)" "isValid (blks s' ! q)" for q
    proof -
      have "isValid (blks s ! q)" using that(2) v by (simp add: at split: if_splits)
      then have "srcMasterId (blks s ! q) < length (occupancies s)"
        using o(4) that(1) by (simp add: set_inv_def)
      then show ?thesis using \<open>isValid (blks s ! q)\<close> fr by (auto simp: at frame_def)
    qed
  qed (simp_all add: at)
  show "tags_ok LRU_vt any_tid s'"
    by (rule lru.local_update(1) [OF ok o(1) any_tid_True fr st out _ _ inv]) simp_all
  show "way_set s' a = way_set s a" by (simp add: way_set_def s'_def set_at_def extractSet_def)
qed

text \<open>The effect of a fill with the bytes \<open>d\<close> for address \<open>a\<close>.\<close>

definition filled :: "'a Cache \<Rightarrow> addr \<Rightarrow> byte list \<Rightarrow> nat \<Rightarrow> Packet list \<Rightarrow> 'a Cache \<Rightarrow> CacheBlk \<Rightarrow> bool" where
  "filled c a d p wbs c' b' \<longleftrightarrow> p \<in> way_set (tags c) a \<and> evicted (c_blkSize c) (tags c) p wbs \<and> frame (tags c) (tags c')
     \<and> sets (tags c') = sets (upd_at (0, extractSet (tags c) a) (set_at (tags c) (0, extractSet (tags c) a)
           \<lparr>ways := to_head p (ways (set_at (tags c) (0, extractSet (tags c) a)))\<rparr>) (tags c))
     \<and> blks (tags c') = (blks (tags c))[p := b'] \<and> tag b' = extractTag (tags c) a
     \<and> blk_set b' = blk_set (blks (tags c) ! p) \<and> srcMasterId b' < length (occupancies (tags c)) \<and> blk_data b' = d
     \<and> isReadable b' \<and> isWritable b' \<and> \<not> isDirty b'
     \<and> c_blkSize c' = c_blkSize c \<and> isTopLevel c' = isTopLevel c \<and> mshrQueue c' = mshrQueue c"

lemma fill_block:
  fixes c :: "'a Cache"
  assumes inv: "cache_ok block covers ready c m"
    and q: "getAddr q = Some a" "cmd q = ReadResp \<or> cmd q = ReadExResp" "getPtr q = Some d"
      "length d = unat (c_blkSize c)" "\<not> sharedAsserted q" "\<not> memInhibitAsserted q"
      "unat (masterId (req q)) < length (occupancies (tags c))"
  defines "s \<equiv> tags c"
  shows "\<exists>p wbs c' b'. cache_handleFill e LRU_vt q None c = Some (InTags p, wbs, c')
     \<and> filled c a d p wbs c' b'"
proof -
  have ok: "tags_ok LRU_vt any_tid s" using inv by (simp add: cache_ok_def s_def)
  obtain p wbs b1 st where al: "allocateBlock e LRU_vt a (tid_of q) c = Some (Some p, wbs, put_blk (InTags p) b1 c)"
      "p \<in> way_set s a" "evicted (c_blkSize c) s p wbs" "b1 = (blks s ! p) \<lparr>status := st\<rparr>"
      "isValid b1 = isValid (blks s ! p)"
    using allocate_victim [OF inv, of e a "tid_of q"] by (auto simp: s_def)
  define s1 where "s1 = s \<lparr>blks := (blks s)[p := b1]\<rparr>"
  have pl: "p < length (blks s)" using holds_less [OF ok al(2)] .
  have s1: "tags_ok LRU_vt any_tid s1" "p \<in> way_set s1 a"
    using restatus_ok [OF ok al(2), of st] al(2,5) by (simp_all add: s1_def al(4))
  have ex: "extractSet s1 a = extractSet s a" "extractTag s1 a = extractTag s a" "set_at s1 l = set_at s l"
    "frame s s1" for l
    by (simp_all add: s1_def extractSet_def extractTag_def set_at_def frame_def)
  have c1: "put_blk (InTags p) b1 c = c \<lparr>tags := s1\<rparr>" by (simp add: put_blk_def s1_def s_def)
  let ?M = "unat (masterId (req q))"
  have "?M < length (occupancies s1)" using q(7) by (simp add: s1_def s_def)
  from lru.insert_status [OF s1(1) any_tid_True [of s1 "tid_of q"] this, of p a "e_now e"] s1(2)
  obtain s2 rc where s2: "insertBlock LRU_vt a p ?M (tid_of q) (e_now e) s1 = Some s2" "frame s1 s2"
      "sets s2 = sets (upd_at (0, extractSet s a) (set_at s (0, extractSet s a)
           \<lparr>ways := to_head p (ways (set_at s (0, extractSet s a)))\<rparr>) s1)"
      "blks s2 = (blks s1)[p := b1 \<lparr>isTouched := True, refCount := rc, tag := extractTag s a,
          blk_threadID := tid_of q, srcMasterId := ?M\<rparr>]"
    using pl by (auto simp: way_set_def ex) (auto simp: s1_def)
  define b2 where "b2 = b1 \<lparr>isTouched := True, refCount := rc, tag := extractTag s a,
          blk_threadID := tid_of q, srcMasterId := ?M\<rparr>"
  define b' where "b' = b2 \<lparr>status := BlkValid OR BlkReadable OR BlkWritable, blk_data := d, whenReady := finishTime q\<rparr>"
  let ?c' = "c \<lparr>tags := s2 \<lparr>blks := (blks s)[p := b']\<rparr>\<rparr>"
  have bl2: "blks s2 = (blks s)[p := b2]" using s2(4) by (simp add: b2_def s1_def)
  have len: "length (blk_data b2) = unat (c_blkSize c)"
    using inv pl by (simp add: b2_def al(4) cache_ok_def s_def)
  define c3 where "c3 = c \<lparr>tags := s2 \<lparr>blks := (blks s)[p := b2 \<lparr>status := 0\<rparr>]\<rparr>\<rparr>"
  have g: "get_blk (InTags p) (c \<lparr>tags := s2\<rparr>) = Some b2" "get_blk (InTags p) c3 = Some (b2 \<lparr>status := 0\<rparr>)"
    "put_blk (InTags p) (b2 \<lparr>status := 0\<rparr>) (c \<lparr>tags := s2\<rparr>) = c3"
    "put_blk (InTags p) b' c3 = ?c'" "c_blkSize c3 = c_blkSize c"
    using pl by (simp_all add: get_blk_def put_blk_def bl2 c3_def)
  have mc: "memcpy_at (blk_data b2) 0 d (unat (c_blkSize c)) = Some d" using len q(4) by (simp add: memcpy_at_def)
  have rd: "isRead (cmd q)" "hasData (cmd q)" using q(2) by auto
  have "cache_handleFill e LRU_vt q None c = Some (InTags p, wbs, ?c')"
    unfolding cache_handleFill_def q(1)
    using q(3,5,6) al(1) [unfolded c1] s2(1) g mc rd by (simp add: b'_def or.assoc)
  moreover have "frame s (tags ?c')" using frame_trans [OF ex(4) s2(2)] by (simp add: frame_def)
  moreover have "blk_set b' = blk_set (blks s ! p)" "tag b' = extractTag s a" "srcMasterId b' = ?M" "blk_data b' = d"
    "isReadable b'" "isWritable b'" "\<not> isDirty b'"
    using fresh_status [of b'] by (simp_all add: b'_def b2_def al(4))
  ultimately show ?thesis
    using al(2,3) q(7) s2(3) by (intro exI [of _ p] exI [of _ wbs] exI [of _ ?c'] exI [of _ b']) (simp add: filled_def s_def s1_def upd_at_def)
qed

text \<open>The course of a miss, from its parts.\<close>

lemma atomic_miss_eq:
  fixes c :: "'a Cache"
  assumes rq: "cpu_request (tags c) pk"
    and ab: "accessBlock LRU_vt (addr pk) (tid_of pk) (e_now e) (tags c) = Some (None, lat, s0)"
    and bus: "getBusPacket e pk None (needsExclusive (cmd pk)) (c \<lparr>tags := s0\<rparr>) = Some (Some q)"
    and snd: "send q m = Some (l, r, m1)" "cmd r = ReadResp \<or> cmd r = ReadExResp"
    and fill: "cache_handleFill e LRU_vt r None (c \<lparr>tags := s0\<rparr>) = Some (p, wbs, c1)"
    and sat: "satisfyCpuSideRequest LRU_vt False False p pk c1 = Some (pk', c2)" "cmd pk' = cmd pk"
    and wb: "send_writebacks send wbs m1 = Some m2" and mk: "makeResponse pk' = Some pk''"
  shows "atomicAccess e LRU_vt send pk c m = Some (scast (lat + ucast l), pk'', c2, m2)"
proof -
  have cm: "cmd pk = ReadReq \<or> cmd pk = WriteReq" using rq by (auto simp: cpu_request_def)
  have c: "needsResponse (cmd pk)" "cmd pk \<noteq> Writeback" "\<not> isLLSC (cmd pk)" using cm by auto
  have r: "isResponse (cmd r)" "\<not> isError (cmd r)" "isRead (cmd r)" using snd(2) by auto
  have f: "\<not> memInhibitAsserted pk" "\<not> isUncacheable (req pk)" "isSet (flags pk) VALID_ADDR"
    using rq by (simp_all add: cpu_request_def)
  have "access e LRU_vt pk c = Some (False, None, lat, [], pk, c \<lparr>tags := s0\<rparr>)"
    using f ab c by (simp add: access_def getAddr_def)
  moreover have "atomic_miss e LRU_vt send None pk (c \<lparr>tags := s0\<rparr>) m = Some (l, wbs, pk', c2, m1)"
    using bus snd(1) c(1) r fill sat(1) by (simp add: atomic_miss_def)
  ultimately show ?thesis
    using f(1) wb mk sat(2) c(1) by (simp add: atomicAccess_def)
qed

lemma align_idem [simp]: "blkAlign s (blkAlign s a) = blkAlign s a"
  by (simp add: blkAlign_def and.assoc)

lemma cache_ok_below:
  assumes "cache_ok block covers ready c m" "ready m'" "covers m' = covers m" "block m' = block m"
  shows "cache_ok block covers ready c m'"
  using assms by (simp add: cache_ok_def blk_agrees_def)

subsection \<open>The interface to the next level\<close>

locale memory_below =
  fixes send :: "'m lower"
    and block :: "'m \<Rightarrow> addr \<Rightarrow> byte list"
    and covers :: "'m \<Rightarrow> addr \<Rightarrow> bool"
    and ready :: "'m \<Rightarrow> bool"
    and bsz :: "32 word"
  assumes block_length: "ready m \<Longrightarrow> covers m a \<Longrightarrow> length (block m a) = unat bsz"
    and block_read: "ready m \<Longrightarrow> covers m a \<Longrightarrow> block_request bsz a q \<Longrightarrow> cmd q = ReadReq \<or> cmd q = ReadExReq
      \<Longrightarrow> \<exists>l r m'. send q m = Some (l, r, m') \<and> block_response q (block m a) r \<and> ready m'
          \<and> covers m' = covers m \<and> block m' = block m"
    and writeback: "ready m \<Longrightarrow> covers m a \<Longrightarrow> block_request bsz a q \<Longrightarrow> cmd q = Writeback \<Longrightarrow> getPtr q = Some d
      \<Longrightarrow> \<not> isInstFetch (req q) \<Longrightarrow> hasPaddr (req q)
      \<Longrightarrow> \<exists>l r m'. send q m = Some (l, r, m') \<and> ready m' \<and> covers m' = covers m
          \<and> (\<forall>b. covers m b \<longrightarrow> block m' b = (if b = a then d else block m b))"
begin

text \<open>The writebacks of a fill: the victim's block reaches the memory, nothing else changes.\<close>

lemma send_evicted:
  fixes c :: "'a Cache"
  assumes inv: "cache_ok block covers ready c m" and bs: "c_blkSize c = bsz"
    and ev: "evicted bsz (tags c) p wbs"
  shows "\<exists>m'. send_writebacks send wbs m = Some m' \<and> ready m' \<and> covers m' = covers m
     \<and> (\<forall>b. covers m (blkAlign (tags c) b) \<longrightarrow> block m' (blkAlign (tags c) b)
         = (if (isValid (blks (tags c) ! p) \<and> isDirty (blks (tags c) ! p)) \<and> holds (tags c) b p
            then blk_data (blks (tags c) ! p) else block m (blkAlign (tags c) b)))"
proof (cases "isValid (blks (tags c) ! p) \<and> isDirty (blks (tags c) ! p)")
  case True
  have ok: "tags_ok LRU_vt any_tid (tags c)" "ready m" using inv by (simp_all add: cache_ok_def)
  from ev True obtain wb b where wb: "wbs = [wb]" "holds (tags c) b p" "cmd wb = Writeback"
      "block_request bsz (blkAlign (tags c) b) wb" "getPtr wb = Some (blk_data (blks (tags c) ! p))"
      "\<not> isInstFetch (req wb)" "hasPaddr (req wb)"
    by (auto simp: evicted_def)
  have "covers m (blkAlign (tags c) b)" using inv wb(2) by (simp add: cache_ok_def blk_agrees_def)
  from writeback [OF ok(2) this wb(4,3,5-7)] obtain l r m' where
    m': "send wb m = Some (l, r, m')" "ready m'" "covers m' = covers m"
      "\<forall>x. covers m x \<longrightarrow> block m' x = (if x = blkAlign (tags c) b then blk_data (blks (tags c) ! p) else block m x)"
    by blast
  have "holds (tags c) x p \<longleftrightarrow> blkAlign (tags c) x = blkAlign (tags c) b" for x
    using holds_block [OF ok(1) _ wb(2), of x] holds_align [OF ok(1), of x b p] wb(2) by blast
  then show ?thesis using m' True by (simp add: wb(1))
next
  case False
  then have "wbs = []" using ev by (auto simp: evicted_def)
  then show ?thesis using False inv by (auto simp: cache_ok_def)
qed

text \<open>What follows a fill: the request is satisfied and the victim written back.\<close>

lemma finish_fill:
  fixes c :: "'a Cache"
  defines "s \<equiv> tags c"
  assumes inv: "cache_ok block covers ready c m" and bs: "c_blkSize c = bsz" and rq: "cpu_request s pk"
    and cov: "covers m (blkAlign s (addr pk))" and no: "\<And>i. \<not> holds s (blkAlign s (addr pk)) i"
    and fl: "filled c (blkAlign s (addr pk)) d p wbs c1 b1" and d: "d = block m (blkAlign s (addr pk))"
  shows "\<exists>pk' c' m'. satisfyCpuSideRequest LRU_vt False False (InTags p) pk c1 = Some (pk', c') \<and> cmd pk' = cmd pk
     \<and> send_writebacks send wbs m = Some m' \<and> cache_ok block covers ready c' m' \<and> covers m' = covers m
     \<and> frame s (tags c')
     \<and> (cmd pk = ReadReq \<longrightarrow> data pk' = Some (take (unat (pkt_size pk)) (drop (extractBlkOffset s (addr pk)) d)))
     \<and> (\<forall>b. covers m (blkAlign s b) \<longrightarrow> content block c' m' b = (if blkAlign s b = blkAlign s (addr pk)
           then upd_block pk (extractBlkOffset s (addr pk)) d else content block c m b))"
proof -
  note f = fl [unfolded filled_def bs, folded s_def]
  have ok: "tags_ok LRU_vt any_tid s" and c: "blkSize s = bsz" "isTopLevel c" "ready m"
    using inv bs by (simp_all add: cache_ok_def s_def)
  have len: "length d = unat bsz" using block_length [OF c(3) cov] by (simp add: d)
  have pl: "p < length (blks s)" using holds_less [OF ok, of p "blkAlign s (addr pk)"] f by blast
  have fr1: "frame s (tags c1)" using f by blast
  have c1: "cpu_request (tags c1) pk" "geometry_ok (tags c1)" "blkSize (tags c1) = c_blkSize c1" "isTopLevel c1"
    using rq cpu_request_frame [OF fr1] own_geometry [OF ok] lru.frame_cong(3) [OF fr1] c f by (simp_all add: frame_def)
  have b1: "p < length (blks (tags c1))" "length (blk_data b1) = unat (c_blkSize c1)" "b1 = blks (tags c1) ! p"
      "isReadable b1" "isWritable b1" "c_blkSize c1 = bsz" "blk_data b1 = d"
    using pl len f by simp_all
  have off: "extractBlkOffset (tags c1) (addr pk) = extractBlkOffset s (addr pk)"
    using frame_align [OF fr1] by simp
  from satisfy_cpu [OF c1 b1(1-5), of LRU_vt, unfolded off b1(6,7)]
  obtain pk' b' where sat: "satisfyCpuSideRequest LRU_vt False False (InTags p) pk c1 = Some (pk', put_blk (InTags p) b' c1)"
      "cmd pk' = cmd pk" "tag b' = tag b1" "blk_set b' = blk_set b1" "srcMasterId b' = srcMasterId b1"
      "isReadable b'" "isWritable b'" "\<not> isDirty b' \<longrightarrow> \<not> isDirty b1 \<and> blk_data b' = d"
      "blk_data b' = upd_block pk (extractBlkOffset s (addr pk)) d" "length (blk_data b') = unat bsz"
      "cmd pk = ReadReq \<longrightarrow> data pk' = Some (take (unat (pkt_size pk)) (drop (extractBlkOffset s (addr pk)) d))"
    by blast
  obtain m2 where m2: "send_writebacks send wbs m = Some m2" "ready m2" "covers m2 = covers m"
      "\<And>b. covers m (blkAlign s b) \<Longrightarrow> block m2 (blkAlign s b)
         = (if (isValid (blks s ! p) \<and> isDirty (blks s ! p)) \<and> holds s b p
            then blk_data (blks s ! p) else block m (blkAlign s b))"
    using send_evicted [OF inv bs, of p wbs] f by (auto simp: s_def)
  let ?c' = "put_blk (InTags p) b' c1"
  have fr: "frame s (tags ?c')" using fr1 f by (simp add: put_blk_def frame_def)
  have cov': "covers m (blkAlign s (blkAlign s (addr pk)))" using cov by simp
  have "cache_ok block covers ready ?c' m2 \<and> (\<forall>b. covers m (blkAlign s b) \<longrightarrow> content block ?c' m2 b
       = (if blkAlign s b = blkAlign s (blkAlign s (addr pk)) then blk_data b' else content block c m b))"
  proof (rule install_head [of block covers ready c m p "blkAlign s (addr pk)" ?c' b' m2
        "isValid (blks s ! p) \<and> isDirty (blks s ! p)", folded s_def, OF inv _ fr])
    show "blk_agrees block covers m2 (blkAlign s (blkAlign s (addr pk))) b'"
      using sat(6-8) m2(3) m2(4) [OF cov'] cov' no by (simp add: blk_agrees_def d)
  qed (use no f bs sat(3-5,10) m2 in \<open>auto simp: put_blk_def\<close>)
  then show ?thesis using sat m2(1,3) fr by auto
qed

lemma atomic_miss_done:
  fixes c :: "'a Cache"
  assumes inv: "cache_ok block covers ready c m" and bs: "c_blkSize c = bsz" and rq: "cpu_request (tags c) pk"
    and cov: "covers m (blkAlign (tags c) (addr pk))" and no: "\<And>i. \<not> holds (tags c) (addr pk) i"
  shows "atomic_done block covers ready pk c m (atomicAccess e LRU_vt send pk c m)"
proof -
  define a where "a = addr pk"
  have ok: "tags_ok LRU_vt any_tid (tags c)" using inv by (simp add: cache_ok_def)
  obtain lat s where ab: "accessBlock LRU_vt a (tid_of pk) (e_now e) (tags c) = Some (None, lat, s)"
      and s: "frame (tags c) s" "sets s = sets (tags c)" "blks s = blks (tags c)"
    using access_miss [OF ok no, of "tid_of pk" "e_now e"] by (auto simp: a_def)
  define c0 where "c0 = c \<lparr>tags := s\<rparr>"
  have t0: "tags c0 = s" "c_blkSize c0 = bsz" using bs by (simp_all add: c0_def)
  have al: "blkAlign (tags c) x = blkAlign s x" "extractBlkOffset (tags c) x = extractBlkOffset s x" for x
    using frame_align [OF s(1), of x] by simp_all
  let ?d = "block m (blkAlign s a)"
  have inv0: "cache_ok block covers ready c0 m" and con: "\<And>m x. content block c0 m x = content block c m x"
    using cache_ok_same [OF inv s] by (simp_all add: c0_def)
  have ok0: "tags_ok LRU_vt any_tid s" and c0f: "blkSize s = bsz" "ready m"
    using inv0 by (simp_all add: cache_ok_def t0)
  have rq0: "cpu_request s pk" using rq cpu_request_frame [OF s(1)] by simp
  have no0: "\<not> holds s (blkAlign s a) i" for i
    using no tags_ok_same(2) [OF ok s, of a i] holds_align [OF ok0, of "blkAlign s a" a i] by (simp add: a_def)
  obtain q where q: "getBusPacket e pk None (needsExclusive (cmd pk)) c0 = Some (Some q)"
      "cmd q = ReadReq \<or> cmd q = ReadExReq" "block_request bsz (blkAlign s a) q" "req q = req pk"
    using getBusPacket_cpu [of c0 pk e] rq0 own_geometry [OF ok0] c0f t0 by (auto simp: a_def split: if_splits)
  have cov0: "covers m (blkAlign s a)" using cov by (simp add: a_def al)
  obtain l r m1 where r: "send q m = Some (l, r, m1)" "block_response q ?d r" "ready m1"
      "covers m1 = covers m" "block m1 = block m"
    using block_read [OF c0f(2) cov0 q(3,2)] by blast
  have inv1: "cache_ok block covers ready c0 m1" by (rule cache_ok_below [OF inv0 r(3-5)])
  have rc: "cmd r = ReadResp \<or> cmd r = ReadExResp" using r(2) q(2) by (auto simp: block_response_def)
  obtain p wbs c1 b1 where f: "cache_handleFill e LRU_vt r None c0 = Some (InTags p, wbs, c1)"
      "filled c0 (blkAlign s a) ?d p wbs c1 b1"
    using fill_block [OF inv1, of r "blkAlign s a" ?d e] r(2) q(3,4) rc rq0 block_length [OF c0f(2) cov0]
    by (auto simp: block_response_def block_request_def getAddr_def t0 cpu_request_def)
  have P: "covers m1 (blkAlign s a)" "?d = block m1 (blkAlign s a)" using cov0 r(4,5) by simp_all
  from finish_fill [of c0 m1 pk ?d p wbs c1 b1, unfolded t0 a_def [symmetric], OF inv1 refl rq0 P(1) no0 f(2) P(2)]
  obtain pk' c' m2 where g: "satisfyCpuSideRequest LRU_vt False False (InTags p) pk c1 = Some (pk', c')" "cmd pk' = cmd pk"
      "send_writebacks send wbs m1 = Some m2" "cache_ok block covers ready c' m2" "covers m2 = covers m1" "frame s (tags c')"
      "cmd pk = ReadReq \<longrightarrow> data pk' = Some (take (unat (pkt_size pk)) (drop (extractBlkOffset s a) ?d))"
      "\<forall>b. covers m1 (blkAlign s b) \<longrightarrow> content block c' m2 b = (if blkAlign s b = blkAlign s a
           then upd_block pk (extractBlkOffset s a) ?d else content block c0 m1 b)"
    by blast
  have "cmd pk = ReadReq \<or> cmd pk = WriteReq" using rq by (auto simp: cpu_request_def)
  then obtain pk'' where mk: "makeResponse pk' = Some pk''" "cmd pk'' = responseCommand (cmd pk)" "data pk'' = data pk'"
    using makeResponse_cpu [of pk'] g(2) by auto
  note res = atomic_miss_eq [OF rq ab [unfolded a_def] q(1) [unfolded c0_def] r(1) rc f(1) [unfolded c0_def] g(1-3) mk(1)]
  have "content block c m a = ?d"
    using content_simps(2) [OF ok no, of block m] by (simp add: a_def al)
  moreover have "content block c0 m1 x = content block c m x" for x
    unfolding con by (simp only: content_def r(5))
  ultimately show ?thesis
    unfolding atomic_done_def res al a_def [symmetric]
    using g(4-8) mk(2,3) r(4) frame_trans [OF s(1) g(6)]
    by (intro exI [of _ "scast (lat + ucast l)"] exI [of _ pk''] exI [of _ c'] exI [of _ m2]) simp
qed

lemma atomic_step:
  fixes c :: "'a Cache"
  assumes "cache_ok block covers ready c m" "c_blkSize c = bsz" "cpu_request (tags c) pk"
    and "covers m (blkAlign (tags c) (addr pk))"
  shows "atomic_done block covers ready pk c m (atomicAccess e LRU_vt send pk c m)"
  using atomic_hit [OF assms(1,3)] atomic_miss_done [OF assms] by blast

end

subsection \<open>Bytes\<close>

definition in_pkt :: "Packet \<Rightarrow> addr \<Rightarrow> bool" where
  "in_pkt pk x \<longleftrightarrow> unat (addr pk) \<le> unat x \<and> unat x < unat (addr pk) + unat (pkt_size pk)"

definition flat_read :: "Packet \<Rightarrow> (addr \<Rightarrow> byte) \<Rightarrow> byte list" where
  "flat_read pk f = map (\<lambda>k. f (addr pk + of_nat k)) [0..<unat (pkt_size pk)]"

definition flat_write :: "Packet \<Rightarrow> (addr \<Rightarrow> byte) \<Rightarrow> addr \<Rightarrow> byte" where
  "flat_write pk f x = (if cmd pk = WriteReq \<and> in_pkt pk x
     then the (data pk) ! (unat x - unat (addr pk)) else f x)"

lemma split_addr:
  assumes "geometry_ok s"
  shows "unat a = unat (blkAlign s a) + extractBlkOffset s a" "extractBlkOffset s a < unat (blkSize s)"
    "unat (blkAlign s a) + unat (blkSize s) \<le> 2 ^ 64" "unat (blkSize s) dvd unat (blkAlign s a)"
proof -
  have B: "unat (blkSize s) = 2 ^ setShift s" "setShift s < 32"
    using geometry_unat(2) [OF assms] assms by (simp_all add: geometry_ok_def)
  have o: "extractBlkOffset s a = unat a mod 2 ^ setShift s" "unat (blkAlign s a) = unat a div 2 ^ setShift s * 2 ^ setShift s"
    using geometry_unat(4) [OF assms] by (simp_all add: extractBlkOffset_def blkAlign_def unat_and_mask unat_and_not_mask)
  show "unat a = unat (blkAlign s a) + extractBlkOffset s a" "extractBlkOffset s a < unat (blkSize s)"
    "unat (blkSize s) dvd unat (blkAlign s a)"
    by (simp_all add: o B div_mult_mod_eq)
  have p: "(2 :: nat) ^ 64 = 2 ^ (64 - setShift s) * 2 ^ setShift s" using B(2) by (simp flip: power_add)
  then have "unat a div 2 ^ setShift s < 2 ^ (64 - setShift s)"
    using unat_lt_64 [of a] by (simp add: less_mult_imp_div_less)
  then have "(unat a div 2 ^ setShift s + 1) * 2 ^ setShift s \<le> 2 ^ (64 - setShift s) * 2 ^ setShift s"
    by (intro mult_le_mono1) simp
  then show "unat (blkAlign s a) + unat (blkSize s) \<le> 2 ^ 64"
    unfolding o B p by (simp add: algebra_simps)
qed

lemma blkAlign_eq_iff:
  assumes "geometry_ok s"
  shows "blkAlign s x = blkAlign s a \<longleftrightarrow>
    unat (blkAlign s a) \<le> unat x \<and> unat x < unat (blkAlign s a) + unat (blkSize s)"
proof
  assume "blkAlign s x = blkAlign s a"
  then show "unat (blkAlign s a) \<le> unat x \<and> unat x < unat (blkAlign s a) + unat (blkSize s)"
    using split_addr(1,2) [OF assms, of x] by simp
next
  let ?B = "unat (blkSize s)"
  assume r: "unat (blkAlign s a) \<le> unat x \<and> unat x < unat (blkAlign s a) + ?B"
  obtain i j where ij: "unat (blkAlign s a) = ?B * i" "unat (blkAlign s x) = ?B * j"
    using split_addr(4) [OF assms] by (meson dvdE)
  have "?B * i < ?B * (j + 1)" "?B * j < ?B * (i + 1)"
    using r split_addr(1,2) [OF assms, of x] by (simp_all add: ij)
  then have "i < j + 1" "j < i + 1" unfolding mult_less_cancel1 by blast+
  then have "i = j" by simp
  then show "blkAlign s x = blkAlign s a" using ij by (simp add: word_unat_eq_iff)
qed

lemma content_align:
  assumes "tags_ok LRU_vt any_tid (tags c)" "blkAlign (tags c) x = blkAlign (tags c) a"
  shows "content block c m x = content block c m a"
proof -
  have h: "holds (tags c) x i = holds (tags c) a i" for i by (rule holds_align [OF assms])
  show ?thesis
  proof (cases "\<exists>i. holds (tags c) a i")
    case True
    then show ?thesis using content_simps(1) [OF assms(1)] h by metis
  next
    case False
    then show ?thesis using content_simps(2) [OF assms(1), of a block m] content_simps(2) [OF assms(1), of x block m] h assms(2) by simp
  qed
qed

lemma slice_bytes:
  fixes c :: "'a Cache"
  assumes ok: "tags_ok LRU_vt any_tid (tags c)" and rq: "cpu_request (tags c) pk"
    and len: "length (content block c m (addr pk)) = unat (blkSize (tags c))"
  shows "take (unat (pkt_size pk)) (drop (extractBlkOffset (tags c) (addr pk)) (content block c m (addr pk)))
    = flat_read pk (flat block c m)"
proof -
  let ?s = "tags c" and ?a = "addr pk" and ?n = "unat (pkt_size pk)"
  let ?o = "extractBlkOffset ?s ?a"
  note g = own_geometry [OF ok]
  have le: "?o + ?n \<le> unat (blkSize ?s)" using rq by (simp add: cpu_request_def)
  have byte: "flat block c m (?a + of_nat k) = content block c m ?a ! (?o + k)" if "k < ?n" for k
  proof -
    have k: "unat (?a + of_nat k) = unat ?a + k"
      using split_addr [OF g, of ?a] le that unat_lt_32 [of "blkSize ?s"]
      by (simp add: unat_word_ariths unat_of_nat take_bit_nat_eq_self)
    then have "blkAlign ?s (?a + of_nat k) = blkAlign ?s ?a"
      using split_addr [OF g, of ?a] le that by (simp add: blkAlign_eq_iff [OF g])
    moreover from this have "extractBlkOffset ?s (?a + of_nat k) = ?o + k"
      using split_addr(1) [OF g, of "?a + of_nat k"] split_addr(1) [OF g, of ?a] k by simp
    ultimately show ?thesis using content_align [OF ok, of "?a + of_nat k" ?a block m] by (simp add: flat_def)
  qed
  show ?thesis
    using le len byte by (intro nth_equalityI) (simp_all add: flat_read_def)
qed

lemma upd_bytes:
  fixes c :: "'a Cache"
  assumes ok: "tags_ok LRU_vt any_tid (tags c)" and rq: "cpu_request (tags c) pk"
    and len: "length (content block c m (addr pk)) = unat (blkSize (tags c))"
  shows "(if blkAlign (tags c) x = blkAlign (tags c) (addr pk)
      then upd_block pk (extractBlkOffset (tags c) (addr pk)) (content block c m (addr pk))
      else content block c m x) ! extractBlkOffset (tags c) x = flat_write pk (flat block c m) x"
proof -
  let ?s = "tags c" and ?a = "addr pk" and ?n = "unat (pkt_size pk)"
  let ?o = "extractBlkOffset ?s ?a"
  note g = own_geometry [OF ok]
  have le: "?o + ?n \<le> unat (blkSize ?s)" using rq by (simp add: cpu_request_def)
  obtain d where d: "data pk = Some d" "length d = ?n"
    using rq by (auto simp: cpu_request_def split: option.splits)
  have inside: "blkAlign ?s x = blkAlign ?s ?a" if "in_pkt pk x"
    using that split_addr [OF g, of ?a] le unfolding blkAlign_eq_iff [OF g] by (simp add: in_pkt_def)
  show ?thesis
  proof (cases "blkAlign ?s x = blkAlign ?s ?a")
    case False
    then show ?thesis using inside by (auto simp: flat_write_def flat_def)
  next
    case True
    have x: "unat x = unat (blkAlign ?s ?a) + extractBlkOffset ?s x" "unat ?a = unat (blkAlign ?s ?a) + ?o"
      "extractBlkOffset ?s x < unat (blkSize ?s)"
      using split_addr(1,2) [OF g, of x] split_addr(1) [OF g, of ?a] True by simp_all
    have "in_pkt pk x \<longleftrightarrow> ?o \<le> extractBlkOffset ?s x \<and> extractBlkOffset ?s x < ?o + ?n"
      "unat x - unat ?a = extractBlkOffset ?s x - ?o"
      using x by (auto simp: in_pkt_def)
    then show ?thesis
      using True le len d x(3) content_align [OF ok True, of block m]
      by (auto simp: upd_block_def flat_write_def flat_def nth_append)
  qed
qed

subsection \<open>Sequences of accesses\<close>

fun run_atomic :: "('a LRU_scheme) vtable \<Rightarrow> 'm lower \<Rightarrow> (env \<times> Packet) list \<Rightarrow> 'a Cache \<Rightarrow> 'm
    \<Rightarrow> (Packet list \<times> 'a Cache \<times> 'm) option" where
  "run_atomic vt send [] c m = Some ([], c, m)"
| "run_atomic vt send ((e, pk) # xs) c m = do {
     (l, r, c, m) \<leftarrow> atomicAccess e vt send pk c m;
     (rs, c, m) \<leftarrow> run_atomic vt send xs c m;
     Some (r # rs, c, m) }"

text \<open>The specification: the answers of a flat array of bytes, and the array afterwards.\<close>

fun flat_run :: "Packet list \<Rightarrow> (addr \<Rightarrow> byte) \<Rightarrow> byte list option list \<times> (addr \<Rightarrow> byte)" where
  "flat_run [] f = ([], f)"
| "flat_run (pk # pks) f = (let (ans, f') = flat_run pks (flat_write pk f)
     in ((if cmd pk = ReadReq then Some (flat_read pk f) else None) # ans, f'))"

definition answers :: "Packet list \<Rightarrow> Packet list \<Rightarrow> byte list option list" where
  "answers pks rs = map2 (\<lambda>pk r. if cmd pk = ReadReq then data r else None) pks rs"

lemma flat_read_cong:
  assumes "\<And>x. in_pkt pk x \<Longrightarrow> f x = g x" "unat (addr pk) + unat (pkt_size pk) \<le> 2 ^ 64"
  shows "flat_read pk f = flat_read pk g"
proof -
  have "in_pkt pk (addr pk + of_nat k)" if "k < unat (pkt_size pk)" for k
    using that assms(2) by (simp add: in_pkt_def unat_word_ariths unat_of_nat take_bit_nat_eq_self)
  then show ?thesis using assms(1) by (simp add: flat_read_def)
qed

context memory_below
begin

lemma content_length:
  fixes c :: "'a Cache"
  assumes "cache_ok block covers ready c m" "c_blkSize c = bsz" "covers m (blkAlign (tags c) a)"
  shows "length (content block c m a) = unat bsz"
proof (cases "\<exists>i. holds (tags c) a i")
  case True
  then obtain i where i: "holds (tags c) a i" by blast
  have ok: "tags_ok LRU_vt any_tid (tags c)" using assms(1) by (simp add: cache_ok_def)
  have "i < length (blks (tags c))" using holds_less [OF ok, of i a] i by (simp add: holds_def)
  then show ?thesis
    using content_simps(1) [OF ok i, of block m] assms(1,2) by (simp add: cache_ok_def)
next
  case False
  then show ?thesis
    using content_simps(2) [of c a block m] assms block_length [of m] by (simp add: cache_ok_def)
qed

text \<open>One access, on bytes.\<close>

lemma atomic_flat:
  fixes c :: "'a Cache"
  assumes inv: "cache_ok block covers ready c m" and bs: "c_blkSize c = bsz" and rq: "cpu_request (tags c) pk"
    and cov: "covers m (blkAlign (tags c) (addr pk))"
  shows "\<exists>l r c' m'. atomicAccess e LRU_vt send pk c m = Some (l, r, c', m')
     \<and> cache_ok block covers ready c' m' \<and> covers m' = covers m \<and> frame (tags c) (tags c') \<and> c_blkSize c' = bsz
     \<and> cmd r = responseCommand (cmd pk)
     \<and> (cmd pk = ReadReq \<longrightarrow> data r = Some (flat_read pk (flat block c m)))
     \<and> (\<forall>x. covers m (blkAlign (tags c) x) \<longrightarrow> flat block c' m' x = flat_write pk (flat block c m) x)"
proof -
  have ok: "tags_ok LRU_vt any_tid (tags c)" "blkSize (tags c) = bsz" using inv bs by (simp_all add: cache_ok_def)
  have len: "length (content block c m (addr pk)) = unat (blkSize (tags c))"
    using content_length [OF inv bs cov] ok(2) by simp
  from atomic_step [OF inv bs rq cov, of e] obtain l r c' m' where
    r: "atomicAccess e LRU_vt send pk c m = Some (l, r, c', m')" "cache_ok block covers ready c' m'" "covers m' = covers m"
      "frame (tags c) (tags c')" "cmd r = responseCommand (cmd pk)"
      "cmd pk = ReadReq \<longrightarrow> data r = Some (take (unat (pkt_size pk))
          (drop (extractBlkOffset (tags c) (addr pk)) (content block c m (addr pk))))"
      "\<forall>b. covers m (blkAlign (tags c) b) \<longrightarrow> content block c' m' b =
          (if blkAlign (tags c) b = blkAlign (tags c) (addr pk)
           then upd_block pk (extractBlkOffset (tags c) (addr pk)) (content block c m (addr pk))
           else content block c m b)"
    unfolding atomic_done_def by blast
  have "flat block c' m' x = flat_write pk (flat block c m) x" if "covers m (blkAlign (tags c) x)" for x
    using upd_bytes [OF ok(1) rq len, of x] r(7) that frame_align [OF r(4), of x] by (simp add: flat_def)
  moreover have "c_blkSize c' = bsz" using r(2,4) ok(2) by (simp add: cache_ok_def frame_def)
  ultimately show ?thesis using r slice_bytes [OF ok(1) rq len] by simp
qed

lemma run_flat:
  fixes c :: "'a Cache"
  assumes "cache_ok block covers ready c m" "c_blkSize c = bsz"
    and "\<forall>(e, pk) \<in> set xs. cpu_request (tags c) pk \<and> covers m (blkAlign (tags c) (addr pk))"
    and "\<forall>x. covers m (blkAlign (tags c) x) \<longrightarrow> f x = flat block c m x"
  shows "\<exists>rs c' m'. run_atomic LRU_vt send xs c m = Some (rs, c', m')
     \<and> cache_ok block covers ready c' m' \<and> length rs = length xs
     \<and> answers (map snd xs) rs = fst (flat_run (map snd xs) f)
     \<and> (\<forall>x. covers m (blkAlign (tags c) x) \<longrightarrow> flat block c' m' x = snd (flat_run (map snd xs) f) x)"
  using assms
proof (induction xs arbitrary: c m f)
  case Nil
  then show ?case by (simp add: answers_def)
next
  case (Cons y xs)
  obtain e pk where y: "y = (e, pk)" by (cases y)
  have rq: "cpu_request (tags c) pk" "covers m (blkAlign (tags c) (addr pk))" using Cons.prems(3) by (simp_all add: y)
  from atomic_flat [OF Cons.prems(1,2) rq, of e] obtain l r c1 m1 where
    r: "atomicAccess e LRU_vt send pk c m = Some (l, r, c1, m1)" "cache_ok block covers ready c1 m1" "covers m1 = covers m"
      "frame (tags c) (tags c1)" "c_blkSize c1 = bsz" "cmd pk = ReadReq \<longrightarrow> data r = Some (flat_read pk (flat block c m))"
      "\<forall>x. covers m (blkAlign (tags c) x) \<longrightarrow> flat block c1 m1 x = flat_write pk (flat block c m) x"
    by blast
  have al: "blkAlign (tags c1) x = blkAlign (tags c) x" for x using frame_align [OF r(4)] by simp
  have g: "geometry_ok (tags c)" using Cons.prems(1) by (simp add: cache_ok_def tags_ok_def)
  have in_blk: "covers m (blkAlign (tags c) x)" if "in_pkt pk x" for x
  proof -
    have "blkAlign (tags c) x = blkAlign (tags c) (addr pk)"
      using that rq(1) split_addr [OF g, of "addr pk"]
      unfolding blkAlign_eq_iff [OF g] by (simp add: in_pkt_def cpu_request_def)
    then show ?thesis using rq(2) by simp
  qed
  have "unat (addr pk) + unat (pkt_size pk) \<le> 2 ^ 64"
    using split_addr [OF g, of "addr pk"] rq(1) by (simp add: cpu_request_def)
  then have rd: "flat_read pk f = flat_read pk (flat block c m)"
    using Cons.prems(4) in_blk by (intro flat_read_cong) simp_all
  have f1: "\<forall>x. covers m1 (blkAlign (tags c1) x) \<longrightarrow> flat_write pk f x = flat block c1 m1 x"
    using r(3,7) Cons.prems(4) by (simp add: al flat_write_def)
  have pre: "\<forall>(e, pk) \<in> set xs. cpu_request (tags c1) pk \<and> covers m1 (blkAlign (tags c1) (addr pk))"
    using Cons.prems(3) cpu_request_frame [OF r(4)] r(3) al by auto
  from Cons.IH [OF r(2,5) pre f1] obtain rs c' m' where
    ih: "run_atomic LRU_vt send xs c1 m1 = Some (rs, c', m')" "cache_ok block covers ready c' m'" "length rs = length xs"
      "answers (map snd xs) rs = fst (flat_run (map snd xs) (flat_write pk f))"
      "\<forall>x. covers m1 (blkAlign (tags c1) x) \<longrightarrow> flat block c' m' x = snd (flat_run (map snd xs) (flat_write pk f)) x"
    by blast
  show ?case
    using r(1,3,6) ih rd by (simp add: y answers_def split_beta al)
qed

end

end
