(* ===== verification/Cache_Memory.thy ===== *)
theory Cache_Memory
imports Cache_Atomic
begin

text \<open>
  The simple memory as the level below the cache: it satisfies the interface
  \<open>memory_below\<close>, so a cache in front of it behaves as a flat memory.
\<close>

definition mem_block :: "32 word \<Rightarrow> AbstractMemory \<Rightarrow> addr \<Rightarrow> byte list" where
  "mem_block bs m a = take (unat bs) (drop (unat (a - r_start (mem_range m))) (the (pmemAddr m)))"

definition mem_covers :: "32 word \<Rightarrow> AbstractMemory \<Rightarrow> addr \<Rightarrow> bool" where
  "mem_covers bs m a \<longleftrightarrow> 0 < unat bs \<and> unat bs dvd unat a \<and> r_start (mem_range m) \<le> a
     \<and> unat a + unat bs \<le> unat (r_end (mem_range m)) + 1"

text \<open>A backing store as long as the range.\<close>

definition mem_ready :: "AbstractMemory \<Rightarrow> bool" where
  "mem_ready m \<longleftrightarrow> (case pmemAddr m of None \<Rightarrow> False
     | Some d \<Rightarrow> length d = unat (r_end (mem_range m)) + 1 - unat (r_start (mem_range m)))"

lemma mem_offset:
  assumes "mem_ready m" "mem_covers bs m a" "pmemAddr m = Some d"
  shows "unat (a - r_start (mem_range m)) = unat a - unat (r_start (mem_range m))"
    "unat (a - r_start (mem_range m)) + unat bs \<le> length d"
proof -
  show u: "unat (a - r_start (mem_range m)) = unat a - unat (r_start (mem_range m))"
    using assms(2) by (simp add: mem_covers_def unat_sub)
  show "unat (a - r_start (mem_range m)) + unat bs \<le> length d"
    using assms by (auto simp: u mem_ready_def mem_covers_def word_le_nat_alt)
qed

lemma mem_in_range:
  assumes "mem_covers bs m a" "block_request bs a q"
  shows "in_mem q m = Some True"
proof -
  have c: "0 < unat bs" "r_start (mem_range m) \<le> a" "unat a + unat bs \<le> unat (r_end (mem_range m)) + 1"
    using assms(1) by (simp_all add: mem_covers_def)
  have "unat (a + ucast bs - 1) = unat a + unat bs - 1"
    using c unat_lt_64 [of "r_end (mem_range m)"] unat_lt_32 [of bs]
    by (intro range_end) (simp_all add: unat_ucast_word)
  then show ?thesis
    using c assms(2) by (simp add: in_mem_def block_request_def getAddr_def getSize_def word_le_nat_alt)
qed

lemma clear_snoop:
  "isSet (flags_clear f EXPRESS_SNOOP) VALID_ADDR = isSet f VALID_ADDR"
  "isSet (flags_clear f EXPRESS_SNOOP) (STATIC_DATA OR DYNAMIC_DATA) = isSet f (STATIC_DATA OR DYNAMIC_DATA)"
  "isSet (flags_clear f EXPRESS_SNOOP) MEM_INHIBIT = isSet f MEM_INHIBIT"
  "isSet (flags_clear f EXPRESS_SNOOP) SHARED = isSet f SHARED"
  by (simp_all add: flags_defs pkt_flag_defs and.assoc)

lemma mem_read_block:
  assumes "mem_ready m" "mem_covers bs m a" "block_request bs a q" "cmd q = ReadReq \<or> cmd q = ReadExReq"
  shows "\<exists>l r. doAtomicAccess var q m = Some (l, r, m) \<and> block_response q (mem_block bs m a) r"
proof -
  obtain d where d: "pmemAddr m = Some d" using assms(1) by (auto simp: mem_ready_def split: option.splits)
  obtain b where b: "data q = Some b" "length b = unat bs"
    using assms(3) by (auto simp: block_request_def split: option.splits)
  have q: "getAddr q = Some a" "getSize q = Some bs" "getPtr q = Some b" "\<not> memInhibitAsserted q" "\<not> sharedAsserted q"
    using assms(3) b by (simp_all add: block_request_def getAddr_def getSize_def getPtr_def)
  let ?q = "q \<lparr>data := Some (mem_block bs m a)\<rparr>"
  have sd: "setData (drop (unat (a - r_start (mem_range m))) d) q = Some ?q"
    using q(2,3) b mem_offset(2) [OF assms(1,2) d] by (simp add: setData_def memcpy_at_def mem_block_def d)
  have k: "isRead (cmd q)" "\<not> isWrite (cmd q)" "needsResponse (cmd q)" "isRequest (cmd q)" "\<not> isLLSC (cmd q)" "cmd q \<noteq> SwapReq"
    using assms(4) by auto
  have acc: "mem_access q m = (do { r \<leftarrow> makeResponse ?q; Some (r, m) })"
    using mem_in_range [OF assms(2,3)] q(1,2,4) k sd by (simp add: mem_access_def host_bytes_def d)
  define r where "r = clearSrc (?q \<lparr>origCmd := cmd q, cmd := responseCommand (cmd q),
       flags := flags_clear (flags q) EXPRESS_SNOOP, dest := src q\<rparr>)"
  have mk: "makeResponse ?q = Some r" using k by (simp add: makeResponse_def r_def)
  have "block_response q (mem_block bs m a) r"
    using assms(3) q by (simp add: block_response_def r_def clearSrc_def getAddr_def getPtr_def block_request_def
        memInhibitAsserted_def sharedAsserted_def clear_snoop)
  then show ?thesis using acc mk by (simp add: doAtomicAccess_def)
qed

lemma mem_write_block:
  assumes "mem_ready m" "mem_covers bs m a" "block_request bs a q" "cmd q = Writeback" "getPtr q = Some d'"
    and "\<not> isInstFetch (req q)" "hasPaddr (req q)"
  shows "\<exists>l r m'. doAtomicAccess var q m = Some (l, r, m') \<and> mem_ready m' \<and> mem_range m' = mem_range m
     \<and> (\<forall>b. mem_covers bs m b \<longrightarrow> mem_block bs m' b = (if b = a then d' else mem_block bs m b))"
proof -
  obtain d where d: "pmemAddr m = Some d" using assms(1) by (auto simp: mem_ready_def split: option.splits)
  define off where "off x = unat (x - r_start (mem_range m))" for x
  have len: "length d' = unat bs" using assms(3,5) by (auto simp: block_request_def getPtr_def)
  note o = mem_offset [OF assms(1) _ d, folded off_def]
  define d2 where "d2 = take (off a) d @ d' @ drop (off a + unat bs) d"
  have mc: "memcpy_at d (off a) d' (unat bs) = Some d2"
    using o(2) [OF assms(2)] len by (simp add: memcpy_at_def d2_def)
  have len2: "length d2 = length d" using memcpy_at_length [OF mc] .
  have "\<exists>m1. writeOK q m = Some (True, q, m1) \<and> pmemAddr m1 = Some d \<and> mem_range m1 = mem_range m"
    using assms(4,7) d
    by (cases "lockedAddrList m = []") (simp_all add: writeOK_def checkLockedAddrList_def getPaddr_def hasPaddr_def)
  then obtain m1 where w: "writeOK q m = Some (True, q, m1)" "pmemAddr m1 = Some d" "mem_range m1 = mem_range m"
    by blast
  have q: "getAddr q = Some a" "getSize q = Some bs" "\<not> memInhibitAsserted q"
    using assms(3) by (simp_all add: block_request_def getAddr_def getSize_def)
  let ?m' = "m1 \<lparr>pmemAddr := Some d2\<rparr>"
  have "mem_access q m = Some (q, ?m')"
    using mem_in_range [OF assms(2,3)] q assms(4-6) w mc
    by (simp add: mem_access_def mem_store_def off_def)
  moreover have "mem_ready ?m'" using assms(1) w(3) d len2 by (simp add: mem_ready_def)
  moreover have "mem_block bs ?m' b = (if b = a then d' else mem_block bs m b)" if cb: "mem_covers bs m b" for b
  proof (rule nth_equalityI)
    note ob = o [OF cb] and oa = o [OF assms(2)]
    show l: "length (mem_block bs ?m' b) = length (if b = a then d' else mem_block bs m b)"
      using ob(2) len by (simp add: mem_block_def w(3) d len2 off_def)
    fix i assume "i < length (mem_block bs ?m' b)"
    then have i: "i < unat bs" by (simp add: mem_block_def)
    have n: "d2 ! (off b + i) = (if off a \<le> off b + i \<and> off b + i < off a + unat bs
        then d' ! (off b + i - off a) else d ! (off b + i))"
      using memcpy_at_nth [OF mc, of "off b + i"] ob(2) i by simp
    have apart: "off b + unat bs \<le> off a \<or> off a + unat bs \<le> off b" if "b \<noteq> a"
    proof -
      obtain x y where xy: "unat a = unat bs * x" "unat b = unat bs * y"
        using assms(2) cb by (auto simp: mem_covers_def elim!: dvdE)
      have "x \<noteq> y" using that xy by (auto simp: word_unat_eq_iff)
      then have "unat bs * (x + 1) \<le> unat bs * y \<or> unat bs * (y + 1) \<le> unat bs * x"
        by (metis Suc_eq_plus1 Suc_leI mult_le_mono2 nat_neq_iff)
      moreover have "r_start (mem_range m) \<le> a" "r_start (mem_range m) \<le> b"
        using assms(2) cb by (simp_all add: mem_covers_def)
      ultimately show ?thesis using oa(1) ob(1) xy by (auto simp: word_le_nat_alt algebra_simps)
    qed
    have "mem_block bs ?m' b ! i = d2 ! (off b + i)" "mem_block bs m b ! i = d ! (off b + i)"
      using ob(2) i len2 by (simp_all add: mem_block_def w(3) d off_def)
    then show "mem_block bs ?m' b ! i = (if b = a then d' else mem_block bs m b) ! i"
      using n i apart by (cases "b = a") auto
  qed
  ultimately show ?thesis using w(3) by (simp add: doAtomicAccess_def)
qed

interpretation sm: memory_below "doAtomicAccess var" "mem_block bs" "mem_covers bs" mem_ready bs for var bs
proof
  fix m a q d
  show "length (mem_block bs m a) = unat bs" if r: "mem_ready m" "mem_covers bs m a"
  proof -
    obtain d where d: "pmemAddr m = Some d" using r(1) by (auto simp: mem_ready_def split: option.splits)
    show ?thesis using mem_offset(2) [OF r d] by (simp add: mem_block_def d)
  qed
  show "\<exists>l r m'. doAtomicAccess var q m = Some (l, r, m') \<and> block_response q (mem_block bs m a) r \<and> mem_ready m'
      \<and> mem_covers bs m' = mem_covers bs m \<and> mem_block bs m' = mem_block bs m"
    if "mem_ready m" "mem_covers bs m a" "block_request bs a q" "cmd q = ReadReq \<or> cmd q = ReadExReq"
    using mem_read_block [OF that, of var] that(1) by blast
  show "\<exists>l r m'. doAtomicAccess var q m = Some (l, r, m') \<and> mem_ready m' \<and> mem_covers bs m' = mem_covers bs m
      \<and> (\<forall>b. mem_covers bs m b \<longrightarrow> mem_block bs m' b = (if b = a then d else mem_block bs m b))"
    if "mem_ready m" "mem_covers bs m a" "block_request bs a q" "cmd q = Writeback" "getPtr q = Some d"
      "\<not> isInstFetch (req q)" "hasPaddr (req q)"
    using mem_write_block [OF that, of var] by (auto simp: mem_covers_def fun_eq_iff)
qed

subsection \<open>A fresh cache\<close>

lemma link_sets_fresh:
  "b \<in> set (snd (link_sets u bs k xs)) \<Longrightarrow> length (blk_data b) = unat bs \<and> \<not> isValid b"
  by (induction xs arbitrary: k) (auto simp: new_blk_def)

lemma ctor_fresh:
  assumes "LRU_ctor u raw nsets bsize asc hl = Inr s" "b \<in> set (blks s)"
  shows "length (blk_data b) = unat bsize \<and> \<not> isValid b"
proof -
  obtain s0 where s0: "s = LRU_init_sets u s0" "blkSize s0 = bsize"
    using assms(1) by (auto simp: LRU_ctor_def split: if_splits)
  then have "blks s = snd (link_sets u bsize 0 (map (\<lambda>i. (unat (assoc s0), i, 0)) [0..<unat (numSets s0)]))"
    by (simp add: LRU_init_sets_def split_beta Let_def)
  then show ?thesis using assms(2) link_sets_fresh by metis
qed

definition fresh_cache :: "'a Cache \<Rightarrow> bool" where
  "fresh_cache c \<longleftrightarrow> blkSize (tags c) = c_blkSize c \<and> 0 \<le>s c_blkSize c \<and> isTopLevel c
     \<and> mshr_idle (mshrQueue c)"

definition mem_byte :: "AbstractMemory \<Rightarrow> addr \<Rightarrow> byte" where
  "mem_byte m x = the (pmemAddr m) ! unat (x - r_start (mem_range m))"

lemma ctor_holds:
  assumes "LRU_ctor u raw nsets bsize asc hl = Inr s"
  shows "\<not> holds s a i"
proof
  have ok: "tags_ok LRU_vt any_tid s" by (rule LRU_ctor_tags_ok(1) [OF assms])
  assume h: "holds s a i"
  then have "blks s ! i \<in> set (blks s)" using holds_less [OF ok, of i a] by (simp add: holds_def)
  then show False using ctor_fresh [OF assms] h by (auto simp: holds_def)
qed

lemma fresh_cache_ok:
  fixes c :: "'a Cache"
  assumes "LRU_ctor u raw nsets bsize asc hl = Inr (tags c)" "fresh_cache c" "ready m"
  shows "cache_ok block covers ready c m"
proof -
  have ok: "tags_ok LRU_vt any_tid (tags c)" by (rule LRU_ctor_tags_ok(1) [OF assms(1)])
  have bs: "c_blkSize c = bsize" using LRU_ctor_Inr(3) [OF assms(1)] assms(2) by (simp add: fresh_cache_def)
  have "\<not> isValid (blks (tags c) ! i)" if "i \<in> way_set (tags c) a" for a i
    using holds_less [OF ok that] ctor_fresh [OF assms(1)] by simp
  then show ?thesis
    using ok assms(2,3) ctor_fresh [OF assms(1)] ctor_holds [OF assms(1)] by (simp add: cache_ok_def fresh_cache_def bs)
qed

lemma fresh_flat:
  fixes c :: "'a Cache"
  assumes "LRU_ctor u raw nsets bsize asc hl = Inr (tags c)" "mem_ready m" "mem_covers bsize m (blkAlign (tags c) x)"
  shows "flat (mem_block bsize) c m x = mem_byte m x"
proof -
  have ok: "tags_ok LRU_vt any_tid (tags c)" by (rule LRU_ctor_tags_ok(1) [OF assms(1)])
  obtain d where d: "pmemAddr m = Some d" using assms(2) by (auto simp: mem_ready_def split: option.splits)
  note o = mem_offset [OF assms(2,3) d]
  have x: "unat x = unat (blkAlign (tags c) x) + extractBlkOffset (tags c) x" "extractBlkOffset (tags c) x < unat bsize"
    using split_addr(1,2) [OF own_geometry [OF ok], of x] LRU_ctor_Inr(3) [OF assms(1)] by simp_all
  have "r_start (mem_range m) \<le> blkAlign (tags c) x" using assms(3) by (simp add: mem_covers_def)
  then have "unat (x - r_start (mem_range m)) = unat (blkAlign (tags c) x - r_start (mem_range m)) + extractBlkOffset (tags c) x"
    using x o(1) by (simp add: unat_sub word_le_nat_alt)
  then show ?thesis
    using content_simps(2) [OF ok ctor_holds [OF assms(1)], of "mem_block bsize" m] x(2) o(2)
    by (simp add: flat_def mem_block_def mem_byte_def d)
qed

subsection \<open>A concrete hierarchy\<close>

definition sample_env :: env where
  "sample_env = \<lparr>raw_pkt = sample_pkt ReadReq 0 0 None, raw_req = sample_request, fresh = (\<lambda>_. 0), e_now = 7\<rparr>"

definition cpu_pkt :: "Command \<Rightarrow> addr \<Rightarrow> byte list \<Rightarrow> Packet" where
  "cpu_pkt c a d = (sample_pkt c a (of_nat (length d)) (Some d))
     \<lparr>req := sample_request \<lparr>paddr := a, req_masterId := 2, privateFlags := 0x03\<rparr>\<rparr>"

definition sample_cache :: "LRU \<Rightarrow> unit Cache" where
  "sample_cache s = \<lparr>tags = s, tempBlock = CacheBlk_new, c_blkSize = 4, c_hitLatency = 1, isTopLevel = True,
     mshrQueue = Shared \<lparr>label = ''MSHRs'', registers = [], allocatedList = [], readyList = [], freeList = [], numEntries = 0,
       numReserve = 0, allocated = 0, inServiceEntries = 0, index = 0\<rparr>,
     c_heap = \<lparr>pkts = [], mshrs = []\<rparr>\<rparr>"

definition sample_mem :: AbstractMemory where
  "sample_mem = \<lparr>mem_range = \<lparr>r_start = 0, r_end = 63\<rparr>, pmemAddr = Some (replicate 64 1), lockedAddrList = [],
     mem_lat = 30, mem_lat_var = 0\<rparr>"

lemma sample_request_ok:
  assumes s: "LRU_ctor u raw_tags 2 4 2 1 = Inr (tags c)" and "c0 = ReadReq \<or> c0 = WriteReq"
    and "length d \<le> 4" "unat a mod 4 + length d \<le> 4" "unat a < 60"
  shows "cpu_request (tags c) (cpu_pkt c0 a d) \<and> mem_covers 4 sample_mem (blkAlign (tags c) (addr (cpu_pkt c0 a d)))"
proof -
  note k = LRU_ctor_Inr [OF s]
  have g: "extractBlkOffset (tags c) a = unat a mod 4" "unat (blkAlign (tags c) a) = unat a div 4 * 4"
  proof -
    have "2 ^ setShift (tags c) = (4 :: nat)" using geometry_unat(2) [OF k(1)] k(3) by simp
    then show "extractBlkOffset (tags c) a = unat a mod 4" "unat (blkAlign (tags c) a) = unat a div 4 * 4"
      using geometry_unat(4) [OF k(1)]
      by (simp_all add: extractBlkOffset_def blkAlign_def unat_and_mask unat_and_not_mask)
  qed
  have n: "unat (of_nat (length d) :: 32 word) = length d" using assms(3) by (simp add: unat_of_nat take_bit_nat_eq_self)
  have o: "length (occupancies (tags c)) = 3" using k(8) by (simp add: raw_tags_def)
  show ?thesis
    using assms(2-5) g n o k(3)
    by (auto simp: cpu_request_def cpu_pkt_def sample_pkt_def sample_request_def memInhibitAsserted_def isUncacheable_def
        hasPaddr_def masterId_def flags_defs pkt_flag_defs req_flag_defs mem_covers_def sample_mem_def)
qed

lemma sample_hierarchy:
  assumes "LRU_ctor u raw_tags 2 4 2 1 = Inr s"
  shows "LRU_ctor u raw_tags 2 4 2 1 = Inr (tags (sample_cache s))" "fresh_cache (sample_cache s)" "mem_ready sample_mem"
  using assms LRU_ctor_Inr(3) [OF assms]
  by (simp_all add: sample_cache_def fresh_cache_def mshr_idle_def mem_ready_def sample_mem_def word_sle_eq)

subsection \<open>Properties\<close>

text \<open>
  C3: A cache in atomic mode is transparent: every sequence of cacheable reads and
  writes of the processor through a freshly built top-level cache with the unpartitioned
  LRU store in front of a memory runs without a failed assertion, every read returns the
  bytes that a flat array with the initial contents of the memory would return, and
  afterwards the cache and the memory together hold the contents of that array, whatever
  was hit, filled, evicted or written back.
\<close>

theorem cache_over_memory_is_flat:
  fixes c :: "'a Cache"
  assumes "LRU_ctor u raw nsets bsize asc hl = Inr (tags c)" and "fresh_cache c" and "mem_ready m"
    and "\<forall>(e, pk) \<in> set xs. cpu_request (tags c) pk \<and> mem_covers bsize m (blkAlign (tags c) (addr pk))"
  shows "\<exists>rs c' m'. run_atomic LRU_vt (doAtomicAccess var) xs c m = Some (rs, c', m') \<and> length rs = length xs
     \<and> answers (map snd xs) rs = fst (flat_run (map snd xs) (mem_byte m))
     \<and> (\<forall>x. mem_covers bsize m (blkAlign (tags c) x)
          \<longrightarrow> flat (mem_block bsize) c' m' x = snd (flat_run (map snd xs) (mem_byte m)) x)"
proof -
  have bs: "c_blkSize c = bsize" using LRU_ctor_Inr(3) [OF assms(1)] assms(2) by (simp add: fresh_cache_def mshr_idle_def)
  have "\<forall>x. mem_covers bsize m (blkAlign (tags c) x) \<longrightarrow> mem_byte m x = flat (mem_block bsize) c m x"
    using fresh_flat [OF assms(1,3)] by simp
  from sm.run_flat [OF fresh_cache_ok [where ready = mem_ready and m = m, OF assms(1-3)] bs assms(4) this, of var] show ?thesis by blast
qed

theorem cache_over_memory_is_flat_witness:
  "\<exists>s rs c' m'. LRU_ctor (\<lambda>_. 0) raw_tags 2 4 2 1 = Inr s
     \<and> run_atomic LRU_vt (doAtomicAccess 0)
         [(sample_env, cpu_pkt WriteReq 0x11 [8, 9]), (sample_env, cpu_pkt ReadReq 0x10 [0, 0, 0, 0])]
         (sample_cache s) sample_mem = Some (rs, c', m')
     \<and> answers [cpu_pkt WriteReq 0x11 [8, 9], cpu_pkt ReadReq 0x10 [0, 0, 0, 0]] rs = [None, Some [1, 8, 9, 1]]"
proof -
  obtain s :: LRU where s: "LRU_ctor (\<lambda>_. 0) raw_tags 2 4 2 1 = Inr s" by (rule small_config)
  let ?xs = "[(sample_env, cpu_pkt WriteReq 0x11 [8, 9]), (sample_env, cpu_pkt ReadReq 0x10 [0, 0, 0, 0])]"
  note h = sample_hierarchy [OF s]
  have rq: "\<forall>(e, pk) \<in> set ?xs. cpu_request (tags (sample_cache s)) pk
      \<and> mem_covers 4 sample_mem (blkAlign (tags (sample_cache s)) (addr pk))"
    using sample_request_ok [OF h(1)] by simp
  have "fst (flat_run (map snd ?xs) (mem_byte sample_mem)) = [None, Some [1, 8, 9, 1]]"
    by (simp add: cpu_pkt_def sample_pkt_def flat_read_def flat_write_def in_pkt_def mem_byte_def sample_mem_def
        upt_rec nth_replicate unat_word_ariths)
  then show ?thesis
    using cache_over_memory_is_flat [OF h rq, of 0] s by auto
qed

text \<open>
  C7: One atomic access of the processor to a top-level cache with the unpartitioned LRU
  store and one shared, idle MSHR queue, in any state in which the store is well-formed,
  valid blocks hold all permissions and clean ones agree with the memory: a cacheable
  plain read or write inside one block succeeds, keeps that invariant, answers a read
  with the current contents, changes exactly the bytes of a write, and returns the
  response command.
\<close>

theorem atomicAccess_refines_flat_memory:
  fixes c :: "'a Cache"
  assumes "cache_ok (mem_block bs) (mem_covers bs) mem_ready c m" and "c_blkSize c = bs"
    and "cpu_request (tags c) pk" and "mem_covers bs m (blkAlign (tags c) (addr pk))"
  shows "\<exists>l r c' m'. atomicAccess e LRU_vt (doAtomicAccess var) pk c m = Some (l, r, c', m')
     \<and> cache_ok (mem_block bs) (mem_covers bs) mem_ready c' m' \<and> cmd r = responseCommand (cmd pk)
     \<and> (cmd pk = ReadReq \<longrightarrow> data r = Some (flat_read pk (flat (mem_block bs) c m)))
     \<and> (\<forall>x. mem_covers bs m (blkAlign (tags c) x)
          \<longrightarrow> flat (mem_block bs) c' m' x = flat_write pk (flat (mem_block bs) c m) x)"
  using sm.atomic_flat [OF assms, of e var] by blast

theorem atomicAccess_refines_flat_memory_witness:
  "\<exists>s l r c' m'. LRU_ctor (\<lambda>_. 0) raw_tags 2 4 2 1 = Inr s
     \<and> atomicAccess sample_env LRU_vt (doAtomicAccess 0) (cpu_pkt WriteReq 0x11 [8, 9]) (sample_cache s) sample_mem
         = Some (l, r, c', m')
     \<and> cmd r = WriteResp \<and> cache_ok (mem_block 4) (mem_covers 4) mem_ready c' m'"
proof -
  obtain s :: LRU where s: "LRU_ctor (\<lambda>_. 0) raw_tags 2 4 2 1 = Inr s" by (rule small_config)
  note h = sample_hierarchy [OF s]
  have rq: "cpu_request (tags (sample_cache s)) (cpu_pkt WriteReq 0x11 [8, 9])
      \<and> mem_covers 4 sample_mem (blkAlign (tags (sample_cache s)) (addr (cpu_pkt WriteReq 0x11 [8, 9])))"
    using sample_request_ok [OF h(1)] by simp
  have "c_blkSize (sample_cache s) = 4" "cmd (cpu_pkt WriteReq 0x11 [8, 9]) = WriteReq"
    by (simp_all add: sample_cache_def cpu_pkt_def sample_pkt_def)
  then show ?thesis
    using atomicAccess_refines_flat_memory [OF fresh_cache_ok [where ready = mem_ready and m = sample_mem, OF h],
        of 4 "cpu_pkt WriteReq 0x11 [8, 9]" sample_env 0] rq s by auto
qed

end
