(* ===== verification/Packet_Queue.thy ===== *)
theory Packet_Queue
imports RR_Layer Mem_Packet "HOL-Library.Multiset"
begin

text \<open>
  The queues that ports send from (\<open>mem/packet_queue.cc\<close>, \<open>packet_queue.hh\<close>):
  packets wait in the order of the ticks at which they may be sent, one event
  wakes the queue up, and a refused packet goes back to the front until the
  peer asks for a retry.

  The peer of the port is a parameter: for the packet it is offered it answers
  whether it takes it, and which calls of \<open>schedSendTiming\<close> it makes on the same
  queue before it returns.  The event is the tick it is scheduled for.
\<close>

subsection \<open>Definitions\<close>

record DeferredPacket =
  dp_tick :: tick
  dp_pkt :: Packet
  sendAsSnoop :: bool

record PacketQueue =
  transmitList :: "DeferredPacket list"
  sendEvent :: "tick option"
  waitingOnRetry :: bool
  pq_draining :: bool

type_synonym peer = "DeferredPacket \<Rightarrow> bool \<times> (tick \<times> Packet \<times> bool) list"

definition PacketQueue_new :: PacketQueue where
  "PacketQueue_new = \<lparr>transmitList = [], sendEvent = None, waitingOnRetry = False, pq_draining = False\<rparr>"

definition deferredPacketReady :: "tick \<Rightarrow> PacketQueue \<Rightarrow> bool" where
  "deferredPacketReady cur q \<longleftrightarrow> transmitList q \<noteq> [] \<and> dp_tick (hd (transmitList q)) \<le> cur"

definition deferredPacketReadyTime :: "PacketQueue \<Rightarrow> tick" where
  "deferredPacketReadyTime q = (if transmitList q = [] then MaxTick else dp_tick (hd (transmitList q)))"

fun pq_check :: "(nat \<Rightarrow> byte) \<Rightarrow> DeferredPacket list \<Rightarrow> Packet \<Rightarrow> (bool \<times> Packet \<times> DeferredPacket list) option" where
  "pq_check u [] p = Some (False, p, [])"
| "pq_check u (d # ds) p = do {
     (found, p, other) \<leftarrow> checkFunctional_pkt u (dp_pkt d) p;
     if found then Some (True, p, d \<lparr>dp_pkt := other\<rparr> # ds)
     else do { (found, p, ds) \<leftarrow> pq_check u ds p; Some (found, p, d \<lparr>dp_pkt := other\<rparr> # ds) } }"

definition pq_checkFunctional :: "(nat \<Rightarrow> byte) \<Rightarrow> Packet \<Rightarrow> PacketQueue \<Rightarrow> (bool \<times> Packet \<times> PacketQueue) option" where
  "pq_checkFunctional u p q = do {
     (found, p, ds) \<leftarrow> pq_check u (transmitList q) p;
     Some (found, p, q \<lparr>transmitList := ds\<rparr>) }"

definition schedSendEvent :: "tick \<Rightarrow> tick \<Rightarrow> PacketQueue \<Rightarrow> PacketQueue option" where
  "schedSendEvent cur when q =
     (if waitingOnRetry q then do { check (sendEvent q = None); Some q }
      else case sendEvent q of
        None \<Rightarrow> do { ev \<leftarrow> schedule cur None when; Some (q \<lparr>sendEvent := ev\<rparr>) }
      | Some t \<Rightarrow> if t > when then do { check (cur \<le> when); Some (q \<lparr>sendEvent := Some when\<rparr>) } else Some q)"

text \<open>The insertion loop, from the position of the iterator.\<close>

fun insert_from :: "DeferredPacket \<Rightarrow> DeferredPacket list \<Rightarrow> DeferredPacket list" where
  "insert_from d [] = [d]"
| "insert_from d (x # xs) = (if dp_tick d \<ge> dp_tick x then x # insert_from d xs else d # x # xs)"

definition schedSendTiming :: "tick \<Rightarrow> Packet \<Rightarrow> tick \<Rightarrow> bool \<Rightarrow> PacketQueue \<Rightarrow> PacketQueue option" where
  "schedSendTiming cur pk when snoop q = do {
     check (cur \<le> when);
     check (\<not> isExpressSnoop pk);
     let d = \<lparr>dp_tick = when, dp_pkt = pk, sendAsSnoop = snoop\<rparr>;
     let xs = transmitList q;
     if xs = [] \<or> when < dp_tick (hd xs) then schedSendEvent cur when (q \<lparr>transmitList := d # xs\<rparr>)
     else if when \<ge> dp_tick (last xs) then Some (q \<lparr>transmitList := xs @ [d]\<rparr>)
     else Some (q \<lparr>transmitList := hd xs # insert_from d (tl xs)\<rparr>) }"

fun sched_all :: "tick \<Rightarrow> (tick \<times> Packet \<times> bool) list \<Rightarrow> PacketQueue \<Rightarrow> PacketQueue option" where
  "sched_all cur [] q = Some q"
| "sched_all cur ((when, pk, snoop) # cs) q = do {
     q \<leftarrow> schedSendTiming cur pk when snoop q; sched_all cur cs q }"

definition trySendTiming :: "tick \<Rightarrow> peer \<Rightarrow> PacketQueue \<Rightarrow> PacketQueue option" where
  "trySendTiming cur peer q = do {
     check (deferredPacketReady cur q);
     let dp = hd (transmitList q);
     let q = q \<lparr>transmitList := tl (transmitList q)\<rparr>;
     let (ok, calls) = peer dp;
     q \<leftarrow> sched_all cur calls q;
     let q = q \<lparr>waitingOnRetry := \<not> ok\<rparr>;
     if waitingOnRetry q then do {
       check (sendEvent q = None);
       Some (q \<lparr>transmitList := dp # transmitList q\<rparr>) }
     else Some q }"

definition scheduleSend :: "tick \<Rightarrow> tick \<Rightarrow> PacketQueue \<Rightarrow> PacketQueue option" where
  "scheduleSend cur time q =
     (let nextReady = min (deferredPacketReadyTime q) time in
      if nextReady \<noteq> MaxTick then
        if sendEvent q = None then do {
          ev \<leftarrow> schedule cur None (max nextReady (cur + 1)); Some (q \<lparr>sendEvent := ev\<rparr>) }
        else Some q
      else if pq_draining q \<and> transmitList q = [] \<and> sendEvent q = None
      then Some (q \<lparr>pq_draining := False\<rparr>) else Some q)"

definition sendDeferredPacket :: "tick \<Rightarrow> peer \<Rightarrow> PacketQueue \<Rightarrow> PacketQueue option" where
  "sendDeferredPacket cur peer q =
     (if \<not> deferredPacketReady cur q then Some q
      else do {
        q \<leftarrow> trySendTiming cur peer q;
        if \<not> waitingOnRetry q then scheduleSend cur MaxTick q else Some q })"

definition pq_retry :: "tick \<Rightarrow> peer \<Rightarrow> PacketQueue \<Rightarrow> PacketQueue option" where
  "pq_retry cur peer q = sendDeferredPacket cur peer q"

text \<open>The event's handler; the event is no longer scheduled when it runs.\<close>

definition processSendEvent :: "tick \<Rightarrow> peer \<Rightarrow> PacketQueue \<Rightarrow> PacketQueue option" where
  "processSendEvent cur peer q = do {
     check (\<not> waitingOnRetry q);
     sendDeferredPacket cur peer (q \<lparr>sendEvent := None\<rparr>) }"

definition pq_drain :: "PacketQueue \<Rightarrow> 32 word \<times> PacketQueue" where
  "pq_drain q = (if transmitList q = [] \<and> sendEvent q = None then (0, q) else (1, q \<lparr>pq_draining := True\<rparr>))"

subsection \<open>Runs\<close>

datatype pq_op = Enqueue Packet tick bool | SendEvent peer | Retry peer

fun pq_step :: "tick \<Rightarrow> pq_op \<Rightarrow> PacketQueue \<Rightarrow> PacketQueue option" where
  "pq_step cur (Enqueue pk when snoop) q = schedSendTiming cur pk when snoop q"
| "pq_step cur (SendEvent peer) q = processSendEvent cur peer q"
| "pq_step cur (Retry peer) q = pq_retry cur peer q"

fun pq_run :: "(tick \<times> pq_op) list \<Rightarrow> PacketQueue \<Rightarrow> PacketQueue option" where
  "pq_run [] q = Some q"
| "pq_run ((cur, x) # xs) q = do { q \<leftarrow> pq_step cur x q; pq_run xs q }"

text \<open>
  A peer that keeps the protocol: what it enqueues meanwhile is not in the past
  and is no express snoop, and it enqueues nothing when it refuses.
\<close>

definition peer_ok :: "tick \<Rightarrow> peer \<Rightarrow> bool" where
  "peer_ok cur peer \<longleftrightarrow> (\<forall>d. (\<not> fst (peer d) \<longrightarrow> snd (peer d) = [])
     \<and> (\<forall>(when, pk, snoop) \<in> set (snd (peer d)). cur \<le> when \<and> when < MaxTick \<and> \<not> isExpressSnoop pk))"

text \<open>
  What the event queue and the peer allow at tick \<open>cur\<close>: the event runs at its
  tick, nothing else runs after that tick before it, and a retry comes only
  when one is awaited.
\<close>

fun pq_legal :: "tick \<Rightarrow> pq_op \<Rightarrow> PacketQueue \<Rightarrow> bool" where
  "pq_legal cur (Enqueue pk when snoop) q \<longleftrightarrow> cur \<le> when \<and> when < MaxTick \<and> \<not> isExpressSnoop pk
     \<and> (case sendEvent q of None \<Rightarrow> True | Some t \<Rightarrow> cur \<le> t)"
| "pq_legal cur (SendEvent peer) q \<longleftrightarrow> sendEvent q = Some cur \<and> peer_ok cur peer"
| "pq_legal cur (Retry peer) q \<longleftrightarrow> waitingOnRetry q \<and> peer_ok cur peer"

fun pq_legal_run :: "tick \<Rightarrow> (tick \<times> pq_op) list \<Rightarrow> PacketQueue \<Rightarrow> bool" where
  "pq_legal_run now [] q = True"
| "pq_legal_run now ((cur, x) # xs) q \<longleftrightarrow> now \<le> cur \<and> cur < MaxTick \<and> pq_legal cur x q
     \<and> (case pq_step cur x q of None \<Rightarrow> True | Some q' \<Rightarrow> pq_legal_run cur xs q')"

text \<open>
  The invariant at tick \<open>now\<close>: packets are in the order of their ticks; a queue
  with packets either awaits a retry for its front, which is due, or has its
  event scheduled, not before the front is due and at most one tick late.
\<close>

definition pq_sorted :: "DeferredPacket list \<Rightarrow> bool" where
  "pq_sorted xs \<longleftrightarrow> sorted (map dp_tick xs) \<and> (\<forall>d \<in> set xs. dp_tick d < MaxTick \<and> \<not> isExpressSnoop (dp_pkt d))"

definition pq_ok :: "tick \<Rightarrow> PacketQueue \<Rightarrow> bool" where
  "pq_ok now q \<longleftrightarrow> pq_sorted (transmitList q)
     \<and> (if transmitList q = [] then sendEvent q = None \<and> \<not> waitingOnRetry q
        else let front = dp_tick (hd (transmitList q)) in
          if waitingOnRetry q then sendEvent q = None \<and> front \<le> now
          else case sendEvent q of None \<Rightarrow> False
               | Some t \<Rightarrow> front \<le> t \<and> t \<le> max front (now + 1))"

subsection \<open>Order\<close>

lemma insert_from_split:
  "insert_from d xs = takeWhile (\<lambda>x. dp_tick x \<le> dp_tick d) xs @ d # dropWhile (\<lambda>x. dp_tick x \<le> dp_tick d) xs"
  by (induction xs) auto

text \<open>The three cases of \<open>schedSendTiming\<close> are one stable insertion.\<close>

definition insert_stable :: "DeferredPacket \<Rightarrow> DeferredPacket list \<Rightarrow> DeferredPacket list" where
  "insert_stable d xs = takeWhile (\<lambda>x. dp_tick x \<le> dp_tick d) xs @ d # dropWhile (\<lambda>x. dp_tick x \<le> dp_tick d) xs"

lemma insert_stable_cases:
  assumes "sorted (map dp_tick xs)"
  shows "xs = [] \<or> dp_tick d < dp_tick (hd xs) \<Longrightarrow> insert_stable d xs = d # xs"
    "xs \<noteq> [] \<Longrightarrow> dp_tick (last xs) \<le> dp_tick d \<Longrightarrow> insert_stable d xs = xs @ [d]"
    "xs \<noteq> [] \<Longrightarrow> dp_tick (hd xs) \<le> dp_tick d \<Longrightarrow> insert_stable d xs = hd xs # insert_from d (tl xs)"
proof -
  show "insert_stable d xs = d # xs" if "xs = [] \<or> dp_tick d < dp_tick (hd xs)"
    using that by (cases xs) (auto simp: insert_stable_def)
  show "insert_stable d xs = hd xs # insert_from d (tl xs)" if "xs \<noteq> []" "dp_tick (hd xs) \<le> dp_tick d"
    using that by (cases xs) (auto simp: insert_stable_def insert_from_split)
  show "insert_stable d xs = xs @ [d]" if "xs \<noteq> []" "dp_tick (last xs) \<le> dp_tick d"
  proof -
    have "\<forall>x \<in> set xs. dp_tick x \<le> dp_tick d"
    proof
      fix x assume "x \<in> set xs"
      then have "dp_tick x \<le> dp_tick (last xs)"
        using assms that(1) by (induction xs) (auto simp: last_in_set split: if_splits)
      then show "dp_tick x \<le> dp_tick d" using that(2) by simp
    qed
    then show ?thesis by (simp add: insert_stable_def takeWhile_eq_all_conv dropWhile_eq_Nil_conv)
  qed
qed

lemma insert_stable_sorted:
  assumes "pq_sorted xs" "dp_tick d < MaxTick" "\<not> isExpressSnoop (dp_pkt d)"
  shows "pq_sorted (insert_stable d xs)"
proof -
  have "sorted (map dp_tick (insert_stable d xs))"
    using assms(1) unfolding pq_sorted_def insert_stable_def
    by (induction xs) (auto simp: dest!: set_takeWhileD set_dropWhileD)
  moreover have "set (insert_stable d xs) = insert d (set xs)"
    unfolding insert_stable_def by simp (metis set_append sup_commute takeWhile_dropWhile_id)
  ultimately show ?thesis using assms by (auto simp: pq_sorted_def)
qed

subsection \<open>One call of schedSendTiming\<close>

lemma insert_stable_hd:
  "xs \<noteq> [] \<Longrightarrow> dp_tick (hd xs) \<le> dp_tick d \<Longrightarrow> hd (insert_stable d xs) = hd xs"
  by (cases xs) (auto simp: insert_stable_def)

lemma insert_stable_ne [simp]: "insert_stable d xs \<noteq> []"
  by (simp add: insert_stable_def)

lemma insert_stable_mset: "mset (insert_stable d xs) = add_mset d (mset xs)"
  unfolding insert_stable_def by simp (metis mset_append takeWhile_dropWhile_id)

lemma schedSendEvent_front:
  assumes "cur \<le> when" "waitingOnRetry q \<Longrightarrow> sendEvent q = None" "\<And>t. sendEvent q = Some t \<Longrightarrow> when < t"
  shows "schedSendEvent cur when q = Some (q \<lparr>sendEvent := if waitingOnRetry q then None else Some when\<rparr>)"
proof (cases "waitingOnRetry q")
  case True
  then show ?thesis using assms(2) by (cases q) (simp add: schedSendEvent_def)
next
  case False
  then show ?thesis using assms(1,3) by (cases "sendEvent q") (simp_all add: schedSendEvent_def schedule_def)
qed

lemma schedSendTiming_stable:
  fixes pk snoop "when"
  defines "d \<equiv> \<lparr>dp_tick = when, dp_pkt = pk, sendAsSnoop = snoop\<rparr>"
  assumes "sorted (map dp_tick (transmitList q))" "cur \<le> when" "\<not> isExpressSnoop pk"
  shows "transmitList q = [] \<or> when < dp_tick (hd (transmitList q)) \<Longrightarrow>
      schedSendTiming cur pk when snoop q = schedSendEvent cur when (q \<lparr>transmitList := insert_stable d (transmitList q)\<rparr>)"
    "\<not> (transmitList q = [] \<or> when < dp_tick (hd (transmitList q))) \<Longrightarrow>
      schedSendTiming cur pk when snoop q = Some (q \<lparr>transmitList := insert_stable d (transmitList q)\<rparr>)"
  using assms(3,4) insert_stable_cases [OF assms(2), of d]
  by (auto simp: schedSendTiming_def Let_def d_def not_less leD)

text \<open>
  Between the two halves of a send the queue is only known to have an event
  at the tick of its front, if it has one.
\<close>

definition pq_mid :: "tick \<Rightarrow> PacketQueue \<Rightarrow> bool" where
  "pq_mid cur q \<longleftrightarrow> pq_sorted (transmitList q) \<and> (case sendEvent q of None \<Rightarrow> True
     | Some t \<Rightarrow> transmitList q \<noteq> [] \<and> t = dp_tick (hd (transmitList q)) \<and> \<not> waitingOnRetry q)"

lemma schedSendTiming_mid:
  assumes "pq_mid cur q" "cur \<le> when" "when < MaxTick" "\<not> isExpressSnoop pk"
  shows "\<exists>q'. schedSendTiming cur pk when snoop q = Some q' \<and> pq_mid cur q' \<and> waitingOnRetry q' = waitingOnRetry q
    \<and> mset (transmitList q') = add_mset \<lparr>dp_tick = when, dp_pkt = pk, sendAsSnoop = snoop\<rparr> (mset (transmitList q))"
proof -
  define d where "d = \<lparr>dp_tick = when, dp_pkt = pk, sendAsSnoop = snoop\<rparr>"
  define q1 where "q1 = q \<lparr>transmitList := insert_stable d (transmitList q)\<rparr>"
  have d: "dp_tick d = when" by (simp add: d_def)
  have srt: "pq_sorted (transmitList q)" using assms(1) by (simp add: pq_mid_def)
  then have srt1: "sorted (map dp_tick (transmitList q))" by (simp add: pq_sorted_def)
  have q1: "transmitList q1 = insert_stable d (transmitList q)" "sendEvent q1 = sendEvent q"
    "waitingOnRetry q1 = waitingOnRetry q" "pq_sorted (transmitList q1)"
    using insert_stable_sorted [OF srt, of d] assms by (simp_all add: q1_def d_def)
  have m: "mset (transmitList q1) = add_mset d (mset (transmitList q))" by (simp add: q1 insert_stable_mset)
  note eq = schedSendTiming_stable [where snoop = snoop, OF srt1 assms(2,4), folded d_def, folded q1_def]
  show ?thesis
  proof (cases "transmitList q = [] \<or> when < dp_tick (hd (transmitList q))")
    case True
    then have hd1: "hd (transmitList q1) = d"
      using insert_stable_cases(1) [OF srt1, of d] by (auto simp: q1 d)
    have "schedSendEvent cur when q1 = Some (q1 \<lparr>sendEvent := if waitingOnRetry q1 then None else Some when\<rparr>)"
      using assms(1,2) True by (intro schedSendEvent_front) (auto simp: q1 pq_mid_def split: option.splits)
    moreover have "transmitList q1 \<noteq> []" by (simp add: q1)
    ultimately show ?thesis using eq(1) [OF True] hd1 q1(3,4) m
      by (simp add: pq_mid_def d d_def [symmetric])
  next
    case False
    then have "hd (transmitList q1) = hd (transmitList q)"
      by (simp add: q1 insert_stable_hd d not_less)
    then have "pq_mid cur q1" using assms(1) False q1 by (simp add: pq_mid_def split: option.splits)
    then show ?thesis using eq(2) [OF False] q1(3) m by (simp add: d_def [symmetric])
  qed
qed

definition as_deferred :: "tick \<times> Packet \<times> bool \<Rightarrow> DeferredPacket" where
  "as_deferred c = (case c of (when, pk, snoop) \<Rightarrow> \<lparr>dp_tick = when, dp_pkt = pk, sendAsSnoop = snoop\<rparr>)"

lemma sched_all_mid:
  assumes "pq_mid cur q" "\<forall>(when, pk, snoop) \<in> set cs. cur \<le> when \<and> when < MaxTick \<and> \<not> isExpressSnoop pk"
  shows "\<exists>q'. sched_all cur cs q = Some q' \<and> pq_mid cur q' \<and> waitingOnRetry q' = waitingOnRetry q
    \<and> mset (transmitList q') = mset (map as_deferred cs) + mset (transmitList q)"
  using assms
proof (induction cs arbitrary: q)
  case (Cons c cs)
  obtain "when" pk snoop where c: "c = (when, pk, snoop)" by (cases c)
  obtain q1 where q1: "schedSendTiming cur pk when snoop q = Some q1" "pq_mid cur q1"
    "waitingOnRetry q1 = waitingOnRetry q"
    "mset (transmitList q1) = add_mset (as_deferred c) (mset (transmitList q))"
    using schedSendTiming_mid [OF Cons.prems(1), of "when" pk snoop] Cons.prems(2) by (auto simp: c as_deferred_def)
  show ?case using Cons.IH [OF q1(2)] Cons.prems(2) by (auto simp: c q1 [unfolded c])
qed simp

subsection \<open>One send\<close>

lemma tl_sorted: "pq_sorted xs \<Longrightarrow> pq_sorted (tl xs)"
  by (cases xs) (auto simp: pq_sorted_def)

lemma trySendTiming_cases:
  assumes "pq_sorted (transmitList q)" "sendEvent q = None" "deferredPacketReady cur q" "peer_ok cur peer"
  defines "d \<equiv> hd (transmitList q)"
  shows "fst (peer d) \<Longrightarrow> \<exists>q'. trySendTiming cur peer q = Some q' \<and> pq_mid cur q' \<and> \<not> waitingOnRetry q'
      \<and> mset (transmitList q') = mset (map as_deferred (snd (peer d))) + mset (tl (transmitList q))"
    "\<not> fst (peer d) \<Longrightarrow> trySendTiming cur peer q = Some (q \<lparr>waitingOnRetry := True\<rparr>)"
proof -
  define q0 where "q0 = q \<lparr>transmitList := tl (transmitList q)\<rparr>"
  have q0: "transmitList q0 = tl (transmitList q)" "sendEvent q0 = None" "pq_mid cur q0"
    using assms(1,2) by (simp_all add: q0_def pq_mid_def tl_sorted)
  have calls: "\<forall>(when, pk, snoop) \<in> set (snd (peer d)). cur \<le> when \<and> when < MaxTick \<and> \<not> isExpressSnoop pk"
    "\<not> fst (peer d) \<Longrightarrow> snd (peer d) = []"
    using assms(4) unfolding peer_ok_def by blast+
  have ready: "transmitList q = d # tl (transmitList q)" using assms(3) by (simp add: deferredPacketReady_def d_def)
  { assume ok: "fst (peer d)"
    obtain q1 where q1: "sched_all cur (snd (peer d)) q0 = Some q1" "pq_mid cur q1"
      "mset (transmitList q1) = mset (map as_deferred (snd (peer d))) + mset (tl (transmitList q))"
      using sched_all_mid [OF q0(3) calls(1)] q0(1) by auto
    have "trySendTiming cur peer q = Some (q1 \<lparr>waitingOnRetry := False\<rparr>)"
      using assms(3) ok q1(1) by (simp add: trySendTiming_def Let_def split_beta d_def q0_def)
    moreover have "pq_mid cur (q1 \<lparr>waitingOnRetry := False\<rparr>)"
      using q1(2) by (simp add: pq_mid_def split: option.splits)
    ultimately show "\<exists>q'. trySendTiming cur peer q = Some q' \<and> pq_mid cur q' \<and> \<not> waitingOnRetry q'
      \<and> mset (transmitList q') = mset (map as_deferred (snd (peer d))) + mset (tl (transmitList q))"
      using q1(3) by simp }
  { assume no: "\<not> fst (peer d)"
    then show "trySendTiming cur peer q = Some (q \<lparr>waitingOnRetry := True\<rparr>)"
      using assms(2,3) calls(2) ready by (cases q) (simp add: trySendTiming_def Let_def split_beta d_def) }
qed

lemma MaxTick_max: "MaxTick = -1"
  by (simp add: MaxTick_def)

lemma tick_suc: "(cur :: tick) < MaxTick \<Longrightarrow> cur < cur + 1"
  unfolding MaxTick_max by unat_arith

lemma scheduleSend_ok:
  assumes "pq_mid cur q" "\<not> waitingOnRetry q" "cur < MaxTick"
  shows "\<exists>q'. scheduleSend cur MaxTick q = Some q' \<and> pq_ok cur q' \<and> transmitList q' = transmitList q"
proof (cases "transmitList q = []")
  case True
  then have "sendEvent q = None" using assms(1) by (simp add: pq_mid_def split: option.splits)
  moreover have "pq_sorted []" by (simp add: pq_sorted_def)
  ultimately show ?thesis using True assms(2)
    by (simp add: scheduleSend_def deferredPacketReadyTime_def pq_ok_def)
next
  case False
  define front where "front = dp_tick (hd (transmitList q))"
  have srt: "pq_sorted (transmitList q)" using assms(1) by (simp add: pq_mid_def)
  then have "front < MaxTick" using False by (simp add: front_def pq_sorted_def)
  then have ready: "min (deferredPacketReadyTime q) MaxTick = front" "front \<noteq> MaxTick"
    using False by (auto simp: min_def less_imp_le deferredPacketReadyTime_def front_def)
  have late: "cur \<le> max front (cur + 1)" using tick_suc [OF assms(3)] by (simp add: le_max_iff_disj less_imp_le)
  show ?thesis
  proof (cases "sendEvent q")
    case None
    then have "scheduleSend cur MaxTick q = Some (q \<lparr>sendEvent := Some (max front (cur + 1))\<rparr>)"
      using late ready by (simp add: scheduleSend_def Let_def schedule_def)
    then show ?thesis using srt False assms(2) by (simp add: pq_ok_def Let_def front_def)
  next
    case (Some t)
    then have "scheduleSend cur MaxTick q = Some q" using ready by (simp add: scheduleSend_def Let_def)
    moreover have "t = front" using Some assms(1) by (simp add: pq_mid_def front_def)
    ultimately show ?thesis using srt False assms(2) Some by (simp add: pq_ok_def Let_def front_def)
  qed
qed

text \<open>What leaves the queue and what the peer puts into it during a send.\<close>

definition send_out :: "peer \<Rightarrow> PacketQueue \<Rightarrow> DeferredPacket list" where
  "send_out peer q = (let d = hd (transmitList q) in if fst (peer d) then [d] else [])"

definition send_in :: "peer \<Rightarrow> PacketQueue \<Rightarrow> DeferredPacket list" where
  "send_in peer q = map as_deferred (snd (peer (hd (transmitList q))))"

lemma sendDeferredPacket_ok:
  assumes "pq_sorted (transmitList q)" "sendEvent q = None" "deferredPacketReady cur q" "peer_ok cur peer" "cur < MaxTick"
  shows "\<exists>q'. sendDeferredPacket cur peer q = Some q' \<and> pq_ok cur q'
    \<and> mset (send_out peer q) + mset (transmitList q') = mset (send_in peer q) + mset (transmitList q)"
proof -
  define d where "d = hd (transmitList q)"
  have q: "transmitList q = d # tl (transmitList q)" "dp_tick d \<le> cur"
    using assms(3) by (simp_all add: deferredPacketReady_def d_def)
  show ?thesis
  proof (cases "fst (peer d)")
    case True
    obtain q1 where q1: "trySendTiming cur peer q = Some q1" "pq_mid cur q1" "\<not> waitingOnRetry q1"
      "mset (transmitList q1) = mset (send_in peer q) + mset (tl (transmitList q))"
      using trySendTiming_cases(1) [OF assms(1-4)] True unfolding d_def send_in_def by blast
    obtain q2 where "scheduleSend cur MaxTick q1 = Some q2" "pq_ok cur q2" "transmitList q2 = transmitList q1"
      using scheduleSend_ok [OF q1(2,3) assms(5)] by blast
    moreover have "mset (transmitList q) = add_mset d (mset (tl (transmitList q)))"
      using q(1) by (metis mset.simps(2))
    ultimately show ?thesis
      using True q1 assms(3) by (auto simp: sendDeferredPacket_def send_out_def d_def Let_def)
  next
    case False
    then have "snd (peer d) = []" using assms(4) by (simp add: peer_ok_def)
    then show ?thesis
      using trySendTiming_cases(2) [OF assms(1-4)] False assms q
      by (auto simp: sendDeferredPacket_def send_out_def send_in_def d_def Let_def pq_ok_def)
  qed
qed

subsection \<open>Runs\<close>

fun op_out :: "pq_op \<Rightarrow> PacketQueue \<Rightarrow> DeferredPacket list" where
  "op_out (Enqueue pk when snoop) q = []"
| "op_out (SendEvent peer) q = send_out peer q"
| "op_out (Retry peer) q = send_out peer q"

fun op_in :: "pq_op \<Rightarrow> PacketQueue \<Rightarrow> DeferredPacket list" where
  "op_in (Enqueue pk when snoop) q = [\<lparr>dp_tick = when, dp_pkt = pk, sendAsSnoop = snoop\<rparr>]"
| "op_in (SendEvent peer) q = send_in peer q"
| "op_in (Retry peer) q = send_in peer q"

text \<open>What a run sends, with the tick of the send, and what it enqueues.\<close>

fun pq_sent :: "(tick \<times> pq_op) list \<Rightarrow> PacketQueue \<Rightarrow> (tick \<times> DeferredPacket) list" where
  "pq_sent [] q = []"
| "pq_sent ((cur, x) # xs) q = map (Pair cur) (op_out x q)
     @ (case pq_step cur x q of None \<Rightarrow> [] | Some q' \<Rightarrow> pq_sent xs q')"

fun pq_enqueued :: "(tick \<times> pq_op) list \<Rightarrow> PacketQueue \<Rightarrow> DeferredPacket list" where
  "pq_enqueued [] q = []"
| "pq_enqueued ((cur, x) # xs) q = op_in x q
     @ (case pq_step cur x q of None \<Rightarrow> [] | Some q' \<Rightarrow> pq_enqueued xs q')"

lemma enqueue_ok:
  assumes "pq_ok now q" "now \<le> cur" "cur < MaxTick" "pq_legal cur (Enqueue pk when snoop) q"
  shows "\<exists>q'. schedSendTiming cur pk when snoop q = Some q' \<and> pq_ok cur q'
    \<and> mset (transmitList q') = add_mset \<lparr>dp_tick = when, dp_pkt = pk, sendAsSnoop = snoop\<rparr> (mset (transmitList q))"
proof -
  define d where "d = \<lparr>dp_tick = when, dp_pkt = pk, sendAsSnoop = snoop\<rparr>"
  define q1 where "q1 = q \<lparr>transmitList := insert_stable d (transmitList q)\<rparr>"
  have d: "dp_tick d = when" by (simp add: d_def)
  have legal: "cur \<le> when" "when < MaxTick" "\<not> isExpressSnoop pk" using assms(4) by simp_all
  have srt: "pq_sorted (transmitList q)" using assms(1) by (simp add: pq_ok_def)
  then have srt1: "sorted (map dp_tick (transmitList q))" by (simp add: pq_sorted_def)
  have q1: "transmitList q1 = insert_stable d (transmitList q)" "sendEvent q1 = sendEvent q"
    "waitingOnRetry q1 = waitingOnRetry q" "pq_sorted (transmitList q1)"
    using insert_stable_sorted [OF srt, of d] legal by (simp_all add: q1_def d_def)
  have m: "mset (transmitList q1) = add_mset d (mset (transmitList q))" by (simp add: q1 insert_stable_mset)
  note eq = schedSendTiming_stable [where snoop = snoop, OF srt1 legal(1,3), folded d_def, folded q1_def]
  show ?thesis
  proof (cases "transmitList q = [] \<or> when < dp_tick (hd (transmitList q))")
    case True
    then have hd1: "hd (transmitList q1) = d"
      using insert_stable_cases(1) [OF srt1, of d] by (auto simp: q1 d)
    have idle: "\<not> waitingOnRetry q1"
      using True assms(1,2) legal(1) by (auto simp: q1 pq_ok_def Let_def split: if_splits)
    have "schedSendEvent cur when q1 = Some (q1 \<lparr>sendEvent := if waitingOnRetry q1 then None else Some when\<rparr>)"
      using assms(1) legal(1) True idle
      by (intro schedSendEvent_front) (auto simp: q1 pq_ok_def Let_def split: option.splits if_splits)
    moreover have "transmitList q1 \<noteq> []" by (simp add: q1)
    ultimately show ?thesis using eq(1) [OF True] hd1 q1(4) m idle
      by (simp add: pq_ok_def Let_def d d_def [symmetric])
  next
    case False
    then have hd1: "hd (transmitList q1) = hd (transmitList q)" by (simp add: q1 insert_stable_hd d not_less)
    have "now + 1 \<le> cur + 1" using assms(2,3) unfolding MaxTick_max by unat_arith
    then have late: "max f (now + 1) \<le> max f (cur + 1)" for f by (rule max.mono [OF order.refl])
    have "transmitList q1 \<noteq> []" "transmitList q \<noteq> []" using False by (simp_all add: q1)
    then have "pq_ok cur q1" using assms(1,2) q1(2-4) hd1
      by (auto simp: pq_ok_def Let_def split: option.splits if_splits intro: order_trans late)
    then show ?thesis using eq(2) [OF False] m by (simp add: d_def [symmetric])
  qed
qed

lemma pq_step_ok:
  assumes "pq_ok now q" "now \<le> cur" "cur < MaxTick" "pq_legal cur x q"
  shows "\<exists>q'. pq_step cur x q = Some q' \<and> pq_ok cur q' \<and> (\<forall>d \<in> set (op_out x q). dp_tick d \<le> cur)
    \<and> mset (op_out x q) + mset (transmitList q') = mset (op_in x q) + mset (transmitList q)"
proof (cases x)
  case (Enqueue pk "when" snoop)
  then show ?thesis using enqueue_ok [OF assms(1-3)] assms(4) by fastforce
next
  case (SendEvent peer)
  define q0 where "q0 = q \<lparr>sendEvent := None\<rparr>"
  have q0: "pq_sorted (transmitList q0)" "sendEvent q0 = None" "deferredPacketReady cur q0" "\<not> waitingOnRetry q"
    using assms(1,4) SendEvent
    by (auto simp: q0_def pq_ok_def deferredPacketReady_def Let_def split: if_splits)
  show ?thesis
    using sendDeferredPacket_ok [OF q0(1-3) _ assms(3), of peer] SendEvent assms(4) q0(3,4)
    by (auto simp: processSendEvent_def q0_def [symmetric] send_out_def send_in_def deferredPacketReady_def Let_def)
      (simp_all add: q0_def)
next
  case (Retry peer)
  have q0: "pq_sorted (transmitList q)" "sendEvent q = None" "deferredPacketReady cur q"
    using assms(1,2,4) Retry by (auto simp: pq_ok_def deferredPacketReady_def Let_def split: if_splits)
  then show ?thesis
    using sendDeferredPacket_ok [OF q0 _ assms(3), of peer] Retry assms(4)
    by (auto simp: pq_retry_def send_out_def deferredPacketReady_def Let_def)
qed

text \<open>What a legal operation enqueues is not in the past, so it stays behind what was sent.\<close>

lemma op_in_future:
  assumes "pq_legal cur x q" "e \<in> set (op_in x q)"
  shows "cur \<le> dp_tick e"
proof -
  have peer: "cur \<le> dp_tick e" if "peer_ok cur peer" "e \<in> set (send_in peer q)" for peer
    using that unfolding peer_ok_def send_in_def as_deferred_def by fastforce
  show ?thesis using assms peer by (cases x) auto
qed

lemma pq_step_front:
  assumes "pq_ok now q" "now \<le> cur" "cur < MaxTick" "pq_legal cur x q" "pq_step cur x q = Some q'"
    and "b \<le> cur" "\<forall>e \<in> set (transmitList q). b \<le> dp_tick e"
  shows "\<forall>e \<in> set (transmitList q'). b \<le> dp_tick e"
    "\<forall>d \<in> set (op_out x q). b \<le> dp_tick d \<and> (\<forall>e \<in> set (transmitList q'). dp_tick d \<le> dp_tick e)"
proof -
  note step = pq_step_ok [OF assms(1-4), unfolded assms(5)]
  have sub: "set (transmitList q') \<subseteq> set (op_in x q) \<union> set (transmitList q)"
  proof -
    have "mset (op_out x q) + mset (transmitList q') = mset (op_in x q) + mset (transmitList q)" using step by auto
    from arg_cong [OF this, of set_mset]
    have "set (op_out x q) \<union> set (transmitList q') = set (op_in x q) \<union> set (transmitList q)" by simp
    then show ?thesis by blast
  qed
  then show "\<forall>e \<in> set (transmitList q'). b \<le> dp_tick e"
    using op_in_future [OF assms(4)] assms(6,7) by (meson UnE order_trans subsetD)
  have front: "d = hd (transmitList q) \<and> transmitList q \<noteq> []" if "d \<in> set (op_out x q)" for d
    using that assms(1,4) by (cases x) (auto simp: send_out_def Let_def pq_ok_def split: if_splits)
  have least: "dp_tick (hd (transmitList q)) \<le> dp_tick e" if "e \<in> set (transmitList q)" for e
    using that assms(1) by (cases "transmitList q") (auto simp: pq_ok_def pq_sorted_def)
  show "\<forall>d \<in> set (op_out x q). b \<le> dp_tick d \<and> (\<forall>e \<in> set (transmitList q'). dp_tick d \<le> dp_tick e)"
  proof (intro ballI conjI)
    fix d assume d: "d \<in> set (op_out x q)"
    then show "b \<le> dp_tick d" using front assms(7) hd_in_set by blast
    fix e assume "e \<in> set (transmitList q')"
    then consider "e \<in> set (op_in x q)" | "e \<in> set (transmitList q)" using sub by blast
    then show "dp_tick d \<le> dp_tick e"
      by cases (use d step op_in_future [OF assms(4)] least front in \<open>auto intro: order_trans\<close>)
  qed
qed

definition end_tick :: "tick \<Rightarrow> (tick \<times> 'a) list \<Rightarrow> tick" where
  "end_tick now xs = (if xs = [] then now else fst (last xs))"

lemma pq_run_step:
  assumes "pq_ok now q" "pq_legal_run now ((cur, x) # xs) q"
  obtains q1 where "now \<le> cur" "cur < MaxTick" "pq_legal cur x q" "pq_step cur x q = Some q1" "pq_ok cur q1"
    "pq_legal_run cur xs q1" "\<forall>d \<in> set (op_out x q). dp_tick d \<le> cur"
    "mset (op_out x q) + mset (transmitList q1) = mset (op_in x q) + mset (transmitList q)"
proof -
  from assms(2) have pre: "now \<le> cur" "cur < MaxTick" "pq_legal cur x q" by simp_all
  with pq_step_ok [OF assms(1) pre] assms(2) that show ?thesis by auto
qed

lemma pq_run_ok:
  assumes "pq_ok now q" "pq_legal_run now xs q"
  shows "\<exists>q'. pq_run xs q = Some q' \<and> pq_ok (end_tick now xs) q'
      \<and> mset (map snd (pq_sent xs q)) + mset (transmitList q') = mset (pq_enqueued xs q) + mset (transmitList q)"
  using assms
proof (induction xs arbitrary: now q)
  case (Cons a xs)
  obtain cur x where a: "a = (cur, x)" by (cases a)
  obtain q1 where q1: "pq_step cur x q = Some q1" "pq_ok cur q1" "pq_legal_run cur xs q1"
    "mset (op_out x q) + mset (transmitList q1) = mset (op_in x q) + mset (transmitList q)"
    using pq_run_step [OF Cons.prems [unfolded a]] by metis
  obtain q2 where q2: "pq_run xs q1 = Some q2" "pq_ok (end_tick cur xs) q2"
    "mset (map snd (pq_sent xs q1)) + mset (transmitList q2) = mset (pq_enqueued xs q1) + mset (transmitList q1)"
    using Cons.IH [OF q1(2,3)] by blast
  have "mset (op_out x q) + mset (map snd (pq_sent xs q1)) + mset (transmitList q2)
    = mset (op_in x q) + mset (pq_enqueued xs q1) + mset (transmitList q)"
    using q1(4) q2(3) by (metis union_assoc union_commute)
  moreover have "end_tick now (a # xs) = end_tick cur xs" by (simp add: end_tick_def a)
  ultimately show ?case using q1(1) q2(1,2) by (simp add: a comp_def)
qed (simp add: end_tick_def)

lemma pq_sent_order:
  assumes "pq_ok now q" "pq_legal_run now xs q" "b \<le> now" "\<forall>e \<in> set (transmitList q). b \<le> dp_tick e"
  shows "(\<forall>(t, d) \<in> set (pq_sent xs q). b \<le> dp_tick d \<and> dp_tick d \<le> t)
    \<and> sorted (map (dp_tick \<circ> snd) (pq_sent xs q))"
  using assms
proof (induction xs arbitrary: now q b)
  case (Cons a xs)
  obtain cur x where a: "a = (cur, x)" by (cases a)
  obtain q1 where q1: "now \<le> cur" "cur < MaxTick" "pq_legal cur x q" "pq_step cur x q = Some q1" "pq_ok cur q1"
    "pq_legal_run cur xs q1" "\<forall>d \<in> set (op_out x q). dp_tick d \<le> cur"
    using pq_run_step [OF Cons.prems(1,2) [unfolded a]] by metis
  have b: "b \<le> cur" using Cons.prems(3) q1(1) by (rule order_trans)
  note front = pq_step_front [OF Cons.prems(1) q1(1-4) b Cons.prems(4)]
  note rest = Cons.IH [OF q1(5,6)]
  show ?case
  proof (cases "op_out x q")
    case Nil
    then show ?thesis using rest [OF b front(1)] by (simp add: a q1(4))
  next
    case (Cons d ds)
    then have ds: "ds = []" by (cases x) (auto simp: send_out_def Let_def split: if_splits)
    have d: "b \<le> dp_tick d" "dp_tick d \<le> cur" "\<forall>e \<in> set (transmitList q1). dp_tick d \<le> dp_tick e"
      using front(2) q1(7) Cons by simp_all
    then show ?thesis using rest [OF b front(1)] rest [OF d(2,3)] Cons ds by (auto simp: a q1(4))
  qed
qed simp

subsection \<open>Properties\<close>

lemma PacketQueue_new_ok: "pq_ok now PacketQueue_new"
  by (simp add: pq_ok_def PacketQueue_new_def pq_sorted_def)

text \<open>
  C10: A packet queue driven as the event queue and its peer may drive it, refusals,
  retries and re-entrant enqueues included, never fails an assertion and never falls
  asleep: a queue with packets awaits a retry for a due front or has its event scheduled
  for the front, at most one tick late; every packet enqueued was sent once or is still
  queued.
\<close>

theorem packet_queue_live:
  assumes "pq_legal_run now xs PacketQueue_new"
  shows "\<exists>q. pq_run xs PacketQueue_new = Some q \<and> pq_ok (end_tick now xs) q
    \<and> mset (map snd (pq_sent xs PacketQueue_new)) + mset (transmitList q) = mset (pq_enqueued xs PacketQueue_new)"
  using pq_run_ok [OF PacketQueue_new_ok assms] by (simp add: PacketQueue_new_def)

text \<open>
  C11: No packet leaves a packet queue before its tick, and packets leave in the order
  of their ticks, however enqueues, refusals and retries interleave.
\<close>

theorem packet_queue_in_order:
  assumes "pq_legal_run now xs PacketQueue_new"
  shows "(\<forall>(t, d) \<in> set (pq_sent xs PacketQueue_new). dp_tick d \<le> t)
    \<and> sorted (map (dp_tick \<circ> snd) (pq_sent xs PacketQueue_new))"
  using pq_sent_order [OF PacketQueue_new_ok assms, of 0] by (auto simp: PacketQueue_new_def)









subsection \<open>Witnesses\<close>

text \<open>Two packets, the second due before the first; the peer refuses once.\<close>

definition sample_send :: Packet where "sample_send = sample_pkt ReadReq 0x40 4 None"

definition sample_run :: "(tick \<times> pq_op) list" where
  "sample_run = [(5, Enqueue sample_send 10 False), (6, Enqueue sample_send 8 False),
     (8, SendEvent (\<lambda>_. (False, []))), (9, Retry (\<lambda>_. (True, []))), (10, SendEvent (\<lambda>_. (True, [])))]"

lemma sample_send_plain: "\<not> isExpressSnoop sample_send"
  by code_simp

lemmas pq_eval = schedSendTiming_def schedSendEvent_def schedule_def processSendEvent_def pq_retry_def
  sendDeferredPacket_def trySendTiming_def scheduleSend_def deferredPacketReady_def deferredPacketReadyTime_def
  PacketQueue_new_def MaxTick_def peer_ok_def sample_send_plain

lemma sample_run_legal: "pq_legal_run 0 sample_run PacketQueue_new"
  by (simp add: sample_run_def pq_eval Let_def)

theorem packet_queue_live_witness:
  "\<exists>q. pq_run sample_run PacketQueue_new = Some q \<and> pq_ok 10 q
    \<and> mset (map snd (pq_sent sample_run PacketQueue_new)) + mset (transmitList q)
      = mset (pq_enqueued sample_run PacketQueue_new)"
  using packet_queue_live [OF sample_run_legal] by (simp add: end_tick_def sample_run_def)

theorem packet_queue_in_order_witness:
  "list_all (\<lambda>(t, d). dp_tick d \<le> t) (pq_sent sample_run PacketQueue_new)
    \<and> sorted (map (dp_tick \<circ> snd) (pq_sent sample_run PacketQueue_new))
    \<and> map fst (pq_sent sample_run PacketQueue_new) = [9, 10]"
  using packet_queue_in_order [OF sample_run_legal]
  by (simp add: list_all_iff sample_run_def pq_eval send_out_def Let_def)





end
