(* ===== verification/Base_Cache.thy ===== *)
theory Base_Cache
imports Cache_Access Packet_Queue
begin

text \<open>
  The state that the timing mode of a cache adds to its tags and miss queues,
  and the operations of \<open>mem/cache/base.hh\<close>, \<open>base.cc\<close> and of the classes that
  split them by thread (\<open>split_mshr_cache.hh\<close>, \<open>split_rport_cache.hh\<close>): blocking
  the processor's port, allocating miss and write buffers and requesting the
  bus.

  Which class a cache belongs to shows in its state: the queues of a split
  cache are arrays (\<^const>\<open>PerThread\<close>), and \<open>split_rport\<close> tells whether blocking
  and responses are split too.  A pointer to an MSHR queue is a number, twice
  the thread for a miss queue and one more for a write buffer.  The member
  \<open>fwdRecords\<close> holds the forwarding records that the cache has allocated for
  snoops; the sender state \<open>OtherState k\<close> points to record \<open>k\<close>.  Of the
  parameters of the cache, \<open>cw_first\<close> is read when a response arrives.
\<close>

subsection \<open>State\<close>

record CacheSlavePort =
  slaveQueue :: PacketQueue
  respQueues :: "PacketQueue list"
  port_blocked :: bool
  port_blocked_array :: "bool list"
  mustSendRetry :: bool
  sendRetryEvent :: "tick option"

record 'a BaseCache =
  cache :: "'a Cache"
  writeBuffer :: "MSHRQueue per_thread"
  memQueue :: PacketQueue
  reqQueues :: "PacketQueue list"
  cpuSidePort :: CacheSlavePort
  split_rport :: bool
  blocked :: "8 word"
  blocked_array :: "64 word list option"
  c_order :: "64 word"
  numTarget :: "32 word"
  forwardSnoops :: bool
  noTargetMSHR :: "nat option"
  c_missCounter :: "64 word"
  cw_first :: bool
  fwdRecords :: "(SenderState option \<times> port_id) list"

text \<open>The argument of a function that takes the thread of a packet as an \<open>int\<close>.\<close>

definition thread_of :: "Packet \<Rightarrow> nat" where
  "thread_of pk = unat (ucast (threadID pk) :: 32 word)"

abbreviation the_heap :: "'a BaseCache \<Rightarrow> heap" where
  "the_heap c \<equiv> c_heap (cache c)"

definition set_heap :: "heap \<Rightarrow> 'a BaseCache \<Rightarrow> 'a BaseCache" where
  "set_heap h c = c \<lparr>cache := (cache c) \<lparr>c_heap := h\<rparr>\<rparr>"

definition getWriteBuffer :: "nat \<Rightarrow> 'a BaseCache \<Rightarrow> MSHRQueue option" where
  "getWriteBuffer tid c = of_thread tid (writeBuffer c)"

text \<open>The queue of kind \<open>wb\<close> for a thread, and the queue a pointer denotes.\<close>

definition get_mq :: "bool \<Rightarrow> nat \<Rightarrow> 'a BaseCache \<Rightarrow> MSHRQueue option" where
  "get_mq wb tid c = (if wb then getWriteBuffer tid c else getMSHRQueue tid (cache c))"

definition put_mq :: "bool \<Rightarrow> nat \<Rightarrow> MSHRQueue \<Rightarrow> 'a BaseCache \<Rightarrow> 'a BaseCache" where
  "put_mq wb tid q c =
     (if wb then c \<lparr>writeBuffer := set_thread tid q (writeBuffer c)\<rparr>
      else c \<lparr>cache := (cache c) \<lparr>mshrQueue := set_thread tid q (mshrQueue (cache c))\<rparr>\<rparr>)"

definition isSplitMSHR :: "'a BaseCache \<Rightarrow> bool" where
  "isSplitMSHR c = (case mshrQueue (cache c) of Shared _ \<Rightarrow> False | PerThread _ \<Rightarrow> True)"

definition blockAlign :: "addr \<Rightarrow> 'a BaseCache \<Rightarrow> addr" where
  "blockAlign a c = a AND NOT (ucast (c_blkSize (cache c) - 1))"

subsection \<open>Blocking the processor's port\<close>

definition Blocked_NoMSHRs :: nat where "Blocked_NoMSHRs = 0"
definition Blocked_NoWBBuffers :: nat where "Blocked_NoWBBuffers = 1"
definition Blocked_NoTargets :: nat where "Blocked_NoTargets = 2"

definition port_setBlocked :: "CacheSlavePort \<Rightarrow> CacheSlavePort option" where
  "port_setBlocked p = do { check (\<not> port_blocked p); Some (p \<lparr>port_blocked := True\<rparr>) }"

text \<open>A retry owed to the processor is sent on the next tick.\<close>

definition send_owed_retry :: "tick \<Rightarrow> CacheSlavePort \<Rightarrow> CacheSlavePort option" where
  "send_owed_retry now p =
     (if mustSendRetry p then do {
        ev \<leftarrow> schedule now (sendRetryEvent p) (now + 1);
        Some (p \<lparr>mustSendRetry := False, sendRetryEvent := ev\<rparr>) }
      else Some p)"

definition port_clearBlocked :: "tick \<Rightarrow> CacheSlavePort \<Rightarrow> CacheSlavePort option" where
  "port_clearBlocked now p = do {
     check (port_blocked p);
     send_owed_retry now (p \<lparr>port_blocked := False\<rparr>) }"

definition SR_port_setBlocked :: "nat \<Rightarrow> CacheSlavePort \<Rightarrow> CacheSlavePort option" where
  "SR_port_setBlocked tid p = do {
     b \<leftarrow> at (port_blocked_array p) tid;
     check (\<not> b);
     Some (p \<lparr>port_blocked_array := (port_blocked_array p)[tid := True]\<rparr>) }"

definition SR_port_clearBlocked :: "tick \<Rightarrow> nat \<Rightarrow> CacheSlavePort \<Rightarrow> CacheSlavePort option" where
  "SR_port_clearBlocked now tid p = do {
     b \<leftarrow> at (port_blocked_array p) tid;
     check b;
     send_owed_retry now (p \<lparr>port_blocked_array := (port_blocked_array p)[tid := False]\<rparr>) }"

definition base_setBlocked :: "nat \<Rightarrow> 'a BaseCache \<Rightarrow> 'a BaseCache option" where
  "base_setBlocked cause c = do {
     p \<leftarrow> (if blocked c = 0 then port_setBlocked (cpuSidePort c) else Some (cpuSidePort c));
     Some (c \<lparr>cpuSidePort := p, blocked := blocked c OR push_bit cause 1\<rparr>) }"

definition base_clearBlocked :: "tick \<Rightarrow> nat \<Rightarrow> 'a BaseCache \<Rightarrow> 'a BaseCache option" where
  "base_clearBlocked now cause c = do {
     let b = blocked c AND NOT (push_bit cause 1);
     p \<leftarrow> (if b = 0 then port_clearBlocked now (cpuSidePort c) else Some (cpuSidePort c));
     Some (c \<lparr>cpuSidePort := p, blocked := b\<rparr>) }"

definition SR_setBlocked :: "nat \<Rightarrow> nat \<Rightarrow> 'a BaseCache \<Rightarrow> 'a BaseCache option" where
  "SR_setBlocked cause tid c = do {
     arr \<leftarrow> blocked_array c;
     b \<leftarrow> at arr tid;
     p \<leftarrow> (if b = 0 then SR_port_setBlocked tid (cpuSidePort c) else Some (cpuSidePort c));
     Some (c \<lparr>cpuSidePort := p, blocked_array := Some (arr[tid := b OR ucast (push_bit cause 1 :: 8 word)])\<rparr>) }"

definition SR_clearBlocked :: "tick \<Rightarrow> nat \<Rightarrow> nat \<Rightarrow> 'a BaseCache \<Rightarrow> 'a BaseCache option" where
  "SR_clearBlocked now cause tid c = do {
     arr \<leftarrow> blocked_array c;
     b \<leftarrow> at arr tid;
     let b = b AND NOT (ucast (push_bit cause 1 :: 8 word));
     p \<leftarrow> (if b = 0 then SR_port_clearBlocked now tid (cpuSidePort c) else Some (cpuSidePort c));
     Some (c \<lparr>cpuSidePort := p, blocked_array := Some (arr[tid := b])\<rparr>) }"

definition setBlocked :: "nat \<Rightarrow> nat \<Rightarrow> 'a BaseCache \<Rightarrow> 'a BaseCache option" where
  "setBlocked cause tid c = (if split_rport c then SR_setBlocked cause tid c else base_setBlocked cause c)"

definition clearBlocked :: "tick \<Rightarrow> nat \<Rightarrow> nat \<Rightarrow> 'a BaseCache \<Rightarrow> 'a BaseCache option" where
  "clearBlocked now cause tid c =
     (if split_rport c then SR_clearBlocked now cause tid c else base_clearBlocked now cause c)"

text \<open>A request that arrives while the port is blocked is refused unless another cache answers it.\<close>

definition port_isBlocked :: "nat \<Rightarrow> 'a BaseCache \<Rightarrow> bool option" where
  "port_isBlocked tid c =
     (if split_rport c then at (port_blocked_array (cpuSidePort c)) tid else Some (port_blocked (cpuSidePort c)))"

subsection \<open>The bus\<close>

definition requestMemSideBus :: "tick \<Rightarrow> tick \<Rightarrow> nat \<Rightarrow> 'a BaseCache \<Rightarrow> 'a BaseCache option" where
  "requestMemSideBus now time tid c =
     (if isSplitMSHR c then do {
        q \<leftarrow> at (reqQueues c) tid;
        q \<leftarrow> schedSendEvent now time q;
        Some (c \<lparr>reqQueues := (reqQueues c)[tid := q]\<rparr>) }
      else do {
        q \<leftarrow> schedSendEvent now time (memQueue c);
        Some (c \<lparr>memQueue := q\<rparr>) })"

subsection \<open>Buffers\<close>

definition allocateBufferInternal :: "tick \<Rightarrow> bool \<Rightarrow> addr \<Rightarrow> 32 word \<Rightarrow> nat \<Rightarrow> tick \<Rightarrow> bool \<Rightarrow> 'a BaseCache
    \<Rightarrow> (nat \<times> 'a BaseCache) option" where
  "allocateBufferInternal now wb a sz p time requestBus c = do {
     pk \<leftarrow> at (pkts (the_heap c)) p;
     let tid = thread_of pk;
     mq \<leftarrow> get_mq wb tid c;
     (m, mq, h) \<leftarrow> q_allocate a sz p time (sint (c_order c)) now mq (the_heap c);
     let c = put_mq wb tid mq (set_heap h (c \<lparr>c_order := c_order c + 1\<rparr>));
     c \<leftarrow> (if isFull mq then setBlocked (nat (index mq)) tid c else Some c);
     c \<leftarrow> (if requestBus then requestMemSideBus now time tid c else Some c);
     Some (m, c) }"

definition allocateMissBuffer :: "tick \<Rightarrow> nat \<Rightarrow> tick \<Rightarrow> bool \<Rightarrow> 'a BaseCache \<Rightarrow> (nat \<times> 'a BaseCache) option" where
  "allocateMissBuffer now p time requestBus c = do {
     pk \<leftarrow> at (pkts (the_heap c)) p;
     check (\<not> isUncacheable (req pk));
     a \<leftarrow> getAddr pk;
     allocateBufferInternal now False (blockAlign a c) (c_blkSize (cache c)) p time requestBus c }"

definition allocateWriteBuffer :: "tick \<Rightarrow> nat \<Rightarrow> tick \<Rightarrow> bool \<Rightarrow> 'a BaseCache \<Rightarrow> (nat \<times> 'a BaseCache) option" where
  "allocateWriteBuffer now p time requestBus c = do {
     pk \<leftarrow> at (pkts (the_heap c)) p;
     check (isWrite (cmd pk) \<and> \<not> isRead (cmd pk));
     a \<leftarrow> getAddr pk;
     n \<leftarrow> getSize pk;
     allocateBufferInternal now True a n p time requestBus c }"

definition allocateUncachedReadBuffer :: "tick \<Rightarrow> nat \<Rightarrow> tick \<Rightarrow> bool \<Rightarrow> 'a BaseCache \<Rightarrow> (nat \<times> 'a BaseCache) option" where
  "allocateUncachedReadBuffer now p time requestBus c = do {
     pk \<leftarrow> at (pkts (the_heap c)) p;
     check (isUncacheable (req pk));
     check (isRead (cmd pk));
     a \<leftarrow> getAddr pk;
     n \<leftarrow> getSize pk;
     allocateBufferInternal now False a n p time requestBus c }"

text \<open>The packet is only looked at when it has to be; a null pointer is an address outside the store.\<close>

definition markInServiceInternal :: "tick \<Rightarrow> nat \<Rightarrow> nat \<Rightarrow> 'a BaseCache \<Rightarrow> 'a BaseCache option" where
  "markInServiceInternal now m p c = do {
     r \<leftarrow> at (mshrs (the_heap c)) m;
     let wb = odd (queue r);
     let t = queue r div 2;
     mq \<leftarrow> get_mq wb t c;
     (mq', h) \<leftarrow> q_markInService m p mq (the_heap c);
     let c = put_mq wb t mq' (set_heap h c);
     if isFull mq \<and> \<not> isFull mq' then do {
       pk \<leftarrow> at (pkts (the_heap c)) p;
       clearBlocked now (nat (index mq')) (thread_of pk) c }
     else Some c }"

text \<open>A packet that the cache allocates gets the next address of the store.\<close>

definition new_pkt :: "Packet \<Rightarrow> 'a BaseCache \<Rightarrow> nat \<times> 'a BaseCache" where
  "new_pkt pk c = (length (pkts (the_heap c)),
     set_heap ((the_heap c) \<lparr>pkts := pkts (the_heap c) @ [pk]\<rparr>) c)"

subsection \<open>Construction\<close>

primrec thread_queues :: "(nat \<Rightarrow> MSHR) \<Rightarrow> int \<Rightarrow> int \<Rightarrow> nat \<Rightarrow> heap \<Rightarrow> (MSHRQueue list \<times> MSHRQueue list \<times> heap) option" where
  "thread_queues raw nm nw 0 h = Some ([], [], h)"
| "thread_queues raw nm nw (Suc i) h = do {
     (ms, ws, h) \<leftarrow> thread_queues raw nm nw i h;
     (m, h) \<leftarrow> MSHRQueue_new (2 * i) raw ''MSHRs'' nm 4 0 h;
     (w, h) \<leftarrow> MSHRQueue_new (2 * i + 1) raw ''write buffer'' nw (nm + 1000) 1 h;
     Some (ms @ [m], ws @ [w], h) }"

record CacheParams =
  p_mshrs :: int
  p_write_buffers :: int
  p_block_size :: "32 word"
  p_latency :: "32 word"
  p_tgts_per_mshr :: "32 word"
  p_forward_snoops :: bool
  p_is_top_level :: bool
  p_num_tcs :: nat
  p_cw_first :: bool

text \<open>
  \<open>raw\<close> is the storage of the object and \<open>u\<close> that of the temporary block's data; the member \<open>order\<close> is never initialised.
  A split cache also has the two queues of the base class, which nothing uses.
\<close>

definition BaseCache_new :: "'a BaseCache \<Rightarrow> (nat \<Rightarrow> byte) \<Rightarrow> (nat \<Rightarrow> MSHR) \<Rightarrow> CacheParams \<Rightarrow> 'a LRU_scheme \<Rightarrow> heap \<Rightarrow> 'a BaseCache option" where
  "BaseCache_new raw u rawm p t h = do {
     (m, h) \<leftarrow> MSHRQueue_new 0 rawm ''MSHRs'' (p_mshrs p) 4 0 h;
     (w, h) \<leftarrow> MSHRQueue_new 1 rawm ''write buffer'' (p_write_buffers p) (p_mshrs p + 1000) 1 h;
     Some (raw \<lparr>cache := \<lparr>tags = t, tempBlock = CacheBlk_new \<lparr>blk_data := map u [0..<unat (p_block_size p)]\<rparr>, c_blkSize = p_block_size p, c_hitLatency = p_latency p,
         isTopLevel = p_is_top_level p, mshrQueue = Shared m, c_heap = h\<rparr>,
       writeBuffer := Shared w, memQueue := PacketQueue_new, reqQueues := [],
       cpuSidePort := \<lparr>slaveQueue = PacketQueue_new, respQueues = [], port_blocked = False, port_blocked_array = [],
         mustSendRetry = False, sendRetryEvent = None\<rparr>,
       split_rport := False, blocked := 0, blocked_array := None, numTarget := p_tgts_per_mshr p,
       forwardSnoops := p_forward_snoops p, noTargetMSHR := None, c_missCounter := 0, cw_first := p_cw_first p, fwdRecords := []\<rparr>) }"

definition SplitMSHRCache_new :: "'a BaseCache \<Rightarrow> (nat \<Rightarrow> byte) \<Rightarrow> (nat \<Rightarrow> MSHR) \<Rightarrow> CacheParams \<Rightarrow> 'a LRU_scheme \<Rightarrow> heap \<Rightarrow> 'a BaseCache option" where
  "SplitMSHRCache_new raw u rawm p t h = do {
     c \<leftarrow> BaseCache_new raw u rawm p t h;
     (ms, ws, h) \<leftarrow> thread_queues rawm (p_mshrs p) (p_write_buffers p) (p_num_tcs p) (the_heap c);
     Some (c \<lparr>cache := (cache c) \<lparr>mshrQueue := PerThread ms, c_heap := h\<rparr>, writeBuffer := PerThread ws,
       reqQueues := replicate (p_num_tcs p) PacketQueue_new\<rparr>) }"

text \<open>The loop that should clear the array of the blocking causes clears the pointer to it.\<close>

definition SplitRPortCache_new :: "'a BaseCache \<Rightarrow> (nat \<Rightarrow> byte) \<Rightarrow> (nat \<Rightarrow> MSHR) \<Rightarrow> CacheParams \<Rightarrow> 'a LRU_scheme \<Rightarrow> heap \<Rightarrow> 'a BaseCache option" where
  "SplitRPortCache_new raw u rawm p t h = do {
     c \<leftarrow> SplitMSHRCache_new raw u rawm p t h;
     Some (c \<lparr>split_rport := True, blocked_array := (if p_num_tcs p = 0 then Some [] else None),
       cpuSidePort := (cpuSidePort c) \<lparr>port_blocked_array := replicate (p_num_tcs p) False,
         respQueues := replicate (p_num_tcs p) PacketQueue_new\<rparr>\<rparr>) }"

subsection \<open>Writebacks\<close>

lemma q_allocate_frame:
  assumes ok: "queue_ok q h" and fl: "freeList q = m # fs" and p: "p < length (pkts h)"
    and up: "upstream_free (pkts h ! p) h" and q: "q_allocate a sz p when ord now q h = Some (m', q', h')"
  shows "numEntries q' = numEntries q \<and> numReserve q' = numReserve q \<and> index q' = index q \<and> allocated q' = allocated q + 1
    \<and> (\<forall>k < length (mshrs h). k \<noteq> m \<longrightarrow> core (mshrs h' ! k) = core (mshrs h ! k))"
proof -
  note f = queue_free [OF ok, of m]
  obtain h2 where h2: "mshr_allocate m a sz p when ord now h = Some h2"
    "\<forall>k < length (mshrs h). k \<noteq> m \<longrightarrow> core (mshrs h2 ! k) = core (mshrs h ! k)"
    by (rule allocate_fresh [OF f(2,1) p up, of a sz "when" ord now]) (use fl in auto)
  then show ?thesis using q fl by (auto simp: q_allocate_def at_def bind_eq_Some_conv split: if_splits)
qed

text \<open>
  A writeback takes the block's address, its bytes and the thread it is asked
  for; the block becomes clean.
\<close>

lemma writebackBlk_eq:
  fixes c :: "'a Cache"
  assumes b: "at (blks (tags c)) i = Some b" "isValid b" "isDirty b" "0 \<le> blk_set b"
    and sz: "0 \<le>s c_blkSize c" "length (blk_data b) = unat (c_blkSize c)"
  shows "\<exists>wb. writebackBlk e (InTags i) tid c
       = Some (wb, put_blk (InTags i) (b \<lparr>status := status b AND NOT BlkDirty\<rparr>) c)
     \<and> cmd wb = Writeback \<and> getAddr wb = Some (regenerateBlkAddr (tags c) (tag b) (nat (blk_set b)))
     \<and> getSize wb = Some (c_blkSize c) \<and> data wb = Some (blk_data b) \<and> senderState wb = None
     \<and> threadID wb = of_nat tid \<and> \<not> isUncacheable (req wb)"
proof -
  define r where "r = raw_req e \<lparr>paddr := regenerateBlkAddr (tags c) (tag b) (nat (blk_set b)),
     req_size := c_blkSize c, req_time := e_now e, req_masterId := wbMasterId, req_flags := 0,
     privateFlags := VALID_PADDR OR REQ_VALID_SIZE\<rparr>"
  have r: "Request_phys (raw_req e) (regenerateBlkAddr (tags c) (tag b) (nat (blk_set b))) (c_blkSize c) 0
      wbMasterId (e_now e) = Some r"
    using sz(1) by (simp add: Request_phys_def setPhys_def Request_new_def r_def flags_defs req_flag_defs)
  have rf: "hasPaddr r" "hasSize r" "\<not> isUncacheable r"
    by (simp_all add: r_def hasPaddr_def hasSize_def isUncacheable_def flags_defs req_flag_defs)
  have g: "get_blk (InTags i) c = Some b" using b(1) by (simp add: get_blk_def)
  show ?thesis
    unfolding writebackBlk_def g
    using b(2-4) r rf sz(2)
    by (simp add: Packet_new_tid_def Packet_from_req_def Packet_init_def Let_def setSupplyExclusive_def
        allocate_def getSize_def getAddr_def getPtr_def memcpy_at_def flags_defs pkt_flag_defs) (simp add: r_def)
qed

subsection \<open>Room in a write buffer\<close>

text \<open>
  The write buffer of a thread of a split cache takes exactly \<open>n\<close> more entries
  without reporting to be full, and its request queue can be woken.
\<close>

definition wb_room :: "nat \<Rightarrow> nat \<Rightarrow> 'a BaseCache \<Rightarrow> bool" where
  "wb_room tid n c \<longleftrightarrow> isSplitMSHR c \<and> (\<exists>ws rq. writeBuffer c = PerThread ws \<and> tid < length ws
     \<and> at (reqQueues c) tid = Some rq \<and> (waitingOnRetry rq \<longrightarrow> sendEvent rq = None)
     \<and> queue_ok (ws ! tid) (the_heap c) \<and> 0 \<le> numReserve (ws ! tid)
     \<and> allocated (ws ! tid) + int n = numEntries (ws ! tid) - numReserve (ws ! tid))"

text \<open>The addresses and bytes that wait in a write buffer, oldest first.\<close>

definition entry_of :: "heap \<Rightarrow> nat \<Rightarrow> (addr \<times> byte list) list" where
  "entry_of h m = map (\<lambda>t. (addr (pkts h ! pkt t), the (data (pkts h ! pkt t)))) (tl_list (targets (mshrs h ! m)))"

definition buffered :: "nat \<Rightarrow> 'a BaseCache \<Rightarrow> (addr \<times> byte list) list" where
  "buffered tid c = (case getWriteBuffer tid c of None \<Rightarrow> []
     | Some q \<Rightarrow> concat (map (entry_of (the_heap c)) (allocatedList q)))"

lemma free_length: "queue_ok q h \<Longrightarrow> int (length (freeList q)) = numEntries q - allocated q"
proof -
  assume ok: "queue_ok q h"
  then have "card (set (freeList q @ allocatedList q)) = card (set (registers q))"
    "distinct (freeList q @ allocatedList q)" "distinct (registers q)" unfolding queue_ok_def by metis+
  then have "length (freeList q @ allocatedList q) = length (registers q)" by (metis distinct_card)
  then show ?thesis using ok by (simp add: queue_ok_def)
qed

lemma schedSendEvent_total:
  assumes "now \<le> when" "waitingOnRetry q \<longrightarrow> sendEvent q = None"
  shows "\<exists>q'. schedSendEvent now when q = Some q' \<and> (waitingOnRetry q' \<longrightarrow> sendEvent q' = None)"
  using assms by (auto simp: schedSendEvent_def schedule_def split: option.splits)

lemma set_heap_simps [simp]:
  "the_heap (set_heap h c) = h" "writeBuffer (set_heap h c) = writeBuffer c" "reqQueues (set_heap h c) = reqQueues c"
  "tags (cache (set_heap h c)) = tags (cache c)" "c_blkSize (cache (set_heap h c)) = c_blkSize (cache c)"
  "isSplitMSHR (set_heap h c) = isSplitMSHR c" "split_rport (set_heap h c) = split_rport c"
  "blocked_array (set_heap h c) = blocked_array c" "mshrQueue (cache (set_heap h c)) = mshrQueue (cache c)"
  by (simp_all add: set_heap_def isSplitMSHR_def)

lemma put_wb_simps [simp]:
  "the_heap (put_mq True t q c) = the_heap c" "writeBuffer (put_mq True t q c) = set_thread t q (writeBuffer c)"
  "reqQueues (put_mq True t q c) = reqQueues c" "tags (cache (put_mq True t q c)) = tags (cache c)"
  "c_blkSize (cache (put_mq True t q c)) = c_blkSize (cache c)" "isSplitMSHR (put_mq True t q c) = isSplitMSHR c"
  "split_rport (put_mq True t q c) = split_rport c" "blocked_array (put_mq True t q c) = blocked_array c"
  by (simp_all add: put_mq_def isSplitMSHR_def)

lemma writeback_cmd: "isWrite Writeback" "\<not> isRead Writeback"
  by code_simp+

lemma isSplitMSHR_order [simp]: "isSplitMSHR (c \<lparr>c_order := x\<rparr>) = isSplitMSHR c"
  by (simp add: isSplitMSHR_def)

text \<open>What the operations on write buffers leave alone.\<close>

definition same_cache :: "'a BaseCache \<Rightarrow> 'a BaseCache \<Rightarrow> bool" where
  "same_cache c c' \<longleftrightarrow> tags (cache c') = tags (cache c) \<and> c_blkSize (cache c') = c_blkSize (cache c)
     \<and> split_rport c' = split_rport c \<and> blocked_array c' = blocked_array c"

lemma allocateWriteBuffer_room:
  fixes c :: "'a BaseCache"
  defines "h \<equiv> the_heap c"
  assumes room: "wb_room tid (Suc n) c" and p: "p < length (pkts h)"
    and pk: "cmd (pkts h ! p) = Writeback" "getAddr (pkts h ! p) = Some a" "getSize (pkts h ! p) = Some sz"
      "thread_of (pkts h ! p) = tid" "senderState (pkts h ! p) = None"
  shows "\<exists>m c'. allocateWriteBuffer now p now True c = Some (m, c') \<and> wb_room tid n c' \<and> same_cache c c'
    \<and> buffered tid c' = buffered tid c @ [(addr (pkts h ! p), the (data (pkts h ! p)))]"
proof -
  obtain ws rq where ws: "writeBuffer c = PerThread ws" "tid < length ws" "at (reqQueues c) tid = Some rq"
    "waitingOnRetry rq \<longrightarrow> sendEvent rq = None" "queue_ok (ws ! tid) h" "0 \<le> numReserve (ws ! tid)"
    "allocated (ws ! tid) + int (Suc n) = numEntries (ws ! tid) - numReserve (ws ! tid)" "isSplitMSHR c"
    using room unfolding wb_room_def h_def by blast
  define q where "q = ws ! tid"
  have "0 < int (length (freeList q))" using free_length [OF ws(5)] ws(6,7) by (simp add: q_def)
  then obtain m fs where fl: "freeList q = m # fs" by (cases "freeList q") auto
  have up: "upstream_free (pkts h ! p) h" using pk(5) by (simp add: upstream_free_def)
  have ok: "queue_ok q h" using ws(5) by (simp add: q_def)
  obtain q' h' where q': "q_allocate a sz p now (sint (c_order c)) now q h = Some (m, q', h')" "queue_ok q' h'"
    "allocatedList q' = allocatedList q @ [m]" "pkts h' = pkts h" "length (mshrs h') = length (mshrs h)"
    "map pkt (tl_list (targets (mshrs h' ! m))) = [p]"
    by (rule q_allocate_ok [OF ok fl p up, of a sz now "sint (c_order c)" now]) auto
  note fr = q_allocate_frame [OF ok fl p up q'(1)]
  have nf: "\<not> isFull q'" using fr ws(7) by (simp add: isFull_def q_def)
  define c1 where "c1 = put_mq True tid q' (set_heap h' (c \<lparr>c_order := c_order c + 1\<rparr>))"
  obtain rq' where rq': "schedSendEvent now now rq = Some rq'" "waitingOnRetry rq' \<longrightarrow> sendEvent rq' = None"
    using schedSendEvent_total [OF order.refl ws(4)] by blast
  define c2 where "c2 = c1 \<lparr>reqQueues := (reqQueues c1)[tid := rq']\<rparr>"
  have c1: "writeBuffer c1 = PerThread (ws[tid := q'])" "the_heap c1 = h'" "reqQueues c1 = reqQueues c" "isSplitMSHR c1"
    "same_cache c c1"
    using ws(1,8) by (simp_all add: c1_def same_cache_def isSplitMSHR_def set_heap_def put_mq_def)
  have "get_mq True tid c = Some q" using ws(1,2) by (simp add: get_mq_def getWriteBuffer_def at_def q_def)
  then have "allocateBufferInternal now True a sz p now True c = Some (m, c2)"
    using p pk(4) q'(1) nf rq'(1) c1(3) ws(3,8)
    by (simp add: allocateBufferInternal_def at_def h_def c1_def [symmetric] Let_def requestMemSideBus_def c2_def)
  then have alloc: "allocateWriteBuffer now p now True c = Some (m, c2)"
    using p pk(1-3) by (simp add: allocateWriteBuffer_def at_def h_def writeback_cmd)
  have tid: "tid < length (reqQueues c)" using ws(3) by (simp add: at_def split: if_splits)
  have c2: "writeBuffer c2 = PerThread (ws[tid := q'])" "the_heap c2 = h'" "reqQueues c2 = (reqQueues c)[tid := rq']"
    "isSplitMSHR c2" "same_cache c c2"
    using c1 by (simp_all add: c2_def isSplitMSHR_def same_cache_def)
  have "wb_room tid n c2"
    using c2 tid ws(2,6,7) q'(2) rq'(2) fr by (simp add: wb_room_def at_def q_def)
  moreover have "buffered tid c2 = buffered tid c @ [(addr (pkts h ! p), the (data (pkts h ! p)))]"
  proof -
    have "entry_of h' k = entry_of h k" if "k \<in> set (allocatedList q)" for k
    proof -
      have "k < length (mshrs h)" "k \<noteq> m"
        using queue_entry(1) [OF ok that] queue_free(3) [OF ok, of m] fl that by auto
      then have "targets (mshrs h' ! k) = targets (mshrs h ! k)" using fr by (simp add: core_def)
      then show ?thesis by (simp add: entry_of_def q'(4))
    qed
    then have "map (entry_of h') (allocatedList q) = map (entry_of h) (allocatedList q)" by simp
    moreover have "entry_of h' m = [(addr (pkts h ! p), the (data (pkts h ! p)))]"
      using q'(6) by (auto simp: entry_of_def q'(4))
    ultimately show ?thesis
      using c2(1,2) ws(1,2) q'(3)
      by (simp add: buffered_def getWriteBuffer_def at_def q_def h_def del: map_eq_conv)
  qed
  ultimately show ?thesis using alloc c2(5) by blast
qed

lemma thread_of_nat:
  assumes "tid < 2 ^ 32" "threadID pk = of_nat tid"
  shows "thread_of pk = tid"
  using assms by (simp add: thread_of_def unsigned_ucast_eq unsigned_of_nat take_bit_nat_eq_self)

lemma new_pkt_room:
  fixes c :: "'a BaseCache"
  assumes "wb_room tid n c" "new_pkt pk c = (p, c')"
  shows "wb_room tid n c'" "buffered tid c' = buffered tid c" "same_cache c c'"
    "p < length (pkts (the_heap c'))" "pkts (the_heap c') ! p = pk"
proof -
  define h' where "h' = (the_heap c) \<lparr>pkts := pkts (the_heap c) @ [pk]\<rparr>"
  have c': "c' = set_heap h' c" "p = length (pkts (the_heap c))" using assms(2) by (simp_all add: new_pkt_def h'_def)
  obtain ws where ws: "writeBuffer c = PerThread ws" "tid < length ws" "queue_ok (ws ! tid) (the_heap c)"
    using assms(1) by (auto simp: wb_room_def)
  have "queue_ok (ws ! tid) h'" by (rule queue_ok_cong [OF ws(3)]) (simp_all add: h'_def)
  then show "wb_room tid n c'" using assms(1) ws(1) by (auto simp: c'(1) wb_room_def)
  have "entry_of h' m = entry_of (the_heap c) m" if "m \<in> set (allocatedList (ws ! tid))" for m
    using queue_entry(2) [OF ws(3) that] by (auto simp: entry_of_def h'_def mshr_ok_def nth_append)
  then show "buffered tid c' = buffered tid c"
    using ws(1,2) by (simp add: c'(1) buffered_def getWriteBuffer_def at_def cong: map_cong)
  show "same_cache c c'" by (simp add: c'(1) same_cache_def)
  show "p < length (pkts (the_heap c'))" "pkts (the_heap c') ! p = pk" by (simp_all add: c' h'_def)
qed

text \<open>
  A split cache whose array of blocking causes is a null pointer does not
  survive a write buffer that becomes full.
\<close>

lemma allocateWriteBuffer_full:
  assumes "getWriteBuffer tid c = Some q" "numEntries q - numReserve q < allocated q + 1"
    and "split_rport c" "blocked_array c = None" "thread_of (pkts (the_heap c) ! p) = tid"
  shows "allocateWriteBuffer now p time True c = None"
proof -
  have "allocateBufferInternal now True a sz p time True c = None" for a sz
  proof (cases "p < length (pkts (the_heap c))")
    case True
    show ?thesis
    proof (cases "q_allocate a sz p time (sint (c_order c)) now q (the_heap c)")
      case None
      then show ?thesis using assms(1,5) True by (simp add: allocateBufferInternal_def at_def get_mq_def)
    next
      case (Some x)
      obtain m q' h' where x: "x = (m, q', h')" by (cases x)
      have "numEntries q' = numEntries q" "numReserve q' = numReserve q" "allocated q' = allocated q + 1"
        using Some x by (auto simp: q_allocate_def bind_eq_Some_conv split: if_splits)
      then have "isFull q'" using assms(2) by (simp add: isFull_def)
      then show ?thesis using Some x assms True
        by (simp add: allocateBufferInternal_def at_def get_mq_def setBlocked_def SR_setBlocked_def put_mq_def Let_def)
    qed
  qed (simp add: allocateBufferInternal_def at_def)
  then show ?thesis by (simp add: allocateWriteBuffer_def Option.bind_eq_None_conv)
qed

end
