(* ===== verification/Dynamic_Cache.thy ===== *)
theory Dynamic_Cache
imports Base_Cache Tags_Umon Tags_Evict
begin

text \<open>
  The controllers that resize the partitions while the program runs:
  \<open>C_DynamicCache\<close> and \<open>F_DynamicCache\<close> (\<open>mem/cache/cache_impl.hh\<close>).

  As \<open>builder.cc\<close> creates them, the controllers are instantiated with the static
  type \<open>LRU\<close>, so \<open>inc_size\<close>, \<open>dec_size\<close> and \<open>get_evictBlk\<close> reach the dynamic
  stores and \<open>invalidateBlk\<close>, which is not virtual, is that of \<open>LRU\<close>.  The miss
  curve is read from a file into floating-point numbers; the parameter
  \<open>curve i j\<close> is the integer part of \<open>miss_curve[i] - miss_curve[j]\<close>.
\<close>

subsection \<open>Coarse-grained controller\<close>

type_synonym C_Cache = "unit C_DYNALRU_ext BaseCache"

abbreviation set_tags :: "'a LRU_scheme \<Rightarrow> 'a BaseCache \<Rightarrow> 'a BaseCache" where
  "set_tags t c \<equiv> c \<lparr>cache := (cache c) \<lparr>tags := t\<rparr>\<rparr>"

text \<open>Writing a block back into the write buffer of thread \<open>tid\<close>.\<close>

definition buffer_writeback :: "env \<Rightarrow> nat \<Rightarrow> nat \<Rightarrow> 'a BaseCache \<Rightarrow> 'a BaseCache option" where
  "buffer_writeback e i tid c = do {
     (wb, k) \<leftarrow> writebackBlk e (InTags i) tid (cache c);
     let (p, c) = new_pkt wb (c \<lparr>cache := k\<rparr>);
     (m, c) \<leftarrow> allocateWriteBuffer (e_now e) p (e_now e) True c;
     Some c }"

primrec C_inc_sets :: "env \<Rightarrow> nat \<Rightarrow> C_Cache \<Rightarrow> C_Cache option" where
  "C_inc_sets e 0 c = Some c"
| "C_inc_sets e (Suc i) c = do {
     c \<leftarrow> C_inc_sets e i c;
     p \<leftarrow> C_get_evictBlk 0 i (tags (cache c));
     b \<leftarrow> at (blks (tags (cache c))) p;
     if isDirty b \<and> isValid b then buffer_writeback e p 1 c else Some c }"

definition C_cache_inc_size :: "env \<Rightarrow> C_Cache \<Rightarrow> C_Cache option" where
  "C_cache_inc_size e c = do {
     (n, t) \<leftarrow> C_inc_size (tags (cache c));
     C_inc_sets e (unat n) (set_tags t c) }"

primrec C_dec_sets :: "env \<Rightarrow> nat \<Rightarrow> C_Cache \<Rightarrow> C_Cache option" where
  "C_dec_sets e 0 c = Some c"
| "C_dec_sets e (Suc i) c = do {
     c \<leftarrow> C_dec_sets e i c;
     p \<leftarrow> C_get_evictBlk 1 i (tags (cache c));
     b \<leftarrow> at (blks (tags (cache c))) p;
     if blk_threadID b = 0 then do {
       c \<leftarrow> (if isDirty b \<and> isValid b then buffer_writeback e p 0 c else Some c);
       t \<leftarrow> invalidateBlk C_vt (Some p) 1 (tags (cache c));
       b \<leftarrow> at (blks t) p;
       Some (set_tags (t \<lparr>blks := (blks t)[p := b \<lparr>blk_threadID := 1\<rparr>]\<rparr>) c) }
     else Some c }"

definition C_cache_dec_size :: "env \<Rightarrow> C_Cache \<Rightarrow> C_Cache option" where
  "C_cache_dec_size e c = do {
     (n, t) \<leftarrow> C_dec_size (tags (cache c));
     C_dec_sets e (unat n) (set_tags t c) }"

text \<open>The two estimates, as 32-bit integers.\<close>

definition Uinc :: "(nat \<Rightarrow> nat \<Rightarrow> 32 word) \<Rightarrow> 32 word \<Rightarrow> C_DYNALRU \<Rightarrow> 32 word option" where
  "Uinc curve asc t =
     (let l = curr_L_assoc t; h = asc - l in
      if l = asc then Some 0
      else do { u \<leftarrow> lookup_umon (unat (l + 1)) t; Some (u + curve (unat h) (unat (h - 1))) })"

definition Udec :: "(nat \<Rightarrow> nat \<Rightarrow> 32 word) \<Rightarrow> 32 word \<Rightarrow> C_DYNALRU \<Rightarrow> 32 word option" where
  "Udec curve asc t =
     (let l = curr_L_assoc t; h = asc - l in
      if l = 0 then Some 0
      else do { u \<leftarrow> lookup_umon (unat l) t; Some (0 - u + curve (unat h) (unat (h + 1))) })"

text \<open>\<open>adjustPartition\<close>, with the tick at which the event runs next.\<close>

definition C_adjustPartition :: "env \<Rightarrow> (nat \<Rightarrow> nat \<Rightarrow> 32 word) \<Rightarrow> 32 word \<Rightarrow> 64 word \<Rightarrow> C_Cache
    \<Rightarrow> (tick option \<times> C_Cache) option" where
  "C_adjustPartition e curve asc interval c = do {
     ui \<leftarrow> Uinc curve asc (tags (cache c));
     ud \<leftarrow> Udec curve asc (tags (cache c));
     c \<leftarrow> (if 0 <s ui \<and> ud \<le>s ui then C_cache_inc_size e c
           else if 0 <s ud \<and> ui \<le>s ud then C_cache_dec_size e c else Some c);
     let c = set_tags (reset_umon (tags (cache c))) c;
     ev \<leftarrow> schedule (e_now e) None (e_now e + interval);
     Some (ev, c) }"

subsection \<open>Fine-grained controller\<close>

type_synonym F_Cache = "unit F_DYNALRU_ext BaseCache"

primrec F_evict_sets :: "env \<Rightarrow> nat \<Rightarrow> F_Cache \<Rightarrow> F_Cache option" where
  "F_evict_sets e 0 c = Some c"
| "F_evict_sets e (Suc i) c = do {
     c \<leftarrow> F_evict_sets e i c;
     (r, t) \<leftarrow> F_get_evictBlk 0 i (tags (cache c));
     let c = set_tags t c;
     case r of None \<Rightarrow> Some c
     | Some p \<Rightarrow> do {
         b \<leftarrow> at (blks t) p;
         c \<leftarrow> (if isDirty b \<and> isValid b then buffer_writeback e p 0 c else Some c);
         t \<leftarrow> invalidateBlk F_vt (Some p) 0 (tags (cache c));
         Some (set_tags t c) } }"

definition F_adjustPartition :: "env \<Rightarrow> 64 word \<Rightarrow> F_Cache \<Rightarrow> (tick option \<times> F_Cache) option" where
  "F_adjustPartition e interval c = do {
     (n, t) \<leftarrow> F_dec_size (tags (cache c));
     c \<leftarrow> F_evict_sets e (unat n) (set_tags t c);
     ev \<leftarrow> schedule (e_now e) None (e_now e + interval);
     Some (ev, c \<lparr>c_missCounter := 0\<rparr>) }"

subsection \<open>Writing one block back\<close>

lemma set_tags_buffer:
  "wb_room tid k (set_tags t c) = wb_room tid k c" "buffered tid (set_tags t c) = buffered tid c"
  by (simp add: wb_room_def isSplitMSHR_def)
    (cases "of_thread tid (writeBuffer c)"; simp add: buffered_def getWriteBuffer_def)

definition cleaned :: "CacheBlk \<Rightarrow> CacheBlk" where
  "cleaned b = (if isDirty b \<and> isValid b then b \<lparr>status := status b AND NOT BlkDirty\<rparr> else b)"

text \<open>The address a block is written back to.\<close>

definition home :: "'a LRU_scheme \<Rightarrow> CacheBlk \<Rightarrow> addr" where
  "home s b = regenerateBlkAddr s (tag b) (nat (blk_set b))"

definition blk_wf :: "32 word \<Rightarrow> CacheBlk \<Rightarrow> bool" where
  "blk_wf bsz b \<longleftrightarrow> 0 \<le> blk_set b \<and> length (blk_data b) = unat bsz"

lemma buffer_writeback_room:
  fixes c :: "'a BaseCache"
  defines "s \<equiv> tags (cache c)"
  assumes room: "wb_room tid (Suc n) c" and tid: "tid < 2 ^ 32"
    and b: "at (blks s) i = Some b" "isValid b" "isDirty b" "blk_wf (c_blkSize (cache c)) b"
    and sz: "0 \<le>s c_blkSize (cache c)"
  shows "\<exists>c'. buffer_writeback e i tid c = Some c' \<and> wb_room tid n c'
    \<and> buffered tid c' = buffered tid c @ [(home s b, blk_data b)]
    \<and> same_cache (set_tags (s \<lparr>blks := (blks s)[i := cleaned b]\<rparr>) c) c'"
proof -
  obtain wb where wb: "writebackBlk e (InTags i) tid (cache c)
      = Some (wb, put_blk (InTags i) (b \<lparr>status := status b AND NOT BlkDirty\<rparr>) (cache c))"
    "cmd wb = Writeback" "getAddr wb = Some (home s b)" "getSize wb = Some (c_blkSize (cache c))"
    "data wb = Some (blk_data b)" "senderState wb = None" "threadID wb = of_nat tid"
    using writebackBlk_eq [where c = "cache c" and tid = tid and e = e, folded s_def, OF b(1-3)] b(4) sz
    by (auto simp: home_def blk_wf_def)
  define c0 where "c0 = set_tags (s \<lparr>blks := (blks s)[i := cleaned b]\<rparr>) c"
  have c0: "c \<lparr>cache := put_blk (InTags i) (b \<lparr>status := status b AND NOT BlkDirty\<rparr>) (cache c)\<rparr> = c0"
    using b(2,3) by (simp add: c0_def put_blk_def s_def cleaned_def)
  have room0: "wb_room tid (Suc n) c0" "buffered tid c0 = buffered tid c"
    using room by (auto simp: c0_def wb_room_def buffered_def getWriteBuffer_def isSplitMSHR_def)
  obtain p c1 where c1: "new_pkt wb c0 = (p, c1)" by (cases "new_pkt wb c0")
  note n = new_pkt_room [OF room0(1) c1]
  have "thread_of (pkts (the_heap c1) ! p) = tid" using thread_of_nat [OF tid] n(5) wb(7) by simp
  moreover have "addr wb = home s b" using wb(3) by (simp add: getAddr_def split: if_splits)
  ultimately obtain m c2 where c2: "allocateWriteBuffer (e_now e) p (e_now e) True c1 = Some (m, c2)" "wb_room tid n c2"
    "same_cache c1 c2" "buffered tid c2 = buffered tid c1 @ [(home s b, blk_data b)]"
    using allocateWriteBuffer_room [OF n(1,4), of "home s b" "c_blkSize (cache c)"] wb n(5) by force
  have "buffer_writeback e i tid c = Some c2" using wb(1) c0 c1 c2(1) by (simp add: buffer_writeback_def)
  moreover have "same_cache c0 c2" using n(3) c2(3) by (simp add: same_cache_def)
  ultimately show ?thesis using c2(2,4) n(2) room0(2) by (auto simp: c0_def)
qed

lemma buffer_writeback_full:
  fixes c :: "'a BaseCache"
  defines "s \<equiv> tags (cache c)"
  assumes q: "getWriteBuffer tid c = Some q" "numEntries q - numReserve q < allocated q + 1"
    and null: "split_rport c" "blocked_array c = None" and tid: "tid < 2 ^ 32"
  shows "buffer_writeback e i tid c = None"
proof (cases "writebackBlk e (InTags i) tid (cache c)")
  case None
  then show ?thesis by (simp add: buffer_writeback_def)
next
  case (Some x)
  obtain wb k where x: "x = (wb, k)" by (cases x)
  define c0 where "c0 = c \<lparr>cache := k\<rparr>"
  obtain p c1 where c1: "new_pkt wb c0 = (p, c1)" by (cases "new_pkt wb c0")
  have t: "threadID wb = of_nat tid"
    using Some x by (auto simp: writebackBlk_def bind_eq_Some_conv allocate_def Packet_new_tid_def Packet_from_req_def
        Packet_init_def Let_def setSupplyExclusive_def split: option.splits if_splits)
  have "thread_of (pkts (the_heap c1) ! p) = tid"
    using thread_of_nat [OF tid t] c1 by (auto simp: new_pkt_def)
  moreover have "getWriteBuffer tid c1 = Some q" "split_rport c1" "blocked_array c1 = None"
    using c1 q(1) null by (auto simp: new_pkt_def c0_def getWriteBuffer_def)
  ultimately have "allocateWriteBuffer (e_now e) p (e_now e) True c1 = None"
    using allocateWriteBuffer_full q(2) by blast
  then show ?thesis using Some x c1 by (simp add: buffer_writeback_def c0_def)
qed

lemma buffer_writeback_no_room:
  assumes "wb_room tid 0 c" "split_rport c" "blocked_array c = None" "tid < 2 ^ 32"
  shows "buffer_writeback e i tid c = None"
proof -
  obtain ws where "writeBuffer c = PerThread ws" "tid < length ws"
    "allocated (ws ! tid) + int 0 = numEntries (ws ! tid) - numReserve (ws ! tid)"
    using assms(1) by (auto simp: wb_room_def)
  then show ?thesis
    using assms(2-4) by (intro buffer_writeback_full [of _ _ "ws ! tid"]) (simp_all add: getWriteBuffer_def at_def)
qed

subsection \<open>Growing the Low partition\<close>

text \<open>The block that a resize has just moved to the end of set \<open>i\<close> of partition \<open>g\<close>.\<close>

definition moved :: "nat \<Rightarrow> 'a LRU_scheme \<Rightarrow> nat \<Rightarrow> nat" where
  "moved g s i = last (way_of s g i)"

definition blk_of :: "nat \<Rightarrow> 'a LRU_scheme \<Rightarrow> nat \<Rightarrow> CacheBlk" where
  "blk_of g s i = blks s ! moved g s i"

definition dirty_sets :: "nat \<Rightarrow> 'a LRU_scheme \<Rightarrow> nat \<Rightarrow> nat list" where
  "dirty_sets g s k = filter (\<lambda>i. isDirty (blk_of g s i) \<and> isValid (blk_of g s i)) [0..<k]"

lemma way_of_blks [simp]: "way_of (s \<lparr>blks := bl\<rparr>) g i = way_of s g i"
  by (simp add: way_of_def set_at_def)

lemma moved_props:
  assumes inv: "cdyn_inv s" and i: "i < unat (numSets s)" and g: "g = 0 \<or> g = 1"
  shows "C_get_evictBlk g i (s \<lparr>blks := bl\<rparr>) = Some (moved g s i)" "moved g s i < length (blks s)"
    "moved g s i \<notin> moved g s ` {..<i}"
proof -
  let ?n = "\<lambda>i. length (way_of s g i)"
  have w: "way_of s g i \<noteq> []" "in_range s (g, i)" "?n i = (if g = 0 then unat (L_assoc s) else unat (H_assoc s))"
    "set (way_of s g i) \<subseteq> {..<length (blks s)}" if "i < unat (numSets s)" for i
    using inv g that by (auto simp: cdyn_inv_def in_range_def)
  have pos: "0 < unat (L_assoc s)" "0 < unat (H_assoc s)" using inv by (simp_all add: cdyn_inv_def)
  show "C_get_evictBlk g i (s \<lparr>blks := bl\<rparr>) = Some (moved g s i)"
    using w(1-3) [OF i] g pos
    by (auto simp: C_get_evictBlk_def moved_def way_of_def at_def last_conv_nth in_range_def set_at_def Let_def)
  have m: "moved g s i \<in> set (way_of s g i)" if "i < unat (numSets s)" for i
    using w(1) [OF that] by (simp add: moved_def)
  show "moved g s i < length (blks s)" using m [OF i] w(4) [OF i] by auto
  have "moved g s j \<noteq> moved g s i" if "j < unat (numSets s)" "j \<noteq> i" for j
  proof -
    have "set (way_of s 0 i @ way_of s 1 i) \<inter> set (way_of s 0 j @ way_of s 1 j) = {}"
      using inv i that by (simp add: cdyn_inv_def del: set_append)
    then show ?thesis using m [OF that(1)] m [OF i] g by auto
  qed
  then show "moved g s i \<notin> moved g s ` {..<i}" using i by (auto simp: image_iff) (metis less_trans nat_neq_iff)
qed

lemma C_inc_sets_room:
  fixes c :: C_Cache
  defines "s \<equiv> tags (cache c)"
  assumes inv: "cdyn_inv s" and wf: "\<forall>b \<in> set (blks s). blk_wf (c_blkSize (cache c)) b" and sz: "0 \<le>s c_blkSize (cache c)"
  shows "k \<le> unat (numSets s) \<Longrightarrow> wb_room 1 (n + length (dirty_sets 0 s k)) c \<Longrightarrow>
    \<exists>c' bl. C_inc_sets e k c = Some c' \<and> wb_room 1 n c'
      \<and> buffered 1 c' = buffered 1 c @ map (\<lambda>i. (home s (blk_of 0 s i), blk_data (blk_of 0 s i))) (dirty_sets 0 s k)
      \<and> same_cache (set_tags (s \<lparr>blks := bl\<rparr>) c) c' \<and> length bl = length (blks s)
      \<and> (\<forall>p < length bl. bl ! p = (if p \<in> moved 0 s ` {..<k} then cleaned (blks s ! p) else blks s ! p))"
proof (induction k arbitrary: n)
  case 0
  then show ?case by (intro exI [of _ c] exI [of _ "blks s"]) (simp add: dirty_sets_def same_cache_def s_def)
next
  case (Suc k)
  let ?b = "blk_of 0 s k" and ?d = "isDirty (blk_of 0 s k) \<and> isValid (blk_of 0 s k)"
  have k: "k < unat (numSets s)" using Suc.prems(1) by simp
  note m = moved_props [OF inv k, of 0, simplified]
  have ds: "dirty_sets 0 s (Suc k) = dirty_sets 0 s k @ (if ?d then [k] else [])" by (simp add: dirty_sets_def)
  define n' where "n' = (if ?d then Suc n else n)"
  have "wb_room 1 (n' + length (dirty_sets 0 s k)) c" using Suc.prems(2) by (cases ?d) (auto simp add: ds n'_def)
  then obtain c1 bl where c1: "C_inc_sets e k c = Some c1" "wb_room 1 n' c1"
    "buffered 1 c1 = buffered 1 c @ map (\<lambda>i. (home s (blk_of 0 s i), blk_data (blk_of 0 s i))) (dirty_sets 0 s k)"
    "same_cache (set_tags (s \<lparr>blks := bl\<rparr>) c) c1" "length bl = length (blks s)"
    "\<And>p. p < length bl \<Longrightarrow> bl ! p = (if p \<in> moved 0 s ` {..<k} then cleaned (blks s ! p) else blks s ! p)"
    using Suc.IH [of n'] k by auto
  have t: "tags (cache c1) = s \<lparr>blks := bl\<rparr>" "c_blkSize (cache c1) = c_blkSize (cache c)"
    using c1(4) by (simp_all add: same_cache_def)
  have b: "at bl (moved 0 s k) = Some ?b" using c1(5,6) m(2,3) by (simp add: at_def blk_of_def)
  let ?bl = "bl[moved 0 s k := cleaned ?b]"
  have bl: "?bl ! p = (if p \<in> moved 0 s ` {..<Suc k} then cleaned (blks s ! p) else blks s ! p)" if "p < length ?bl" for p
    using that c1(5) c1(6) [of p] m(2) by (auto simp: nth_list_update lessThan_Suc blk_of_def)
  show ?case
  proof (cases ?d)
    case True
    have "?b \<in> set (blks s)" using m(2) by (simp add: blk_of_def)
    then obtain c2 where "buffer_writeback e (moved 0 s k) 1 c1 = Some c2" "wb_room 1 n c2"
      "buffered 1 c2 = buffered 1 c1 @ [(home s ?b, blk_data ?b)]" "same_cache (set_tags (s \<lparr>blks := ?bl\<rparr>) c1) c2"
      using buffer_writeback_room [where tid = 1 and n = n and c = c1 and i = "moved 0 s k" and b = ?b and e = e] c1(2) b True wf sz t
      by (auto simp: n'_def home_def regenerateBlkAddr_def)
    then show ?thesis
      using c1(1,3-5) t True b m(1) bl
      by (intro exI [of _ c2] exI [of _ ?bl]) (simp add: ds same_cache_def)
  next
    case False
    then have "cleaned ?b = ?b" by (auto simp: cleaned_def)
    then have "?bl = bl" using b by (simp add: at_def split: if_splits) (metis list_update_id)
    then show ?thesis
      using c1(1-5) t False b m(1) bl
      by (intro exI [of _ c1] exI [of _ ?bl]) (auto simp add: ds n'_def)
  qed
qed

lemma C_inc_sets_full:
  fixes c :: C_Cache
  defines "s \<equiv> tags (cache c)"
  assumes inv: "cdyn_inv s" and wf: "\<forall>b \<in> set (blks s). blk_wf (c_blkSize (cache c)) b" and sz: "0 \<le>s c_blkSize (cache c)"
    and room: "wb_room 1 n c" and null: "split_rport c" "blocked_array c = None"
  shows "k \<le> unat (numSets s) \<Longrightarrow> n < length (dirty_sets 0 s k) \<Longrightarrow> C_inc_sets e k c = None"
proof (induction k)
  case (Suc k)
  let ?d = "isDirty (blk_of 0 s k) \<and> isValid (blk_of 0 s k)"
  have k: "k < unat (numSets s)" using Suc.prems(1) by simp
  have ds: "dirty_sets 0 s (Suc k) = dirty_sets 0 s k @ (if ?d then [k] else [])" by (simp add: dirty_sets_def)
  show ?case
  proof (cases "n < length (dirty_sets 0 s k)")
    case True
    then show ?thesis using Suc.IH k by simp
  next
    case False
    then have n: "n = 0 + length (dirty_sets 0 s k)" "?d" using Suc.prems(2) ds by (auto split: if_splits)
    obtain c1 bl where c1: "C_inc_sets e k c = Some c1" "wb_room 1 0 c1"
      "same_cache (set_tags (s \<lparr>blks := bl\<rparr>) c) c1" "length bl = length (blks s)"
      "\<And>p. p < length bl \<Longrightarrow> bl ! p = (if p \<in> moved 0 s ` {..<k} then cleaned (blks s ! p) else blks s ! p)"
      using C_inc_sets_room [where c = c, folded s_def, OF inv wf sz, of k 0 e] room k unfolding n(1) by auto
    note m = moved_props [OF inv k, of 0, simplified]
    have "at bl (moved 0 s k) = Some (blk_of 0 s k)" using c1(4,5) m(2,3) by (simp add: at_def blk_of_def)
    then show ?thesis
      using c1(1,3) m(1) n(2) buffer_writeback_no_room [OF c1(2)] null by (simp add: same_cache_def)
  qed
qed (simp add: dirty_sets_def)

subsection \<open>Shrinking the Low partition\<close>

definition inv_blk :: "CacheBlk \<Rightarrow> CacheBlk" where
  "inv_blk b = clearLoadLocks (b \<lparr>srcMasterId := (if isValid b then unat invldMasterId else srcMasterId b),
     status := 0, isTouched := False\<rparr>)"

text \<open>What becomes of a block that the High partition takes over.\<close>

definition handed :: "CacheBlk \<Rightarrow> CacheBlk" where
  "handed b = (if blk_threadID b = 0 then (inv_blk (cleaned b)) \<lparr>blk_threadID := 1\<rparr> else b)"

definition with_blks :: "blk_store \<Rightarrow> C_DYNALRU \<Rightarrow> C_DYNALRU \<Rightarrow> C_DYNALRU" where
  "with_blks bl s0 s = s \<lparr>tagsInUse := tagsInUse s0, occupancies := occupancies s0, blks := bl\<rparr>"

definition low_dirty :: "C_DYNALRU \<Rightarrow> nat \<Rightarrow> nat list" where
  "low_dirty s k = filter (\<lambda>i. blk_threadID (blk_of 1 s i) = 0 \<and> isDirty (blk_of 1 s i) \<and> isValid (blk_of 1 s i)) [0..<k]"

lemma cleaned_simps [simp]:
  "isValid (cleaned b) = isValid b" "blk_threadID (cleaned b) = blk_threadID b" "blk_set (cleaned b) = blk_set b"
  "srcMasterId (cleaned b) = srcMasterId b" "blk_data (cleaned b) = blk_data b" "tag (cleaned b) = tag b"
proof -
  have "(status b AND NOT BlkDirty) AND BlkValid = status b AND BlkValid"
    by (simp add: blk_bits and.assoc)
  then show "isValid (cleaned b) = isValid b" by (simp add: cleaned_def isValid_def)
qed (simp_all add: cleaned_def)

lemma handed_invalid: "blk_threadID b = 0 \<Longrightarrow> \<not> isValid (handed b) \<and> blk_threadID (handed b) = 1"
  by (simp add: handed_def inv_blk_def clearLoadLocks_def isValid_def)

text \<open>A block at the tail of its High set is invalidated in place.\<close>

lemma invalidate_tail:
  fixes s :: C_DYNALRU and k :: nat
  defines "p \<equiv> moved 1 s k"
  assumes inv: "cdyn_inv s" and k: "k < unat (numSets s)" and bl: "at bl p = Some b"
    and b: "isValid b \<Longrightarrow> blk_set b = int k \<and> srcMasterId b < length (occupancies s0)"
  shows "\<exists>s1. invalidateBlk C_vt (Some p) 1 (with_blks bl s0 s) = Some (with_blks (bl[p := inv_blk b]) s1 s)
    \<and> length (occupancies s1) = length (occupancies s0)"
proof (cases "isValid b")
  case True
  let ?s1 = "s0 \<lparr>tagsInUse := tagsInUse s0 - 1,
    occupancies := (occupancies s0)[srcMasterId b := occupancies s0 ! srcMasterId b - 1]\<rparr>"
  have c: "set_at s (1, k) = \<lparr>set_assoc = unat (H_assoc s), ways = way_of s 1 k\<rparr>" "length (way_of s 1 k) = unat (H_assoc s)"
    "0 < unat (H_assoc s)" "in_range s (1, k)"
    using inv k by (simp_all add: cdyn_inv_def in_range_def)
  then have "way_of s 1 k ! (unat (H_assoc s) - 1) = p"
    by (metis last_conv_nth length_0_conv less_numeral_extra(3) moved_def p_def)
  then have "moveToTail p (set_at s (1, k)) = Some (set_at s (1, k))" using c by (simp add: moveToTail_def at_def)
  moreover have "slot C_vt k 1 = (1, k)" by (simp add: C_vt_def)
  ultimately have "invalidateBlk C_vt (Some p) 1 (with_blks bl s0 s) = Some (with_blks (bl[p := inv_blk b]) ?s1 s)"
    using True b bl c(4)
    by (simp add: invalidateBlk_def with_blks_def get_set_def in_range_def set_at_def inv_blk_def Let_def upd_at_def)
  then show ?thesis by (intro exI [of _ ?s1]) simp
next
  case False
  then show ?thesis using bl
    by (intro exI [of _ s0]) (simp add: invalidateBlk_def with_blks_def inv_blk_def Let_def)
qed

lemma with_blks_simps [simp]:
  "blks (with_blks bl s0 s) = bl" "way_of (with_blks bl s0 s) g i = way_of s g i"
  "occupancies (with_blks bl s0 s) = occupancies s0" "home (with_blks bl s0 s) b = home s b"
  "(with_blks bl s0 s) \<lparr>blks := bl'\<rparr> = with_blks bl' s0 s" "with_blks (blks s) s s = s"
  by (simp_all add: with_blks_def way_of_def set_at_def home_def regenerateBlkAddr_def)

lemma get_evict_with [simp]: "C_get_evictBlk g i (with_blks bl s0 s) = C_get_evictBlk g i (s \<lparr>blks := bl\<rparr>)"
  by (simp add: with_blks_def C_get_evictBlk_def in_range_def set_at_def)

text \<open>The blocks that a shrinking takes over know their set and their requestor.\<close>

definition tail_wf :: "C_DYNALRU \<Rightarrow> bool" where
  "tail_wf s \<longleftrightarrow> (\<forall>i < unat (numSets s). isValid (blk_of 1 s i) \<longrightarrow> blk_set (blk_of 1 s i) = int i
     \<and> srcMasterId (blk_of 1 s i) < length (occupancies s))"

lemma C_dec_sets_room:
  fixes c :: C_Cache
  defines "s \<equiv> tags (cache c)"
  assumes inv: "cdyn_inv s" and wf: "\<forall>b \<in> set (blks s). blk_wf (c_blkSize (cache c)) b" "tail_wf s"
    and sz: "0 \<le>s c_blkSize (cache c)"
  shows "k \<le> unat (numSets s) \<Longrightarrow> wb_room 0 (n + length (low_dirty s k)) c \<Longrightarrow>
    \<exists>c' bl s0. C_dec_sets e k c = Some c' \<and> wb_room 0 n c'
      \<and> buffered 0 c' = buffered 0 c @ map (\<lambda>i. (home s (blk_of 1 s i), blk_data (blk_of 1 s i))) (low_dirty s k)
      \<and> same_cache (set_tags (with_blks bl s0 s) c) c' \<and> length (occupancies s0) = length (occupancies s)
      \<and> length bl = length (blks s)
      \<and> (\<forall>p < length bl. bl ! p = (if p \<in> moved 1 s ` {..<k} then handed (blks s ! p) else blks s ! p))"
proof (induction k arbitrary: n)
  case 0
  then show ?case
    by (intro exI [of _ c] exI [of _ "blks s"] exI [of _ s]) (simp add: low_dirty_def same_cache_def s_def)
next
  case (Suc k)
  let ?b = "blk_of 1 s k" and ?p = "moved 1 s k"
  let ?d = "blk_threadID ?b = 0 \<and> isDirty ?b \<and> isValid ?b"
  have k: "k < unat (numSets s)" using Suc.prems(1) by simp
  note m = moved_props [OF inv k, of 1, simplified]
  have ds: "low_dirty s (Suc k) = low_dirty s k @ (if ?d then [k] else [])" by (simp add: low_dirty_def)
  define n' where "n' = (if ?d then Suc n else n)"
  have "wb_room 0 (n' + length (low_dirty s k)) c" using Suc.prems(2) by (cases ?d) (auto simp add: ds n'_def)
  then obtain c1 bl s0 where c1: "C_dec_sets e k c = Some c1" "wb_room 0 n' c1"
    "buffered 0 c1 = buffered 0 c @ map (\<lambda>i. (home s (blk_of 1 s i), blk_data (blk_of 1 s i))) (low_dirty s k)"
    "same_cache (set_tags (with_blks bl s0 s) c) c1" "length (occupancies s0) = length (occupancies s)"
    "length bl = length (blks s)"
    "\<And>p. p < length bl \<Longrightarrow> bl ! p = (if p \<in> moved 1 s ` {..<k} then handed (blks s ! p) else blks s ! p)"
    using Suc.IH [of n'] k by auto
  have t: "tags (cache c1) = with_blks bl s0 s" "c_blkSize (cache c1) = c_blkSize (cache c)"
    using c1(4) by (simp_all add: same_cache_def)
  have b: "at bl ?p = Some ?b" "?b \<in> set (blks s)" using c1(6,7) m(2,3) by (simp_all add: at_def blk_of_def)
  let ?bl = "bl[?p := handed ?b]"
  have bl: "\<forall>p < length ?bl. ?bl ! p = (if p \<in> moved 1 s ` {..<Suc k} then handed (blks s ! p) else blks s ! p)"
    using c1(6,7) m(2) by (auto simp: nth_list_update lessThan_Suc blk_of_def)
  show ?case
  proof (cases "blk_threadID ?b = 0")
    case low: True
    have "\<exists>c2. (if isDirty ?b \<and> isValid ?b then buffer_writeback e ?p 0 c1 else Some c1) = Some c2 \<and> wb_room 0 n c2
      \<and> buffered 0 c2 = buffered 0 c1 @ (if ?d then [(home s ?b, blk_data ?b)] else [])
      \<and> same_cache (set_tags (with_blks (bl[?p := cleaned ?b]) s0 s) c1) c2"
    proof (cases "isDirty ?b \<and> isValid ?b")
      case True
      then show ?thesis
        using buffer_writeback_room [where tid = 0 and n = n and c = c1 and i = ?p and b = ?b and e = e] c1(2) b low wf(1) sz t
        by (auto simp: n'_def)
    next
      case False
      then have "cleaned ?b = ?b" by (auto simp: cleaned_def)
      moreover have "bl[?p := ?b] = bl" using b(1) by (simp add: at_def split: if_splits) (metis list_update_id)
      ultimately show ?thesis using False c1(2) t by (intro exI [of _ c1]) (auto simp: n'_def same_cache_def)
    qed
    then obtain c2 where c2: "(if isDirty ?b \<and> isValid ?b then buffer_writeback e ?p 0 c1 else Some c1) = Some c2"
      "wb_room 0 n c2" "buffered 0 c2 = buffered 0 c1 @ (if ?d then [(home s ?b, blk_data ?b)] else [])"
      "same_cache (set_tags (with_blks (bl[?p := cleaned ?b]) s0 s) c1) c2" by blast
    have pl: "?p < length bl" using m(2) c1(6) by simp
    then have at: "at (bl[?p := cleaned ?b]) ?p = Some (cleaned ?b)" by (simp add: at_def)
    obtain s1 where s1: "invalidateBlk C_vt (Some ?p) 1 (with_blks (bl[?p := cleaned ?b]) s0 s)
        = Some (with_blks (bl[?p := inv_blk (cleaned ?b)]) s1 s)" "length (occupancies s1) = length (occupancies s0)"
      using invalidate_tail [OF inv k at, of s0] wf(2) k c1(5) by (auto simp: tail_wf_def)
    define c3 where "c3 = set_tags (with_blks ?bl s1 s) c2"
    have t2: "tags (cache c2) = with_blks (bl[?p := cleaned ?b]) s0 s" using c2(4) by (simp add: same_cache_def)
    have "C_dec_sets e (Suc k) c = Some c3"
      using c1(1) t(1) m(1) b(1) low c2(1) t2 s1(1) pl
      by (cases "isDirty ?b \<and> isValid ?b") (auto simp: c3_def handed_def at_def)
    moreover have "wb_room 0 n c3" "buffered 0 c3 = buffered 0 c2"
      using c2(2) by (simp_all add: c3_def set_tags_buffer)
    ultimately show ?thesis
      using c1(3-6) c2(3,4) s1(2) bl
      by (intro exI [of _ c3] exI [of _ ?bl] exI [of _ s1]) (auto simp: ds c3_def same_cache_def)
  next
    case False
    then have "?bl = bl" using b(1) by (simp add: handed_def at_def split: if_splits) (metis list_update_id)
    then show ?thesis
      using c1(1-6) t False b(1) m(1) bl
      by (intro exI [of _ c1] exI [of _ ?bl] exI [of _ s0]) (auto simp: ds n'_def)
  qed
qed

subsection \<open>Properties\<close>

text \<open>
  C21: Growing the Low partition appends the address and bytes of every modified block
  that leaves High to the write buffer of High, in the order of the sets, leaves these
  blocks clean with their bytes, and otherwise yields the store of the tags' own
  resizing; with more modified blocks than the buffer takes without being full it
  dereferences the null pointer blocked_array.
\<close>

theorem C_inc_size_writes_back:
  fixes c :: C_Cache
  assumes "cdyn_inv (tags (cache c))" "H_assoc (tags (cache c)) \<noteq> H_min (tags (cache c))"
    and "\<forall>b \<in> set (blks (tags (cache c))). blk_wf (c_blkSize (cache c)) b" "0 \<le>s c_blkSize (cache c)"
    and "wb_room 1 n c" "split_rport c" "blocked_array c = None"
  shows "\<exists>t. C_inc_size (tags (cache c)) = Some (numSets t, t) \<and> cdyn_inv t
    \<and> (let D = dirty_sets 0 t (unat (numSets t)) in
       if n < length D then C_cache_inc_size e c = None
       else \<exists>c'. C_cache_inc_size e c = Some c' \<and> wb_room 1 (n - length D) c'
         \<and> buffered 1 c' = buffered 1 c @ map (\<lambda>i. (home t (blk_of 0 t i), blk_data (blk_of 0 t i))) D
         \<and> tags (cache c') = t \<lparr>blks := blks (tags (cache c'))\<rparr>
         \<and> (\<forall>p < length (blks t). blks (tags (cache c')) ! p
              = (if p \<in> moved 0 t ` {..<unat (numSets t)} then cleaned (blks t ! p) else blks t ! p)))"
proof -
  let ?s = "tags (cache c)"
  obtain t where t: "C_inc_size ?s = Some (numSets ?s, t)" "cdyn_inv t"
    "t = ?s \<lparr>L_assoc := L_assoc t, H_assoc := H_assoc t, sets := sets t\<rparr>"
    using C_inc_size_eq [OF assms(1,2)] by blast
  have f: "blks t = blks ?s" "numSets t = numSets ?s" by (subst t(3); simp)+
  define c0 where "c0 = set_tags t c"
  have c0: "tags (cache c0) = t" "c_blkSize (cache c0) = c_blkSize (cache c)" "wb_room 1 k c0 = wb_room 1 k c"
    "buffered 1 c0 = buffered 1 c" "split_rport c0" "blocked_array c0 = None" for k
    using assms(6,7) by (simp_all add: c0_def set_tags_buffer)
  have run: "C_cache_inc_size e c = C_inc_sets e (unat (numSets t)) c0"
    using t(1) by (simp add: C_cache_inc_size_def c0_def f(2))
  define D where "D = dirty_sets 0 t (unat (numSets t))"
  note pre = t(2) [folded c0(1)] assms(3) [folded f(1) c0(1,2)] assms(4) [folded c0(2)]
  have "if n < length D then C_cache_inc_size e c = None
       else \<exists>c'. C_cache_inc_size e c = Some c' \<and> wb_room 1 (n - length D) c'
         \<and> buffered 1 c' = buffered 1 c @ map (\<lambda>i. (home t (blk_of 0 t i), blk_data (blk_of 0 t i))) D
         \<and> tags (cache c') = t \<lparr>blks := blks (tags (cache c'))\<rparr>
         \<and> (\<forall>p < length (blks t). blks (tags (cache c')) ! p
              = (if p \<in> moved 0 t ` {..<unat (numSets t)} then cleaned (blks t ! p) else blks t ! p))"
  proof (cases "n < length D")
    case True
    then show ?thesis
      using C_inc_sets_full [OF pre, of n "unat (numSets t)" e] assms(5) c0 run by (simp add: D_def)
  next
    case False
    then obtain c' bl where "C_inc_sets e (unat (numSets t)) c0 = Some c'" "wb_room 1 (n - length D) c'"
      "buffered 1 c' = buffered 1 c @ map (\<lambda>i. (home t (blk_of 0 t i), blk_data (blk_of 0 t i))) D"
      "same_cache (set_tags (t \<lparr>blks := bl\<rparr>) c0) c'" "length bl = length (blks t)"
      "\<forall>p < length bl. bl ! p = (if p \<in> moved 0 t ` {..<unat (numSets t)} then cleaned (blks t ! p) else blks t ! p)"
      using C_inc_sets_room [OF pre, of "unat (numSets t)" "n - length D" e] assms(5) c0 by (auto simp: D_def)
    then show ?thesis using False run by (auto simp: same_cache_def)
  qed
  then show ?thesis using t(1,2) f(2) by (auto simp: D_def Let_def)
qed

lemma C_cache_dec_size_eq:
  fixes c :: C_Cache
  assumes "cdyn_inv (tags (cache c))" "L_assoc (tags (cache c)) \<noteq> 1" "C_dec_size (tags (cache c)) = Some (numSets t, t)"
    and "\<forall>b \<in> set (blks t). blk_wf (c_blkSize (cache c)) b" "tail_wf t" "0 \<le>s c_blkSize (cache c)"
    and "wb_room 0 (n + length (low_dirty t (unat (numSets t)))) c"
  obtains c' bl s0 where "C_cache_dec_size e c = Some c'" "wb_room 0 n c'"
    "buffered 0 c' = buffered 0 c @ map (\<lambda>i. (home t (blk_of 1 t i), blk_data (blk_of 1 t i))) (low_dirty t (unat (numSets t)))"
    "tags (cache c') = with_blks bl s0 t" "cdyn_inv t" "length bl = length (blks t)"
    "\<forall>p < length bl. bl ! p = (if p \<in> moved 1 t ` {..<unat (numSets t)} then handed (blks t ! p) else blks t ! p)"
    "blks t = blks (tags (cache c))" "numSets t = numSets (tags (cache c))"
    "\<forall>i < unat (numSets t). way_of t 1 i = way_of (tags (cache c)) 1 i @ [last (way_of (tags (cache c)) 0 i)]"
proof -
  let ?s = "tags (cache c)"
  have t: "cdyn_inv t" "t = ?s \<lparr>L_assoc := L_assoc t, H_assoc := H_assoc t, sets := sets t\<rparr>"
    "\<forall>i < unat (numSets ?s). way_of t 1 i = way_of ?s 1 i @ [last (way_of ?s 0 i)]"
    using C_dec_size_eq [OF assms(1,2)] assms(3) by auto
  have f: "blks t = blks ?s" "numSets t = numSets ?s" by (subst t(2); simp)+
  define c0 where "c0 = set_tags t c"
  have c0: "tags (cache c0) = t" "c_blkSize (cache c0) = c_blkSize (cache c)" "wb_room 0 k c0 = wb_room 0 k c"
    "buffered 0 c0 = buffered 0 c" for k
    by (simp_all add: c0_def set_tags_buffer)
  obtain c' bl s0 where c': "C_dec_sets e (unat (numSets t)) c0 = Some c'" "wb_room 0 n c'"
    "buffered 0 c' = buffered 0 c @ map (\<lambda>i. (home t (blk_of 1 t i), blk_data (blk_of 1 t i))) (low_dirty t (unat (numSets t)))"
    "same_cache (set_tags (with_blks bl s0 t) c0) c'" "length bl = length (blks t)"
    "\<forall>p < length bl. bl ! p = (if p \<in> moved 1 t ` {..<unat (numSets t)} then handed (blks t ! p) else blks t ! p)"
    using C_dec_sets_room [of c0 "unat (numSets t)" n e] t(1) assms(4-7) c0 by auto
  have "C_cache_dec_size e c = Some c'" using assms(3) c'(1) by (simp add: C_cache_dec_size_def c0_def)
  moreover have "tags (cache c') = with_blks bl s0 t" using c'(4) by (simp add: same_cache_def)
  ultimately show thesis using that [of c' bl s0] c'(2,3,5,6) t(1,3) f by auto
qed

text \<open>
  Shrinking the Low partition hands every Low block that changes sides to High as
  an invalid block of thread 1, appends exactly the modified ones to the write buffer of
  Low, and leaves all other blocks as they are.
\<close>

theorem C_dec_size_hands_over:
  fixes c :: C_Cache
  assumes "cdyn_inv (tags (cache c))" "L_assoc (tags (cache c)) \<noteq> 1" "C_dec_size (tags (cache c)) = Some (numSets t, t)"
    and "\<forall>b \<in> set (blks t). blk_wf (c_blkSize (cache c)) b" "tail_wf t" "0 \<le>s c_blkSize (cache c)"
    and "wb_room 0 (n + length (low_dirty t (unat (numSets t)))) c"
  shows "\<exists>c'. C_cache_dec_size e c = Some c' \<and> wb_room 0 n c'
    \<and> buffered 0 c' = buffered 0 c
        @ map (\<lambda>i. (home t (blk_of 1 t i), blk_data (blk_of 1 t i))) (low_dirty t (unat (numSets t)))
    \<and> (\<forall>i < unat (numSets t). way_of (tags (cache c')) 0 i = way_of t 0 i \<and> way_of (tags (cache c')) 1 i = way_of t 1 i
        \<and> (blk_threadID (blk_of 1 t i) = 0 \<longrightarrow> \<not> isValid (blk_of 1 (tags (cache c')) i)
             \<and> blk_threadID (blk_of 1 (tags (cache c')) i) = 1))
    \<and> (\<forall>p < length (blks t). p \<notin> moved 1 t ` {..<unat (numSets t)} \<or> blk_threadID (blks t ! p) \<noteq> 0
          \<longrightarrow> blks (tags (cache c')) ! p = blks t ! p)"
proof -
  obtain c' bl s0 where c': "C_cache_dec_size e c = Some c'" "wb_room 0 n c'"
    "buffered 0 c' = buffered 0 c @ map (\<lambda>i. (home t (blk_of 1 t i), blk_data (blk_of 1 t i))) (low_dirty t (unat (numSets t)))"
    "tags (cache c') = with_blks bl s0 t" "cdyn_inv t" "length bl = length (blks t)"
    "\<forall>p < length bl. bl ! p = (if p \<in> moved 1 t ` {..<unat (numSets t)} then handed (blks t ! p) else blks t ! p)"
    by (rule C_cache_dec_size_eq [OF assms, of e])
  have "\<not> isValid (bl ! moved 1 t i) \<and> blk_threadID (bl ! moved 1 t i) = 1"
    if "i < unat (numSets t)" "blk_threadID (blk_of 1 t i) = 0" for i
    using that moved_props(2) [OF c'(5) that(1), of 1] handed_invalid c'(6,7) by (auto simp: blk_of_def)
  then show ?thesis
    using c'(1-3,6,7) by (auto simp: c'(4) blk_of_def moved_def handed_def)
qed

text \<open>
  C36: A High block that an earlier growth left in the Low partition comes back valid
  when Low shrinks, also when High has fetched its address again: the High set then
  holds two valid blocks with one tag.
\<close>

theorem resize_stale_copy:
  fixes c :: C_Cache
  assumes "cdyn_inv (tags (cache c))" "L_assoc (tags (cache c)) \<noteq> 1" "C_dec_size (tags (cache c)) = Some (numSets t, t)"
    and "\<forall>b \<in> set (blks t). blk_wf (c_blkSize (cache c)) b" "tail_wf t" "0 \<le>s c_blkSize (cache c)"
    and "wb_room 0 (n + length (low_dirty t (unat (numSets t)))) c"
    and "i < unat (numSets t)" "p = last (way_of (tags (cache c)) 0 i)" "q \<in> set (way_of (tags (cache c)) 1 i)"
    and "blk_threadID (blks t ! p) = 1" "isValid (blks t ! p)"
    and "blk_threadID (blks t ! q) = 1" "isValid (blks t ! q)" "tag (blks t ! p) = tag (blks t ! q)"
  shows "\<exists>c'. C_cache_dec_size e c = Some c' \<and> p \<noteq> q \<and> {p, q} \<subseteq> set (way_of (tags (cache c')) 1 i)
    \<and> blks (tags (cache c')) ! p = blks t ! p \<and> blks (tags (cache c')) ! q = blks t ! q"
proof -
  let ?s = "tags (cache c)"
  obtain c' bl s0 where c': "C_cache_dec_size e c = Some c'"
    "tags (cache c') = with_blks bl s0 t" "length bl = length (blks t)"
    "\<forall>p < length bl. bl ! p = (if p \<in> moved 1 t ` {..<unat (numSets t)} then handed (blks t ! p) else blks t ! p)"
    "blks t = blks ?s" "numSets t = numSets ?s"
    "\<forall>i < unat (numSets t). way_of t 1 i = way_of ?s 1 i @ [last (way_of ?s 0 i)]"
    by (rule C_cache_dec_size_eq [OF assms(1-7), of e])
  have i: "i < unat (numSets ?s)" using assms(8) c'(6) by simp
  have w: "way_of ?s 0 i \<noteq> []" "distinct (way_of ?s 0 i @ way_of ?s 1 i)"
    "set (way_of ?s 0 i @ way_of ?s 1 i) \<subseteq> {..<length (blks ?s)}"
    using assms(1) i by (auto simp: cdyn_inv_def)
  then have p: "p \<in> set (way_of ?s 0 i)" using assms(9) by simp
  have pq: "p \<noteq> q" "p < length bl" "q < length bl" using w p assms(10) c'(3,5) by auto
  have "bl ! p = blks t ! p" "bl ! q = blks t ! q" using c'(4) pq assms(11,13) by (simp_all add: handed_def)
  then show ?thesis using c'(1,2,7) pq(1) assms(8-10) by simp
qed

subsection \<open>What the controller estimates\<close>

text \<open>The hits of the Low accesses of a trace in a Low partition of \<open>w\<close> ways on its own.\<close>

definition low_hits :: "nat \<Rightarrow> C_DYNALRU \<Rightarrow> (addr \<times> nat \<times> tick) list \<Rightarrow> nat" where
  "low_hits w s xs = ref_hits (\<lambda>i. replicate w None) (low_trace s xs)"

lemma accessBlock_assoc:
  "accessBlock C_vt a tid now s = Some (r, lat, s') \<Longrightarrow> L_assoc s' = L_assoc s"
  unfolding accessBlock_def Let_def bind_eq_Some_conv by (fastforce simp: upd_at_def bind_eq_Some_conv split: option.splits)

lemma umon_access_assoc: "umon_access i t s = Some s' \<Longrightarrow> L_assoc s' = L_assoc s"
  unfolding umon_access_def bind_eq_Some_conv by (fastforce simp: bind_eq_Some_conv split: option.splits if_splits)

lemma C_access_assoc: "C_accessBlock a tid now s = Some (r, lat, s') \<Longrightarrow> L_assoc s' = L_assoc s"
  using accessBlock_assoc umon_access_assoc by (fastforce simp: C_accessBlock_def bind_eq_Some_conv split: if_splits)

lemma C_run_assoc: "C_run xs s = Some s' \<Longrightarrow> L_assoc s' = L_assoc s"
proof (induction xs arbitrary: s)
  case (Cons x xs)
  obtain a tid now where x: "x = (a, tid, now)" by (cases x)
  obtain r lat s1 where s1: "C_accessBlock a tid now s = Some (r, lat, s1)" "C_run xs s1 = Some s'"
    using Cons.prems by (auto simp: x bind_eq_Some_conv)
  show ?case using Cons.IH [OF s1(2)] C_access_assoc [OF s1(1)] by simp
qed simp

lemma umon_counter_hits:
  assumes c: "C_ctor u raw nsets bsize asc hl la hmin = Inr s" "0 < unat la" "0 < unat hmin" "unat la + unat hmin \<le> unat asc"
    and xs: "\<forall>(a, tid, now) \<in> set xs. tid < 2" "length xs < 2 ^ 32"
  shows "\<exists>s'. C_run xs s = Some s' \<and> L_assoc s' = la \<and> length (umon_counters s') = unat asc
    \<and> (\<forall>w < unat asc. 0 < w \<longrightarrow> unat (umon_counters s' ! w) + low_hits w s xs = low_hits (Suc w) s xs)"
proof -
  note ok = C_ctor_ok [OF c]
  have pos: "0 < unat asc" using c(2,4) by simp
  note um = C_ctor_umon [OF c(1) pos]
  have sm: "\<forall>n \<in> set (umon_counters s). unat n + length xs < 2 ^ 32" using xs(2) um(3) by simp
  have run: "\<exists>s'. C_run xs s = Some s' \<and> umon_ok s' \<and> c_assoc s' = asc
      \<and> (\<Sum>k < w. unat (umon_counters s' ! k)) = low_hits w s xs" if "0 < w" "w \<le> unat asc" for w
  proof -
    have "ref_hits (\<lambda>i. take w (uview s i)) (low_trace s xs) = low_hits w s xs"
      unfolding low_hits_def by (rule ref_hits_cong [OF low_trace_range [OF ok(2)]]) (use um(4) that in \<open>simp add: min_def\<close>)
    moreover have "(\<Sum>k < w. unat (umon_counters s ! k)) = 0" using um(3) that by simp
    ultimately show ?thesis using C_run_sum [OF ok(2) um(1) xs(1) that(1) _ sm] that um(2) by auto
  qed
  obtain s' where s': "C_run xs s = Some s'" "umon_ok s'" "c_assoc s' = asc" using run [of "unat asc"] pos by auto
  have "unat (umon_counters s' ! w) + low_hits w s xs = low_hits (Suc w) s xs" if "0 < w" "w < unat asc" for w
    using run [of w] run [of "Suc w"] that s'(1) by auto
  moreover have "L_assoc s' = la" using C_run_assoc [OF s'(1)] ok by simp
  ultimately show ?thesis using s' by (auto simp: umon_ok_def)
qed

text \<open>
  C22: After any trace on a fresh coarse-grained cache, the estimates of adjustPartition
  are the differences of the hits of reference caches one way too large: growing from w
  ways is credited with the gain of way w + 2, shrinking is charged with the gain of way
  w + 1, and with one High way left the counters are read out of bounds.
\<close>

theorem adjustPartition_estimates:
  assumes "C_ctor u raw nsets bsize asc hl la hmin = Inr s" "0 < unat la" "0 < unat hmin" "unat la + unat hmin \<le> unat asc"
    and "\<forall>(a, tid, now) \<in> set xs. tid < 2" "length xs < 2 ^ 32"
  shows "\<exists>s'. C_run xs s = Some s' \<and> (let w = unat la; hits = (\<lambda>w. low_hits w s xs) in
      Udec curve asc s' = Some (curve (unat (asc - la)) (unat (asc - la + 1)) - of_nat (hits (w + 1) - hits w))
    \<and> Uinc curve asc s' = (if w + 1 = unat asc then None
        else Some (curve (unat (asc - la)) (unat (asc - la - 1)) + of_nat (hits (w + 2) - hits (w + 1)))))"
proof -
  obtain s' where s': "C_run xs s = Some s'" "L_assoc s' = la" "length (umon_counters s') = unat asc"
    "\<And>w. w < unat asc \<Longrightarrow> 0 < w \<Longrightarrow> unat (umon_counters s' ! w) + low_hits w s xs = low_hits (Suc w) s xs"
    using umon_counter_hits [OF assms] by blast
  have la: "la \<noteq> 0" "la \<noteq> asc" "unat la < unat asc" using assms(2-4) by auto
  have la1: "unat (la + 1) = unat la + 1" using unat_plus1 [OF la(3)] by simp
  have counter: "umon_counters s' ! w = of_nat (low_hits (Suc w) s xs - low_hits w s xs)" if "w < unat asc" "0 < w" for w
  proof -
    have "low_hits (Suc w) s xs - low_hits w s xs = unat (umon_counters s' ! w)" using s'(4) [OF that] by simp
    then show ?thesis by simp
  qed
  have "Udec curve asc s' = Some (curve (unat (asc - la)) (unat (asc - la + 1)) - of_nat (low_hits (unat la + 1) s xs - low_hits (unat la) s xs))"
    using counter [OF la(3) assms(2)] la s'(2,3) by (simp add: Udec_def Let_def curr_L_assoc_def lookup_umon_def at_def)
  moreover have "Uinc curve asc s' = (if unat la + 1 = unat asc then None
        else Some (curve (unat (asc - la)) (unat (asc - la - 1)) + of_nat (low_hits (unat la + 2) s xs - low_hits (unat la + 1) s xs)))"
    using counter [of "unat la + 1"] la la1 s'(2,3)
    by (auto simp: Uinc_def Let_def curr_L_assoc_def lookup_umon_def at_def)
  ultimately show ?thesis using s'(1) by (auto simp: Let_def)
qed

subsection \<open>Witnesses\<close>

definition sample_mshr :: MSHR where
  "sample_mshr = \<lparr>queue = 1, readyTime = 0, order = 0, m_addr = 0, m_size = 0, inService = False, isForward = False,
     m_isUncacheable = False, downstreamPending = False, pendingDirty = False, postInvalidate = False,
     postDowngrade = False, threadNum = -1, ntargets = 0, m_data = None, targets = TargetList_new,
     deferredTargets = TargetList_new\<rparr>"

definition sample_wb :: "nat \<Rightarrow> MSHRQueue" where
  "sample_wb i = \<lparr>label = ''write buffer'', registers = [2 * i, 2 * i + 1], allocatedList = [], readyList = [],
     freeList = [2 * i, 2 * i + 1], numEntries = 2, numReserve = 1, allocated = 0, inServiceEntries = 0, index = 1\<rparr>"

definition sample_ccache :: "C_DYNALRU \<Rightarrow> C_Cache" where
  "sample_ccache s = \<lparr>cache = \<lparr>tags = s, tempBlock = CacheBlk_new, c_blkSize = 4, c_hitLatency = 1, isTopLevel = False,
       mshrQueue = PerThread [], c_heap = \<lparr>pkts = [], mshrs = replicate 4 sample_mshr\<rparr>\<rparr>,
     writeBuffer = PerThread [sample_wb 0, sample_wb 1], memQueue = PacketQueue_new,
     reqQueues = [PacketQueue_new, PacketQueue_new],
     cpuSidePort = \<lparr>slaveQueue = PacketQueue_new, respQueues = [PacketQueue_new, PacketQueue_new], port_blocked = False,
       port_blocked_array = [False, False], mustSendRetry = False, sendRetryEvent = None\<rparr>,
     split_rport = True, blocked = 0, blocked_array = None, c_order = 0, numTarget = 4, forwardSnoops = False,
     noTargetMSHR = None, c_missCounter = 0, cw_first = False, fwdRecords = []\<rparr>"

definition sample_blk :: "32 word \<Rightarrow> nat \<Rightarrow> addr \<Rightarrow> byte list \<Rightarrow> CacheBlk" where
  "sample_blk st tid t d = CacheBlk_new \<lparr>status := st, blk_threadID := tid, tag := t, blk_data := d, blk_set := 0, srcMasterId := 0\<rparr>"

text \<open>One set; the partitions are the lists \<open>lo\<close> and \<open>hi\<close> of block numbers.\<close>

definition sample_cdyn :: "nat list \<Rightarrow> nat list \<Rightarrow> CacheBlk list \<Rightarrow> C_DYNALRU" where
  "sample_cdyn lo hi bl = raw_cdyn \<lparr>numSets := 1, blkSize := 4, L_assoc := of_nat (length lo), H_assoc := of_nat (length hi),
     c_assoc := of_nat (length lo + length hi), H_min := 1, setShift := 2, tagShift := 2, setMask := 0, blkMask := 3,
     sets := [[\<lparr>set_assoc = length lo, ways = lo\<rparr>], [\<lparr>set_assoc = length hi, ways = hi\<rparr>]], blks := bl\<rparr>"

lemma sample_cdyn_inv:
  assumes "lo \<noteq> []" "hi \<noteq> []" "length lo + length hi < 2 ^ 32" "distinct (lo @ hi)" "set (lo @ hi) \<subseteq> {..<length bl}"
  shows "cdyn_inv (sample_cdyn lo hi bl)" "way_of (sample_cdyn lo hi bl) 0 0 = lo" "way_of (sample_cdyn lo hi bl) 1 0 = hi"
proof -
  let ?s = "sample_cdyn lo hi bl"
  have pos: "0 < length lo" "0 < length hi" using assms(1,2) by simp_all
  have small: "length lo < 2 ^ 32" "length hi < 2 ^ 32" "unat (of_nat n :: 32 word) = n" if "n < 2 ^ 32" for n
    using assms(3) that by (simp_all add: unsigned_of_nat take_bit_nat_eq_self)
  have f: "unat (L_assoc ?s) = length lo" "unat (H_assoc ?s) = length hi" "unat (c_assoc ?s) = length lo + length hi"
    "unat (H_min ?s) = 1" "unat (numSets ?s) = 1" "blks ?s = bl"
    "sets ?s = [[\<lparr>set_assoc = length lo, ways = lo\<rparr>], [\<lparr>set_assoc = length hi, ways = hi\<rparr>]]"
    using small(3) [of "length lo"] small(3) [of "length hi"] small(3) [of "length lo + length hi"] assms(3)
    by (simp_all add: sample_cdyn_def del: of_nat_add)
  show "way_of ?s 0 0 = lo" "way_of ?s 1 0 = hi" by (simp_all add: f way_of_def set_at_def)
  then show "cdyn_inv ?s"
    unfolding cdyn_inv_def f using assms(4,5) pos by (auto simp: set_at_def f less_2_cases_iff Suc_le_eq)
qed

lemma sample_room: "tid < 2 \<Longrightarrow> wb_room tid 1 (sample_ccache s)"
proof -
  assume "tid < 2"
  then have "tid = 0 \<or> tid = 1" by auto
  moreover have "mshr_free sample_mshr" by (simp add: mshr_free_def sample_mshr_def)
  ultimately show ?thesis
    by (auto simp: wb_room_def sample_ccache_def isSplitMSHR_def sample_wb_def queue_ok_def at_def PacketQueue_new_def
        nth_Cons')
qed

lemmas sample_store_simps = sample_cdyn_def raw_cdyn_def sample_ccache_def sample_blk_def

definition dyn_env :: env where
  "dyn_env = \<lparr>raw_pkt = sample_pkt ReadReq 0 0 None, raw_req = sample_request, fresh = (\<lambda>_. 0), e_now = 7\<rparr>"

lemma sample_buffered: "tid < 2 \<Longrightarrow> buffered tid (sample_ccache s) = []"
  by (auto simp: buffered_def getWriteBuffer_def sample_ccache_def sample_wb_def at_def less_2_cases_iff)

text \<open>Growing Low by the modified last block of High: block 2, of address 20.\<close>

definition grow_cdyn :: C_DYNALRU where
  "grow_cdyn = sample_cdyn [0] [1, 2] [sample_blk 7 0 3 [9, 9, 9, 9], sample_blk 7 1 4 [8, 8, 8, 8], sample_blk 15 1 5 [1, 2, 3, 4]]"

lemma grow_blks: "blks grow_cdyn = [sample_blk 7 0 3 [9, 9, 9, 9], sample_blk 7 1 4 [8, 8, 8, 8], sample_blk 15 1 5 [1, 2, 3, 4]]"
  "numSets grow_cdyn = 1"
  by (simp_all add: grow_cdyn_def sample_cdyn_def)

theorem C_inc_size_writes_back_witness:
  "\<exists>t c'. C_inc_size grow_cdyn = Some (1, t) \<and> C_cache_inc_size dyn_env (sample_ccache grow_cdyn) = Some c'
    \<and> buffered 1 c' = [(20, [1, 2, 3, 4])] \<and> way_of t 0 0 = [0, 2]"
proof -
  have inv: "cdyn_inv grow_cdyn" "way_of grow_cdyn 0 0 = [0]" "way_of grow_cdyn 1 0 = [1, 2]"
    using sample_cdyn_inv [of "[0]" "[1, 2]"] by (simp_all add: grow_cdyn_def)
  have ne: "H_assoc grow_cdyn \<noteq> H_min grow_cdyn" by (simp add: grow_cdyn_def sample_cdyn_def)
  obtain t where t: "C_inc_size grow_cdyn = Some (numSets grow_cdyn, t)"
    "t = grow_cdyn \<lparr>L_assoc := L_assoc t, H_assoc := H_assoc t, sets := sets t\<rparr>" "way_of t 0 0 = [0, 2]"
    using C_inc_size_eq [OF inv(1) ne] inv(2,3) grow_blks(2) by auto
  have f: "blks t = blks grow_cdyn" "numSets t = 1" "tagShift t = 2" "setShift t = 2" "tagsInUse t = 0"
    by (subst t(2); simp add: grow_blks; simp add: grow_cdyn_def sample_cdyn_def raw_cdyn_def)+
  have b: "blk_of 0 t 0 = sample_blk 15 1 5 [1, 2, 3, 4]" by (simp add: blk_of_def moved_def t(3) f(1) grow_blks)
  have "isDirty (sample_blk 15 1 5 [1, 2, 3, 4])" "isValid (sample_blk 15 1 5 [1, 2, 3, 4])"
    by (simp_all add: sample_blk_def isDirty_def isValid_def blk_bits)
  then have D: "dirty_sets 0 t (unat (numSets t)) = [0]" by (simp add: dirty_sets_def b f(2))
  have home: "home t (sample_blk 15 1 5 [1, 2, 3, 4]) = 20"
    by (simp add: home_def regenerateBlkAddr_def f sample_blk_def)
  have "\<forall>b \<in> set (blks (tags (cache (sample_ccache grow_cdyn)))). blk_wf (c_blkSize (cache (sample_ccache grow_cdyn))) b"
    by (simp add: sample_ccache_def grow_blks blk_wf_def sample_blk_def)
  with C_inc_size_writes_back [of "sample_ccache grow_cdyn" 1 dyn_env] inv ne sample_room [of 1 grow_cdyn] t(1)
  obtain c' where "C_cache_inc_size dyn_env (sample_ccache grow_cdyn) = Some c'"
    "buffered 1 c' = buffered 1 (sample_ccache grow_cdyn) @ map (\<lambda>i. (home t (blk_of 0 t i), blk_data (blk_of 0 t i))) [0]"
    by (auto simp: sample_ccache_def D Let_def word_sle_eq)
  then show ?thesis using t(1,3) b home
      sample_buffered [of 1 grow_cdyn] by (auto simp: grow_blks sample_blk_def)
qed

text \<open>Shrinking Low: block 1 leaves it, modified by Low or left there by High.\<close>

definition shrink_cdyn :: "CacheBlk \<Rightarrow> C_DYNALRU" where
  "shrink_cdyn b = sample_cdyn [0, 1] [2] [sample_blk 7 0 3 [9, 9, 9, 9], b, sample_blk 15 1 4 [2, 2, 2, 2]]"

lemma shrink_facts:
  assumes "b = sample_blk st tid tg d" "length d = 4"
  obtains t where "cdyn_inv (tags (cache (sample_ccache (shrink_cdyn b))))"
    "L_assoc (tags (cache (sample_ccache (shrink_cdyn b)))) \<noteq> 1"
    "C_dec_size (tags (cache (sample_ccache (shrink_cdyn b)))) = Some (numSets t, t)"
    "\<forall>b' \<in> set (blks t). blk_wf (c_blkSize (cache (sample_ccache (shrink_cdyn b)))) b'" "tail_wf t"
    "0 \<le>s c_blkSize (cache (sample_ccache (shrink_cdyn b)))"
    "blks t = [sample_blk 7 0 3 [9, 9, 9, 9], b, sample_blk 15 1 4 [2, 2, 2, 2]]" "unat (numSets t) = 1"
    "way_of t 1 0 = [2, 1]" "tagShift t = 2" "setShift t = 2"
    "way_of (tags (cache (sample_ccache (shrink_cdyn b)))) 0 0 = [0, 1]"
    "way_of (tags (cache (sample_ccache (shrink_cdyn b)))) 1 0 = [2]"
proof -
  let ?s = "shrink_cdyn b"
  have tags: "tags (cache (sample_ccache ?s)) = ?s" "c_blkSize (cache (sample_ccache ?s)) = 4"
    by (simp_all add: sample_ccache_def)
  have s: "blks ?s = [sample_blk 7 0 3 [9, 9, 9, 9], b, sample_blk 15 1 4 [2, 2, 2, 2]]" "numSets ?s = 1"
    "tagShift ?s = 2" "setShift ?s = 2" "length (occupancies ?s) = 3" "L_assoc ?s \<noteq> 1"
    by (simp_all add: shrink_cdyn_def sample_cdyn_def raw_cdyn_def)
  have inv: "cdyn_inv ?s" "way_of ?s 0 0 = [0, 1]" "way_of ?s 1 0 = [2]"
    using sample_cdyn_inv [of "[0, 1]" "[2]"] by (simp_all add: shrink_cdyn_def)
  obtain t where t: "C_dec_size ?s = Some (numSets ?s, t)"
    "t = ?s \<lparr>L_assoc := L_assoc t, H_assoc := H_assoc t, sets := sets t\<rparr>" "way_of t 1 0 = [2, 1]"
    using C_dec_size_eq [OF inv(1) s(6)] inv(2,3) s(2) by auto
  have f: "blks t = blks ?s" "numSets t = numSets ?s" "tagShift t = 2" "setShift t = 2" "occupancies t = occupancies ?s"
    by (subst t(2); simp add: s)+
  have "blk_of 1 t 0 = b" using t(3) by (simp add: blk_of_def moved_def f(1) s(1))
  moreover have "blk_set b = 0" "srcMasterId b = 0" using assms(1) by (simp_all add: sample_blk_def)
  ultimately have "tail_wf t" using s(5) by (simp add: tail_wf_def f(2,5) s(2))
  moreover have "blk_wf 4 b" using assms by (simp add: blk_wf_def sample_blk_def)
  then have "\<forall>b' \<in> set (blks t). blk_wf 4 b'" by (simp add: f(1) s(1)) (simp add: blk_wf_def sample_blk_def)
  ultimately show thesis using that [of t] inv s f t tags by (simp add: word_sle_eq)
qed

theorem C_dec_size_hands_over_witness:
  "\<exists>c'. C_cache_dec_size dyn_env (sample_ccache (shrink_cdyn (sample_blk 15 0 6 [1, 2, 3, 4]))) = Some c'
    \<and> buffered 0 c' = [(24, [1, 2, 3, 4])] \<and> \<not> isValid (blk_of 1 (tags (cache c')) 0)"
proof -
  let ?b = "sample_blk 15 0 6 [1, 2, 3, 4]"
  have len: "length [1, 2, 3, 4 :: byte] = 4" by simp
  obtain t where t: "cdyn_inv (tags (cache (sample_ccache (shrink_cdyn ?b))))"
    "L_assoc (tags (cache (sample_ccache (shrink_cdyn ?b)))) \<noteq> 1"
    "C_dec_size (tags (cache (sample_ccache (shrink_cdyn ?b)))) = Some (numSets t, t)"
    "\<forall>b' \<in> set (blks t). blk_wf (c_blkSize (cache (sample_ccache (shrink_cdyn ?b)))) b'" "tail_wf t"
    "0 \<le>s c_blkSize (cache (sample_ccache (shrink_cdyn ?b)))"
    "blks t = [sample_blk 7 0 3 [9, 9, 9, 9], ?b, sample_blk 15 1 4 [2, 2, 2, 2]]" "unat (numSets t) = 1"
    "way_of t 1 0 = [2, 1]" "tagShift t = 2" "setShift t = 2"
    by (rule shrink_facts [OF refl len])
  have b: "blk_of 1 t 0 = ?b" using t(7,9) by (simp add: blk_of_def moved_def)
  have "isDirty ?b" "isValid ?b" "blk_threadID ?b = 0" by (simp_all add: sample_blk_def isDirty_def isValid_def blk_bits)
  then have D: "low_dirty t (unat (numSets t)) = [0]" by (simp add: low_dirty_def t(8) b [simplified])
  have room: "wb_room 0 (0 + length (low_dirty t (unat (numSets t)))) (sample_ccache (shrink_cdyn ?b))"
    using sample_room [of 0] by (simp add: D)
  have "home t ?b = 24" by (simp add: home_def regenerateBlkAddr_def t(10,11) sample_blk_def)
  moreover obtain c' where "C_cache_dec_size dyn_env (sample_ccache (shrink_cdyn ?b)) = Some c'"
    "buffered 0 c' = buffered 0 (sample_ccache (shrink_cdyn ?b)) @ map (\<lambda>i. (home t (blk_of 1 t i), blk_data (blk_of 1 t i))) [0]"
    "\<not> isValid (blk_of 1 (tags (cache c')) 0)"
    using C_dec_size_hands_over [OF t(1-6) room, of dyn_env, unfolded D, unfolded t(8)] b \<open>blk_threadID ?b = 0\<close> by auto
  moreover have "blk_data ?b = [1, 2, 3, 4]" by (simp add: sample_blk_def)
  ultimately show ?thesis using b sample_buffered [of 0] by auto
qed

theorem resize_stale_copy_witness:
  "\<exists>c'. C_cache_dec_size dyn_env (sample_ccache (shrink_cdyn (sample_blk 7 1 4 [1, 1, 1, 1]))) = Some c'
    \<and> {1, 2} \<subseteq> set (way_of (tags (cache c')) 1 0)
    \<and> blks (tags (cache c')) ! 1 = sample_blk 7 1 4 [1, 1, 1, 1] \<and> blks (tags (cache c')) ! 2 = sample_blk 15 1 4 [2, 2, 2, 2]"
proof -
  let ?b = "sample_blk 7 1 4 [1, 1, 1, 1]"
  have len: "length [1, 1, 1, 1 :: byte] = 4" by simp
  obtain t where t: "cdyn_inv (tags (cache (sample_ccache (shrink_cdyn ?b))))"
    "L_assoc (tags (cache (sample_ccache (shrink_cdyn ?b)))) \<noteq> 1"
    "C_dec_size (tags (cache (sample_ccache (shrink_cdyn ?b)))) = Some (numSets t, t)"
    "\<forall>b' \<in> set (blks t). blk_wf (c_blkSize (cache (sample_ccache (shrink_cdyn ?b)))) b'" "tail_wf t"
    "0 \<le>s c_blkSize (cache (sample_ccache (shrink_cdyn ?b)))"
    "blks t = [sample_blk 7 0 3 [9, 9, 9, 9], ?b, sample_blk 15 1 4 [2, 2, 2, 2]]" "unat (numSets t) = 1"
    "way_of t 1 0 = [2, 1]"
    "way_of (tags (cache (sample_ccache (shrink_cdyn ?b)))) 0 0 = [0, 1]"
    "way_of (tags (cache (sample_ccache (shrink_cdyn ?b)))) 1 0 = [2]"
    by (rule shrink_facts [OF refl len])
  have "blk_of 1 t 0 = ?b" using t(7,9) by (simp add: blk_of_def moved_def)
  then have D: "low_dirty t (unat (numSets t)) = []" by (simp add: low_dirty_def t(8)) (simp add: sample_blk_def)
  have room: "wb_room 0 (1 + length (low_dirty t (unat (numSets t)))) (sample_ccache (shrink_cdyn ?b))"
    using sample_room [of 0] by (simp add: D)
  show ?thesis
    using resize_stale_copy [OF t(1-6) room, of 0 1 2 dyn_env] t(7-11)
    by (simp add: sample_blk_def isValid_def blk_bits)
qed

theorem adjustPartition_estimates_witness:
  "\<exists>s s'. C_ctor (\<lambda>_. 0) raw_cdyn 2 4 4 1 1 1 = Inr s \<and> C_run [(8, 0, 0), (12, 1, 1), (8, 0, 2)] s = Some s'
    \<and> Uinc (\<lambda>_ _. 0) 4 s' = Some (of_nat (low_hits 3 s [(8, 0, 0), (12, 1, 1), (8, 0, 2)] - low_hits 2 s [(8, 0, 0), (12, 1, 1), (8, 0, 2)]))"
proof -
  obtain s where s: "C_ctor (\<lambda>_. 0) raw_cdyn 2 4 4 1 1 1 = Inr s" by (rule small_cdyn)
  have two: "low_hits (Suc (Suc 0)) = low_hits 2" "low_hits (Suc (Suc (Suc 0))) = low_hits 3"
    by (simp_all add: numeral_2_eq_2 numeral_3_eq_3)
  show ?thesis
    using s adjustPartition_estimates [OF s, of "[(8, 0, 0), (12, 1, 1), (8, 0, 2)]" "\<lambda>_ _. 0"]
    by (auto simp: Let_def two simp del: C_run.simps)
qed

end
