(* ===== verification/Cache_Snoop.thy ===== *)
theory Cache_Snoop
imports Base_Cache
begin

text \<open>
  Snoops and functional accesses (\<open>mem/cache/cache_impl.hh\<close>): what a cache does
  with a request that another cache sends, in timing and in atomic mode, and with
  an access that must not disturb the timing.

  The caches above are the parameter \<open>up\<close>, which gives the packet as they leave
  it; in timing mode their answer comes later, as a response.  A response that
  the cache supplies waits in the queue of the port to the memory.  No cache has
  a prefetcher.
\<close>

abbreviation set_cache :: "'a Cache \<Rightarrow> 'a BaseCache \<Rightarrow> 'a BaseCache" where
  "set_cache ca c \<equiv> c \<lparr>cache := ca\<rparr>"

definition set_pkt :: "nat \<Rightarrow> Packet \<Rightarrow> 'a BaseCache \<Rightarrow> 'a BaseCache" where
  "set_pkt p pk c = set_heap (upd_pkt p (\<lambda>_. pk) (the_heap c)) c"

subsection \<open>Supplying data\<close>

definition doTimingSupplyResponse :: "env \<Rightarrow> Packet \<Rightarrow> byte list \<Rightarrow> bool \<Rightarrow> bool \<Rightarrow> 'a BaseCache
    \<Rightarrow> 'a BaseCache option" where
  "doTimingSupplyResponse e req_pkt d already_copied pending_inval c = do {
     let pk = (if already_copied then req_pkt else Packet_copy (raw_pkt e) req_pkt False (e_now e));
     check (isInvalidate (cmd req_pkt) \<or> sharedAsserted pk);
     pk \<leftarrow> allocate (fresh e) pk;
     pk \<leftarrow> makeResponse pk;
     pk \<leftarrow> (if isRead (cmd pk) then setDataFromBlock d (c_blkSize (cache c)) pk else Some pk);
     let pk = (if cmd pk = ReadResp \<and> pending_inval then pk \<lparr>cmd := ReadRespWithInvalidate\<rparr> else pk);
     q \<leftarrow> schedSendTiming (e_now e) pk (e_now e + scast (c_hitLatency (cache c))) True (memQueue c);
     Some (c \<lparr>memQueue := q\<rparr>) }"

text \<open>
  The caches above see a snoop first.  In timing mode they get a copy whose
  sender state is a new record of the requester; it is dropped when none of them
  answers.
\<close>

definition forward_snoop :: "env \<Rightarrow> (Packet \<Rightarrow> Packet) \<Rightarrow> bool \<Rightarrow> Packet \<Rightarrow> 'a BaseCache
    \<Rightarrow> (Packet \<times> 'a BaseCache) option" where
  "forward_snoop e up is_timing pk c = do {
     let alreadyResponded = memInhibitAsserted pk;
     if is_timing then do {
       s \<leftarrow> getSrc pk;
       let sp = setExpressSnoop (Packet_copy (raw_pkt e) pk True (e_now e));
       let sp = up (sp \<lparr>senderState := Some (OtherState (length (fwdRecords c)))\<rparr>);
       (pk', c) \<leftarrow> (if memInhibitAsserted sp then do {
           check (\<not> alreadyResponded);
           Some (assertMemInhibit pk, c \<lparr>fwdRecords := fwdRecords c @ [(senderState pk, s)]\<rparr>) }
         else Some (pk, c));
       Some (if sharedAsserted sp then assertShared pk' else pk', c) }
     else do {
       let pk = up pk;
       check (\<not> alreadyResponded \<and> memInhibitAsserted pk \<longrightarrow> isResponse (cmd pk));
       Some (pk, c) } }"

definition cache_handleSnoop :: "env \<Rightarrow> ('a LRU_scheme) vtable \<Rightarrow> (Packet \<Rightarrow> Packet) \<Rightarrow> bool \<Rightarrow> bool \<Rightarrow> bool
    \<Rightarrow> Packet \<Rightarrow> BlkPtr option \<Rightarrow> 'a BaseCache \<Rightarrow> (Packet \<times> 'a BaseCache) option" where
  "cache_handleSnoop e vt up is_timing is_deferred pending_inval pk blk c = do {
     check (\<not> (is_deferred \<and> \<not> is_timing));
     check (\<not> (pending_inval \<and> \<not> is_deferred));
     check (isRequest (cmd pk));
     let invalidate = isInvalidate (cmd pk);
     let needs_exclusive = needsExclusive (cmd pk);
     (pk, c) \<leftarrow> (if forwardSnoops c then forward_snoop e up is_timing pk c else Some (pk, c));
     case blk of None \<Rightarrow> Some (pk, c)
     | Some p \<Rightarrow> do {
         b \<leftarrow> get_blk p (cache c);
         if \<not> isValid b then Some (pk, c)
         else do {
           let respond = (isDirty b \<and> needsResponse (cmd pk));
           let have_exclusive = isWritable b;
           (pk, c) \<leftarrow> (if isRead (cmd pk) \<and> \<not> invalidate then do {
               check (\<not> needs_exclusive);
               Some (assertShared pk,
                 set_cache (put_blk p (b \<lparr>status := status b AND NOT BlkWritable\<rparr>) (cache c)) c) }
             else Some (pk, c));
           (pk, c) \<leftarrow> (if respond then do {
               check (\<not> memInhibitAsserted pk);
               let pk = assertMemInhibit pk;
               let pk = (if have_exclusive then setSupplyExclusive pk else pk);
               if is_timing then do {
                 c \<leftarrow> doTimingSupplyResponse e pk (blk_data b) is_deferred pending_inval c;
                 Some (pk, c) }
               else do {
                 pk \<leftarrow> makeResponse pk;
                 pk \<leftarrow> setDataFromBlock (blk_data b) (c_blkSize (cache c)) pk;
                 Some (pk, c) } }
             else Some (pk, c));
           if invalidate then do {
             ca \<leftarrow> invalidate_ptr vt p (tid_of pk) (cache c);
             Some (pk, set_cache ca c) }
           else Some (pk, c) } } }"

subsection \<open>Snoop requests\<close>

text \<open>
  The block may be on its way out: a waiting writeback answers in its place and
  is dropped when the snoop invalidates.  The call that takes it out of the
  buffer passes a null pointer for the packet.
\<close>

definition snoop_writeback :: "env \<Rightarrow> addr \<Rightarrow> nat \<Rightarrow> 'a BaseCache \<Rightarrow> 'a BaseCache option" where
  "snoop_writeback e blk_addr p c = do {
     pk \<leftarrow> at (pkts (the_heap c)) p;
     wb \<leftarrow> getWriteBuffer (thread_of pk) c;
     case snd (findMatches blk_addr (the_heap c) wb) of [] \<Rightarrow> Some c
     | m # ms \<Rightarrow> do {
         check (ms = []);
         r \<leftarrow> at (mshrs (the_heap c)) m;
         check (\<not> m_isUncacheable r);
         check (ntargets r = 1);
         t \<leftarrow> getTarget r;
         wb_pkt \<leftarrow> at (pkts (the_heap c)) (pkt t);
         check (cmd wb_pkt = Writeback);
         check (\<not> memInhibitAsserted pk);
         let pk = assertMemInhibit pk;
         (pk, wb_pkt) \<leftarrow> (if \<not> needsExclusive (cmd pk) then Some (assertShared pk, clearSupplyExclusive wb_pkt)
           else do { check (isInvalidate (cmd pk)); Some (pk, wb_pkt) });
         let c = set_pkt p pk (set_pkt (pkt t) wb_pkt c);
         d \<leftarrow> getPtr wb_pkt;
         c \<leftarrow> doTimingSupplyResponse e pk d False False c;
         if isInvalidate (cmd pk) then markInServiceInternal (e_now e) m (length (pkts (the_heap c))) c
         else Some c } }"

definition snoopTiming :: "env \<Rightarrow> ('a LRU_scheme) vtable \<Rightarrow> (Packet \<Rightarrow> Packet) \<Rightarrow> nat \<Rightarrow> 'a BaseCache
    \<Rightarrow> 'a BaseCache option" where
  "snoopTiming e vt up p c = do {
     pk \<leftarrow> at (pkts (the_heap c)) p;
     if isUncacheable (req pk) \<or> cmd pk = Writeback then Some c
     else do {
       a \<leftarrow> getAddr pk;
       blk \<leftarrow> findBlock vt a (tid_of pk) (tags (cache c));
       let blk_addr = blockAlign a c;
       mq \<leftarrow> getMSHRQueue (thread_of pk) (cache c);
       (deferred, c) \<leftarrow> (case findMatch blk_addr (the_heap c) mq of None \<Rightarrow> Some (False, c)
         | Some m \<Rightarrow> do {
             (d, h) \<leftarrow> handleSnoop (raw_pkt e) m p (sint (c_order c)) (e_now e) (the_heap c);
             Some (d, set_heap h (c \<lparr>c_order := c_order c + 1\<rparr>)) });
       if deferred then Some c
       else do {
         c \<leftarrow> snoop_writeback e blk_addr p c;
         pk \<leftarrow> at (pkts (the_heap c)) p;
         (pk, c) \<leftarrow> cache_handleSnoop e vt up True False False pk (map_option InTags blk) c;
         Some (set_pkt p pk c) } } }"

definition snoopAtomic :: "env \<Rightarrow> ('a LRU_scheme) vtable \<Rightarrow> (Packet \<Rightarrow> Packet) \<Rightarrow> Packet \<Rightarrow> 'a BaseCache
    \<Rightarrow> (tick \<times> Packet \<times> 'a BaseCache) option" where
  "snoopAtomic e vt up pk c =
     (if isUncacheable (req pk) \<or> cmd pk = Writeback then Some (scast (c_hitLatency (cache c)), pk, c)
      else do {
        a \<leftarrow> getAddr pk;
        blk \<leftarrow> findBlock vt a (tid_of pk) (tags (cache c));
        (pk, c) \<leftarrow> cache_handleSnoop e vt up False False False pk (map_option InTags blk) c;
        Some (scast (c_hitLatency (cache c)), pk, c) })"

subsection \<open>Functional accesses\<close>

text \<open>
  Where a functional access goes from here.  The places that may hold the bytes
  are asked in the order of the code until one of them completes the access; the
  ports only ask the queue that they were constructed with.
\<close>

datatype Onward = Satisfied | ToMemory | ToCaches | Nowhere

definition functional_block :: "env \<Rightarrow> addr \<Rightarrow> nat option \<Rightarrow> nat option \<Rightarrow> Packet \<Rightarrow> 'a BaseCache \<Rightarrow> (bool \<times> Packet \<times> 'a BaseCache) option" where
  "functional_block e blk_addr blk mshr pk c = (case blk of None \<Rightarrow> Some (False, pk, c)
     | Some i \<Rightarrow> do {
         b \<leftarrow> get_blk (InTags i) (cache c);
         if isValid b then do {
           (d, pk, v) \<leftarrow> checkFunctional (fresh e) blk_addr (c_blkSize (cache c)) (Some (blk_data b)) pk;
           let c = (case v of None \<Rightarrow> c
             | Some v \<Rightarrow> set_cache (put_blk (InTags i) (b \<lparr>blk_data := v\<rparr>) (cache c)) c);
           if d then do {
             dirty \<leftarrow> (if isDirty b then Some True
               else case mshr of None \<Rightarrow> Some False
               | Some m \<Rightarrow> do { r \<leftarrow> at (mshrs (the_heap c)) m;
                   if inService r then isPendingDirty r else Some False });
             Some (dirty, pk, c) }
           else Some (False, pk, c) }
         else Some (False, pk, c) })"

definition functional_slavePort :: "env \<Rightarrow> Packet \<Rightarrow> 'a BaseCache \<Rightarrow> (bool \<times> Packet \<times> 'a BaseCache) option" where
  "functional_slavePort e pk c = do {
     (d, pk, q) \<leftarrow> pq_checkFunctional (fresh e) pk (slaveQueue (cpuSidePort c));
     Some (d, pk, c \<lparr>cpuSidePort := (cpuSidePort c) \<lparr>slaveQueue := q\<rparr>\<rparr>) }"

definition functional_queue :: "env \<Rightarrow> bool \<Rightarrow> addr \<Rightarrow> Packet \<Rightarrow> 'a BaseCache \<Rightarrow> (bool \<times> Packet \<times> 'a BaseCache) option" where
  "functional_queue e wb blk_addr pk c = do {
     mq \<leftarrow> get_mq wb (thread_of pk) c;
     (d, pk, h) \<leftarrow> q_checkFunctional (fresh e) pk blk_addr (the_heap c) mq;
     Some (d, pk, set_heap h c) }"

definition functional_masterPort :: "env \<Rightarrow> Packet \<Rightarrow> 'a BaseCache \<Rightarrow> (bool \<times> Packet \<times> 'a BaseCache) option" where
  "functional_masterPort e pk c = do {
     (d, pk, q) \<leftarrow> pq_checkFunctional (fresh e) pk (memQueue c);
     Some (d, pk, c \<lparr>memQueue := q\<rparr>) }"

definition or_else :: "(Packet \<Rightarrow> 'c \<Rightarrow> (bool \<times> Packet \<times> 'c) option) \<Rightarrow> bool \<times> Packet \<times> 'c \<Rightarrow> (bool \<times> Packet \<times> 'c) option" where
  "or_else f = (\<lambda>(d, pk, c). if d then Some (True, pk, c) else f pk c)"

definition functionalAccess :: "env \<Rightarrow> ('a LRU_scheme) vtable \<Rightarrow> bool \<Rightarrow> bool \<Rightarrow> Packet \<Rightarrow> 'a BaseCache
    \<Rightarrow> (Onward \<times> Packet \<times> 'a BaseCache) option" where
  "functionalAccess e vt fromCpuSide snooping pk c = do {
     a \<leftarrow> getAddr pk;
     let blk_addr = blockAlign a c;
     blk \<leftarrow> findBlock vt a (tid_of pk) (tags (cache c));
     mq \<leftarrow> getMSHRQueue (thread_of pk) (cache c);
     r \<leftarrow> functional_block e blk_addr blk (findMatch blk_addr (the_heap c) mq) pk c;
     r \<leftarrow> or_else (functional_slavePort e) r;
     r \<leftarrow> or_else (functional_queue e False blk_addr) r;
     r \<leftarrow> or_else (functional_queue e True blk_addr) r;
     (d, pk, c) \<leftarrow> or_else (functional_masterPort e) r;
     if d then do { pk \<leftarrow> makeResponse pk; Some (Satisfied, pk, c) }
     else Some (if fromCpuSide then ToMemory else if forwardSnoops c \<and> snooping then ToCaches else Nowhere, pk, c) }"

end
