(* ===== verification/Cache_Timing.thy ===== *)
theory Cache_Timing
imports Cache_Snoop
begin

text \<open>
  The timing mode of the cache controller (\<open>mem/cache/cache_impl.hh\<close>): requests
  of the processor, the choice of the request that goes to the memory next, and
  the responses that come back.

  A packet of the processor is an address of the store of packets.  The memory
  side is a parameter \<open>send\<close>: whether the bus takes a request, and the packet as
  the other caches leave it, with the lines they assert.  Packets that the code
  deletes stay in the store; nothing refers to them.
\<close>

subsection \<open>Requests of the processor\<close>

text \<open>\<open>schedTimingResp\<close> of the port: one queue per thread when responses are split.\<close>

definition schedTimingResp :: "tick \<Rightarrow> Packet \<Rightarrow> tick \<Rightarrow> nat \<Rightarrow> 'a BaseCache \<Rightarrow> 'a BaseCache option" where
  "schedTimingResp now pk time tid c = do {
     let port = cpuSidePort c;
     if split_rport c then do {
       q \<leftarrow> at (respQueues port) tid;
       q \<leftarrow> schedSendTiming now pk time False q;
       Some (c \<lparr>cpuSidePort := port \<lparr>respQueues := (respQueues port)[tid := q]\<rparr>\<rparr>) }
     else do {
       q \<leftarrow> schedSendTiming now pk time False (slaveQueue port);
       Some (c \<lparr>cpuSidePort := port \<lparr>slaveQueue := q\<rparr>\<rparr>) } }"

fun buffer_all :: "env \<Rightarrow> tick \<Rightarrow> Packet list \<Rightarrow> 'a BaseCache \<Rightarrow> 'a BaseCache option" where
  "buffer_all e time [] c = Some c"
| "buffer_all e time (wb # wbs) c = do {
     let (p, c) = new_pkt wb c;
     (m, c) \<leftarrow> allocateWriteBuffer (e_now e) p time True c;
     buffer_all e time wbs c }"

definition timing_uncacheable :: "env \<Rightarrow> ('a LRU_scheme) vtable \<Rightarrow> tick \<Rightarrow> nat \<Rightarrow> Packet \<Rightarrow> 'a BaseCache
    \<Rightarrow> 'a BaseCache option" where
  "timing_uncacheable e vt time p pk c = do {
     ca \<leftarrow> access_uncacheable vt pk (cache c);
     let c = set_cache ca c;
     (m, c) \<leftarrow> (if isWrite (cmd pk) \<and> \<not> isRead (cmd pk) then allocateWriteBuffer (e_now e) p time True c
       else allocateUncachedReadBuffer (e_now e) p time True c);
     check (needsResponse (cmd pk));
     Some c }"

text \<open>A miss: it joins an outstanding miss to its block or gets an entry of its own.\<close>

definition timing_miss :: "env \<Rightarrow> tick \<Rightarrow> nat \<Rightarrow> Packet \<Rightarrow> nat option \<Rightarrow> 'a BaseCache \<Rightarrow> 'a BaseCache option" where
  "timing_miss e time p pk blk c = do {
     a \<leftarrow> getAddr pk;
     let blk_addr = blockAlign a c;
     mq \<leftarrow> getMSHRQueue (thread_of pk) (cache c);
     case findMatch blk_addr (the_heap c) mq of
       Some m \<Rightarrow> do {
         r \<leftarrow> at (mshrs (the_heap c)) m;
         let h = (if threadNum r \<noteq> 0 then upd_mshr m (\<lambda>r. r \<lparr>threadNum := -1\<rparr>) (the_heap c) else the_heap c);
         h \<leftarrow> allocateTarget m p time (sint (c_order c)) (e_now e) h;
         let c = set_heap h (c \<lparr>c_order := c_order c + 1\<rparr>);
         if scast (ntargets (mshrs h ! m)) = numTarget c
         then setBlocked Blocked_NoTargets (thread_of pk) (c \<lparr>noTargetMSHR := Some m\<rparr>)
         else Some c }
     | None \<Rightarrow>
         if cmd pk = Writeback then do { (m, c) \<leftarrow> allocateWriteBuffer (e_now e) p time True c; Some c }
         else do {
           c \<leftarrow> (case blk of None \<Rightarrow> Some c
             | Some i \<Rightarrow> do {
                 b \<leftarrow> get_blk (InTags i) (cache c);
                 if isValid b then do {
                   check (needsExclusive (cmd pk) \<and> \<not> isWritable b);
                   Some (set_cache (put_blk (InTags i) (b \<lparr>status := status b AND NOT BlkReadable\<rparr>) (cache c)) c) }
                 else Some c });
           (m, c) \<leftarrow> allocateMissBuffer (e_now e) p time True c;
           Some c } }"

definition timing_cacheable :: "env \<Rightarrow> ('a LRU_scheme) vtable \<Rightarrow> tick \<Rightarrow> nat \<Rightarrow> Packet \<Rightarrow> 'a BaseCache
    \<Rightarrow> 'a BaseCache option" where
  "timing_cacheable e vt time p pk c = do {
     (satisfied, blk, lat, wbs, pk, ca) \<leftarrow> access e vt pk (cache c);
     let c = set_pkt p pk (set_cache ca c);
     c \<leftarrow> (if satisfied then
         if needsResponse (cmd pk) then do {
           pk \<leftarrow> makeResponse pk;
           let c = set_pkt p pk c;
           schedTimingResp (e_now e) pk (e_now e + scast lat) (thread_of pk) c }
         else Some c
       else timing_miss e time p pk blk c);
     buffer_all e time wbs c }"

subsection \<open>Responses\<close>

text \<open>When the response to a target is complete; the first word may be there earlier.\<close>

definition fill_time :: "Packet \<Rightarrow> 32 word \<Rightarrow> Packet \<Rightarrow> 'a BaseCache \<Rightarrow> tick option" where
  "fill_time pk initial_offset tpk c = do {
     off \<leftarrow> getOffset (c_blkSize (cache c)) tpk;
     let transfer_offset = (ucast off :: 32 word) - initial_offset;
     let transfer_offset = (if transfer_offset <s 0 then transfer_offset + c_blkSize (cache c) else transfer_offset);
     Some (scast (getHitLatency (tags (cache c)))
       + (if transfer_offset \<noteq> 0 then finishTime pk else getFirstWordTime (cw_first c) pk)) }"

text \<open>One target of the processor: its data, its response, and the tick at which it is sent.\<close>

definition serve_cpu :: "env \<Rightarrow> ('a LRU_scheme) vtable \<Rightarrow> bool \<Rightarrow> 32 word \<Rightarrow> Packet \<Rightarrow> nat \<Rightarrow> BlkPtr option \<Rightarrow> nat
    \<Rightarrow> 'a BaseCache \<Rightarrow> 'a BaseCache option" where
  "serve_cpu e vt is_fill initial_offset pk m blk tp c = do {
     r \<leftarrow> at (mshrs (the_heap c)) m;
     tpk \<leftarrow> at (pkts (the_heap c)) tp;
     (completion_time, tpk, c) \<leftarrow> (if is_fill then do {
         down \<leftarrow> hasPostDowngrade r;
         b \<leftarrow> blk;
         (tpk, ca) \<leftarrow> satisfyCpuSideRequest vt True down b tpk (cache c);
         let c = set_cache ca c;
         t \<leftarrow> fill_time pk initial_offset tpk c;
         check (\<not> isUncacheable (req tpk));
         Some (t, tpk, c) }
       else if cmd pk = UpgradeFailResp then do {
         check (cmd tpk \<in> {StoreCondReq, StoreCondFailReq, SCUpgradeFailReq});
         Some (scast (getHitLatency (tags (cache c))) + finishTime pk, tpk \<lparr>req := setExtraData 0 (req tpk)\<rparr>, c) }
       else do {
         tpk \<leftarrow> (if isRead (cmd pk) \<and> \<not> isError (cmd pk) then do { d \<leftarrow> getPtr pk; setData d tpk } else Some tpk);
         Some (scast (getHitLatency (tags (cache c))) + finishTime pk, tpk, c) });
     tpk \<leftarrow> makeResponse tpk;
     tpk \<leftarrow> (if isError (cmd pk) then copyError pk tpk else Some tpk);
     tpk \<leftarrow> (if cmd tpk = ReadResp then do {
         i \<leftarrow> (if isInvalidate (cmd pk) then Some True else hasPostInvalidate r);
         Some (if i then tpk \<lparr>cmd := ReadRespWithInvalidate\<rparr> else tpk) }
       else Some tpk);
     let c = set_pkt tp tpk c;
     schedTimingResp (e_now e) tpk completion_time (thread_of tpk) c }"

definition serve_target :: "env \<Rightarrow> ('a LRU_scheme) vtable \<Rightarrow> (Packet \<Rightarrow> Packet) \<Rightarrow> bool \<Rightarrow> 32 word \<Rightarrow> Packet \<Rightarrow> nat
    \<Rightarrow> BlkPtr option \<Rightarrow> Target \<Rightarrow> 'a BaseCache \<Rightarrow> 'a BaseCache option" where
  "serve_target e vt up is_fill initial_offset pk m blk t c = (case source t of
     FromCPU \<Rightarrow> serve_cpu e vt is_fill initial_offset pk m blk (pkt t) c
   | FromPrefetcher \<Rightarrow> do {
       tpk \<leftarrow> at (pkts (the_heap c)) (pkt t);
       check (cmd tpk = HardPFReq);
       case blk of None \<Rightarrow> Some c
       | Some p \<Rightarrow> do {
           b \<leftarrow> get_blk p (cache c);
           Some (set_cache (put_blk p (b \<lparr>status := status b OR BlkHWPrefetched\<rparr>) (cache c)) c) } }
   | FromSnoop \<Rightarrow> do {
       check (\<not> isError (cmd pk));
       r \<leftarrow> at (mshrs (the_heap c)) m;
       tpk \<leftarrow> at (pkts (the_heap c)) (pkt t);
       i \<leftarrow> hasPostInvalidate r;
       check (\<not> (isInvalidate (cmd pk) \<and> \<not> i));
       (tpk, c) \<leftarrow> cache_handleSnoop e vt up True True i tpk blk c;
       Some (set_pkt (pkt t) tpk c) })"

text \<open>The loop over the targets of the register; serving one of them adds none.\<close>

fun serve_targets :: "env \<Rightarrow> ('a LRU_scheme) vtable \<Rightarrow> (Packet \<Rightarrow> Packet) \<Rightarrow> bool \<Rightarrow> 32 word \<Rightarrow> Packet \<Rightarrow> nat
    \<Rightarrow> BlkPtr option \<Rightarrow> Target list \<Rightarrow> 'a BaseCache \<Rightarrow> 'a BaseCache option" where
  "serve_targets e vt up is_fill initial_offset pk m blk [] c = Some c"
| "serve_targets e vt up is_fill initial_offset pk m blk (t # ts) c = do {
     c \<leftarrow> serve_target e vt up is_fill initial_offset pk m blk t c;
     r \<leftarrow> at (mshrs (the_heap c)) m;
     r \<leftarrow> popTarget r;
     serve_targets e vt up is_fill initial_offset pk m blk ts (set_heap (upd_mshr m (\<lambda>_. r) (the_heap c)) c) }"

text \<open>What snoops during the miss left to do to the block.\<close>

definition post_snoops :: "('a LRU_scheme) vtable \<Rightarrow> nat \<Rightarrow> Packet \<Rightarrow> nat \<Rightarrow> BlkPtr option \<Rightarrow> 'a BaseCache
    \<Rightarrow> 'a BaseCache option" where
  "post_snoops vt tid pk m blk c = (case blk of None \<Rightarrow> Some c
     | Some p \<Rightarrow> do {
         r \<leftarrow> at (mshrs (the_heap c)) m;
         i \<leftarrow> (if isInvalidate (cmd pk) then Some True else hasPostInvalidate r);
         if i then do { ca \<leftarrow> invalidate_ptr vt p tid (cache c); Some (set_cache ca c) }
         else do {
           d \<leftarrow> hasPostDowngrade r;
           if d then do {
             b \<leftarrow> get_blk p (cache c);
             Some (set_cache (put_blk p (b \<lparr>status := status b AND NOT BlkWritable\<rparr>) (cache c)) c) }
           else Some c } })"

text \<open>The register is asked again for the targets that had to wait, or freed.\<close>

definition finish_mshr :: "env \<Rightarrow> bool \<Rightarrow> Packet \<Rightarrow> nat \<Rightarrow> BlkPtr option \<Rightarrow> 'a BaseCache \<Rightarrow> 'a BaseCache option" where
  "finish_mshr e wasFull pk m blk c = do {
     (again, h) \<leftarrow> promoteDeferredTargets m (e_now e) (the_heap c);
     let c = set_heap h c;
     r \<leftarrow> at (mshrs h) m;
     let wb = odd (queue r);
     let t = queue r div 2;
     mq \<leftarrow> get_mq wb t c;
     if again then do {
       c \<leftarrow> (case blk of None \<Rightarrow> Some c
         | Some p \<Rightarrow> do {
             b \<leftarrow> get_blk p (cache c);
             Some (set_cache (put_blk p (b \<lparr>status := status b AND NOT BlkReadable\<rparr>) (cache c)) c) });
       (mq, h) \<leftarrow> q_markPending m mq (the_heap c);
       requestMemSideBus (e_now e) (finishTime pk) (thread_of pk) (put_mq wb t mq (set_heap h c)) }
     else do {
       (mq, h) \<leftarrow> q_deallocate m mq h;
       let c = put_mq wb t mq (set_heap h c);
       if wasFull \<and> \<not> isFull mq then clearBlocked (e_now e) (nat (index mq)) (thread_of pk) c else Some c } }"

text \<open>The temporary block is given up at once.\<close>

definition release_temp :: "env \<Rightarrow> ('a LRU_scheme) vtable \<Rightarrow> tick \<Rightarrow> nat \<Rightarrow> 'a BaseCache \<Rightarrow> 'a BaseCache option" where
  "release_temp e vt time tid c = do {
     c \<leftarrow> (if isDirty (tempBlock (cache c)) then do {
         (wb, ca) \<leftarrow> writebackBlk e Temp (blk_threadID (tempBlock (cache c))) (cache c);
         buffer_all e time [wb] (set_cache ca c) }
       else Some c);
     let b = tempBlock (cache c);
     let c = set_cache ((cache c) \<lparr>tempBlock := b \<lparr>status := status b AND NOT BlkValid\<rparr>\<rparr>) c;
     ca \<leftarrow> invalidate_ptr vt Temp tid (cache c);
     Some (set_cache ca c) }"

definition handleResponse :: "env \<Rightarrow> ('a LRU_scheme) vtable \<Rightarrow> (Packet \<Rightarrow> Packet) \<Rightarrow> Packet \<Rightarrow> 'a BaseCache
    \<Rightarrow> 'a BaseCache option" where
  "handleResponse e vt up pk c = do {
     let time = e_now e + scast (c_hitLatency (cache c));
     m \<leftarrow> (case senderState pk of Some (MSHRState m) \<Rightarrow> Some m | _ \<Rightarrow> None);
     r \<leftarrow> at (mshrs (the_heap c)) m;
     mq \<leftarrow> get_mq (odd (queue r)) (queue r div 2) c;
     let wasFull = isFull mq;
     c \<leftarrow> (if noTargetMSHR c = Some m then do {
         c \<leftarrow> clearBlocked (e_now e) Blocked_NoTargets (thread_of pk) c;
         Some (c \<lparr>noTargetMSHR := None\<rparr>) }
       else Some c);
     initial_tgt \<leftarrow> getTarget r;
     a \<leftarrow> getAddr pk;
     found \<leftarrow> findBlock vt a (tid_of pk) (tags (cache c));
     let is_fill = (\<not> isForward r \<and> (isRead (cmd pk) \<or> cmd pk = UpgradeResp));
     (blk, wbs, c) \<leftarrow> (if is_fill \<and> \<not> isError (cmd pk) then do {
         h \<leftarrow> mshr_handleFill m pk (the_heap c);
         let c = set_heap h c;
         (p, wbs, ca) \<leftarrow> cache_handleFill e vt pk (map_option InTags found) (cache c);
         Some (Some p, wbs, set_cache ca c) }
       else Some (map_option InTags found, [], c));
     r \<leftarrow> at (mshrs (the_heap c)) m;
     initial_offset \<leftarrow> (case tl_list (targets r) of [] \<Rightarrow> Some 0
       | t # ts \<Rightarrow> do { tpk \<leftarrow> at (pkts (the_heap c)) (pkt t);
           off \<leftarrow> getOffset (c_blkSize (cache c)) tpk; Some (ucast off) });
     c \<leftarrow> serve_targets e vt up is_fill initial_offset pk m blk (tl_list (targets r)) c;
     c \<leftarrow> post_snoops vt (tid_of pk) pk m blk c;
     c \<leftarrow> finish_mshr e wasFull pk m blk c;
     c \<leftarrow> buffer_all e time wbs c;
     if blk = Some Temp then release_temp e vt time (tid_of pk) c else Some c }"

text \<open>
  \<open>timingAccess\<close>: the express snoops that leave towards the memory at once, and
  the cache.
\<close>

definition timingAccess :: "env \<Rightarrow> ('a LRU_scheme) vtable \<Rightarrow> (Packet \<Rightarrow> Packet) \<Rightarrow> nat \<Rightarrow> 'a BaseCache
    \<Rightarrow> (Packet list \<times> 'a BaseCache) option" where
  "timingAccess e vt up p c = do {
     let time = e_now e + scast (c_hitLatency (cache c));
     pk \<leftarrow> at (pkts (the_heap c)) p;
     if isResponse (cmd pk) then
       (case senderState pk of
          Some (OtherState k) \<Rightarrow> do {
            (state, s) \<leftarrow> at (fwdRecords c) k;
            let pk = setDest s (pk \<lparr>senderState := state\<rparr>);
            q \<leftarrow> schedSendTiming (e_now e) pk time True (memQueue c);
            Some ([], set_pkt p pk (c \<lparr>memQueue := q\<rparr>)) }
        | _ \<Rightarrow> do {
            check (cmd pk = HardPFResp);
            c \<leftarrow> handleResponse e vt up pk c;
            Some ([], c) })
     else do {
       check (isRequest (cmd pk));
       if memInhibitAsserted pk then do {
         check (\<not> isUncacheable (req pk));
         if needsExclusive (cmd pk) \<and> \<not> isSupplyExclusive pk
         then Some ([assertMemInhibit (setExpressSnoop (Packet_copy (raw_pkt e) pk True (e_now e)))], c)
         else Some ([], c) }
       else do {
         c \<leftarrow> (if isUncacheable (req pk) then timing_uncacheable e vt time p pk c
           else timing_cacheable e vt time p pk c);
         Some ([], c) } } }"

text \<open>
  \<open>recvTimingReq\<close> of the processor's port: whether the request is taken.  A kind of
  cache with an access path of its own overrides \<open>timingAccess\<close> and
  \<open>handleResponse\<close>; the functions that call them get them as arguments.
\<close>

type_synonym 'a requester =
  "env \<Rightarrow> ('a LRU_scheme) vtable \<Rightarrow> (Packet \<Rightarrow> Packet) \<Rightarrow> nat \<Rightarrow> 'a BaseCache \<Rightarrow> (Packet list \<times> 'a BaseCache) option"

type_synonym 'a responder =
  "env \<Rightarrow> ('a LRU_scheme) vtable \<Rightarrow> (Packet \<Rightarrow> Packet) \<Rightarrow> Packet \<Rightarrow> 'a BaseCache \<Rightarrow> 'a BaseCache option"

definition recvTimingReq :: "'a requester \<Rightarrow> env \<Rightarrow> ('a LRU_scheme) vtable \<Rightarrow> (Packet \<Rightarrow> Packet) \<Rightarrow> nat \<Rightarrow> 'a BaseCache
    \<Rightarrow> (bool \<times> Packet list \<times> 'a BaseCache) option" where
  "recvTimingReq ta e vt up p c = do {
     pk \<leftarrow> at (pkts (the_heap c)) p;
     refuse \<leftarrow> (if memInhibitAsserted pk then Some False else port_isBlocked (tid_of pk) c);
     if refuse then Some (False, [], c \<lparr>cpuSidePort := (cpuSidePort c) \<lparr>mustSendRetry := True\<rparr>\<rparr>)
     else do { (xs, c) \<leftarrow> ta e vt up p c; Some (True, xs, c) } }"

subsection \<open>The next request\<close>

text \<open>
  \<open>getNextMSHR\<close> of a cache without a prefetcher: with a miss and a write ready, the
  miss goes first unless the write buffer is full or an older request to the same
  bytes is in the way.  When neither queue has a request, the code asks the
  prefetcher, if it has one (\<open>cache_impl.hh\<close>, lines 1522 to 1543); that part is
  left out.
\<close>

definition cache_getNextMSHR :: "tick \<Rightarrow> nat \<Rightarrow> 'a BaseCache \<Rightarrow> nat option option" where
  "cache_getNextMSHR now tid c = do {
     mq \<leftarrow> getMSHRQueue tid (cache c);
     wb \<leftarrow> getWriteBuffer tid c;
     let h = the_heap c;
     case (getNextMSHR now h mq, getNextMSHR now h wb) of
       (Some miss_mshr, None) \<Rightarrow> Some (Some miss_mshr)
     | (None, Some write_mshr) \<Rightarrow> Some (Some write_mshr)
     | (None, None) \<Rightarrow> Some None
     | (Some miss_mshr, Some write_mshr) \<Rightarrow>
         if isFull wb \<and> inServiceEntries wb = 0 then do {
           w \<leftarrow> at (mshrs h) write_mshr;
           Some (Some (case findPending (m_addr w) (m_size w) h mq of
             Some conflict_mshr \<Rightarrow> if order (mshrs h ! conflict_mshr) < order w then conflict_mshr else write_mshr
           | None \<Rightarrow> write_mshr)) }
         else do {
           r \<leftarrow> at (mshrs h) miss_mshr;
           Some (Some (case findPending (m_addr r) (m_size r) h wb of
             Some conflict_mshr \<Rightarrow> conflict_mshr | None \<Rightarrow> miss_mshr)) } }"

text \<open>The packet for a register that expects a response.\<close>

definition request_packet :: "env \<Rightarrow> ('a LRU_scheme) vtable \<Rightarrow> (Packet \<Rightarrow> Packet) \<Rightarrow> nat \<Rightarrow> nat \<Rightarrow> 'a BaseCache
    \<Rightarrow> (nat option \<times> 'a BaseCache) option" where
  "request_packet e vt up m tp c = do {
     r \<leftarrow> at (mshrs (the_heap c)) m;
     tgt_pkt \<leftarrow> at (pkts (the_heap c)) tp;
     blk \<leftarrow> findBlock vt (m_addr r) (tid_of tgt_pkt) (tags (cache c));
     (inhibited, c) \<leftarrow> (if cmd tgt_pkt = HardPFReq then do {
         check (blk = None);
         let sp = setExpressSnoop (Packet_copy (raw_pkt e) tgt_pkt True (e_now e));
         let sp = up (sp \<lparr>senderState := Some (MSHRState m)\<rparr>);
         if memInhibitAsserted sp then do {
           let (q, c) = new_pkt sp c;
           c \<leftarrow> markInServiceInternal (e_now e) m q c;
           Some (True, c) }
         else Some (False, c) }
       else Some (False, c));
     if inhibited then Some (None, c)
     else do {
       bus \<leftarrow> getBusPacket e tgt_pkt blk (tl_needsExclusive (targets r)) (cache c);
       let c = set_heap (upd_mshr m (\<lambda>r. r \<lparr>isForward := (bus = None)\<rparr>) (the_heap c)) c;
       pk \<leftarrow> (case bus of Some pk \<Rightarrow> Some pk
         | None \<Rightarrow> do {
             pk \<leftarrow> allocate (fresh e) (Packet_copy (raw_pkt e) tgt_pkt False (e_now e));
             if isWrite (cmd pk) then do { d \<leftarrow> getPtr tgt_pkt; setData d pk } else Some pk });
       let (q, c) = new_pkt (pk \<lparr>senderState := Some (MSHRState m)\<rparr>) c;
       Some (Some q, c) } }"

definition getTimingPacket :: "'a responder \<Rightarrow> env \<Rightarrow> ('a LRU_scheme) vtable \<Rightarrow> (Packet \<Rightarrow> Packet) \<Rightarrow> nat \<Rightarrow> 'a BaseCache
    \<Rightarrow> (nat option \<times> 'a BaseCache) option" where
  "getTimingPacket hr e vt up tid c = do {
     next_mshr \<leftarrow> cache_getNextMSHR (e_now e) tid c;
     case next_mshr of None \<Rightarrow> Some (None, c)
     | Some m \<Rightarrow> do {
         r \<leftarrow> at (mshrs (the_heap c)) m;
         t \<leftarrow> getTarget r;
         tgt_pkt \<leftarrow> at (pkts (the_heap c)) (pkt t);
         fwd \<leftarrow> isForwardNoResponse r (the_heap c);
         if cmd tgt_pkt = SCUpgradeFailReq \<or> cmd tgt_pkt = StoreCondFailReq then do {
           let pk = Packet_copy (raw_pkt e) tgt_pkt False (e_now e);
           c \<leftarrow> hr e vt up (pk \<lparr>cmd := UpgradeFailResp, senderState := Some (MSHRState m),
             firstWordTime := e_now e, finishTime := e_now e\<rparr>) c;
           Some (None, c) }
         else if fwd then Some (Some (pkt t), set_pkt (pkt t) (tgt_pkt \<lparr>senderState := Some (MSHRState m)\<rparr>) c)
         else request_packet e vt up m (pkt t) c } }"

definition cache_nextMSHRReadyTime :: "nat \<Rightarrow> 'a BaseCache \<Rightarrow> tick option" where
  "cache_nextMSHRReadyTime tid c = do {
     mq \<leftarrow> getMSHRQueue tid (cache c);
     wb \<leftarrow> getWriteBuffer tid c;
     Some (min (nextMSHRReadyTime (the_heap c) mq) (nextMSHRReadyTime (the_heap c) wb)) }"

subsection \<open>The queues of the port to the memory\<close>

text \<open>
  The port is constructed with one queue, whose thread number is 5; a split cache
  adds one queue per thread.
\<close>

datatype mem_queue = MainQueue | ThreadQueue nat

fun queue_ID :: "mem_queue \<Rightarrow> nat" where
  "queue_ID MainQueue = 5"
| "queue_ID (ThreadQueue i) = i"

fun get_rq :: "mem_queue \<Rightarrow> 'a BaseCache \<Rightarrow> PacketQueue option" where
  "get_rq MainQueue c = Some (memQueue c)"
| "get_rq (ThreadQueue i) c = at (reqQueues c) i"

fun put_rq :: "mem_queue \<Rightarrow> PacketQueue \<Rightarrow> 'a BaseCache \<Rightarrow> 'a BaseCache" where
  "put_rq MainQueue q c = c \<lparr>memQueue := q\<rparr>"
| "put_rq (ThreadQueue i) q c = c \<lparr>reqQueues := (reqQueues c)[i := q]\<rparr>"

text \<open>
  \<open>MemSidePacketQueue::sendDeferredPacket\<close>: the requests the bus has taken, and
  the cache.  A waiting response goes first; otherwise the next request of the
  thread is built and offered to the bus.
\<close>

definition offer_request :: "'a responder \<Rightarrow> env \<Rightarrow> ('a LRU_scheme) vtable \<Rightarrow> (Packet \<Rightarrow> Packet) \<Rightarrow> (Packet \<Rightarrow> bool \<times> Packet) \<Rightarrow> mem_queue
    \<Rightarrow> 'a BaseCache \<Rightarrow> (Packet list \<times> 'a BaseCache) option" where
  "offer_request hr e vt up send i c = do {
     (p, c) \<leftarrow> getTimingPacket hr e vt up (queue_ID i) c;
     q \<leftarrow> get_rq i c;
     case p of None \<Rightarrow> Some ([], put_rq i (q \<lparr>waitingOnRetry := False\<rparr>) c)
     | Some p \<Rightarrow> do {
         pk \<leftarrow> at (pkts (the_heap c)) p;
         m \<leftarrow> (case senderState pk of Some (MSHRState m) \<Rightarrow> Some m | _ \<Rightarrow> None);
         let (ok, pk') = send pk;
         let c = set_pkt p pk' (put_rq i (q \<lparr>waitingOnRetry := \<not> ok\<rparr>) c);
         if ok then do { c \<leftarrow> markInServiceInternal (e_now e) m p c; Some ([pk'], c) }
         else Some ([], c) } }"

definition mem_sendDeferredPacket :: "'a responder \<Rightarrow> env \<Rightarrow> ('a LRU_scheme) vtable \<Rightarrow> (Packet \<Rightarrow> Packet) \<Rightarrow> peer
    \<Rightarrow> (Packet \<Rightarrow> bool \<times> Packet) \<Rightarrow> mem_queue \<Rightarrow> 'a BaseCache \<Rightarrow> (Packet list \<times> 'a BaseCache) option" where
  "mem_sendDeferredPacket hr e vt up resp_peer send i c = do {
     q \<leftarrow> get_rq i c;
     (sent, c) \<leftarrow> (if deferredPacketReady (e_now e) q then do {
         q \<leftarrow> trySendTiming (e_now e) resp_peer q;
         Some ([], put_rq i q c) }
       else offer_request hr e vt up send i c);
     q \<leftarrow> get_rq i c;
     if \<not> waitingOnRetry q then do {
       t \<leftarrow> cache_nextMSHRReadyTime (queue_ID i) c;
       q \<leftarrow> scheduleSend (e_now e) t q;
       Some (sent, put_rq i q c) }
     else Some (sent, c) }"

definition mem_processSendEvent :: "'a responder \<Rightarrow> env \<Rightarrow> ('a LRU_scheme) vtable \<Rightarrow> (Packet \<Rightarrow> Packet) \<Rightarrow> peer
    \<Rightarrow> (Packet \<Rightarrow> bool \<times> Packet) \<Rightarrow> mem_queue \<Rightarrow> 'a BaseCache \<Rightarrow> (Packet list \<times> 'a BaseCache) option" where
  "mem_processSendEvent hr e vt up resp_peer send i c = do {
     q \<leftarrow> get_rq i c;
     check (\<not> waitingOnRetry q);
     mem_sendDeferredPacket hr e vt up resp_peer send i (put_rq i (q \<lparr>sendEvent := None\<rparr>) c) }"

text \<open>\<open>recvRetry\<close>: the port of a split cache retries the queues of all threads.\<close>

fun retry_threads :: "'a responder \<Rightarrow> env \<Rightarrow> ('a LRU_scheme) vtable \<Rightarrow> (Packet \<Rightarrow> Packet) \<Rightarrow> peer
    \<Rightarrow> (Packet \<Rightarrow> bool \<times> Packet) \<Rightarrow> nat list \<Rightarrow> 'a BaseCache \<Rightarrow> (Packet list \<times> 'a BaseCache) option" where
  "retry_threads hr e vt up resp_peer send [] c = Some ([], c)"
| "retry_threads hr e vt up resp_peer send (i # is) c = do {
     (xs, c) \<leftarrow> mem_sendDeferredPacket hr e vt up resp_peer send (ThreadQueue i) c;
     (ys, c) \<leftarrow> retry_threads hr e vt up resp_peer send is c;
     Some (xs @ ys, c) }"

definition mem_recvRetry :: "'a responder \<Rightarrow> env \<Rightarrow> ('a LRU_scheme) vtable \<Rightarrow> (Packet \<Rightarrow> Packet) \<Rightarrow> peer
    \<Rightarrow> (Packet \<Rightarrow> bool \<times> Packet) \<Rightarrow> 'a BaseCache \<Rightarrow> (Packet list \<times> 'a BaseCache) option" where
  "mem_recvRetry hr e vt up resp_peer send c =
     (if isSplitMSHR c then retry_threads hr e vt up resp_peer send [0..<length (reqQueues c)] c
      else mem_sendDeferredPacket hr e vt up resp_peer send MainQueue c)"

end
