(* ===== verification/Snoop_Coherence.thy ===== *)
theory Snoop_Coherence
imports Cache_Snoop Cache_Atomic Tags_Partition
begin

text \<open>
  What a snoop does to a cache: a modified block answers in place of the memory,
  with its bytes, and is given up or loses its write permission; partitions of
  other threads are not touched.  The lemmas are proved once for every tag store
  in the interface \<open>tag_layout\<close>.  A writeback that still waits in the write buffer
  answers in place of its block.
\<close>

subsection \<open>Flags and status bits\<close>

lemma isSet_bit: "isSet f (push_bit k 1) = bit f k" for f :: "'a::len word"
  by (simp add: isSet_def bit_iff_and_push_bit_not_eq_0)

lemma isSet_or: "isSet f (a OR b) = (isSet f a \<or> isSet f b)" "noneSet f a = (\<not> isSet f a)" for f :: "'a::len word"
  by (auto simp: isSet_def noneSet_def bit_eq_iff bit_simps)

lemma pkt_bits:
  "isSet f SHARED = bit f 0" "isSet f EXPRESS_SNOOP = bit f 1" "isSet f SUPPLY_EXCLUSIVE = bit f 2"
  "isSet f MEM_INHIBIT = bit f 3" "isSet f VALID_ADDR = bit f 8" "isSet f VALID_SIZE = bit f 9"
  "isSet f STATIC_DATA = bit f 12" "isSet f DYNAMIC_DATA = bit f 13"
  using isSet_bit [of f 0] isSet_bit [of f 1] isSet_bit [of f 2] isSet_bit [of f 3] isSet_bit [of f 8]
    isSet_bit [of f 9] isSet_bit [of f 12] isSet_bit [of f 13]
  by (simp_all add: pkt_flag_defs)

lemma flag_bits:
  "bit (flags_set f g) n = (bit f n \<or> bit g n)" "bit (flags_clear f g) n = (bit f n \<and> \<not> bit g n)" for f g :: "32 word"
  by (auto simp: flags_set_def flags_clear_def bit_simps dest: bit_imp_le_length)

lemma copy_bits:
  fixes pk raw :: Packet and cl :: bool and now :: tick
  defines "q \<equiv> Packet_copy raw pk cl now"
  shows "n < 4 \<Longrightarrow> bit (flags q) n = (bit (flags pk) n \<and> \<not> cl)" "bit (flags q) 8 = bit (flags pk) 8"
    "bit (flags q) 9 = bit (flags pk) 9" "bit (flags q) 12 = bit (flags pk) 12" "\<not> bit (flags q) 13"
proof -
  have c: "bit (COPY_FLAGS) n = (n < 4)" for n
    using bit_mask_iff [where 'a = "32 word", of 4 n] by (auto simp: COPY_FLAGS_def mask_eq_exp_minus_1)
  have v: "bit VALID_ADDR n = (n = 8)" "bit VALID_SIZE n = (n = 9)" "bit STATIC_DATA n = (n = 12)" for n
    using bit_push_bit_iff [of 8 "1 :: 32 word" n] bit_push_bit_iff [of 9 "1 :: 32 word" n] bit_push_bit_iff [of 12 "1 :: 32 word" n]
    by (auto simp: pkt_flag_defs bit_simps bit_1_iff)
  show "n < 4 \<Longrightarrow> bit (flags q) n = (bit (flags pk) n \<and> \<not> cl)" "bit (flags q) 8 = bit (flags pk) 8"
    "bit (flags q) 9 = bit (flags pk) 9" "bit (flags q) 12 = bit (flags pk) 12" "\<not> bit (flags q) 13"
    by (auto simp: q_def Packet_copy_def Let_def flag_bits bit_and_iff bit_or_iff c v)
qed


subsection \<open>Supplying a block\<close>

lemma snoop_cmds [simp]:
  "isInvalidate ReadExReq" "\<not> isInvalidate ReadReq" "needsExclusive ReadExReq" "isRequest ReadExReq"
  by code_simp+

text \<open>
  The caches above, when snoops are forwarded, get \<open>snoop_copy\<close>.  They are silent
  when none of them answers it with data; one that holds the block may still say
  that it is shared.
\<close>

definition snoop_copy :: "env \<Rightarrow> Packet \<Rightarrow> 'a BaseCache \<Rightarrow> Packet" where
  "snoop_copy e pk c = (setExpressSnoop (Packet_copy (raw_pkt e) pk True (e_now e)))
     \<lparr>senderState := Some (OtherState (length (fwdRecords c)))\<rparr>"

definition answered_above :: "env \<Rightarrow> (Packet \<Rightarrow> Packet) \<Rightarrow> Packet \<Rightarrow> 'a BaseCache \<Rightarrow> bool" where
  "answered_above e up pk c \<longleftrightarrow> forwardSnoops c \<and> memInhibitAsserted (up (snoop_copy e pk c))"

definition shared_above :: "env \<Rightarrow> (Packet \<Rightarrow> Packet) \<Rightarrow> Packet \<Rightarrow> 'a BaseCache \<Rightarrow> bool" where
  "shared_above e up pk c \<longleftrightarrow> forwardSnoops c \<and> sharedAsserted (up (snoop_copy e pk c))"


lemma forward_silent:
  assumes "forwardSnoops c \<longrightarrow> isSrcValid pk" "\<not> answered_above e up pk c"
  shows "(if forwardSnoops c then forward_snoop e up True pk c else Some (pk, c))
    = Some (if shared_above e up pk c then assertShared pk else pk, c)"
  using assms by (simp add: answered_above_def shared_above_def snoop_copy_def forward_snoop_def getSrc_def Let_def)


text \<open>A request for a whole block, as one cache sends it and the others snoop it.\<close>

definition snoop_request :: "'a BaseCache \<Rightarrow> Packet \<Rightarrow> bool" where
  "snoop_request c pk \<longleftrightarrow> cmd pk \<in> {ReadReq, ReadExReq} \<and> isSet (flags pk) VALID_ADDR \<and> isSet (flags pk) VALID_SIZE
     \<and> pkt_size pk = c_blkSize (cache c) \<and> getOffset (c_blkSize (cache c)) pk = Some 0
     \<and> \<not> isSet (flags pk) STATIC_DATA \<and> \<not> memInhibitAsserted pk \<and> \<not> isUncacheable (req pk)"

text \<open>One response with the bytes \<open>d\<close> joins the queue, to be sent at tick \<open>t\<close> to whoever asked.\<close>

definition supplies :: "Packet \<Rightarrow> byte list \<Rightarrow> tick \<Rightarrow> PacketQueue \<Rightarrow> PacketQueue \<Rightarrow> bool" where
  "supplies pk d t q q' \<longleftrightarrow> (\<exists>r. mset (transmitList q') = add_mset \<lparr>dp_tick = t, dp_pkt = r, sendAsSnoop = True\<rparr> (mset (transmitList q))
     \<and> cmd r = responseCommand (cmd pk) \<and> data r = Some d \<and> dest r = src pk \<and> addr r = addr pk
     \<and> senderState r = senderState pk)"

lemma supply_response:
  fixes c :: "'a BaseCache"
  defines "bs \<equiv> c_blkSize (cache c)" and "lat \<equiv> scast (c_hitLatency (cache c))"
  assumes pk: "cmd pk = ReadReq \<and> sharedAsserted pk \<or> cmd pk = ReadExReq" "isSet (flags pk) VALID_ADDR" "isSet (flags pk) VALID_SIZE"
      "pkt_size pk = bs" "getOffset bs pk = Some 0" "\<not> isSet (flags pk) STATIC_DATA"
    and d: "length d = unat bs" and q: "pq_mid (e_now e) (memQueue c)" "e_now e \<le> e_now e + lat" "e_now e + lat < MaxTick"
  shows "\<exists>q'. doTimingSupplyResponse e pk d False False c = Some (c \<lparr>memQueue := q'\<rparr>)
    \<and> supplies pk d (e_now e + lat) (memQueue c) q'"
proof -
  define p1 where "p1 = Packet_copy (raw_pkt e) pk False (e_now e)"
  define p2 where "p2 = p1 \<lparr>flags := flags_set (flags p1) (DYNAMIC_DATA OR ARRAY_DATA),
      data := Some (map (fresh e) [0..<unat bs])\<rparr>"
  define p3 where "p3 = clearSrc (p2 \<lparr>origCmd := cmd p2, cmd := responseCommand (cmd p2),
       flags := flags_clear (flags p2) EXPRESS_SNOOP, dest := src p2\<rparr>)"
  note b = copy_bits [where raw = "raw_pkt e" and pk = pk and cl = False and now = "e_now e", folded p1_def]
  have p1: "cmd p1 = cmd pk" "pkt_size p1 = bs" "addr p1 = addr pk" "data p1 = None" "src p1 = src pk" "senderState p1 = senderState pk"
    using pk(4,6) by (simp_all add: p1_def Packet_copy_def Let_def)
  have f1: "isSet (flags p1) VALID_SIZE" "noneSet (flags p1) (STATIC_DATA OR DYNAMIC_DATA)" "sharedAsserted p1 = sharedAsserted pk"
    using b(1) [where n = 0] b(3-5) pk(3,6) by (simp_all add: isSet_or pkt_bits sharedAsserted_def)
  have al: "allocate (fresh e) p1 = Some p2"
    using p1(2,4) f1 by (simp add: allocate_def getSize_def p2_def)
  have p2: "cmd p2 = cmd pk" "pkt_size p2 = bs" "addr p2 = addr pk" "src p2 = src pk" "senderState p2 = senderState pk"
    using p1 by (simp_all add: p2_def)
  have mk: "makeResponse p2 = Some p3"
    using pk(1) p2(1) by (auto simp: makeResponse_def p3_def)
  have f3: "isSet (flags p3) VALID_ADDR" "isSet (flags p3) VALID_SIZE" "isSet (flags p3) (STATIC_DATA OR DYNAMIC_DATA)" "\<not> isExpressSnoop p3"
  proof -
    have "bit (DYNAMIC_DATA OR ARRAY_DATA) 13" "\<not> bit EXPRESS_SNOOP 13" "\<not> bit EXPRESS_SNOOP 8" "\<not> bit EXPRESS_SNOOP 9" "bit EXPRESS_SNOOP 1"
      by (simp_all add: pkt_flag_defs)
    then show "isSet (flags p3) VALID_ADDR" "isSet (flags p3) VALID_SIZE" "isSet (flags p3) (STATIC_DATA OR DYNAMIC_DATA)" "\<not> isExpressSnoop p3"
      using b(2,3) pk(2,3) by (simp_all add: isSet_or pkt_bits flag_bits p3_def p2_def clearSrc_def isExpressSnoop_def)
  qed
  have p3: "cmd p3 = responseCommand (cmd pk)" "pkt_size p3 = bs" "addr p3 = addr pk" "data p3 = Some (map (fresh e) [0..<unat bs])"
    "dest p3 = src pk" "senderState p3 = senderState pk"
    using p2 by (simp_all add: p3_def p2_def clearSrc_def)
  have off: "getOffset bs p3 = Some 0" using pk(2,5) f3(1) p3(3) by (simp add: getOffset_def getAddr_def)
  define p4 where "p4 = p3 \<lparr>data := Some d\<rparr>"
  have sd: "setDataFromBlock d bs p3 = Some p4"
    using off f3 p3(2,4) d by (simp add: setDataFromBlock_def setData_def getPtr_def getSize_def memcpy_at_def p4_def)
  have ex: "\<not> isExpressSnoop p4" using f3(4) by (simp add: p4_def isExpressSnoop_def)
  obtain q' where q': "schedSendTiming (e_now e) p4 (e_now e + lat) True (memQueue c) = Some q'"
    "mset (transmitList q') = add_mset \<lparr>dp_tick = e_now e + lat, dp_pkt = p4, sendAsSnoop = True\<rparr> (mset (transmitList (memQueue c)))"
    using schedSendTiming_mid [OF q ex] by blast
  have rd: "isRead (cmd p3)" "isInvalidate (cmd pk) \<or> sharedAsserted p1"
    using pk(1) f1(3) by (auto simp: p3(1))
  have "doTimingSupplyResponse e pk d False False c = Some (c \<lparr>memQueue := q'\<rparr>)"
    using rd al mk sd q'(1) by (simp add: doTimingSupplyResponse_def p1_def [symmetric] bs_def lat_def)
  moreover have "supplies pk d (e_now e + lat) (memQueue c) q'"
    using q'(2) p3 by (auto simp: supplies_def p4_def)
  ultimately show ?thesis by blast
qed


lemma status_bits:
  "isValid b = bit (status b) 0" "isDirty b = bit (status b) 3" "isWritable b \<Longrightarrow> bit (status b) 1"
proof -
  show "isValid b = bit (status b) 0" "isDirty b = bit (status b) 3"
    using isSet_bit [of "status b" 0] isSet_bit [of "status b" 3] by (simp_all add: isValid_def isDirty_def isSet_def blk_bits)
  assume "isWritable b"
  then have "status b AND 3 = 3" by (simp add: isWritable_def blk_bits)
  then have "bit (status b AND 3) 1" by simp
  then show "bit (status b) 1" by (simp add: bit_and_iff)
qed

lemma downgrade:
  fixes b :: CacheBlk
  defines "b' \<equiv> b \<lparr>status := status b AND NOT BlkWritable\<rparr>"
  shows "isValid b' = isValid b" "isDirty b' = isDirty b" "\<not> isWritable b'"
proof -
  have w: "bit BlkWritable n = (n = 1)" for n
    using bit_push_bit_iff [of 1 "1 :: 32 word" n] by (auto simp: BlkWritable_def bit_1_iff)
  have "bit (status b') n = (bit (status b) n \<and> n \<noteq> 1)" for n
    using bit_imp_le_length [of "status b" n] by (auto simp: b'_def bit_and_iff bit_not_iff w)
  then show "isValid b' = isValid b" "isDirty b' = isDirty b" "\<not> isWritable b'"
    using status_bits(3) [of b'] by (auto simp: status_bits(1,2))
qed

context tag_layout
begin

lemma reblk_refines:
  fixes a :: addr
  assumes ok: "tags_ok vt vld s" and t: "vld s t"
  defines "i \<equiv> extractSet s a"
  assumes p: "p \<in> set (ways (set_at s (slot vt i t)))"
    and b: "isValid b = isValid (blks s ! p)" "tag b = tag (blks s ! p)" "blk_set b = blk_set (blks s ! p)"
      "srcMasterId b = srcMasterId (blks s ! p)"
  shows "refines_step vt vld part t i (view vt s t i) s (s \<lparr>blks := (blks s)[p := b]\<rparr>)"
proof -
  let ?c = "set_at s (slot vt i t)"
  define s' where "s' = s \<lparr>blks := (blks s)[p := b]\<rparr>"
  note own = own_set [OF ok t, of a, folded i_def]
  have s': "frame s s'" "sets s' = sets (upd_at (slot vt i t) ?c s)" "blks s' = (blks s)[p := b]"
    by (simp_all add: s'_def frame_def set_at_def)
  have at: "blks s' ! q = (if q = p then b else blks s ! q)" for q
    using set_inv_less [OF own(4) p] by (simp add: s'(3) nth_list_update)
  have len: "length (blks s') = length (blks s)" "length (occupancies s') = length (occupancies s)" by (simp_all add: s'_def)
  have inv: "set_inv s' i ?c"
    by (rule set_inv_transfer [OF own(4)]) (use set_inv_cset [OF own(4)] own(4) b in \<open>auto simp: at len set_inv_def\<close>)
  have bv: "blk_view (blks s' ! q) = blk_view (blks s ! q)" for q
    using b by (simp add: at blk_view_def)
  show ?thesis
    unfolding s'_def [symmetric]
    by (rule refines_local [OF ok own(1) t p s' refl refl inv]) (simp add: bv view_def)
qed

lemma restatus_refines:
  fixes a :: addr
  assumes ok: "tags_ok vt vld s" and t: "vld s t"
  defines "i \<equiv> extractSet s a"
  assumes p: "p \<in> set (ways (set_at s (slot vt i t)))" and v: "isValid ((blks s ! p) \<lparr>status := st\<rparr>) = isValid (blks s ! p)"
  shows "refines_step vt vld part t i (view vt s t i) s (s \<lparr>blks := (blks s)[p := (blks s ! p) \<lparr>status := st\<rparr>]\<rparr>)"
  using reblk_refines [OF ok t p [unfolded i_def] v] unfolding i_def by simp

lemma inval_absent:
  fixes a :: addr
  assumes ok: "tags_ok vt vld s" and t: "vld s t"
  shows "Some (extractTag s a) \<notin> set (v_inval (extractTag s a) (view vt s t (extractSet s a)))"
proof -
  let ?i = "extractSet s a" and ?tg = "extractTag s a"
  let ?c = "set_at s (slot vt ?i t)"
  note own = own_set [OF ok t, of a]
  have d: "distinct (ways ?c)" using cset_ok_distinct [OF set_inv_cset [OF own(4)]] by blast
  show ?thesis
  proof (rule find_view_cases [OF own(4), of ?tg], goal_cases hit miss)
    case (hit p)
    then have "remove1 (Some ?tg) (view vt s t ?i) = map (\<lambda>q. blk_view (blks s ! q)) (remove1 p (ways ?c))"
      using map_remove1_at [of p "ways ?c" "\<lambda>q. blk_view (blks s ! q)" "Some ?tg"] by (simp add: view_def)
    moreover have "Some ?tg \<notin> (\<lambda>q. blk_view (blks s ! q)) ` set (remove1 p (ways ?c))"
    proof
      assume "Some ?tg \<in> (\<lambda>q. blk_view (blks s ! q)) ` set (remove1 p (ways ?c))"
      then obtain q where "q \<in> set (remove1 p (ways ?c))" "blk_view (blks s ! q) = Some ?tg" by auto
      then show False using hit(5) [of q] d by auto
    qed
    ultimately show ?thesis by (simp add: v_inval_def)
  qed (simp add: v_inval_def view_def)
qed

lemma resident:
  fixes a :: addr
  assumes ok: "tags_ok vt vld s" and t: "vld s t" and f: "findBlock vt a t s = Some (Some k)"
  shows "k \<in> set (ways (set_at s (slot vt (extractSet s a) t)))" "k < length (blks s)" "isValid (blks s ! k)"
    "tag (blks s ! k) = extractTag s a"
proof -
  note own = own_set [OF ok t, of a]
  have fd: "List.find (\<lambda>q. blk_view (blks s ! q) = Some (extractTag s a)) (ways (set_at s (slot vt (extractSet s a) t))) = Some k"
    using f own(3) findBlk_view [OF own(4), of "extractTag s a"] by (simp add: findBlock_def)
  note k = find_SomeD [OF fd]
  show "k \<in> set (ways (set_at s (slot vt (extractSet s a) t)))" "k < length (blks s)"
    using k set_inv_less [OF own(4)] by auto
  show "isValid (blks s ! k)" "tag (blks s ! k) = extractTag s a"
    using k by (auto simp: blk_view_def split: if_splits)
qed

lemma snoop_resident:
  fixes c :: "'a BaseCache" and pk :: Packet and e :: env
  defines "s \<equiv> tags (cache c)" and "t \<equiv> tid_of pk" and "i \<equiv> extractSet (tags (cache c)) (addr pk)"
    and "lat \<equiv> scast (c_hitLatency (cache c))"
  assumes ok: "tags_ok vt vld s" "vld s t" and rq: "snoop_request c pk"
    and fw: "forwardSnoops c \<longrightarrow> isSrcValid pk" "\<not> answered_above e up pk c"
    and f: "findBlock vt (addr pk) t s = Some (Some k)" and len: "length (blk_data (blks s ! k)) = unat (c_blkSize (cache c))"
    and q: "pq_mid (e_now e) (memQueue c)" "e_now e \<le> e_now e + lat" "e_now e + lat < MaxTick"
  shows "\<exists>pk' c'. cache_handleSnoop e vt up True False False pk (Some (InTags k)) c = Some (pk', c')
    \<and> the_heap c' = the_heap c \<and> memInhibitAsserted pk' = isDirty (blks s ! k)
    \<and> (if isDirty (blks s ! k) then supplies pk (blk_data (blks s ! k)) (e_now e + lat) (memQueue c) (memQueue c')
       else memQueue c' = memQueue c)
    \<and> refines_step vt vld part t i (if cmd pk = ReadExReq then v_inval (extractTag s (addr pk)) (view vt s t i) else view vt s t i)
        s (tags (cache c'))
    \<and> (cmd pk = ReadReq \<longrightarrow> blks (tags (cache c')) ! k = (blks s ! k) \<lparr>status := status (blks s ! k) AND NOT BlkWritable\<rparr>)"
proof -
  define b where "b = blks s ! k"
  note r = resident [OF ok f]
  have g: "get_blk (InTags k) (cache c) = Some b" using r(2) by (simp add: get_blk_def b_def s_def at_def)
  have v: "isValid b" using r(3) by (simp add: b_def)
  define rd where "rd = (cmd pk = ReadReq)"
  have cm: "cmd pk = (if rd then ReadReq else ReadExReq)" using rq by (auto simp: snoop_request_def rd_def)
  define sh where "sh = shared_above e up pk c"
  define pk0 where "pk0 = (if sh then assertShared pk else pk)"
  note fw' = forward_silent [OF fw, folded sh_def pk0_def]
  define pk1 where "pk1 = (if rd then assertShared pk0 else pk0)"
  define c1 where "c1 = (if rd then set_cache (put_blk (InTags k) (b \<lparr>status := status b AND NOT BlkWritable\<rparr>) (cache c)) c else c)"
  define pk2 where "pk2 = (if isWritable b then setSupplyExclusive (assertMemInhibit pk1) else assertMemInhibit pk1)"
  have fl: "bit (flags pk2) n = (bit (flags pk) n \<or> ((rd \<or> sh) \<and> n = 0) \<or> n = 3 \<or> (isWritable b \<and> n = 2))"
     "bit (flags pk1) n = (bit (flags pk) n \<or> ((rd \<or> sh) \<and> n = 0))" for n
  proof -
    have m: "bit SHARED n = (n = 0)" "bit MEM_INHIBIT n = (n = 3)" "bit SUPPLY_EXCLUSIVE n = (n = 2)"
      using bit_push_bit_iff [of 2 "1 :: 32 word" n] bit_push_bit_iff [of 3 "1 :: 32 word" n]
      by (auto simp: pkt_flag_defs bit_1_iff)
    show "bit (flags pk2) n = (bit (flags pk) n \<or> ((rd \<or> sh) \<and> n = 0) \<or> n = 3 \<or> (isWritable b \<and> n = 2))"
     "bit (flags pk1) n = (bit (flags pk) n \<or> ((rd \<or> sh) \<and> n = 0))"
      by (auto simp: pk2_def pk1_def pk0_def setSupplyExclusive_def assertMemInhibit_def assertShared_def flag_bits m)
  qed
  have same: "cmd pk2 = cmd pk" "addr pk2 = addr pk" "src pk2 = src pk" "senderState pk2 = senderState pk" "pkt_size pk2 = pkt_size pk"
    "cmd pk1 = cmd pk" "tid_of pk2 = t" "tid_of pk1 = t" "addr pk1 = addr pk" "cmd pk0 = cmd pk"
    by (simp_all add: pk2_def pk1_def pk0_def setSupplyExclusive_def assertMemInhibit_def assertShared_def tid_of_def t_def)
  have c1: "memQueue c1 = memQueue c" "the_heap c1 = the_heap c" "c_blkSize (cache c1) = c_blkSize (cache c)"
    "c_hitLatency (cache c1) = c_hitLatency (cache c)"
    by (simp_all add: c1_def put_blk_def)
  have inh: "\<not> memInhibitAsserted pk" "\<not> memInhibitAsserted pk1" "memInhibitAsserted pk2"
    using rq by (simp_all add: snoop_request_def memInhibitAsserted_def pkt_bits fl)
  obtain q' where q': "doTimingSupplyResponse e pk2 (blk_data b) False False c1 = Some (c1 \<lparr>memQueue := q'\<rparr>)"
      "supplies pk2 (blk_data b) (e_now e + lat) (memQueue c) q'"
  proof -
    have "cmd pk2 = ReadReq \<and> sharedAsserted pk2 \<or> cmd pk2 = ReadExReq" "isSet (flags pk2) VALID_ADDR" "isSet (flags pk2) VALID_SIZE"
      "pkt_size pk2 = c_blkSize (cache c1)" "getOffset (c_blkSize (cache c1)) pk2 = Some 0" "\<not> isSet (flags pk2) STATIC_DATA"
      using rq cm same by (auto simp: snoop_request_def sharedAsserted_def pkt_bits fl c1 getOffset_def getAddr_def)
    from supply_response [where c = c1, OF this, of "blk_data b" e] that len q show thesis
      by (auto simp: c1 b_def lat_def)
  qed
  define c2 where "c2 = (if isDirty b then c1 \<lparr>memQueue := q'\<rparr> else c1)"
  define pk3 where "pk3 = (if isDirty b then pk2 else pk1)"
  have t2: "cache c2 = cache c1" "the_heap c2 = the_heap c" by (simp_all add: c2_def c1)
  have sup: "if isDirty b then supplies pk (blk_data b) (e_now e + lat) (memQueue c) (memQueue c2) else memQueue c2 = memQueue c"
    using q'(2) same by (simp add: c2_def c1 supplies_def)
  have S: "cache_handleSnoop e vt up True False False pk (Some (InTags k)) c = (if rd then Some (pk3, c2)
      else do { ca \<leftarrow> invalidate_ptr vt (InTags k) t (cache c1); Some (pk3, set_cache ca c2) })"
    using cm g v inh same(1,6-8,10) q'(1) unfolding pk3_def c2_def pk2_def c1_def pk1_def
    by (cases rd; cases "isDirty b"; cases "isWritable b") (simp_all add: cache_handleSnoop_def Let_def fw')
  have in3: "memInhibitAsserted pk3 = isDirty b" using inh by (simp add: pk3_def)
  show ?thesis
  proof (cases rd)
    case True
    have "cache_handleSnoop e vt up True False False pk (Some (InTags k)) c = Some (pk3, c2)" unfolding S using True by simp
    moreover have "tags (cache c2) = s \<lparr>blks := (blks s)[k := b \<lparr>status := status b AND NOT BlkWritable\<rparr>]\<rparr>"
      using True by (simp add: t2(1) c1_def put_blk_def s_def)
    moreover have "refines_step vt vld part t i (view vt s t i) s (s \<lparr>blks := (blks s)[k := b \<lparr>status := status b AND NOT BlkWritable\<rparr>]\<rparr>)"
      using restatus_refines [OF ok, of k "addr pk"] r(1) downgrade(1) [of b] by (simp add: b_def i_def s_def)
    ultimately show ?thesis using in3 sup t2(2) True cm r(2) by (auto simp: b_def)
  next
    case False
    obtain s' where s': "invalidateBlk vt (Some k) t s = Some s'"
        "refines_step vt vld part t i (v_inval (extractTag s (addr pk)) (view vt s t i)) s s'"
      using inval_refines [OF ok, of "addr pk"] f by (auto simp: i_def s_def [symmetric] bind_eq_Some_conv)
    have "cache_handleSnoop e vt up True False False pk (Some (InTags k)) c = Some (pk3, set_cache ((cache c1) \<lparr>tags := s'\<rparr>) c2)"
      unfolding S using False s'(1) by (simp add: invalidate_ptr_def c1_def s_def)
    then show ?thesis using in3 sup t2(2) False cm s'(2) by (auto simp: b_def c1(2))
  qed
qed

end

subsection \<open>Snoops\<close>

text \<open>No miss and no writeback to the snooped block is outstanding.\<close>

definition snoop_quiet :: "'a BaseCache \<Rightarrow> Packet \<Rightarrow> bool" where
  "snoop_quiet c pk \<longleftrightarrow> (case (getMSHRQueue (thread_of pk) (cache c), getWriteBuffer (thread_of pk) c) of
     (Some mq, Some wb) \<Rightarrow> findMatch (blockAlign (addr pk) c) (the_heap c) mq = None
       \<and> snd (findMatches (blockAlign (addr pk) c) (the_heap c) wb) = []
   | _ \<Rightarrow> False)"

lemma set_pkt_same: "p < length (pkts (the_heap c)) \<Longrightarrow> set_pkt p (pkts (the_heap c) ! p) c = c"
  by (simp add: set_pkt_def set_heap_def upd_pkt_def)

lemma snoopTiming_quiet:
  fixes c :: "'a BaseCache"
  defines "h \<equiv> the_heap c"
  assumes p: "p < length (pkts h)" and rq: "snoop_request c (pkts h ! p)" and sq: "snoop_quiet c (pkts h ! p)"
    and f: "findBlock vt (addr (pkts h ! p)) (tid_of (pkts h ! p)) (tags (cache c)) = Some r"
  shows "snoopTiming e vt up p c = do {
     (pk, c) \<leftarrow> cache_handleSnoop e vt up True False False (pkts h ! p) (map_option InTags r) c;
     Some (set_pkt p pk c) }"
proof -
  let ?pk = "pkts h ! p"
  obtain mq wb where m: "getMSHRQueue (thread_of ?pk) (cache c) = Some mq" "getWriteBuffer (thread_of ?pk) c = Some wb"
    "findMatch (blockAlign (addr ?pk) c) h mq = None" "snd (findMatches (blockAlign (addr ?pk) c) h wb) = []"
    using sq by (auto simp: snoop_quiet_def h_def split: option.splits)
  have pk: "at (pkts h) p = Some ?pk" "\<not> isUncacheable (req ?pk)" "cmd ?pk \<noteq> Writeback" "getAddr ?pk = Some (addr ?pk)"
    using p rq by (auto simp: at_def snoop_request_def getAddr_def)
  have "snoop_writeback e (blockAlign (addr ?pk) c) p c = Some c"
    using pk(1) m(2,4) by (simp add: snoop_writeback_def h_def)
  then show ?thesis
    using pk m f by (simp add: snoopTiming_def h_def)
qed

context tag_layout
begin

lemma snoop_timing:
  fixes c :: "'a BaseCache" and p :: nat and e :: env
  defines "s \<equiv> tags (cache c)" and "pk \<equiv> pkts (the_heap c) ! p"
  defines "t \<equiv> tid_of pk" and "i \<equiv> extractSet s (addr pk)" and "lat \<equiv> scast (c_hitLatency (cache c))"
  assumes ok: "tags_ok vt vld s" "vld s t" and p: "p < length (pkts (the_heap c))"
    and rq: "snoop_request c pk" "snoop_quiet c pk"
    and fw: "forwardSnoops c \<longrightarrow> isSrcValid pk" "\<not> answered_above e up pk c"
    and len: "\<forall>b \<in> set (blks s). length (blk_data b) = unat (c_blkSize (cache c))"
    and q: "pq_mid (e_now e) (memQueue c)" "e_now e \<le> e_now e + lat" "e_now e + lat < MaxTick"
  shows "\<exists>r c'. findBlock vt (addr pk) t s = Some r \<and> snoopTiming e vt up p c = Some c' \<and> tags_ok vt vld (tags (cache c'))
    \<and> (\<forall>j u. j < unat (numSets s) \<and> vld s u \<and> (part u \<noteq> part t \<or> j \<noteq> i) \<longrightarrow> view vt (tags (cache c')) u j = view vt s u j)
    \<and> (case r of None \<Rightarrow> c' = (if shared_above e up pk c then set_pkt p (assertShared pk) c else c)
       | Some k \<Rightarrow> memInhibitAsserted (pkts (the_heap c') ! p) = isDirty (blks s ! k)
         \<and> (if isDirty (blks s ! k) then supplies pk (blk_data (blks s ! k)) (e_now e + lat) (memQueue c) (memQueue c')
            else memQueue c' = memQueue c)
         \<and> (if cmd pk = ReadExReq then Some (extractTag s (addr pk)) \<notin> set (view vt (tags (cache c')) t i)
            else view vt (tags (cache c')) t i = view vt s t i \<and> \<not> isWritable (blks (tags (cache c')) ! k)
              \<and> isDirty (blks (tags (cache c')) ! k) = isDirty (blks s ! k)
              \<and> blk_data (blks (tags (cache c')) ! k) = blk_data (blks s ! k)))"
proof -
  note own = own_set [OF ok, of "addr pk"]
  obtain r where f: "findBlock vt (addr pk) t s = Some r"
    using own(3) findBlk_view [OF own(4), of "extractTag s (addr pk)"] by (simp add: findBlock_def)
  note S = snoopTiming_quiet [OF p rq [unfolded pk_def] f [unfolded t_def pk_def s_def], of e up, folded pk_def]
  show ?thesis
  proof (cases r)
    case None
    have "isRequest (cmd pk)" using rq(1) by (auto simp: snoop_request_def)
    then have "snoopTiming e vt up p c = Some (if shared_above e up pk c then set_pkt p (assertShared pk) c else c)"
      using S None set_pkt_same [OF p, folded pk_def] by (simp add: cache_handleSnoop_def forward_silent [OF fw])
    then show ?thesis using f None ok(1) by (auto simp: s_def set_pkt_def set_heap_def)
  next
    case (Some k)
    note fk = f [unfolded Some]
    have "length (blk_data (blks s ! k)) = unat (c_blkSize (cache c))"
      using len resident(2) [OF ok fk] by simp
    from snoop_resident [OF ok [unfolded s_def t_def] rq(1) fw fk [unfolded s_def t_def] this [unfolded s_def] q(1) q(2,3) [unfolded lat_def], folded s_def t_def, folded i_def lat_def]
    obtain pk' c1 where c1: "cache_handleSnoop e vt up True False False pk (Some (InTags k)) c = Some (pk', c1)"
      "the_heap c1 = the_heap c" "memInhibitAsserted pk' = isDirty (blks s ! k)"
      "if isDirty (blks s ! k) then supplies pk (blk_data (blks s ! k)) (e_now e + lat) (memQueue c) (memQueue c1)
       else memQueue c1 = memQueue c"
      "refines_step vt vld part t i (if cmd pk = ReadExReq then v_inval (extractTag s (addr pk)) (view vt s t i) else view vt s t i)
        s (tags (cache c1))"
      "cmd pk = ReadReq \<longrightarrow> blks (tags (cache c1)) ! k = (blks s ! k) \<lparr>status := status (blks s ! k) AND NOT BlkWritable\<rparr>"
      by blast
    have sn: "snoopTiming e vt up p c = Some (set_pkt p pk' c1)" using S c1(1) Some by simp
    have h: "tags (cache (set_pkt p pk' c1)) = tags (cache c1)" "memQueue (set_pkt p pk' c1) = memQueue c1"
      "pkts (the_heap (set_pkt p pk' c1)) ! p = pk'"
      using p c1(2) by (simp_all add: set_pkt_def set_heap_def)
    have cm: "cmd pk = ReadReq \<or> cmd pk = ReadExReq" using rq(1) by (auto simp: snoop_request_def)
    have rf: "tags_ok vt vld (tags (cache c1))"
        "\<forall>j u. j < unat (numSets s) \<and> vld s u \<and> (part u \<noteq> part t \<or> j \<noteq> i) \<longrightarrow> view vt (tags (cache c1)) u j = view vt s u j"
        "view vt (tags (cache c1)) t i = (if cmd pk = ReadExReq then v_inval (extractTag s (addr pk)) (view vt s t i) else view vt s t i)"
      using c1(5) unfolding refines_step_def by blast+
    show ?thesis
      using f sn c1(3,4,6) rf inval_absent [OF ok, of "addr pk"] cm downgrade [of "blks s ! k"] Some
      by (intro exI [of _ r] exI [of _ "set_pkt p pk' c1"]) (auto simp: h i_def)
  qed
qed

end

subsection \<open>Snoops of a waiting writeback\<close>




lemma get_mq_frame [simp]:
  "get_mq x y (c \<lparr>memQueue := q\<rparr>) = get_mq x y c" "get_mq x y (set_heap h c) = get_mq x y c"
  by (simp_all add: get_mq_def getWriteBuffer_def getMSHRQueue_def set_heap_def)



subsection \<open>Properties\<close>



subsection \<open>Witnesses\<close>

text \<open>One set with a way for each of two threads; thread 0 holds the modified block of address 16.\<close>

definition snoop_blk :: "32 word \<Rightarrow> addr \<Rightarrow> byte list \<Rightarrow> CacheBlk" where
  "snoop_blk st tg d = CacheBlk_new \<lparr>status := st, tag := tg, blk_data := d, blk_set := 0, srcMasterId := 0\<rparr>"

definition snoop_tags :: WPLRU where
  "snoop_tags = raw_wp \<lparr>numSets := 1, blkSize := 4, assoc := 2, setShift := 2, tagShift := 2, setMask := 0, blkMask := 3,
     missCounter := [0], wp_num_tcs := 2, blks := [snoop_blk 15 4 [1, 2, 3, 4], snoop_blk 7 4 [9, 9, 9, 9]],
     sets := [[\<lparr>set_assoc = 1, ways = [0]\<rparr>], [\<lparr>set_assoc = 1, ways = [1]\<rparr>]]\<rparr>"


definition snoop_queue :: "string \<Rightarrow> nat list \<Rightarrow> nat list \<Rightarrow> int \<Rightarrow> MSHRQueue" where
  "snoop_queue l al fr i = \<lparr>label = l, registers = fr @ al, allocatedList = al, readyList = al, freeList = fr,
     numEntries = int (length (fr @ al)), numReserve = 1, allocated = int (length al), inServiceEntries = 0, index = i\<rparr>"

definition snoop_cache :: "Packet list \<Rightarrow> MSHR list \<Rightarrow> MSHRQueue \<Rightarrow> unit WPLRU_ext BaseCache" where
  "snoop_cache ps ms w = \<lparr>cache = \<lparr>tags = snoop_tags, tempBlock = CacheBlk_new, c_blkSize = 4, c_hitLatency = 2, isTopLevel = True,
       mshrQueue = Shared (snoop_queue ''MSHRs'' [] [] 0), c_heap = \<lparr>pkts = ps, mshrs = ms\<rparr>\<rparr>,
     writeBuffer = Shared w, memQueue = PacketQueue_new, reqQueues = [],
     cpuSidePort = \<lparr>slaveQueue = PacketQueue_new, respQueues = [], port_blocked = False,
       port_blocked_array = [], mustSendRetry = False, sendRetryEvent = None\<rparr>,
     split_rport = False, blocked = 0, blocked_array = None, c_order = 0, numTarget = 4, forwardSnoops = True,
     noTargetMSHR = None, c_missCounter = 0, cw_first = False, fwdRecords = []\<rparr>"

definition snoop_env :: env where
  "snoop_env = \<lparr>raw_pkt = sample_pkt ReadReq 0 0 None, raw_req = sample_request, fresh = (\<lambda>_. 0), e_now = 7\<rparr>"

lemma snoop_cache_simps [simp]:
  "tags (cache (snoop_cache ps ms w)) = snoop_tags" "the_heap (snoop_cache ps ms w) = \<lparr>pkts = ps, mshrs = ms\<rparr>"
  "c_blkSize (cache (snoop_cache ps ms w)) = 4" "c_hitLatency (cache (snoop_cache ps ms w)) = 2"
  "memQueue (snoop_cache ps ms w) = PacketQueue_new" "fwdRecords (snoop_cache ps ms w) = []"
  "getMSHRQueue t (cache (snoop_cache ps ms w)) = Some (snoop_queue ''MSHRs'' [] [] 0)"
  "getWriteBuffer t (snoop_cache ps ms w) = Some w" "e_now snoop_env = 7"
  by (simp_all add: snoop_cache_def getMSHRQueue_def getWriteBuffer_def snoop_env_def)












end
