(* ===== verification/Timing_Order.thy ===== *)
theory Timing_Order
imports Cache_Timing Snoop_Coherence
begin

text \<open>
  Which request a cache sends to the memory next, and what happens to the
  responses to snoops in a cache that is split by thread.
\<close>

subsection \<open>The order of requests\<close>





lemma trySendTiming_retry:
  assumes "trySendTiming now peer q = Some q'"
  shows "waitingOnRetry q' = (\<not> fst (peer (hd (transmitList q))))"
proof -
  obtain ok calls where p: "peer (hd (transmitList q)) = (ok, calls)" by (cases "peer (hd (transmitList q))")
  have d: "deferredPacketReady now q" using assms by (auto simp: trySendTiming_def split: if_splits)
  show ?thesis
    using assms d p
    by (cases "sched_all now calls (q \<lparr>transmitList := tl (transmitList q)\<rparr>)"; cases ok)
      (auto simp: trySendTiming_def Let_def split: if_splits)
qed

text \<open>
  C31: A snoop response in a cache that is split by thread waits in the queue that the
  port was constructed with, whose thread number is 5. With at most five threads,
  sending it reads past the end of the array of miss queues, and so does any other
  wake-up of that queue: only a response that the bus refuses leaves a defined state.
\<close>

theorem split_snoop_response_out_of_range:
  assumes "mshrQueue (cache c) = PerThread qs" "length qs \<le> 5"
    and "mem_sendDeferredPacket hr e vt up resp_peer send MainQueue c = Some (sent, c')"
  shows "deferredPacketReady (e_now e) (memQueue c) \<and> waitingOnRetry (memQueue c') \<and> sent = []
    \<and> \<not> fst (resp_peer (hd (transmitList (memQueue c))))"
proof -
  have no: "getMSHRQueue 5 (cache c) = None" using assms(1,2) by (simp add: getMSHRQueue_def at_def)
  have "cache_getNextMSHR (e_now e) 5 c = None" unfolding cache_getNextMSHR_def no by simp
  then have "getTimingPacket hr e vt up 5 c = None" unfolding getTimingPacket_def by simp
  then have off: "offer_request hr e vt up send MainQueue c = None" unfolding offer_request_def queue_ID.simps by simp
  have d: "deferredPacketReady (e_now e) (memQueue c)"
  proof (rule ccontr)
    assume "\<not> deferredPacketReady (e_now e) (memQueue c)"
    then show False using assms(3) unfolding mem_sendDeferredPacket_def get_rq.simps off by simp
  qed
  have S: "mem_sendDeferredPacket hr e vt up resp_peer send MainQueue c = (case trySendTiming (e_now e) resp_peer (memQueue c) of
      None \<Rightarrow> None | Some q \<Rightarrow> if waitingOnRetry q then Some ([], c \<lparr>memQueue := q\<rparr>) else
        (case cache_nextMSHRReadyTime 5 (c \<lparr>memQueue := q\<rparr>) of None \<Rightarrow> None
         | Some t \<Rightarrow> map_option (\<lambda>q. ([], c \<lparr>memQueue := q\<rparr>)) (scheduleSend (e_now e) t q)))"
    using d by (simp add: mem_sendDeferredPacket_def map_conv_bind_option comp_def split: option.split)
  have nt: "cache_nextMSHRReadyTime 5 (c \<lparr>memQueue := q\<rparr>) = None" for q
    using no by (simp add: cache_nextMSHRReadyTime_def)
  obtain q where q: "trySendTiming (e_now e) resp_peer (memQueue c) = Some q" "waitingOnRetry q" "sent = []" "c' = c \<lparr>memQueue := q\<rparr>"
    using assms(3) unfolding S nt by (auto split: option.splits if_splits)
  have "waitingOnRetry q = (\<not> fst (resp_peer (hd (transmitList (memQueue c)))))"
    by (rule trySendTiming_retry [OF q(1)])
  then show ?thesis using d q(2-4) by simp
qed

subsection \<open>Witnesses\<close>




definition refused_cache :: "unit WPLRU_ext BaseCache" where
  "refused_cache = (snoop_cache [] [] (snoop_queue ''write buffer'' [] [] 1))
     \<lparr>memQueue := PacketQueue_new \<lparr>transmitList := [\<lparr>dp_tick = 6, dp_pkt = sample_send, sendAsSnoop = True\<rparr>]\<rparr>\<rparr>"

definition refused_split :: "unit WPLRU_ext BaseCache" where
  "refused_split = set_cache ((cache refused_cache)
     \<lparr>mshrQueue := PerThread [snoop_queue ''MSHRs'' [] [] 0, snoop_queue ''MSHRs'' [] [] 0]\<rparr>) refused_cache"

theorem split_snoop_response_out_of_range_witness:
  "\<exists>c'. mem_sendDeferredPacket handleResponse snoop_env WPLRU_vt id (\<lambda>_. (False, [])) (\<lambda>p. (True, p)) MainQueue refused_split = Some ([], c')
    \<and> waitingOnRetry (memQueue c')"
proof -
  obtain sent c' where c': "mem_sendDeferredPacket handleResponse snoop_env WPLRU_vt id (\<lambda>_. (False, [])) (\<lambda>p. (True, p)) MainQueue refused_split
      = Some (sent, c')"
    by (simp add: mem_sendDeferredPacket_def deferredPacketReady_def trySendTiming_def refused_split_def refused_cache_def PacketQueue_new_def)
  moreover have "mshrQueue (cache refused_split) = PerThread [snoop_queue ''MSHRs'' [] [] 0, snoop_queue ''MSHRs'' [] [] 0]"
    by (simp add: refused_split_def)
  ultimately show ?thesis using split_snoop_response_out_of_range [OF _ _ c'] by auto
qed

end
