(* ===== verification/Dirty_Cache.thy ===== *)
theory Dirty_Cache
imports Cache_Timing Snoop_Coherence
begin

text \<open>
  The cache with two labels (\<open>mem/cache/dirty_cache.hh\<close>, the last part of
  \<open>cache_impl.hh\<close>): a Low and a High partition that are looked up with the read and
  the write label of a packet.  A Low request does not see a High block; when its
  response arrives, the fill takes the bytes of the High copy and invalidates it,
  and marks the new block as modified, whatever the memory sent.

  The class overrides the access path and the response handler; everything else is
  inherited and goes by thread number.  Its tag store is a \<open>DCLRU\<close>.
\<close>

definition rl_of :: "Packet \<Rightarrow> nat" where
  "rl_of pk = unat (readLabel pk)"

definition wl_of :: "Packet \<Rightarrow> nat" where
  "wl_of pk = unat (writeLabel pk)"

subsection \<open>The access path\<close>

definition D_access_uncacheable :: "Packet \<Rightarrow> unit Cache \<Rightarrow> unit Cache option" where
  "D_access_uncacheable pk c =
     (if isClearLL (req pk) then do { t \<leftarrow> clearLocks (tags c); Some (c \<lparr>tags := t\<rparr>) }
      else if isWrite (cmd pk) then do {
        a \<leftarrow> getAddr pk;
        blk \<leftarrow> DCLRU_findBlock a (rl_of pk) (wl_of pk) (tags c);
        case blk of None \<Rightarrow> Some c
        | Some i \<Rightarrow> do {
            locBlk \<leftarrow> DCLRU_locateBlock a (rl_of pk) (wl_of pk) (tags c);
            t \<leftarrow> invalidateBlk DCLRU_vt (Some i) locBlk (tags c);
            Some (c \<lparr>tags := t\<rparr>) } }
      else Some c)"

definition D_access :: "env \<Rightarrow> Packet \<Rightarrow> unit Cache
    \<Rightarrow> (bool \<times> nat option \<times> 32 word \<times> Packet list \<times> Packet \<times> unit Cache) option" where
  "D_access e pk c =
     (if isUncacheable (req pk) then do {
        c \<leftarrow> D_access_uncacheable pk c;
        Some (False, None, c_hitLatency c, [], pk, c) }
      else do {
        a \<leftarrow> getAddr pk;
        (blk, lat, t) \<leftarrow> DCLRU_accessBlock a (rl_of pk) (wl_of pk) (e_now e) (tags c);
        let c = c \<lparr>tags := t\<rparr>;
        hit \<leftarrow> (case blk of None \<Rightarrow> Some False
               | Some i \<Rightarrow> do { b \<leftarrow> get_blk (InTags i) c;
                   Some (if needsExclusive (cmd pk) then isWritable b else isReadable b) });
        if hit then do {
          i \<leftarrow> blk;
          (pk, c) \<leftarrow> satisfyCpuSideRequest DCLRU_vt False False (InTags i) pk c;
          Some (True, blk, lat, [], pk, c) }
        else if cmd pk = Writeback then do {
          (ok, blk, wbs, c) \<leftarrow> access_writeback e DCLRU_vt (wl_of pk) blk pk c;
          Some (ok, blk, lat, wbs, pk, c) }
        else if blk = None \<and> isLLSC (cmd pk) \<and> isWrite (cmd pk)
        then Some (True, blk, lat, [], pk \<lparr>req := setExtraData 0 (req pk)\<rparr>, c)
        else Some (False, blk, lat, [], pk, c) })"

text \<open>
  A fill.  The High copy is looked up before the replacement, and its bytes are read
  after it.
\<close>

definition D_place :: "env \<Rightarrow> Packet \<Rightarrow> addr \<Rightarrow> unit Cache \<Rightarrow> (BlkPtr \<times> Packet list \<times> unit Cache) option" where
  "D_place e pk a c = do {
     (r, wbs, c) \<leftarrow> allocateBlock e DCLRU_vt a (wl_of pk) c;
     (p, c) \<leftarrow> (case r of
         None \<Rightarrow> do {
           check (\<not> isValid (tempBlock c));
           Some (Temp, c \<lparr>tempBlock := (tempBlock c)
             \<lparr>blk_set := int (extractSet (tags c) a), tag := extractTag (tags c) a\<rparr>\<rparr>) }
       | Some i \<Rightarrow> do {
           t \<leftarrow> insertBlock DCLRU_vt a i (unat (masterId (req pk))) (wl_of pk) (e_now e) (tags c);
           Some (InTags i, c \<lparr>tags := t\<rparr>) });
     b \<leftarrow> get_blk p c;
     Some (p, wbs, put_blk p (b \<lparr>status := 0\<rparr>) c) }"

definition D_copy_in :: "Packet \<Rightarrow> BlkPtr \<Rightarrow> nat option \<Rightarrow> unit Cache \<Rightarrow> unit Cache option" where
  "D_copy_in pk p blk_H c = do {
     b \<leftarrow> get_blk p c;
     case blk_H of
       Some h \<Rightarrow> do {
         bh \<leftarrow> get_blk (InTags h) c;
         d \<leftarrow> memcpy_at (blk_data b) 0 (blk_data bh) (unat (c_blkSize c));
         invalidate_ptr DCLRU_vt (InTags h) 1 (put_blk p (b \<lparr>blk_data := d\<rparr>) c) }
     | None \<Rightarrow> do {
         s \<leftarrow> getPtr pk;
         d \<leftarrow> memcpy_at (blk_data b) 0 s (unat (c_blkSize c));
         Some (put_blk p (b \<lparr>blk_data := d\<rparr>) c) } }"

text \<open>The status after a fill: modified in any case.\<close>

definition D_fill_status :: "Packet \<Rightarrow> 32 word \<Rightarrow> 32 word" where
  "D_fill_status pk st =
     (let st = st OR (BlkValid OR BlkReadable OR BlkDirty) in
      if sharedAsserted pk then st
      else if memInhibitAsserted pk then st OR BlkWritable OR BlkDirty else st OR BlkWritable)"

definition D_handleFill :: "env \<Rightarrow> Packet \<Rightarrow> BlkPtr option \<Rightarrow> unit Cache
    \<Rightarrow> (BlkPtr \<times> Packet list \<times> unit Cache) option" where
  "D_handleFill e pk blk c = do {
     a \<leftarrow> getAddr pk;
     (p, blk_H, wbs, c) \<leftarrow> (case blk of
         None \<Rightarrow> do {
           check (hasData (cmd pk));
           blk_H \<leftarrow> DCLRU_findBlock a 1 1 (tags c);
           (p, wbs, c) \<leftarrow> D_place e pk a c;
           Some (p, blk_H, wbs, c) }
       | Some p \<Rightarrow> do {
           b \<leftarrow> get_blk p c;
           check (tag b = extractTag (tags c) a);
           check (hasData (cmd pk) \<or> isValid b);
           Some (p, None, [], c) });
     b \<leftarrow> get_blk p c;
     let c = put_blk p (b \<lparr>status := D_fill_status pk (status b)\<rparr>) c;
     c \<leftarrow> (if isRead (cmd pk) then D_copy_in pk p blk_H c else Some c);
     b \<leftarrow> get_blk p c;
     Some (p, wbs, put_blk p (b \<lparr>whenReady := finishTime pk\<rparr>) c) }"

subsection \<open>Timing mode\<close>

text \<open>Misses, targets and writebacks are handled by the code that the class copies from its base.\<close>

definition D_timing_uncacheable :: "env \<Rightarrow> tick \<Rightarrow> nat \<Rightarrow> Packet \<Rightarrow> unit BaseCache \<Rightarrow> unit BaseCache option" where
  "D_timing_uncacheable e time p pk c = do {
     ca \<leftarrow> D_access_uncacheable pk (cache c);
     let c = set_cache ca c;
     (m, c) \<leftarrow> (if isWrite (cmd pk) \<and> \<not> isRead (cmd pk) then allocateWriteBuffer (e_now e) p time True c
       else allocateUncachedReadBuffer (e_now e) p time True c);
     check (needsResponse (cmd pk));
     Some c }"

definition D_timing_cacheable :: "env \<Rightarrow> tick \<Rightarrow> nat \<Rightarrow> Packet \<Rightarrow> unit BaseCache \<Rightarrow> unit BaseCache option" where
  "D_timing_cacheable e time p pk c = do {
     (satisfied, blk, lat, wbs, pk, ca) \<leftarrow> D_access e pk (cache c);
     let c = set_pkt p pk (set_cache ca c);
     c \<leftarrow> (if satisfied then
         if needsResponse (cmd pk) then do {
           pk \<leftarrow> makeResponse pk;
           let c = set_pkt p pk c;
           schedTimingResp (e_now e) pk (e_now e + scast lat) (thread_of pk) c }
         else Some c
       else timing_miss e time p pk blk c);
     buffer_all e time wbs c }"

definition D_handleResponse :: "unit responder" where
  "D_handleResponse e vt up pk c = do {
     let time = e_now e + scast (c_hitLatency (cache c));
     m \<leftarrow> (case senderState pk of Some (MSHRState m) \<Rightarrow> Some m | _ \<Rightarrow> None);
     r \<leftarrow> at (mshrs (the_heap c)) m;
     mq \<leftarrow> get_mq (odd (queue r)) (queue r div 2) c;
     let wasFull = isFull mq;
     c \<leftarrow> (if noTargetMSHR c = Some m then do {
         c \<leftarrow> clearBlocked (e_now e) Blocked_NoTargets (thread_of pk) c;
         Some (c \<lparr>noTargetMSHR := None\<rparr>) }
       else Some c);
     initial_tgt \<leftarrow> getTarget r;
     a \<leftarrow> getAddr pk;
     found \<leftarrow> DCLRU_findBlock a (rl_of pk) (wl_of pk) (tags (cache c));
     let is_fill = (\<not> isForward r \<and> (isRead (cmd pk) \<or> cmd pk = UpgradeResp));
     (blk, wbs, c) \<leftarrow> (if is_fill \<and> \<not> isError (cmd pk) then do {
         h \<leftarrow> mshr_handleFill m pk (the_heap c);
         let c = set_heap h c;
         (p, wbs, ca) \<leftarrow> D_handleFill e pk (map_option InTags found) (cache c);
         Some (Some p, wbs, set_cache ca c) }
       else Some (map_option InTags found, [], c));
     r \<leftarrow> at (mshrs (the_heap c)) m;
     initial_offset \<leftarrow> (case tl_list (targets r) of [] \<Rightarrow> Some 0
       | t # ts \<Rightarrow> do { tpk \<leftarrow> at (pkts (the_heap c)) (pkt t);
           off \<leftarrow> getOffset (c_blkSize (cache c)) tpk; Some (ucast off) });
     c \<leftarrow> serve_targets e DCLRU_vt up is_fill initial_offset pk m blk (tl_list (targets r)) c;
     c \<leftarrow> post_snoops DCLRU_vt (wl_of pk) pk m blk c;
     c \<leftarrow> finish_mshr e wasFull pk m blk c;
     c \<leftarrow> buffer_all e time wbs c;
     if blk = Some Temp then release_temp e DCLRU_vt time (wl_of pk) c else Some c }"

definition D_timingAccess :: "unit requester" where
  "D_timingAccess e vt up p c = do {
     let time = e_now e + scast (c_hitLatency (cache c));
     pk \<leftarrow> at (pkts (the_heap c)) p;
     if isResponse (cmd pk) then
       (case senderState pk of
          Some (OtherState k) \<Rightarrow> do {
            (state, s) \<leftarrow> at (fwdRecords c) k;
            let pk = setDest s (pk \<lparr>senderState := state\<rparr>);
            q \<leftarrow> schedSendTiming (e_now e) pk time True (memQueue c);
            Some ([], set_pkt p pk (c \<lparr>memQueue := q\<rparr>)) }
        | _ \<Rightarrow> do {
            check (cmd pk = HardPFResp);
            c \<leftarrow> D_handleResponse e vt up pk c;
            Some ([], c) })
     else do {
       check (isRequest (cmd pk));
       if memInhibitAsserted pk then do {
         check (\<not> isUncacheable (req pk));
         if needsExclusive (cmd pk) \<and> \<not> isSupplyExclusive pk
         then Some ([assertMemInhibit (setExpressSnoop (Packet_copy (raw_pkt e) pk True (e_now e)))], c)
         else Some ([], c) }
       else do {
         c \<leftarrow> (if isUncacheable (req pk) then D_timing_uncacheable e time p pk c
           else D_timing_cacheable e time p pk c);
         Some ([], c) } } }"

definition DirtyCache_new :: "unit BaseCache \<Rightarrow> (nat \<Rightarrow> byte) \<Rightarrow> (nat \<Rightarrow> MSHR) \<Rightarrow> CacheParams \<Rightarrow> LRU \<Rightarrow> heap \<Rightarrow> unit BaseCache option" where
  "DirtyCache_new = SplitRPortCache_new"

end
