(* ===== verification/Dirty_Fill.thy ===== *)
theory Dirty_Fill
imports Dirty_Cache
begin

text \<open>
  What a fill of the cache with two labels does to the two partitions, and what
  the inherited code does with a block of the other partition.
\<close>

subsection \<open>Replacement\<close>

text \<open>
  No miss to a resident block is outstanding.  Then \<open>allocateBlock\<close> finds a block to
  replace; a victim with a miss of its own, an upgrade, makes it return \<open>NULL\<close>, and
  \<open>handleFill\<close> fills \<open>tempBlock\<close> instead (\<open>cache_impl.hh\<close>, lines 2602 to 2610).  That
  path is in the model, and outside the properties below.
\<close>

definition no_upgrade :: "'a Cache \<Rightarrow> bool" where
  "no_upgrade c \<longleftrightarrow> (\<forall>b \<in> set (blks (tags c)). isValid b \<longrightarrow> (case getMSHRQueue (blk_threadID b) c of None \<Rightarrow> False
     | Some mq \<Rightarrow> findMatch (regenerateBlkAddr (tags c) (tag b) (nat (blk_set b))) (c_heap c) mq = None))"

text \<open>The writeback of a victim: its address and its bytes.\<close>

definition written_back :: "'a Cache \<Rightarrow> nat \<Rightarrow> Packet list \<Rightarrow> bool" where
  "written_back c p wbs \<longleftrightarrow> (let b = blks (tags c) ! p in
     if isValid b \<and> isDirty b then \<exists>wb. wbs = [wb] \<and> cmd wb = Writeback
       \<and> getAddr wb = Some (regenerateBlkAddr (tags c) (tag b) (nat (blk_set b))) \<and> getPtr wb = Some (blk_data b)
     else wbs = [])"

lemma writebackBlk_copy:
  fixes c :: "'a Cache"
  assumes b: "get_blk (InTags p) c = Some b" "isValid b" "isDirty b" "0 \<le> blk_set b"
    and sz: "0 \<le>s c_blkSize c" "length (blk_data b) = unat (c_blkSize c)"
  shows "\<exists>wb. writebackBlk e (InTags p) tid c
       = Some (wb, put_blk (InTags p) (b \<lparr>status := status b AND NOT BlkDirty\<rparr>) c)
     \<and> cmd wb = Writeback \<and> getAddr wb = Some (regenerateBlkAddr (tags c) (tag b) (nat (blk_set b)))
     \<and> getPtr wb = Some (blk_data b)"
proof -
  define r where "r = raw_req e \<lparr>paddr := regenerateBlkAddr (tags c) (tag b) (nat (blk_set b)),
     req_size := c_blkSize c, req_time := e_now e, req_masterId := wbMasterId, req_flags := 0,
     privateFlags := VALID_PADDR OR REQ_VALID_SIZE\<rparr>"
  have r: "Request_phys (raw_req e) (regenerateBlkAddr (tags c) (tag b) (nat (blk_set b))) (c_blkSize c) 0
      wbMasterId (e_now e) = Some r"
    using sz(1) by (simp add: Request_phys_def setPhys_def Request_new_def r_def flags_defs req_flag_defs)
  have rf: "hasPaddr r" "hasSize r" "req_size r = c_blkSize c" "paddr r = regenerateBlkAddr (tags c) (tag b) (nat (blk_set b))"
    by (simp_all add: r_def hasPaddr_def hasSize_def flags_defs req_flag_defs)
  show ?thesis
    unfolding writebackBlk_def b(1)
    using b(2-4) r rf sz(2)
    by (cases "isWritable b") (simp_all add: Packet_new_tid_def Packet_from_req_def Packet_init_def Let_def setSupplyExclusive_def
        allocate_def getSize_def getPtr_def getAddr_def memcpy_at_def flags_defs pkt_flag_defs)
qed

context tag_layout
begin

lemma replace_victim:
  fixes c :: "'a Cache" and a :: addr and t :: nat
  defines "s \<equiv> tags c"
  defines "p \<equiv> last (ways (set_at s (slot vt (extractSet s a) t)))"
  assumes ok: "tags_ok vt vld s" "vld s t" and nu: "no_upgrade c" and sz: "0 \<le>s c_blkSize c"
    and len: "\<forall>b \<in> set (blks s). length (blk_data b) = unat (c_blkSize c)"
  shows "\<exists>wbs st. allocateBlock e vt a t c = Some (Some p, wbs, put_blk (InTags p) ((blks s ! p) \<lparr>status := st\<rparr>) c)
     \<and> isValid ((blks s ! p) \<lparr>status := st\<rparr>) = isValid (blks s ! p) \<and> written_back c p wbs"
proof -
  let ?b = "blks s ! p"
  note own = own_set [OF ok, of a]
  note dist = cset_ok_distinct [OF set_inv_cset [OF own(4)]]
  have p1: "p \<in> set (ways (set_at s (slot vt (extractSet s a) t)))" using dist by (simp add: p_def)
  have pl: "p < length (blks s)" using set_inv_less [OF own(4) p1] .
  have vic: "findVictim vt a t s = Some p"
    using own(3,5) dist pl by (simp add: findVictim_def p_def last_conv_nth)
  have g: "get_blk (InTags p) c = Some ?b" using pl by (simp add: get_blk_def s_def)
  have set: "0 \<le> blk_set ?b" using own(4) p1 by (simp add: set_inv_def)
  have same: "put_blk (InTags p) (?b \<lparr>status := status ?b\<rparr>) c = c" by (simp add: put_blk_def s_def)
  have bs: "?b \<in> set (blks s)" using pl by simp
  show ?thesis
  proof (cases "isValid ?b")
    case True
    obtain mq where mq: "getMSHRQueue (blk_threadID ?b) c = Some mq"
      "findMatch (regenerateBlkAddr s (tag ?b) (nat (blk_set ?b))) (c_heap c) mq = None"
      using nu True bs by (auto simp: no_upgrade_def s_def split: option.splits)
    show ?thesis
    proof (cases "isDirty ?b")
      case d: True
      obtain wb where wb: "writebackBlk e (InTags p) (blk_threadID ?b) c
           = Some (wb, put_blk (InTags p) (?b \<lparr>status := status ?b AND NOT BlkDirty\<rparr>) c)"
         "cmd wb = Writeback" "getAddr wb = Some (regenerateBlkAddr s (tag ?b) (nat (blk_set ?b)))" "getPtr wb = Some (blk_data ?b)"
        using writebackBlk_copy [OF g True d set sz, of e "blk_threadID ?b"] len bs by (auto simp: s_def)
      have "allocateBlock e vt a t c = Some (Some p, [wb], put_blk (InTags p) (?b \<lparr>status := status ?b AND NOT BlkDirty\<rparr>) c)"
        using vic g True d set mq wb(1) by (simp add: allocateBlock_def s_def Let_def)
      then show ?thesis using wb(2-4) True d by (auto simp: written_back_def s_def Let_def)
    next
      case d: False
      have "allocateBlock e vt a t c = Some (Some p, [], put_blk (InTags p) (?b \<lparr>status := status ?b\<rparr>) c)"
        unfolding same using vic g True d set mq by (simp add: allocateBlock_def s_def Let_def)
      then show ?thesis using d by (intro exI [of _ "[]"] exI [of _ "status ?b"]) (simp add: written_back_def s_def Let_def)
    qed
  next
    case False
    have "allocateBlock e vt a t c = Some (Some p, [], put_blk (InTags p) (?b \<lparr>status := status ?b\<rparr>) c)"
      unfolding same using vic g False by (simp add: allocateBlock_def s_def Let_def)
    then show ?thesis using False by (intro exI [of _ "[]"] exI [of _ "status ?b"]) (simp add: written_back_def s_def Let_def)
  qed
qed

lemma other_ways:
  assumes "tags_ok vt vld s" "vld s t" "vld s u" "i < unat (numSets s)" "part u \<noteq> part t"
    and "p \<in> set (ways (set_at s (slot vt i t)))"
  shows "p \<notin> set (ways (set_at s (slot vt i u)))"
proof -
  have "slot vt i u \<noteq> slot vt i t" using slot_eq assms(5) by blast
  then have "set (ways (set_at s (slot vt i t))) \<inter> set (ways (set_at s (slot vt i u))) = {}"
    using assms(1-4) unfolding tags_ok_def by metis
  then show ?thesis using assms(6) by blast
qed

text \<open>A look-up in a partition does not see a change of another one.\<close>

lemma find_other:
  fixes a :: addr and s :: "'a LRU_scheme"
  defines "i \<equiv> extractSet s a"
  assumes ok: "tags_ok vt vld s" "vld s t" "vld s u" "part u \<noteq> part t" and ok': "tags_ok vt vld s'" "vld s' u" "frame s s'"
    and p: "p \<in> set (ways (set_at s (slot vt i t)))"
    and s': "sets s' = sets (upd_at (slot vt i t) x s)" "blks s' = (blks s)[p := b]"
  shows "findBlock vt a u s' = findBlock vt a u s"
proof -
  note own = own_set [OF ok(1,3), of a] own_set [OF ok(1,2), of a]
  have ex: "extractSet s' a = extractSet s a" "extractTag s' a = extractTag s a" using frame_extract [OF ok'(3)] by simp_all
  note own' = own_set [OF ok'(1,2), of a, unfolded ex]
  have "slot vt i u \<noteq> slot vt i t" using slot_eq ok(4) by blast
  then have st: "set_at s' (slot vt i u) = set_at s (slot vt i u)"
    using set_at_cong [OF s'(1)] own(7) by (simp add: i_def)
  have np: "p \<notin> set (ways (set_at s (slot vt i u)))"
    by (rule other_ways [OF ok(1-3) own(1) ok(4), folded i_def]) (rule p)
  have same: "blks s' ! q = blks s ! q" if "q \<in> set (ways (set_at s (slot vt i u)))" for q
    using np that s'(2) by (metis nth_list_update_neq)
  have "List.find (\<lambda>q. blk_view (blks s' ! q) = Some y) (ways (set_at s (slot vt i u)))
      = List.find (\<lambda>q. blk_view (blks s ! q) = Some y) (ways (set_at s (slot vt i u)))" for y
    by (rule find_cong) (use same in simp_all)
  then show ?thesis
    unfolding findBlock_def ex own(3) own'(3) Option.bind.bind_lunit findBlk_view [OF own(4)] findBlk_view [OF own'(4)]
    by (simp add: st [unfolded i_def] i_def)
qed

lemma resident_find:
  fixes a :: addr
  assumes "tags_ok vt vld s" "vld s t" "p \<in> set (ways (set_at s (slot vt (extractSet s a) t)))"
    and "isValid (blks s ! p)" "tag (blks s ! p) = extractTag s a"
  shows "findBlock vt a t s = Some (Some p)"
proof -
  note own = own_set [OF assms(1,2), of a]
  have "blk_view (blks s ! p) = Some (extractTag s a)" using assms(4,5) by (simp add: blk_view_def)
  then have b: "Some (extractTag s a) \<in> set (map (\<lambda>q. blk_view (blks s ! q)) (ways (set_at s (slot vt (extractSet s a) t))))"
    "blk_view (blks s ! p) = Some (extractTag s a)"
    using assms(3) by force+
  show ?thesis
    unfolding findBlock_def own(3) Option.bind.bind_lunit findBlk_view [OF own(4)]
  proof (rule find_view_cases [OF own(4), of "extractTag s a"], goal_cases hit miss)
    case (hit k)
    then show ?case using hit(5) [OF assms(3)] b(2) by simp
  next
    case miss
    then show ?case using b(1) by blast
  qed
qed

lemma find_absent:
  fixes a :: addr
  assumes "tags_ok vt vld s" "vld s t"
  shows "\<exists>r. findBlock vt a t s = Some r \<and> (r = None \<longleftrightarrow> Some (extractTag s a) \<notin> set (view vt s t (extractSet s a)))"
proof -
  note own = own_set [OF assms, of a]
  show ?thesis
    unfolding findBlock_def own(3) Option.bind.bind_lunit findBlk_view [OF own(4)] view_def
    by (rule find_view_cases [OF own(4), of "extractTag s a"]) simp_all
qed

end

lemma invalidate_parts:
  assumes "invalidateBlk vt (Some h) t s = Some s'"
  shows "\<exists>b x. blks s' = (blks s)[h := b] \<and> sets s' \<in> {sets s, sets (upd_at (slot vt (nat (blk_set (blks s ! h))) t) x s)}"
  using assms by (auto simp: invalidateBlk_def at_def Let_def bind_eq_Some_conv upd_at_def split: if_splits)

text \<open>A labelled look-up is a look-up in one partition.\<close>

lemma dc_find:
  fixes a :: addr
  assumes ok: "tags_ok DCLRU_vt dc_label s" and lab: "rl < 2" "wl < 2"
  defines "l \<equiv> if rl = 0 \<or> Some (extractTag s a) \<in> set (view DCLRU_vt s 0 (extractSet s a)) then 0 else 1"
  shows "DCLRU_findBlock a rl wl s = findBlock DCLRU_vt a l s"
proof -
  have v: "dc_label s 0" "dc_label s 1" by (simp_all add: dc_label_def)
  obtain r0 r1 where r: "findBlock DCLRU_vt a 0 s = Some r0" "findBlock DCLRU_vt a 1 s = Some r1"
    "r0 = None \<longleftrightarrow> Some (extractTag s a) \<notin> set (view DCLRU_vt s 0 (extractSet s a))"
    using dc.find_absent [OF ok v(1), of a] dc.find_absent [OF ok v(2), of a] by blast
  have "rl = 0 \<or> rl = 1" "wl = 0 \<or> wl = 1" using lab by auto
  then show ?thesis
    using r by (auto simp: DCLRU_findBlock_def findBlock_def l_def Let_def bind_eq_Some_conv)
qed

subsection \<open>A fill\<close>

text \<open>What identifies a block: its tag, its set and the master that brought it in.\<close>

definition same_place :: "CacheBlk \<Rightarrow> CacheBlk \<Rightarrow> bool" where
  "same_place b b' \<longleftrightarrow> tag b' = tag b \<and> blk_set b' = blk_set b \<and> srcMasterId b' = srcMasterId b"

definition fill_ok :: "unit Cache \<Rightarrow> Packet \<Rightarrow> bool" where
  "fill_ok c pk \<longleftrightarrow> tags_ok DCLRU_vt dc_label (tags c) \<and> no_upgrade c \<and> 0 \<le>s c_blkSize c
     \<and> (\<forall>b \<in> set (blks (tags c)). length (blk_data b) = unat (c_blkSize c))
     \<and> unat (masterId (req pk)) < length (occupancies (tags c)) \<and> wl_of pk < 2"

lemma place_refines:
  fixes c :: "unit Cache" and pk :: Packet and a :: addr
  defines "s \<equiv> tags c" and "l \<equiv> wl_of pk"
  defines "i \<equiv> extractSet s a" and "tg \<equiv> extractTag s a"
  defines "ws \<equiv> set_at s (slot DCLRU_vt i l)"
  defines "q \<equiv> last (ways ws)"
  assumes ok: "fill_ok c pk" and miss: "Some tg \<notin> set (view DCLRU_vt s l i)"
  shows "\<exists>wbs s1 b0. D_place e pk a c = Some (InTags q, wbs, c \<lparr>tags := s1 \<lparr>blks := (blks s)[q := b0]\<rparr>\<rparr>)
     \<and> q \<in> set (ways ws) \<and> q < length (blks s) \<and> written_back c q wbs \<and> status b0 = 0 \<and> tag b0 = tg
     \<and> length (blk_data b0) = unat (c_blkSize c)
     \<and> sets s1 = sets (upd_at (slot DCLRU_vt i l) (ws \<lparr>ways := to_head q (ways ws)\<rparr>) s)
     \<and> (\<forall>b. isValid b \<and> same_place b0 b \<longrightarrow>
           refines_step DCLRU_vt dc_label id l i (v_fill tg (view DCLRU_vt s l i)) s (s1 \<lparr>blks := (blks s)[q := b]\<rparr>))"
proof -
  have t: "tags_ok DCLRU_vt dc_label s" "dc_label s l" and nu: "no_upgrade c" "0 \<le>s c_blkSize c"
    and len: "\<forall>b \<in> set (blks (tags c)). length (blk_data b) = unat (c_blkSize c)"
    and m: "unat (masterId (req pk)) < length (occupancies s)"
    using ok by (simp_all add: fill_ok_def s_def l_def dc_label_def)
  obtain wbs st where al: "allocateBlock e DCLRU_vt a l c = Some (Some q, wbs, put_blk (InTags q) ((blks s ! q) \<lparr>status := st\<rparr>) c)"
      "isValid ((blks s ! q) \<lparr>status := st\<rparr>) = isValid (blks s ! q)" "written_back c q wbs"
    using dc.replace_victim [OF t [unfolded s_def] nu len, of e a] unfolding q_def ws_def i_def s_def by blast
  define b1 where "b1 = (blks s ! q) \<lparr>status := st\<rparr>"
  define s' where "s' = s \<lparr>blks := (blks s)[q := b1]\<rparr>"
  have c': "put_blk (InTags q) b1 c = c \<lparr>tags := s'\<rparr>" by (simp add: put_blk_def s'_def s_def)
  have ex: "extractSet s' a = i" "extractTag s' a = tg" "set_at s' x = set_at s x" "dc_label s' l" "occupancies s' = occupancies s"
    "blks s' = (blks s)[q := b1]" for x
    using t(2) by (simp_all add: s'_def extractSet_def extractTag_def set_at_def i_def tg_def dc_label_def)
  note I = dc.insert_refines [OF t m miss [unfolded tg_def i_def], folded i_def tg_def, folded ws_def, folded q_def]
  have R: "refines_step DCLRU_vt dc_label id l i (view DCLRU_vt s l i) s s'"
    using dc.restatus_refines [OF t, of q a st] I(2) al(2) by (simp add: s'_def b1_def ws_def i_def)
  have t': "tags_ok DCLRU_vt dc_label s'" "view DCLRU_vt s' l i = view DCLRU_vt s l i" using R by (simp_all add: refines_step_def)
  have set1: "last (ways (set_at s' (slot DCLRU_vt (extractSet s' a) l))) = q" "blks s' ! q = b1"
    "\<And>b. (blks s')[q := b] = (blks s)[q := b]"
    using I(3) by (simp_all add: ex ws_def [symmetric] q_def [symmetric])
  have "Some (extractTag s' a) \<notin> set (view DCLRU_vt s' l (extractSet s' a))" unfolding ex t'(2) by (rule miss)
  from dc.insert_refines(5) [OF t'(1) ex(4) m [folded ex(5)] this, of "e_now e", unfolded ex(1-3) t'(2), folded ws_def, folded q_def, unfolded set1(2,3)]
  obtain s1 b2 where s1: "insertBlock DCLRU_vt a q (unat (masterId (req pk))) l (e_now e) s' = Some s1" "blks s1 = (blks s)[q := b2]"
      "tag b2 = tg" "srcMasterId b2 = unat (masterId (req pk))" "blk_set b2 = blk_set b1" "blk_data b2 = blk_data b1"
      "sets s1 = sets (upd_at (slot DCLRU_vt i l) (ws \<lparr>ways := to_head q (ways ws)\<rparr>) s')"
    and rf: "\<forall>b. isValid b \<and> tag b = tg \<and> srcMasterId b = unat (masterId (req pk)) \<and> blk_set b = blk_set b1 \<longrightarrow>
        refines_step DCLRU_vt dc_label id l i (v_fill tg (view DCLRU_vt s l i)) s' (s1 \<lparr>blks := (blks s)[q := b]\<rparr>)"
    by blast
  have g: "get_blk (InTags q) (c \<lparr>tags := s1\<rparr>) = Some b2"
    "put_blk (InTags q) (b2 \<lparr>status := 0\<rparr>) (c \<lparr>tags := s1\<rparr>) = c \<lparr>tags := s1 \<lparr>blks := (blks s)[q := b2 \<lparr>status := 0\<rparr>]\<rparr>\<rparr>"
    using I(3) by (simp_all add: get_blk_def put_blk_def s1(2))
  have "D_place e pk a c = Some (InTags q, wbs, c \<lparr>tags := s1 \<lparr>blks := (blks s)[q := b2 \<lparr>status := 0\<rparr>]\<rparr>\<rparr>)"
    unfolding D_place_def l_def [symmetric] using al(1) [folded b1_def, unfolded c'] s1(1) g by simp
  moreover have "refines_step DCLRU_vt dc_label id l i (v_fill tg (view DCLRU_vt s l i)) s (s1 \<lparr>blks := (blks s)[q := b]\<rparr>)"
    if "isValid b" "same_place (b2 \<lparr>status := 0\<rparr>) b" for b
    using dc.refines_trans [OF R] rf that s1(3-5) by (auto simp: same_place_def)
  moreover have "length (blk_data b2) = unat (c_blkSize c)" using len I(3) by (simp add: s1(6) b1_def s_def)
  moreover have "sets (upd_at (slot DCLRU_vt i l) x s') = sets (upd_at (slot DCLRU_vt i l) x s)" for x by (simp add: upd_at_def s'_def)
  ultimately show ?thesis
    using al(3) I(2,3) s1(3,7) by (intro exI [of _ wbs] exI [of _ s1] exI [of _ "b2 \<lparr>status := 0\<rparr>"]) simp
qed

lemma fill_status_bits:
  assumes "status b = D_fill_status pk 0"
  shows "isValid b" "isReadable b" "isDirty b" "isWritable b = (\<not> sharedAsserted pk)"
  using assms by (auto simp: D_fill_status_def Let_def isValid_def isReadable_def isDirty_def isWritable_def blk_bits)

text \<open>Both partitions after a fill of \<open>l\<close>: the other one gives up its copy, if it has one.\<close>

definition two_copies :: "nat \<Rightarrow> addr \<Rightarrow> LRU \<Rightarrow> LRU \<Rightarrow> bool" where
  "two_copies l a s s' \<longleftrightarrow> (let i = extractSet s a; tg = extractTag s a in
     tags_ok DCLRU_vt dc_label s' \<and> frame s s'
     \<and> view DCLRU_vt s' l i = v_fill tg (view DCLRU_vt s l i)
     \<and> view DCLRU_vt s' (1 - l) i = v_inval tg (view DCLRU_vt s (1 - l) i)
     \<and> (\<forall>j u. j < unat (numSets s) \<and> u < 2 \<and> j \<noteq> i \<longrightarrow> view DCLRU_vt s' u j = view DCLRU_vt s u j))"

lemma copy_in_real:
  fixes c :: "unit Cache"
  assumes b: "get_blk p c = Some b" "length (blk_data b) = unat (c_blkSize c)" and d: "getPtr pk = Some d" "length d = unat (c_blkSize c)"
  shows "D_copy_in pk p None c = Some (put_blk p (b \<lparr>blk_data := d\<rparr>) c)"
  using assms by (simp add: D_copy_in_def memcpy_at_def)

lemma copy_in_fake:
  fixes c :: "unit Cache" and a :: addr and p h :: nat
  defines "s \<equiv> tags c"
  defines "i \<equiv> extractSet s a" and "tg \<equiv> extractTag s a"
  assumes ok: "tags_ok DCLRU_vt dc_label s" and p: "p \<in> set (ways (set_at s (slot DCLRU_vt i 0)))"
    and h: "findBlock DCLRU_vt a 1 s = Some (Some h)"
    and len: "length (blk_data (blks s ! p)) = unat (c_blkSize c)" "length (blk_data (blks s ! h)) = unat (c_blkSize c)"
  shows "\<exists>s'. D_copy_in pk (InTags p) (Some h) c = Some (c \<lparr>tags := s'\<rparr>) \<and> tags_ok DCLRU_vt dc_label s' \<and> frame s s'
     \<and> blks s' ! p = (blks s ! p) \<lparr>blk_data := blk_data (blks s ! h)\<rparr> \<and> p \<in> set (ways (set_at s' (slot DCLRU_vt i 0)))
     \<and> view DCLRU_vt s' 0 i = view DCLRU_vt s 0 i \<and> view DCLRU_vt s' 1 i = v_inval tg (view DCLRU_vt s 1 i)
     \<and> (\<forall>j u. j < unat (numSets s) \<and> u < 2 \<and> j \<noteq> i \<longrightarrow> view DCLRU_vt s' u j = view DCLRU_vt s u j)"
proof -
  have lab: "dc_label x 0" "dc_label x 1" for x by (simp_all add: dc_label_def)
  note own = dc.own_set [OF ok lab(1), of a, folded i_def]
  note r = dc.resident [OF ok lab(2) h, folded i_def]
  have pl: "p < length (blks s)" using set_inv_less [OF own(4) p] .
  have hp: "h \<noteq> p" using dc.other_ways [OF ok lab own(1) _ p] r(1) by auto
  define b where "b = (blks s ! p) \<lparr>blk_data := blk_data (blks s ! h)\<rparr>"
  define s1 where "s1 = s \<lparr>blks := (blks s)[p := b]\<rparr>"
  have R1: "refines_step DCLRU_vt dc_label id 0 i (view DCLRU_vt s 0 i) s s1"
    unfolding s1_def i_def
    by (rule dc.reblk_refines [OF ok lab(1) p [unfolded i_def]]) (simp_all add: b_def isValid_def)
  have t1: "tags_ok DCLRU_vt dc_label s1" "frame s s1" using R1 by (simp_all add: refines_step_def)
  have ex: "extractSet s1 a = i" "extractTag s1 a = tg" using frame_extract [OF t1(2)] by (simp_all add: i_def tg_def)
  have "sets s1 = sets (upd_at (slot DCLRU_vt i 0) (set_at s (slot DCLRU_vt i 0)) s)" "blks s1 = (blks s)[p := b]"
    by (simp_all add: s1_def set_at_def)
  from dc.find_other [OF ok lab _ t1(1) lab(2) t1(2) p [unfolded i_def] this [unfolded i_def]]
  have f1: "findBlock DCLRU_vt a 1 s1 = Some (Some h)" using h by simp
  obtain s2 where s2: "invalidateBlk DCLRU_vt (Some h) 1 s1 = Some s2"
      "refines_step DCLRU_vt dc_label id 1 i (v_inval tg (view DCLRU_vt s1 1 i)) s1 s2"
    using dc.inval_refines [OF t1(1) lab(2), of a, unfolded ex] f1 by (auto simp: bind_eq_Some_conv)
  obtain bh x where bh: "blks s2 = (blks s1)[h := bh]"
      "sets s2 \<in> {sets s1, sets (upd_at (slot DCLRU_vt (nat (blk_set (blks s1 ! h))) 1) x s1)}"
    using invalidate_parts [OF s2(1)] by blast
  have "slot DCLRU_vt y 1 \<noteq> slot DCLRU_vt i 0" for y by (simp add: DCLRU_vt_def)
  then have "set_at s2 (slot DCLRU_vt i 0) = set_at s (slot DCLRU_vt i 0)"
    using bh(2) by (auto simp: s1_def set_at_def upd_at_def nth_list_update DCLRU_vt_def)
  then have p2: "p \<in> set (ways (set_at s2 (slot DCLRU_vt i 0)))" using p by simp
  have bp: "blks s2 ! p = b" using hp pl by (simp add: bh(1) s1_def)
  have g: "get_blk (InTags p) c = Some (blks s ! p)" "get_blk (InTags h) c = Some (blks s ! h)"
    "put_blk (InTags p) b c = c \<lparr>tags := s1\<rparr>"
    using pl r(2) by (simp_all add: get_blk_def put_blk_def s_def s1_def)
  have "D_copy_in pk (InTags p) (Some h) c = Some (c \<lparr>tags := s2\<rparr>)"
    using len g s2(1) by (simp add: D_copy_in_def memcpy_at_def b_def invalidate_ptr_def)
  moreover have "numSets s1 = numSets s" using t1(2) by (simp add: frame_def)
  moreover have "frame s s2" using frame_trans [OF t1(2)] s2(2) by (simp add: refines_step_def)
  ultimately show ?thesis
    using R1 s2(2) bp p2 own(1) unfolding b_def by (intro exI [of _ s2]) (simp add: refines_step_def dc_label_def)
qed

text \<open>No address is in both partitions.\<close>

definition single_copy :: "LRU \<Rightarrow> bool" where
  "single_copy s \<longleftrightarrow> (\<forall>i t. i < unat (numSets s) \<and> Some t \<in> set (view DCLRU_vt s 0 i) \<longrightarrow> Some t \<notin> set (view DCLRU_vt s 1 i))"

lemma two_copies_single:
  assumes ok: "tags_ok DCLRU_vt dc_label s" "single_copy s" and l: "l < 2" and t: "two_copies l a s s'"
  shows "single_copy s'"
  unfolding single_copy_def
proof (intro allI impI, elim conjE)
  fix j x
  let ?i = "extractSet s a" and ?tg = "extractTag s a"
  assume j: "j < unat (numSets s')" and x: "Some x \<in> set (view DCLRU_vt s' 0 j)"
  have n: "numSets s' = numSets s" using t by (simp add: two_copies_def frame_def Let_def)
  show "Some x \<notin> set (view DCLRU_vt s' 1 j)"
  proof (cases "j = ?i")
    case False
    then have "view DCLRU_vt s' u j = view DCLRU_vt s u j" if "u < 2" for u
      using t j n that by (simp add: two_copies_def Let_def)
    then show ?thesis using ok(2) x j n by (simp add: single_copy_def)
  next
    case True
    have v: "view DCLRU_vt s' l ?i = v_fill ?tg (view DCLRU_vt s l ?i)" "view DCLRU_vt s' (1 - l) ?i = v_inval ?tg (view DCLRU_vt s (1 - l) ?i)"
      using t by (simp_all add: two_copies_def Let_def)
    have "dc_label s (1 - l)" using l by (auto simp: dc_label_def)
    then have ab: "Some ?tg \<notin> set (view DCLRU_vt s' (1 - l) ?i)" unfolding v using dc.inval_absent [OF ok(1)] by simp
    have sub: "Some y \<in> set (view DCLRU_vt s l ?i)" if "Some y \<in> set (view DCLRU_vt s' l ?i)" "y \<noteq> ?tg" for y
      using that unfolding v by (auto simp: v_fill_def dest: in_set_butlastD)
    have sub': "Some y \<in> set (view DCLRU_vt s (1 - l) ?i)" if "Some y \<in> set (view DCLRU_vt s' (1 - l) ?i)" for y
      using that unfolding v by (auto simp: v_inval_def split: if_splits dest: set_remove1_subset [THEN subsetD])
    have sc: "\<not> (Some y \<in> set (view DCLRU_vt s l ?i) \<and> Some y \<in> set (view DCLRU_vt s (1 - l) ?i))" for y
      using ok(2) l j n True by (cases "l = 0") (auto simp: single_copy_def less_2_cases_iff)
    have "\<not> (Some x \<in> set (view DCLRU_vt s' l ?i) \<and> Some x \<in> set (view DCLRU_vt s' (1 - l) ?i))"
      using ab sub sub' sc by metis
    then show ?thesis using x l True by (cases "l = 0") (auto simp: less_2_cases_iff)
  qed
qed

text \<open>The pieces of a fill that misses.\<close>

lemma handleFill_parts:
  fixes c :: "unit Cache"
  assumes pk: "getAddr pk = Some a" "cmd pk = ReadResp \<or> cmd pk = ReadExResp"
    and f: "DCLRU_findBlock a 1 1 (tags c) = Some h" and pl: "D_place e pk a c = Some (InTags p, wbs, c1)"
    and b: "get_blk (InTags p) c1 = Some b"
    and cp: "D_copy_in pk (InTags p) h (put_blk (InTags p) (b \<lparr>status := D_fill_status pk (status b)\<rparr>) c1) = Some c2"
    and b2: "get_blk (InTags p) c2 = Some b2"
  shows "D_handleFill e pk None c = Some (InTags p, wbs, put_blk (InTags p) (b2 \<lparr>whenReady := finishTime pk\<rparr>) c2)"
proof -
  have "hasData (cmd pk)" "isRead (cmd pk)" using pk(2) by auto
  then show ?thesis using pk(1) f pl b cp b2 by (simp add: D_handleFill_def Let_def)
qed

text \<open>The states \<open>S b\<close> that a replacement leads to, with \<open>b\<close> as the new block.\<close>

lemma placed:
  fixes c :: "unit Cache" and pk :: Packet and a :: addr
  defines "s \<equiv> tags c" and "l \<equiv> wl_of pk"
  defines "i \<equiv> extractSet s a" and "tg \<equiv> extractTag s a"
  assumes ok: "fill_ok c pk" and miss: "Some tg \<notin> set (view DCLRU_vt s l i)"
  obtains wbs q S b0 where "D_place e pk a c = Some (InTags q, wbs, c \<lparr>tags := S b0\<rparr>)" "written_back c q wbs"
    "status b0 = 0" "tag b0 = tg" "length (blk_data b0) = unat (c_blkSize c)"
    "\<And>b. q < length (blks (S b)) \<and> blks (S b) ! q = b" "\<And>b b'. (S b) \<lparr>blks := (blks (S b))[q := b']\<rparr> = S b'"
    "\<And>b k. k \<noteq> q \<Longrightarrow> blks (S b) ! k = blks s ! k"
    "\<And>b. isValid b \<Longrightarrow> same_place b0 b \<Longrightarrow> refines_step DCLRU_vt dc_label id l i (v_fill tg (view DCLRU_vt s l i)) s (S b)
       \<and> q \<in> set (ways (set_at (S b) (slot DCLRU_vt i l))) \<and> findBlock DCLRU_vt a (1 - l) (S b) = findBlock DCLRU_vt a (1 - l) s"
proof -
  let ?ws = "set_at s (slot DCLRU_vt i l)"
  define q where "q = last (ways ?ws)"
  have t: "tags_ok DCLRU_vt dc_label s" "dc_label s l" and l: "l < 2" using ok by (simp_all add: fill_ok_def s_def l_def dc_label_def)
  obtain wbs s1 b0 where P: "D_place e pk a c = Some (InTags q, wbs, c \<lparr>tags := s1 \<lparr>blks := (blks s)[q := b0]\<rparr>\<rparr>)"
      "q \<in> set (ways ?ws)" "q < length (blks s)" "written_back c q wbs" "status b0 = 0" "tag b0 = tg"
      "length (blk_data b0) = unat (c_blkSize c)"
      "sets s1 = sets (upd_at (slot DCLRU_vt i l) (?ws \<lparr>ways := to_head q (ways ?ws)\<rparr>) s)"
    and R: "\<And>b. isValid b \<Longrightarrow> same_place b0 b \<Longrightarrow>
        refines_step DCLRU_vt dc_label id l i (v_fill tg (view DCLRU_vt s l i)) s (s1 \<lparr>blks := (blks s)[q := b]\<rparr>)"
    using place_refines [OF ok, of a e] miss unfolding q_def i_def tg_def s_def l_def by blast
  define S where "S b = s1 \<lparr>blks := (blks s)[q := b]\<rparr>" for b
  have S: "sets (S b) = sets (upd_at (slot DCLRU_vt i l) (?ws \<lparr>ways := to_head q (ways ?ws)\<rparr>) s)" "blks (S b) = (blks s)[q := b]" for b
    using P(8) by (simp_all add: S_def)
  have lab: "dc_label x (1 - l)" "id (1 - l) \<noteq> id l" for x using l by (auto simp: dc_label_def less_2_cases_iff)
  have "q \<in> set (ways (set_at (S b) (slot DCLRU_vt i l)))" for b
    using set_at_cong [OF S(1)] dc.own_set(2) [OF t, of a] by (simp add: i_def to_head_def)
  moreover have "findBlock DCLRU_vt a (1 - l) (S b) = findBlock DCLRU_vt a (1 - l) s" if "isValid b" "same_place b0 b" for b
  proof (rule dc.find_other [OF t lab(1,2)])
    show "tags_ok DCLRU_vt dc_label (S b)" "frame s (S b)" using R [OF that] by (simp_all add: S_def refines_step_def)
    show "q \<in> set (ways (set_at s (slot DCLRU_vt (extractSet s a) l)))" using P(2) by (simp add: i_def)
  qed (use lab(1) S in \<open>simp_all add: i_def\<close>)
  ultimately show thesis
    using P(1,4-7) R P(3) S(2) by (intro that [of q wbs S b0]) (simp_all add: S_def)
qed

text \<open>The fill is complete when the block and the views are as they should be.\<close>

lemma fill_done:
  assumes t: "tags_ok DCLRU_vt dc_label s'" "frame s s'" "l < 2"
    and q: "q \<in> set (ways (set_at s' (slot DCLRU_vt (extractSet s a) l)))" "blks s' ! q = b"
    and b: "status b = D_fill_status pk 0" "tag b = extractTag s a"
  shows "findBlock DCLRU_vt a l s' = Some (Some q)"
  by (rule dc.resident_find [OF t(1)])
    (use t(3) q b fill_status_bits(1) [OF b(1)] frame_extract [OF t(2), of a] in \<open>simp_all add: dc_label_def\<close>)

lemma real_fill:
  fixes c :: "unit Cache" and pk :: Packet and a :: addr
  defines "s \<equiv> tags c" and "l \<equiv> wl_of pk"
  defines "i \<equiv> extractSet s a" and "tg \<equiv> extractTag s a"
  assumes ok: "fill_ok c pk" and miss: "Some tg \<notin> set (view DCLRU_vt s l i)" "Some tg \<notin> set (view DCLRU_vt s (1 - l) i)"
    and pk: "getAddr pk = Some a" "cmd pk = ReadResp \<or> cmd pk = ReadExResp" "getPtr pk = Some d" "length d = unat (c_blkSize c)"
    and f: "DCLRU_findBlock a 1 1 s = Some None"
  shows "\<exists>p wbs c' b. D_handleFill e pk None c = Some (InTags p, wbs, c') \<and> two_copies l a s (tags c') \<and> written_back c p wbs
    \<and> findBlock DCLRU_vt a l (tags c') = Some (Some p) \<and> blks (tags c') ! p = b \<and> status b = D_fill_status pk 0 \<and> blk_data b = d"
proof -
  have t: "tags_ok DCLRU_vt dc_label s" "dc_label s l" and l: "l < 2" using ok by (simp_all add: fill_ok_def s_def l_def dc_label_def)
  obtain wbs q S b0 where P: "D_place e pk a c = Some (InTags q, wbs, c \<lparr>tags := S b0\<rparr>)" "written_back c q wbs"
    "status b0 = 0" "tag b0 = tg" "length (blk_data b0) = unat (c_blkSize c)"
    "\<And>b. q < length (blks (S b)) \<and> blks (S b) ! q = b" "\<And>b b'. (S b) \<lparr>blks := (blks (S b))[q := b']\<rparr> = S b'"
    and R: "\<And>b. isValid b \<Longrightarrow> same_place b0 b \<Longrightarrow> refines_step DCLRU_vt dc_label id l i (v_fill tg (view DCLRU_vt s l i)) s (S b)
       \<and> q \<in> set (ways (set_at (S b) (slot DCLRU_vt i l)))"
    using placed [OF ok, of a e] miss(1) unfolding i_def tg_def s_def l_def by metis
  define C where "C b = c \<lparr>tags := S b\<rparr>" for b
  have C: "get_blk (InTags q) (C b) = Some b" "put_blk (InTags q) b' (C b) = C b'" "c_blkSize (C b) = c_blkSize c" for b b'
    using P(6,7) by (simp_all add: C_def get_blk_def put_blk_def)
  define b where "b = b0 \<lparr>status := D_fill_status pk 0, blk_data := d, whenReady := finishTime pk\<rparr>"
  have b: "status b = D_fill_status pk 0" "blk_data b = d" "tag b = tg" "same_place b0 b" using P(4) by (simp_all add: b_def same_place_def)
  have "D_copy_in pk (InTags q) None (C (b0 \<lparr>status := D_fill_status pk 0\<rparr>)) = Some (C (b0 \<lparr>status := D_fill_status pk 0, blk_data := d\<rparr>))"
    using copy_in_real [OF C(1), of "b0 \<lparr>status := D_fill_status pk 0\<rparr>" pk d] P(5) pk(3,4) by (simp add: C)
  from handleFill_parts [OF pk(1,2) f [unfolded s_def] P(1) [folded C_def] C(1) _ C(1), unfolded C(2) P(3), OF this]
  have H: "D_handleFill e pk None c = Some (InTags q, wbs, C b)" by (simp add: b_def)
  note R = R [OF fill_status_bits(1) [OF b(1)] b(4)]
  have "view DCLRU_vt (S b) (1 - l) i = view DCLRU_vt s (1 - l) i" "v_inval tg (view DCLRU_vt s (1 - l) i) = view DCLRU_vt s (1 - l) i"
    using R l miss(2) dc.own_set(1) [OF t, of a] by (auto simp: refines_step_def dc_label_def i_def v_inval_def less_2_cases_iff)
  then have "two_copies l a s (S b)"
    using R by (simp add: two_copies_def refines_step_def Let_def i_def tg_def dc_label_def)
  moreover have "findBlock DCLRU_vt a l (S b) = Some (Some q)"
    using fill_done [of "S b" s l q a b pk] R l b P(6) by (simp add: refines_step_def i_def tg_def)
  ultimately show ?thesis using H P(2,6) b(1,2) by (intro exI [of _ q] exI [of _ wbs] exI [of _ "C b"] exI [of _ b]) (simp add: C_def)
qed

lemma fake_fill:
  fixes c :: "unit Cache" and pk :: Packet and a :: addr
  defines "s \<equiv> tags c"
  defines "i \<equiv> extractSet s a" and "tg \<equiv> extractTag s a"
  assumes ok: "fill_ok c pk" "wl_of pk = 0" and miss: "Some tg \<notin> set (view DCLRU_vt s 0 i)"
    and pk: "getAddr pk = Some a" "cmd pk = ReadResp \<or> cmd pk = ReadExResp"
    and f: "DCLRU_findBlock a 1 1 s = Some (Some h)" "findBlock DCLRU_vt a 1 s = Some (Some h)"
  shows "\<exists>p wbs c' b. D_handleFill e pk None c = Some (InTags p, wbs, c') \<and> two_copies 0 a s (tags c') \<and> written_back c p wbs
    \<and> findBlock DCLRU_vt a 0 (tags c') = Some (Some p) \<and> blks (tags c') ! p = b \<and> status b = D_fill_status pk 0
    \<and> blk_data b = blk_data (blks s ! h)"
proof -
  have lab: "dc_label x 0" "dc_label x 1" for x by (simp_all add: dc_label_def)
  have t: "tags_ok DCLRU_vt dc_label s" and len: "\<forall>b \<in> set (blks s). length (blk_data b) = unat (c_blkSize c)"
    using ok(1) by (simp_all add: fill_ok_def s_def)
  obtain wbs q S b0 where P: "D_place e pk a c = Some (InTags q, wbs, c \<lparr>tags := S b0\<rparr>)" "written_back c q wbs"
    "status b0 = 0" "tag b0 = tg" "length (blk_data b0) = unat (c_blkSize c)"
    "\<And>b. q < length (blks (S b)) \<and> blks (S b) ! q = b" "\<And>b b'. (S b) \<lparr>blks := (blks (S b))[q := b']\<rparr> = S b'"
    "\<And>b k. k \<noteq> q \<Longrightarrow> blks (S b) ! k = blks s ! k"
    and R: "\<And>b. isValid b \<Longrightarrow> same_place b0 b \<Longrightarrow> refines_step DCLRU_vt dc_label id 0 i (v_fill tg (view DCLRU_vt s 0 i)) s (S b)
       \<and> q \<in> set (ways (set_at (S b) (slot DCLRU_vt i 0))) \<and> findBlock DCLRU_vt a 1 (S b) = findBlock DCLRU_vt a 1 s"
    using placed [OF ok(1), of a e] miss unfolding i_def tg_def s_def ok(2) diff_zero by metis
  define b1 where "b1 = b0 \<lparr>status := D_fill_status pk 0\<rparr>"
  have v: "isValid b1" "same_place b0 b1" using fill_status_bits(1) [of b1 pk] by (simp_all add: b1_def same_place_def)
  note R = R [OF v, unfolded f(2)]
  have t2: "tags_ok DCLRU_vt dc_label (S b1)" "frame s (S b1)" using R by (simp_all add: refines_step_def)
  have ex: "extractSet (S b1) a = i" "extractTag (S b1) a = tg" using frame_extract [OF t2(2)] by (simp_all add: i_def tg_def)
  note r = dc.resident [OF t2(1) lab(2), of a h, unfolded ex]
  have hq: "h \<noteq> q" using dc.other_ways [OF t2(1) lab, of i q] dc.own_set(1) [OF t2(1) lab(1), of a] R r(1) by (auto simp: ex)
  have "length (blk_data b1) = unat (c_blkSize c)" "length (blk_data (blks s ! h)) = unat (c_blkSize c)"
    using P(5) len dc.resident(2) [OF t lab(2) f(2)] by (simp_all add: b1_def)
  then obtain s3 where C3: "D_copy_in pk (InTags q) (Some h) (c \<lparr>tags := S b1\<rparr>) = Some (c \<lparr>tags := s3\<rparr>)"
      "tags_ok DCLRU_vt dc_label s3" "frame (S b1) s3" "blks s3 ! q = b1 \<lparr>blk_data := blk_data (blks s ! h)\<rparr>"
      "q \<in> set (ways (set_at s3 (slot DCLRU_vt i 0)))" "view DCLRU_vt s3 0 i = view DCLRU_vt (S b1) 0 i"
      "view DCLRU_vt s3 1 i = v_inval tg (view DCLRU_vt (S b1) 1 i)"
      "\<forall>j u. j < unat (numSets (S b1)) \<and> u < 2 \<and> j \<noteq> i \<longrightarrow> view DCLRU_vt s3 u j = view DCLRU_vt (S b1) u j"
    using copy_in_fake [of "c \<lparr>tags := S b1\<rparr>" q a h pk] t2(1) R P(6,8) hq by (auto simp: ex)
  define b where "b = b1 \<lparr>blk_data := blk_data (blks s ! h), whenReady := finishTime pk\<rparr>"
  define s4 where "s4 = s3 \<lparr>blks := (blks s3)[q := b]\<rparr>"
  have b: "status b = D_fill_status pk 0" "blk_data b = blk_data (blks s ! h)" "tag b = tg" using P(4) by (simp_all add: b_def b1_def)
  have ex3: "extractSet s3 a = i" "extractTag s3 a = tg" using frame_extract [OF C3(3), of a] ex by simp_all
  have ql: "q < length (blks s3)" using C3(3) P(6) [of b1] by (simp add: frame_def)
  have R4: "refines_step DCLRU_vt dc_label id 0 i (view DCLRU_vt s3 0 i) s3 s4"
    using dc.reblk_refines [OF C3(2) lab(1), of q a b] C3(5) by (simp add: ex3 C3(4) b_def s4_def isValid_def)
  have g: "get_blk (InTags q) (c \<lparr>tags := S b0\<rparr>) = Some b0" "put_blk (InTags q) b1 (c \<lparr>tags := S b0\<rparr>) = c \<lparr>tags := S b1\<rparr>"
    "get_blk (InTags q) (c \<lparr>tags := s3\<rparr>) = Some (b1 \<lparr>blk_data := blk_data (blks s ! h)\<rparr>)"
    "put_blk (InTags q) b (c \<lparr>tags := s3\<rparr>) = c \<lparr>tags := s4\<rparr>"
    using P(6,7) ql C3(4) by (simp_all add: get_blk_def put_blk_def s4_def)
  have H: "D_handleFill e pk None c = Some (InTags q, wbs, c \<lparr>tags := s4\<rparr>)"
    using handleFill_parts [OF pk f(1) [unfolded s_def] P(1) g(1) _ g(3)] g(2,4) C3(1) by (simp add: P(3) b1_def [symmetric] b_def)
  have t4: "tags_ok DCLRU_vt dc_label s4" "frame s s4" "i < unat (numSets s)" "numSets (S b1) = numSets s" "numSets s3 = numSets s"
    using frame_trans [OF frame_trans [OF t2(2) C3(3)]] R4 dc.own_set(1) [OF t lab(1), of a] C3(3) t2(2)
    by (simp_all add: refines_step_def i_def frame_def)
  have "view DCLRU_vt s4 u j = view DCLRU_vt s3 u j" if "j < unat (numSets s)" "u < 2" for u j
    using R4 t4(5) that by (cases "u = 0 \<and> j = i") (auto simp: refines_step_def dc_label_def)
  then have "two_copies 0 a s s4"
    using R C3(6-8) t4 by (simp add: two_copies_def refines_step_def dc_label_def i_def tg_def Let_def)
  moreover have "findBlock DCLRU_vt a 0 s4 = Some (Some q)"
    by (rule fill_done [OF t4(1,2) _ _ _ b(1)]) (use C3(5) ql b(3) in \<open>simp_all add: s4_def i_def tg_def set_at_def\<close>)
  moreover have "blks s4 ! q = b" using ql by (simp add: s4_def)
  ultimately show ?thesis using H P(2) b(1,2) by (intro exI [of _ q] exI [of _ wbs] exI [of _ "c \<lparr>tags := s4\<rparr>"] exI [of _ b]) simp
qed

subsection \<open>Blocks of the other partition\<close>

context tag_layout
begin

text \<open>A block is only found in the recency list of its own partition.\<close>

lemma invalidate_foreign:
  fixes a :: addr
  assumes ok: "tags_ok vt vld s" "vld s t" "vld s u" "part u \<noteq> part t"
    and p: "p \<in> set (ways (set_at s (slot vt (extractSet s a) t)))" "isValid (blks s ! p)"
  shows "invalidateBlk vt (Some p) u s = None"
proof -
  note own = own_set [OF ok(1,2), of a] and ownu = own_set [OF ok(1,3), of a]
  let ?i = "extractSet s a" and ?c = "set_at s (slot vt (extractSet s a) u)"
  have b: "blk_set (blks s ! p) = int ?i" "srcMasterId (blks s ! p) < length (occupancies s)" "p < length (blks s)"
    using own(4) p set_inv_less [OF own(4) p(1)] by (auto simp: set_inv_def)
  have "moveToTail p ?c = None"
    using moveToTail_eq [OF set_inv_cset [OF ownu(4)], of p] other_ways [OF ok(1-3) own(1) ok(4) p(1)] by simp
  moreover have "get_set vt (s \<lparr>tagsInUse := x, occupancies := y\<rparr>) ?i u = Some ?c" for x y
    using ownu(2) by (simp add: get_set_def in_range_def set_at_def)
  ultimately show ?thesis using b p(2) by (simp add: invalidateBlk_def Let_def)
qed

end

lemma dc_low_hit:
  fixes a :: addr
  assumes ok: "tags_ok DCLRU_vt dc_label s" and f: "findBlock DCLRU_vt a 0 s = Some (Some p)" and l: "l < 2"
  shows "\<exists>lat s'. DCLRU_accessBlock a l l now s = Some (Some p, lat, s') \<and> tags_ok DCLRU_vt dc_label s' \<and> frame s s'
    \<and> p \<in> set (ways (set_at s' (slot DCLRU_vt (extractSet s a) 0))) \<and> length (blks s') = length (blks s)
    \<and> blks s' ! p = (blks s ! p) \<lparr>refCount := refCount (blks s ! p) + 1\<rparr>"
proof -
  let ?i = "extractSet s a" and ?tg = "extractTag s a"
  have lab: "dc_label s 0" by (simp add: dc_label_def)
  note r = dc.resident [OF ok lab f] and own = dc.own_set [OF ok lab, of a]
  let ?c = "set_at s (slot DCLRU_vt ?i 0)"
  have low: "Some ?tg \<in> set (view DCLRU_vt s 0 ?i)" using dc.find_absent [OF ok lab, of a] f by auto
  have fb: "DCLRU_findBlock a l l s = Some (Some p)" using dc_find [OF ok l l, of a] low f by simp
  have lb: "DCLRU_locateBlock a l l s = Some 0" using f by (auto simp: DCLRU_locateBlock_def findBlock_def bind_eq_Some_conv)
  have mv: "moveToHead p ?c = Some (?c \<lparr>ways := to_head p (ways ?c)\<rparr>)"
    using moveToHead_eq [OF set_inv_cset [OF own(4)]] r(1) by simp
  define s' where "s' = upd_at (slot DCLRU_vt ?i 0) (?c \<lparr>ways := to_head p (ways ?c)\<rparr>) s
      \<lparr>blks := (blks s)[p := (blks s ! p) \<lparr>refCount := refCount (blks s ! p) + 1\<rparr>]\<rparr>"
  have "\<exists>lat. DCLRU_accessBlock a l l now s = Some (Some p, lat, s')"
    using fb lb own(3) mv r(2) by (simp add: DCLRU_accessBlock_def Let_def s'_def)
  moreover have "tags_ok DCLRU_vt dc_label s'" "frame s s'"
    using dc_access_refines [OF ok l l, of a now] calculation by (auto simp: refines_step_def)
  moreover have "set_at s' (slot DCLRU_vt ?i 0) = ?c \<lparr>ways := to_head p (ways ?c)\<rparr>"
    using set_at_cong [of s' "upd_at (slot DCLRU_vt ?i 0) (?c \<lparr>ways := to_head p (ways ?c)\<rparr>) s"] own(2) by (simp add: s'_def)
  ultimately show ?thesis using r(2) by (auto simp: s'_def to_head_def)
qed

text \<open>An exclusive request for a whole block: its bytes, and the block given up.\<close>

lemma satisfy_exclusive:
  fixes c :: "unit Cache" and p :: nat
  defines "b \<equiv> blks (tags c) ! p"
  assumes pk: "block_request (c_blkSize c) a pk" "cmd pk = ReadExReq" "getOffset (c_blkSize c) pk = Some 0"
    and p: "p < length (blks (tags c))" "length (blk_data b) = unat (c_blkSize c)"
  shows "\<exists>pk'. satisfyCpuSideRequest DCLRU_vt False False (InTags p) pk c = do {
       t \<leftarrow> invalidateBlk DCLRU_vt (Some p) (tid_of pk) (tags c); Some (pk', c \<lparr>tags := t\<rparr>) }
     \<and> getPtr pk' = Some (blk_data b) \<and> memInhibitAsserted pk' = isDirty b"
proof -
  obtain d where d: "data pk = Some d" "length d = unat (c_blkSize c)" "isSet (flags pk) VALID_SIZE" "pkt_size pk = c_blkSize c"
      "isSet (flags pk) (STATIC_DATA OR DYNAMIC_DATA)" "\<not> memInhibitAsserted pk"
    using pk(1) by (auto simp: block_request_def split: option.splits)
  define pk1 where "pk1 = pk \<lparr>data := Some (blk_data b)\<rparr>"
  define pk2 where "pk2 = (if isDirty b then assertMemInhibit pk1 else pk1)"
  have sd: "setDataFromBlock (blk_data b) (c_blkSize c) pk = Some pk1"
    using d p(2) by (simp add: setDataFromBlock_def pk(3) setData_def getPtr_def getSize_def memcpy_at_def pk1_def)
  have g: "get_blk (InTags p) c = Some b" "put_blk (InTags p) b c = c" using p(1) by (simp_all add: get_blk_def put_blk_def b_def)
  have "satisfyCpuSideRequest DCLRU_vt False False (InTags p) pk c = do { c \<leftarrow> invalidate_ptr DCLRU_vt (InTags p) (tid_of pk) c; Some (pk2, c) }"
    using pk(2,3) d(3,4) sd g
    by (simp add: satisfyCpuSideRequest_def read_whole_block_def getSize_def Let_def pk2_def pk1_def tid_of_def assertMemInhibit_def)
  then have "satisfyCpuSideRequest DCLRU_vt False False (InTags p) pk c = do {
       t \<leftarrow> invalidateBlk DCLRU_vt (Some p) (tid_of pk) (tags c); Some (pk2, c \<lparr>tags := t\<rparr>) }"
    by (simp add: invalidate_ptr_def)
  moreover have "getPtr pk2 = Some (blk_data b)" "memInhibitAsserted pk2 = isDirty b"
    using d(5,6) by (auto simp: pk2_def pk1_def getPtr_def memInhibitAsserted_def assertMemInhibit_def flags_defs pkt_flag_defs
        bit.conj_disj_distrib2)
  ultimately show ?thesis by blast
qed

subsection \<open>Properties\<close>

text \<open>
  C16: A fill after a miss in the cache with two labels, while no miss is outstanding
  for any resident block (so that a victim is found and the block kept aside for fills
  without one is not used), succeeds and puts the block into the partition of its label,
  valid and marked as modified. When the other partition holds a copy, which only a Low
  request can miss, the new block gets the bytes of that copy and the copy is
  invalidated; otherwise it gets the bytes of the response. The recency list of the
  filled partition changes as after an LRU fill, whatever the other one holds; other
  sets are untouched, a modified victim is written back, and no address is ever in both
  partitions if none was before.
\<close>

theorem dirty_fill_moves_copy:
  fixes c :: "unit Cache"
  assumes "fill_ok c pk" and "rl_of pk = wl_of pk" and "getAddr pk = Some a" and "cmd pk = ReadResp \<or> cmd pk = ReadExResp"
    and "getPtr pk = Some d" and "length d = unat (c_blkSize c)"
    and "DCLRU_findBlock a (rl_of pk) (wl_of pk) (tags c) = Some None"
  shows "\<exists>h p wbs c' b. DCLRU_findBlock a 1 1 (tags c) = Some h \<and> D_handleFill e pk None c = Some (InTags p, wbs, c')
    \<and> two_copies (wl_of pk) a (tags c) (tags c') \<and> written_back c p wbs
    \<and> findBlock DCLRU_vt a (wl_of pk) (tags c') = Some (Some p) \<and> blks (tags c') ! p = b
    \<and> isValid b \<and> isReadable b \<and> isDirty b \<and> isWritable b = (\<not> sharedAsserted pk)
    \<and> blk_data b = (case h of None \<Rightarrow> d | Some k \<Rightarrow> blk_data (blks (tags c) ! k))
    \<and> (single_copy (tags c) \<longrightarrow> single_copy (tags c'))"
proof -
  let ?s = "tags c" and ?l = "wl_of pk"
  let ?V = "\<lambda>u. view DCLRU_vt ?s u (extractSet ?s a)" and ?tg = "Some (extractTag ?s a)"
  have t: "tags_ok DCLRU_vt dc_label ?s" and l: "?l < 2" using assms(1) by (simp_all add: fill_ok_def)
  have lab: "dc_label ?s 0" "dc_label ?s 1" by (simp_all add: dc_label_def)
  obtain r0 r1 where r: "findBlock DCLRU_vt a 0 ?s = Some r0" "r0 = None \<longleftrightarrow> ?tg \<notin> set (?V 0)"
      "findBlock DCLRU_vt a 1 ?s = Some r1" "r1 = None \<longleftrightarrow> ?tg \<notin> set (?V 1)"
    using dc.find_absent [OF t lab(1), of a] dc.find_absent [OF t lab(2), of a] by blast
  have low: "?tg \<notin> set (?V 0)" using dc_find [OF t l l, of a] assms(2,7) r by (auto split: if_splits)
  have f: "DCLRU_findBlock a 1 1 ?s = Some r1" using dc_find [OF t, of 1 1 a] low r(3) by simp
  have high: "r1 = None" if "?l = 1" using f assms(2,7) that by simp
  have "\<exists>p wbs c' b. D_handleFill e pk None c = Some (InTags p, wbs, c') \<and> two_copies ?l a ?s (tags c') \<and> written_back c p wbs
      \<and> findBlock DCLRU_vt a ?l (tags c') = Some (Some p) \<and> blks (tags c') ! p = b \<and> status b = D_fill_status pk 0
      \<and> blk_data b = (case r1 of None \<Rightarrow> d | Some k \<Rightarrow> blk_data (blks ?s ! k))"
  proof (cases r1)
    case None
    then have "?tg \<notin> set (?V ?l)" "?tg \<notin> set (?V (1 - ?l))" using low r(4) l by (auto simp: less_2_cases_iff)
    from real_fill [OF assms(1) this assms(3-6) f [unfolded None], of e] None show ?thesis by simp
  next
    case (Some h)
    then have "?l = 0" using high l by (auto simp: less_2_cases_iff)
    from fake_fill [OF assms(1) this low assms(3,4) f [unfolded Some] r(3) [unfolded Some], of e] Some this show ?thesis by simp
  qed
  then obtain p wbs c' b where F: "D_handleFill e pk None c = Some (InTags p, wbs, c')" "two_copies ?l a ?s (tags c')" "written_back c p wbs"
      "findBlock DCLRU_vt a ?l (tags c') = Some (Some p)" "blks (tags c') ! p = b" "status b = D_fill_status pk 0"
      "blk_data b = (case r1 of None \<Rightarrow> d | Some k \<Rightarrow> blk_data (blks ?s ! k))"
    by blast
  show ?thesis
    using f F fill_status_bits [OF F(6)] two_copies_single [OF t _ l F(2)]
    by (intro exI [of _ r1] exI [of _ p] exI [of _ wbs] exI [of _ c'] exI [of _ b]) simp
qed

text \<open>
  C32: In the cache with two labels an exclusive request for a whole block that hits a
  Low block is served to Low, which takes the bytes and leaves the block invalid; for
  High the same hit fails, because the inherited code invalidates the block in the
  partition of the thread and not in the one where it was found.
\<close>

theorem dirty_exclusive_hit:
  fixes c :: "unit Cache"
  assumes "tags_ok DCLRU_vt dc_label (tags c)" and "block_request (c_blkSize c) a pk" and "cmd pk = ReadExReq"
    and "\<not> isUncacheable (req pk)" and "getOffset (c_blkSize c) pk = Some 0"
    and "tid_of pk < 2" and "rl_of pk = tid_of pk" and "wl_of pk = tid_of pk"
    and "findBlock DCLRU_vt a 0 (tags c) = Some (Some p)" and "isWritable (blks (tags c) ! p)"
    and "length (blk_data (blks (tags c) ! p)) = unat (c_blkSize c)"
  shows "if tid_of pk = 0 then \<exists>lat pk' c'. D_access e pk c = Some (True, Some p, lat, [], pk', c')
      \<and> getPtr pk' = Some (blk_data (blks (tags c) ! p)) \<and> memInhibitAsserted pk' = isDirty (blks (tags c) ! p)
      \<and> findBlock DCLRU_vt a 0 (tags c') = Some None
    else D_access e pk c = None"
proof -
  let ?s = "tags c" and ?l = "tid_of pk"
  have lab: "dc_label x 0" "dc_label x 1" for x by (simp_all add: dc_label_def)
  have ga: "getAddr pk = Some a" using assms(2) by (simp add: block_request_def getAddr_def)
  obtain lat s1 where s1: "DCLRU_accessBlock a ?l ?l (e_now e) ?s = Some (Some p, lat, s1)" "tags_ok DCLRU_vt dc_label s1" "frame ?s s1"
      "p \<in> set (ways (set_at s1 (slot DCLRU_vt (extractSet ?s a) 0)))" "length (blks s1) = length (blks ?s)"
      "blks s1 ! p = (blks ?s ! p) \<lparr>refCount := refCount (blks ?s ! p) + 1\<rparr>"
    using dc_low_hit [OF assms(1,9,6), of "e_now e"] by blast
  define c1 where "c1 = c \<lparr>tags := s1\<rparr>"
  note r = dc.resident [OF assms(1) lab(1) assms(9)]
  have ex: "extractSet s1 a = extractSet ?s a" "extractTag s1 a = extractTag ?s a" using frame_extract [OF s1(3)] by simp_all
  have b: "isValid (blks s1 ! p)" "isWritable (blks s1 ! p)" "isDirty (blks s1 ! p) = isDirty (blks ?s ! p)" "tag (blks s1 ! p) = extractTag s1 a"
      "blk_data (blks s1 ! p) = blk_data (blks ?s ! p)" "get_blk (InTags p) c1 = Some (blks s1 ! p)"
    using r s1(5) assms(10) by (simp_all add: s1(6) ex isValid_def isWritable_def isDirty_def get_blk_def c1_def)
  obtain pk' where pk': "satisfyCpuSideRequest DCLRU_vt False False (InTags p) pk c1 = do {
         t \<leftarrow> invalidateBlk DCLRU_vt (Some p) ?l s1; Some (pk', c1 \<lparr>tags := t\<rparr>) }"
       "getPtr pk' = Some (blk_data (blks ?s ! p))" "memInhibitAsserted pk' = isDirty (blks ?s ! p)"
    using satisfy_exclusive [of c1 a pk p] assms(2,3,5,11) r(2) s1(5) b(3,5) by (auto simp: c1_def)
  have A: "D_access e pk c = do { (pk, c) \<leftarrow> satisfyCpuSideRequest DCLRU_vt False False (InTags p) pk c1; Some (True, Some p, lat, [], pk, c) }"
    using assms(3,4,7,8) ga s1(1) b(2,6) by (simp add: D_access_def c1_def [symmetric])
  have f1: "findBlock DCLRU_vt a 0 s1 = Some (Some p)"
    by (rule dc.resident_find [OF s1(2) lab(1)]) (use s1(4) b ex in simp_all)
  show ?thesis
  proof (cases "?l = 0")
    case True
    obtain s2 where s2: "invalidateBlk DCLRU_vt (Some p) 0 s1 = Some s2" "tags_ok DCLRU_vt dc_label s2" "frame s1 s2"
        "view DCLRU_vt s2 0 (extractSet s1 a) = v_inval (extractTag s1 a) (view DCLRU_vt s1 0 (extractSet s1 a))"
      using dc.inval_refines [OF s1(2) lab(1), of a] f1 by (auto simp: bind_eq_Some_conv refines_step_def)
    have "findBlock DCLRU_vt a 0 s2 = Some None"
      using dc.find_absent [OF s2(2) lab(1), of a] dc.inval_absent [OF s1(2) lab(1), of a] frame_extract [OF s2(3), of a] s2(4) by auto
    then show ?thesis using True A pk' s2(1) by simp
  next
    case False
    then have "?l = 1" using assms(6) by simp
    moreover have "invalidateBlk DCLRU_vt (Some p) 1 s1 = None"
      by (rule dc.invalidate_foreign [OF s1(2) lab _ s1(4) [folded ex(1)] b(1)]) simp
    ultimately show ?thesis using A pk'(1) by simp
  qed
qed

subsection \<open>Witnesses\<close>

text \<open>One set; Low holds the modified block of address 20, High the block of address 16.\<close>

definition dirty_tags :: LRU where
  "dirty_tags = raw_tags \<lparr>numSets := 1, blkSize := 4, assoc := 2, setShift := 2, tagShift := 2, setMask := 0, blkMask := 3,
     missCounter := [0], occupancies := replicate 6 0, blks := [snoop_blk 15 5 [1, 1, 1, 1], snoop_blk 7 4 [9, 9, 9, 9]],
     sets := [[\<lparr>set_assoc = 1, ways = [0]\<rparr>], [\<lparr>set_assoc = 1, ways = [1]\<rparr>]]\<rparr>"

definition dirty_cache :: "unit Cache" where
  "dirty_cache = \<lparr>tags = dirty_tags, tempBlock = CacheBlk_new, c_blkSize = 4, c_hitLatency = 2, isTopLevel = False,
     mshrQueue = PerThread [snoop_queue ''MSHRs'' [] [] 0, snoop_queue ''MSHRs'' [] [] 0], c_heap = \<lparr>pkts = [], mshrs = []\<rparr>\<rparr>"

definition dirty_response :: Packet where
  "dirty_response = sample_pkt ReadExResp 16 4 (Some [1, 2, 3, 4])"

definition dirty_request :: Packet where
  "dirty_request = (sample_pkt ReadExReq 20 4 (Some [0, 0, 0, 0])) \<lparr>threadID := 1, readLabel := 1, writeLabel := 1\<rparr>"

lemma dirty_cache_simps [simp]:
  "tags dirty_cache = dirty_tags" "c_blkSize dirty_cache = 4" "t < 2 \<Longrightarrow> getMSHRQueue t dirty_cache = Some (snoop_queue ''MSHRs'' [] [] 0)"
  by (auto simp: dirty_cache_def getMSHRQueue_def less_2_cases_iff)

lemma dirty_tags_ok: "tags_ok DCLRU_vt dc_label dirty_tags"
proof -
  have u: "t < 2 \<longleftrightarrow> t = 0 \<or> t = 1" for t :: nat by auto
  have "\<forall>t u. dc_label dirty_tags t \<and> dc_label dirty_tags u \<and> t \<noteq> u
      \<longrightarrow> set (ways (set_at dirty_tags (t, 0))) \<inter> set (ways (set_at dirty_tags (u, 0))) = {}"
    by (auto simp: dc_label_def dirty_tags_def set_at_def u)
  moreover have "geometry_ok dirty_tags" by (simp add: geometry_ok_def dirty_tags_def)
  moreover have "\<forall>t. dc_label dirty_tags t \<longrightarrow> in_range dirty_tags (t, 0) \<and> set_inv dirty_tags 0 (set_at dirty_tags (t, 0))
      \<and> DCLRU_assoc_of_tc dirty_tags t = length (ways (set_at dirty_tags (t, 0)))"
    by (auto simp: dc_label_def dirty_tags_def u in_range_def set_at_def set_inv_def cset_ok_def DCLRU_assoc_of_tc_def snoop_blk_def raw_tags_def CacheBlk_new_def)
  ultimately show ?thesis
    unfolding tags_ok_def by (simp add: DCLRU_vt_def) (simp add: dirty_tags_def)
qed

lemma dirty_find:
  "findBlock DCLRU_vt 16 0 dirty_tags = Some None" "findBlock DCLRU_vt 16 1 dirty_tags = Some (Some 1)"
  "findBlock DCLRU_vt 20 0 dirty_tags = Some (Some 0)"
  "DCLRU_findBlock 16 0 0 dirty_tags = Some None" "DCLRU_findBlock 16 1 1 dirty_tags = Some (Some 1)"
  by (simp_all add: findBlock_def DCLRU_findBlock_def get_set_def in_range_def set_at_def DCLRU_vt_def dirty_tags_def extractSet_def extractTag_def
      findBlk_def findBlk_from.simps blk_match_def snoop_blk_def isValid_def blk_bits)

lemma dirty_fill_ok: "fill_ok dirty_cache dirty_response"
proof -
  have q: "findMatch x h (snoop_queue ''MSHRs'' [] [] 0) = None" for x h by (simp add: findMatch_def snoop_queue_def)
  have b: "blk_threadID b < 2 \<and> length (blk_data b) = 4" if "b \<in> set (blks dirty_tags)" for b
    using that by (auto simp: dirty_tags_def snoop_blk_def CacheBlk_new_def)
  then have "no_upgrade dirty_cache" by (simp add: no_upgrade_def q)
  then show ?thesis
    using dirty_tags_ok b by (simp add: fill_ok_def wl_of_def dirty_response_def sample_pkt_def sample_request_def masterId_def word_sle_eq)
      (simp add: dirty_tags_def)
qed

theorem dirty_fill_moves_copy_witness:
  "\<exists>p wbs c'. D_handleFill snoop_env dirty_response None dirty_cache = Some (InTags p, wbs, c')
    \<and> blk_data (blks (tags c') ! p) = [9, 9, 9, 9] \<and> Some 4 \<notin> set (view DCLRU_vt (tags c') 1 0)"
proof -
  have r: "getAddr dirty_response = Some 16" "cmd dirty_response = ReadExResp" "getPtr dirty_response = Some [1, 2, 3, 4]"
    "rl_of dirty_response = 0" "wl_of dirty_response = 0"
    by (simp_all add: dirty_response_def sample_pkt_def getAddr_def getPtr_def rl_of_def wl_of_def flags_defs pkt_flag_defs)
  have x: "extractSet dirty_tags 16 = 0" "extractTag dirty_tags 16 = 4" "blk_data (blks dirty_tags ! 1) = [9, 9, 9, 9]"
    by (simp_all add: extractSet_def extractTag_def dirty_tags_def snoop_blk_def)
  have a: "Some 4 \<notin> set (v_inval 4 (view DCLRU_vt dirty_tags 1 0))"
    using dc.inval_absent [OF dirty_tags_ok, of 1 16] x by (simp add: dc_label_def)
  show ?thesis
    using dirty_fill_moves_copy [OF dirty_fill_ok, of 16 "[1, 2, 3, 4]" snoop_env] r x a dirty_find(4,5)
    by (auto simp: two_copies_def Let_def)
qed

theorem dirty_exclusive_hit_witness: "D_access snoop_env dirty_request dirty_cache = None"
proof -
  have r: "block_request 4 20 dirty_request" "cmd dirty_request = ReadExReq" "\<not> isUncacheable (req dirty_request)"
    "getOffset 4 dirty_request = Some 0" "tid_of dirty_request = 1" "rl_of dirty_request = 1" "wl_of dirty_request = 1"
    by (simp_all add: dirty_request_def sample_pkt_def sample_request_def block_request_def getAddr_def getOffset_def rl_of_def wl_of_def tid_of_def
        isUncacheable_def memInhibitAsserted_def sharedAsserted_def flags_defs pkt_flag_defs req_flag_defs)
  have b: "isWritable (blks dirty_tags ! 0)" "length (blk_data (blks dirty_tags ! 0)) = 4"
    by (simp_all add: dirty_tags_def snoop_blk_def isWritable_def blk_bits)
  show ?thesis
    using dirty_exclusive_hit [of dirty_cache 20 dirty_request 0 snoop_env] dirty_tags_ok r b dirty_find(3) by simp
qed

end
