(* ===== verification/Event_Queue.thy ===== *)
theory Event_Queue
imports Mem_Request "HOL-Library.Product_Lexorder"
begin

text \<open>
  The event queue (\<open>sim/eventq.hh\<close>, \<open>sim/eventq.cc\<close>), pointer by pointer.

  A queue is a linked list of linked lists: \<open>nextBin\<close> links the first events of
  the bins, a bin being the events with one tick and one priority, and
  \<open>nextInBin\<close> links the events of a bin.  The \<open>nextBin\<close> pointer of an event that
  is not the first of its bin is stale.  Events live in a store, a map from
  addresses; an address that is not in it has been deleted, and reading it is a
  failure.  The walks along the pointers are partial functions, because in an
  arbitrary store they need not end: a result \<^term>\<open>Some\<close> says that they do.

  The lemmas show that the lists of lists implement one list of events sorted by
  tick and priority: \<open>insert\<close> is insertion in front of the first event that is
  not before the new one, \<open>remove\<close> deletes the event and panics for an event that
  is not queued.
\<close>

subsection \<open>Events\<close>

record Event =
  nextBin :: "nat option"
  nextInBin :: "nat option"
  ev_when :: tick
  ev_priority :: "8 word"
  ev_flags :: "16 word"

type_synonym store = "nat \<rightharpoonup> Event"

definition ev_less :: "Event \<Rightarrow> Event \<Rightarrow> bool" where
  "ev_less l r = (ev_when l < ev_when r \<or> (ev_when l = ev_when r \<and> ev_priority l <s ev_priority r))"

definition ev_greater :: "Event \<Rightarrow> Event \<Rightarrow> bool" where
  "ev_greater l r = (ev_when r < ev_when l \<or> (ev_when l = ev_when r \<and> ev_priority r <s ev_priority l))"

definition ev_le :: "Event \<Rightarrow> Event \<Rightarrow> bool" where
  "ev_le l r = (ev_when l < ev_when r \<or> (ev_when l = ev_when r \<and> ev_priority l \<le>s ev_priority r))"

definition ev_ge :: "Event \<Rightarrow> Event \<Rightarrow> bool" where
  "ev_ge l r = (ev_when r < ev_when l \<or> (ev_when l = ev_when r \<and> ev_priority r \<le>s ev_priority l))"

definition ev_eq :: "Event \<Rightarrow> Event \<Rightarrow> bool" where
  "ev_eq l r = (ev_when l = ev_when r \<and> ev_priority l = ev_priority r)"

definition ev_neq :: "Event \<Rightarrow> Event \<Rightarrow> bool" where
  "ev_neq l r = (ev_when l \<noteq> ev_when r \<or> ev_priority l \<noteq> ev_priority r)"

text \<open>\<open>priority_compare\<close>, the function object of the class.\<close>

definition priority_compare :: "Event \<Rightarrow> Event \<Rightarrow> bool" where
  "priority_compare l r = (ev_when r \<le> ev_when l \<or> ev_priority r \<le>s ev_priority l)"

subsection \<open>Insertion\<close>

text \<open>\<open>insertBefore\<close> returns the event it is given, which is left out here.\<close>

definition insertBefore :: "store \<Rightarrow> nat \<Rightarrow> nat option \<Rightarrow> store option" where
  "insertBefore h event cur =
     do { e \<leftarrow> h event;
          case cur of
            None \<Rightarrow> Some (h(event \<mapsto> e\<lparr>nextBin := None, nextInBin := None\<rparr>))
          | Some c \<Rightarrow>
              do { ce \<leftarrow> h c;
                   if ev_less e ce
                   then Some (h(event \<mapsto> e\<lparr>nextBin := Some c, nextInBin := None\<rparr>))
                   else Some (h(event \<mapsto> e\<lparr>nextBin := nextBin ce, nextInBin := Some c\<rparr>)) } }"

text \<open>\<open>while (curr && *curr < *event)\<close> of \<open>insert\<close> and of \<open>remove\<close>.\<close>

partial_function (option) find_bin ::
  "store \<Rightarrow> Event \<Rightarrow> nat \<Rightarrow> nat option \<Rightarrow> (nat \<times> nat option) option" where
  "find_bin h e prev cur =
     (if cur = None then Some (prev, None)
      else do { c \<leftarrow> cur;
                ce \<leftarrow> h c;
                if ev_less ce e then find_bin h e c (nextBin ce) else Some (prev, Some c) })"

definition set_nextBin :: "store \<Rightarrow> nat \<Rightarrow> nat option \<Rightarrow> store option" where
  "set_nextBin h i p = do { e \<leftarrow> h i; Some (h(i \<mapsto> e\<lparr>nextBin := p\<rparr>)) }"

definition eq_insert :: "store \<Rightarrow> nat option \<Rightarrow> nat \<Rightarrow> (store \<times> nat option) option" where
  "eq_insert h head event =
     do { e \<leftarrow> h event;
          case head of
            None \<Rightarrow> do { h1 \<leftarrow> insertBefore h event None; Some (h1, Some event) }
          | Some first \<Rightarrow>
              do { he \<leftarrow> h first;
                   if ev_le e he
                   then do { h1 \<leftarrow> insertBefore h event (Some first); Some (h1, Some event) }
                   else do { (prev, cur) \<leftarrow> find_bin h e first (nextBin he);
                             h1 \<leftarrow> insertBefore h event cur;
                             h2 \<leftarrow> set_nextBin h1 prev (Some event);
                             Some (h2, head) } } }"

subsection \<open>Removal\<close>

text \<open>The loop of \<open>removeItem\<close>: the event before the one to remove.\<close>

partial_function (option) find_item :: "store \<Rightarrow> nat \<Rightarrow> nat \<Rightarrow> nat option \<Rightarrow> nat option" where
  "find_item h event cur nxt =
     (if nxt = Some event then Some cur
      else do { n \<leftarrow> nxt; e \<leftarrow> h n; find_item h event n (nextInBin e) })"

text \<open>
  Taking the first event off its bin; the next one of the bin gets the pointer to
  the next bin, which is stale in it.
\<close>

definition pop_top :: "store \<Rightarrow> Event \<Rightarrow> (store \<times> nat option) option" where
  "pop_top h te =
     (case nextInBin te of
        None \<Rightarrow> Some (h, nextBin te)
      | Some nxt \<Rightarrow> do { h1 \<leftarrow> set_nextBin h nxt (nextBin te); Some (h1, Some nxt) })"

definition removeItem :: "store \<Rightarrow> nat \<Rightarrow> nat \<Rightarrow> (store \<times> nat option) option" where
  "removeItem h event t0 =
     do { te \<leftarrow> h t0;
          if event = t0
          then pop_top h te
          else do { cur \<leftarrow> find_item h event t0 (nextInBin te);
                    ce \<leftarrow> h cur;
                    e \<leftarrow> h event;
                    Some (h(cur \<mapsto> ce\<lparr>nextInBin := nextInBin e\<rparr>), Some t0) } }"

definition eq_remove :: "store \<Rightarrow> nat option \<Rightarrow> nat \<Rightarrow> (store \<times> nat option) option" where
  "eq_remove h head event =
     do { first \<leftarrow> head;
          he \<leftarrow> h first;
          e \<leftarrow> h event;
          if ev_eq he e then removeItem h event first
          else do { (prev, cur) \<leftarrow> find_bin h e first (nextBin he);
                    c \<leftarrow> cur;
                    ce \<leftarrow> h c;
                    check (\<not> ev_neq ce e);
                    (h1, q) \<leftarrow> removeItem h event c;
                    h2 \<leftarrow> set_nextBin h1 prev q;
                    Some (h2, head) } }"

subsection \<open>The check of the queue\<close>

text \<open>
  \<open>debugVerify\<close> walks all events with the tick and priority of the last one and
  the addresses seen so far.  The walk of a bin yields \<^term>\<open>None\<close> inside
  \<^term>\<open>Some\<close> when the check returns false.
\<close>

definition verify_one :: "nat \<Rightarrow> Event \<Rightarrow> tick \<times> int \<times> nat list \<Rightarrow> bool" where
  "verify_one i e st =
     (case st of (time, priority, seen) \<Rightarrow>
        \<not> ev_when e < time \<and> \<not> (ev_when e = time \<and> sint (ev_priority e) < priority) \<and> i \<notin> set seen)"

partial_function (option) verify_bin ::
  "store \<Rightarrow> nat option \<Rightarrow> tick \<times> int \<times> nat list \<Rightarrow> (tick \<times> int \<times> nat list) option option" where
  "verify_bin h p st =
     (if p = None then Some (Some st)
      else do { i \<leftarrow> p;
                e \<leftarrow> h i;
                if verify_one i e st
                then verify_bin h (nextInBin e) (ev_when e, sint (ev_priority e), i # snd (snd st))
                else Some None })"

partial_function (option) verify_bins ::
  "store \<Rightarrow> nat option \<Rightarrow> tick \<times> int \<times> nat list \<Rightarrow> bool option" where
  "verify_bins h p st =
     (if p = None then Some True
      else do { r \<leftarrow> verify_bin h p st;
                if r = None then Some False
                else do { st1 \<leftarrow> r; i \<leftarrow> p; e \<leftarrow> h i; verify_bins h (nextBin e) st1 } })"

definition debugVerify :: "store \<Rightarrow> nat option \<Rightarrow> bool option" where
  "debugVerify h head = verify_bins h head (0, 0, [])"

declare find_bin.simps [code] find_item.simps [code] verify_bin.simps [code] verify_bins.simps [code]

subsection \<open>What the pointers represent\<close>

text \<open>The rank of an event: its tick, then its signed priority.\<close>

definition key :: "Event \<Rightarrow> nat \<times> int" where
  "key e = (unat (ev_when e), sint (ev_priority e))"

definition key_at :: "store \<Rightarrow> nat \<Rightarrow> nat \<times> int" where
  "key_at h i = (case h i of None \<Rightarrow> (0, 0) | Some e \<Rightarrow> key e)"

lemma key_at_Some [simp]: "h i = Some e \<Longrightarrow> key_at h i = key e"
  by (simp add: key_at_def)

lemma unat_tick_eq [simp]: "unat (a :: tick) = unat b \<longleftrightarrow> a = b"
  by (simp add: word_unat_eq_iff)

lemma key_eq_iff: "key l = key r \<longleftrightarrow> ev_when l = ev_when r \<and> ev_priority l = ev_priority r"
  by (auto simp: key_def intro: signed_word_eqI)

lemma ev_less_key: "ev_less l r \<longleftrightarrow> key l < key r"
  by (auto simp: ev_less_def key_def word_less_nat_alt word_sless_alt)

lemma ev_le_key: "ev_le l r \<longleftrightarrow> key l \<le> key r"
  by (auto simp: ev_le_def key_def word_less_nat_alt word_sle_eq order_le_less)

lemma ev_eq_key: "ev_eq l r \<longleftrightarrow> key l = key r"
  by (simp add: ev_eq_def key_eq_iff)

lemma ev_neq_key: "ev_neq l r \<longleftrightarrow> key l \<noteq> key r"
  by (simp add: ev_neq_def key_eq_iff)

text \<open>A bin: events linked by \<open>nextInBin\<close>.  A list of bins: see above.\<close>

fun chain :: "store \<Rightarrow> nat option \<Rightarrow> nat list \<Rightarrow> bool" where
  "chain h p [] = (p = None)"
| "chain h p (i # is) = (p = Some i \<and> (case h i of None \<Rightarrow> False | Some e \<Rightarrow> chain h (nextInBin e) is))"

fun bins :: "store \<Rightarrow> nat option \<Rightarrow> nat list list \<Rightarrow> bool" where
  "bins h p [] = (p = None)"
| "bins h p ([] # bs) = False"
| "bins h p ((i # is) # bs) =
     (p = Some i \<and>
      (case h i of
         None \<Rightarrow> False
       | Some e \<Rightarrow>
           chain h (nextInBin e) is \<and> (\<forall>j \<in> set is. key_at h j = key e)
           \<and> (\<forall>j \<in> set (concat bs). key e < key_at h j) \<and> bins h (nextBin e) bs))"

text \<open>The queue that starts at \<open>p\<close> holds the events \<open>xs\<close>, in this order.\<close>

definition queue_holds :: "store \<Rightarrow> nat option \<Rightarrow> nat list \<Rightarrow> bool" where
  "queue_holds h p xs \<longleftrightarrow> distinct xs \<and> (\<exists>bs. bins h p bs \<and> concat bs = xs)"

text \<open>What an operation may change at an address without changing the queue.\<close>

definition same_at :: "store \<Rightarrow> store \<Rightarrow> nat \<Rightarrow> bool" where
  "same_at h h' i \<longleftrightarrow> map_option (\<lambda>e. (nextBin e, nextInBin e, key e)) (h' i)
     = map_option (\<lambda>e. (nextBin e, nextInBin e, key e)) (h i)"

lemma same_at_refl [simp]: "same_at h h i"
  by (simp add: same_at_def)

lemma same_at_upd [simp]: "i \<noteq> j \<Longrightarrow> same_at h (h'(i := x)) j = same_at h h' j"
  by (simp add: same_at_def)

lemma same_at_key: "same_at h h' i \<Longrightarrow> key_at h' i = key_at h i"
  by (auto simp: same_at_def key_at_def split: option.splits)

lemma same_at_nextInBin:
  "same_at h h' i \<Longrightarrow> map_option nextInBin (h' i) = map_option nextInBin (h i)"
  by (cases "h i"; cases "h' i") (simp_all add: same_at_def)

lemma key_at_upd [simp]: "i \<noteq> j \<Longrightarrow> key_at (h(i := x)) j = key_at h j"
  by (simp add: key_at_def)

lemma key_at_new [simp]: "key_at (h(i \<mapsto> e)) i = key e"
  by (simp add: key_at_def)

lemma chain_cong:
  "(\<And>j. j \<in> set is \<Longrightarrow> map_option nextInBin (h' j) = map_option nextInBin (h j))
   \<Longrightarrow> chain h' p is = chain h p is"
proof (induction "is" arbitrary: p)
  case (Cons i "is")
  have "map_option nextInBin (h' i) = map_option nextInBin (h i)" by (rule Cons.prems) simp
  moreover have "chain h' q is = chain h q is" for q by (rule Cons.IH) (simp add: Cons.prems)
  ultimately show ?case by (cases "h i"; cases "h' i") simp_all
qed simp

lemma chain_mem: "chain h p is \<Longrightarrow> i \<in> set is \<Longrightarrow> \<exists>e. h i = Some e"
  by (induction "is" arbitrary: p) (auto split: option.splits)

lemma bins_cong:
  "(\<And>j. j \<in> set (concat bs) \<Longrightarrow> same_at h h' j) \<Longrightarrow> bins h' p bs = bins h p bs"
proof (induction bs arbitrary: p)
  case (Cons b bs)
  show ?case
  proof (cases b)
    case (Cons i "is")
    have here: "same_at h h' i" "\<And>j. j \<in> set is \<Longrightarrow> same_at h h' j" "\<And>j. j \<in> set (concat bs) \<Longrightarrow> same_at h h' j"
      by (rule Cons.prems; simp add: \<open>b = i # is\<close>)+
    have "bins h' q bs = bins h q bs" for q by (rule Cons.IH) (rule here(3))
    moreover have "chain h' q is = chain h q is" for q
      by (rule chain_cong, drule here(2), rule same_at_nextInBin)
    moreover have "(\<forall>j \<in> set is. key_at h' j = k) = (\<forall>j \<in> set is. key_at h j = k)"
      "(\<forall>j \<in> set (concat bs). k < key_at h' j) = (\<forall>j \<in> set (concat bs). k < key_at h j)" for k
      using here(2,3) by (metis same_at_key)+
    ultimately show ?thesis
      using here(1) unfolding \<open>b = i # is\<close> same_at_def
      by (cases "h i"; cases "h' i") (simp_all del: set_concat)
  qed simp
qed simp

lemma bins_upd [simp]: "i \<notin> set (concat bs) \<Longrightarrow> bins (h(i := x)) p bs = bins h p bs"
  by (rule bins_cong) (metis same_at_refl same_at_upd)

lemma bins_mem: "bins h p bs \<Longrightarrow> i \<in> set (concat bs) \<Longrightarrow> \<exists>e. h i = Some e"
  by (induction h p bs rule: bins.induct) (auto split: option.splits dest: chain_mem)

lemma bins_SomeE:
  assumes "bins h (Some i) bs"
  obtains "is" bs' e where "bs = (i # is) # bs'" "h i = Some e" "chain h (nextInBin e) is"
    "\<forall>j \<in> set is. key_at h j = key e" "\<forall>j \<in> set (concat bs'). key e < key_at h j" "bins h (nextBin e) bs'"
  using assms by (cases "(h, Some i, bs)" rule: bins.cases) (auto split: option.splits)

lemma bins_nonempty: "bins h p bs \<Longrightarrow> j \<in> set (concat bs) \<Longrightarrow> \<exists>i. p = Some i"
  by (cases "(h, p, bs)" rule: bins.cases) auto

lemma bins_ge_head:
  assumes "bins h (Some i) bs" and "j \<in> set (concat bs)"
  shows "key_at h i \<le> key_at h j"
  using assms(1) by (rule bins_SomeE) (use assms(2) in \<open>auto dest: less_imp_le\<close>)

subsection \<open>Insertion refines insertion into a sorted list\<close>

text \<open>The store after an operation on the events \<open>A\<close>: only pointers have changed, and only in \<open>A\<close>.\<close>

definition relinked :: "nat set \<Rightarrow> store \<Rightarrow> store \<Rightarrow> bool" where
  "relinked A h h' \<longleftrightarrow> (\<forall>i. map_option (\<lambda>e. e\<lparr>nextBin := None, nextInBin := None\<rparr>) (h' i)
     = map_option (\<lambda>e. e\<lparr>nextBin := None, nextInBin := None\<rparr>) (h i)) \<and> (\<forall>i. i \<notin> A \<longrightarrow> h' i = h i)"

lemma relinked_refl [simp]: "relinked A h h"
  by (simp add: relinked_def)

lemma relinked_trans: "relinked A h h' \<Longrightarrow> relinked A h' h'' \<Longrightarrow> relinked A h h''"
  by (simp add: relinked_def)

lemma relinked_mono: "relinked A h h' \<Longrightarrow> A \<subseteq> B \<Longrightarrow> relinked B h h'"
  unfolding relinked_def by blast

lemma relinked_other: "relinked A h h' \<Longrightarrow> i \<notin> A \<Longrightarrow> h' i = h i"
  by (simp add: relinked_def)

lemma relinked_upd:
  assumes "h i = Some e" "i \<in> A" "e'\<lparr>nextBin := None, nextInBin := None\<rparr> = e\<lparr>nextBin := None, nextInBin := None\<rparr>"
  shows "relinked A h (h(i \<mapsto> e'))"
  using assms by (auto simp: relinked_def)

lemma relinked_at:
  assumes "relinked A h h'" "h i = Some e"
  obtains e' where "h' i = Some e'" "ev_when e' = ev_when e" "ev_priority e' = ev_priority e" "ev_flags e' = ev_flags e"
proof -
  from assms have "map_option (\<lambda>e. e\<lparr>nextBin := None, nextInBin := None\<rparr>) (h' i)
     = Some (e\<lparr>nextBin := None, nextInBin := None\<rparr>)" by (simp add: relinked_def)
  then obtain e' where e': "h' i = Some e'"
    "e'\<lparr>nextBin := None, nextInBin := None\<rparr> = e\<lparr>nextBin := None, nextInBin := None\<rparr>" by auto
  from e'(2) show ?thesis by (intro that [OF e'(1)]) (cases e; cases e'; simp)+
qed

lemma relinked_None: "relinked A h h' \<Longrightarrow> h' i = None \<longleftrightarrow> h i = None"
  unfolding relinked_def by (metis map_option_is_None)

lemma relinked_key: "relinked A h h' \<Longrightarrow> key_at h' = key_at h"
proof (rule ext)
  fix i
  assume r: "relinked A h h'"
  show "key_at h' i = key_at h i"
  proof (cases "h i")
    case None
    then show ?thesis using relinked_None [OF r, of i] by (simp add: key_at_def)
  next
    case (Some e)
    with r obtain e' where "h' i = Some e'" "ev_when e' = ev_when e" "ev_priority e' = ev_priority e"
      by (rule relinked_at)
    then show ?thesis using Some by (simp add: key_def)
  qed
qed

lemma insort_key_append:
  "(\<And>y. y \<in> set xs \<Longrightarrow> f y < f x) \<Longrightarrow> insort_key f x (xs @ ys) = xs @ insort_key f x ys"
proof (induction xs)
  case (Cons a xs)
  then have "f a < f x" "\<And>y. y \<in> set xs \<Longrightarrow> f y < f x" by simp_all
  moreover from this have "\<not> f x \<le> f a" by (simp add: not_le)
  ultimately show ?case using Cons.IH by simp
qed simp

lemma insort_key_front: "(\<And>y. y \<in> set ys \<Longrightarrow> f x \<le> f y) \<Longrightarrow> insort_key f x ys = x # ys"
  by (cases ys) auto

text \<open>\<open>insertBefore\<close> puts the event in front of the bins that start at \<open>cur\<close>.\<close>

lemma insertBefore_front:
  assumes "bins h cur bs" "h i = Some e" "i \<notin> set (concat bs)"
    and "\<forall>c. cur = Some c \<longrightarrow> key e \<le> key_at h c"
  obtains e' bs' where "insertBefore h i cur = Some (h(i \<mapsto> e'))"
    "e'\<lparr>nextBin := None, nextInBin := None\<rparr> = e\<lparr>nextBin := None, nextInBin := None\<rparr>"
    "bins (h(i \<mapsto> e')) (Some i) bs'" "concat bs' = i # concat bs"
proof (cases cur)
  case None
  then have "bs = []" using assms(1) by (cases "(h, cur, bs)" rule: bins.cases) auto
  then show ?thesis
    using None assms(2) by (intro that [of "e\<lparr>nextBin := None, nextInBin := None\<rparr>" "[[i]]"]) (simp_all add: insertBefore_def)
next
  case (Some c)
  from assms(1) [unfolded Some] obtain cs bs2 ce where b: "bs = (c # cs) # bs2" "h c = Some ce"
    "chain h (nextInBin ce) cs" "\<forall>j \<in> set cs. key_at h j = key ce"
    "\<forall>j \<in> set (concat bs2). key ce < key_at h j" "bins h (nextBin ce) bs2" by (rule bins_SomeE)
  have le: "key e \<le> key ce" using assms(4) Some b(2) by simp
  have ne: "j \<noteq> i" if "j \<in> set (concat bs)" for j using that assms(3) by auto
  show ?thesis
  proof (cases "key e < key ce")
    case True
    define e' where "e' = e\<lparr>nextBin := cur, nextInBin := None\<rparr>"
    have "key e < key_at h j" if "j \<in> set (concat bs)" for j
      using bins_ge_head [OF assms(1) [unfolded Some] that] True b(2) by simp
    moreover have "key e' = key e" by (simp add: e'_def key_def)
    ultimately have "\<forall>j \<in> set (concat bs). key e' < key_at (h(i \<mapsto> e')) j"
      using ne by (metis key_at_upd)
    then have "bins (h(i \<mapsto> e')) (Some i) ([i] # bs)"
      using assms(1,3) by (simp add: e'_def del: set_concat)
    then show ?thesis
      using True b(2) assms(2) Some by (intro that [of e' "[i] # bs"]) (simp_all add: insertBefore_def ev_less_key e'_def)
  next
    case False
    with le have eq: "key e = key ce" by simp
    define e' where "e' = e\<lparr>nextBin := nextBin ce, nextInBin := cur\<rparr>"
    have k: "key e' = key ce" using eq by (simp add: e'_def key_def)
    have n: "i \<notin> set (concat bs2)" "c \<noteq> i" "i \<notin> set cs" using assms(3) b(1) by auto
    have "chain (h(i \<mapsto> e')) q cs = chain h q cs" for q
      by (rule chain_cong) (use n(3) in auto)
    moreover have "\<forall>j \<in> set cs. key_at (h(i \<mapsto> e')) j = key ce"
      "\<forall>j \<in> set (concat bs2). key ce < key_at (h(i \<mapsto> e')) j" using b(4,5) n by (metis key_at_upd)+
    moreover have "key_at (h(i \<mapsto> e')) c = key ce" using n(2) b(2) by simp
    ultimately have "bins (h(i \<mapsto> e')) (Some i) ((i # c # cs) # bs2)"
      using b(2,3,6) n(1,2) k Some by (simp add: e'_def del: set_concat)
    then show ?thesis
      using False b(1,2) assms(2) Some
      by (intro that [of e' "(i # c # cs) # bs2"]) (simp_all add: insertBefore_def ev_less_key e'_def)
  qed
qed

text \<open>
  The walk to the bin of an event stops between the bins that come before it and
  the others.
\<close>

lemma find_bin_splits:
  assumes "bins h (Some i) bs" "key_at h i < key e" "h i = Some d"
  obtains pre b post prev cur where "find_bin h e i (nextBin d) = Some (prev, cur)"
    "bs = pre @ (prev # b) # post" "bins h cur post" "\<forall>j \<in> set (concat (pre @ [prev # b])). key_at h j < key e"
    "\<forall>c. cur = Some c \<longrightarrow> key e \<le> key_at h c"
  using assms
proof (induction bs arbitrary: i d thesis)
  case Nil
  then show ?case by simp
next
  case (Cons b0 bs)
  from Cons.prems(2) obtain "is" where b: "b0 = i # is"
    "\<forall>j \<in> set is. key_at h j = key d" "bins h (nextBin d) bs"
    by (rule bins_SomeE) (use Cons.prems(4) in simp)
  have low: "\<forall>j \<in> set b0. key_at h j < key e" using Cons.prems(3,4) b(1,2) by simp
  show ?case
  proof (cases "\<exists>c. nextBin d = Some c \<and> key_at h c < key e")
    case True
    then obtain c where c: "nextBin d = Some c" "key_at h c < key e" by blast
    with b(3) obtain ce where ce: "h c = Some ce" by (metis bins_SomeE)
    obtain pre b1 post prev cur where r: "find_bin h e c (nextBin ce) = Some (prev, cur)"
      "bs = pre @ (prev # b1) # post" "bins h cur post" "\<forall>j \<in> set (concat (pre @ [prev # b1])). key_at h j < key e"
      "\<forall>c. cur = Some c \<longrightarrow> key e \<le> key_at h c"
      using Cons.IH [OF _ b(3) [unfolded c(1)] c(2) ce] by blast
    have "find_bin h e i (nextBin d) = Some (prev, cur)"
      using r(1) c ce by (subst find_bin.simps) (simp add: ev_less_key)
    then show ?thesis
      using r(2-5) low by (intro Cons.prems(1) [of prev cur "b0 # pre" b1 post]) auto
  next
    case False
    have "find_bin h e i (nextBin d) = Some (i, nextBin d)"
    proof (cases "nextBin d")
      case None
      then show ?thesis by (subst find_bin.simps) simp
    next
      case (Some c)
      with b(3) obtain ce where "h c = Some ce" by (metis bins_SomeE)
      then show ?thesis using False Some by (subst find_bin.simps) (simp add: ev_less_key)
    qed
    then show ?thesis
      using b low False by (intro Cons.prems(1) [of i "nextBin d" "[]" "is" bs]) (auto simp: not_less)
  qed
qed

text \<open>
  Replacing the bins behind one bin: the new ones hang from its first event and
  everything before stays.
\<close>

lemma bins_splice:
  assumes "bins h p (pre @ (prev # b) # post)" "distinct (concat (pre @ [prev # b]))"
    and "h prev = Some pe" "h' prev = Some (pe\<lparr>nextBin := q\<rparr>)"
    and "\<And>j. j \<in> set (concat (pre @ [prev # b])) \<Longrightarrow> j \<noteq> prev \<Longrightarrow> same_at h h' j"
    and "bins h' q post'" "\<forall>j \<in> set (concat post'). key pe < key_at h' j"
  shows "bins h' p (pre @ (prev # b) # post')"
  using assms(1,2,5)
proof (induction pre arbitrary: p)
  case Nil
  from Nil(1) have b: "p = Some prev" "chain h (nextInBin pe) b" "\<forall>j \<in> set b. key_at h j = key pe"
    using assms(3) by simp_all
  have eq: "same_at h h' j" if "j \<in> set b" for j using Nil(2,3) that by auto
  have "chain h' (nextInBin pe) b = chain h (nextInBin pe) b"
    by (rule chain_cong, drule eq, rule same_at_nextInBin)
  moreover have "\<forall>j \<in> set b. key_at h' j = key pe" using b(3) eq same_at_key by metis
  moreover have "key (pe\<lparr>nextBin := q\<rparr>) = key pe" by (simp add: key_def)
  ultimately show ?case using b(1,2) assms(4,6,7) by (simp del: set_concat)
next
  case (Cons c pre)
  from Cons.prems(1) obtain i "is" e where c: "c = i # is" "p = Some i" "h i = Some e"
    "chain h (nextInBin e) is" "\<forall>j \<in> set is. key_at h j = key e"
    "\<forall>j \<in> set (concat (pre @ (prev # b) # post)). key e < key_at h j"
    "bins h (nextBin e) (pre @ (prev # b) # post)"
    by (cases c) (auto split: option.splits)
  have d: "distinct (concat (pre @ [prev # b]))" "prev \<notin> set c" using Cons.prems(2) by auto
  have sa: "same_at h h' j" if "j \<in> set c \<union> set (concat (pre @ [prev # b]))" "j \<noteq> prev" for j
    by (rule Cons.prems(3)) (use that in auto)
  have IH: "bins h' (nextBin e) (pre @ (prev # b) # post')"
    by (rule Cons.IH [OF c(7) d(1)]) (use sa in auto)
  obtain e' where e': "h' i = Some e'" "nextBin e' = nextBin e" "nextInBin e' = nextInBin e" "key e' = key e"
    using sa [of i] c(1,3) d(2) by (cases "h' i") (auto simp: same_at_def)
  have prev_key: "key_at h' prev = key_at h prev" using assms(3,4) by (simp add: key_def)
  have "key e < key_at h' j" if "j \<in> set (concat (pre @ [prev # b]))" for j
    using c(6) that sa [of j] same_at_key prev_key by (cases "j = prev") auto
  moreover have "key e < key pe" using c(6) assms(3) by simp
  ultimately have hi: "\<forall>j \<in> set (concat (pre @ (prev # b) # post')). key e < key_at h' j"
    using assms(7) by fastforce
  have low: "\<forall>j \<in> set is. key_at h' j = key e" using c(1,5) d(2) sa same_at_key
    by (metis UnCI list.set_intros(2))
  have "chain h' (nextInBin e) is = chain h (nextInBin e) is"
    by (rule chain_cong, rule same_at_nextInBin, rule sa) (use c(1) d(2) in auto)
  then show ?case using c(1,2,4) e' hi low IH by (simp del: set_concat concat_append concat.simps)
qed

lemma eq_insert_front:
  assumes "bins h head bs" "distinct (concat bs)" "h i = Some e" and i: "i \<notin> set (concat bs)"
    and "\<forall>c. head = Some c \<longrightarrow> key e \<le> key_at h c"
  obtains h' head' where "eq_insert h head i = Some (h', head')" "relinked (insert i (set (concat bs))) h h'"
    "queue_holds h' head' (insort_key (key_at h) i (concat bs))"
proof -
  obtain e' bs' where r: "insertBefore h i head = Some (h(i \<mapsto> e'))"
    "e'\<lparr>nextBin := None, nextInBin := None\<rparr> = e\<lparr>nextBin := None, nextInBin := None\<rparr>"
    "bins (h(i \<mapsto> e')) (Some i) bs'" "concat bs' = i # concat bs"
    by (rule insertBefore_front [OF assms(1) assms(3) i assms(5)])
  have front: "insort_key (key_at h) i (concat bs) = i # concat bs"
  proof (rule insort_key_front)
    fix y
    assume y: "y \<in> set (concat bs)"
    then obtain c where c: "head = Some c" using bins_nonempty [OF assms(1)] by blast
    have "key_at h c \<le> key_at h y" using bins_ge_head assms(1) c y by blast
    then show "key_at h i \<le> key_at h y" using assms(5) c assms(3) by force
  qed
  have "eq_insert h head i = Some (h(i \<mapsto> e'), Some i)"
  proof (cases head)
    case None
    then show ?thesis using r(1) assms(3) by (simp add: eq_insert_def)
  next
    case (Some c)
    then obtain ce where "h c = Some ce" using assms(1) by (metis bins_SomeE)
    then show ?thesis using r(1) assms(3) Some assms(5) by (simp add: eq_insert_def ev_le_key)
  qed
  moreover have "queue_holds (h(i \<mapsto> e')) (Some i) (insort_key (key_at h) i (concat bs))"
    unfolding queue_holds_def front using r(3,4) assms(2) i by (simp del: set_concat) blast
  moreover have "relinked (insert i (set (concat bs))) h (h(i \<mapsto> e'))" by (rule relinked_upd [of h i, OF assms(3) insertI1 r(2)])
  ultimately show ?thesis using that by blast
qed

lemma eq_insert_later:
  assumes "bins h (Some c) bs" "distinct (concat bs)" "h i = Some e" and i: "i \<notin> set (concat bs)"
    and "key_at h c < key e"
  obtains h' head' where "eq_insert h (Some c) i = Some (h', head')" "relinked (insert i (set (concat bs))) h h'"
    "queue_holds h' head' (insort_key (key_at h) i (concat bs))"
proof -
  obtain d where d: "h c = Some d" using assms(1) by (rule bins_SomeE)
  obtain pre b post prev cur where w: "find_bin h e c (nextBin d) = Some (prev, cur)"
    "bs = pre @ (prev # b) # post" "bins h cur post" "\<forall>j \<in> set (concat (pre @ [prev # b])). key_at h j < key e"
    "\<forall>c. cur = Some c \<longrightarrow> key e \<le> key_at h c"
    by (rule find_bin_splits [OF assms(1) assms(5) d])
  have ipost: "i \<notin> set (concat post)" using i w(2) by simp
  obtain e' bs' where r: "insertBefore h i cur = Some (h(i \<mapsto> e'))"
    "e'\<lparr>nextBin := None, nextInBin := None\<rparr> = e\<lparr>nextBin := None, nextInBin := None\<rparr>"
    "bins (h(i \<mapsto> e')) (Some i) bs'" "concat bs' = i # concat post"
    by (rule insertBefore_front [OF w(3) assms(3) ipost w(5)])
  have prev: "prev \<noteq> i" "prev \<notin> set (concat post)" "prev \<in> set (concat bs)"
    using i w(2) assms(2) by auto
  obtain pe where pe: "h prev = Some pe" using bins_mem [OF assms(1) prev(3)] by blast
  define h2 where "h2 = h(i \<mapsto> e', prev \<mapsto> pe\<lparr>nextBin := Some i\<rparr>)"
  have "\<not> key e \<le> key d" using assms(5) d by simp
  then have run: "eq_insert h (Some c) i = Some (h2, Some c)"
    using d w(1) r(1) assms(3) pe prev(1) by (simp add: eq_insert_def ev_le_key set_nextBin_def h2_def)
  have rel: "relinked (insert i (set (concat bs))) h h2"
    unfolding h2_def by (rule relinked_trans [OF relinked_upd [of h i, OF assms(3) insertI1 r(2)]], rule relinked_upd)
      (use pe prev in \<open>simp_all del: set_concat\<close>)
  have keys: "key_at h2 = key_at h" by (rule relinked_key [OF rel])
  have post_ge: "key e \<le> key_at h j" if j: "j \<in> set (concat post)" for j
  proof -
    obtain k where k: "cur = Some k" using bins_nonempty [OF w(3) j] by blast
    then show ?thesis using w(5) bins_ge_head [OF w(3) [unfolded k] j] by force
  qed
  have "bins h2 (Some c) (pre @ (prev # b) # bs')"
  proof (rule bins_splice [OF assms(1) [unfolded w(2)], where pe = pe])
    show "bins h2 (Some i) bs'" unfolding h2_def using r(3,4) prev(1,2) by simp
    have "concat bs = concat (pre @ [prev # b]) @ concat post" using w(2) by simp
    then show "distinct (concat (pre @ [prev # b]))" using assms(2) by (metis distinct_append)
    show "\<forall>j \<in> set (concat bs'). key pe < key_at h2 j"
      using r(4) w(4) post_ge assms(3) pe unfolding keys by fastforce
    show "same_at h h2 j" if "j \<in> set (concat (pre @ [prev # b]))" "j \<noteq> prev" for j
    proof -
      have "j \<noteq> i" using that(1) i w(2) by auto
      then show ?thesis using that(2) by (simp add: h2_def same_at_def)
    qed
  qed (use pe in \<open>simp_all add: h2_def\<close>)
  moreover have "concat (pre @ (prev # b) # bs') = insort_key (key_at h) i (concat bs)"
  proof -
    have "insort_key (key_at h) i (concat (pre @ [prev # b]) @ concat post)
        = concat (pre @ [prev # b]) @ insort_key (key_at h) i (concat post)"
      by (rule insort_key_append) (use w(4) assms(3) in auto)
    also have "insort_key (key_at h) i (concat post) = i # concat post"
      by (rule insort_key_front) (use post_ge assms(3) in auto)
    finally show ?thesis using w(2) r(4) by simp
  qed
  moreover have "distinct (insort_key (key_at h) i (concat bs))" using assms(2) i by (simp add: distinct_insort del: set_concat)
  ultimately have "queue_holds h2 (Some c) (insort_key (key_at h) i (concat bs))" unfolding queue_holds_def by blast
  then show ?thesis by (rule that [OF run rel])
qed

theorem eq_insert_refines:
  assumes "queue_holds h head xs" "h i = Some e" "i \<notin> set xs"
  obtains h' head' where "eq_insert h head i = Some (h', head')" "relinked (insert i (set xs)) h h'"
    "queue_holds h' head' (insort_key (key_at h) i xs)"
proof -
  from assms(1) obtain bs where bs: "bins h head bs" "distinct (concat bs)" "xs = concat bs" by (auto simp: queue_holds_def)
  show ?thesis
  proof (cases "\<forall>c. head = Some c \<longrightarrow> key e \<le> key_at h c")
    case True
    then show ?thesis using eq_insert_front [OF bs(1,2) assms(2)] that assms(3) unfolding bs(3) by metis
  next
    case False
    then obtain c where "head = Some c" "key_at h c < key e" by (auto simp: not_le)
    then show ?thesis using eq_insert_later [of h c bs i e] bs(1,2) assms(2,3) that unfolding bs(3) by metis
  qed
qed

subsection \<open>Removal refines deletion\<close>

lemma chain_remove:
  assumes "chain h p (pre @ c # x # post)" "distinct (pre @ c # x # post)"
    and "h c = Some ce" "h x = Some xe"
  shows "chain (h(c \<mapsto> ce\<lparr>nextInBin := nextInBin xe\<rparr>)) p (pre @ c # post)"
  using assms(1,2)
proof (induction pre arbitrary: p)
  case Nil
  then have "chain h (nextInBin xe) post" "p = Some c" using assms(3,4) by simp_all
  moreover have "chain (h(c \<mapsto> ce\<lparr>nextInBin := nextInBin xe\<rparr>)) q post = chain h q post" for q
    by (rule chain_cong) (use Nil(2) in auto)
  ultimately show ?case by (simp add: fun_upd_same del: fun_upd_apply)
next
  case (Cons a pre)
  then show ?case by (auto split: option.splits)
qed

lemma find_item_finds:
  assumes "chain h nxt is" "x \<in> set is"
  obtains pre c post where "find_item h x cur nxt = Some c" "cur # is = pre @ c # x # post"
  using assms
proof (induction "is" arbitrary: cur nxt thesis)
  case (Cons a "is")
  then obtain e where a: "nxt = Some a" "h a = Some e" "chain h (nextInBin e) is" by (auto split: option.splits)
  show ?case
  proof (cases "a = x")
    case True
    then have "find_item h x cur nxt = Some cur" using a by (subst find_item.simps) simp
    then show ?thesis using Cons.prems(1) [of cur "[]" "is"] True by simp
  next
    case False
    obtain pre c post where r: "find_item h x a (nextInBin e) = Some c" "a # is = pre @ c # x # post"
      using Cons.IH [OF _ a(3), of a] Cons.prems(3) False by (metis set_ConsD)
    have "find_item h x cur nxt = Some c" using r(1) a False by (subst find_item.simps) simp
    then show ?thesis using Cons.prems(1) [of c "cur # pre" post] r(2) by simp
  qed
qed simp

lemma find_item_panics: "chain h nxt is \<Longrightarrow> x \<notin> set is \<Longrightarrow> find_item h x cur nxt = None"
proof (induction "is" arbitrary: cur nxt)
  case Nil
  then show ?case by (subst find_item.simps) simp
next
  case (Cons a "is")
  then show ?case by (subst find_item.simps) (auto split: option.splits)
qed

lemma pop_top_drops:
  assumes "bins h (Some t) ((t # is) # bs)" "distinct (t # is)" "h t = Some e"
  obtains h' q bs' where "pop_top h e = Some (h', q)" "bins h' q bs'" "concat bs' = is @ concat bs" "relinked (set is) h h'"
proof -
  have e: "chain h (nextInBin e) is" "\<forall>j \<in> set is. key_at h j = key e"
    "\<forall>j \<in> set (concat bs). key e < key_at h j" "bins h (nextBin e) bs" using assms(1,3) by simp_all
  show ?thesis
  proof (cases "is")
    case Nil
    then show ?thesis using e by (intro that [of h "nextBin e" bs]) (simp_all add: pop_top_def)
  next
    case (Cons j js)
    then obtain je where j: "nextInBin e = Some j" "h j = Some je" "chain h (nextInBin je) js" "key je = key e"
      using e(1,2) by (auto split: option.splits)
    define h' where "h' = h(j \<mapsto> je\<lparr>nextBin := nextBin e\<rparr>)"
    have rel: "relinked (set is) h h'" unfolding h'_def by (rule relinked_upd) (use j(2) Cons in simp_all)
    have "j \<notin> set (concat bs)" using e(3) j(2,4) by (metis key_at_Some less_irrefl)
    then have "bins h' q bs = bins h q bs" for q unfolding h'_def by (rule bins_upd)
    moreover have "chain h' q js = chain h q js" for q
      by (rule chain_cong) (use Cons assms(2) in \<open>auto simp: h'_def\<close>)
    moreover have "key (je\<lparr>nextBin := nextBin e\<rparr>) = key e" using j(4) by (simp add: key_def)
    ultimately have "bins h' (Some j) (is # bs)"
      using Cons e(2-4) j(3) relinked_key [OF rel] by (simp add: h'_def del: set_concat)
    then show ?thesis
      using rel Cons j by (intro that [of h' "Some j" "is # bs"]) (simp_all add: pop_top_def set_nextBin_def h'_def)
  qed
qed

lemma removeItem_inner:
  assumes "bins h (Some t) ((t # is) # bs)" "distinct (t # is)" "x \<in> set is"
  obtains h' q bs' where "removeItem h x t = Some (h', q)" "bins h' q bs'"
    "concat bs' = remove1 x (concat ((t # is) # bs))" "relinked (set (t # is)) h h'"
proof -
  from assms(1) obtain e where e: "h t = Some e" "chain h (nextInBin e) is" "\<forall>j \<in> set is. key_at h j = key e"
    "\<forall>j \<in> set (concat bs). key e < key_at h j" "bins h (nextBin e) bs" by (auto split: option.splits)
  have ne: "x \<noteq> t" using assms(2,3) by auto
  obtain pre c post where f: "find_item h x t (nextInBin e) = Some c" "t # is = pre @ c # x # post"
    by (rule find_item_finds [OF e(2) assms(3)])
  have full: "chain h (Some t) (pre @ c # x # post)" "distinct (pre @ c # x # post)"
    using e(1,2) assms(2) f(2) by (metis chain.simps(2) option.simps(5), metis)
  obtain ce xe where ce: "h c = Some ce" "h x = Some xe"
    using chain_mem [OF full(1)] by (metis in_set_conv_decomp append.assoc append_Cons append_Nil)
  define h' where "h' = h(c \<mapsto> ce\<lparr>nextInBin := nextInBin xe\<rparr>)"
  have c: "c \<in> set (t # is)" unfolding f(2) by simp
  have rel: "relinked (set (t # is)) h h'" unfolding h'_def by (rule relinked_upd [of h c, OF ce(1) c]) simp
  have "pre @ c # post = remove1 x (t # is)" unfolding f(2) using full(2) by (auto simp: remove1_append)
  then have ch: "chain h' (Some t) (t # remove1 x is)"
    using chain_remove [OF full ce] ne unfolding h'_def by simp
  obtain te where te: "h' t = Some te" "nextBin te = nextBin e" "key te = key e" "chain h' (nextInBin te) (remove1 x is)"
    using ch ce(1) e(1) by (cases "c = t") (auto simp: h'_def key_def)
  have "c \<notin> set (concat bs)" using c e(1,3,4) by (metis key_at_Some less_irrefl set_ConsD)
  then have "bins h' q bs = bins h q bs" for q unfolding h'_def by (rule bins_upd)
  then have "bins h' (Some t) ((t # remove1 x is) # bs)"
    using te e(3-5) relinked_key [OF rel] notin_set_remove1 by (fastforce simp del: set_concat)
  moreover have "removeItem h x t = Some (h', Some t)"
    using ne e(1) f(1) ce by (simp add: removeItem_def h'_def)
  moreover have "concat ((t # remove1 x is) # bs) = remove1 x (concat ((t # is) # bs))"
    using ne assms(3) by (simp add: remove1_append)
  ultimately show ?thesis using that rel by blast
qed

lemma removeItem_deletes:
  assumes "bins h (Some t) ((t # is) # bs)" "distinct (t # is)" "x \<in> set (t # is)"
  obtains h' q bs' where "removeItem h x t = Some (h', q)" "bins h' q bs'"
    "concat bs' = remove1 x (concat ((t # is) # bs))" "relinked (set (t # is)) h h'"
proof (cases "x = t")
  case True
  obtain e where e: "h t = Some e" using assms(1) by (auto split: option.splits)
  from assms(1,2) e obtain h' q bs' where "pop_top h e = Some (h', q)" "bins h' q bs'" "concat bs' = is @ concat bs"
    "relinked (set is) h h'" by (rule pop_top_drops)
  moreover from this(4) have "relinked (set (t # is)) h h'" by (rule relinked_mono) auto
  ultimately show ?thesis using True e by (intro that [of h' q bs']) (simp_all add: removeItem_def)
next
  case False
  then show ?thesis using removeItem_inner [OF assms(1,2)] assms(3) that by (metis set_ConsD)
qed

lemma removeItem_panics:
  assumes "bins h (Some t) ((t # is) # bs)" "x \<notin> set (t # is)"
  shows "removeItem h x t = None"
proof -
  from assms(1) obtain e where "h t = Some e" "chain h (nextInBin e) is" by (auto split: option.splits)
  then show ?thesis using assms(2) by (simp add: removeItem_def find_item_panics)
qed

text \<open>The bin of an event among the bins of a queue.\<close>

lemma bins_same_key:
  assumes "bins h (Some t) ((t # is) # bs)" "x \<in> set (concat ((t # is) # bs))" "key_at h x = key_at h t"
  shows "x \<in> set (t # is)"
proof (rule ccontr)
  assume "x \<notin> set (t # is)"
  then have "x \<in> set (concat bs)" using assms(2) by simp
  then have "key_at h t < key_at h x" using assms(1) by (auto split: option.splits)
  then show False using assms(3) by simp
qed

lemma eq_remove_first:
  assumes "bins h (Some t) ((t # ts) # bs)" "distinct (concat ((t # ts) # bs))" "h x = Some e"
    and "key_at h t = key e"
  shows "if x \<in> set (concat ((t # ts) # bs))
    then \<exists>h' q. eq_remove h (Some t) x = Some (h', q) \<and> relinked (set (concat ((t # ts) # bs))) h h'
      \<and> queue_holds h' q (remove1 x (concat ((t # ts) # bs)))
    else eq_remove h (Some t) x = None"
proof -
  obtain d where d: "h t = Some d" using assms(1) by (auto split: option.splits)
  then have run: "eq_remove h (Some t) x = removeItem h x t"
    using assms(3,4) by (simp add: eq_remove_def ev_eq_key)
  have iff: "x \<in> set (concat ((t # ts) # bs)) \<longleftrightarrow> x \<in> set (t # ts)"
  proof
    assume "x \<in> set (concat ((t # ts) # bs))"
    then show "x \<in> set (t # ts)" using bins_same_key [OF assms(1)] assms(3,4) by simp
  qed auto
  show ?thesis
  proof (cases "x \<in> set (t # ts)")
    case True
    have "distinct (t # ts)" using assms(2) by auto
    from assms(1) this True obtain h' q bs' where
      r: "removeItem h x t = Some (h', q)" "bins h' q bs'" "concat bs' = remove1 x (concat ((t # ts) # bs))"
      "relinked (set (t # ts)) h h'" by (rule removeItem_deletes)
    from r(4) have rel: "relinked (set (concat ((t # ts) # bs))) h h'" by (rule relinked_mono) auto
    have hold: "queue_holds h' q (remove1 x (concat ((t # ts) # bs)))"
      unfolding queue_holds_def by (intro conjI exI, rule distinct_remove1, fact+)
    show ?thesis unfolding iff if_P [OF True] run by (intro exI conjI, rule r(1), rule rel, rule hold)
  next
    case False
    then show ?thesis unfolding iff if_not_P [OF False] run by (rule removeItem_panics [OF assms(1)])
  qed
qed

lemma eq_remove_before:
  assumes "bins h (Some t) bs" "h x = Some e" "key e < key_at h t"
  shows "x \<notin> set (concat bs)" "eq_remove h (Some t) x = None"
proof -
  show "x \<notin> set (concat bs)" using bins_ge_head [OF assms(1), of x] assms(2,3) by (metis key_at_Some leD)
  from assms(1) obtain d bs0 where d: "h t = Some d" "bins h (nextBin d) bs0" "\<forall>j \<in> set (concat bs0). key d < key_at h j"
    by (rule bins_SomeE)
  show "eq_remove h (Some t) x = None"
  proof (cases "nextBin d")
    case None
    then have "find_bin h e t (nextBin d) = Some (t, None)" by (subst find_bin.simps) simp
    moreover have "key d \<noteq> key e" using d(1) assms(3) by simp
    ultimately show ?thesis using d(1) assms(2) by (simp add: eq_remove_def ev_eq_key)
  next
    case (Some c)
    from d(2) [unfolded Some] obtain cs bs1 ce where c: "bs0 = (c # cs) # bs1" "h c = Some ce" by (rule bins_SomeE)
    have "key d < key ce" using d(3) c by simp
    then have lt: "key e < key ce" using assms(3) d(1) by (simp add: less_trans [of _ "key d"])
    then have "\<not> key ce < key e" by simp
    then have "find_bin h e t (nextBin d) = Some (t, Some c)"
      using Some c(2) by (subst find_bin.simps) (simp add: ev_less_key)
    moreover have "key d \<noteq> key e" "key ce \<noteq> key e" using lt d(1) assms(3) by auto
    ultimately show ?thesis using d(1) c(2) assms(2) by (simp add: eq_remove_def ev_eq_key ev_neq_key)
  qed
qed

text \<open>An event that comes after the first bin: the walk ends at its bin, or there is none.\<close>

lemma eq_remove_walk:
  assumes "bins h (Some t) bs" "h x = Some e" "h t = Some d" "key d < key e"
    and "find_bin h e t (nextBin d) = Some (prev, cur)"
    and "\<And>c ce. cur = Some c \<Longrightarrow> h c = Some ce \<Longrightarrow> key ce \<noteq> key e"
  shows "eq_remove h (Some t) x = None"
  using assms by (cases cur) (auto simp: eq_remove_def ev_eq_key ev_neq_key Option.bind_eq_None_conv)

lemma remove_from_bin:
  assumes "bins h p (pre @ (prev # b) # (c # cs) # post)" "distinct (concat (pre @ (prev # b) # (c # cs) # post))"
    and "bins h (Some c) ((c # cs) # post)" "x \<in> set (c # cs)"
    and "\<forall>j \<in> set (concat (pre @ [prev # b])). key_at h j < key_at h c"
  obtains h1 q h' where "removeItem h x c = Some (h1, q)" "set_nextBin h1 prev q = Some h'"
    "relinked (set (concat (pre @ (prev # b) # (c # cs) # post))) h h'"
    "queue_holds h' p (remove1 x (concat (pre @ (prev # b) # (c # cs) # post)))"
proof -
  have dist: "distinct (c # cs)" "distinct (concat (pre @ [prev # b]))" "prev \<notin> set (concat ((c # cs) # post))"
    "set (concat (pre @ [prev # b])) \<inter> set (c # cs) = {}" "x \<notin> set (concat (pre @ [prev # b]))"
    using assms(2,4) by (fastforce simp: distinct_append simp del: set_concat)+
  from assms(3) dist(1) assms(4) obtain h1 q bs' where r:
    "removeItem h x c = Some (h1, q)" "bins h1 q bs'" "concat bs' = remove1 x (concat ((c # cs) # post))"
    "relinked (set (c # cs)) h h1" by (rule removeItem_deletes)
  note same = relinked_other [OF r(4)]
  have "prev \<in> set (concat (pre @ (prev # b) # (c # cs) # post))" by simp
  then obtain pe where pe: "h prev = Some pe" using bins_mem [OF assms(1)] by blast
  have pe1: "h1 prev = Some pe" using same [of prev] dist(3) pe by simp
  define h2 where "h2 = h1(prev \<mapsto> pe\<lparr>nextBin := q\<rparr>)"
  have rel1: "relinked (set (concat (pre @ (prev # b) # (c # cs) # post))) h h1" by (rule relinked_mono [OF r(4)]) auto
  have rel: "relinked (set (concat (pre @ (prev # b) # (c # cs) # post))) h h2"
    unfolding h2_def by (rule relinked_trans [OF rel1], rule relinked_upd [of h1 prev, OF pe1]) simp_all
  have sub: "set (concat bs') \<subseteq> set (concat ((c # cs) # post))" unfolding r(3) by (rule set_remove1_subset)
  have "bins h2 p (pre @ (prev # b) # bs')"
  proof (rule bins_splice [OF assms(1) dist(2) pe])
    have "prev \<notin> set (concat bs')" using sub dist(3) by blast
    then show "bins h2 q bs'" unfolding h2_def using r(2) by (subst bins_upd)
    show "\<forall>j \<in> set (concat bs'). key pe < key_at h2 j"
    proof
      fix j
      assume "j \<in> set (concat bs')"
      then have "key_at h c \<le> key_at h j" using sub bins_ge_head [OF assms(3)] by blast
      moreover have "key pe < key_at h c" using assms(5) pe by simp
      ultimately show "key pe < key_at h2 j" unfolding relinked_key [OF rel] by (rule order.strict_trans2 [rotated])
    qed
    show "same_at h h2 j" if "j \<in> set (concat (pre @ [prev # b]))" "j \<noteq> prev" for j
    proof -
      have "h1 j = h j" using same [of j] dist(4) that(1) by blast
      then show ?thesis using that(2) by (simp add: h2_def same_at_def)
    qed
  qed (simp add: h2_def)
  moreover have "concat (pre @ (prev # b) # bs') = remove1 x (concat (pre @ (prev # b) # (c # cs) # post))"
  proof -
    have "remove1 x (concat (pre @ [prev # b]) @ concat ((c # cs) # post)) = concat (pre @ [prev # b]) @ concat bs'"
      unfolding remove1_append if_not_P [OF dist(5)] r(3) by (rule refl)
    then show ?thesis by simp
  qed
  ultimately have "queue_holds h2 p (remove1 x (concat (pre @ (prev # b) # (c # cs) # post)))"
    using distinct_remove1 [OF assms(2)] unfolding queue_holds_def by blast
  moreover have "set_nextBin h1 prev q = Some h2" using pe1 by (simp add: set_nextBin_def h2_def)
  ultimately show ?thesis using that r(1) rel by blast
qed

lemma eq_remove_later:
  assumes "bins h (Some t) bs" "distinct (concat bs)" "h x = Some e" "key_at h t < key e"
  shows "if x \<in> set (concat bs)
    then \<exists>h' q. eq_remove h (Some t) x = Some (h', q) \<and> relinked (set (concat bs)) h h' \<and> queue_holds h' q (remove1 x (concat bs))
    else eq_remove h (Some t) x = None"
proof -
  obtain d where d: "h t = Some d" using assms(1) by (rule bins_SomeE)
  obtain pre b post prev cur where w: "find_bin h e t (nextBin d) = Some (prev, cur)"
    "bs = pre @ (prev # b) # post" "bins h cur post" "\<forall>j \<in> set (concat (pre @ [prev # b])). key_at h j < key e"
    "\<forall>c. cur = Some c \<longrightarrow> key e \<le> key_at h c"
    by (rule find_bin_splits [OF assms(1) assms(4) d])
  have all: "concat bs = concat (pre @ [prev # b]) @ concat post" using w(2) by simp
  have out: "x \<notin> set (concat (pre @ [prev # b]))" using w(4) assms(3) by (metis key_at_Some less_irrefl)
  then have in_post: "x \<in> set (concat bs) \<longleftrightarrow> x \<in> set (concat post)" unfolding all set_append by blast
  show ?thesis
  proof (cases "\<exists>c. cur = Some c \<and> key_at h c = key e")
    case False
    have "x \<notin> set (concat post)"
    proof
      assume x: "x \<in> set (concat post)"
      from bins_nonempty [OF w(3) x] obtain c where c: "cur = Some c" by blast
      have "key_at h c \<le> key e" using bins_ge_head [OF w(3) [unfolded c] x] assms(3) by simp
      then show False using w(5) c False by (metis order_antisym)
    qed
    moreover have "eq_remove h (Some t) x = None"
      by (rule eq_remove_walk [OF assms(1,3) d _ w(1)]) (use assms(4) d False in auto)
    ultimately show ?thesis unfolding in_post by simp
  next
    case True
    then obtain c where c: "cur = Some c" "key_at h c = key e" by blast
    from w(3) [unfolded c(1)] obtain cs post1 ce where p: "post = (c # cs) # post1" "h c = Some ce" by (rule bins_SomeE)
    have bc: "bins h (Some c) ((c # cs) # post1)" using w(3) c(1) p(1) by simp
    have kd: "key d \<noteq> key e" "key ce = key e" using assms(4) d c(2) p(2) by auto
    have run: "eq_remove h (Some t) x = do { (h1, q) \<leftarrow> removeItem h x c; h2 \<leftarrow> set_nextBin h1 prev q; Some (h2, Some t) }"
      using d assms(3) kd w(1) c(1) p(2) by (simp add: eq_remove_def ev_eq_key ev_neq_key)
    have bin: "x \<in> set (concat post) \<longleftrightarrow> x \<in> set (c # cs)"
    proof
      assume "x \<in> set (concat post)"
      then show "x \<in> set (c # cs)" using bins_same_key [OF bc] c(2) assms(3) p(1) by simp
    qed (auto simp: p(1))
    show ?thesis
    proof (cases "x \<in> set (c # cs)")
      case False
      then show ?thesis unfolding in_post bin if_not_P [OF False] run by (simp add: removeItem_panics [OF bc])
    next
      case True
      have "distinct (concat (pre @ (prev # b) # (c # cs) # post1))" using assms(2) w(2) p(1) by simp
      moreover have "\<forall>j \<in> set (concat (pre @ [prev # b])). key_at h j < key_at h c" using w(4) c(2) by simp
      ultimately obtain h1 q h' where "removeItem h x c = Some (h1, q)" "set_nextBin h1 prev q = Some h'"
        "relinked (set (concat bs)) h h'" "queue_holds h' (Some t) (remove1 x (concat bs))"
        using remove_from_bin assms(1) bc True unfolding w(2) p(1) by metis
      then have "eq_remove h (Some t) x = Some (h', Some t)" unfolding run by simp
      with \<open>relinked (set (concat bs)) h h'\<close> \<open>queue_holds h' (Some t) (remove1 x (concat bs))\<close>
      show ?thesis unfolding in_post bin if_P [OF True] by blast
    qed
  qed
qed

theorem eq_remove_refines:
  assumes "queue_holds h head xs" "h x = Some e"
  shows "if x \<in> set xs
    then \<exists>h' head'. eq_remove h head x = Some (h', head') \<and> relinked (set xs) h h' \<and> queue_holds h' head' (remove1 x xs)
    else eq_remove h head x = None"
proof (cases head)
  case None
  then have "xs = []" using assms(1) bins_nonempty by (fastforce simp: queue_holds_def simp del: set_concat)
  then show ?thesis using None by (simp add: eq_remove_def)
next
  case (Some t)
  from assms(1) obtain bs where bs: "bins h (Some t) bs" "concat bs = xs" "distinct xs" by (auto simp: queue_holds_def Some)
  from bs(1) obtain ts bs0 where t: "bs = (t # ts) # bs0" by (rule bins_SomeE)
  consider "key_at h t = key e" | "key e < key_at h t" | "key_at h t < key e" by (rule linorder_cases) blast+
  then show ?thesis
  proof cases
    case 1
    then show ?thesis using eq_remove_first [OF bs(1) [unfolded t] _ assms(2)] bs(2,3) t Some by metis
  next
    case 2
    then show ?thesis using eq_remove_before [OF bs(1) assms(2)] bs(2) Some by simp
  next
    case 3
    then show ?thesis using eq_remove_later [OF bs(1) _ assms(2)] bs(2,3) Some by metis
  qed
qed

subsection \<open>The order of the queue and its check\<close>

lemma bins_sorted: "bins h p bs \<Longrightarrow> sorted (map (key_at h) (concat bs))"
proof (induction h p bs rule: bins.induct)
  case (3 h p i "is" bs)
  then obtain e where e: "h i = Some e" "\<forall>j \<in> set is. key_at h j = key e"
    "\<forall>j \<in> set (concat bs). key e < key_at h j" "bins h (nextBin e) bs" by (auto split: option.splits)
  have "sorted (map (key_at h) (concat bs))" using 3(1) [OF e(1)] e(4) by blast
  moreover have "sorted (map (key_at h) is)"
    by (rule sorted_iff_nth_mono [THEN iffD2]) (simp add: e(2))
  moreover have "\<forall>k \<in> set (map (key_at h) (concat bs)). key e \<le> k" using e(3) by (auto intro: less_imp_le)
  moreover have "\<forall>k \<in> set (map (key_at h) is). k = key e" using e(2) by auto
  ultimately have "sorted (key e # map (key_at h) is @ map (key_at h) (concat bs))"
    unfolding sorted_append sorted_simps by (metis Un_iff order_refl set_append)
  then show ?case using e(1) by simp
qed simp_all

lemma holds_sorted: "queue_holds h p xs \<Longrightarrow> sorted (map (key_at h) xs)"
  unfolding queue_holds_def using bins_sorted by blast

lemma holds_head: "queue_holds h p xs \<Longrightarrow> p = (if xs = [] then None else Some (hd xs))"
proof -
  assume "queue_holds h p xs"
  then obtain bs where "bins h p bs" "concat bs = xs" by (auto simp: queue_holds_def)
  then show ?thesis by (cases "(h, p, bs)" rule: bins.cases) auto
qed

lemma verify_one_iff:
  "verify_one i e (t, pr, seen) \<longleftrightarrow> (unat t, pr) \<le> key e \<and> i \<notin> set seen"
  by (auto simp: verify_one_def key_def word_less_nat_alt)

lemma verify_bin_ok:
  assumes "chain h p is" "\<forall>j \<in> set is. key_at h j = k" "distinct is" "set is \<inter> set seen = {}" "(unat t, pr) \<le> k"
  shows "\<exists>t' pr' seen'. verify_bin h p (t, pr, seen) = Some (Some (t', pr', seen')) \<and> (unat t', pr') \<le> k
    \<and> set seen' = set is \<union> set seen"
  using assms
proof (induction "is" arbitrary: p t pr seen)
  case Nil
  then show ?case by (subst verify_bin.simps) auto
next
  case (Cons i "is")
  then obtain e where e: "p = Some i" "h i = Some e" "chain h (nextInBin e) is" "key e = k" by (auto split: option.splits)
  have le: "(unat (ev_when e), sint (ev_priority e)) \<le> k" using e(4) by (simp add: key_def)
  obtain t' pr' seen' where "verify_bin h (nextInBin e) (ev_when e, sint (ev_priority e), i # seen) = Some (Some (t', pr', seen'))"
    "(unat t', pr') \<le> k" "set seen' = set is \<union> set (i # seen)"
    using Cons.IH [OF e(3) _ _ _ le, of "i # seen"] Cons.prems(2-4) by auto
  then show ?case
    using Cons.prems(4,5) e by (subst verify_bin.simps) (auto simp: verify_one_iff)
qed

lemma verify_bins_ok:
  assumes "bins h p bs" "distinct (concat bs)" "set (concat bs) \<inter> set seen = {}"
    and "\<forall>j \<in> set (concat bs). (unat t, pr) \<le> key_at h j"
  shows "verify_bins h p (t, pr, seen) = Some True"
  using assms
proof (induction bs arbitrary: p t pr seen)
  case Nil
  then show ?case by (subst verify_bins.simps) auto
next
  case (Cons b bs)
  from Cons.prems(1) obtain i "is" e where b: "b = i # is" "p = Some i" "h i = Some e" "chain h (nextInBin e) is"
    "\<forall>j \<in> set is. key_at h j = key e" "\<forall>j \<in> set (concat bs). key e < key_at h j" "bins h (nextBin e) bs"
    by (cases b) (auto split: option.splits)
  have dist: "distinct b" "distinct (concat bs)" "set b \<inter> set seen = {}" "set (concat bs) \<inter> (set b \<union> set seen) = {}"
    using Cons.prems(2,3) by (auto simp: distinct_append)
  have "chain h p b" "\<forall>j \<in> set b. key_at h j = key e" using b by simp_all
  moreover have "(unat t, pr) \<le> key e" using Cons.prems(4) b(1,3) by simp
  ultimately obtain t' pr' seen' where r: "verify_bin h p (t, pr, seen) = Some (Some (t', pr', seen'))"
    "(unat t', pr') \<le> key e" "set seen' = set b \<union> set seen"
    using verify_bin_ok [OF _ _ dist(1,3)] by meson
  have "verify_bins h (nextBin e) (t', pr', seen') = Some True"
  proof (rule Cons.IH [OF b(7) dist(2)])
    show "set (concat bs) \<inter> set seen' = {}" using dist(4) r(3) by simp
    show "\<forall>j \<in> set (concat bs). (unat t', pr') \<le> key_at h j"
      using b(6) r(2) by (meson less_imp_le order.trans)
  qed
  then show ?case using r(1) b(2,3) by (subst verify_bins.simps) simp
qed

lemma verify_bins_reject:
  assumes "p = Some i" "h i = Some e" "\<not> verify_one i e st"
  shows "verify_bins h p st = Some False"
proof -
  have "verify_bin h p st = Some None" using assms by (subst verify_bin.simps) simp
  then show ?thesis using assms(1) by (subst verify_bins.simps) simp
qed

text \<open>
  C35: The check of a well-formed event queue returns, and it accepts every queue but
  one kind: it starts its comparison with tick and priority zero, so a queue whose first
  event is due at tick zero with a negative priority is reported as inverted although it
  is in order.
\<close>

theorem debugVerify_exact:
  assumes "queue_holds h head xs"
  shows "debugVerify h head = Some (\<not> (\<exists>i e. head = Some i \<and> h i = Some e \<and> ev_when e = 0 \<and> ev_priority e <s 0))"
proof (cases "\<exists>i e. head = Some i \<and> h i = Some e \<and> ev_when e = 0 \<and> ev_priority e <s 0")
  case True
  then obtain i e where e: "head = Some i" "h i = Some e" "ev_when e = 0" "ev_priority e <s 0" by blast
  then have "\<not> verify_one i e (0, 0, [])" by (simp add: verify_one_iff key_def word_sless_alt)
  then show ?thesis using True verify_bins_reject [of head i h e] e(1,2) by (simp add: debugVerify_def)
next
  case False
  from assms obtain bs where bs: "bins h head bs" "concat bs = xs" "distinct xs" by (auto simp: queue_holds_def)
  have "(unat (0 :: tick), 0) \<le> key_at h j" if j: "j \<in> set (concat bs)" for j
  proof -
    obtain i where i: "head = Some i" using bins_nonempty [OF bs(1) j] by blast
    then obtain e where e: "h i = Some e" using bs(1) by (metis bins_SomeE)
    have "(unat (0 :: tick), 0) \<le> key e" using False i e
      by (auto simp: key_def word_sless_alt word_neq_0_conv word_less_nat_alt)
    also have "\<dots> \<le> key_at h j" using bins_ge_head [OF bs(1) [unfolded i] j] e by simp
    finally show ?thesis .
  qed
  then have "verify_bins h head (0, 0, []) = Some True"
    by (intro verify_bins_ok [OF bs(1)]) (simp_all add: bs(2,3))
  then show ?thesis using False by (simp add: debugVerify_def)
qed

definition sample_event :: "nat option \<Rightarrow> nat option \<Rightarrow> tick \<Rightarrow> 8 word \<Rightarrow> 16 word \<Rightarrow> Event" where
  "sample_event nb nib w p f = \<lparr>nextBin = nb, nextInBin = nib, ev_when = w, ev_priority = p, ev_flags = f\<rparr>"

lemma sample_event_simps [simp]:
  "nextBin (sample_event nb nib w p f) = nb" "nextInBin (sample_event nb nib w p f) = nib"
  "ev_when (sample_event nb nib w p f) = w" "ev_priority (sample_event nb nib w p f) = p"
  "ev_flags (sample_event nb nib w p f) = f" "key (sample_event nb nib w p f) = (unat w, sint p)"
  by (simp_all add: sample_event_def key_def)

theorem debugVerify_exact_witness:
  "queue_holds [0 \<mapsto> sample_event None None 0 (- 31) 0x7a42] (Some 0) [0]
   \<and> debugVerify [0 \<mapsto> sample_event None None 0 (- 31) 0x7a42] (Some 0) = Some False"
proof -
  have h: "queue_holds [0 \<mapsto> sample_event None None 0 (- 31) 0x7a42] (Some 0) [0]"
    unfolding queue_holds_def by (auto intro!: exI [of _ "[[0 :: nat]]"])
  have "(- 31 :: 8 word) <s 0" by (simp add: word_sless_alt)
  then show ?thesis using debugVerify_exact [OF h] h by simp
qed

text \<open>
  C12: The linked lists of an event queue implement a list sorted by tick and priority:
  removing an event takes it out of the list, and panics when it is not queued;
  inserting an event puts it in front of the first one that is not before it, so events
  with the same tick and priority come last in, first out. Both walks end, only pointers
  of the events of this queue change, and stale pointers inside a bin are never
  followed.
\<close>

theorem event_queue_refines_sorted_list:
  assumes "queue_holds h head xs" "h i = Some e"
  shows "sorted (map (key_at h) xs)
    \<and> (if i \<in> set xs
       then \<exists>h' head'. eq_remove h head i = Some (h', head') \<and> relinked (set xs) h h' \<and> queue_holds h' head' (remove1 i xs)
       else eq_remove h head i = None
         \<and> (\<exists>h' head'. eq_insert h head i = Some (h', head') \<and> relinked (insert i (set xs)) h h'
              \<and> queue_holds h' head' (insort_key (key_at h) i xs)))"
proof (cases "i \<in> set xs")
  case True
  then show ?thesis using eq_remove_refines [OF assms] holds_sorted [OF assms(1)] by simp
next
  case False
  obtain h' head' where "eq_insert h head i = Some (h', head')" "relinked (insert i (set xs)) h h'"
    "queue_holds h' head' (insort_key (key_at h) i xs)" by (rule eq_insert_refines [OF assms False])
  then show ?thesis using eq_remove_refines [OF assms] False holds_sorted [OF assms(1)] by simp
qed

text \<open>Events 1 and 0 at tick 5, event 3 at tick 9 with a stale pointer in event 0, and event 2 at tick 5 outside.\<close>

definition sample_store :: store where
  "sample_store = [0 \<mapsto> sample_event (Some 7) None 5 0 0x7a62, 1 \<mapsto> sample_event (Some 3) (Some 0) 5 0 0x7a62,
     2 \<mapsto> sample_event None None 5 0 0x7a40, 3 \<mapsto> sample_event None None 9 0 0x7a62]"

lemma sample_store_holds: "queue_holds sample_store (Some 1) [1, 0, 3]"
  unfolding queue_holds_def sample_store_def
  by (intro conjI exI [of _ "[[1, 0], [3 :: nat]]"]) (simp_all add: key_at_def)

theorem event_queue_refines_sorted_list_witness:
  "\<exists>h' head'. eq_insert sample_store (Some 1) 2 = Some (h', head') \<and> queue_holds h' head' [2, 1, 0, 3]"
proof -
  have "sample_store 2 = Some (sample_event None None 5 0 0x7a40)" by (simp add: sample_store_def)
  moreover have "insort_key (key_at sample_store) 2 [1, 0, 3] = [2, 1, 0, 3]"
    by (simp add: sample_store_def key_at_def)
  ultimately show ?thesis using event_queue_refines_sorted_list [OF sample_store_holds, of 2] by auto
qed

end
