(* ===== verification/Event_Sim.thy ===== *)
theory Event_Sim
imports Event_Queue
begin

text \<open>
  Scheduling and servicing events (\<open>sim/eventq.hh\<close>, \<open>sim/eventq.cc\<close>), the
  events that end a simulation (\<open>sim/sim_events.cc\<close>) and the step of the
  simulation loop (\<open>sim/simulate.cc\<close>).

  The state holds the events, the heads of the queues and the current tick; queue
  number \<open>0\<close> is \<open>mainEventQueue\<close>.  What an event does when it is processed is the
  virtual function \<open>process\<close>, an argument of the operations that service events.
  Fields that exist for debugging only (the instance number and the queue of an
  event) and trace output are left out.
\<close>

subsection \<open>Flags of an event\<close>

definition PublicRead :: "16 word" where "PublicRead = 0x003f"
definition PublicWrite :: "16 word" where "PublicWrite = 0x001d"
definition Squashed :: "16 word" where "Squashed = 0x0001"
definition Scheduled :: "16 word" where "Scheduled = 0x0002"
definition AutoDelete :: "16 word" where "AutoDelete = 0x0004"
definition AutoSerialize :: "16 word" where "AutoSerialize = 0x0008"
definition IsExitEvent :: "16 word" where "IsExitEvent = 0x0010"
definition IsMainQueue :: "16 word" where "IsMainQueue = 0x0020"
definition Initialized :: "16 word" where "Initialized = 0x7a40"
definition InitMask :: "16 word" where "InitMask = 0xffc0"

lemmas ev_flag_defs = PublicRead_def PublicWrite_def Squashed_def Scheduled_def AutoDelete_def
  AutoSerialize_def IsExitEvent_def IsMainQueue_def Initialized_def InitMask_def

definition Sim_Exit_Pri :: "8 word" where "Sim_Exit_Pri = 100"

definition initialized :: "Event \<Rightarrow> bool" where
  "initialized e = (ev_flags e AND InitMask = Initialized)"

definition scheduled :: "Event \<Rightarrow> bool" where "scheduled e = isSet (ev_flags e) Scheduled"
definition squashed :: "Event \<Rightarrow> bool" where "squashed e = isSet (ev_flags e) Squashed"
definition isExitEvent :: "Event \<Rightarrow> bool" where "isExitEvent e = isSet (ev_flags e) IsExitEvent"

definition squash :: "Event \<Rightarrow> Event" where
  "squash e = e\<lparr>ev_flags := flags_set (ev_flags e) Squashed\<rparr>"

definition ev_getFlags :: "Event \<Rightarrow> 16 word" where
  "ev_getFlags e = ev_flags e AND PublicRead"

definition isFlagSet :: "Event \<Rightarrow> 16 word \<Rightarrow> bool option" where
  "isFlagSet e f = do { check (noneSet f (NOT PublicRead)); Some (isSet (ev_flags e) f) }"

definition ev_setFlags :: "Event \<Rightarrow> 16 word \<Rightarrow> Event option" where
  "ev_setFlags e f = do { check (noneSet f (NOT PublicWrite)); Some (e\<lparr>ev_flags := flags_set (ev_flags e) f\<rparr>) }"

definition ev_clearFlags :: "Event \<Rightarrow> 16 word \<Rightarrow> Event option" where
  "ev_clearFlags e f = do { check (noneSet f (NOT PublicWrite)); Some (e\<lparr>ev_flags := flags_clear (ev_flags e) f\<rparr>) }"

definition ev_clearAllFlags :: "Event \<Rightarrow> Event" where
  "ev_clearAllFlags e = e\<lparr>ev_flags := flags_clear (ev_flags e) PublicWrite\<rparr>"

text \<open>The constructor leaves the tick as it finds it: \<open>w\<close>.\<close>

definition Event_new :: "tick \<Rightarrow> 8 word \<Rightarrow> 16 word \<Rightarrow> Event option" where
  "Event_new w p f =
     do { check (noneSet f (NOT PublicWrite));
          Some \<lparr>nextBin = None, nextInBin = None, ev_when = w, ev_priority = p, ev_flags = Initialized OR f\<rparr> }"

subsection \<open>The state of the simulation\<close>

record Sim =
  events :: store
  heads :: "nat \<Rightarrow> nat option"
  curTick :: tick

definition mainEventQueue :: nat where "mainEventQueue = 0"

definition put_event :: "'a Sim_scheme \<Rightarrow> nat \<Rightarrow> Event \<Rightarrow> 'a Sim_scheme" where
  "put_event s i e = s\<lparr>events := (events s)(i \<mapsto> e)\<rparr>"

definition put_queue :: "'a Sim_scheme \<Rightarrow> nat \<Rightarrow> store \<Rightarrow> nat option \<Rightarrow> 'a Sim_scheme" where
  "put_queue s q h p = s\<lparr>events := h, heads := (heads s)(q := p)\<rparr>"

text \<open>\<open>delete event\<close>, with the assertion of the destructor.\<close>

definition delete_event :: "nat \<Rightarrow> 'a Sim_scheme \<Rightarrow> 'a Sim_scheme option" where
  "delete_event i s =
     do { e \<leftarrow> events s i; check (\<not> scheduled e); Some (s\<lparr>events := (events s)(i := None)\<rparr>) }"

subsection \<open>Scheduling\<close>

definition set_main :: "nat \<Rightarrow> 16 word \<Rightarrow> 16 word" where
  "set_main q f = (if q = mainEventQueue then flags_set f IsMainQueue else flags_clear f IsMainQueue)"

definition eq_schedule :: "nat \<Rightarrow> nat \<Rightarrow> tick \<Rightarrow> 'a Sim_scheme \<Rightarrow> 'a Sim_scheme option" where
  "eq_schedule q i w s =
     do { check (curTick s \<le> w);
          e \<leftarrow> events s i;
          check (\<not> scheduled e);
          check (initialized e);
          (h, p) \<leftarrow> eq_insert ((events s)(i \<mapsto> e\<lparr>ev_when := w\<rparr>)) (heads s q) i;
          e1 \<leftarrow> h i;
          Some (put_event (put_queue s q h p) i
            (e1\<lparr>ev_flags := set_main q (flags_set (ev_flags e1) Scheduled)\<rparr>)) }"

definition eq_deschedule :: "nat \<Rightarrow> nat \<Rightarrow> 'a Sim_scheme \<Rightarrow> 'a Sim_scheme option" where
  "eq_deschedule q i s =
     do { e \<leftarrow> events s i;
          check (scheduled e);
          check (initialized e);
          (h, p) \<leftarrow> eq_remove (events s) (heads s q) i;
          e1 \<leftarrow> h i;
          let e2 = e1\<lparr>ev_flags := flags_clear (flags_clear (ev_flags e1) Squashed) Scheduled\<rparr>;
              s1 = put_event (put_queue s q h p) i e2
          in if isSet (ev_flags e2) AutoDelete then delete_event i s1 else Some s1 }"

definition eq_reschedule :: "nat \<Rightarrow> nat \<Rightarrow> tick \<Rightarrow> bool \<Rightarrow> 'a Sim_scheme \<Rightarrow> 'a Sim_scheme option" where
  "eq_reschedule q i w always s =
     do { check (curTick s \<le> w);
          e \<leftarrow> events s i;
          check (always \<or> scheduled e);
          check (initialized e);
          (h, p) \<leftarrow> (if scheduled e then eq_remove (events s) (heads s q) i
                     else Some (events s, heads s q));
          e1 \<leftarrow> h i;
          (h1, p1) \<leftarrow> eq_insert (h(i \<mapsto> e1\<lparr>ev_when := w\<rparr>)) p i;
          e2 \<leftarrow> h1 i;
          Some (put_event (put_queue s q h1 p1) i
            (e2\<lparr>ev_flags := set_main q (flags_set (flags_clear (ev_flags e2) Squashed) Scheduled)\<rparr>)) }"

subsection \<open>Servicing\<close>

text \<open>
  \<open>serviceOne\<close> takes the first event off its queue and processes it, unless it was
  squashed.  It returns the event when it ends the simulation.
\<close>

definition take_first :: "nat \<Rightarrow> 'a Sim_scheme \<Rightarrow> (nat \<times> 'a Sim_scheme) option" where
  "take_first q s =
     do { i \<leftarrow> heads s q;
          e \<leftarrow> events s i;
          (h, p) \<leftarrow> pop_top ((events s)(i \<mapsto> e\<lparr>ev_flags := flags_clear (ev_flags e) Scheduled\<rparr>)) e;
          Some (i, put_queue s q h p) }"

definition serviceOne ::
  "(nat \<Rightarrow> 'a Sim_scheme \<Rightarrow> 'a Sim_scheme option) \<Rightarrow> nat \<Rightarrow> 'a Sim_scheme
    \<Rightarrow> ('a Sim_scheme \<times> nat option) option" where
  "serviceOne process q s =
     do { (i, s1) \<leftarrow> take_first q s;
          e \<leftarrow> events s1 i;
          (s2, exit) \<leftarrow>
            (if \<not> squashed e
             then do { s2 \<leftarrow> process i s1;
                       e2 \<leftarrow> events s2 i;
                       if isExitEvent e2
                       then do { check (\<not> isSet (ev_flags e2) AutoDelete); Some (s2, True) }
                       else Some (s2, False) }
             else Some (put_event s1 i (e\<lparr>ev_flags := flags_clear (ev_flags e) Squashed\<rparr>), False));
          if exit then Some (s2, Some i)
          else do { e3 \<leftarrow> events s2 i;
                    s3 \<leftarrow> (if isSet (ev_flags e3) AutoDelete \<and> \<not> scheduled e3 then delete_event i s2 else Some s2);
                    Some (s3, None) } }"

partial_function (option) serviceEvents ::
  "(nat \<Rightarrow> 'a Sim_scheme \<Rightarrow> 'a Sim_scheme option) \<Rightarrow> nat \<Rightarrow> tick \<Rightarrow> 'a Sim_scheme
    \<Rightarrow> 'a Sim_scheme option" where
  "serviceEvents process q w s =
     (if heads s q = None then Some s
      else do { i \<leftarrow> heads s q;
                e \<leftarrow> events s i;
                if w < ev_when e then Some s
                else do { r \<leftarrow> serviceOne process q s; serviceEvents process q w (fst r) } })"

definition replaceHead :: "nat \<Rightarrow> nat option \<Rightarrow> 'a Sim_scheme \<Rightarrow> 'a Sim_scheme \<times> nat option" where
  "replaceHead q p s = (s\<lparr>heads := (heads s)(q := p)\<rparr>, heads s q)"

text \<open>
  A checkpoint of an event holds its tick, its priority and its flags.  Restoring
  it puts the event back on the main queue when it was scheduled and not squashed.
\<close>

definition ev_serialize :: "Event \<Rightarrow> tick \<times> 8 word \<times> 16 word" where
  "ev_serialize e = (ev_when e, ev_priority e, ev_flags e)"

definition ev_unserialize :: "nat \<Rightarrow> tick \<times> 8 word \<times> 16 word \<Rightarrow> 'a Sim_scheme \<Rightarrow> 'a Sim_scheme option" where
  "ev_unserialize i cp s =
     (case cp of (w, p, f) \<Rightarrow>
        do { e \<leftarrow> events s i;
             s1 \<leftarrow> (if scheduled e then eq_deschedule mainEventQueue i s else Some s);
             e1 \<leftarrow> events s1 i;
             check (initialized e1);
             let f1 = flags_set f Initialized;
                 wasScheduled = (isSet f1 Scheduled \<and> \<not> isSet f1 Squashed);
                 s2 = put_event s1 i (e1\<lparr>ev_when := w, ev_priority := p,
                        ev_flags := flags_clear f1 (Squashed OR Scheduled)\<rparr>)
             in if wasScheduled then eq_schedule mainEventQueue i w s2 else Some s2 })"

text \<open>The events of a queue that a checkpoint saves, in the order of the queue.\<close>

partial_function (option) serialize_bin :: "store \<Rightarrow> nat option \<Rightarrow> nat list option" where
  "serialize_bin h p =
     (if p = None then Some []
      else do { i \<leftarrow> p;
                e \<leftarrow> h i;
                is \<leftarrow> serialize_bin h (nextInBin e);
                Some (if isSet (ev_flags e) AutoSerialize then i # is else is) })"

partial_function (option) serialize_bins :: "store \<Rightarrow> nat option \<Rightarrow> nat list option" where
  "serialize_bins h p =
     (if p = None then Some []
      else do { is \<leftarrow> serialize_bin h p;
                i \<leftarrow> p;
                e \<leftarrow> h i;
                js \<leftarrow> serialize_bins h (nextBin e);
                Some (is @ js) })"

definition eq_serialize :: "nat \<Rightarrow> 'a Sim_scheme \<Rightarrow> nat list option" where
  "eq_serialize q s = serialize_bins (events s) (heads s q)"

declare serialize_bin.simps [code] serialize_bins.simps [code]

text \<open>
  The tick at which \<open>simulate\<close> puts its limit, and one turn of its loop without
  the DRAM simulator and without signals.
\<close>

definition sim_limit :: "tick \<Rightarrow> tick \<Rightarrow> tick" where
  "sim_limit num_cycles t = (if num_cycles < MaxTick - t then t + num_cycles else MaxTick)"

definition sim_step ::
  "(nat \<Rightarrow> 'a Sim_scheme \<Rightarrow> 'a Sim_scheme option) \<Rightarrow> 'a Sim_scheme
    \<Rightarrow> ('a Sim_scheme \<times> nat option) option" where
  "sim_step process s =
     do { i \<leftarrow> heads s mainEventQueue;
          e \<leftarrow> events s i;
          check (curTick s \<le> ev_when e);
          serviceOne process mainEventQueue (s\<lparr>curTick := ev_when e\<rparr>) }"

subsection \<open>Flags, bit by bit\<close>

lemma ev_flag_bits:
  "isSet f Squashed = bit f 0" "isSet f Scheduled = bit f 1" "isSet f AutoDelete = bit f 2"
  "isSet f IsExitEvent = bit f 4" "isSet f IsMainQueue = bit f 5"
  by (simp_all add: isSet_def ev_flag_defs and_exp_eq_0_iff_not_bit [of f 1, simplified]
      and_exp_eq_0_iff_not_bit [of f 2, simplified] and_exp_eq_0_iff_not_bit [of f 4, simplified]
      and_exp_eq_0_iff_not_bit [of f 5, simplified] bit_iff_odd [of f 0] odd_iff_mod_2_eq_one and_one_eq)

lemma ev_flag_mask_bits:
  "bit Squashed n \<longleftrightarrow> n = 0" "bit Scheduled n \<longleftrightarrow> n = 1" "bit IsMainQueue n \<longleftrightarrow> n = 5"
  using bit_exp_iff [of 0 n, where ?'a = "16 word"] bit_exp_iff [of 1 n, where ?'a = "16 word"]
    bit_exp_iff [of 5 n, where ?'a = "16 word"]
  by (auto simp: ev_flag_defs)

lemma flags_bit [simp]:
  fixes f :: "16 word"
  shows "bit (flags_set f m) n \<longleftrightarrow> bit f n \<or> bit m n"
    and "bit (flags_clear f m) n \<longleftrightarrow> bit f n \<and> \<not> bit m n"
proof -
  show "bit (flags_set f m) n \<longleftrightarrow> bit f n \<or> bit m n" by (simp add: flags_set_def bit_or_iff)
  show "bit (flags_clear f m) n \<longleftrightarrow> bit f n \<and> \<not> bit m n"
    by (auto simp: flags_clear_def bit_and_iff bit_not_iff dest: bit_imp_le_length)
qed

lemma init_bits:
  "flags_set f Squashed AND InitMask = f AND InitMask" "flags_set f Scheduled AND InitMask = f AND InitMask"
  "flags_set f IsMainQueue AND InitMask = f AND InitMask" "flags_clear f Squashed AND InitMask = f AND InitMask"
  "flags_clear f Scheduled AND InitMask = f AND InitMask" "flags_clear f IsMainQueue AND InitMask = f AND InitMask"
  by (simp_all add: flags_set_def flags_clear_def ev_flag_defs bit.conj_disj_distrib2 and.assoc)

lemma init_set_main [simp]: "set_main q f AND InitMask = f AND InitMask"
  by (simp add: set_main_def init_bits)

lemma set_main_bit [simp]:
  "bit (set_main q f) n \<longleftrightarrow> (if n = 5 then q = mainEventQueue else bit f n)"
  by (auto simp: set_main_def ev_flag_mask_bits)

lemmas ev_bits = ev_flag_bits ev_flag_mask_bits init_bits

subsection \<open>The invariant\<close>

text \<open>
  The events of queue \<open>q\<close> are \<open>qs q\<close>, in this order.  Queues share no events, an
  event has its flag set exactly when it is in a queue, the flag for the main
  queue of an event in a queue tells whether it is that one, and no event of the
  main queue lies in the past.
\<close>

definition event_ok :: "Event \<Rightarrow> bool" where
  "event_ok e \<longleftrightarrow> initialized e \<and> \<not> (isExitEvent e \<and> isSet (ev_flags e) AutoDelete)"

definition queues_ok :: "store \<Rightarrow> (nat \<Rightarrow> nat option) \<Rightarrow> (nat \<Rightarrow> nat list) \<Rightarrow> bool" where
  "queues_ok h hs qs \<longleftrightarrow> (\<forall>q. queue_holds h (hs q) (qs q)) \<and> (\<forall>q r. q \<noteq> r \<longrightarrow> set (qs q) \<inter> set (qs r) = {})"

definition flags_ok :: "store \<Rightarrow> (nat \<Rightarrow> nat list) \<Rightarrow> bool" where
  "flags_ok h qs \<longleftrightarrow> (\<forall>i e. h i = Some e \<longrightarrow> event_ok e \<and> (scheduled e \<longleftrightarrow> (\<exists>q. i \<in> set (qs q)))
     \<and> (scheduled e \<longrightarrow> isSet (ev_flags e) IsMainQueue = (i \<in> set (qs mainEventQueue))))"

definition sim_ok :: "'a Sim_scheme \<Rightarrow> (nat \<Rightarrow> nat list) \<Rightarrow> bool" where
  "sim_ok s qs \<longleftrightarrow> queues_ok (events s) (heads s) qs \<and> flags_ok (events s) qs
     \<and> (\<forall>i \<in> set (qs mainEventQueue). unat (curTick s) \<le> fst (key_at (events s) i))"

text \<open>An event as it was, up to its links.\<close>

definition same_event :: "store \<Rightarrow> store \<Rightarrow> nat \<Rightarrow> bool" where
  "same_event h h' j \<longleftrightarrow> map_option (\<lambda>e. e\<lparr>nextBin := None, nextInBin := None\<rparr>) (h' j)
     = map_option (\<lambda>e. e\<lparr>nextBin := None, nextInBin := None\<rparr>) (h j)"

lemma same_event_refl [simp]: "same_event h h j"
  by (simp add: same_event_def)

lemma same_event_trans: "same_event h h1 j \<Longrightarrow> same_event h1 h2 j \<Longrightarrow> same_event h h2 j"
  by (simp add: same_event_def)

lemma same_event_upd [simp]: "i \<noteq> j \<Longrightarrow> same_event h (h'(i := x)) j = same_event h h' j" "i \<noteq> j \<Longrightarrow> same_event (h(i := x)) h' j = same_event h h' j"
  by (simp_all add: same_event_def)

lemma relinked_same: "relinked A h h' \<Longrightarrow> same_event h h' j"
  by (simp add: relinked_def same_event_def)

lemma same_event_fields:
  assumes "same_event h h' j" "h j = Some e"
  obtains e' where "h' j = Some e'" "ev_flags e' = ev_flags e" "ev_when e' = ev_when e" "ev_priority e' = ev_priority e"
proof -
  obtain e' where e': "h' j = Some e'" "e'\<lparr>nextBin := None, nextInBin := None\<rparr> = e\<lparr>nextBin := None, nextInBin := None\<rparr>"
    using assms by (auto simp: same_event_def)
  from e'(2) show ?thesis by (intro that [OF e'(1)]) (cases e; cases e'; simp)+
qed

lemma holds_cong:
  assumes "queue_holds h p xs" "\<And>j. j \<in> set xs \<Longrightarrow> same_at h h' j"
  shows "queue_holds h' p xs"
proof -
  from assms(1) obtain bs where bs: "bins h p bs" "concat bs = xs" "distinct xs" by (auto simp: queue_holds_def)
  have "bins h' p bs = bins h p bs" by (rule bins_cong) (use assms(2) bs(2) in blast)
  then show ?thesis using bs unfolding queue_holds_def by blast
qed

lemma holds_mem: "queue_holds h p xs \<Longrightarrow> i \<in> set xs \<Longrightarrow> \<exists>e. h i = Some e"
  unfolding queue_holds_def using bins_mem by blast

text \<open>Changing one queue.\<close>

lemma queues_ok_upd:
  assumes "queues_ok h hs qs" "queue_holds h' p xs" "\<And>j. j \<notin> A \<Longrightarrow> h' j = h j" "set xs \<subseteq> A"
    and "\<And>r. r \<noteq> q \<Longrightarrow> A \<inter> set (qs r) = {}"
  shows "queues_ok h' (hs(q := p)) (qs(q := xs))"
  unfolding queues_ok_def
proof (intro conjI allI impI)
  fix r
  have "queue_holds h' (hs r) (qs r)" if "r \<noteq> q"
  proof (rule holds_cong)
    show "queue_holds h (hs r) (qs r)" using assms(1) by (simp add: queues_ok_def)
    show "same_at h h' j" if "j \<in> set (qs r)" for j
    proof -
      have "h' j = h j" using assms(3) [of j] assms(5) [OF \<open>r \<noteq> q\<close>] that by blast
      then show ?thesis by (simp add: same_at_def)
    qed
  qed
  then show "queue_holds h' ((hs(q := p)) r) ((qs(q := xs)) r)" using assms(2) by simp
next
  fix r t :: nat
  assume "r \<noteq> t"
  then show "set ((qs(q := xs)) r) \<inter> set ((qs(q := xs)) t) = {}"
    using assms(1,4) assms(5) [of r] assms(5) [of t] unfolding queues_ok_def by auto
qed

lemma queued_other:
  assumes "queues_ok h hs qs" "i \<in> set (qs q)" "r \<noteq> q"
  shows "i \<notin> set (qs r)"
  using assms unfolding queues_ok_def by blast

lemma flags_ok_upd:
  assumes "flags_ok h qs" "relinked A (h(i := x)) h'" "\<And>j. j \<noteq> i \<Longrightarrow> (\<exists>q. j \<in> set (qs' q)) \<longleftrightarrow> (\<exists>q. j \<in> set (qs q))"
    and "\<And>j. j \<noteq> i \<Longrightarrow> j \<in> set (qs' mainEventQueue) \<longleftrightarrow> j \<in> set (qs mainEventQueue)"
    and "event_ok e" "scheduled e \<longleftrightarrow> (\<exists>q. i \<in> set (qs' q))"
    and "scheduled e \<Longrightarrow> isSet (ev_flags e) IsMainQueue = (i \<in> set (qs' mainEventQueue))"
  shows "flags_ok (h'(i \<mapsto> e)) qs'"
  unfolding flags_ok_def
proof (intro allI impI)
  fix j d
  assume d: "(h'(i \<mapsto> e)) j = Some d"
  show "event_ok d \<and> (scheduled d \<longleftrightarrow> (\<exists>q. j \<in> set (qs' q)))
    \<and> (scheduled d \<longrightarrow> isSet (ev_flags d) IsMainQueue = (j \<in> set (qs' mainEventQueue)))"
  proof (cases "j = i")
    case True
    then show ?thesis using d assms(5-7) by simp
  next
    case False
    then have "h' j = Some d" using d by simp
    moreover from this obtain c where c: "(h(i := x)) j = Some c"
      using relinked_None [OF assms(2), of j] by (cases "(h(i := x)) j") auto
    ultimately have "ev_flags d = ev_flags c" using relinked_at [OF assms(2) c] by (metis option.inject)
    moreover have "h j = Some c" using c False by simp
    moreover have "event_ok c \<and> (scheduled c \<longleftrightarrow> (\<exists>q. j \<in> set (qs q)))
      \<and> (scheduled c \<longrightarrow> isSet (ev_flags c) IsMainQueue = (j \<in> set (qs mainEventQueue)))" using assms(1) \<open>h j = Some c\<close> by (simp add: flags_ok_def)
    ultimately show ?thesis using assms(3,4) [OF False]
      by (simp add: event_ok_def initialized_def isExitEvent_def scheduled_def)
  qed
qed

text \<open>
  A queue that has been relinked for the event \<open>i\<close>, whose record is then replaced:
  the last steps that the operations have in common.
\<close>

lemma sim_ok_relink:
  assumes ok: "sim_ok s qs"
    and rel: "relinked (insert i (set (qs q))) ((events s)(i := x)) h"
    and hold: "queue_holds h p xs" "set xs \<subseteq> insert i (set (qs q))" "set (qs q) \<subseteq> insert i (set xs)"
    and i: "h i = Some d" "nextBin e = nextBin d" "nextInBin e = nextInBin d" "key e = key d" "event_ok e"
    and out: "\<And>r. r \<noteq> q \<Longrightarrow> i \<notin> set (qs r)"
    and sch: "scheduled e \<longleftrightarrow> i \<in> set xs" and main: "scheduled e \<Longrightarrow> isSet (ev_flags e) IsMainQueue = (q = mainEventQueue)"
    and time: "i \<in> set xs \<Longrightarrow> curTick s \<le> ev_when e"
  shows "sim_ok (put_event (put_queue s q h p) i e) (qs(q := xs))"
proof -
  have queues: "queues_ok (events s) (heads s) qs" and flags: "flags_ok (events s) qs"
    and past: "\<forall>i \<in> set (qs mainEventQueue). unat (curTick s) \<le> fst (key_at (events s) i)"
    using ok by (simp_all add: sim_ok_def)
  define h2 where "h2 = h(i \<mapsto> e)"
  have "same_at h h2 j" for j using i by (simp add: h2_def same_at_def)
  then have hold2: "queue_holds h2 p xs" using holds_cong [OF hold(1)] by blast
  have "queues_ok h2 ((heads s)(q := p)) (qs(q := xs))"
  proof (rule queues_ok_upd [OF queues hold2 _ hold(2)])
    show "h2 j = events s j" if "j \<notin> insert i (set (qs q))" for j
      using relinked_other [OF rel that] that by (simp add: h2_def)
    show "insert i (set (qs q)) \<inter> set (qs r) = {}" if "r \<noteq> q" for r
      using out [OF that] queues that by (auto simp: queues_ok_def)
  qed
  moreover have "flags_ok h2 (qs(q := xs))"
    unfolding h2_def
  proof (rule flags_ok_upd [OF flags rel _ _ i(5)])
    show "(\<exists>r. j \<in> set ((qs(q := xs)) r)) \<longleftrightarrow> (\<exists>r. j \<in> set (qs r))" if "j \<noteq> i" for j
      using hold(2,3) that by (auto split: if_splits)
    show "j \<in> set ((qs(q := xs)) mainEventQueue) \<longleftrightarrow> j \<in> set (qs mainEventQueue)" if "j \<noteq> i" for j
      using hold(2,3) that by auto
    show "scheduled e \<longleftrightarrow> (\<exists>r. i \<in> set ((qs(q := xs)) r))" using sch out by auto
    show "isSet (ev_flags e) IsMainQueue = (i \<in> set ((qs(q := xs)) mainEventQueue))" if "scheduled e"
      using main [OF that] sch that out by auto
  qed
  moreover have "unat (curTick s) \<le> fst (key_at h2 j)" if j: "j \<in> set ((qs(q := xs)) mainEventQueue)" for j
  proof (cases "j = i")
    case True
    then have "i \<in> set xs" using j out by (auto split: if_splits)
    then show ?thesis using time True by (simp add: h2_def key_def word_le_nat_alt)
  next
    case False
    then have "key_at h2 j = key_at (events s) j" using fun_cong [OF relinked_key [OF rel], of j] by (simp add: h2_def)
    moreover have "j \<in> set (qs mainEventQueue)" using j hold(2) False by (auto split: if_splits)
    ultimately show ?thesis using past by simp
  qed
  ultimately show ?thesis by (simp add: sim_ok_def put_event_def put_queue_def h2_def)
qed

lemma sim_ok_queued:
  assumes "sim_ok s qs" "events s i = Some e"
  shows "event_ok e" "scheduled e \<longleftrightarrow> (\<exists>q. i \<in> set (qs q))"
    "scheduled e \<Longrightarrow> isSet (ev_flags e) IsMainQueue = (i \<in> set (qs mainEventQueue))"
  using assms by (simp_all add: sim_ok_def flags_ok_def)

lemma sim_ok_holds: "sim_ok s qs \<Longrightarrow> queue_holds (events s) (heads s q) (qs q)"
  by (simp add: sim_ok_def queues_ok_def)

lemma key_at_same: "h i = Some d \<Longrightarrow> key e = key d \<Longrightarrow> key_at (h(i \<mapsto> e)) = key_at h"
  by (rule ext) (simp add: key_at_def)

text \<open>Inserting an event that is in no queue, with its tick set before.\<close>

lemma insert_unqueued:
  assumes ok: "sim_ok s qs" and x: "queue_holds h0 p0 ys" "\<And>j. j \<noteq> i \<Longrightarrow> same_at h0 h j" "h i = Some e" "i \<notin> set ys"
  obtains h' p e' where "eq_insert h p0 i = Some (h', p)" "relinked (insert i (set ys)) h h'"
    "queue_holds h' p (insort_key (key_at h) i ys)" "h' i = Some e'" "ev_when e' = ev_when e" "ev_priority e' = ev_priority e"
    "ev_flags e' = ev_flags e"
proof -
  have "queue_holds h p0 ys" by (rule holds_cong [OF x(1)]) (use x(2,4) in metis)
  then obtain h' p where r: "eq_insert h p0 i = Some (h', p)" "relinked (insert i (set ys)) h h'"
    "queue_holds h' p (insort_key (key_at h) i ys)" using x(3,4) by (rule eq_insert_refines)
  from r(2) x(3) obtain e' where "h' i = Some e'" "ev_when e' = ev_when e" "ev_priority e' = ev_priority e"
    "ev_flags e' = ev_flags e" by (rule relinked_at)
  then show ?thesis using that r by blast
qed

lemma schedule_ok:
  assumes ok: "sim_ok s qs" and w: "curTick s \<le> w" and e: "events s i = Some e" "\<not> scheduled e"
  obtains s' where "eq_schedule q i w s = Some s'"
    "sim_ok s' (qs(q := insort_key (key_at (events s')) i (qs q)))" "curTick s' = curTick s" "Sim.more s' = Sim.more s"
    "relinked (insert i (set (qs q)))
       ((events s)(i \<mapsto> e\<lparr>ev_when := w, ev_flags := set_main q (flags_set (ev_flags e) Scheduled)\<rparr>)) (events s')"
proof -
  have eok: "event_ok e" and out: "\<And>r. i \<notin> set (qs r)" using sim_ok_queued [OF ok e(1)] e(2) by auto
  define h0 where "h0 = (events s)(i \<mapsto> e\<lparr>ev_when := w\<rparr>)"
  obtain h p e1 where r: "eq_insert h0 (heads s q) i = Some (h, p)" "relinked (insert i (set (qs q))) h0 h"
    "queue_holds h p (insort_key (key_at h0) i (qs q))" "h i = Some e1" "ev_when e1 = w" "ev_priority e1 = ev_priority e"
    "ev_flags e1 = ev_flags e"
    using insert_unqueued [OF ok sim_ok_holds [OF ok, of q], of i h0 "e\<lparr>ev_when := w\<rparr>"] out
    by (simp add: h0_def) metis
  define e2 where "e2 = e1\<lparr>ev_flags := set_main q (flags_set (ev_flags e1) Scheduled)\<rparr>"
  define s' where "s' = put_event (put_queue s q h p) i e2"
  have ek: "key e2 = key e1" by (simp add: e2_def key_def)
  have keys: "key_at (events s') = key_at h0"
    using relinked_key [OF r(2)] key_at_same [of h i e1 e2] r(4) ek by (simp add: s'_def put_event_def put_queue_def)
  have "sim_ok s' (qs(q := insort_key (key_at h0) i (qs q)))"
    unfolding s'_def
  proof (rule sim_ok_relink [OF ok r(2) [unfolded h0_def] r(3) _ _ r(4)])
    show "event_ok e2" using eok r(7)
      by (simp add: e2_def event_ok_def initialized_def isExitEvent_def ev_bits)
    show "scheduled e2 \<longleftrightarrow> i \<in> set (insort_key (key_at h0) i (qs q))"
      by (simp add: e2_def scheduled_def ev_bits set_insort_key)
    show "curTick s \<le> ev_when e2" using w r(5) by (simp add: e2_def)
  qed (use out in \<open>auto simp: e2_def key_def set_insort_key ev_bits\<close>)
  moreover have "eq_schedule q i w s = Some s'"
    using w e eok r(1,4) by (simp add: eq_schedule_def h0_def [symmetric] s'_def e2_def event_ok_def)
  moreover have "relinked (insert i (set (qs q)))
       ((events s)(i \<mapsto> e\<lparr>ev_when := w, ev_flags := set_main q (flags_set (ev_flags e) Scheduled)\<rparr>)) (events s')"
    using r(2,4-7) by (auto simp: relinked_def s'_def put_event_def put_queue_def h0_def e2_def)
  ultimately show ?thesis using that [of s'] keys by (simp add: s'_def put_event_def put_queue_def)
qed

lemma remove_queued:
  assumes "sim_ok s qs" "events s i = Some e" "i \<in> set (qs q)"
  obtains h p e' where "eq_remove (events s) (heads s q) i = Some (h, p)" "relinked (set (qs q)) (events s) h"
    "queue_holds h p (remove1 i (qs q))" "h i = Some e'" "ev_when e' = ev_when e" "ev_priority e' = ev_priority e"
    "ev_flags e' = ev_flags e"
proof -
  obtain h p where r: "eq_remove (events s) (heads s q) i = Some (h, p)" "relinked (set (qs q)) (events s) h"
    "queue_holds h p (remove1 i (qs q))"
    using eq_remove_refines [OF sim_ok_holds [OF assms(1), of q] assms(2)] assms(3) by auto
  from r(2) assms(2) obtain e' where "h i = Some e'" "ev_when e' = ev_when e" "ev_priority e' = ev_priority e"
    "ev_flags e' = ev_flags e" by (rule relinked_at)
  then show ?thesis using that r by blast
qed

lemma sim_ok_distinct: "sim_ok s qs \<Longrightarrow> distinct (qs q)"
  using sim_ok_holds [of s qs q] by (simp add: queue_holds_def)

text \<open>Deleting an event that is in no queue.\<close>

lemma delete_event_ok:
  assumes ok: "sim_ok s qs" and e: "events s i = Some e" "\<not> scheduled e"
  shows "delete_event i s = Some (s\<lparr>events := (events s)(i := None)\<rparr>)"
    and "sim_ok (s\<lparr>events := (events s)(i := None)\<rparr>) qs"
proof -
  have out: "\<And>r. i \<notin> set (qs r)" using sim_ok_queued [OF ok e(1)] e(2) by auto
  show "delete_event i s = Some (s\<lparr>events := (events s)(i := None)\<rparr>)" using e by (simp add: delete_event_def)
  have "queue_holds ((events s)(i := None)) (heads s q) (qs q)" for q
    by (rule holds_cong [OF sim_ok_holds [OF ok]]) (use out in \<open>metis same_at_refl same_at_upd\<close>)
  moreover have "key_at ((events s)(i := None)) j = key_at (events s) j" if "j \<in> set (qs q)" for j q
    using out that by (metis key_at_upd)
  ultimately show "sim_ok (s\<lparr>events := (events s)(i := None)\<rparr>) qs"
    using ok by (auto simp: sim_ok_def queues_ok_def flags_ok_def)
qed

lemma deschedule_ok:
  assumes ok: "sim_ok s qs" and e: "events s i = Some e" "i \<in> set (qs q)"
  obtains s' where "eq_deschedule q i s = Some s'" "sim_ok s' (qs(q := remove1 i (qs q)))" "curTick s' = curTick s"
    "\<forall>j. j \<noteq> i \<longrightarrow> (events s' j = None \<longleftrightarrow> events s j = None)"
    "events s' i = None \<longleftrightarrow> isSet (ev_flags e) AutoDelete"
    "\<forall>j. j \<noteq> i \<longrightarrow> same_event (events s) (events s') j"
proof -
  have eok: "event_ok e" "scheduled e" using sim_ok_queued [OF ok e(1)] e(2) by auto
  obtain h p e1 where r: "eq_remove (events s) (heads s q) i = Some (h, p)" "relinked (set (qs q)) (events s) h"
    "queue_holds h p (remove1 i (qs q))" "h i = Some e1" "ev_when e1 = ev_when e" "ev_priority e1 = ev_priority e"
    "ev_flags e1 = ev_flags e" by (rule remove_queued [OF ok e])
  define e2 where "e2 = e1\<lparr>ev_flags := flags_clear (flags_clear (ev_flags e1) Squashed) Scheduled\<rparr>"
  define s1 where "s1 = put_event (put_queue s q h p) i e2"
  have ad: "isSet (ev_flags e2) AutoDelete = isSet (ev_flags e) AutoDelete" using r(7) by (simp add: e2_def ev_bits)
  have out: "i \<notin> set (remove1 i (qs q))" using sim_ok_distinct [OF ok, of q] by simp
  have s1: "events s1 i = Some e2" "\<not> scheduled e2" "curTick s1 = curTick s"
    by (simp_all add: s1_def put_event_def put_queue_def e2_def scheduled_def ev_bits)
  have rel: "relinked (insert i (set (qs q))) ((events s)(i := events s i)) h"
    using relinked_mono [OF r(2)] by auto
  have ok1: "sim_ok s1 (qs(q := remove1 i (qs q)))"
    unfolding s1_def
  proof (rule sim_ok_relink [OF ok rel r(3) _ _ r(4)])
    show "event_ok e2" using eok(1) r(7) by (simp add: e2_def event_ok_def initialized_def isExitEvent_def ev_bits)
    show "scheduled e2 \<longleftrightarrow> i \<in> set (remove1 i (qs q))" using s1(2) out by simp
    show "set (qs q) \<subseteq> insert i (set (remove1 i (qs q)))" using sim_ok_distinct [OF ok, of q] by auto
    show "i \<notin> set (qs t)" if "t \<noteq> q" for t using queued_other ok e(2) that by (metis sim_ok_def)
  qed (use out s1(2) in \<open>auto simp: e2_def key_def dest: notin_set_remove1\<close>)
  have run: "eq_deschedule q i s = (if isSet (ev_flags e) AutoDelete then delete_event i s1 else Some s1)"
    using e eok r(1,4) ad [unfolded e2_def, simplified] by (simp add: eq_deschedule_def event_ok_def Let_def e2_def [symmetric] s1_def [symmetric])
  have live: "events s1 j = None \<longleftrightarrow> events s j = None" if "j \<noteq> i" for j
    using relinked_None [OF r(2), of j] that by (simp add: s1_def put_event_def put_queue_def)
  have same: "same_event (events s) (events s1) j" if "j \<noteq> i" for j
    using relinked_same [OF r(2), of j] that by (simp add: s1_def put_event_def put_queue_def)
  show ?thesis
  proof (cases "isSet (ev_flags e) AutoDelete")
    case True
    then show ?thesis using that run live same delete_event_ok [OF ok1 s1(1,2)] s1(3) by simp
  next
    case False
    then show ?thesis using that [of s1] run live same ok1 s1 by simp
  qed
qed

lemma relinked_upd_both:
  assumes "relinked A h h'" "i \<in> A" "ev_when d' = ev_when d" "ev_priority d' = ev_priority d" "ev_flags d' = ev_flags d"
  shows "relinked A (h(i \<mapsto> d)) (h'(i \<mapsto> d'))"
proof -
  have "d'\<lparr>nextBin := None, nextInBin := None\<rparr> = d\<lparr>nextBin := None, nextInBin := None\<rparr>"
    using assms(3-5) by (cases d; cases d') simp
  then show ?thesis using assms(1,2) by (auto simp: relinked_def)
qed

lemma reschedule_ok:
  assumes ok: "sim_ok s qs" and w: "curTick s \<le> w" and e: "events s i = Some e" "always \<or> scheduled e"
    and own: "\<And>r. r \<noteq> q \<Longrightarrow> i \<notin> set (qs r)"
  obtains s' where "eq_reschedule q i w always s = Some s'"
    "sim_ok s' (qs(q := insort_key (key_at (events s')) i (remove1 i (qs q))))" "curTick s' = curTick s"
    "\<forall>j. events s' j = None \<longleftrightarrow> events s j = None" "\<forall>j. j \<noteq> i \<longrightarrow> same_event (events s) (events s') j"
proof -
  have eok: "event_ok e" and sch: "scheduled e \<longleftrightarrow> i \<in> set (qs q)" using sim_ok_queued [OF ok e(1)] own by metis+
  define ys where "ys = remove1 i (qs q)"
  have ys: "i \<notin> set ys" "set ys \<subseteq> set (qs q)" "set (qs q) \<subseteq> insert i (set ys)"
    using sim_ok_distinct [OF ok, of q] by (auto simp: ys_def dest: notin_set_remove1)
  obtain h p e1 where r: "(if scheduled e then eq_remove (events s) (heads s q) i else Some (events s, heads s q)) = Some (h, p)"
    "relinked (set (qs q)) (events s) h" "queue_holds h p ys" "h i = Some e1" "ev_priority e1 = ev_priority e" "ev_flags e1 = ev_flags e"
  proof (cases "scheduled e")
    case True
    then show ?thesis using remove_queued [OF ok e(1)] sch that unfolding ys_def by metis
  next
    case False
    then show ?thesis using that e(1) sch sim_ok_holds [OF ok, of q] unfolding ys_def
      by (simp add: remove1_idem relinked_def)
  qed
  define h0 where "h0 = h(i \<mapsto> e1\<lparr>ev_when := w\<rparr>)"
  obtain h1 p1 e2 where t: "eq_insert h0 p i = Some (h1, p1)" "relinked (insert i (set ys)) h0 h1"
    "queue_holds h1 p1 (insort_key (key_at h0) i ys)" "h1 i = Some e2" "ev_when e2 = w" "ev_priority e2 = ev_priority e1"
    "ev_flags e2 = ev_flags e1"
    using insert_unqueued [OF ok r(3), of i h0 "e1\<lparr>ev_when := w\<rparr>"] ys(1) by (simp add: h0_def) metis
  define e3 where "e3 = e2\<lparr>ev_flags := set_main q (flags_set (flags_clear (ev_flags e2) Squashed) Scheduled)\<rparr>"
  define s' where "s' = put_event (put_queue s q h1 p1) i e3"
  have keys: "key_at (events s') = key_at h0"
    using relinked_key [OF t(2)] key_at_same [of h1 i e2 e3] t(4) by (simp add: s'_def put_event_def put_queue_def e3_def key_def)
  have "relinked (insert i (set (qs q))) ((events s)(i \<mapsto> e\<lparr>ev_when := w\<rparr>)) h0"
    unfolding h0_def by (rule relinked_upd_both) (use relinked_mono [OF r(2)] r(5,6) in auto)
  moreover have "relinked (insert i (set (qs q))) h0 h1" by (rule relinked_mono [OF t(2)]) (use ys(2) in auto)
  ultimately have rel: "relinked (insert i (set (qs q))) ((events s)(i := Some (e\<lparr>ev_when := w\<rparr>))) h1" by (rule relinked_trans)
  have "sim_ok s' (qs(q := insort_key (key_at h0) i ys))"
    unfolding s'_def
  proof (rule sim_ok_relink [OF ok rel t(3) _ _ t(4)])
    show "event_ok e3" using eok r(6) t(7) by (simp add: e3_def event_ok_def initialized_def isExitEvent_def ev_bits)
    show "scheduled e3 \<longleftrightarrow> i \<in> set (insort_key (key_at h0) i ys)" by (simp add: e3_def scheduled_def ev_bits set_insort_key)
    show "curTick s \<le> ev_when e3" using w t(5) by (simp add: e3_def)
  qed (use own ys in \<open>auto simp: e3_def key_def set_insort_key ev_bits\<close>)
  moreover have "eq_reschedule q i w always s = Some s'"
    using w e eok r(1,4) t(1,4) by (simp add: eq_reschedule_def h0_def [symmetric] s'_def e3_def event_ok_def)
  moreover have "events s' j = None \<longleftrightarrow> events s j = None" for j
    using relinked_None [OF rel, of j] e(1) by (simp add: s'_def put_event_def put_queue_def)
  moreover have "same_event (events s) (events s') j" if "j \<noteq> i" for j
    using relinked_same [OF rel, of j] that by (simp add: s'_def put_event_def put_queue_def)
  ultimately show ?thesis using that [of s'] keys by (simp add: s'_def put_event_def put_queue_def ys_def)
qed

subsection \<open>Taking the first event\<close>

lemma pop_top_holds:
  assumes "queue_holds h (Some i) (i # xs)" "h i = Some e"
  obtains h' p where "pop_top h e = Some (h', p)" "queue_holds h' p xs" "relinked (set xs) h h'"
proof -
  from assms(1) obtain bs where bs: "bins h (Some i) bs" "concat bs = i # xs" "distinct (i # xs)" by (auto simp: queue_holds_def)
  from bs(1) obtain "is" bs0 where b: "bs = (i # is) # bs0" by (rule bins_SomeE)
  have "distinct (i # is)" using bs(2,3) b by auto
  with bs(1) [unfolded b] obtain h' p bs' where r: "pop_top h e = Some (h', p)" "bins h' p bs'" "concat bs' = is @ concat bs0"
    "relinked (set is) h h'" using assms(2) by (rule pop_top_drops)
  have xs: "xs = is @ concat bs0" using bs(2) b by simp
  have "queue_holds h' p xs" using r(2,3) bs(3) xs by (auto simp: queue_holds_def)
  moreover have "relinked (set xs) h h'" by (rule relinked_mono [OF r(4)]) (auto simp: xs)
  ultimately show ?thesis using that r(1) by blast
qed

lemma take_first_ok:
  assumes ok: "sim_ok s qs" and q: "qs q = i # xs" and e: "events s i = Some e"
  obtains s' e' where "take_first q s = Some (i, s')" "sim_ok s' (qs(q := xs))" "events s' i = Some e'"
    "ev_flags e' = flags_clear (ev_flags e) Scheduled" "ev_when e' = ev_when e" "curTick s' = curTick s" "Sim.more s' = Sim.more s"
    "\<forall>j. j \<noteq> i \<longrightarrow> same_event (events s) (events s') j"
proof -
  have hold: "queue_holds (events s) (heads s q) (i # xs)" using sim_ok_holds [OF ok, of q] q by simp
  then have head: "heads s q = Some i" using holds_head by fastforce
  have eok: "event_ok e" using sim_ok_queued [OF ok e] by blast
  define e0 where "e0 = e\<lparr>ev_flags := flags_clear (ev_flags e) Scheduled\<rparr>"
  define h0 where "h0 = (events s)(i \<mapsto> e0)"
  have "queue_holds h0 (Some i) (i # xs)"
    by (rule holds_cong [OF hold [unfolded head]]) (use e in \<open>auto simp: h0_def same_at_def e0_def key_def\<close>)
  moreover have "h0 i = Some e0" by (simp add: h0_def)
  ultimately obtain h p where r: "pop_top h0 e0 = Some (h, p)" "queue_holds h p xs" "relinked (set xs) h0 h" by (rule pop_top_holds)
  have i: "i \<notin> set xs" using sim_ok_distinct [OF ok, of q] q by simp
  have hi: "h i = Some e0" using relinked_other [OF r(3) i] by (simp add: h0_def)
  have rel: "relinked (insert i (set (qs q))) ((events s)(i := Some e0)) h"
    using relinked_mono [OF r(3)] q unfolding h0_def by auto
  define s' where "s' = put_queue s q h p"
  have same: "put_event s' i e0 = s'" using hi by (simp add: s'_def put_event_def put_queue_def fun_upd_idem)
  have "sim_ok (put_event (put_queue s q h p) i e0) (qs(q := xs))"
  proof (rule sim_ok_relink [OF ok rel r(2) _ _ hi])
    show "event_ok e0" using eok by (simp add: e0_def event_ok_def initialized_def isExitEvent_def ev_bits)
    show "scheduled e0 \<longleftrightarrow> i \<in> set xs" using i by (simp add: e0_def scheduled_def ev_bits)
    show "i \<notin> set (qs t)" if "t \<noteq> q" for t
      using queued_other [of "events s" "heads s" qs i q t] ok q that by (simp add: sim_ok_def)
  qed (use i q in \<open>auto simp: e0_def scheduled_def ev_bits\<close>)
  then have "sim_ok s' (qs(q := xs))" using same by (simp add: s'_def)
  moreover have "pop_top h0 e = pop_top h0 e0" by (cases "nextInBin e") (simp_all add: pop_top_def e0_def)
  then have "take_first q s = Some (i, s')"
    using head e r(1) by (simp add: take_first_def s'_def h0_def e0_def)
  moreover have "same_event (events s) (events s') j" if "j \<noteq> i" for j
    using relinked_same [OF r(3), of j] that by (simp add: s'_def put_queue_def h0_def)
  ultimately show ?thesis
    using that [of s' e0] hi by (simp add: s'_def put_queue_def e0_def)
qed

text \<open>Replacing an event that is in no queue.\<close>

lemma put_unqueued_ok:
  assumes ok: "sim_ok s qs" and out: "\<And>q. i \<notin> set (qs q)" and e': "event_ok e'" "\<not> scheduled e'"
  shows "sim_ok (put_event s i e') qs"
proof -
  define h where "h = (events s)(i \<mapsto> e')"
  have rel: "relinked {} ((events s)(i := events s i)) (events s)" by simp
  have same: "h j = events s j" if "j \<in> set (qs q)" for j q using out that unfolding h_def by (metis fun_upd_other)
  have "queue_holds h (heads s q) (qs q)" for q
    by (rule holds_cong [OF sim_ok_holds [OF ok]]) (simp add: same same_at_def)
  moreover have "flags_ok h qs"
    unfolding h_def by (rule flags_ok_upd [OF _ rel, where qs = qs]) (use ok out e' in \<open>auto simp: sim_ok_def\<close>)
  moreover have "key_at h j = key_at (events s) j" if "j \<in> set (qs q)" for j q using same [OF that] by (simp add: key_at_def)
  ultimately show ?thesis using ok by (simp add: sim_ok_def queues_ok_def put_event_def h_def)
qed

lemma put_idle_ok:
  assumes ok: "sim_ok s qs" and e: "events s i = Some e" "\<not> scheduled e" and e': "event_ok e'" "\<not> scheduled e'"
  shows "sim_ok (put_event s i e') qs"
  by (rule put_unqueued_ok [OF ok _ e']) (use sim_ok_queued(2) [OF ok e(1)] e(2) in blast)

lemma unsquash_ok:
  assumes ok: "sim_ok s qs" and e: "events s i = Some e" "\<not> scheduled e"
  shows "sim_ok (put_event s i (e\<lparr>ev_flags := flags_clear (ev_flags e) Squashed\<rparr>)) qs"
  by (rule put_idle_ok [OF ok e])
    (use sim_ok_queued(1) [OF ok e(1)] e(2) in
      \<open>simp_all add: event_ok_def initialized_def isExitEvent_def scheduled_def ev_bits\<close>)

text \<open>Squashing an event leaves it where it is.\<close>

lemma squash_ok:
  assumes ok: "sim_ok s qs" and e: "events s i = Some e"
  shows "sim_ok (put_event s i (squash e)) qs"
proof -
  have k: "key (squash e) = key e" "nextBin (squash e) = nextBin e" "nextInBin (squash e) = nextInBin e" by (simp_all add: squash_def key_def)
  have same: "same_at (events s) ((events s)(i \<mapsto> squash e)) j" for j using e k by (simp add: same_at_def)
  have "queue_holds ((events s)(i \<mapsto> squash e)) (heads s q) (qs q)" for q
    by (rule holds_cong [OF sim_ok_holds [OF ok]]) (rule same)
  moreover have "flags_ok ((events s)(i \<mapsto> squash e)) qs"
    using ok e by (auto simp: sim_ok_def flags_ok_def squash_def event_ok_def initialized_def isExitEvent_def scheduled_def ev_bits)
  ultimately show ?thesis
    using ok same_at_key [OF same] by (simp add: sim_ok_def queues_ok_def put_event_def)
qed

text \<open>
  An event of the main queue comes back from its checkpoint as it was, in its place,
  as long as its tick is not past.
\<close>

lemma initialized_again:
  assumes "f AND InitMask = Initialized"
  shows "flags_set f Initialized = f"
  unfolding flags_set_def assms [symmetric] by (rule bit_word_eqI) (auto simp: bit_simps)

lemma restored_flags:
  assumes "f AND InitMask = Initialized" "isSet f Scheduled" "\<not> isSet f Squashed" "isSet f IsMainQueue"
  shows "set_main mainEventQueue (flags_set (flags_clear (flags_set f Initialized) (Squashed OR Scheduled)) Scheduled) = f"
proof (rule bit_word_eqI)
  fix n
  show "bit (set_main mainEventQueue (flags_set (flags_clear (flags_set f Initialized) (Squashed OR Scheduled)) Scheduled)) n
    \<longleftrightarrow> bit f n"
    using assms(2-4) initialized_again [OF assms(1)] by (cases "n = 0") (auto simp: ev_bits bit_or_iff)
qed

lemma unserialize_restores:
  assumes ok: "sim_ok s qs" and d: "events s i = Some d" "\<not> scheduled d"
    and e: "event_ok e" "scheduled e" "\<not> squashed e" "isSet (ev_flags e) IsMainQueue" "curTick s \<le> ev_when e"
  obtains s' e' where "ev_unserialize i (ev_serialize e) s = Some s'" "events s' i = Some e'" "ev_serialize e' = ev_serialize e"
    "sim_ok s' (qs(mainEventQueue := insort_key (key_at (events s')) i (qs mainEventQueue)))"
proof -
  have f: "flags_set (ev_flags e) Initialized = ev_flags e" using e(1) initialized_again by (simp add: event_ok_def initialized_def)
  define e1 where "e1 = d\<lparr>ev_when := ev_when e, ev_priority := ev_priority e,
    ev_flags := flags_clear (flags_set (ev_flags e) Initialized) (Squashed OR Scheduled)\<rparr>"
  define s1 where "s1 = put_event s i e1"
  have mask: "flags_clear g (Squashed OR Scheduled) AND InitMask = g AND InitMask" for g
    by (simp add: flags_clear_def ev_flag_defs and.assoc)
  have n1: "event_ok e1" "\<not> scheduled e1" using e(1) f
    by (simp_all add: e1_def event_ok_def initialized_def isExitEvent_def scheduled_def ev_bits bit_or_iff mask)
  have ok1: "sim_ok s1 qs" unfolding s1_def by (rule put_idle_ok [OF ok d n1])
  have s1: "events s1 i = Some e1" "curTick s1 \<le> ev_when e" using e(5) by (simp_all add: s1_def put_event_def)
  obtain s' where r: "eq_schedule mainEventQueue i (ev_when e) s1 = Some s'"
    "sim_ok s' (qs(mainEventQueue := insort_key (key_at (events s')) i (qs mainEventQueue)))"
    "relinked (insert i (set (qs mainEventQueue))) ((events s1)(i \<mapsto> e1\<lparr>ev_when := ev_when e,
       ev_flags := set_main mainEventQueue (flags_set (ev_flags e1) Scheduled)\<rparr>)) (events s')"
    by (rule schedule_ok [OF ok1 s1(2,1) n1(2)])
  from r(3) obtain e' where e': "events s' i = Some e'" "ev_when e' = ev_when e" "ev_priority e' = ev_priority e"
    "ev_flags e' = set_main mainEventQueue (flags_set (ev_flags e1) Scheduled)"
    by (rule relinked_at [of _ _ _ i]) (auto simp: e1_def)
  have "ev_serialize e' = ev_serialize e"
    using e' restored_flags [of "ev_flags e"] e by (simp add: ev_serialize_def e1_def event_ok_def initialized_def scheduled_def squashed_def)
  moreover have "ev_unserialize i (ev_serialize e) s = Some s'"
    using d r(1) sim_ok_queued(1) [OF ok d(1)] e(2,3) f
    by (simp add: ev_unserialize_def ev_serialize_def event_ok_def scheduled_def squashed_def s1_def e1_def)
  ultimately show ?thesis using that e'(1) r(2) by blast
qed

text \<open>Moving the tick to the first event of the main queue.\<close>

lemma sim_ok_first:
  assumes "sim_ok s qs" "qs q = i # xs" "j \<in> set (qs q)"
  shows "key_at (events s) i \<le> key_at (events s) j"
  using holds_sorted [OF sim_ok_holds [OF assms(1), of q]] assms(2,3) by auto

lemma sim_limit_future: "t \<le> sim_limit num_cycles t"
proof -
  have le: "t \<le> MaxTick" using unsigned_less [of t, where ?'a = nat] by (simp add: MaxTick_def word_le_nat_alt)
  show ?thesis
  proof (cases "num_cycles < MaxTick - t")
    case True
    have "unat (MaxTick - t) = 2 ^ 64 - 1 - unat t" using unat_sub [OF le] by (simp add: MaxTick_def)
    then have "unat t + unat num_cycles < 2 ^ 64" using True by (simp add: word_less_nat_alt)
    then have "unat (t + num_cycles) = unat t + unat num_cycles" by (subst unat_add_lem [THEN iffD1]) simp_all
    then show ?thesis using True by (simp add: sim_limit_def word_le_nat_alt)
  next
    case False
    then show ?thesis using le by (simp add: sim_limit_def)
  qed
qed

lemma advance_ok:
  assumes ok: "sim_ok s qs" and q: "qs mainEventQueue = i # xs" and e: "events s i = Some e"
  shows "sim_ok (s\<lparr>curTick := ev_when e\<rparr>) qs"
proof -
  have "unat (ev_when e) \<le> fst (key_at (events s) j)" if "j \<in> set (qs mainEventQueue)" for j
    using sim_ok_first [OF ok q that] e by (auto simp: key_def less_eq_prod_def)
  then show ?thesis using ok by (simp add: sim_ok_def)
qed

subsection \<open>Checkpoints of a queue\<close>

definition saved :: "store \<Rightarrow> nat \<Rightarrow> bool" where
  "saved h i = (case h i of None \<Rightarrow> False | Some e \<Rightarrow> isSet (ev_flags e) AutoSerialize)"

lemma serialize_bin_filter: "chain h p is \<Longrightarrow> serialize_bin h p = Some (filter (saved h) is)"
proof (induction "is" arbitrary: p)
  case Nil
  then show ?case by (subst serialize_bin.simps) simp
next
  case (Cons i "is")
  then obtain e where "p = Some i" "h i = Some e" "serialize_bin h (nextInBin e) = Some (filter (saved h) is)"
    by (auto split: option.splits)
  then show ?case by (subst serialize_bin.simps) (simp add: saved_def)
qed

lemma serialize_bins_filter: "bins h p bs \<Longrightarrow> serialize_bins h p = Some (filter (saved h) (concat bs))"
proof (induction bs arbitrary: p)
  case Nil
  then show ?case by (subst serialize_bins.simps) simp
next
  case (Cons b bs)
  from Cons.prems obtain i "is" e where b: "b = i # is" "p = Some i" "h i = Some e" "chain h p b" "bins h (nextBin e) bs"
    by (cases b) (auto split: option.splits)
  then show ?case using Cons.IH [OF b(5)] serialize_bin_filter [OF b(4)] by (subst serialize_bins.simps) simp
qed

lemma eq_serialize_filter: "sim_ok s qs \<Longrightarrow> eq_serialize q s = Some (filter (saved (events s)) (qs q))"
  using sim_ok_holds [of s qs q] serialize_bins_filter unfolding eq_serialize_def queue_holds_def by metis

end
