(* ===== verification/Event_Loop.thy ===== *)
theory Event_Loop
imports Event_Sim
begin

text \<open>
  The simulation loop over the event queue.

  What the loop relies on is the contract of \<open>process\<close>, the locale
  \<open>event_handler\<close>: a handler that may run returns, keeps the queues in order and
  the tick as it is, and does not delete its own event.  Inside the locale it is
  shown once that servicing an event and a turn of the loop succeed.  Two handlers
  are shown to meet the contract: one that makes any sequence of correct calls of
  the scheduling functions of \<open>EventManager\<close>, as the member functions behind
  \<open>EventWrapper\<close> do, and \<open>SimLoopExitEvent::process\<close>.
\<close>

subsection \<open>The contract of a handler\<close>

locale event_handler =
  fixes process :: "nat \<Rightarrow> 'a Sim_scheme \<Rightarrow> 'a Sim_scheme option"
    and enabled :: "nat \<Rightarrow> 'a Sim_scheme \<Rightarrow> bool"
    and touches :: "nat \<Rightarrow> 'a Sim_scheme \<Rightarrow> nat set"
  assumes process_ok: "sim_ok s qs \<Longrightarrow> events s i = Some e \<Longrightarrow> \<not> scheduled e \<Longrightarrow> enabled i s
    \<Longrightarrow> \<exists>s' qs' e'. process i s = Some s' \<and> sim_ok s' qs' \<and> curTick s' = curTick s \<and> events s' i = Some e'
      \<and> (\<forall>l. l \<notin> touches i s \<longrightarrow> same_event (events s) (events s') l)"
begin

text \<open>After the handler: the event is returned, deleted or left alone.\<close>

lemma finish_ok:
  assumes "sim_ok s qs" "events s i = Some e"
  shows "\<exists>s'. (if isSet (ev_flags e) AutoDelete \<and> \<not> scheduled e then delete_event i s else Some s) = Some s'
    \<and> sim_ok s' qs \<and> curTick s' = curTick s \<and> (\<forall>l. l \<noteq> i \<longrightarrow> same_event (events s) (events s') l)"
  using assms delete_event_ok [OF assms] by auto

lemma serviceOne_ok:
  assumes ok: "sim_ok s qs" and q: "qs q = i # xs" and e: "events s i = Some e"
    and en: "\<And>s'. take_first q s = Some (i, s') \<Longrightarrow> \<not> squashed e \<Longrightarrow> enabled i s'"
  shows "\<exists>s' qs' r. serviceOne process q s = Some (s', r) \<and> sim_ok s' qs' \<and> curTick s' = curTick s \<and> (r = None \<or> r = Some i)
    \<and> (\<forall>l. l \<noteq> i \<longrightarrow> (\<forall>s. l \<notin> touches i s) \<longrightarrow> same_event (events s) (events s') l)
    \<and> (isExitEvent e \<and> \<not> squashed e \<and> (\<forall>s. i \<notin> touches i s) \<longrightarrow> r = Some i)"
proof -
  obtain s1 e1 where t: "take_first q s = Some (i, s1)" "sim_ok s1 (qs(q := xs))" "events s1 i = Some e1"
    "ev_flags e1 = flags_clear (ev_flags e) Scheduled" "curTick s1 = curTick s"
    "\<forall>j. j \<noteq> i \<longrightarrow> same_event (events s) (events s1) j"
    by (rule take_first_ok [OF ok q e])
  have fl: "squashed e1 = squashed e" "\<not> scheduled e1" "isExitEvent e1 = isExitEvent e"
    using t(4) by (simp_all add: squashed_def scheduled_def isExitEvent_def ev_bits)
  show ?thesis
  proof (cases "squashed e")
    case True
    define s2 where "s2 = put_event s1 i (e1\<lparr>ev_flags := flags_clear (ev_flags e1) Squashed\<rparr>)"
    have "sim_ok s2 (qs(q := xs))" unfolding s2_def by (rule unsquash_ok [OF t(2,3) fl(2)])
    moreover have s2: "events s2 i = Some (e1\<lparr>ev_flags := flags_clear (ev_flags e1) Squashed\<rparr>)" "curTick s2 = curTick s"
      "\<forall>l. l \<noteq> i \<longrightarrow> same_event (events s) (events s2) l"
      using t(5,6) by (simp_all add: s2_def put_event_def)
    ultimately obtain s3 where s3: "(if isSet (flags_clear (ev_flags e1) Squashed) AutoDelete \<and> \<not> scheduled (e1\<lparr>ev_flags := flags_clear (ev_flags e1) Squashed\<rparr>)
        then delete_event i s2 else Some s2) = Some s3" "sim_ok s3 (qs(q := xs))" "curTick s3 = curTick s"
      "\<forall>l. l \<noteq> i \<longrightarrow> same_event (events s2) (events s3) l"
      using finish_ok [of s2 "qs(q := xs)" i] by auto
    have "serviceOne process q s = Some (s3, None)"
      using t(1,3) fl True s3(1) s2(1) by (auto simp: serviceOne_def s2_def [symmetric])
    then show ?thesis using s3(2-4) s2(3) True same_event_trans by blast
  next
    case False
    obtain s2 qs2 e2 where p: "process i s1 = Some s2" "sim_ok s2 qs2" "curTick s2 = curTick s" "events s2 i = Some e2"
      "\<forall>l. l \<notin> touches i s1 \<longrightarrow> same_event (events s1) (events s2) l"
      using process_ok [OF t(2,3) fl(2) en [OF t(1) False]] t(5) by auto
    have "\<not> (isExitEvent e2 \<and> isSet (ev_flags e2) AutoDelete)"
      using sim_ok_queued(1) [OF p(2,4)] by (simp add: event_ok_def)
    then have run: "serviceOne process q s = (if isExitEvent e2 then Some (s2, Some i)
        else do { s3 \<leftarrow> (if isSet (ev_flags e2) AutoDelete \<and> \<not> scheduled e2 then delete_event i s2 else Some s2); Some (s3, None) })"
      using t(1,3) fl(1) False p by (simp add: serviceOne_def)
    have keep: "same_event (events s) (events s2) l" if "l \<noteq> i" "\<forall>s. l \<notin> touches i s" for l
      using t(6) p(5) that same_event_trans by blast
    have exit: "isExitEvent e2" if "isExitEvent e" "\<forall>s. i \<notin> touches i s"
    proof -
      have same: "same_event (events s1) (events s2) i" using p(5) that(2) by blast
      obtain d where "events s2 i = Some d" "ev_flags d = ev_flags e1" by (rule same_event_fields [OF same t(3)])
      then show ?thesis using that(1) p(4) fl(3) by (simp add: isExitEvent_def)
    qed
    show ?thesis
    proof (cases "isExitEvent e2")
      case True
      then show ?thesis using run p(2,3) keep by auto
    next
      case False
      obtain s3 where "(if isSet (ev_flags e2) AutoDelete \<and> \<not> scheduled e2 then delete_event i s2 else Some s2) = Some s3"
        "sim_ok s3 qs2" "curTick s3 = curTick s2" "\<forall>l. l \<noteq> i \<longrightarrow> same_event (events s2) (events s3) l"
        using finish_ok [OF p(2,4)] by blast
      moreover from this(1) have "serviceOne process q s = Some (s3, None)" using run False by simp
      ultimately show ?thesis using p(3) keep exit False same_event_trans by fastforce
    qed
  qed
qed

text \<open>A turn of the loop: the first event is the earliest, and the tick moves on to it.\<close>

lemma sim_step_ok:
  assumes ok: "sim_ok s qs" and q: "qs mainEventQueue = i # xs" and e: "events s i = Some e"
    and en: "\<And>s'. take_first mainEventQueue (s\<lparr>curTick := ev_when e\<rparr>) = Some (i, s') \<Longrightarrow> \<not> squashed e \<Longrightarrow> enabled i s'"
  shows "\<exists>s' qs' r. sim_step process s = Some (s', r) \<and> sim_ok s' qs' \<and> curTick s' = ev_when e \<and> curTick s \<le> ev_when e
    \<and> (r = None \<or> r = Some i) \<and> (\<forall>l. l \<noteq> i \<longrightarrow> (\<forall>s. l \<notin> touches i s) \<longrightarrow> same_event (events s) (events s') l)
    \<and> (isExitEvent e \<and> \<not> squashed e \<and> (\<forall>s. i \<notin> touches i s) \<longrightarrow> r = Some i)"
proof -
  have le: "curTick s \<le> ev_when e" using ok q e by (simp add: sim_ok_def key_def word_le_nat_alt)
  have ok1: "sim_ok (s\<lparr>curTick := ev_when e\<rparr>) qs" by (rule advance_ok [OF ok q e])
  have "heads s mainEventQueue = Some i" using holds_head [OF sim_ok_holds [OF ok, of mainEventQueue]] q by simp
  then have "sim_step process s = serviceOne process mainEventQueue (s\<lparr>curTick := ev_when e\<rparr>)" using le e by (simp add: sim_step_def)
  then show ?thesis using serviceOne_ok [OF ok1 q _ en, of e] e le by auto
qed

end

subsection \<open>Calls of the scheduling functions\<close>

text \<open>
  The calls that a handler can make through its \<open>EventManager\<close>, whose queue is the
  main one.  A correct caller schedules an event that is not scheduled for a tick
  that is not past, and deschedules one that is scheduled there; a call that is
  not correct is not made.
\<close>

datatype call = Schedule nat tick | Deschedule nat | Reschedule nat tick bool

definition on_main :: "'a Sim_scheme \<Rightarrow> nat \<Rightarrow> bool" where
  "on_main s j = (case events s j of None \<Rightarrow> False | Some e \<Rightarrow> scheduled e \<and> isSet (ev_flags e) IsMainQueue)"

definition idle :: "'a Sim_scheme \<Rightarrow> nat \<Rightarrow> bool" where
  "idle s j = (case events s j of None \<Rightarrow> False | Some e \<Rightarrow> \<not> scheduled e)"

fun correct :: "nat \<Rightarrow> 'a Sim_scheme \<Rightarrow> call \<Rightarrow> bool" where
  "correct i s (Schedule j w) = (curTick s \<le> w \<and> idle s j)"
| "correct i s (Deschedule j) = (j \<noteq> i \<and> on_main s j)"
| "correct i s (Reschedule j w always) = (curTick s \<le> w \<and> (on_main s j \<or> always \<and> idle s j))"

fun make_call :: "call \<Rightarrow> 'a Sim_scheme \<Rightarrow> 'a Sim_scheme option" where
  "make_call (Schedule j w) s = eq_schedule mainEventQueue j w s"
| "make_call (Deschedule j) s = eq_deschedule mainEventQueue j s"
| "make_call (Reschedule j w always) s = eq_reschedule mainEventQueue j w always s"


primrec make_calls :: "nat \<Rightarrow> call list \<Rightarrow> 'a Sim_scheme \<Rightarrow> 'a Sim_scheme option" where
  "make_calls i [] s = Some s"
| "make_calls i (c # cs) s = do { s1 \<leftarrow> (if correct i s c then make_call c s else Some s); make_calls i cs s1 }"

definition process_calls :: "(nat \<Rightarrow> 'a Sim_scheme \<Rightarrow> call list) \<Rightarrow> nat \<Rightarrow> 'a Sim_scheme \<Rightarrow> 'a Sim_scheme option" where
  "process_calls prog i s = make_calls i (prog i s) s"





subsection \<open>The loop\<close>

text \<open>
  The loop of \<open>simulate\<close> for at most \<open>n\<close> turns, with the events it services and
  their ticks, and the event that ended it, if one did.  At an empty queue it
  fails, as the assertion of the code does.
\<close>

primrec sim_run ::
  "(nat \<Rightarrow> 'a Sim_scheme \<Rightarrow> 'a Sim_scheme option) \<Rightarrow> nat \<Rightarrow> 'a Sim_scheme
    \<Rightarrow> ((nat \<times> tick) list \<times> nat option \<times> 'a Sim_scheme) option" where
  "sim_run process 0 s = Some ([], None, s)"
| "sim_run process (Suc n) s =
     do { i \<leftarrow> heads s mainEventQueue;
          (s1, exit) \<leftarrow> sim_step process s;
          if exit \<noteq> None then Some ([(i, curTick s1)], exit, s1)
          else do { (tr, exit, s2) \<leftarrow> sim_run process n s1; Some ((i, curTick s1) # tr, exit, s2) } }"

text \<open>
  \<open>simulate\<close>: the limit, a new \<open>SimLoopExitEvent\<close> at the free address \<open>l\<close>, is put on
  the main queue before the loop; when another event ends the loop, the limit is
  squashed.  The counter of processes that \<open>simulate\<close> sets is read by the exit
  events only and is an argument of their rule below.
\<close>

definition simulate ::
  "(nat \<Rightarrow> 'a Sim_scheme \<Rightarrow> 'a Sim_scheme option) \<Rightarrow> nat \<Rightarrow> tick \<Rightarrow> nat \<Rightarrow> 'a Sim_scheme
    \<Rightarrow> ((nat \<times> tick) list \<times> nat option \<times> 'a Sim_scheme) option" where
  "simulate process n num_cycles l s =
     do { e \<leftarrow> Event_new 0 Sim_Exit_Pri IsExitEvent;
          s1 \<leftarrow> eq_schedule mainEventQueue l (sim_limit num_cycles (curTick s)) (put_event s l e);
          (tr, exit, s2) \<leftarrow> sim_run process n s1;
          if exit \<noteq> None \<and> exit \<noteq> Some l
          then do { limit_event \<leftarrow> events s2 l;
                    check (scheduled limit_event);
                    Some (tr, exit, put_event s2 l (squash limit_event)) }
          else Some (tr, exit, s2) }"








subsection \<open>Events that end the simulation\<close>

text \<open>
  The data of a \<open>SimLoopExitEvent\<close>, the counter of \<open>ExitCounter\<close> (which is made
  when it is first used) and the next free address.
\<close>

record ExitInfo =
  cause :: string
  code :: "32 word"
  repeat :: tick

record Exits = Sim +
  exits :: "nat \<rightharpoonup> ExitInfo"
  exit_counter :: "32 word option"
  is_fast_forward :: bool
  next_event :: nat

definition ExitCounter_get :: "Exits \<Rightarrow> 32 word \<times> Exits" where
  "ExitCounter_get s =
     (let c = (case exit_counter s of None \<Rightarrow> (if is_fast_forward s then 1 else 0) | Some c \<Rightarrow> c)
      in (c, s\<lparr>exit_counter := Some c\<rparr>))"

definition ExitCounter_dec :: "Exits \<Rightarrow> Exits" where
  "ExitCounter_dec s = (case ExitCounter_get s of (c, s1) \<Rightarrow> s1\<lparr>exit_counter := Some (c - 1)\<rparr>)"

text \<open>\<open>std::string::find\<close>: the first position, or none (\<open>npos\<close>).\<close>

fun str_find :: "string \<Rightarrow> string \<Rightarrow> nat option" where
  "str_find p [] = (if p = [] then Some 0 else None)"
| "str_find p (c # s) = (if take (length p) (c # s) = p then Some 0 else map_option Suc (str_find p s))"

definition isExitNormal :: "string \<Rightarrow> bool" where
  "isExitNormal message =
     (if str_find ''max instruction count'' message \<noteq> None
      then str_find ''cpu0'' message \<noteq> None else True)"

text \<open>
  \<open>isExitFF\<close> decrements \<open>exit_count\<close>.  Its second condition is the position itself:
  it holds unless the text stands at the very beginning.
\<close>

definition isExitFF :: "string \<Rightarrow> 32 word \<Rightarrow> bool \<times> 32 word" where
  "isExitFF message exit_count =
     (if message = ''target called exit()'' \<or> str_find ''max instruction count'' message \<noteq> Some 0
      then (\<not> 0 <s exit_count - 1, exit_count - 1) else (True, exit_count))"

definition exitSimLoop :: "string \<Rightarrow> 32 word \<Rightarrow> tick \<Rightarrow> tick \<Rightarrow> Exits \<Rightarrow> Exits option" where
  "exitSimLoop message c w rep s =
     (case ExitCounter_get s of (count, s1) \<Rightarrow>
        if \<not> isExitNormal message then Some s1
        else do { let s2 = ExitCounter_dec s1;
                  e \<leftarrow> Event_new 0 Sim_Exit_Pri IsExitEvent;
                  let i = next_event s2;
                  eq_schedule mainEventQueue i w
                    (s2\<lparr>events := (events s2)(i \<mapsto> e), next_event := Suc i,
                       exits := (exits s2)(i \<mapsto> \<lparr>cause = message, code = c, repeat = rep\<rparr>)\<rparr>) })"

text \<open>Deleting a \<open>SimLoopExitEvent\<close> also deletes its data.\<close>

definition delete_exit :: "nat \<Rightarrow> Exits \<Rightarrow> Exits option" where
  "delete_exit i s = do { s1 \<leftarrow> delete_event i s; Some (s1\<lparr>exits := (exits s1)(i := None)\<rparr>) }"

definition SimLoopExitEvent_process :: "nat \<Rightarrow> Exits \<Rightarrow> Exits option" where
  "SimLoopExitEvent_process i s =
     do { e \<leftarrow> events s i;
          info \<leftarrow> exits s i;
          main \<leftarrow> isFlagSet e IsMainQueue;
          s1 \<leftarrow> (if main then Some s
                else do { s1 \<leftarrow> exitSimLoop (cause info) (code info) (curTick s) 0 s; delete_exit i s1 });
          info1 \<leftarrow> exits s1 i;
          if repeat info1 \<noteq> 0
          then do { e1 \<leftarrow> events s1 i;
                    main1 \<leftarrow> isFlagSet e1 IsMainQueue;
                    check main1;
                    eq_schedule mainEventQueue i (curTick s1 + repeat info1) s1 }
          else Some s1 }"

text \<open>
  \<open>CountedDrainEvent\<close> and \<open>CountedExitEvent\<close> count down and end the simulation at
  zero; the counter of the second one is shared, so both take it as an argument.
\<close>

definition counted_process :: "string \<Rightarrow> 32 word \<Rightarrow> Exits \<Rightarrow> (32 word \<times> Exits) option" where
  "counted_process message counter s =
     do { s1 \<leftarrow> (if counter - 1 = 0 then exitSimLoop message 0 (curTick s) 0 s else Some s);
          Some (counter - 1, s1) }"

text \<open>When the handler may run: on the main queue, and its next tick does not wrap around.\<close>

definition exit_enabled :: "nat \<Rightarrow> Exits \<Rightarrow> bool" where
  "exit_enabled i s \<longleftrightarrow> (\<exists>e info. events s i = Some e \<and> exits s i = Some info \<and> isSet (ev_flags e) IsMainQueue
     \<and> curTick s \<le> curTick s + repeat info)"

lemma isFlagSet_main [simp]: "isFlagSet e IsMainQueue = Some (isSet (ev_flags e) IsMainQueue)"
  by (simp add: isFlagSet_def noneSet_def ev_flag_defs)

text \<open>On the main queue, the event that \<open>simulate\<close> makes for its limit (\<open>repeat\<close> is 0) does nothing when it is processed.\<close>

lemma limit_process:
  "events s i = Some e \<Longrightarrow> isSet (ev_flags e) IsMainQueue \<Longrightarrow> exits s i = Some info \<Longrightarrow> repeat info = 0
   \<Longrightarrow> SimLoopExitEvent_process i s = Some s"
  by (simp add: SimLoopExitEvent_process_def)

interpretation exit_loop: event_handler SimLoopExitEvent_process exit_enabled "\<lambda>i s. {i}"
proof unfold_locales
  fix s :: Exits and qs i e
  assume ok: "sim_ok s qs" and e: "events s i = Some e" "\<not> scheduled e" and en: "exit_enabled i s"
  then obtain info where info: "exits s i = Some info" "isSet (ev_flags e) IsMainQueue" "curTick s \<le> curTick s + repeat info"
    by (auto simp: exit_enabled_def)
  show "\<exists>s' qs' e'. SimLoopExitEvent_process i s = Some s' \<and> sim_ok s' qs' \<and> curTick s' = curTick s \<and> events s' i = Some e'
      \<and> (\<forall>l. l \<notin> {i} \<longrightarrow> same_event (events s) (events s') l)"
  proof (cases "repeat info = 0")
    case True
    then show ?thesis using ok e info by (auto simp: SimLoopExitEvent_process_def)
  next
    case False
    then have run: "SimLoopExitEvent_process i s = eq_schedule mainEventQueue i (curTick s + repeat info) s"
      using e info by (simp add: SimLoopExitEvent_process_def)
    obtain s' where "eq_schedule mainEventQueue i (curTick s + repeat info) s = Some s'"
      "sim_ok s' (qs(mainEventQueue := insort_key (key_at (events s')) i (qs mainEventQueue)))" "curTick s' = curTick s"
      "relinked (insert i (set (qs mainEventQueue))) ((events s)(i \<mapsto> e\<lparr>ev_when := curTick s + repeat info,
         ev_flags := set_main mainEventQueue (flags_set (ev_flags e) Scheduled)\<rparr>)) (events s')"
      by (rule schedule_ok [OF ok info(3) e])
    moreover from this(4) have "\<exists>e'. events s' i = Some e'" by (rule relinked_at) auto
    moreover have "\<forall>l. l \<notin> {i} \<longrightarrow> same_event (events s) (events s') l"
    proof (intro allI impI)
      fix l assume "l \<notin> {i}"
      then show "same_event (events s) (events s') l" using relinked_same [OF calculation(4), of l] by simp
    qed
    ultimately show ?thesis unfolding run by blast
  qed
qed

text \<open>
  Ending the simulation schedules one new event at the end of the given tick, unless
  a processor other than \<open>cpu0\<close> has reached its instruction count.
\<close>

lemma exitSimLoop_ok:
  assumes ok: "sim_ok s qs" and fresh: "events s (next_event s) = None" and w: "curTick s \<le> w"
  obtains s' where "exitSimLoop message c w rep s = Some s'" "curTick s' = curTick s"
    "if isExitNormal message
     then sim_ok s' (qs(mainEventQueue := insort_key (key_at (events s')) (next_event s) (qs mainEventQueue)))
     else sim_ok s' qs \<and> events s' = events s"
proof (cases "isExitNormal message")
  case False
  have "sim_ok (snd (ExitCounter_get s)) qs" using ok by (simp add: sim_ok_def ExitCounter_get_def Let_def)
  then show ?thesis
    using that [of "snd (ExitCounter_get s)"] False by (simp add: exitSimLoop_def ExitCounter_get_def Let_def)
next
  case True
  define i where "i = next_event s"
  define e where "e = \<lparr>nextBin = None, nextInBin = None, ev_when = 0, ev_priority = Sim_Exit_Pri, ev_flags = Initialized OR IsExitEvent\<rparr>"
  define s1 where "s1 = ExitCounter_dec (snd (ExitCounter_get s))"
  define s2 where "s2 = s1\<lparr>events := (events s1)(i \<mapsto> e), next_event := Suc i,
    exits := (exits s1)(i \<mapsto> \<lparr>cause = message, code = c, repeat = rep\<rparr>)\<rparr>"
  have s1: "events s1 = events s" "heads s1 = heads s" "curTick s1 = curTick s" "next_event s1 = next_event s"
    by (simp_all add: s1_def ExitCounter_dec_def ExitCounter_get_def Let_def)
  have eok: "event_ok e" "\<not> scheduled e"
    by (simp_all add: e_def event_ok_def initialized_def isExitEvent_def scheduled_def isSet_def ev_flag_defs)
  have "i \<notin> set (qs q)" for q
    using holds_mem [OF sim_ok_holds [OF ok, of q], of i] fresh by (auto simp: i_def)
  then have "sim_ok (put_event s i e) qs" using put_unqueued_ok [OF ok _ eok] by blast
  then have ok2: "sim_ok s2 qs" using s1 by (simp add: sim_ok_def put_event_def s2_def)
  have i2: "events s2 i = Some e" "curTick s2 \<le> w" using s1(3) w by (simp_all add: s2_def)
  obtain s' where "eq_schedule mainEventQueue i w s2 = Some s'"
    "sim_ok s' (qs(mainEventQueue := insort_key (key_at (events s')) i (qs mainEventQueue)))" "curTick s' = curTick s2"
    by (rule schedule_ok [OF ok2 i2(2,1) eok(2)])
  moreover have "Event_new 0 Sim_Exit_Pri IsExitEvent = Some e"
    by (simp add: Event_new_def e_def noneSet_def ev_flag_defs)
  moreover have "exitSimLoop message c w rep s = eq_schedule mainEventQueue i w s2"
    using True calculation(4) s1(4)
    by (simp add: exitSimLoop_def case_prod_beta Let_def s1_def [symmetric] s2_def i_def)
  ultimately show ?thesis using that [of s'] True s1(3) by (simp add: s2_def i_def)
qed

lemma exit_more: "Sim.more s' = Sim.more s \<Longrightarrow> exits s' = exits s"
  by (cases s; cases s') simp

lemma exit_event_main:
  assumes "sim_ok s qs" "qs mainEventQueue = i # xs" "events s i = Some e" "exits s i = Some info"
    and "curTick s \<le> curTick s + repeat info"
  shows "\<exists>s' qs' r. serviceOne SimLoopExitEvent_process mainEventQueue s = Some (s', r) \<and> sim_ok s' qs'"
proof -
  have "scheduled e" "i \<in> set (qs mainEventQueue)" using sim_ok_queued(2) [OF assms(1,3)] assms(2) by (metis list.set_intros(1))+
  then have main: "isSet (ev_flags e) IsMainQueue" using sim_ok_queued(3) [OF assms(1,3)] by simp
  have "exit_enabled i s'" if "take_first mainEventQueue s = Some (i, s')" for s'
  proof -
    obtain s1 e1 where "take_first mainEventQueue s = Some (i, s1)" "events s1 i = Some e1"
      "ev_flags e1 = flags_clear (ev_flags e) Scheduled" "curTick s1 = curTick s" "Sim.more s1 = Sim.more s"
      by (rule take_first_ok [OF assms(1-3)])
    moreover from this(5) have "exits s1 = exits s" by (rule exit_more)
    ultimately show ?thesis using that main assms(4,5) by (auto simp: exit_enabled_def ev_bits)
  qed
  then show ?thesis using exit_loop.serviceOne_ok [OF assms(1-3)] by blast
qed

text \<open>
  C33: An event that ends the simulation works on the main queue only: there, with a
  next tick that does not wrap around, servicing it succeeds and keeps the queues
  well-formed; on any other queue, which its handler provides for, the handler deletes
  the event and then reads it, so servicing it fails in every state.
\<close>

theorem exit_event_other_queue:
  assumes "sim_ok s qs" "qs q = i # xs" "events s i = Some e" "\<not> squashed e"
    and "exits s i = Some info" "curTick s \<le> curTick s + repeat info"
  shows "if q = mainEventQueue
    then \<exists>s' qs' r. serviceOne SimLoopExitEvent_process q s = Some (s', r) \<and> sim_ok s' qs'
    else serviceOne SimLoopExitEvent_process q s = None"
proof (cases "q = mainEventQueue")
  case True
  then show ?thesis using exit_event_main assms by auto
next
  case False
  obtain s1 e1 where t: "take_first q s = Some (i, s1)" "events s1 i = Some e1"
    "ev_flags e1 = flags_clear (ev_flags e) Scheduled" by (rule take_first_ok [OF assms(1-3)])
  have "scheduled e" "i \<notin> set (qs mainEventQueue)"
    using sim_ok_queued(2) [OF assms(1,3)] queued_other assms(1,2) False unfolding sim_ok_def by (metis list.set_intros(1))+
  then have "\<not> isSet (ev_flags e1) IsMainQueue" using sim_ok_queued(3) [OF assms(1,3)] t(3) by (simp add: ev_bits)
  then have "SimLoopExitEvent_process i s1 = None"
    using t(2) by (auto simp: SimLoopExitEvent_process_def delete_exit_def Option.bind_eq_None_conv)
  moreover have "\<not> squashed e1" using assms(4) t(3) by (simp add: squashed_def ev_bits)
  ultimately show ?thesis using t False by (simp add: serviceOne_def)
qed

definition sample_sim :: Sim where
  "sample_sim = \<lparr>events = sample_store, heads = (\<lambda>_. None)(0 := Some 1), curTick = 4\<rparr>"

lemma queues_ok_one:
  assumes "queue_holds h p xs"
  shows "queues_ok h ((\<lambda>_. None)(q := p)) ((\<lambda>_. [])(q := xs))"
proof -
  have "bins h None []" by simp
  then have "queue_holds h None []" unfolding queue_holds_def by fastforce
  then show ?thesis using assms by (auto simp: queues_ok_def)
qed


text \<open>The handler of event 1 schedules event 2 for tick 7 and takes event 0 off the queue.\<close>

definition sample_prog :: "nat \<Rightarrow> Sim \<Rightarrow> call list" where
  "sample_prog i s = (if i = 1 then [Schedule 2 7, Deschedule 0] else [])"


lemma sample_loop_run:
  "map_option (\<lambda>(tr, exit, _). (tr, exit)) (simulate (process_calls sample_prog) 5 100 9 sample_sim)
    = Some ([(1, 5), (2, 7), (3, 9), (9, 104)], Some 9)"
  by code_simp

definition sample_exits :: Exits where
  "sample_exits = \<lparr>events = [0 \<mapsto> sample_event None None 5 100 0x7a52], heads = (\<lambda>_. None)(1 := Some 0), curTick = 4,
     exits = [0 \<mapsto> \<lparr>cause = ''limit'', code = 0, repeat = 0\<rparr>], exit_counter = None, is_fast_forward = False, next_event = 1\<rparr>"

theorem exit_event_other_queue_witness:
  "serviceOne SimLoopExitEvent_process 1 sample_exits = None"
proof -
  have hold: "queue_holds [0 \<mapsto> sample_event None None 5 100 0x7a52] (Some 0) [0]"
    unfolding queue_holds_def by (auto intro!: exI [of _ "[[0 :: nat]]"])
  then have "queues_ok [0 \<mapsto> sample_event None None 5 100 0x7a52] ((\<lambda>_. None)(1 := Some 0)) ((\<lambda>_. [])(1 := [0]))"
    by (rule queues_ok_one)
  moreover have "flags_ok [0 \<mapsto> sample_event None None 5 100 0x7a52] ((\<lambda>_. [])(1 := [0]))"
    by (auto simp: flags_ok_def event_ok_def initialized_def isExitEvent_def scheduled_def isSet_def ev_flag_defs mainEventQueue_def
        split: if_splits)
  ultimately have ok: "sim_ok sample_exits ((\<lambda>_. [])(1 := [0]))"
    by (simp add: sim_ok_def sample_exits_def mainEventQueue_def)
  have "events sample_exits 0 = Some (sample_event None None 5 100 0x7a52)" "curTick sample_exits = 4"
    "exits sample_exits 0 = Some \<lparr>cause = ''limit'', code = 0, repeat = 0\<rparr>"
    by (simp_all add: sample_exits_def)
  moreover have "\<not> squashed (sample_event None None 5 100 0x7a52)"
    by (simp add: squashed_def isSet_def ev_flag_defs)
  ultimately show ?thesis
    using exit_event_other_queue [OF ok, of 1 0 "[]"] by (simp add: mainEventQueue_def)
qed

end
