(* ===== verification/Mem_Bridge.thy ===== *)
theory Mem_Bridge
imports RR_Layer Mem_Packet Range_Map
begin

text \<open>
  The bridge between two buses (\<open>mem/bridge.cc\<close>, \<open>mem/bridge.hh\<close>).

  The slave port takes requests and queues responses, the master port queues
  requests and takes responses.  A request that needs a response reserves room for
  it before it is accepted; a request that finds no room is refused, and the sender
  is told to try again later.  The peers of the two ports are parameters: whether
  they take a packet is an argument of the functions that send, and a retry that the
  bridge sends is a result.  A sender state of the bridge is an index into the
  request states it has allocated; a deleted one is \<^term>\<open>None\<close>.
\<close>

subsection \<open>Definitions\<close>

record Bridge = ClockedObject +
  s_delay :: "64 word"
  br_ranges :: "Range list"
  s_list :: "(tick \<times> Packet) list"
  outstandingResponses :: "32 word"
  retryReq :: bool
  respQueueLimit :: "32 word"
  s_event :: "tick option"
  m_delay :: "64 word"
  m_list :: "(tick \<times> Packet) list"
  reqQueueLimit :: "32 word"
  m_event :: "tick option"
  req_states :: "(SenderState option \<times> port_id) option list"

definition Bridge_new :: "tick \<Rightarrow> tick \<Rightarrow> 32 word \<Rightarrow> 32 word \<Rightarrow> Range list \<Rightarrow> Bridge" where
  "Bridge_new period delay resp_sz req_sz ranges =
     (let d = ticksToCycles delay (ClockedObject_new period) in
      \<lparr>co_tick = 0, co_cycle = 0, clock = period, s_delay = d, br_ranges = ranges, s_list = [],
       outstandingResponses = 0, retryReq = False, respQueueLimit = resp_sz, s_event = None,
       m_delay = d, m_list = [], reqQueueLimit = req_sz, m_event = None, req_states = []\<rparr>)"

datatype bridge_error = NotConnected | BlockSizes "32 word" "32 word"

definition br_init :: "bool \<Rightarrow> bool \<Rightarrow> 32 word \<Rightarrow> 32 word \<Rightarrow> bridge_error + unit" where
  "br_init slave_connected master_connected slave_size master_size =
     (if \<not> slave_connected \<or> \<not> master_connected then Inl NotConnected
      else if slave_size \<noteq> master_size then Inl (BlockSizes slave_size master_size) else Inr ())"

definition respQueueFull :: "Bridge \<Rightarrow> bool" where
  "respQueueFull b = (outstandingResponses b = respQueueLimit b)"

definition reqQueueFull :: "Bridge \<Rightarrow> bool" where
  "reqQueueFull b = (length (m_list b) = unat (reqQueueLimit b))"

text \<open>\<open>RequestState\<close>: the sender state and the source port of a request, kept for its response.\<close>

definition save_state :: "Packet \<Rightarrow> Bridge \<Rightarrow> (Packet \<times> Bridge) option" where
  "save_state pk b =
     do { s \<leftarrow> getSrc pk;
          Some (pk\<lparr>senderState := Some (OtherState (length (req_states b)))\<rparr>,
                b\<lparr>req_states := req_states b @ [Some (senderState pk, s)]\<rparr>) }"

definition fixResponse :: "Packet \<Rightarrow> Bridge \<Rightarrow> (Packet \<times> Bridge) option" where
  "fixResponse pk b =
     do { k \<leftarrow> (case senderState pk of Some (OtherState k) \<Rightarrow> Some k | _ \<Rightarrow> None);
          st \<leftarrow> at (req_states b) k;
          (orig, s) \<leftarrow> st;
          Some ((setDest s pk)\<lparr>senderState := orig\<rparr>, b\<lparr>req_states := (req_states b)[k := None]\<rparr>) }"

definition br_schedTimingReq :: "tick \<Rightarrow> Packet \<Rightarrow> tick \<Rightarrow> Bridge \<Rightarrow> Bridge option" where
  "br_schedTimingReq cur pk w b =
     do { (pk, b) \<leftarrow> (if \<not> memInhibitAsserted pk \<and> needsResponse (cmd pk) then save_state pk b else Some (pk, b));
          ev \<leftarrow> (if m_list b = [] then schedule cur (m_event b) w else Some (m_event b));
          check (length (m_list b) \<noteq> unat (reqQueueLimit b));
          Some (b\<lparr>m_event := ev, m_list := m_list b @ [(w, pk)]\<rparr>) }"

definition br_schedTimingResp :: "tick \<Rightarrow> Packet \<Rightarrow> tick \<Rightarrow> Bridge \<Rightarrow> Bridge option" where
  "br_schedTimingResp cur pk w b =
     do { (pk, b) \<leftarrow> fixResponse pk b;
          check (isDestValid pk);
          ev \<leftarrow> (if s_list b = [] then schedule cur (s_event b) w else Some (s_event b));
          Some (b\<lparr>s_event := ev, s_list := s_list b @ [(w, pk)]\<rparr>) }"

definition br_recvTimingResp :: "tick \<Rightarrow> Packet \<Rightarrow> Bridge \<Rightarrow> (bool \<times> Bridge) option" where
  "br_recvTimingResp cur pk b =
     (case clockEdge cur (m_delay b) b of (w, b) \<Rightarrow>
        do { b \<leftarrow> br_schedTimingResp cur pk w b; Some (True, b) })"

definition br_recvTimingReq :: "tick \<Rightarrow> Packet \<Rightarrow> Bridge \<Rightarrow> (bool \<times> Bridge) option" where
  "br_recvTimingReq cur pk b =
     (if retryReq b then Some (False, b)
      else do { b \<leftarrow> (if reqQueueFull b then Some (b\<lparr>retryReq := True\<rparr>)
                      else if needsResponse (cmd pk) then
                        if respQueueFull b then Some (b\<lparr>retryReq := True\<rparr>)
                        else do { check (outstandingResponses b \<noteq> respQueueLimit b);
                                  let b = b\<lparr>outstandingResponses := outstandingResponses b + 1, retryReq := False\<rparr>;
                                  let (w, b) = clockEdge cur (s_delay b) b;
                                  br_schedTimingReq cur pk w b }
                      else Some b);
                Some (\<not> retryReq b, b) })"

text \<open>The functions that send; the second result says whether a retry goes to the sender.\<close>

definition retryStalledReq :: "Bridge \<Rightarrow> Bridge \<times> bool" where
  "retryStalledReq b = (if retryReq b then (b\<lparr>retryReq := False\<rparr>, True) else (b, False))"

text \<open>The event for the packet that is first now.\<close>

definition next_send :: "tick \<Rightarrow> (tick \<times> Packet) list \<Rightarrow> tick option \<Rightarrow> Bridge \<Rightarrow> (tick option \<times> Bridge) option" where
  "next_send cur xs ev b =
     (if xs \<noteq> []
      then case nextCycle cur b of (n, b) \<Rightarrow> do { ev \<leftarrow> schedule cur ev (max (fst (hd xs)) n); Some (ev, b) }
      else Some (ev, b))"

definition m_trySendTiming :: "tick \<Rightarrow> bool \<Rightarrow> Bridge \<Rightarrow> (Bridge \<times> bool) option" where
  "m_trySendTiming cur taken b =
     do { check (m_list b \<noteq> []);
          check (fst (hd (m_list b)) \<le> cur);
          if taken
          then do { let b = b\<lparr>m_list := tl (m_list b)\<rparr>;
                    (ev, b) \<leftarrow> next_send cur (m_list b) (m_event b) b;
                    let b = b\<lparr>m_event := ev\<rparr>;
                    Some (retryStalledReq b) }
          else Some (b, False) }"

definition s_trySendTiming :: "tick \<Rightarrow> bool \<Rightarrow> Bridge \<Rightarrow> (Bridge \<times> bool) option" where
  "s_trySendTiming cur taken b =
     do { check (s_list b \<noteq> []);
          check (fst (hd (s_list b)) \<le> cur);
          if taken
          then do { let b = b\<lparr>s_list := tl (s_list b)\<rparr>;
                    check (outstandingResponses b \<noteq> 0);
                    let b = b\<lparr>outstandingResponses := outstandingResponses b - 1\<rparr>;
                    (ev, b) \<leftarrow> next_send cur (s_list b) (s_event b) b;
                    let b = b\<lparr>s_event := ev\<rparr>;
                    if \<not> reqQueueFull b \<and> retryReq b then Some (b\<lparr>retryReq := False\<rparr>, True) else Some (b, False) }
          else Some (b, False) }"

definition m_recvRetry :: "tick \<Rightarrow> bool \<Rightarrow> Bridge \<Rightarrow> (Bridge \<times> bool) option" where
  "m_recvRetry cur taken b =
     do { check (m_list b \<noteq> []);
          if fst (hd (m_list b)) \<le> cur then m_trySendTiming cur taken b
          else do { ev \<leftarrow> schedule cur (m_event b) (fst (hd (m_list b))); Some (b\<lparr>m_event := ev\<rparr>, False) } }"

definition s_recvRetry :: "tick \<Rightarrow> bool \<Rightarrow> Bridge \<Rightarrow> (Bridge \<times> bool) option" where
  "s_recvRetry cur taken b =
     do { check (s_list b \<noteq> []);
          if fst (hd (s_list b)) \<le> cur then s_trySendTiming cur taken b
          else do { ev \<leftarrow> schedule cur (s_event b) (fst (hd (s_list b))); Some (b\<lparr>s_event := ev\<rparr>, False) } }"

definition br_recvAtomic :: "(Packet \<Rightarrow> tick \<times> Packet) \<Rightarrow> Packet \<Rightarrow> Bridge \<Rightarrow> tick \<times> Packet" where
  "br_recvAtomic sendAtomic pk b = (case sendAtomic pk of (lat, pk) \<Rightarrow> (s_delay b * clock b + lat, pk))"

text \<open>A functional access looks at the queued responses, then at the queued requests, then goes on.\<close>

fun br_check :: "(nat \<Rightarrow> byte) \<Rightarrow> (tick \<times> Packet) list \<Rightarrow> Packet \<Rightarrow> (bool \<times> Packet \<times> (tick \<times> Packet) list) option" where
  "br_check u [] p = Some (False, p, [])"
| "br_check u ((w, q) # ds) p =
     do { (found, p, q) \<leftarrow> checkFunctional_pkt u q p;
          if found then do { p \<leftarrow> makeResponse p; Some (True, p, (w, q) # ds) }
          else do { (found, p, ds) \<leftarrow> br_check u ds p; Some (found, p, (w, q) # ds) } }"

definition br_recvFunctional :: "(nat \<Rightarrow> byte) \<Rightarrow> Packet \<Rightarrow> Bridge \<Rightarrow> (bool \<times> Packet \<times> Bridge) option" where
  "br_recvFunctional u p b =
     do { (found, p, ds) \<leftarrow> br_check u (s_list b) p;
          let b = b\<lparr>s_list := ds\<rparr>;
          if found then Some (True, p, b)
          else do { (found, p, ds) \<leftarrow> br_check u (m_list b) p; Some (found, p, b\<lparr>m_list := ds\<rparr>) } }"

subsection \<open>The invariant\<close>

text \<open>
  A port with its queue: an event is scheduled for the first packet, not before its
  tick, unless the peer has refused it and owes a retry.
\<close>

definition port_ok :: "(tick \<times> Packet) list \<Rightarrow> tick option \<Rightarrow> bool \<Rightarrow> nat \<Rightarrow> bool" where
  "port_ok xs ev refused past \<longleftrightarrow>
     (xs = [] \<longrightarrow> ev = None \<and> \<not> refused) \<and> (xs \<noteq> [] \<longrightarrow> (ev = None \<longleftrightarrow> refused))
     \<and> (\<forall>t. ev = Some t \<longrightarrow> fst (hd xs) \<le> t) \<and> (refused \<longrightarrow> unat (fst (hd xs)) \<le> past)"

text \<open>
  The bridge with the request states of its queued requests (\<open>ks\<close>) and of the
  requests that wait for their response (\<open>fl\<close>); \<open>mr\<close> and \<open>sr\<close> say which peer
  owes a retry, and \<open>past\<close> is the tick of the last operation.
\<close>

definition states_ok :: "Bridge \<Rightarrow> nat list \<Rightarrow> nat list \<Rightarrow> bool" where
  "states_ok b ks fl \<longleftrightarrow> map (senderState \<circ> snd) (m_list b) = map (\<lambda>k. Some (OtherState k)) ks \<and> distinct (ks @ fl)
     \<and> (\<forall>k \<in> set (ks @ fl). k < length (req_states b) \<and> (\<exists>orig s. req_states b ! k = Some (orig, s) \<and> s \<noteq> InvalidPortID))"

definition room_ok :: "Bridge \<Rightarrow> nat list \<Rightarrow> bool" where
  "room_ok b fl \<longleftrightarrow> length (m_list b) \<le> unat (reqQueueLimit b)
     \<and> unat (outstandingResponses b) = length (m_list b) + length fl + length (s_list b)
     \<and> unat (outstandingResponses b) \<le> unat (respQueueLimit b)
     \<and> (retryReq b \<longrightarrow> reqQueueFull b \<or> respQueueFull b)"

definition bridge_inv :: "Bridge \<Rightarrow> nat list \<Rightarrow> nat list \<Rightarrow> bool \<Rightarrow> bool \<Rightarrow> nat \<Rightarrow> bool" where
  "bridge_inv b ks fl mr sr past \<longleftrightarrow> clock_ok past b \<and> port_ok (m_list b) (m_event b) mr past
     \<and> port_ok (s_list b) (s_event b) sr past \<and> room_ok b fl \<and> states_ok b ks fl"

text \<open>When an operation can happen: time goes on, no event is overdue, and ticks do not wrap around.\<close>

definition can_run :: "tick \<Rightarrow> nat \<Rightarrow> Bridge \<Rightarrow> bool" where
  "can_run cur past b \<longleftrightarrow> past \<le> unat cur \<and> (\<forall>t. m_event b = Some t \<longrightarrow> cur \<le> t) \<and> (\<forall>t. s_event b = Some t \<longrightarrow> cur \<le> t)
     \<and> unat cur + 2 * unat (clock b) + unat (clock b) * unat (s_delay b) < 2 ^ 64
     \<and> unat cur + 2 * unat (clock b) + unat (clock b) * unat (m_delay b) < 2 ^ 64"

lemma update_more: "ClockedObject.more (update cur b) = ClockedObject.more b"
  by (simp add: update_def Let_def)

lemma update_bridge [simp]:
  fixes b :: Bridge
  shows "m_list (update cur b) = m_list b" "s_list (update cur b) = s_list b" "m_event (update cur b) = m_event b"
    "s_event (update cur b) = s_event b" "outstandingResponses (update cur b) = outstandingResponses b"
    "retryReq (update cur b) = retryReq b" "respQueueLimit (update cur b) = respQueueLimit b"
    "reqQueueLimit (update cur b) = reqQueueLimit b" "req_states (update cur b) = req_states b"
    "s_delay (update cur b) = s_delay b" "m_delay (update cur b) = m_delay b"
  by (simp_all add: update_def Let_def)

lemma clockEdge_future:
  assumes "clock_ok past s" "past \<le> unat cur" "unat cur + 2 * unat (clock s) + unat (clock s) * unat d < 2 ^ 64"
  shows "clockEdge cur d s = (fst (clockEdge cur d s), update cur s)" "cur \<le> fst (clockEdge cur d s)"
proof -
  show "clockEdge cur d s = (fst (clockEdge cur d s), update cur s)" by (simp add: clockEdge_def Let_def)
  have room: "unat cur + 2 * unat (clock s) < 2 ^ 64" using assms(3) by simp
  note u = update_edge [OF assms(1,2) room]
  have p: "0 < unat (clock s)" using assms(1) by (simp add: clock_ok_def)
  note e = edge_cycle_bounds [OF p, of "unat cur"]
  have "unat (clock s * d) = unat (clock s) * unat d" using assms(3) by (intro unat_mult_small) simp
  then have "unat (co_tick (update cur s) + clock s * d) = unat (co_tick (update cur s)) + unat (clock s) * unat d"
    using u(1) e(2) assms(3) by (subst unat_add_small) simp_all
  then show "cur \<le> fst (clockEdge cur d s)"
    using u e(1) by (simp add: clockEdge_def Let_def word_le_nat_alt)
qed

lemma nextCycle_future:
  assumes "clock_ok past s" "past \<le> unat cur" "unat cur + 2 * unat (clock s) < 2 ^ 64"
  shows "nextCycle cur s = (fst (nextCycle cur s), update cur s)" "cur \<le> fst (nextCycle cur s)"
  using clockEdge_future [OF assms(1,2), of 0] assms(3) by (simp_all add: nextCycle_def)

lemma clock_ok_later: "clock_ok past s \<Longrightarrow> past \<le> past' \<Longrightarrow> clock_ok past' s"
  by (simp add: clock_ok_def)

lemma port_ok_later: "port_ok xs ev r past \<Longrightarrow> past \<le> past' \<Longrightarrow> port_ok xs ev r past'"
  by (auto simp: port_ok_def)

text \<open>Appending a packet to a queue, and taking the first one off.\<close>

lemma port_append:
  assumes "port_ok xs ev r past" "past \<le> unat cur" "cur \<le> w"
  obtains ev' where "(if xs = [] then schedule cur ev w else Some ev) = Some ev'" "port_ok (xs @ [(w, pk)]) ev' r (unat cur)"
  using assms by (cases "xs = []") (auto simp: port_ok_def schedule_def)

lemma port_pop:
  assumes "xs \<noteq> []" "cur \<le> n"
  obtains ev' where "schedule cur None (max (fst (hd xs)) n) = Some ev'" "port_ok xs ev' False past"
proof -
  have "cur \<le> max (fst (hd xs)) n" using assms(2) by (simp add: le_max_iff_disj)
  then show ?thesis using that [of "Some (max (fst (hd xs)) n)"] assms(1) by (simp add: schedule_def port_ok_def)
qed

lemma bridge_inv_later:
  assumes "bridge_inv b ks fl mr sr past" "past \<le> past'"
  shows "bridge_inv b ks fl mr sr past'"
  using assms clock_ok_later port_ok_later unfolding bridge_inv_def by blast

text \<open>What the functions that queue a packet leave alone.\<close>

definition same_rest :: "Bridge \<Rightarrow> Bridge \<Rightarrow> bool" where
  "same_rest b b' \<longleftrightarrow> co_tick b' = co_tick b \<and> co_cycle b' = co_cycle b \<and> clock b' = clock b
     \<and> outstandingResponses b' = outstandingResponses b \<and> retryReq b' = retryReq b
     \<and> respQueueLimit b' = respQueueLimit b \<and> reqQueueLimit b' = reqQueueLimit b"

lemma same_rest_clock: "same_rest b b' \<Longrightarrow> clock_ok past b' = clock_ok past b"
  by (simp add: same_rest_def clock_ok_def)

text \<open>A request that is accepted: its state is saved and it waits in the queue.\<close>

lemma schedTimingReq_ok:
  assumes "port_ok (m_list b) (m_event b) mr past" "states_ok b ks fl" "past \<le> unat cur" "cur \<le> w"
    and "length (m_list b) \<noteq> unat (reqQueueLimit b)" "\<not> memInhibitAsserted pk" "needsResponse (cmd pk)" "isSrcValid pk"
  obtains b' where "br_schedTimingReq cur pk w b = Some b'"
    "m_list b' = m_list b @ [(w, pk\<lparr>senderState := Some (OtherState (length (req_states b)))\<rparr>)]"
    "port_ok (m_list b') (m_event b') mr (unat cur)" "states_ok b' (ks @ [length (req_states b)]) fl" "same_rest b b'"
    "s_list b' = s_list b" "s_event b' = s_event b" "req_states b' = req_states b @ [Some (senderState pk, src pk)]"
proof -
  define k where "k = length (req_states b)"
  define pk' where "pk' = pk\<lparr>senderState := Some (OtherState k)\<rparr>"
  obtain ev where ev: "(if m_list b = [] then schedule cur (m_event b) w else Some (m_event b)) = Some ev"
    "port_ok (m_list b @ [(w, pk')]) ev mr (unat cur)" by (rule port_append [OF assms(1,3,4)])
  define b0 where "b0 = b\<lparr>req_states := req_states b @ [Some (senderState pk, src pk)]\<rparr>"
  define b' where "b' = b0\<lparr>m_event := ev, m_list := m_list b0 @ [(w, pk')]\<rparr>"
  have b0: "m_list b0 = m_list b" "m_event b0 = m_event b" "reqQueueLimit b0 = reqQueueLimit b" by (simp_all add: b0_def)
  have "save_state pk b = Some (pk', b0)" using assms(8) by (simp add: save_state_def getSrc_def pk'_def b0_def k_def)
  then have run: "br_schedTimingReq cur pk w b = Some b'"
    using ev(1) assms(5-7) b0 by (cases "m_list b = []") (simp_all add: br_schedTimingReq_def b'_def)
  have f: "req_states b' = req_states b @ [Some (senderState pk, src pk)]" "m_list b' = m_list b @ [(w, pk')]" "m_event b' = ev"
    "same_rest b b'" "s_list b' = s_list b" "s_event b' = s_event b"
    by (simp_all add: b'_def b0_def same_rest_def)
  have old: "map (senderState \<circ> snd) (m_list b) = map (\<lambda>k. Some (OtherState k)) ks" "distinct (ks @ fl)"
    "\<forall>j \<in> set (ks @ fl). j < k \<and> (\<exists>orig s. req_states b ! j = Some (orig, s) \<and> s \<noteq> InvalidPortID)"
    using assms(2) by (simp_all add: states_ok_def k_def)
  have "distinct ((ks @ [k]) @ fl)" using old(2,3) by fastforce
  moreover have "j < length (req_states b') \<and> (\<exists>orig s. req_states b' ! j = Some (orig, s) \<and> s \<noteq> InvalidPortID)"
    if "j \<in> set ((ks @ [k]) @ fl)" for j
  proof (cases "j = k")
    case True
    then show ?thesis using assms(8) unfolding f(1) by (simp add: k_def isSrcValid_def)
  next
    case False
    then have "j \<in> set (ks @ fl)" using that by auto
    then have "j < k" "\<exists>orig s. req_states b ! j = Some (orig, s) \<and> s \<noteq> InvalidPortID" using old(3) by auto
    then show ?thesis unfolding f(1) by (simp add: nth_append k_def)
  qed
  moreover have "map (senderState \<circ> snd) (m_list b') = map (\<lambda>k. Some (OtherState k)) (ks @ [k])"
    unfolding f(2) using old(1) by (simp add: pk'_def)
  ultimately have "states_ok b' (ks @ [k]) fl" unfolding states_ok_def by blast
  then show ?thesis using that run ev(2) f unfolding k_def pk'_def by simp
qed

lemma request_taken:
  assumes inv: "bridge_inv b ks fl mr sr past" and run: "can_run cur past b"
    and pk: "isSrcValid pk" "\<not> memInhibitAsserted pk"
    and taken: "\<not> retryReq b" "\<not> reqQueueFull b" "needsResponse (cmd pk)" "\<not> respQueueFull b"
  shows "\<exists>b'. br_recvTimingReq cur pk b = Some (True, b')
    \<and> (\<exists>w. cur \<le> w \<and> m_list b' = m_list b @ [(w, pk\<lparr>senderState := Some (OtherState (length (req_states b)))\<rparr>)])
    \<and> s_list b' = s_list b \<and> bridge_inv b' (ks @ [length (req_states b)]) fl mr sr (unat cur)
    \<and> req_states b' = req_states b @ [Some (senderState pk, src pk)]"
proof -
  have past: "past \<le> unat cur" using run by (simp add: can_run_def)
  have c: "clock_ok past b" "port_ok (m_list b) (m_event b) mr past" "port_ok (s_list b) (s_event b) sr (unat cur)"
    "room_ok b fl" "states_ok b ks fl" using inv bridge_inv_later [OF inv past] by (simp_all add: bridge_inv_def)
  define b1 where "b1 = update cur (b\<lparr>outstandingResponses := outstandingResponses b + 1, retryReq := False\<rparr>)"
  define w where "w = fst (clockEdge cur (s_delay b) (b\<lparr>outstandingResponses := outstandingResponses b + 1, retryReq := False\<rparr>))"
  have cb: "clock_ok past (b\<lparr>outstandingResponses := outstandingResponses b + 1, retryReq := False\<rparr>)"
    using c(1) by (simp add: clock_ok_def)
  have ce: "clockEdge cur (s_delay b) (b\<lparr>outstandingResponses := outstandingResponses b + 1, retryReq := False\<rparr>) = (w, b1)"
    "cur \<le> w"
    unfolding w_def b1_def using clockEdge_future [OF cb past, of "s_delay b"] run by (simp_all add: can_run_def)
  have ck: "clock_ok (unat cur) b1"
    unfolding b1_def by (rule update_clock_ok [OF cb past]) (use run in \<open>simp add: can_run_def\<close>)
  have same: "m_list b1 = m_list b" "m_event b1 = m_event b" "reqQueueLimit b1 = reqQueueLimit b" "req_states b1 = req_states b"
    "s_list b1 = s_list b" "s_event b1 = s_event b" "outstandingResponses b1 = outstandingResponses b + 1"
    "respQueueLimit b1 = respQueueLimit b" "retryReq b1 = False" by (simp_all add: b1_def)
  have st: "states_ok b1 ks fl" using c(5) same by (simp add: states_ok_def)
  have pm: "port_ok (m_list b1) (m_event b1) mr past" and ln: "length (m_list b1) \<noteq> unat (reqQueueLimit b1)"
    using c(2) same taken(2) by (simp_all add: reqQueueFull_def)
  obtain b2 where r: "br_schedTimingReq cur pk w b1 = Some b2"
    "m_list b2 = m_list b1 @ [(w, pk\<lparr>senderState := Some (OtherState (length (req_states b1)))\<rparr>)]"
    "port_ok (m_list b2) (m_event b2) mr (unat cur)" "states_ok b2 (ks @ [length (req_states b1)]) fl" "same_rest b1 b2"
    "s_list b2 = s_list b1" "s_event b2 = s_event b1" "req_states b2 = req_states b1 @ [Some (senderState pk, src pk)]"
    by (rule schedTimingReq_ok [OF pm st past ce(2) ln pk(2) taken(3) pk(1)])
  have "unat (outstandingResponses b) < unat (respQueueLimit b)"
    using c(4) taken(4) by (simp add: room_ok_def respQueueFull_def word_unat_eq_iff)
  moreover from this have "unat (outstandingResponses b + 1) = unat (outstandingResponses b) + 1"
    using unat_lt_32 [of "respQueueLimit b"] by (subst unat_add_lem [THEN iffD1]) simp_all
  ultimately have "room_ok b2 fl"
    using c(4) taken(2) same r(2,5,6) by (simp add: room_ok_def reqQueueFull_def same_rest_def)
  then have "bridge_inv b2 (ks @ [length (req_states b)]) fl mr sr (unat cur)"
    using ck r(3,4,6,7) c(3) same same_rest_clock [OF r(5)] by (simp add: bridge_inv_def)
  moreover have "br_recvTimingReq cur pk b = Some (True, b2)"
    using taken ce(1) r(1,5) same(9) by (simp add: br_recvTimingReq_def respQueueFull_def same_rest_def)
  moreover have "m_list b2 = m_list b @ [(w, pk\<lparr>senderState := Some (OtherState (length (req_states b)))\<rparr>)]"
    using r(2) same(1,4) by simp
  ultimately show ?thesis using ce(2) r(6,8) same(4,5) by auto
qed

lemma request_ok:
  assumes inv: "bridge_inv b ks fl mr sr past" and run: "can_run cur past b"
    and pk: "isSrcValid pk" "\<not> memInhibitAsserted pk"
  shows "\<exists>ok b'. br_recvTimingReq cur pk b = Some (ok, b')
    \<and> bridge_inv b' (if length (m_list b') = length (m_list b) then ks else ks @ [length (req_states b)]) fl mr sr (unat cur)
    \<and> ok = (\<not> retryReq b \<and> \<not> reqQueueFull b \<and> \<not> (needsResponse (cmd pk) \<and> respQueueFull b)) \<and> retryReq b' = (\<not> ok)"
proof -
  have past: "past \<le> unat cur" using run by (simp add: can_run_def)
  have later: "bridge_inv b ks fl mr sr (unat cur)" by (rule bridge_inv_later [OF inv past])
  consider (stalled) "retryReq b" | (full) "\<not> retryReq b" "reqQueueFull b \<or> needsResponse (cmd pk) \<and> respQueueFull b"
    | (dropped) "\<not> retryReq b" "\<not> reqQueueFull b" "\<not> needsResponse (cmd pk)"
    | (taken) "\<not> retryReq b" "\<not> reqQueueFull b" "needsResponse (cmd pk)" "\<not> respQueueFull b" by blast
  then show ?thesis
  proof cases
    case stalled
    then show ?thesis using later by (auto simp: br_recvTimingReq_def)
  next
    case full
    then have "br_recvTimingReq cur pk b = Some (False, b\<lparr>retryReq := True\<rparr>)" by (auto simp: br_recvTimingReq_def)
    moreover have "bridge_inv (b\<lparr>retryReq := True\<rparr>) ks fl mr sr (unat cur)"
      using later full by (auto simp: bridge_inv_def clock_ok_def room_ok_def states_ok_def reqQueueFull_def respQueueFull_def)
    ultimately show ?thesis using full by auto
  next
    case dropped
    then show ?thesis using later by (auto simp: br_recvTimingReq_def)
  next
    case taken
    then obtain b' where b': "br_recvTimingReq cur pk b = Some (True, b')" "length (m_list b') = Suc (length (m_list b))"
      "bridge_inv b' (ks @ [length (req_states b)]) fl mr sr (unat cur)"
      using request_taken [OF inv run pk] by auto
    have "\<not> retryReq b'" using b'(1) taken(1) by (auto simp: br_recvTimingReq_def bind_eq_Some_conv)
    then show ?thesis using b' taken by (intro exI [of _ True] exI [of _ b']) simp
  qed
qed

lemma next_send_ok:
  assumes "clock_ok past b" "past \<le> unat cur" "unat cur + 2 * unat (clock b) < 2 ^ 64"
  shows "\<exists>ev' b'. next_send cur xs None b = Some (ev', b') \<and> port_ok xs ev' False (unat cur) \<and> clock_ok (unat cur) b'
    \<and> (b' = b \<or> b' = update cur b)"
proof (cases "xs = []")
  case True
  then show ?thesis using clock_ok_later [OF assms(1,2)] by (simp add: next_send_def port_ok_def)
next
  case False
  note n = nextCycle_future [OF assms]
  obtain ev' where ev': "schedule cur None (max (fst (hd xs)) (fst (nextCycle cur b))) = Some ev'" "port_ok xs ev' False (unat cur)"
    by (rule port_pop [OF False n(2)])
  have "next_send cur xs None b = Some (ev', update cur b)"
    unfolding next_send_def using False ev'(1) by (subst n(1)) simp
  then show ?thesis using ev'(2) update_clock_ok [OF assms] by blast
qed

text \<open>Sending the first request: it waits for its response, or for a retry.\<close>

lemma m_send_ok:
  assumes inv: "bridge_inv (b\<lparr>m_event := ev\<rparr>) ks fl mr sr past" and run: "can_run cur past (b\<lparr>m_event := ev\<rparr>)"
    and ready: "m_list b \<noteq> []" "fst (hd (m_list b)) \<le> cur" "m_event b = None"
  shows "\<exists>b' retry. m_trySendTiming cur taken b = Some (b', retry)
    \<and> (if taken then bridge_inv b' (tl ks) (hd ks # fl) False sr (unat cur) else bridge_inv b' ks fl True sr (unat cur))
    \<and> retry = (taken \<and> retryReq b) \<and> retryReq b' = (retryReq b \<and> \<not> taken)"
proof -
  have past: "past \<le> unat cur" using run by (simp add: can_run_def)
  note later = bridge_inv_later [OF inv past]
  have c: "clock_ok past b" "port_ok (s_list b) (s_event b) sr (unat cur)" "room_ok b fl" "states_ok b ks fl"
    using inv later by (simp_all add: bridge_inv_def clock_ok_def room_ok_def states_ok_def reqQueueFull_def respQueueFull_def)
  obtain x xs where x: "m_list b = x # xs" using ready(1) by (cases "m_list b") auto
  obtain k ks' where k: "ks = k # ks'" using c(4) x by (cases ks) (auto simp: states_ok_def)
  show ?thesis
  proof (cases taken)
    case False
    have "bridge_inv b ks fl True sr (unat cur)"
      using c later ready by (simp add: bridge_inv_def port_ok_def word_le_nat_alt clock_ok_later [OF c(1) past])
    then show ?thesis using False ready by (auto simp: m_trySendTiming_def)
  next
    case True
    define b1 where "b1 = b\<lparr>m_list := xs\<rparr>"
    have cb: "clock_ok past b1" using c(1) by (simp add: b1_def clock_ok_def)
    obtain ev' b2 where n: "next_send cur xs None b1 = Some (ev', b2)" "port_ok xs ev' False (unat cur)"
      "clock_ok (unat cur) b2" "b2 = b1 \<or> b2 = update cur b1"
      using next_send_ok [OF cb past, of xs] run by (auto simp: can_run_def b1_def)
    have b2: "m_list b2 = xs" "s_list b2 = s_list b" "s_event b2 = s_event b" "outstandingResponses b2 = outstandingResponses b"
      "respQueueLimit b2 = respQueueLimit b" "reqQueueLimit b2 = reqQueueLimit b" "req_states b2 = req_states b"
      "retryReq b2 = retryReq b" using n(4) by (auto simp: b1_def)
    define b3 where "b3 = b2\<lparr>m_event := ev', retryReq := False\<rparr>"
    have "states_ok b3 ks' (k # fl)" using c(4) b2(1,7) x k by (auto simp: states_ok_def b3_def)
    moreover have "room_ok b3 (k # fl)" using c(3) b2 x by (simp add: b3_def room_ok_def)
    ultimately have "bridge_inv b3 ks' (k # fl) False sr (unat cur)"
      using b2 n(2,3) c(2) by (simp add: bridge_inv_def b3_def clock_ok_def)
    moreover have "retryStalledReq (b2\<lparr>m_event := ev'\<rparr>) = (b3, retryReq b2)" by (simp add: retryStalledReq_def b3_def)
    moreover have "m_trySendTiming cur taken b = Some (retryStalledReq (b2\<lparr>m_event := ev'\<rparr>))"
      using True ready x n(1) by (simp add: m_trySendTiming_def b1_def)
    moreover have "\<not> retryReq b3" by (simp add: b3_def)
    ultimately show ?thesis using True k b2(8) by simp
  qed
qed

text \<open>A response comes back: its request state is taken out and it waits for the sender.\<close>

lemma response_ok:
  assumes inv: "bridge_inv b ks fl mr sr past" and run: "can_run cur past b"
    and pk: "senderState pk = Some (OtherState k)" "k \<in> set fl"
  shows "\<exists>b'. br_recvTimingResp cur pk b = Some (True, b') \<and> bridge_inv b' ks (remove1 k fl) mr sr (unat cur) \<and> retryReq b' = retryReq b"
proof -
  have past: "past \<le> unat cur" using run by (simp add: can_run_def)
  note later = bridge_inv_later [OF inv past]
  have c: "clock_ok past b" "port_ok (m_list b) (m_event b) mr (unat cur)" "port_ok (s_list b) (s_event b) sr past" "room_ok b fl"
    "states_ok b ks fl" using inv later by (simp_all add: bridge_inv_def)
  obtain orig src' where st: "k < length (req_states b)" "req_states b ! k = Some (orig, src')" "src' \<noteq> InvalidPortID"
    using c(5) pk(2) unfolding states_ok_def by (metis Un_iff set_append)
  have room: "unat cur + 2 * unat (clock b) + unat (clock b) * unat (m_delay b) < 2 ^ 64" using run by (simp add: can_run_def)
  define w where "w = fst (clockEdge cur (m_delay b) b)"
  have ce: "clockEdge cur (m_delay b) b = (w, update cur b)" "cur \<le> w"
    unfolding w_def using clockEdge_future [OF c(1) past room] by simp_all
  have ck: "clock_ok (unat cur) (update cur b)" by (rule update_clock_ok [OF c(1) past]) (use room in simp)
  define pk' where "pk' = (setDest src' pk)\<lparr>senderState := orig\<rparr>"
  define b1 where "b1 = (update cur b)\<lparr>req_states := (req_states b)[k := None]\<rparr>"
  have fixed: "fixResponse pk (update cur b) = Some (pk', b1)"
    using pk(1) st by (simp add: fixResponse_def pk'_def b1_def)
  have b1: "s_list b1 = s_list b" "s_event b1 = s_event b" by (simp_all add: b1_def)
  obtain ev where ev: "(if s_list b = [] then schedule cur (s_event b) w else Some (s_event b)) = Some ev"
    "port_ok (s_list b @ [(w, pk')]) ev sr (unat cur)" by (rule port_append [OF c(3) past ce(2)])
  define b2 where "b2 = b1\<lparr>s_event := ev, s_list := s_list b1 @ [(w, pk')]\<rparr>"
  have "isDestValid pk'" using st(3) by (simp add: pk'_def setDest_def isDestValid_def)
  then have "br_recvTimingResp cur pk b = Some (True, b2)"
    using ce(1) fixed ev(1) b1
    by (cases "s_list b = []") (simp_all add: br_recvTimingResp_def br_schedTimingResp_def b2_def)
  moreover have f: "m_list b2 = m_list b" "m_event b2 = m_event b" "s_list b2 = s_list b @ [(w, pk')]" "s_event b2 = ev"
    "outstandingResponses b2 = outstandingResponses b" "retryReq b2 = retryReq b" "respQueueLimit b2 = respQueueLimit b"
    "reqQueueLimit b2 = reqQueueLimit b" "req_states b2 = (req_states b)[k := None]" "clock_ok (unat cur) b2"
    using ck by (simp_all add: b2_def b1_def clock_ok_def)
  have "length fl = Suc (length (remove1 k fl))" using pk(2) length_pos_if_in_set [OF pk(2)] by (simp add: length_remove1)
  then have "room_ok b2 (remove1 k fl)"
    using c(4) unfolding room_ok_def reqQueueFull_def respQueueFull_def f by simp
  moreover have "states_ok b2 ks (remove1 k fl)"
  proof -
    have d: "distinct (ks @ fl)" using c(5) by (simp add: states_ok_def)
    then have "k \<notin> set (ks @ remove1 k fl)" "distinct (ks @ remove1 k fl)" using pk(2) by auto
    moreover have "\<forall>j \<in> set (ks @ remove1 k fl). j \<in> set (ks @ fl)" using d by auto
    ultimately show ?thesis
      using c(5) unfolding states_ok_def f by (metis length_list_update nth_list_update_neq)
  qed
  ultimately show ?thesis using c(2) ev(2) by (auto simp: bridge_inv_def f)
qed

text \<open>Sending the first response frees its room.\<close>

lemma s_send_ok:
  assumes inv: "bridge_inv (b\<lparr>s_event := ev\<rparr>) ks fl mr sr past" and run: "can_run cur past (b\<lparr>s_event := ev\<rparr>)"
    and ready: "s_list b \<noteq> []" "fst (hd (s_list b)) \<le> cur" "s_event b = None"
  shows "\<exists>b' retry. s_trySendTiming cur taken b = Some (b', retry) \<and> bridge_inv b' ks fl mr (\<not> taken) (unat cur)
    \<and> retry = (taken \<and> retryReq b \<and> \<not> reqQueueFull b) \<and> retryReq b' = (retryReq b \<and> \<not> retry)"
proof -
  have past: "past \<le> unat cur" using run by (simp add: can_run_def)
  note later = bridge_inv_later [OF inv past]
  have c: "clock_ok past b" "port_ok (m_list b) (m_event b) mr (unat cur)" "room_ok b fl" "states_ok b ks fl"
    using inv later by (simp_all add: bridge_inv_def clock_ok_def room_ok_def states_ok_def reqQueueFull_def respQueueFull_def)
  obtain x xs where x: "s_list b = x # xs" using ready(1) by (cases "s_list b") auto
  show ?thesis
  proof (cases taken)
    case False
    have "bridge_inv b ks fl mr True (unat cur)"
      using c later ready by (simp add: bridge_inv_def port_ok_def word_le_nat_alt clock_ok_later [OF c(1) past])
    then show ?thesis using False ready by (auto simp: s_trySendTiming_def)
  next
    case True
    define b1 where "b1 = b\<lparr>s_list := xs, outstandingResponses := outstandingResponses b - 1\<rparr>"
    have nz: "outstandingResponses b \<noteq> 0" using c(3) x by (auto simp: room_ok_def)
    then have u: "unat (outstandingResponses b - 1) = unat (outstandingResponses b) - 1" by (rule unat_minus_one)
    have cb: "clock_ok past b1" using c(1) by (simp add: b1_def clock_ok_def)
    obtain ev' b2 where n: "next_send cur xs None b1 = Some (ev', b2)" "port_ok xs ev' False (unat cur)"
      "clock_ok (unat cur) b2" "b2 = b1 \<or> b2 = update cur b1"
      using next_send_ok [OF cb past, of xs] run by (auto simp: can_run_def b1_def)
    have b2: "s_list b2 = xs" "m_list b2 = m_list b" "m_event b2 = m_event b" "outstandingResponses b2 = outstandingResponses b - 1"
      "respQueueLimit b2 = respQueueLimit b" "reqQueueLimit b2 = reqQueueLimit b" "req_states b2 = req_states b"
      "retryReq b2 = retryReq b" using n(4) by (auto simp: b1_def)
    define b3 where "b3 = b2\<lparr>s_event := ev', retryReq := retryReq b \<and> reqQueueFull b\<rparr>"
    have "states_ok b3 ks fl" using c(4) b2(2,7) by (simp add: states_ok_def b3_def)
    moreover have "room_ok b3 fl" using c(3) b2 x u by (simp add: b3_def room_ok_def reqQueueFull_def)
    ultimately have "bridge_inv b3 ks fl mr False (unat cur)"
      using b2 n(2,3) c(2) by (simp add: bridge_inv_def b3_def clock_ok_def)
    moreover have "b3 = (if \<not> reqQueueFull b2 \<and> retryReq b2 then b2\<lparr>s_event := ev', retryReq := False\<rparr> else b2\<lparr>s_event := ev'\<rparr>)"
      unfolding b3_def using b2(2,6,8) by (cases "retryReq b2"; cases "reqQueueFull b2") (simp_all add: reqQueueFull_def)
    then have "s_trySendTiming cur taken b = Some (b3, \<not> reqQueueFull b2 \<and> retryReq b2)"
      using True ready x n(1) nz by (simp add: s_trySendTiming_def b1_def Let_def reqQueueFull_def)
    moreover have "retryReq b3 = (retryReq b \<and> reqQueueFull b)" "reqQueueFull b2 = reqQueueFull b"
      using b2(2,6) by (simp_all add: b3_def reqQueueFull_def)
    ultimately show ?thesis using True b2(8) by auto
  qed
qed

subsection \<open>Runs\<close>

text \<open>
  What can happen to a bridge: a sender offers a request, the event of a port runs
  at its tick, a peer that has refused a packet asks for it again, and the response
  of a request that was sent on comes back.  The flag says whether the peer takes
  the packet that it is offered.
\<close>

datatype bridge_op = Offer Packet | SendRequest bool | SendResponse bool | RetryRequest bool | RetryResponse bool | Answer Packet

datatype bridge_out = Accepted | Refused | RetrySent | Quiet

definition answer :: "bool \<times> Bridge \<Rightarrow> Bridge \<times> bridge_out" where
  "answer r = (snd r, if fst r then Accepted else Refused)"

definition departure :: "Bridge \<times> bool \<Rightarrow> Bridge \<times> bridge_out" where
  "departure r = (fst r, if snd r then RetrySent else Quiet)"

fun bridge_do :: "tick \<Rightarrow> bridge_op \<Rightarrow> Bridge \<Rightarrow> (Bridge \<times> bridge_out) option" where
  "bridge_do cur (Offer pk) b = map_option answer (br_recvTimingReq cur pk b)"
| "bridge_do cur (SendRequest taken) b = map_option departure (m_trySendTiming cur taken (b\<lparr>m_event := None\<rparr>))"
| "bridge_do cur (SendResponse taken) b = map_option departure (s_trySendTiming cur taken (b\<lparr>s_event := None\<rparr>))"
| "bridge_do cur (RetryRequest taken) b = map_option departure (m_recvRetry cur taken b)"
| "bridge_do cur (RetryResponse taken) b = map_option departure (s_recvRetry cur taken b)"
| "bridge_do cur (Answer pk) b = map_option answer (br_recvTimingResp cur pk b)"

text \<open>
  When the environment does it, and what it then knows: the request states of the
  requests queued and in flight, which peers owe a retry, and whether a sender was
  refused and has not been told to try again since.
\<close>

record bridge_env =
  queued :: "nat list"
  flying :: "nat list"
  req_refused :: bool
  resp_refused :: bool
  stalled :: bool
  now :: nat

fun may_do :: "tick \<Rightarrow> bridge_op \<Rightarrow> Bridge \<Rightarrow> bridge_env \<Rightarrow> bool" where
  "may_do cur (Offer pk) b g = (isSrcValid pk \<and> \<not> memInhibitAsserted pk)"
| "may_do cur (SendRequest taken) b g = (m_event b = Some cur)"
| "may_do cur (SendResponse taken) b g = (s_event b = Some cur)"
| "may_do cur (RetryRequest taken) b g = req_refused g"
| "may_do cur (RetryResponse taken) b g = resp_refused g"
| "may_do cur (Answer pk) b g = (\<exists>k \<in> set (flying g). senderState pk = Some (OtherState k))"

fun sent :: "bool \<Rightarrow> bridge_env \<Rightarrow> bridge_env" where
  "sent True g = g\<lparr>queued := tl (queued g), flying := hd (queued g) # flying g, req_refused := False\<rparr>"
| "sent False g = g\<lparr>req_refused := True\<rparr>"

fun learn :: "bridge_op \<Rightarrow> Bridge \<Rightarrow> Bridge \<Rightarrow> bridge_env \<Rightarrow> bridge_env" where
  "learn (Offer pk) b b' g = (if length (m_list b') = length (m_list b) then g else g\<lparr>queued := queued g @ [length (req_states b)]\<rparr>)"
| "learn (SendRequest taken) b b' g = sent taken g"
| "learn (SendResponse taken) b b' g = g\<lparr>resp_refused := \<not> taken\<rparr>"
| "learn (RetryRequest taken) b b' g = sent taken g"
| "learn (RetryResponse taken) b b' g = g\<lparr>resp_refused := \<not> taken\<rparr>"
| "learn (Answer pk) b b' g =
     (case senderState pk of Some (OtherState k) \<Rightarrow> g\<lparr>flying := remove1 k (flying g)\<rparr> | _ \<Rightarrow> g)"

fun hears :: "bridge_out \<Rightarrow> bool \<Rightarrow> bool" where
  "hears Refused w = True"
| "hears RetrySent w = False"
| "hears Accepted w = w"
| "hears Quiet w = w"

definition env0 :: bridge_env where
  "env0 = \<lparr>queued = [], flying = [], req_refused = False, resp_refused = False, stalled = False, now = 0\<rparr>"

inductive bridge_reach :: "Bridge \<Rightarrow> Bridge \<Rightarrow> bridge_env \<Rightarrow> bool" for b0 where
  start: "bridge_reach b0 b0 env0"
| step: "bridge_reach b0 b g \<Longrightarrow> can_run cur (now g) b \<Longrightarrow> may_do cur x b g \<Longrightarrow> bridge_do cur x b = Some (b', out)
    \<Longrightarrow> bridge_reach b0 b' ((learn x b b' g)\<lparr>stalled := hears out (stalled g), now := unat cur\<rparr>)"

definition env_inv :: "Bridge \<Rightarrow> bridge_env \<Rightarrow> bool" where
  "env_inv b g \<longleftrightarrow> bridge_inv b (queued g) (flying g) (req_refused g) (resp_refused g) (now g) \<and> retryReq b = stalled g"

text \<open>The operations that make room: a request leaves, or a response leaves while the request queue has room.\<close>

fun makes_room :: "bridge_op \<Rightarrow> Bridge \<Rightarrow> bool" where
  "makes_room (SendRequest taken) b = taken"
| "makes_room (RetryRequest taken) b = taken"
| "makes_room (SendResponse taken) b = (taken \<and> length (m_list b) \<noteq> unat (reqQueueLimit b))"
| "makes_room (RetryResponse taken) b = (taken \<and> length (m_list b) \<noteq> unat (reqQueueLimit b))"
| "makes_room (Offer pk) b = False"
| "makes_room (Answer pk) b = False"

lemma port_event_due: "port_ok xs (Some cur) r past \<Longrightarrow> xs \<noteq> [] \<and> fst (hd xs) \<le> cur \<and> \<not> r"
  by (auto simp: port_ok_def)

lemma port_refused_due: "port_ok xs ev True past \<Longrightarrow> past \<le> unat cur \<Longrightarrow> xs \<noteq> [] \<and> fst (hd xs) \<le> cur \<and> ev = None"
  by (auto simp: port_ok_def word_le_nat_alt)

lemma send_env:
  assumes "if taken then bridge_inv b' (tl (queued g)) (hd (queued g) # flying g) False (resp_refused g) t
     else bridge_inv b' (queued g) (flying g) True (resp_refused g) t" "retryReq b' = w"
  shows "env_inv b' ((sent taken g)\<lparr>stalled := w, now := t\<rparr>)"
  using assms by (cases taken) (simp_all add: env_inv_def)

text \<open>Both ways to send a request, and both to send a response.\<close>

lemma send_request_ok:
  assumes "env_inv b g" "can_run cur (now g) b" "m_event b = Some cur \<or> req_refused g"
  shows "\<exists>b'. m_trySendTiming cur taken (b\<lparr>m_event := None\<rparr>) = Some (b', taken \<and> stalled g)
    \<and> env_inv b' ((sent taken g)\<lparr>stalled := stalled g \<and> \<not> taken, now := unat cur\<rparr>)"
proof -
  have p: "port_ok (m_list b) (m_event b) (req_refused g) (now g)" "now g \<le> unat cur" "retryReq b = stalled g"
    using assms(1,2) by (simp_all add: env_inv_def bridge_inv_def can_run_def)
  have due: "m_list b \<noteq> [] \<and> fst (hd (m_list b)) \<le> cur"
    using assms(3) p port_event_due [of "m_list b" cur] port_refused_due [OF _ p(2), of "m_list b"] by fastforce
  have "(b\<lparr>m_event := None\<rparr>)\<lparr>m_event := m_event b\<rparr> = b" by simp
  then obtain b' where r: "m_trySendTiming cur taken (b\<lparr>m_event := None\<rparr>) = Some (b', taken \<and> stalled g)"
    "if taken then bridge_inv b' (tl (queued g)) (hd (queued g) # flying g) False (resp_refused g) (unat cur)
     else bridge_inv b' (queued g) (flying g) True (resp_refused g) (unat cur)" "retryReq b' = (stalled g \<and> \<not> taken)"
    using m_send_ok [where b = "b\<lparr>m_event := None\<rparr>" and ev = "m_event b" and ks = "queued g" and fl = "flying g"
        and mr = "req_refused g" and sr = "resp_refused g" and past = "now g" and cur = cur and taken = taken]
      assms(1,2) due p(3) by (auto simp: env_inv_def)
  show ?thesis using r(1) send_env [OF r(2,3)] by blast
qed

lemma send_response_ok:
  assumes "env_inv b g" "can_run cur (now g) b" "s_event b = Some cur \<or> resp_refused g"
    and room_def: "room = (taken \<and> stalled g \<and> length (m_list b) \<noteq> unat (reqQueueLimit b))"
  shows "\<exists>b'. s_trySendTiming cur taken (b\<lparr>s_event := None\<rparr>) = Some (b', room)
    \<and> env_inv b' (g\<lparr>resp_refused := \<not> taken, stalled := stalled g \<and> \<not> room, now := unat cur\<rparr>)"
proof -
  have p: "port_ok (s_list b) (s_event b) (resp_refused g) (now g)" "now g \<le> unat cur" "retryReq b = stalled g"
    using assms(1,2) by (simp_all add: env_inv_def bridge_inv_def can_run_def)
  have due: "s_list b \<noteq> [] \<and> fst (hd (s_list b)) \<le> cur"
    using assms(3) p port_event_due [of "s_list b" cur] port_refused_due [OF _ p(2), of "s_list b"] by fastforce
  have "(b\<lparr>s_event := None\<rparr>)\<lparr>s_event := s_event b\<rparr> = b" by simp
  then show ?thesis
    using s_send_ok [where b = "b\<lparr>s_event := None\<rparr>" and ev = "s_event b" and ks = "queued g" and fl = "flying g"
        and mr = "req_refused g" and sr = "resp_refused g" and past = "now g" and cur = cur and taken = taken]
      assms(1,2) due p(3) by (auto simp: env_inv_def room_def reqQueueFull_def)
qed

lemma retry_is_send:
  assumes "env_inv b g" "can_run cur (now g) b"
  shows "req_refused g \<Longrightarrow> m_recvRetry cur taken b = m_trySendTiming cur taken (b\<lparr>m_event := None\<rparr>)"
    and "resp_refused g \<Longrightarrow> s_recvRetry cur taken b = s_trySendTiming cur taken (b\<lparr>s_event := None\<rparr>)"
proof -
  have p: "port_ok (m_list b) (m_event b) (req_refused g) (now g)" "port_ok (s_list b) (s_event b) (resp_refused g) (now g)"
    "now g \<le> unat cur" using assms by (simp_all add: env_inv_def bridge_inv_def can_run_def)
  show "m_recvRetry cur taken b = m_trySendTiming cur taken (b\<lparr>m_event := None\<rparr>)" if "req_refused g"
  proof -
    have d: "m_list b \<noteq> []" "fst (hd (m_list b)) \<le> cur" "m_event b = None"
      using port_refused_due [OF _ p(3)] p(1) that by auto
    then have "b\<lparr>m_event := None\<rparr> = b" by simp
    then show ?thesis using d(1,2) by (simp add: m_recvRetry_def)
  qed
  show "s_recvRetry cur taken b = s_trySendTiming cur taken (b\<lparr>s_event := None\<rparr>)" if "resp_refused g"
  proof -
    have d: "s_list b \<noteq> []" "fst (hd (s_list b)) \<le> cur" "s_event b = None"
      using port_refused_due [OF _ p(3)] p(2) that by auto
    then have "b\<lparr>s_event := None\<rparr> = b" by simp
    then show ?thesis using d(1,2) by (simp add: s_recvRetry_def)
  qed
qed

lemma hears_flag:
  "hears (if r then RetrySent else Quiet) w = (w \<and> \<not> r)" "hears (if ok then Accepted else Refused) w = (w \<or> \<not> ok)"
  by simp_all

lemma bridge_step_ok:
  assumes inv: "env_inv b g" and run: "can_run cur (now g) b" and may: "may_do cur x b g"
  shows "\<exists>b' out. bridge_do cur x b = Some (b', out) \<and> (out = RetrySent \<longleftrightarrow> stalled g \<and> makes_room x b)
    \<and> (out = Refused \<longleftrightarrow> (\<exists>pk. x = Offer pk \<and> (stalled g \<or> reqQueueFull b \<or> needsResponse (cmd pk) \<and> respQueueFull b)))
    \<and> env_inv b' ((learn x b b' g)\<lparr>stalled := hears out (stalled g), now := unat cur\<rparr>)"
proof -
  have bi: "bridge_inv b (queued g) (flying g) (req_refused g) (resp_refused g) (now g)" and w: "retryReq b = stalled g"
    using inv by (simp_all add: env_inv_def)
  have depart: ?thesis if "bridge_do cur x b = map_option departure (Some (b', r))" "r = (stalled g \<and> makes_room x b)"
    "env_inv b' ((learn x b b' g)\<lparr>stalled := stalled g \<and> \<not> r, now := unat cur\<rparr>)" "\<forall>pk. x \<noteq> Offer pk" for b' r
    using that by (intro exI [of _ b'] exI [of _ "if r then RetrySent else Quiet"]) (auto simp: departure_def)
  show ?thesis
  proof (cases x)
    case (Offer pk)
    then obtain ok b' where r: "br_recvTimingReq cur pk b = Some (ok, b')"
      "bridge_inv b' (if length (m_list b') = length (m_list b) then queued g else queued g @ [length (req_states b)]) (flying g)
         (req_refused g) (resp_refused g) (unat cur)"
      "ok = (\<not> stalled g \<and> \<not> reqQueueFull b \<and> \<not> (needsResponse (cmd pk) \<and> respQueueFull b))" "retryReq b' = (\<not> ok)"
      using request_ok [OF bi run, of pk] may w by auto
    have "env_inv b' ((learn x b b' g)\<lparr>stalled := \<not> ok, now := unat cur\<rparr>)"
      using r(2,4) Offer by (simp add: env_inv_def split: if_splits)
    moreover have "hears (if ok then Accepted else Refused) (stalled g) = (\<not> ok)" using r(3) by simp
    ultimately show ?thesis using r(1,3) Offer by (auto simp: answer_def)
  next
    case (Answer pk)
    then obtain k where k: "k \<in> set (flying g)" "senderState pk = Some (OtherState k)" using may by auto
    then obtain b' where b': "br_recvTimingResp cur pk b = Some (True, b')" "retryReq b' = retryReq b"
      "bridge_inv b' (queued g) (remove1 k (flying g)) (req_refused g) (resp_refused g) (unat cur)"
      using response_ok [OF bi run k(2,1)] by blast
    then show ?thesis using Answer w k(2) by (intro exI [of _ b'] exI [of _ Accepted]) (simp add: env_inv_def answer_def)
  next
    case (SendRequest taken)
    obtain b' where "m_trySendTiming cur taken (b\<lparr>m_event := None\<rparr>) = Some (b', taken \<and> stalled g)"
      "env_inv b' ((sent taken g)\<lparr>stalled := stalled g \<and> \<not> taken, now := unat cur\<rparr>)"
      using send_request_ok [OF inv run, of taken] may SendRequest by auto
    then show ?thesis using SendRequest by (intro depart [of b' "taken \<and> stalled g"]) (cases taken; simp)+
  next
    case (RetryRequest taken)
    obtain b' where "m_recvRetry cur taken b = Some (b', taken \<and> stalled g)"
      "env_inv b' ((sent taken g)\<lparr>stalled := stalled g \<and> \<not> taken, now := unat cur\<rparr>)"
      using send_request_ok [OF inv run, of taken] retry_is_send(1) [OF inv run, of taken] may RetryRequest by auto
    then show ?thesis using RetryRequest by (intro depart [of b' "taken \<and> stalled g"]) (cases taken; simp)+
  next
    case (SendResponse taken)
    define room where "room = (taken \<and> stalled g \<and> length (m_list b) \<noteq> unat (reqQueueLimit b))"
    obtain b' where "s_trySendTiming cur taken (b\<lparr>s_event := None\<rparr>) = Some (b', room)"
      "env_inv b' (g\<lparr>resp_refused := \<not> taken, stalled := stalled g \<and> \<not> room, now := unat cur\<rparr>)"
      using send_response_ok [OF inv run _ room_def] may SendResponse by auto
    then show ?thesis using SendResponse by (intro depart [of b' room]) (auto simp: room_def)
  next
    case (RetryResponse taken)
    define room where "room = (taken \<and> stalled g \<and> length (m_list b) \<noteq> unat (reqQueueLimit b))"
    obtain b' where "s_recvRetry cur taken b = Some (b', room)"
      "env_inv b' (g\<lparr>resp_refused := \<not> taken, stalled := stalled g \<and> \<not> room, now := unat cur\<rparr>)"
      using send_response_ok [OF inv run _ room_def] retry_is_send(2) [OF inv run, of taken] may RetryResponse by auto
    then show ?thesis using RetryResponse by (intro depart [of b' room]) (auto simp: room_def)
  qed
qed

lemma bridge_start: "0 < period \<Longrightarrow> env_inv (Bridge_new period d rs qs rg) env0"
  by (simp add: env_inv_def bridge_inv_def Bridge_new_def Let_def clock_ok_def port_ok_def room_ok_def states_ok_def word_less_nat_alt env0_def)

lemma bridge_reach_inv:
  assumes "0 < period" "bridge_reach (Bridge_new period d rs qs rg) b g"
  shows "env_inv b g"
  using assms(2)
proof induction
  case start
  show ?case by (rule bridge_start [OF assms(1)])
next
  case (step b g cur x b' out)
  then show ?case using bridge_step_ok [of b g cur x] by auto
qed

text \<open>
  C14: A bridge whose requests are not inhibited never overflows and never forgets a
  sender. In every reachable state the queues are within their limits and the reserved
  responses are exactly those queued, in flight or waiting to be sent; a sender that was
  refused and not yet told to try again has a full request queue or no free room for a
  response ahead of it, and with limits above zero something that will leave. Every
  event, retry, request and response that can come then is handled without a failed
  assertion: it sends the retry exactly when a sender waits and a request leaves, or a
  response leaves while the request queue has room, and it refuses a request exactly
  when a sender waits already, the request queue is full, or a response is needed and
  all room is reserved.
\<close>

theorem bridge_safe:
  assumes "0 < period" "bridge_reach (Bridge_new period d rs qs rg) b g"
  shows "length (m_list b) \<le> unat (reqQueueLimit b) \<and> length (s_list b) \<le> unat (respQueueLimit b)
    \<and> unat (outstandingResponses b) = length (m_list b) + length (flying g) + length (s_list b)
    \<and> (stalled g \<longrightarrow> length (m_list b) = unat (reqQueueLimit b) \<or> outstandingResponses b = respQueueLimit b)
    \<and> (stalled g \<and> 0 < reqQueueLimit b \<and> 0 < respQueueLimit b \<longrightarrow> m_list b \<noteq> [] \<or> flying g \<noteq> [] \<or> s_list b \<noteq> [])
    \<and> (\<forall>cur x. can_run cur (now g) b \<longrightarrow> may_do cur x b g \<longrightarrow>
        (\<exists>b' out. bridge_do cur x b = Some (b', out) \<and> (out = RetrySent \<longleftrightarrow> stalled g \<and> makes_room x b)
          \<and> (out = Refused \<longleftrightarrow> (\<exists>pk. x = Offer pk \<and> (stalled g \<or> length (m_list b) = unat (reqQueueLimit b)
               \<or> needsResponse (cmd pk) \<and> outstandingResponses b = respQueueLimit b)))))"
proof -
  have inv: "env_inv b g" by (rule bridge_reach_inv [OF assms])
  then have room: "room_ok b (flying g)" and w: "retryReq b = stalled g" by (simp_all add: env_inv_def bridge_inv_def)
  have "m_list b \<noteq> [] \<or> flying g \<noteq> [] \<or> s_list b \<noteq> []" if "stalled g" "0 < reqQueueLimit b" "0 < respQueueLimit b"
  proof -
    have "0 < unat (reqQueueLimit b)" "0 < unat (respQueueLimit b)" using that(2,3) by (simp_all add: word_less_nat_alt)
    then show ?thesis using room w that(1) by (auto simp: room_ok_def reqQueueFull_def respQueueFull_def)
  qed
  then show ?thesis
    using bridge_step_ok [OF inv] room w unfolding room_ok_def reqQueueFull_def respQueueFull_def by fastforce
qed

text \<open>
  C34: While no sender is being held back and the request queue has room, a packet that
  needs no response, such as a writeback, is accepted by a bridge but dropped: the
  bridge is unchanged. In a reachable state with room for a response, a request that
  needs one, with a source and not inhibited, is accepted and waits at the end of the
  request queue, its sender state replaced by a new record that keeps the old one and
  the source port, and one more response is reserved.
\<close>

theorem bridge_drops_writebacks:
  assumes "\<not> retryReq b" "length (m_list b) \<noteq> unat (reqQueueLimit b)"
  shows "(\<not> needsResponse (cmd pk) \<longrightarrow> br_recvTimingReq cur pk b = Some (True, b))
    \<and> (needsResponse (cmd pk) \<and> isSrcValid pk \<and> \<not> memInhibitAsserted pk \<and> outstandingResponses b \<noteq> respQueueLimit b
        \<and> 0 < period \<and> bridge_reach (Bridge_new period d rs qs rg) b g \<and> can_run cur (now g) b
       \<longrightarrow> (\<exists>b' w. br_recvTimingReq cur pk b = Some (True, b') \<and> cur \<le> w
         \<and> m_list b' = m_list b @ [(w, pk\<lparr>senderState := Some (OtherState (length (req_states b)))\<rparr>)]
         \<and> req_states b' = req_states b @ [Some (senderState pk, src pk)]
         \<and> unat (outstandingResponses b') = unat (outstandingResponses b) + 1))"
proof (intro conjI impI)
  show "br_recvTimingReq cur pk b = Some (True, b)" if "\<not> needsResponse (cmd pk)"
    using that assms by (simp add: br_recvTimingReq_def reqQueueFull_def)
next
  assume a: "needsResponse (cmd pk) \<and> isSrcValid pk \<and> \<not> memInhibitAsserted pk \<and> outstandingResponses b \<noteq> respQueueLimit b
        \<and> 0 < period \<and> bridge_reach (Bridge_new period d rs qs rg) b g \<and> can_run cur (now g) b"
  then have inv: "bridge_inv b (queued g) (flying g) (req_refused g) (resp_refused g) (now g)"
    using bridge_reach_inv [of period d rs qs rg b g] a by (simp add: env_inv_def)
  obtain b' w where r: "br_recvTimingReq cur pk b = Some (True, b')" "cur \<le> w"
    "m_list b' = m_list b @ [(w, pk\<lparr>senderState := Some (OtherState (length (req_states b)))\<rparr>)]"
    "bridge_inv b' (queued g @ [length (req_states b)]) (flying g) (req_refused g) (resp_refused g) (unat cur)"
    "s_list b' = s_list b" "req_states b' = req_states b @ [Some (senderState pk, src pk)]"
    using request_taken [OF inv, of cur pk] a assms by (auto simp: reqQueueFull_def respQueueFull_def)
  have "unat (outstandingResponses b') = unat (outstandingResponses b) + 1"
    using inv r(3-5) by (simp add: bridge_inv_def room_ok_def)
  then show "\<exists>b' w. br_recvTimingReq cur pk b = Some (True, b') \<and> cur \<le> w
         \<and> m_list b' = m_list b @ [(w, pk\<lparr>senderState := Some (OtherState (length (req_states b)))\<rparr>)]
         \<and> req_states b' = req_states b @ [Some (senderState pk, src pk)]
         \<and> unat (outstandingResponses b') = unat (outstandingResponses b) + 1" using r by blast
qed

text \<open>A bridge with room for one request and two responses, and packets from port 3.\<close>

definition sample_bridge :: Bridge where
  "sample_bridge = Bridge_new 1000 2000 2 1 []"

definition from3 :: "Command \<Rightarrow> Packet" where
  "from3 c = (sample_pkt c 64 8 None)\<lparr>src := 3, flags := 0x300\<rparr>"

lemma from3_simps: "isSrcValid (from3 c)" "\<not> memInhibitAsserted (from3 c)" "cmd (from3 c) = c"
  by (simp_all add: from3_def isSrcValid_def InvalidPortID_def memInhibitAsserted_def sample_pkt_def isSet_def pkt_flag_defs)

lemma sample_bridge_run: "can_run 0 0 sample_bridge"
  by (simp add: can_run_def sample_bridge_def Bridge_new_def Let_def ticksToCycles_def ClockedObject_new_def)

lemma sample_bridge_start: "bridge_reach sample_bridge sample_bridge env0"
  by (rule bridge_reach.start)

text \<open>The second of two requests is refused; when the first one leaves, its sender is told to try again.\<close>

theorem bridge_safe_witness:
  "\<exists>b g b' out. bridge_reach sample_bridge b g \<and> stalled g \<and> unat (outstandingResponses b) = length (m_list b) + length (s_list b)
     \<and> bridge_do 2000 (SendRequest True) b = Some (b', out) \<and> out = RetrySent"
proof -
  have run0: "can_run 0 (now env0) sample_bridge" using sample_bridge_run by (simp add: env0_def)
  have may: "may_do cur (Offer (from3 c)) b g" for cur c b g by (simp add: from3_simps)
  have "map_option (\<lambda>(b', out). (m_event b', s_event b', clock b', s_delay b', m_delay b', out)) (bridge_do 0 (Offer (from3 ReadReq)) sample_bridge)
      = Some (Some 2000, None, 1000, 2, 2, Accepted)" by code_simp
  then obtain b1 where b1: "bridge_do 0 (Offer (from3 ReadReq)) sample_bridge = Some (b1, Accepted)" "m_event b1 = Some 2000"
    "s_event b1 = None" "clock b1 = 1000" "s_delay b1 = 2" "m_delay b1 = 2" by (auto simp del: bridge_do.simps)
  define g1 where "g1 = (learn (Offer (from3 ReadReq)) sample_bridge b1 env0)\<lparr>stalled := hears Accepted (stalled env0), now := unat (0 :: tick)\<rparr>"
  have r1: "bridge_reach sample_bridge b1 g1" unfolding g1_def by (rule bridge_reach.step [OF sample_bridge_start run0 may b1(1)])
  have g1: "now g1 = 0" "flying g1 = []" by (simp_all add: g1_def env0_def)
  have run1: "can_run 0 (now g1) b1" using g1 b1 by (simp add: can_run_def)
  have "map_option snd (Option.bind (bridge_do 0 (Offer (from3 ReadReq)) sample_bridge) (\<lambda>(b, _). bridge_do 0 (Offer (from3 ReadReq)) b)) = Some Refused"
    "map_option (\<lambda>(b', out). (m_event b', s_event b', clock b', s_delay b', m_delay b'))
        (Option.bind (bridge_do 0 (Offer (from3 ReadReq)) sample_bridge) (\<lambda>(b, _). bridge_do 0 (Offer (from3 ReadReq)) b))
      = Some (Some 2000, None, 1000, 2, 2)" by code_simp+
  then obtain b2 where b2: "bridge_do 0 (Offer (from3 ReadReq)) b1 = Some (b2, Refused)" "m_event b2 = Some 2000"
    "s_event b2 = None" "clock b2 = 1000" "s_delay b2 = 2" "m_delay b2 = 2" using b1(1) by (auto simp del: bridge_do.simps)
  define g2 where "g2 = (learn (Offer (from3 ReadReq)) b1 b2 g1)\<lparr>stalled := hears Refused (stalled g1), now := unat (0 :: tick)\<rparr>"
  have r2: "bridge_reach sample_bridge b2 g2" unfolding g2_def by (rule bridge_reach.step [OF r1 run1 may b2(1)])
  have g2: "now g2 = 0" "flying g2 = []" "stalled g2" using g1 by (simp_all add: g2_def)
  have may2: "can_run 2000 (now g2) b2" "may_do 2000 (SendRequest True) b2 g2" using g2 b2 by (simp_all add: can_run_def)
  have "(0 :: tick) < 1000" by simp
  note safe = bridge_safe [OF this r2 [unfolded sample_bridge_def]]
  have "unat (outstandingResponses b2) = length (m_list b2) + length (flying g2) + length (s_list b2)" using safe by blast
  moreover obtain b' out where "bridge_do 2000 (SendRequest True) b2 = Some (b', out)" "out = RetrySent \<longleftrightarrow> stalled g2 \<and> makes_room (SendRequest True) b2"
    using safe may2 by blast
  ultimately have "bridge_reach sample_bridge b2 g2 \<and> stalled g2 \<and> unat (outstandingResponses b2) = length (m_list b2) + length (s_list b2)
     \<and> bridge_do 2000 (SendRequest True) b2 = Some (b', out) \<and> out = RetrySent"
    using r2 g2(2,3) by (simp del: bridge_do.simps)
  then show ?thesis by blast
qed

theorem bridge_drops_writebacks_witness:
  "br_recvTimingReq 0 (from3 Writeback) sample_bridge = Some (True, sample_bridge)
   \<and> (\<exists>b'. br_recvTimingReq 0 (from3 ReadReq) sample_bridge = Some (True, b') \<and> req_states b' = [Some (None, 3)])"
proof -
  have s: "\<not> retryReq sample_bridge" "length (m_list sample_bridge) \<noteq> unat (reqQueueLimit sample_bridge)"
    "outstandingResponses sample_bridge \<noteq> respQueueLimit sample_bridge" "req_states sample_bridge = []"
    by (simp_all add: sample_bridge_def Bridge_new_def Let_def)
  have c: "\<not> needsResponse (cmd (from3 Writeback))" "needsResponse (cmd (from3 ReadReq))" unfolding from3_simps by code_simp+
  have p: "senderState (from3 ReadReq) = None" "src (from3 ReadReq) = 3" by (simp_all add: from3_def sample_pkt_def)
  have run: "can_run 0 (now env0) sample_bridge" using sample_bridge_run by (simp add: env0_def)
  note t = bridge_drops_writebacks [OF s(1,2), of _ 0 1000 2000 2 1 "[]" env0, folded sample_bridge_def]
  show ?thesis using t [of "from3 Writeback"] t [of "from3 ReadReq"] c s(3,4) p from3_simps sample_bridge_start run by auto
qed

end
