(* ===== verification/Load_Locked.thy ===== *)
theory Load_Locked
imports Cache_Memory
begin

text \<open>
  Load-locked and store-conditional on a block of the cache: the lock list of
  \<open>mem/cache/blk.hh\<close> as \<open>satisfyCpuSideRequest\<close> of \<open>mem/cache/cache_impl.hh\<close>
  drives it, over all accesses that the block satisfies.
\<close>

subsection \<open>Reservations\<close>

text \<open>Accesses after which the cache gives up its copy: a whole-block read for an exclusive copy, and an upgrade.\<close>

definition gives_up :: "32 word \<Rightarrow> Packet \<Rightarrow> bool" where
  "gives_up bs pk = (if isRead (cmd pk) then needsExclusive (cmd pk) \<and> pkt_size pk = bs else True)"

text \<open>
  The specification, on the history with the latest access first: a context
  holds a reservation when it issued a load-locked after the last write, and
  the block was not given up since.  A swap is no write here.
\<close>

fun reserved :: "32 word \<Rightarrow> lock \<Rightarrow> Packet list \<Rightarrow> bool" where
  "reserved bs x [] = False"
| "reserved bs x (pk # pks) =
     (if cmd pk = SwapReq then reserved bs x pks
      else if isWrite (cmd pk) \<or> gives_up bs pk then False
      else (isLLSC (cmd pk) \<and> req_contextId (req pk) = x) \<or> reserved bs x pks)"

text \<open>
  The caches in which the block at \<open>p\<close> has satisfied the accesses of a
  history, from a moment without locks.  Between two accesses anything may
  happen to the cache that leaves the locks of this block alone.
\<close>

inductive lock_history :: "('a LRU_scheme) vtable \<Rightarrow> 32 word \<Rightarrow> BlkPtr \<Rightarrow> Packet list \<Rightarrow> 'a Cache \<Rightarrow> bool" for vt bs p where
  unlocked: "get_blk p c = Some b \<Longrightarrow> lockList b = [] \<Longrightarrow> c_blkSize c = bs \<Longrightarrow> lock_history vt bs p [] c"
| accessed: "lock_history vt bs p pks c \<Longrightarrow> satisfyCpuSideRequest vt deferred_response pending_downgrade p pk c = Some (pk', c')
    \<Longrightarrow> lock_history vt bs p (pk # pks) c'"
| elsewhere: "lock_history vt bs p pks c \<Longrightarrow> get_blk p c = Some b \<Longrightarrow> get_blk p c' = Some b' \<Longrightarrow> lockList b' = lockList b
    \<Longrightarrow> c_blkSize c' = bs \<Longrightarrow> lock_history vt bs p pks c'"

subsection \<open>What an access does to the locks\<close>

lemma get_put_blk: "get_blk p c = Some b \<Longrightarrow> get_blk p (put_blk p b' c) = Some b'"
  by (cases p) (auto simp: get_blk_def put_blk_def at_def split: if_splits)

lemma put_blkSize [simp]: "c_blkSize (put_blk p b c) = c_blkSize c"
  by (cases p) (simp_all add: put_blk_def)

lemma put_blk_twice: "put_blk p b' (put_blk p b c) = put_blk p b' c"
  by (cases p) (simp_all add: put_blk_def)

lemma invalidate_locks:
  assumes "invalidate_ptr vt p tid c = Some c'"
  shows "\<exists>b. get_blk p c' = Some b \<and> lockList b = []" "c_blkSize c' = c_blkSize c"
  using assms
  by (auto simp: invalidate_ptr_def get_blk_def at_def invalidateBlk_def clearLoadLocks_def upd_at_def bind_eq_Some_conv Let_def
      split: BlkPtr.splits if_splits)

lemma cmpAndSwap_locks:
  assumes "cmpAndSwap p pk c = Some (pk', c')" "get_blk p c = Some b"
  shows "\<exists>b'. get_blk p c' = Some b' \<and> lockList b' = lockList b" "c_blkSize c' = c_blkSize c"
  using assms by (auto simp: cmpAndSwap_def bind_eq_Some_conv Let_def get_put_blk split: if_splits)

lemma read_whole_block_locks:
  assumes "read_whole_block vt dr pd p pk c = Some (pk', c')" "get_blk p c = Some b"
  shows "\<exists>b'. get_blk p c' = Some b' \<and> lockList b' = (if needsExclusive (cmd pk) then [] else lockList b)" "c_blkSize c' = c_blkSize c"
proof -
  show "\<exists>b'. get_blk p c' = Some b' \<and> lockList b' = (if needsExclusive (cmd pk) then [] else lockList b)"
  proof (cases "needsExclusive (cmd pk)")
    case True
    then show ?thesis using assms invalidate_locks(1) by (auto simp: read_whole_block_def bind_eq_Some_conv Let_def)
  next
    case False
    then show ?thesis using assms by (auto simp: read_whole_block_def get_put_blk split: if_splits)
  qed
  show "c_blkSize c' = c_blkSize c"
    using assms invalidate_locks(2) by (auto simp: read_whole_block_def bind_eq_Some_conv Let_def split: if_splits)
qed

lemma setDataFromBlock_cmd: "setDataFromBlock d bs pk = Some pk' \<Longrightarrow> cmd pk' = cmd pk"
  by (auto simp: setDataFromBlock_def setData_def bind_eq_Some_conv)

lemma satisfy_locks:
  assumes s: "satisfyCpuSideRequest vt dr pd p pk c = Some (pk', c')" and b: "get_blk p c = Some b"
  shows "\<exists>b'. get_blk p c' = Some b' \<and> lockList b' =
      (if cmd pk = SwapReq then lockList b else if isWrite (cmd pk) \<or> gives_up (c_blkSize c) pk then []
       else if isLLSC (cmd pk) then req_contextId (req pk) # lockList b else lockList b)
    \<and> c_blkSize c' = c_blkSize c"
proof -
  consider (swap) "cmd pk = SwapReq" | (wr) "cmd pk \<noteq> SwapReq" "isWrite (cmd pk)"
    | (rd) "cmd pk \<noteq> SwapReq" "\<not> isWrite (cmd pk)" "isRead (cmd pk)"
    | (up) "cmd pk \<noteq> SwapReq" "\<not> isWrite (cmd pk)" "\<not> isRead (cmd pk)" by blast
  then show ?thesis
  proof cases
    case swap
    then have "cmpAndSwap p pk c = Some (pk', c')"
      using s b by (auto simp: satisfyCpuSideRequest_def bind_eq_Some_conv split: if_splits)
    from cmpAndSwap_locks [OF this b] show ?thesis using swap by auto
  next
    case wr
    then show ?thesis
      using s b by (auto simp: satisfyCpuSideRequest_def bind_eq_Some_conv checkWrite_def clearLoadLocks_def get_put_blk split: if_splits)
  next
    case up
    then have "invalidate_ptr vt p (tid_of pk) c = Some c'"
      using s b by (auto simp: satisfyCpuSideRequest_def bind_eq_Some_conv split: if_splits)
    from invalidate_locks [OF this] show ?thesis using up by (auto simp: gives_up_def)
  next
    case rd
    obtain n b1 pk1 where n: "getSize pk = Some n" and b1: "(if isLLSC (cmd pk) then trackLoadLocked pk b else Some b) = Some b1"
      and pk1: "setDataFromBlock (blk_data b1) (c_blkSize c) pk = Some pk1"
      and r: "(if n = c_blkSize c then read_whole_block vt dr pd p pk1 (put_blk p b1 c) else Some (pk1, put_blk p b1 c)) = Some (pk', c')"
      using s b rd by (auto simp: satisfyCpuSideRequest_def bind_eq_Some_conv Let_def simp del: if_split split: if_split_asm)
    have sz: "n = pkt_size pk" using n by (simp add: getSize_def split: if_splits)
    have l1: "lockList b1 = (if isLLSC (cmd pk) then req_contextId (req pk) # lockList b else lockList b)"
      using b1 by (auto simp: trackLoadLocked_def contextId_def bind_eq_Some_conv split: if_splits)
    have g: "get_blk p (put_blk p b1 c) = Some b1" by (rule get_put_blk [OF b])
    show ?thesis
    proof (cases "n = c_blkSize c")
      case True
      then show ?thesis
        using r read_whole_block_locks [of vt dr pd p pk1 "put_blk p b1 c" pk' c' b1] g rd l1 sz setDataFromBlock_cmd [OF pk1]
        by (auto simp: gives_up_def)
    next
      case False
      then show ?thesis using r g rd l1 sz by (auto simp: gives_up_def)
    qed
  qed
qed

lemma lock_history_reserved:
  "lock_history vt bs p pks c \<Longrightarrow> \<exists>b. get_blk p c = Some b \<and> set (lockList b) = {x. reserved bs x pks} \<and> c_blkSize c = bs"
proof (induction rule: lock_history.induct)
  case (accessed pks c dr pd pk pk' c')
  then obtain b where b: "get_blk p c = Some b" "set (lockList b) = {x. reserved bs x pks}" "c_blkSize c = bs" by blast
  from satisfy_locks [OF accessed.hyps(2) b(1)] b(2,3) show ?case by auto
qed auto

subsection \<open>Properties\<close>

text \<open>
  C38: After any history of accesses that a block of the cache has satisfied, a
  store-conditional succeeds exactly when its context issued a load-locked after the
  last store of any context and after the last access by which the cache gave up its
  copy; swaps in between do not count, because they write the block without clearing its
  locks. The outcome is recorded in the request and all locks are cleared.
\<close>

theorem store_conditional_iff_reserved:
  assumes hist: "lock_history vt bs p pks c" and b: "get_blk p c = Some b"
    and pk: "cmd pk = StoreCondReq" "contextId (req pk) = Some x" "getOffset bs pk = Some off" "getSize pk = Some n"
      "off + ucast n \<le> ucast bs" "writeDataToBlock (blk_data b) bs pk = Some d"
  shows "\<exists>pk'. satisfyCpuSideRequest vt dr pd p pk c = Some (pk', put_blk p
       (if reserved bs x pks then b \<lparr>lockList := [], blk_data := d, status := status b OR BlkDirty\<rparr> else b \<lparr>lockList := []\<rparr>) c)
     \<and> getExtraData (req pk') = Some (if reserved bs x pks then 1 else 0)"
proof -
  have cmds: "isLLSC StoreCondReq" "isWrite StoreCondReq" by code_simp+
  have l: "set (lockList b) = {x. reserved bs x pks}" "c_blkSize c = bs"
    using lock_history_reserved [OF hist] b by auto
  have m: "matching_lock (req pk) (lockList b) = Some (reserved bs x pks)"
    using matching_lock_iff [OF pk(2)] l(1) by simp
  have "writeDataToBlock (blk_data b) bs (pk \<lparr>req := r\<rparr>) = Some d" for r
    using pk(6) by (simp add: writeDataToBlock_def getOffset_def getAddr_def getPtr_def getSize_def)
  moreover have "flags_set f VALID_EXTRA_DATA AND VALID_EXTRA_DATA \<noteq> 0" for f
    by (auto simp: flags_defs VALID_EXTRA_DATA_def bit_eq_iff bit_simps exI [of _ 7])
  ultimately show ?thesis
    using pk l(2) m b cmds
    by (cases "reserved bs x pks")
      (simp_all add: satisfyCpuSideRequest_def checkWrite_def clearLoadLocks_def setExtraData_def getExtraData_def isSet_def)
qed

text \<open>A load-locked of context 3, a swap of context 5 to the same word, and the store conditional of context 3.\<close>

definition ctx_pkt :: "Command \<Rightarrow> 32 word \<Rightarrow> Packet" where
  "ctx_pkt c ctx = (sample_pkt c 0x40 4 (Some [5, 6, 7, 8])) \<lparr>req := setThreadContext ctx 0 sample_request\<rparr>"

definition locked_cache :: "unit Cache" where
  "locked_cache = (sample_cache (raw_tags \<lparr>blkMask := 7\<rparr>)) \<lparr>c_blkSize := 8, tempBlock := CacheBlk_new \<lparr>blk_data := [1, 2, 3, 4, 0, 0, 0, 0]\<rparr>\<rparr>"

lemma ctx_pkt_fields:
  "contextId (req (ctx_pkt c x)) = Some x" "req_contextId (req (ctx_pkt c x)) = x" "cmd (ctx_pkt c x) = c"
  "getOffset 8 (ctx_pkt c x) = Some 0" "getSize (ctx_pkt c x) = Some 4" "getPtr (ctx_pkt c x) = Some [5, 6, 7, 8]"
  "getAddr (ctx_pkt c x) = Some 0x40" "data (ctx_pkt c x) = Some [5, 6, 7, 8]" "pkt_size (ctx_pkt c x) = 4"
  "\<not> isCondSwap (req (ctx_pkt c x))"
  by (simp_all add: contextId_def getOffset_def getPtr_def getSize_def getAddr_def isCondSwap_def ctx_pkt_def setThreadContext_def
      sample_request_def sample_pkt_def flags_defs pkt_flag_defs req_flag_defs)

lemma lock_cmds:
  "\<not> isWrite LoadLockedReq" "isRead LoadLockedReq" "isLLSC LoadLockedReq" "\<not> needsExclusive LoadLockedReq"
  by code_simp+

theorem store_conditional_iff_reserved_witness:
  "\<exists>pk1 c1 pk2 c2 pk3 c3.
     satisfyCpuSideRequest LRU_vt False False Temp (ctx_pkt LoadLockedReq 3) locked_cache = Some (pk1, c1)
     \<and> satisfyCpuSideRequest LRU_vt False False Temp (ctx_pkt SwapReq 5) c1 = Some (pk2, c2)
     \<and> satisfyCpuSideRequest LRU_vt False False Temp (ctx_pkt StoreCondReq 3) c2 = Some (pk3, c3) \<and> getExtraData (req pk3) = Some 1"
proof -
  note ev = satisfyCpuSideRequest_def lock_cmds ctx_pkt_fields get_blk_def put_blk_def memcpy_at_def
  define b where "b = (CacheBlk_new \<lparr>blk_data := [1, 2, 3, 4, 0, 0, 0, 0]\<rparr>) \<lparr>lockList := [3]\<rparr>"
  define c1 where "c1 = put_blk Temp b locked_cache"
  define c2 where "c2 = put_blk Temp (b \<lparr>blk_data := [5, 6, 7, 8, 0, 0, 0, 0], status := status b OR BlkDirty\<rparr>) c1"
  obtain pk1 where s1: "satisfyCpuSideRequest LRU_vt False False Temp (ctx_pkt LoadLockedReq 3) locked_cache = Some (pk1, c1)"
    by (simp add: ev locked_cache_def trackLoadLocked_def setDataFromBlock_def setData_def CacheBlk_new_def b_def c1_def)
  have f1: "c_blkSize c1 = 8" "tempBlock c1 = b" "blkMask (tags c1) = 7" by (simp_all add: c1_def put_blk_def locked_cache_def sample_cache_def)
  have bd: "blk_data b = [1, 2, 3, 4, 0, 0, 0, 0]" by (simp add: b_def)
  obtain pk2 where s2: "satisfyCpuSideRequest LRU_vt False False Temp (ctx_pkt SwapReq 5) c1 = Some (pk2, c2)"
    by (simp add: ev f1 cmpAndSwap_def extractBlkOffset_def setData_def swap_condition_def bd c2_def)
  have "lock_history LRU_vt 8 Temp [] locked_cache"
    by (rule lock_history.unlocked [where b = "tempBlock locked_cache"]) (simp_all add: get_blk_def locked_cache_def CacheBlk_new_def)
  from lock_history.accessed [OF lock_history.accessed [OF this s1] s2]
  have h: "lock_history LRU_vt 8 Temp [ctx_pkt SwapReq 5, ctx_pkt LoadLockedReq 3] c2" .
  have g: "get_blk Temp c2 = Some (tempBlock c2)" "blk_data (tempBlock c2) = [5, 6, 7, 8, 0, 0, 0, 0]"
    by (simp_all add: get_blk_def c2_def put_blk_def)
  have w: "writeDataToBlock (blk_data (tempBlock c2)) 8 (ctx_pkt StoreCondReq 3) = Some [5, 6, 7, 8, 0, 0, 0, 0]"
    by (simp add: writeDataToBlock_def ctx_pkt_fields g(2) memcpy_at_def)
  have le: "0 + ucast (4 :: 32 word) \<le> (ucast (8 :: 32 word) :: addr)" by simp
  have "reserved 8 3 [ctx_pkt SwapReq 5, ctx_pkt LoadLockedReq 3]"
    by (simp add: gives_up_def ctx_pkt_fields lock_cmds)
  then show ?thesis
    using store_conditional_iff_reserved [OF h g(1) ctx_pkt_fields(3,1,4,5) le w, of False False] s1 s2 by auto
qed

end
