(* ===== verification/Spec2Isabelle.thy ===== *)
theory Spec2Isabelle
imports Int_Math Tags_Partition Tags_Dynamic Tags_Umon Tags_Evict Cache_Set MSHR_Machine RR_Buses Cache_Memory Packet_Queue Dynamic_Cache Timing_Order Dirty_Fill Event_Loop Mem_Bridge Load_Locked
begin

text \<open>
  Verification of the secure memory system of DynamicCache, a version of the
  gem5 simulator in which caches and buses are partitioned between security
  domains.  All paths are relative to \<open>src/src\<close>.

  \<^bold>\<open>The program.\<close>  Processors send packets (\<open>mem/packet.hh\<close>) that carry requests
  (\<open>mem/request.hh\<close>) to a hierarchy of caches (\<open>mem/cache\<close>).  A cache looks an
  address up in its tag store (\<open>mem/cache/tags\<close>), serves hits from the block's
  data, and sends misses and writebacks over a bus (\<open>mem/rr_bus.cc\<close>) towards the
  memory (\<open>mem/abstract_mem.cc\<close>).  Misses in flight live in an MSHR queue
  (\<open>mem/cache/mshr_queue.cc\<close>).  The program's own additions are the partitioned
  tag stores, the thread and label fields of packets, the queues per thread, the
  controllers that resize partitions while the program runs, and the bus that
  gives every domain fixed time slots.  All of them are driven by an event queue
  (\<open>sim/eventq.cc\<close>), which calls back the handlers that were scheduled.

  \<^bold>\<open>Conventions.\<close>  \<open>Base_Prelude\<close>: integers are words of the width of the code;
  a failed \<open>assert\<close>, a \<open>panic\<close>, a null dereference and an access outside an array
  are the value \<^term>\<open>None\<close>; \<open>fatal\<close> in a constructor is the left component of a sum.
  Objects shared by pointer live in stores indexed by natural numbers.  Time is
  an argument of the operations.  What is not modelled but called from the modelled
  code (the peer of a port, the contents of fresh storage, the number a
  random generator returns, the values read from a file) is a parameter.

  \<^bold>\<open>Theories.\<close>
  \<^item> \<open>Int_Math\<close>: \<open>base/intmath.hh\<close>.  \<open>Mem_Cmd\<close>, \<open>Mem_Request\<close>, \<open>Mem_Packet\<close>: the command
    table, requests, packets and functional accesses (\<open>mem/packet.hh\<close>,
    \<open>packet.cc\<close>, \<open>request.hh\<close>, \<open>base/flags.hh\<close>).
  \<^item> \<open>Cache_Blk\<close>, \<open>Cache_Set\<close>: a block with its load-locked reservations and a set
    with its recency order (\<open>cache/blk.hh\<close>, \<open>tags/cacheset.cc\<close>).
  \<^item> \<open>Tags_LRU\<close>, \<open>Tag_Layout\<close>: the LRU store (\<open>tags/lru.cc\<close>), and the interface
    \<open>tag_layout\<close> that a subclass satisfies by overriding \<open>get_set\<close> and
    \<open>assoc_of_tc\<close>.  Inside the locale every operation refines a recency list per
    partition, from which noninterference follows once for all stores.
  \<^item> \<open>Tags_Partition\<close>: interpretations for \<open>WPLRU\<close>, \<open>SPLRU\<close> and \<open>DCLRU\<close>.
    \<open>Tags_Dynamic\<close>, \<open>Tags_Umon\<close>, \<open>Tags_Evict\<close>: the resizable stores \<open>C_DYNALRU\<close> and
    \<open>F_DYNALRU\<close>, the utility monitor against a reference cache, and the marking of
    blocks for eviction.
  \<^item> \<open>Cache_MSHR\<close>, \<open>MSHR_Queue\<close>, \<open>MSHR_Machine\<close>: MSHRs, their targets and queues, and
    the guarded step relation whose reachable states are shown safe; the chains of
    upstream MSHRs are followed through any number of levels.
  \<^item> \<open>Abstract_Mem\<close>: the memory.  \<open>Cache_Access\<close>: the access path and the atomic mode
    of \<open>cache/cache_impl.hh\<close>.  \<open>Cache_Store\<close>, \<open>Cache_Atomic\<close>, \<open>Cache_Memory\<close>: the
    cache's blocks as a map, the interface \<open>memory_below\<close> of the next level, the
    proof that a cache over it is a flat memory, and its interpretation on
    \<open>SimpleMemory\<close>.  \<open>Load_Locked\<close>: over all accesses that a block satisfies, a
    store-conditional succeeds when its context holds a reservation.
  \<^item> \<open>Packet_Queue\<close>: the deferred packets of a port (\<open>mem/packet_queue.cc\<close>), driven by
    its event, its peer and re-entrant enqueues; they leave in order and none is
    stranded, and what a retry does that the queue does not wait for.
  \<^item> \<open>Base_Cache\<close>: the state around the access path, with ports, blocking causes,
    write buffers and the queues that the split caches keep per thread
    (\<open>cache/base.cc\<close>, \<open>split_mshr_cache.hh\<close>, \<open>split_rport_cache.hh\<close>).
    \<open>Dynamic_Cache\<close>: the controllers that resize the partitions
    (\<open>c_dynamic_cache.hh\<close>, \<open>f_dynamic_cache.hh\<close>), what a resize writes back and
    hands over, and what their estimates measure.
  \<^item> \<open>Cache_Snoop\<close>: snoops from other caches and functional accesses, in both modes of
    \<open>cache/cache_impl.hh\<close>.  \<open>Snoop_Coherence\<close>: inside the locale \<open>tag_layout\<close>, a snoop
    downgrades or invalidates exactly the block it asks for, supplies its bytes when
    it is modified, and leaves the other partitions alone; a writeback that waits in
    the buffer answers in place of its block.  The caches above are silent there or
    say that a block is shared; when one answers a snooped writeback too, it fails.
  \<^item> \<open>Cache_Timing\<close>: the timing mode (\<open>timingAccess\<close>, \<open>handleResponse\<close>,
    \<open>getTimingPacket\<close>, the queues of the port to the memory).  \<open>Timing_Order\<close>: which
    request goes out next, and what the queue constructed with thread number 5 does
    in a split cache.
  \<^item> \<open>Dirty_Cache\<close>: the cache with two labels (\<open>dirty_cache.hh\<close>), which looks blocks up
    by read and write label and moves a High copy to Low when Low fetches its block.
    \<open>Dirty_Fill\<close>: what such a fill does to both partitions, and what the inherited
    code does with a block of the other partition.
  \<^item> \<open>Clocked_Object\<close>, \<open>RR_Slots\<close>, \<open>RR_Layer\<close>: the clock of an object, the slot
    arithmetic of the round-robin bus, and its layers.  \<open>Isolation\<close>: an abstract
    machine of independent domains as the locale \<open>independent_domains\<close>.
    \<open>RR_Machine\<close> interprets it on a layer with its events, which gives
    noninterference between domains and that no retry is lost.
  \<^item> \<open>Range_Map\<close>, \<open>Bus_Routing\<close>, \<open>RR_Buses\<close>: address decoding and the handlers of the
    coherent and the non-coherent round-robin bus.
  \<^item> \<open>Mem_Bridge\<close>: the bridge between two buses (\<open>mem/bridge.cc\<close>) and a machine of what
    its peers can do, whose reachable states respect the limits of the queues and
    in which every refused sender gets its retry when room is made.
  \<^item> \<open>Event_Queue\<close>: the linked lists of the event queue in a store of events, which are
    shown to implement a list sorted by tick and priority, and the check
    \<open>debugVerify\<close>.  \<open>Event_Sim\<close>: the flags of events, scheduling, servicing and
    checkpoints (\<open>sim/eventq.hh\<close>) with the invariant of all queues.  \<open>Event_Loop\<close>: the
    contract of a handler as the locale \<open>event_handler\<close>, \<open>simulate\<close> with its limit
    event and its loop (\<open>sim/simulate.cc\<close>), and the events that end a simulation
    (\<open>sim/sim_events.cc\<close>), with interpretations for handlers that make correct calls
    and for \<open>SimLoopExitEvent\<close>.

  \<^bold>\<open>Bounds.\<close>  Loops are structural or have a measure, but for the walks along the
  pointers of an event queue and \<open>serviceEvents\<close>, which are partial functions: their
  lemmas say that they return.  The simulation loop takes the number of its turns.
  The slot arithmetic is exact while no product of ticks exceeds 64 bits; the
  hypotheses \<open>room\<close> and the bound \<open>N\<close> of \<open>RR_Slots\<close> say how many cycles are left
  before that.  \<open>calcFinishTime\<close> multiplies in an \<open>int\<close> of the code, which a transfer
  of about \<open>2 ^ 31\<close> cycles would overflow; the model multiplies without bound.  The
  products that size the arrays of a tag store wrap at 32 bits in the code; the
  model builds the unwrapped number of blocks.  A legal sequence of bus events is one that the event queue can
  produce: times do not decrease and a scheduled event runs at its time.
  \<open>memory_below\<close> is used with blocks smaller than 2 GB, the largest size that
  the constructor of a request accepts.

  \<^bold>\<open>Not modelled.\<close>  The processor and device models, the instruction sets, Ruby, the DRAM
  simulator, signals, prefetchers, the fully associative and indirect tag stores,
  statistics, the text of checkpoints and printing: inherited from the simulator and
  untouched by the partitioning, or pure output.  Without a prefetcher, the last
  branch of \<open>getNextMSHR\<close> (\<open>cache_impl.hh\<close>, lines 1522 to 1543) is never taken.  The
  fill of \<open>tempBlock\<close> when no victim is found is a branch of the model on which no
  property rests; requests to a bridge whose memory response is inhibited are
  outside its machine, since their reservation is never freed.
\<close>

end
